(* ===== verification/Prelude.thy ===== *)
theory Prelude
  imports Main "HOL-Library.Word"
begin

text \<open>
  Shared vocabulary of the Knowdy development: the machine types, the error
  codes of \<^verbatim>\<open>include/knd_err.h\<close>, the limits of \<^verbatim>\<open>include/knd_config.h\<close>, the
  collections of simplification rules and the generic lemmas on lists, words
  and buffers that the component theories use.
\<close>

unbundle bit_operations_syntax

named_theorems knd_simps \<open>defining equations of the model's small operations\<close>
named_theorems knd_inv \<open>preservation facts of component invariants\<close>

section \<open>Machine types\<close>

text \<open>
  The code is compiled for LP64: \<^verbatim>\<open>size_t\<close> and \<^verbatim>\<open>long\<close> have 64 bits, \<^verbatim>\<open>int\<close> has
  32, \<^verbatim>\<open>char\<close> has 8 bits and is signed. A buffer is the list of its bytes.
\<close>

type_synonym byte = "8 word"
type_synonym cint = "32 word"
type_synonym size_t = "64 word"

section \<open>Errors\<close>

text \<open>
  The codes of \<open>knd_err_codes\<close> except \<open>knd_OK\<close>, which is the \<open>Inr\<close> side of a
  result. \<open>Stuck\<close> marks executions the C standard leaves undefined (an access
  outside an array, a failed assertion): a theorem that an operation is not
  stuck is a memory safety statement.
\<close>

datatype knd_err = knd_FAIL | knd_NOMEM | knd_CONFLICT | knd_LIMIT | knd_RANGE | knd_AUTH
  | knd_INVALID_DATA | knd_ACCESS | knd_NO_MATCH | knd_FORMAT | knd_IO_FAIL | knd_EXISTS

datatype failure = Err knd_err | Stuck

type_synonym 'a result = "failure + 'a"

definition bind_result :: "'a result \<Rightarrow> ('a \<Rightarrow> 'b result) \<Rightarrow> 'b result" where
  "bind_result r f = (case r of Inl e \<Rightarrow> Inl e | Inr x \<Rightarrow> f x)"

lemma bind_result_simps [simp]:
  "bind_result (Inl e) f = Inl e"
  "bind_result (Inr x) f = f x"
  by (simp_all add: bind_result_def)

lemma bind_result_eq_Inr:
  "bind_result r f = Inr y \<longleftrightarrow> (\<exists>x. r = Inr x \<and> f x = Inr y)"
  by (cases r) simp_all

text \<open>
  A stateful operation returns the error, if any, and the new state; a sequence of them
  stops at the first error, the state of that moment kept (\<^verbatim>\<open>RET_ERR\<close>).
\<close>

fun then_step :: "failure option \<times> 's \<Rightarrow> ('s \<Rightarrow> failure option \<times> 's) \<Rightarrow> failure option \<times> 's" where
  "then_step (Some e, s) k = (Some e, s)"
| "then_step (None, s) k = k s"

lemma then_step_None: "then_step r k = (None, s') \<longleftrightarrow> (\<exists>s. r = (None, s) \<and> k s = (None, s'))"
  by (cases r; cases "fst r") auto

text \<open>The same step for each element of a list.\<close>

fun each_step :: "('a \<Rightarrow> 's \<Rightarrow> failure option \<times> 's) \<Rightarrow> 'a list \<Rightarrow> 's \<Rightarrow> failure option \<times> 's" where
  "each_step f [] s = (None, s)"
| "each_step f (x # xs) s = then_step (f x s) (each_step f xs)"

text \<open>An operation with a result keeps the state on both sides.\<close>

type_synonym ('s, 'a) outcome = "(failure \<times> 's) + ('a \<times> 's)"

definition bind_out :: "('s, 'a) outcome \<Rightarrow> ('a \<Rightarrow> 's \<Rightarrow> ('s, 'b) outcome) \<Rightarrow> ('s, 'b) outcome" where
  "bind_out r f = (case r of Inl e \<Rightarrow> Inl e | Inr (x, s) \<Rightarrow> f x s)"

lemma bind_out_simps [simp]:
  "bind_out (Inl e) f = Inl e"
  "bind_out (Inr (x, s)) f = f x s"
  by (simp_all add: bind_out_def)

lemma bind_out_eq_Inr:
  "bind_out r f = Inr y \<longleftrightarrow> (\<exists>x s. r = Inr (x, s) \<and> f x s = Inr y)"
  by (cases r) auto

section \<open>Limits\<close>

abbreviation KND_RADIX_BASE :: nat where "KND_RADIX_BASE \<equiv> 62"
abbreviation KND_ID_SIZE :: nat where "KND_ID_SIZE \<equiv> 8"
abbreviation KND_UINT_SIZE :: nat where "KND_UINT_SIZE \<equiv> 4"
abbreviation KND_NAME_SIZE :: nat where "KND_NAME_SIZE \<equiv> 1016"
abbreviation KND_TEMP_BUF_SIZE :: nat where "KND_TEMP_BUF_SIZE \<equiv> 1024"
abbreviation KND_MAX_CLAUSES :: nat where "KND_MAX_CLAUSES \<equiv> 32"

section \<open>Bytes and text\<close>

definition bytes_of :: "string \<Rightarrow> byte list" where
  "bytes_of s = map of_char s"

section \<open>Arrays\<close>

text \<open>A C array write: outside the array the execution is stuck.\<close>

definition put_bytes :: "byte list \<Rightarrow> nat \<Rightarrow> byte list \<Rightarrow> byte list option" where
  "put_bytes mem off bs =
     (if off + length bs \<le> length mem
      then Some (take off mem @ bs @ drop (off + length bs) mem) else None)"

lemma put_bytes_Some:
  "off + length bs \<le> length mem \<Longrightarrow>
   put_bytes mem off bs = Some (take off mem @ bs @ drop (off + length bs) mem)"
  by (simp add: put_bytes_def)

lemma length_put_bytes: "put_bytes mem off bs = Some mem' \<Longrightarrow> length mem' = length mem"
  by (auto simp: put_bytes_def split: if_splits)

lemma take_put_bytes:
  assumes "put_bytes mem off bs = Some mem'"
  shows "take (off + length bs) mem' = take off mem @ bs"
  using assms by (auto simp: put_bytes_def split: if_splits)

lemma take_put_bytes_le:
  assumes "put_bytes mem off bs = Some mem'" and "n \<le> off"
  shows "take n mem' = take n mem"
  using assms by (auto simp: put_bytes_def min_def split: if_splits)

lemma nth_list_update_if:
  "j < length xs \<Longrightarrow> xs[i := v] ! j = (if i = j then v else xs ! j)"
  by (simp add: nth_list_update)

section \<open>Words\<close>

lemma unat_of_nat_size_t: "n < 2 ^ 64 \<Longrightarrow> unat (of_nat n :: size_t) = n"
  by (simp add: unat_of_nat take_bit_nat_eq_self)

lemma unat_byte_less: "unat (b :: byte) < 256"
  using unsigned_less [of b, where ?'a = nat] by simp

lemma unat_size_t_less: "unat (n :: size_t) < 2 ^ 64"
  using unsigned_less [of n, where ?'a = nat] by simp

text \<open>A property of bytes is checked on the 256 byte values.\<close>

lemma all_bytesI:
  fixes b :: byte
  assumes "list_all (\<lambda>n. P (of_nat n :: byte)) [0..<256]"
  shows "P b"
proof -
  have "unat b \<in> set [0..<256]" using unat_byte_less [of b] by simp
  with assms have "P (of_nat (unat b))" by (metis list_all_iff)
  then show ?thesis by simp
qed

lemma sint_size_t_bounds: "- (2 ^ 63) \<le> sint (a :: size_t)" "sint (a :: size_t) < 2 ^ 63"
  using sint_greater_eq [of a] sint_lt [of a] by simp_all

lemma sint_of_int_size_t:
  "- (2 ^ 63) \<le> k \<Longrightarrow> k < 2 ^ 63 \<Longrightarrow> sint (word_of_int k :: size_t) = k"
  by (simp add: signed_of_int signed_take_bit_int_eq_self)

end
