(* ===== verification/Packing.thy ===== *)
theory Packing
  imports Prelude
begin

text \<open>
  The big-endian packing of unsigned numbers in \<^verbatim>\<open>src/knd_utils.c\<close>, used by the
  GSP set files for every block size and footer cell. The model returns the bytes
  written to the buffer; unpacking reads the first bytes of its argument, so a
  caller must supply at least \<open>byte_size\<close> of them.
\<close>

section \<open>Packing and unpacking\<close>

definition knd_min_bytes :: "size_t \<Rightarrow> nat" where
  "knd_min_bytes val =
     (if val < 256 then 1 else if val < 256 * 256 then 2 else if val < 256 * 256 * 256 then 3 else 4)"

definition knd_pack_u32 :: "size_t \<Rightarrow> byte list" where
  "knd_pack_u32 val = [ucast (drop_bit 24 val), ucast (drop_bit 16 val), ucast (drop_bit 8 val), ucast val]"

definition knd_pack_u24 :: "size_t \<Rightarrow> byte list" where
  "knd_pack_u24 val = [ucast (drop_bit 16 val), ucast (drop_bit 8 val), ucast val]"

definition knd_pack_u16 :: "size_t \<Rightarrow> byte list" where
  "knd_pack_u16 val = [ucast (drop_bit 8 val), ucast val]"

text \<open>
  A byte is promoted to a 32-bit \<^verbatim>\<open>int\<close> before the shift, and the \<^verbatim>\<open>int\<close> is
  sign-extended when it is combined with the 64-bit \<open>result\<close>. The shift of a byte from 128 by 24 is not
  defined in C; the model wraps, as compilers do.
\<close>

definition shifted_byte :: "byte \<Rightarrow> nat \<Rightarrow> size_t" where
  "shifted_byte b n = scast (push_bit n (ucast b :: cint))"

definition knd_unpack_u32 :: "byte list \<Rightarrow> size_t" where
  "knd_unpack_u32 buf =
     (let result = ucast (buf ! 3);
          result = result OR shifted_byte (buf ! 2) 8;
          result = result OR shifted_byte (buf ! 1) 16;
          result = result OR shifted_byte (buf ! 0) 24
      in result)"

definition knd_unpack_u24 :: "byte list \<Rightarrow> size_t" where
  "knd_unpack_u24 buf =
     (let result = ucast (buf ! 2);
          result = result OR shifted_byte (buf ! 1) 8;
          result = result OR shifted_byte (buf ! 0) 16
      in result)"

definition knd_unpack_u16 :: "byte list \<Rightarrow> size_t" where
  "knd_unpack_u16 buf =
     (let result = ucast (buf ! 1);
          result = result OR shifted_byte (buf ! 0) 8
      in result)"

definition knd_pack_int :: "size_t \<Rightarrow> nat \<Rightarrow> byte list" where
  "knd_pack_int numval byte_size =
     (if byte_size = 4 then knd_pack_u32 numval
      else if byte_size = 3 then knd_pack_u24 numval
      else if byte_size = 2 then knd_pack_u16 numval
      else [ucast numval])"

definition knd_unpack_int :: "byte list \<Rightarrow> nat \<Rightarrow> size_t" where
  "knd_unpack_int buf byte_size =
     (if byte_size = 4 then knd_unpack_u32 buf
      else if byte_size = 3 then knd_unpack_u24 buf
      else if byte_size = 2 then knd_unpack_u16 buf
      else ucast (buf ! 0))"

lemmas pack_defs = knd_pack_int_def knd_pack_u32_def knd_pack_u24_def knd_pack_u16_def
lemmas unpack_defs = knd_unpack_int_def knd_unpack_u32_def knd_unpack_u24_def knd_unpack_u16_def
  shifted_byte_def Let_def

section \<open>Sizes\<close>

lemma knd_min_bytes_range: "knd_min_bytes val \<in> {1, 2, 3, 4}"
  by (simp add: knd_min_bytes_def)

lemma knd_min_bytes_pos [simp]: "0 < knd_min_bytes val" and knd_min_bytes_le [simp]: "knd_min_bytes val \<le> 4"
  by (simp_all add: knd_min_bytes_def)

lemma length_knd_pack_int:
  "byte_size \<in> {1, 2, 3, 4} \<Longrightarrow> length (knd_pack_int val byte_size) = byte_size"
  by (auto simp: pack_defs)

lemma length_knd_pack_min_bytes [simp]:
  "length (knd_pack_int val (knd_min_bytes w)) = knd_min_bytes w"
  by (rule length_knd_pack_int) (rule knd_min_bytes_range)

lemma min_bytes_less:
  "unat val < 2 ^ 32 \<Longrightarrow> unat val < 256 ^ knd_min_bytes val"
  by (auto simp: knd_min_bytes_def word_less_nat_alt)

lemma min_bytes_mono: "v \<le> w \<Longrightarrow> knd_min_bytes v \<le> knd_min_bytes w"
  unfolding knd_min_bytes_def by (auto simp: word_less_nat_alt word_le_nat_alt)

section \<open>Bits of a packed number\<close>

lemma bit_below:
  assumes "unat (v :: size_t) < 2 ^ k" and "bit v n"
  shows "n < k"
proof (rule ccontr)
  assume "\<not> n < k"
  then have "(2 :: nat) ^ k \<le> 2 ^ n" by (intro power_increasing) simp_all
  with assms(1) have "unat v < 2 ^ n" by linarith
  then have "\<not> bit (unat v) n" by (simp add: bit_nat_def)
  with assms(2) show False by (simp add: bit_unsigned_iff)
qed

lemma bit_byte_less: "bit (b :: byte) k \<Longrightarrow> k < 8"
  using bit_imp_le_length [of b k] by simp

lemma bit_31I:
  assumes "2 ^ 31 \<le> unat (v :: size_t)" and "unat v < 2 ^ 32"
  shows "bit v 31"
proof -
  have "unat v div 2 ^ 31 = 1" using assms by (simp add: nat_eq_iff div_nat_eqI)
  then have "bit (unat v) 31" by (simp add: bit_iff_odd)
  then show ?thesis by (simp add: bit_unsigned_iff)
qed

lemma shifted_byte_low:
  assumes "n \<le> 16"
  shows "shifted_byte b n = push_bit n (ucast b)"
proof (rule bit_word_eqI)
  fix m assume "m < LENGTH(64)"
  show "bit (shifted_byte b n) m = bit (push_bit n (ucast b :: size_t)) m"
    using assms \<open>m < LENGTH(64)\<close>
    by (auto simp: shifted_byte_def bit_simps min_def not_le dest: bit_byte_less)
qed

lemma shifted_byte_top:
  "shifted_byte b 24 = push_bit 24 (ucast b) OR (if bit b 7 then NOT (mask 32) else 0)"
proof (rule bit_word_eqI)
  fix m assume m: "m < LENGTH(64)"
  have "m = 31 \<or> m < 31 \<or> 31 < m" by linarith
  then show "bit (shifted_byte b 24) m =
      bit (push_bit 24 (ucast b :: size_t) OR (if bit b 7 then NOT (mask 32) else 0)) m"
    using m by (auto simp: shifted_byte_def bit_simps min_def not_le dest: bit_byte_less)
qed

lemma ucast_byte: "(ucast (ucast (v :: size_t) :: byte) :: size_t) = take_bit 8 v"
  by (rule bit_word_eqI) (auto simp: bit_simps)

lemma take_bit_step:
  "take_bit n v OR push_bit n (take_bit 8 (drop_bit n v)) = take_bit (n + 8) (v :: size_t)"
  by (rule bit_word_eqI) (auto simp: bit_simps)

lemma take_bit_eq: "unat (v :: size_t) < 2 ^ k \<Longrightarrow> take_bit k v = v"
  by (rule bit_word_eqI) (auto simp: bit_simps dest: bit_below)

lemma unpack_pack_u16: "knd_unpack_u16 (knd_pack_u16 v @ rest) = take_bit 16 v"
  using take_bit_step [of 8 v]
  by (simp add: knd_unpack_u16_def knd_pack_u16_def Let_def shifted_byte_low ucast_byte)

lemma unpack_pack_u24: "knd_unpack_u24 (knd_pack_u24 v @ rest) = take_bit 24 v"
  using take_bit_step [of 8 v] take_bit_step [of 16 v]
  by (simp add: knd_unpack_u24_def knd_pack_u24_def Let_def shifted_byte_low ucast_byte)

lemma unpack_pack_u32:
  "knd_unpack_u32 (knd_pack_u32 v @ rest) =
     take_bit 32 v OR (if bit v 31 then NOT (mask 32) else 0)"
proof -
  have "bit (ucast (drop_bit 24 v) :: byte) 7 = bit v 31" by (simp add: bit_simps)
  then show ?thesis
    using take_bit_step [of 8 v] take_bit_step [of 16 v] take_bit_step [of 24 v]
    by (simp add: knd_unpack_u32_def knd_pack_u32_def Let_def shifted_byte_low shifted_byte_top
        ucast_byte or.assoc [symmetric])
qed

lemma unpack_pack_int:
  assumes "byte_size \<in> {1, 2, 3, 4}" and "unat val < 256 ^ byte_size" and "unat val < 2 ^ 31"
  shows "knd_unpack_int (knd_pack_int val byte_size @ rest) byte_size = val"
proof -
  have t: "take_bit (8 * byte_size) val = val"
    using assms(2) by (intro take_bit_eq) (simp add: power_mult)
  have "\<not> bit val 31" using bit_below [OF assms(3), of 31] by auto
  then show ?thesis using assms(1) t
    by (auto simp: knd_unpack_int_def knd_pack_int_def unpack_pack_u16 unpack_pack_u24
        unpack_pack_u32 ucast_byte)
qed

text \<open>C2: a block size below \<open>2\<^sup>3\<^sup>1\<close> packed into the fewest sufficient bytes is read back
  unchanged, whatever follows it in the buffer.\<close>
theorem pack_roundtrip:
  assumes "unat val < 2 ^ 31"
  shows "length (knd_pack_int val (knd_min_bytes val)) = knd_min_bytes val \<and>
    knd_unpack_int (knd_pack_int val (knd_min_bytes val) @ rest) (knd_min_bytes val) = val"
  using unpack_pack_int [OF knd_min_bytes_range min_bytes_less assms, of rest] assms by simp

theorem pack_roundtrip_witness:
  "length (knd_pack_int 70000 (knd_min_bytes 70000)) = knd_min_bytes 70000 \<and>
    knd_unpack_int (knd_pack_int 70000 (knd_min_bytes 70000) @ [1]) (knd_min_bytes 70000) = 70000"
  by (rule pack_roundtrip) simp

lemma four_bytes:
  "n div 16777216 * 16777216 + n div 65536 mod 256 * 65536 + n div 256 mod 256 * 256 + n mod 256 = (n :: nat)"
proof -
  have "n div 65536 = n div 256 div 256" "n div 16777216 = n div 256 div 256 div 256" by (simp_all flip: div_mult2_eq)
  show ?thesis unfolding \<open>n div 65536 = _\<close> \<open>n div 16777216 = _\<close>
    using div_mult_mod_eq [of n 256] div_mult_mod_eq [of "n div 256" 256] div_mult_mod_eq [of "n div 256 div 256" 256]
    by linarith
qed

lemma pack_u32_bytes:
  assumes "unat val < 2 ^ 32"
  shows "\<exists>b3 b2 b1 b0. knd_pack_u32 val = [b3, b2, b1, b0] \<and>
    unat b3 * 2 ^ 24 + unat b2 * 2 ^ 16 + unat b1 * 2 ^ 8 + unat b0 = unat val"
proof -
  have byte: "unat (ucast (drop_bit n val) :: byte) = unat val div 2 ^ n mod 256" for n
    using unsigned_less [where 'a = nat, of val]
    by (simp add: unsigned_ucast_eq unsigned_drop_bit_eq) (simp add: drop_bit_eq_div take_bit_eq_mod)
  have "unat val div 2 ^ 24 < 256" using assms by simp
  then show ?thesis using byte [of 24] byte [of 16] byte [of 8] byte [of 0] assms
    using four_bytes [of "unat val"] by (simp add: knd_pack_u32_def)
qed

text \<open>C19: from \<open>2\<^sup>3\<^sup>1\<close> to \<open>2\<^sup>3\<^sup>2\<close> the four bytes written are those of the number in base 256, but the reader shifts
  the top byte into the sign of an \<^verbatim>\<open>int\<close>: the number read back has its upper 32 bits set. (In C this
  shift is not defined; the model takes the result that compilers give.)\<close>
theorem pack_sign_extension:
  assumes "2 ^ 31 \<le> unat val" and "unat val < 2 ^ 32"
  shows "(\<exists>b3 b2 b1 b0. knd_pack_int val (knd_min_bytes val) = [b3, b2, b1, b0] \<and>
      unat b3 * 2 ^ 24 + unat b2 * 2 ^ 16 + unat b1 * 2 ^ 8 + unat b0 = unat val) \<and>
    knd_unpack_int (knd_pack_int val (knd_min_bytes val)) (knd_min_bytes val) =
      val OR NOT (mask 32) \<and>
    knd_unpack_int (knd_pack_int val (knd_min_bytes val)) (knd_min_bytes val) \<noteq> val"
proof -
  have m: "knd_min_bytes val = 4" using assms by (simp add: knd_min_bytes_def word_less_nat_alt)
  have t: "take_bit 32 val = val" using assms(2) by (rule take_bit_eq)
  have b: "bit val 31" using assms by (rule bit_31I)
  have read: "knd_unpack_int (knd_pack_int val (knd_min_bytes val)) (knd_min_bytes val) =
      val OR NOT (mask 32)"
    using unpack_pack_u32 [of val "[]"] b t m by (simp add: knd_unpack_int_def knd_pack_int_def)
  have "bit (val OR NOT (mask 32)) 40" by (simp add: bit_simps)
  moreover have "\<not> bit val 40" using bit_below [OF assms(2), of 40] by auto
  ultimately have "val OR NOT (mask 32) \<noteq> val" by metis
  moreover have "knd_pack_int val (knd_min_bytes val) = knd_pack_u32 val" using m by (simp add: knd_pack_int_def)
  ultimately show ?thesis using read pack_u32_bytes [OF assms(2)] by simp
qed

theorem pack_sign_extension_witness:
  "(\<exists>b3 b2 b1 b0. knd_pack_int (2 ^ 31) (knd_min_bytes (2 ^ 31)) = [b3, b2, b1, b0] \<and>
      unat b3 * 2 ^ 24 + unat b2 * 2 ^ 16 + unat b1 * 2 ^ 8 + unat b0 = unat (2 ^ 31 :: size_t)) \<and>
    knd_unpack_int (knd_pack_int (2 ^ 31) (knd_min_bytes (2 ^ 31))) (knd_min_bytes (2 ^ 31)) =
      2 ^ 31 OR NOT (mask 32) \<and>
    knd_unpack_int (knd_pack_int (2 ^ 31) (knd_min_bytes (2 ^ 31))) (knd_min_bytes (2 ^ 31)) \<noteq> 2 ^ 31"
  by (rule pack_sign_extension) simp_all

end
