(* ===== verification/Ident.thy ===== *)
theory Ident
  imports Prelude
begin

text \<open>
  The alphanumeric identifiers of \<^verbatim>\<open>src/knd_utils.c\<close>: the digit tables
  \<open>obj_id_base\<close> and \<open>obj_id_seq\<close>, the conversions \<open>knd_calc_num_id\<close> (identifier
  to number) and \<open>knd_num_to_str\<close> (number to identifier), and the inline
  wrappers of \<^verbatim>\<open>include/knd_utils.h\<close>. Every set of the database is keyed by these
  identifiers, so the round trips here carry the index components.
\<close>

section \<open>Digit tables\<close>

definition obj_id_base :: "int list" where
  "obj_id_base =
     replicate 48 (-1) @ [0,1,2,3,4,5,6,7,8,9] @ replicate 7 (-1) @
     [10,11,12,13,14,15,16,17,18,19,20,21,22,23,24,25,26,27,28,29,30,31,32,33,34,35] @
     replicate 6 (-1) @
     [36,37,38,39,40,41,42,43,44,45,46,47,48,49,50,51,52,53,54,55,56,57,58,59,60,61] @
     replicate 133 (-1)"

definition obj_id_seq :: "byte list" where
  "obj_id_seq = bytes_of ''0123456789ABCDEFGHIJKLMNOPQRSTUVWXYZabcdefghijklmnopqrstuvwxyz''"

definition id_pos :: "byte \<Rightarrow> int" where
  "id_pos c = obj_id_base ! unat c"

definition valid_digit :: "byte \<Rightarrow> bool" where
  "valid_digit c \<longleftrightarrow> id_pos c \<noteq> -1"

section \<open>Identifier to number\<close>

fun calc_num_id_loop :: "byte list \<Rightarrow> size_t \<Rightarrow> size_t \<Rightarrow> size_t option" where
  "calc_num_id_loop [] aggr base = Some aggr"
| "calc_num_id_loop (c # cs) aggr base =
     (let num = id_pos c in
      if num = -1 then None
      else calc_num_id_loop cs (aggr + of_int num * base) (base * of_nat KND_RADIX_BASE))"

text \<open>The output parameter keeps its old value when a digit is invalid.\<close>

definition knd_calc_num_id :: "byte list \<Rightarrow> size_t \<Rightarrow> size_t" where
  "knd_calc_num_id key numval =
     (case calc_num_id_loop key 0 1 of None \<Rightarrow> numval | Some aggr \<Rightarrow> aggr)"

definition knd_gsp_num_to_num :: "byte list \<Rightarrow> size_t \<Rightarrow> size_t" where
  "knd_gsp_num_to_num val num = knd_calc_num_id val num"

section \<open>Number to identifier\<close>

text \<open>
  \<open>ldiv\<close> divides signed numbers, truncating towards zero; the \<^verbatim>\<open>size_t\<close> argument
  is reinterpreted as \<^verbatim>\<open>long\<close>. A digit is read from the array of the 62 symbols
  and its terminating zero; a remainder outside it leaves the execution stuck,
  and so does a base below 2 (every caller passes \<open>KND_RADIX_BASE\<close>).
\<close>

definition ldiv_quot :: "size_t \<Rightarrow> size_t \<Rightarrow> int" where
  "ldiv_quot a b = sgn (sint a) * sgn (sint b) * (\<bar>sint a\<bar> div \<bar>sint b\<bar>)"

definition ldiv_rem :: "size_t \<Rightarrow> size_t \<Rightarrow> int" where
  "ldiv_rem a b = sint a - ldiv_quot a b * sint b"

lemma ldiv_quot_bound:
  assumes "a \<noteq> 0" and "2 \<le> sint b"
  shows "\<bar>ldiv_quot a b\<bar> < \<bar>sint a\<bar>"
proof -
  have "sint a \<noteq> 0" using assms(1) by (simp add: signed_eq_0_iff)
  moreover have "\<bar>x\<bar> div y < \<bar>x\<bar>" if "x \<noteq> 0" "2 \<le> y" for x y :: int
    using that by (intro int_div_less_self) auto
  ultimately show ?thesis using assms(2)
    by (simp add: ldiv_quot_def abs_mult abs_sgn_eq pos_imp_zdiv_nonneg_iff)
qed

lemma ldiv_quot_shrinks:
  assumes "a \<noteq> 0" and "2 \<le> sint b"
  shows "nat \<bar>sint (word_of_int (ldiv_quot a b) :: size_t)\<bar> < nat \<bar>sint a\<bar>"
proof -
  have q: "\<bar>ldiv_quot a b\<bar> < \<bar>sint a\<bar>" by (rule ldiv_quot_bound [OF assms])
  then have "sint (word_of_int (ldiv_quot a b) :: size_t) = ldiv_quot a b"
    using sint_size_t_bounds [of a] by (intro sint_of_int_size_t) linarith+
  with q show ?thesis by simp
qed

function num_to_str_loop :: "size_t \<Rightarrow> size_t \<Rightarrow> byte list result" where
  "num_to_str_loop curr_val base =
     (if curr_val = 0 then Inr []
      else if sint base < 2 then Inl Stuck
      else
        (let quot = ldiv_quot curr_val base; rem = ldiv_rem curr_val base in
         if rem < 0 \<or> rem > 62 then Inl Stuck
         else bind_result (num_to_str_loop (word_of_int quot) base)
                (\<lambda>ds. Inr ((obj_id_seq @ [0]) ! nat rem # ds))))"
  by pat_completeness auto
termination
proof (relation "measure (\<lambda>(v, b). nat \<bar>sint v\<bar>)", goal_cases)
  case 1 show ?case by simp
next
  case (2 v b quot rem)
  then show ?case using ldiv_quot_shrinks [of v b] by simp
qed

declare num_to_str_loop.simps [simp del]

definition knd_num_to_str :: "size_t \<Rightarrow> size_t \<Rightarrow> byte list result" where
  "knd_num_to_str numval base =
     (if numval = 0 then Inr [obj_id_seq ! 0] else num_to_str_loop numval base)"

definition knd_num_to_gsp_num :: "size_t \<Rightarrow> byte list result" where
  "knd_num_to_gsp_num num = knd_num_to_str num (of_nat KND_RADIX_BASE)"

definition knd_uid_create :: "size_t \<Rightarrow> byte list result" where
  "knd_uid_create seed = knd_num_to_str seed (of_nat KND_RADIX_BASE)"

section \<open>Facts on the tables\<close>

lemma length_obj_id_seq [simp]: "length obj_id_seq = 62"
  by (simp add: obj_id_seq_def bytes_of_def)

lemma length_obj_id_base [simp]: "length obj_id_base = 256"
  by (simp add: obj_id_base_def)

lemma obj_id_base_ranges:
  "obj_id_base = replicate 48 (-1) @ map int [0..<10] @ replicate 7 (-1) @ map int [10..<36] @
     replicate 6 (-1) @ map int [36..<62] @ replicate 133 (-1)"
  by (simp add: obj_id_base_def upt_rec)

lemma obj_id_base_nth:
  "n < 256 \<Longrightarrow> obj_id_base ! n =
     (if 48 \<le> n \<and> n < 58 then int (n - 48)
      else if 65 \<le> n \<and> n < 91 then int (n - 55)
      else if 97 \<le> n \<and> n < 123 then int (n - 61) else -1)"
  by (simp add: obj_id_base_ranges nth_append del: upt_rec_numeral) arith

lemma obj_id_seq_ranges: "obj_id_seq = map of_nat ([48..<58] @ [65..<91] @ [97..<123])"
  by (simp add: obj_id_seq_def bytes_of_def)

lemma obj_id_seq_nth:
  "i < 62 \<Longrightarrow> obj_id_seq ! i = of_nat (if i < 10 then i + 48 else if i < 36 then i + 55 else i + 61)"
  by (simp add: obj_id_seq_ranges nth_append del: upt_rec_numeral) arith

lemma id_pos_cases:
  obtains n where "n = unat c" and "id_pos c =
     (if 48 \<le> n \<and> n < 58 then int (n - 48)
      else if 65 \<le> n \<and> n < 91 then int (n - 55)
      else if 97 \<le> n \<and> n < 123 then int (n - 61) else -1)"
  using obj_id_base_nth [OF unat_byte_less [of c]] that unfolding id_pos_def by blast

lemma unat_obj_id_seq:
  "i < 62 \<Longrightarrow> unat (obj_id_seq ! i) = (if i < 10 then i + 48 else if i < 36 then i + 55 else i + 61)"
  by (simp add: obj_id_seq_nth unat_of_nat take_bit_nat_eq_self del: of_nat_add)

lemma id_pos_obj_id_seq: "i < 62 \<Longrightarrow> id_pos (obj_id_seq ! i) = int i"
  by (simp add: id_pos_def unat_obj_id_seq obj_id_base_nth)

lemma id_pos_range:
  assumes "valid_digit c"
  shows "0 \<le> id_pos c \<and> id_pos c < 62"
proof -
  obtain n where "id_pos c =
     (if 48 \<le> n \<and> n < 58 then int (n - 48)
      else if 65 \<le> n \<and> n < 91 then int (n - 55)
      else if 97 \<le> n \<and> n < 123 then int (n - 61) else -1)"
    by (rule id_pos_cases)
  with assms show ?thesis by (auto simp: valid_digit_def split: if_splits)
qed

lemma valid_digit_obj_id_seq: "i < 62 \<Longrightarrow> valid_digit (obj_id_seq ! i)"
  by (simp add: valid_digit_def id_pos_obj_id_seq)

lemma obj_id_seq_id_pos:
  assumes "valid_digit c"
  shows "obj_id_seq ! nat (id_pos c) = c"
proof -
  obtain n where n: "n = unat c" and pos: "id_pos c =
     (if 48 \<le> n \<and> n < 58 then int (n - 48)
      else if 65 \<le> n \<and> n < 91 then int (n - 55)
      else if 97 \<le> n \<and> n < 123 then int (n - 61) else -1)"
    by (rule id_pos_cases)
  from assms pos have "nat (id_pos c) < 62" and "unat (obj_id_seq ! nat (id_pos c)) = n"
    by (auto simp: valid_digit_def unat_obj_id_seq split: if_splits)
  with n show ?thesis by (simp add: word_unat_eq_iff)
qed

lemma id_pos_inject:
  "valid_digit c \<Longrightarrow> valid_digit d \<Longrightarrow> nat (id_pos c) = nat (id_pos d) \<Longrightarrow> c = d"
  by (metis obj_id_seq_id_pos)

section \<open>The number an identifier denotes\<close>

text \<open>
  The specification: digits with the least significant one first, as both
  conversions use them.
\<close>

fun radix_digits :: "nat \<Rightarrow> nat list" where
  "radix_digits n = (if n = 0 then [] else n mod 62 # radix_digits (n div 62))"

declare radix_digits.simps [simp del]

definition radix_value :: "nat list \<Rightarrow> nat" where
  "radix_value ds = foldr (\<lambda>d v. d + 62 * v) ds 0"

lemma radix_value_simps [simp]:
  "radix_value [] = 0" "radix_value (d # ds) = d + 62 * radix_value ds"
  by (simp_all add: radix_value_def)

lemma radix_digits_0 [simp]: "radix_digits 0 = []"
  by (simp add: radix_digits.simps)

lemma radix_value_digits [simp]: "radix_value (radix_digits n) = n"
proof (induction n rule: radix_digits.induct)
  case (1 n) then show ?case by (cases "n = 0") (simp_all add: radix_digits.simps [of n])
qed

lemma radix_digits_less: "d \<in> set (radix_digits n) \<Longrightarrow> d < 62"
proof (induction n rule: radix_digits.induct)
  case (1 n) then show ?case by (cases "n = 0") (auto simp: radix_digits.simps [of n])
qed

lemma length_radix_digits: "length (radix_digits n) \<le> k \<longleftrightarrow> n < 62 ^ k"
proof (induction n arbitrary: k rule: radix_digits.induct)
  case (1 n)
  show ?case
  proof (cases "n = 0")
    case False
    show ?thesis
    proof (cases k)
      case 0 with False show ?thesis by (simp add: radix_digits.simps [of n])
    next
      case (Suc m)
      have "n div 62 < 62 ^ m \<longleftrightarrow> n < 62 ^ m * 62" by (simp add: less_mult_imp_div_less div_less_iff_less_mult)
      with False Suc "1.IH" [of m] show ?thesis
        by (simp add: radix_digits.simps [of n] mult.commute)
    qed
  qed simp
qed

section \<open>Correctness of the conversions\<close>

lemma calc_num_id_loop_digits:
  "\<forall>d\<in>set ds. d < 62 \<Longrightarrow>
   calc_num_id_loop (map ((!) obj_id_seq) ds) a b = Some (a + b * of_nat (radix_value ds))"
  by (induction ds arbitrary: a b) (simp_all add: Let_def id_pos_obj_id_seq algebra_simps)

lemma num_to_str_loop_digits:
  "n < 2 ^ 63 \<Longrightarrow>
   num_to_str_loop (of_nat n) (of_nat KND_RADIX_BASE) = Inr (map ((!) obj_id_seq) (radix_digits n))"
proof (induction n rule: radix_digits.induct)
  case (1 n)
  show ?case
  proof (cases "n = 0")
    case True then show ?thesis by (simp add: num_to_str_loop.simps)
  next
    case False
    have s: "sint (of_nat n :: size_t) = int n"
      using "1.prems" sint_of_int_size_t [of "int n"] by simp
    have q: "ldiv_quot (of_nat n) 62 = int (n div 62)"
      using False by (simp add: ldiv_quot_def s zdiv_int)
    have r: "ldiv_rem (of_nat n) 62 = int (n mod 62)"
      by (simp only: ldiv_rem_def q s) (simp add: zdiv_int zmod_int minus_div_mult_eq_mod)
    have nz: "(of_nat n :: size_t) \<noteq> 0"
      using False s by (metis of_nat_0_eq_iff signed_0)
    have "num_to_str_loop (of_nat (n div 62)) (of_nat 62) = Inr (map ((!) obj_id_seq) (radix_digits (n div 62)))"
      using False "1" by (auto intro: "1.IH")
    then show ?thesis
      using False nz by (simp add: num_to_str_loop.simps [of "of_nat n"] q r radix_digits.simps [of n]
          nth_append Let_def)
  qed
qed

definition id_digits :: "byte list \<Rightarrow> nat list" where
  "id_digits key = map (\<lambda>c. nat (id_pos c)) key"

definition valid_id :: "byte list \<Rightarrow> bool" where
  "valid_id key \<longleftrightarrow> key \<noteq> [] \<and> list_all valid_digit key"

lemma id_digits_less: "list_all valid_digit key \<Longrightarrow> d \<in> set (id_digits key) \<Longrightarrow> d < 62"
  using id_pos_range by (fastforce simp: id_digits_def list_all_iff)

lemma seq_id_digits: "list_all valid_digit key \<Longrightarrow> map ((!) obj_id_seq) (id_digits key) = key"
  by (induction key) (simp_all add: id_digits_def obj_id_seq_id_pos)

lemma calc_num_id_valid:
  assumes "list_all valid_digit key"
  shows "knd_calc_num_id key v = of_nat (radix_value (id_digits key))"
  using calc_num_id_loop_digits [of "id_digits key" 0 1] id_digits_less [OF assms]
  by (simp add: seq_id_digits [OF assms] knd_calc_num_id_def)

lemma calc_num_id_loop_invalid:
  "calc_num_id_loop key a b = None \<longleftrightarrow> \<not> list_all valid_digit key"
  by (induction key arbitrary: a b) (auto simp: Let_def valid_digit_def)

lemma radix_value_less: "\<forall>d\<in>set ds. d < 62 \<Longrightarrow> radix_value ds < 62 ^ length ds"
  by (induction ds) auto

lemma radix_value_pos: "ds \<noteq> [] \<Longrightarrow> last ds \<noteq> 0 \<Longrightarrow> radix_value ds \<noteq> 0"
  by (induction ds) (auto split: if_splits)

lemma radix_digits_value:
  "\<forall>d\<in>set ds. d < 62 \<Longrightarrow> ds = [] \<or> last ds \<noteq> 0 \<Longrightarrow> radix_digits (radix_value ds) = ds"
proof (induction ds)
  case (Cons d ds)
  show ?case
  proof (cases ds)
    case Nil with Cons.prems show ?thesis by (simp add: radix_digits.simps [of d] )
  next
    case (Cons e es)
    then have ih: "radix_digits (radix_value ds) = ds" using Cons.IH Cons.prems by auto
    then have "radix_value ds \<noteq> 0" using Cons Cons.prems by (intro radix_value_pos) auto
    with Cons.prems ih show ?thesis
      by (simp add: radix_digits.simps [of "d + 62 * radix_value ds"])
  qed
qed simp

lemma uid_create_nonzero:
  assumes "n \<noteq> 0" and "unat n < 2 ^ 63"
  shows "knd_uid_create n = Inr (map ((!) obj_id_seq) (radix_digits (unat n)))"
  using num_to_str_loop_digits [OF assms(2)] assms(1)
  by (simp add: knd_uid_create_def knd_num_to_str_def)

lemma uid_create_0: "knd_uid_create 0 = Inr [obj_id_seq ! 0]"
  by (simp add: knd_uid_create_def knd_num_to_str_def)

lemma radix_digits_Nil_iff [simp]: "radix_digits n = [] \<longleftrightarrow> n = 0"
  by (simp add: radix_digits.simps [of n])

lemma list_all_valid_seq: "\<forall>d\<in>set ds. d < 62 \<Longrightarrow> list_all valid_digit (map ((!) obj_id_seq) ds)"
  by (auto simp: list_all_iff valid_digit_obj_id_seq)

text \<open>C1: every number that fits a signed \<^verbatim>\<open>long\<close> has an identifier of valid digits, and
  reading that identifier back with \<open>knd_calc_num_id\<close> gives the number, whatever the
  output variable held before. Hence distinct numbers have distinct identifiers.\<close>
theorem uid_roundtrip:
  assumes "unat n < 2 ^ 63"
  shows "\<exists>key. knd_uid_create n = Inr key \<and> valid_id key \<and> knd_calc_num_id key v = n"
proof (cases "n = 0")
  case True
  then show ?thesis
    using calc_num_id_loop_digits [of "[0]" 0 1] valid_digit_obj_id_seq [of 0]
    by (simp add: uid_create_0 valid_id_def knd_calc_num_id_def)
next
  case False
  let ?ds = "radix_digits (unat n)"
  have d: "\<forall>d\<in>set ?ds. d < 62" using radix_digits_less by blast
  then have "knd_calc_num_id (map ((!) obj_id_seq) ?ds) v = n"
    using calc_num_id_loop_digits [OF d, of 0 1] by (simp add: knd_calc_num_id_def)
  moreover have "valid_id (map ((!) obj_id_seq) ?ds)"
    using False list_all_valid_seq [OF d] by (simp add: valid_id_def unat_eq_0)
  ultimately show ?thesis using uid_create_nonzero [OF False assms] by blast
qed

theorem uid_roundtrip_witness:
  "\<exists>key. knd_uid_create 96 = Inr key \<and> valid_id key \<and> knd_calc_num_id key 0 = 96"
  by (rule uid_roundtrip) simp

text \<open>An identifier of at most \<open>KND_ID_SIZE\<close> valid digits whose most significant
  (last) digit is not zero is recovered from its number by \<open>knd_uid_create\<close>.\<close>
theorem id_roundtrip:
  assumes "valid_id key" and "length key \<le> KND_ID_SIZE"
    and "length key = 1 \<or> last key \<noteq> obj_id_seq ! 0"
  shows "knd_uid_create (knd_calc_num_id key v) = Inr key"
proof -
  let ?ds = "id_digits key" let ?n = "radix_value (id_digits key)"
  have v: "list_all valid_digit key" and ne: "key \<noteq> []" using assms(1) by (auto simp: valid_id_def)
  have lt: "\<forall>d\<in>set ?ds. d < 62" using id_digits_less [OF v] by blast
  have "?n < 62 ^ length ?ds" by (rule radix_value_less [OF lt])
  also have "\<dots> \<le> 62 ^ 8" using assms(2) by (intro power_increasing) (simp_all add: id_digits_def)
  finally have n: "?n < 2 ^ 63" by simp
  have num: "knd_calc_num_id key v = of_nat ?n" by (rule calc_num_id_valid [OF v])
  have un: "unat (of_nat ?n :: size_t) = ?n" using n by (intro unat_of_nat_size_t) simp
  have seq: "map ((!) obj_id_seq) ?ds = key" by (rule seq_id_digits [OF v])
  have "last key = obj_id_seq ! nat (id_pos (last key))"
    using v ne by (simp add: obj_id_seq_id_pos list_all_iff)
  then have lst: "length key = 1 \<or> last ?ds \<noteq> 0"
    using assms(3) ne by (auto simp: id_digits_def last_map)
  show ?thesis
  proof (cases "?n = 0")
    case True
    have "length key = 1" using lst True radix_value_pos [of ?ds] ne by (auto simp: id_digits_def)
    moreover have "knd_calc_num_id key v = 0" using num True by simp
    ultimately show ?thesis using True seq
      by (cases key) (auto simp: id_digits_def uid_create_0)
  next
    case False
    have "?ds = [] \<or> last ?ds \<noteq> 0 \<or> length ?ds = 1"
      using lst by (auto simp: id_digits_def)
    moreover have "radix_digits d = [d]" if "d < 62" "d \<noteq> 0" for d
      using that by (simp add: radix_digits.simps)
    ultimately have "radix_digits ?n = ?ds"
      using radix_digits_value [OF lt] False lt by (cases ?ds) (auto split: if_splits)
    moreover have "(of_nat ?n :: size_t) \<noteq> 0" using False un by (metis unat_0)
    ultimately show ?thesis using n un seq by (simp add: num uid_create_nonzero)
  qed
qed

theorem id_roundtrip_witness:
  "knd_uid_create (knd_calc_num_id (bytes_of ''Y1'') 7) = Inr (bytes_of ''Y1'')"
  by (rule id_roundtrip)
    (simp_all add: valid_id_def bytes_of_def valid_digit_def id_pos_def obj_id_base_nth obj_id_seq_nth)

text \<open>The identifier of a positive number fits the \<open>KND_ID_SIZE\<close> bytes reserved for it in
  every entry exactly for the numbers below \<open>62\<close> to the power 8.\<close>
theorem uid_length:
  assumes "n \<noteq> 0" and "unat n < 2 ^ 63" and "knd_uid_create n = Inr key"
  shows "length key \<le> KND_ID_SIZE \<longleftrightarrow> unat n < 62 ^ 8"
  using assms by (auto simp: uid_create_nonzero length_radix_digits)

theorem uid_length_witness:
  "length (map ((!) obj_id_seq) (radix_digits 96)) \<le> KND_ID_SIZE \<longleftrightarrow> unat (96 :: size_t) < 62 ^ 8"
  using uid_length [OF _ _ uid_create_nonzero, of 96] by simp

text \<open>A \<^verbatim>\<open>size_t\<close> with the top bit set is negative for \<open>ldiv\<close>: unless it is a multiple of
  62, the first digit is read at a negative index, outside the digit table.\<close>
theorem uid_create_negative:
  assumes "sint n < 0" and "\<not> 62 dvd sint n"
  shows "knd_uid_create n = Inl Stuck"
proof -
  have nz: "n \<noteq> 0" using assms(1) by auto
  have "ldiv_quot n 62 = - (- sint n div 62)"
    using assms(1) by (simp add: ldiv_quot_def)
  then have "ldiv_rem n 62 = - (- sint n mod 62)"
    by (simp add: ldiv_rem_def minus_div_mult_eq_mod [symmetric])
  moreover have "- sint n mod 62 \<noteq> 0" using assms(2) by (simp add: dvd_eq_mod_eq_0 [symmetric])
  moreover have "0 \<le> - sint n mod 62" by simp
  ultimately have "ldiv_rem n 62 < 0" by linarith
  with nz show ?thesis
    by (simp add: knd_uid_create_def knd_num_to_str_def num_to_str_loop.simps [of n])
qed

theorem uid_create_negative_witness: "knd_uid_create (2 ^ 64 - 1) = Inl Stuck"
  by (rule uid_create_negative) simp_all

lemma valid_digit_pos: "valid_digit c \<longleftrightarrow> id_pos c \<noteq> -1"
  by (simp add: valid_digit_def)

lemma id_pos_less: "valid_digit c \<Longrightarrow> nat (id_pos c) < 62"
  using id_pos_range [of c] by (auto simp: valid_digit_def)

lemma id_digits_simps [simp]: "id_digits [] = []" "id_digits (c # key) = nat (id_pos c) # id_digits key"
  by (simp_all add: id_digits_def)

lemma id_digits_inject: "list_all valid_digit a \<Longrightarrow> list_all valid_digit b \<Longrightarrow> id_digits a = id_digits b \<longleftrightarrow> a = b"
  by (metis seq_id_digits)

end
