(* ===== verification/Text_Codec.thy ===== *)
theory Text_Codec
  imports Ident "HOL-Library.Signed_Division"
begin

text \<open>
  The text routines of \<^verbatim>\<open>src/knd_utils.c\<close>: reading one UTF-8 character, the base64
  encoder, name abbreviations, cleaning of input, decimal numbers, random
  identifiers and identifier paths. A \<^verbatim>\<open>char\<close> is signed, so each use of a byte in an
  \<^verbatim>\<open>int\<close> expression is written as \<open>scast\<close>.
\<close>

section \<open>UTF-8\<close>

definition char_int :: "byte \<Rightarrow> cint" where
  "char_int c = scast c"

text \<open>\<open>rec\<close> holds the \<open>rec_size\<close> readable bytes; the first one is read unchecked.\<close>

definition knd_read_UTF8_char :: "byte list \<Rightarrow> (size_t \<times> nat) result" where
  "knd_read_UTF8_char rec =
     (let rec_size = length rec in
      if rec_size = 0 then Inl Stuck
      else if rec ! 0 < 128 then Inr (scast (rec ! 0), 1)
      else if char_int (rec ! 0) AND 0xE0 = 0xC0 then
        (if rec_size < 2 then Inl (Err knd_LIMIT)
         else if char_int (rec ! 1) AND 0xC0 \<noteq> 0x80 then Inl (Err knd_FAIL)
         else Inr (scast (push_bit 6 (char_int (rec ! 0) AND 0x1F) OR (char_int (rec ! 1) AND 0x3F)), 2))
      else if char_int (rec ! 0) AND 0xF0 = 0xE0 then
        (if rec_size < 3 then Inl (Err knd_LIMIT)
         else if char_int (rec ! 1) AND 0xC0 \<noteq> 0x80 then Inl (Err knd_FAIL)
         else if char_int (rec ! 2) AND 0xC0 \<noteq> 0x80 then Inl (Err knd_FAIL)
         else Inr (scast (push_bit 12 (char_int (rec ! 0) AND 0x0F) OR
                     (push_bit 6 (char_int (rec ! 1) AND 0x3F)) OR (char_int (rec ! 2) AND 0x3F)), 3))
      else Inl (Err knd_FAIL))"

text \<open>The encoding of a code point of the basic plane, by arithmetic.\<close>

definition utf8_encode :: "nat \<Rightarrow> byte list" where
  "utf8_encode cp =
     (if cp < 128 then [of_nat cp]
      else if cp < 2048 then [of_nat (192 + cp div 64), of_nat (128 + cp mod 64)]
      else [of_nat (224 + cp div 4096), of_nat (128 + cp div 64 mod 64), of_nat (128 + cp mod 64)])"

lemma less_list_all: "k < n \<Longrightarrow> list_all P [0..<n] \<Longrightarrow> P k"
  by (simp add: list_all_iff)

lemma utf8_lead2:
  assumes "a < 32"
  shows "char_int (of_nat (192 + a)) AND 0xE0 = 0xC0 \<and> char_int (of_nat (192 + a)) AND 0x1F = of_nat a
    \<and> \<not> (of_nat (192 + a) :: byte) < 128"
  by (rule less_list_all [OF assms]) code_simp

lemma utf8_lead3:
  assumes "a < 16"
  shows "char_int (of_nat (224 + a)) AND 0xF0 = 0xE0 \<and> char_int (of_nat (224 + a)) AND 0xE0 = 0xE0 \<and>
    char_int (of_nat (224 + a)) AND 0x0F = of_nat a \<and> \<not> (of_nat (224 + a) :: byte) < 128"
  by (rule less_list_all [OF assms]) code_simp

lemma utf8_payload:
  assumes "a < 64"
  shows "char_int (of_nat (128 + a)) AND 0xC0 = 0x80 \<and> char_int (of_nat (128 + a)) AND 0x3F = of_nat a"
  by (rule less_list_all [OF assms]) code_simp

lemma or_shifted:
  assumes "b < 2 ^ n"
  shows "push_bit n (of_nat a :: cint) OR of_nat b = of_nat (2 ^ n * a + b)"
proof -
  have "push_bit n (of_nat a :: cint) + of_nat b = push_bit n (of_nat a) OR of_nat b"
  proof (rule disjunctive_add)
    fix m
    have "\<not> bit b m" if "n \<le> m"
    proof -
      have "b < 2 ^ m" using assms that by (meson order_less_le_trans one_le_numeral power_increasing)
      then show ?thesis by (simp add: bit_nat_def)
    qed
    then show "\<not> bit (push_bit n (of_nat a :: cint)) m \<or> \<not> bit (of_nat b :: cint) m"
      by (auto simp: bit_simps not_le)
  qed
  then show ?thesis by (simp add: push_bit_eq_mult mult.commute)
qed

lemma scast_of_nat_small:
  assumes "k < 2 ^ 31"
  shows "(scast (of_nat k :: cint) :: size_t) = of_nat k"
proof -
  have "sint (of_nat k :: cint) = int k"
    using assms by (simp add: signed_of_nat signed_take_bit_int_eq_self)
  then show ?thesis by (simp only: scast_eq) simp
qed


lemma scast_ascii: "k < 128 \<Longrightarrow> (scast (of_nat k :: byte) :: size_t) = of_nat k"
proof -
  assume "k < 128"
  then have "sint (of_nat k :: byte) = int k"
    by (simp add: signed_of_nat signed_take_bit_int_eq_self)
  then show ?thesis by (simp only: scast_eq) simp
qed

lemma payload_facts:
  assumes "a < 64"
  shows "char_int (128 + word_of_nat a) AND 0xC0 = 0x80" "char_int (128 + word_of_nat a) AND 0x3F = of_nat a"
  using utf8_payload [OF assms] by simp_all

text \<open>C20: reading the encoding of any character below \<open>2\<^sup>1\<^sup>6\<close> yields its code point and length,
  whatever follows it.\<close>
theorem utf8_roundtrip:
  assumes "cp < 65536"
  shows "knd_read_UTF8_char (utf8_encode cp @ rest) = Inr (of_nat cp, length (utf8_encode cp))"
proof (cases "cp < 128")
  case True
  have "scast (of_nat cp :: byte) = (of_nat cp :: size_t)" using True by (rule scast_ascii)
  moreover have "(of_nat cp :: byte) < 128"
    using True by (simp add: word_less_nat_alt unat_of_nat take_bit_nat_eq_self)
  ultimately show ?thesis using True by (simp add: knd_read_UTF8_char_def utf8_encode_def Let_def)
next
  case ge: False
  show ?thesis
  proof (cases "cp < 2048")
    case True
    have a: "cp div 64 < 32" and b: "cp mod 64 < 64" using True by auto
    have "push_bit 6 (of_nat (cp div 64) :: cint) OR of_nat (cp mod 64) = of_nat cp"
      using or_shifted [of "cp mod 64" 6 "cp div 64"] b by simp
    then show ?thesis
      using utf8_lead2 [OF a] payload_facts [OF b] ge True scast_of_nat_small [of cp]
      by (simp add: knd_read_UTF8_char_def utf8_encode_def Let_def)
  next
    case False
    have a: "cp div 4096 < 16" and b: "cp div 64 mod 64 < 64" and c: "cp mod 64 < 64" using assms by auto
    have "push_bit 6 (of_nat (cp div 64 mod 64) :: cint) OR of_nat (cp mod 64) = of_nat (cp mod 4096)"
      using or_shifted [of "cp mod 64" 6 "cp div 64 mod 64"] mod_mult2_eq [of cp 64 64] by simp
    then have "push_bit 12 (of_nat (cp div 4096) :: cint) OR push_bit 6 (of_nat (cp div 64 mod 64)) OR
        of_nat (cp mod 64) = of_nat cp"
      using or_shifted [of "cp mod 4096" 12 "cp div 4096"] by (simp add: or.assoc)
    then show ?thesis
      using utf8_lead3 [OF a] payload_facts [OF b] payload_facts [OF c] ge False assms
        scast_of_nat_small [of cp]
      by (simp add: knd_read_UTF8_char_def utf8_encode_def Let_def)
  qed
qed

theorem utf8_roundtrip_witness:
  "knd_read_UTF8_char (utf8_encode 0x20AC @ [7]) = Inr (of_nat 0x20AC, length (utf8_encode 0x20AC))"
  by (rule utf8_roundtrip) simp


lemma mask_numerals: "(0x0F :: cint) = mask 4" "(0x1F :: cint) = mask 5" "(0x3F :: cint) = mask 6"
  by (simp_all add: mask_eq_exp_minus_1)

lemma code_below:
  fixes w :: cint
  assumes "take_bit 16 w = w"
  shows "unat (scast w :: size_t) < 2 ^ 16"
proof -
  have "unat w < 2 ^ 16" using assms by (metis take_bit_nat_less_exp unsigned_take_bit_eq)
  moreover from this have "(scast w :: size_t) = of_nat (unat w)"
    using scast_of_nat_small [of "unat w"] by simp
  moreover have "unat (of_nat (unat w) :: size_t) = unat w"
    using \<open>unat w < 2 ^ 16\<close> by (intro unat_of_nat_size_t) simp
  ultimately show ?thesis by (simp only:)
qed

lemma take_bit_code2:
  "take_bit 16 (push_bit 6 (a AND 0x1F) OR (b AND 0x3F)) = (push_bit 6 (a AND 0x1F) OR (b AND 0x3F) :: cint)"
  unfolding mask_numerals by (rule bit_word_eqI) (auto simp: bit_simps)

lemma take_bit_code3:
  "take_bit 16 (push_bit 12 (a AND 0x0F) OR push_bit 6 (b AND 0x3F) OR (c AND 0x3F)) =
   (push_bit 12 (a AND 0x0F) OR push_bit 6 (b AND 0x3F) OR (c AND 0x3F) :: cint)"
  unfolding mask_numerals by (rule bit_word_eqI) (auto simp: bit_simps)

lemma ascii_below: "c < 128 \<Longrightarrow> unat (scast (c :: byte) :: size_t) < 2 ^ 16"
proof -
  assume "c < 128"
  then have l: "unat c < 128" by (simp add: word_less_nat_alt)
  then have "(scast c :: size_t) = of_nat (unat c)" using scast_ascii [of "unat c"] by simp
  moreover have "unat (of_nat (unat c) :: size_t) = unat c" using l by (intro unat_of_nat_size_t) simp
  ultimately show ?thesis using l by (simp only:) simp
qed

text \<open>A character that is accepted lies within the record and has a 16-bit code.\<close>
theorem utf8_in_record:
  assumes "knd_read_UTF8_char rec = Inr (val, len)"
  shows "0 < len \<and> len \<le> length rec \<and> len \<le> 3 \<and> unat val < 2 ^ 16"
  using assms code_below [OF take_bit_code2] code_below [OF take_bit_code3] ascii_below [of "rec ! 0"]
  by (auto simp: knd_read_UTF8_char_def Let_def Suc_le_eq split: if_splits)

theorem utf8_in_record_witness:
  "0 < (2::nat) \<and> (2::nat) \<le> length [0xC3, 0xA9 :: byte] \<and> (2::nat) \<le> 3 \<and> unat (0xE9 :: size_t) < 2 ^ 16"
  by (rule utf8_in_record) (simp add: knd_read_UTF8_char_def char_int_def Let_def)

section \<open>Base64\<close>

definition knd_base_64 :: "byte list" where
  "knd_base_64 = map of_nat ([65..<91] @ [97..<123] @ [48..<58] @ [43, 47])"

definition b64_char :: "cint \<Rightarrow> byte" where
  "b64_char k = knd_base_64 ! unat k"

definition b64_sextet1 :: "byte \<Rightarrow> cint" where
  "b64_sextet1 x = signed_drop_bit 2 (char_int x) AND 0x3F"

definition b64_high2 :: "byte \<Rightarrow> cint" where
  "b64_high2 x = push_bit 4 (char_int x AND 0x3)"

definition b64_sextet2 :: "byte \<Rightarrow> byte \<Rightarrow> cint" where
  "b64_sextet2 x y = b64_high2 x OR signed_drop_bit 4 (char_int y AND 0xF0)"

definition b64_high4 :: "byte \<Rightarrow> cint" where
  "b64_high4 y = push_bit 2 (char_int y AND 0xF)"

definition b64_sextet3 :: "byte \<Rightarrow> byte \<Rightarrow> cint" where
  "b64_sextet3 y z = b64_high4 y OR signed_drop_bit 6 (char_int z AND 0xC0)"

definition b64_sextet4 :: "byte \<Rightarrow> cint" where
  "b64_sextet4 z = char_int z AND 0x3F"

text \<open>The loop of the encoder takes three bytes at a time, the tail one or two.\<close>

fun base64_loop :: "byte list \<Rightarrow> byte list" where
  "base64_loop (x # y # z # string) =
     [b64_char (b64_sextet1 x), b64_char (b64_sextet2 x y), b64_char (b64_sextet3 y z),
      b64_char (b64_sextet4 z)] @ base64_loop string"
| "base64_loop [x, y] = [b64_char (b64_sextet1 x), b64_char (b64_sextet2 x y), b64_char (b64_high4 y), 61]"
| "base64_loop [x] = [b64_char (b64_sextet1 x), b64_char (b64_high2 x), 61, 61]"
| "base64_loop [] = []"

definition knd_base64_encode :: "byte list \<Rightarrow> byte list" where
  "knd_base64_encode string = base64_loop string @ [0]"

text \<open>The decoder of RFC 4648, over the values of the characters.\<close>

definition b64_value :: "byte \<Rightarrow> nat" where
  "b64_value c =
     (let n = unat c in
      if 65 \<le> n \<and> n < 91 then n - 65
      else if 97 \<le> n \<and> n < 123 then n - 71
      else if 48 \<le> n \<and> n < 58 then n + 4
      else if n = 43 then 62 else 63)"

fun base64_decode :: "byte list \<Rightarrow> byte list" where
  "base64_decode (a # b # c # d # rest) =
     (let va = b64_value a; vb = b64_value b; vc = b64_value c; vd = b64_value d in
      if c = 61 then [of_nat (va * 4 + vb div 16)]
      else if d = 61 then [of_nat (va * 4 + vb div 16), of_nat (vb mod 16 * 16 + vc div 4)]
      else [of_nat (va * 4 + vb div 16), of_nat (vb mod 16 * 16 + vc div 4), of_nat (vc mod 4 * 64 + vd)]
        @ base64_decode rest)"
| "base64_decode _ = []"

lemma base_64_nth:
  assumes "k < 64"
  shows "knd_base_64 ! k = of_nat (if k < 26 then k + 65 else if k < 52 then k + 71 else if k < 62 then k - 4
    else if k = 62 then 43 else 47)"
proof -
  consider "k < 26" | "26 \<le> k" "k < 52" | "52 \<le> k" "k < 62" | "k = 62" | "k = 63" using assms by linarith
  then show ?thesis
    by cases (use assms in \<open>auto simp: knd_base_64_def nth_append nth_map not_less simp del: upt_rec_numeral\<close>)
qed

lemma unat_of_nat_byte: "n < 256 \<Longrightarrow> unat (of_nat n :: byte) = n"
  by (simp add: unat_of_nat take_bit_nat_eq_self)

lemma b64_char_table:
  assumes "k < 64"
  shows "b64_value (knd_base_64 ! k) = k" and "knd_base_64 ! k \<noteq> 61"
proof -
  define m where "m = (if k < 26 then k + 65 else if k < 52 then k + 71 else if k < 62 then k - 4
    else if k = 62 then 43 else 47)"
  have m: "unat (knd_base_64 ! k) = m"
    unfolding base_64_nth [OF assms] m_def using assms by (intro unat_of_nat_byte) auto
  show "b64_value (knd_base_64 ! k) = k" unfolding b64_value_def m using assms by (auto simp: m_def Let_def)
  have "m \<noteq> 61" using assms by (auto simp: m_def)
  then show "knd_base_64 ! k \<noteq> 61" using m by auto
qed

lemma b64_char_value:
  assumes "unat k < 64"
  shows "b64_value (b64_char k) = unat k" "b64_char k \<noteq> 61"
  using b64_char_table [OF assms] by (simp_all add: b64_char_def)

lemma b64_masks: "(0x3 :: cint) = mask 2" "(0xF :: cint) = mask 4" "(0x3F :: cint) = mask 6"
  "(0xF0 :: cint) = push_bit 4 (mask 4)" "(0xC0 :: cint) = push_bit 6 (mask 2)"
  by (simp_all add: mask_eq_exp_minus_1)

lemma unat_ucast_byte: "unat (ucast (b :: byte) :: cint) = unat b"
  using unat_byte_less [of b] by (simp add: unsigned_ucast_eq take_bit_nat_eq_self)

lemma bit_byte_less_8: "bit (b :: byte) k \<Longrightarrow> k < 8"
  using bit_imp_le_length [of b k] by simp

lemma bit_char_int: "bit (char_int b) n \<longleftrightarrow> n < 32 \<and> (if n < 8 then bit b n else bit b 7)"
  by (auto simp: char_int_def bit_simps min_def not_le not_less le_Suc_eq less_Suc_eq numeral_eq_Suc)

lemma b64_sextet1_eq: "b64_sextet1 x = drop_bit 2 (ucast x)"
proof (rule bit_word_eqI)
  fix n :: nat
  have "n < 6 \<or> 6 \<le> n" by linarith
  then show "bit (b64_sextet1 x) n = bit (drop_bit 2 (ucast x :: cint)) n"
    unfolding b64_sextet1_def b64_masks
    by (auto simp: bit_simps bit_char_int min_def not_le dest: bit_byte_less_8)
qed

lemma b64_sextets:
  "b64_high2 x = push_bit 4 (take_bit 2 (ucast x))"
  "b64_high4 y = push_bit 2 (take_bit 4 (ucast y))"
  "b64_sextet4 z = take_bit 6 (ucast z)"
  unfolding b64_high2_def b64_high4_def b64_sextet4_def b64_masks
  by (rule bit_word_eqI; auto simp: bit_simps bit_char_int)+

lemma b64_sextet_low:
  "signed_drop_bit 4 (char_int y AND 0xF0) = drop_bit 4 (ucast y)"
  "signed_drop_bit 6 (char_int z AND 0xC0) = drop_bit 6 (ucast z)"
  unfolding b64_masks
  by (rule bit_word_eqI; auto simp: bit_simps bit_char_int min_def not_le dest: bit_byte_less_8)+


lemma unat_drop_byte: "unat (drop_bit n (ucast (b :: byte) :: cint)) = unat b div 2 ^ n"
  using drop_bit_eq_div [of n "unat b"] by (simp add: unat_drop_bit_eq unat_ucast_byte)

lemma unat_take_byte: "unat (take_bit n (ucast (b :: byte) :: cint)) = unat b mod 2 ^ n"
  using take_bit_eq_mod [of n "unat b"] by (simp add: unsigned_take_bit_eq unat_ucast_byte)

lemma unat_push_take:
  assumes "n + m \<le> 8"
  shows "unat (push_bit n (take_bit m (ucast (b :: byte) :: cint))) = unat b mod 2 ^ m * 2 ^ n"
proof -
  have "unat b mod 2 ^ m * 2 ^ n < 2 ^ m * 2 ^ n" by simp
  also have "\<dots> = 2 ^ (n + m)" by (simp add: power_add)
  also have "\<dots> \<le> (2::nat) ^ 8" using assms by (intro power_increasing) simp_all
  finally have "unat b mod 2 ^ m * 2 ^ n < 256" by simp
  moreover have "unat (push_bit n (take_bit m (ucast b :: cint))) =
      take_bit 32 (unat b mod 2 ^ m * 2 ^ n)"
    using push_bit_eq_mult [of n "unat b mod 2 ^ m"] by (simp add: unsigned_push_bit_eq unat_take_byte)
  ultimately show ?thesis by (simp add: take_bit_nat_eq_self)
qed

lemma unat_or_low:
  fixes u v :: cint
  assumes "unat v < 2 ^ n" "take_bit n u = 0"
  shows "unat (u OR v) = unat u + unat v"
proof -
  have "\<not> bit u m \<or> \<not> bit v m" for m
  proof (cases "m < n")
    case True then show ?thesis using assms(2) by (metis bit_0_eq bit_take_bit_iff bot_apply bot_bool_def)
  next
    case False
    then have "(2::nat) ^ n \<le> 2 ^ m" by (intro power_increasing) simp_all
    then have "unat v < 2 ^ m" using assms(1) by linarith
    then have "\<not> bit (unat v) m" by (simp add: bit_nat_def)
    then show ?thesis by (simp add: bit_unsigned_iff)
  qed
  then have "unat u + unat v = (unat u OR unat v)"
    by (intro disjunctive_add) (simp add: bit_unsigned_iff)
  then show ?thesis by (simp add: unsigned_or_eq)
qed

lemma unat_b64_sextets:
  "unat (b64_sextet1 x) = unat x div 4"
  "unat (b64_high2 x) = unat x mod 4 * 16"
  "unat (b64_high4 y) = unat y mod 16 * 4"
  "unat (b64_sextet4 z) = unat z mod 64"
  "unat (b64_sextet2 x y) = unat x mod 4 * 16 + unat y div 16"
  "unat (b64_sextet3 y z) = unat y mod 16 * 4 + unat z div 64"
proof -
  show h: "unat (b64_high2 x) = unat x mod 4 * 16" "unat (b64_high4 y) = unat y mod 16 * 4"
    using unat_push_take [of 4 2 x] unat_push_take [of 2 4 y] by (simp_all add: b64_sextets)
  show "unat (b64_sextet1 x) = unat x div 4" "unat (b64_sextet4 z) = unat z mod 64"
    by (simp_all add: b64_sextet1_eq b64_sextets unat_drop_byte unat_take_byte)
  have "take_bit 4 (b64_high2 x) = 0" "take_bit 2 (b64_high4 y) = 0"
    by (rule bit_word_eqI; simp add: b64_sextets bit_simps)+
  moreover have "unat (drop_bit 4 (ucast y :: cint)) < 2 ^ 4" "unat (drop_bit 6 (ucast z :: cint)) < 2 ^ 2"
    using unat_byte_less [of y] unat_byte_less [of z] by (simp_all add: unat_drop_byte)
  ultimately show "unat (b64_sextet2 x y) = unat x mod 4 * 16 + unat y div 16"
    "unat (b64_sextet3 y z) = unat y mod 16 * 4 + unat z div 64"
    using unat_or_low [of _ 4 "b64_high2 x"] unat_or_low [of _ 2 "b64_high4 y"]
    by (simp_all add: b64_sextet2_def b64_sextet3_def b64_sextet_low h unat_drop_byte)
qed


lemma b64_bound:
  "unat (b64_sextet1 x) < 64" "unat (b64_high2 x) < 64" "unat (b64_high4 x) < 64"
  "unat (b64_sextet2 x y) < 64" "unat (b64_sextet3 x y) < 64" "unat (b64_sextet4 x) < 64"
  unfolding unat_b64_sextets using unat_byte_less [of x] unat_byte_less [of y] by linarith+

lemmas b64_values = b64_bound [THEN b64_char_value(1)] b64_bound [THEN b64_char_value(2)]

lemma b64_small:
  fixes y :: byte
  shows "unat y div 16 div 16 = 0" "unat y div 16 mod 16 = unat y div 16"
    "unat y div 64 div 4 = 0" "unat y div 64 mod 4 = unat y div 64"
proof -
  have "unat y div 16 < 16" "unat y div 64 < 4"
    using unat_byte_less [of y] by (auto intro: less_mult_imp_div_less)
  then show "unat y div 16 div 16 = 0" "unat y div 16 mod 16 = unat y div 16"
    "unat y div 64 div 4 = 0" "unat y div 64 mod 4 = unat y div 64" by simp_all
qed

text \<open>Decoding the output of the encoder by RFC 4648 gives the input back; the output has four
  characters for every three bytes begun and a terminating NUL.\<close>
theorem base64_roundtrip:
  "base64_decode (butlast (knd_base64_encode string)) = string \<and>
   length (knd_base64_encode string) = 4 * ((length string + 2) div 3) + 1 \<and>
   last (knd_base64_encode string) = 0"
proof -
  have "base64_decode (base64_loop string) = string"
    by (induction string rule: base64_loop.induct)
      (simp_all add: Let_def b64_values b64_bound unat_b64_sextets b64_small
        del: of_nat_add of_nat_mult)
  moreover have "length (base64_loop string) = 4 * ((length string + 2) div 3)"
  proof (induction string rule: base64_loop.induct)
    case (1 x y z string)
    have "length (x # y # z # string) + 2 = 3 + (length string + 2)" by simp
    then have "(length (x # y # z # string) + 2) div 3 = Suc ((length string + 2) div 3)"
      by (simp only: div_add_self1)
    with 1 show ?case by simp
  qed simp_all
  ultimately show ?thesis by (simp add: knd_base64_encode_def)
qed

section \<open>Abbreviations, cleaning and random names\<close>

text \<open>\<^verbatim>\<open>isupper\<close> and \<^verbatim>\<open>isspace\<close> in the C locale.\<close>

definition isupper :: "byte \<Rightarrow> bool" where
  "isupper c \<longleftrightarrow> 65 \<le> c \<and> c \<le> 90"

definition isspace :: "byte \<Rightarrow> bool" where
  "isspace c \<longleftrightarrow> c = 32 \<or> (9 \<le> c \<and> c \<le> 13)"

text \<open>The size is stored only when the loop runs to its end, not at the early return.\<close>

fun conc_abbr_loop :: "byte list \<Rightarrow> byte list \<Rightarrow> byte list \<times> bool" where
  "conc_abbr_loop [] buf = (buf, True)"
| "conc_abbr_loop (c # name) buf =
     (if isupper c then
        (let buf = buf @ [c] in if length buf \<ge> KND_ID_SIZE then (buf, False) else conc_abbr_loop name buf)
      else conc_abbr_loop name buf)"

definition knd_build_conc_abbr :: "byte list \<Rightarrow> nat \<Rightarrow> byte list \<times> nat" where
  "knd_build_conc_abbr name buf_size =
     (case conc_abbr_loop name [] of (buf, at_end) \<Rightarrow> (buf, if at_end then length buf else buf_size))"

text \<open>\<open>None\<close> when no terminating NUL is found.\<close>

fun knd_remove_nonprintables :: "byte list \<Rightarrow> byte list option" where
  "knd_remove_nonprintables [] = None"
| "knd_remove_nonprintables (c # data) =
     (if c = 0 then Some (c # data)
      else
        let c = (if c < 32 then 32 else c);
            c = (if c = 34 then 32 else c);
            c = (if c = 39 then 32 else c);
            c = (if c = 38 then 32 else c);
            c = (if c = 92 then 32 else c)
        in map_option ((#) c) (knd_remove_nonprintables data))"

text \<open>\<open>rand n\<close> is the \<open>n\<close>-th value of \<^verbatim>\<open>rand()\<close>; the modulus is the length of the digit
  table less one.\<close>

fun random_chunk :: "(nat \<Rightarrow> nat) \<Rightarrow> nat \<Rightarrow> nat \<Rightarrow> byte list" where
  "random_chunk rand n 0 = []"
| "random_chunk rand n (Suc chunk_size) =
     obj_id_seq ! (rand n mod (length obj_id_seq - 1)) # random_chunk rand (Suc n) chunk_size"

fun random_chunks :: "(nat \<Rightarrow> nat) \<Rightarrow> nat \<Rightarrow> nat \<Rightarrow> nat \<Rightarrow> nat \<Rightarrow> byte \<Rightarrow> byte list" where
  "random_chunks rand n chunk_num chunk_size 0 separ = []"
| "random_chunks rand n chunk_num chunk_size (Suc left) separ =
     (if chunk_num \<noteq> 0 then [separ] else []) @ random_chunk rand n chunk_size @
     random_chunks rand (n + chunk_size) (Suc chunk_num) chunk_size left separ"

definition knd_generate_random_id :: "(nat \<Rightarrow> nat) \<Rightarrow> nat \<Rightarrow> nat \<Rightarrow> byte \<Rightarrow> byte list" where
  "knd_generate_random_id rand chunk_size num_chunks separ =
     random_chunks rand 0 0 chunk_size num_chunks separ"

text \<open>The path holds one directory for each of the eight characters of the identifier.\<close>

definition knd_make_id_path :: "byte list option \<Rightarrow> byte list \<Rightarrow> byte list option \<Rightarrow> byte list" where
  "knd_make_id_path path key filename =
     (case path of None \<Rightarrow> [] | Some p \<Rightarrow> p) @
     concat (map (\<lambda>i. [47, key ! i]) [0..<KND_ID_SIZE]) @
     (case filename of None \<Rightarrow> [0] | Some f \<Rightarrow> 47 # f @ [0])"

subsection \<open>Facts\<close>

lemma conc_abbr_loop_eq:
  "length buf < 8 \<Longrightarrow> conc_abbr_loop name buf =
     (take 8 (buf @ filter isupper name), length (buf @ filter isupper name) < 8)"
  by (induction name arbitrary: buf) (auto simp: Let_def not_le take_Cons')

text \<open>The abbreviation is the first eight capitals of the name, but its size is set only when
  there are fewer than eight of them; otherwise the caller keeps the old size.\<close>
theorem conc_abbr_spec:
  "knd_build_conc_abbr name buf_size =
     (take 8 (filter isupper name),
      if length (filter isupper name) < 8 then length (filter isupper name) else buf_size)"
  by (simp add: knd_build_conc_abbr_def conc_abbr_loop_eq)

definition printable_byte :: "byte \<Rightarrow> bool" where
  "printable_byte c \<longleftrightarrow> 32 \<le> c \<and> c \<notin> {34, 39, 38, 92}"

lemma printable_space [simp]: "printable_byte 32"
  by (simp add: printable_byte_def)

lemma remove_nonprintables_cons:
  "c \<noteq> 0 \<Longrightarrow> knd_remove_nonprintables (c # data) =
     map_option ((#) (if printable_byte c then c else 32)) (knd_remove_nonprintables data)"
  by (auto simp: printable_byte_def Let_def not_less not_le)

lemma remove_nonprintables_nul: "knd_remove_nonprintables (0 # data) = Some (0 # data)"
  by simp

declare knd_remove_nonprintables.simps(2) [simp del]

text \<open>Up to the NUL, cleaning replaces each control character, quote, ampersand and backslash by
  a blank and changes nothing else, and the bytes after the NUL are kept.\<close>
theorem remove_nonprintables_spec:
  "knd_remove_nonprintables data =
     (if 0 \<in> set data
      then Some (map (\<lambda>c. if printable_byte c then c else 32) (takeWhile (\<lambda>c. c \<noteq> 0) data) @
        dropWhile (\<lambda>c. c \<noteq> 0) data)
      else None)"
proof (induction data)
  case Nil
  show ?case by simp
next
  case (Cons c data)
  then show ?case
    by (cases "c = 0") (auto simp: remove_nonprintables_cons remove_nonprintables_nul)
qed

lemma random_chunk_props:
  "length (random_chunk rand n k) = k" "set (random_chunk rand n k) \<subseteq> set (butlast obj_id_seq)"
proof -
  show "length (random_chunk rand n k) = k" by (induction k arbitrary: n) simp_all
  have "obj_id_seq ! (m mod 61) \<in> set (butlast obj_id_seq)" for m
  proof -
    have "m mod 61 < length (butlast obj_id_seq)" by simp
    then show ?thesis by (metis nth_butlast nth_mem)
  qed
  then show "set (random_chunk rand n k) \<subseteq> set (butlast obj_id_seq)"
    by (induction k arbitrary: n) simp_all
qed

lemma random_chunks_props:
  "length (random_chunks rand n c k left separ) =
     left * k + (if c = 0 then left - 1 else left)"
  "set (random_chunks rand n c k left separ) \<subseteq> insert separ (set (butlast obj_id_seq))"
  using random_chunk_props
  by (induction left arbitrary: n c) (fastforce split: if_splits)+

text \<open>A random name has the promised length and consists of separators and digits, but never of
  the last digit of the alphabet: the modulus leaves out the index 61.\<close>
theorem random_id_alphabet:
  "length (knd_generate_random_id rand chunk_size num_chunks separ) =
     num_chunks * chunk_size + (num_chunks - 1) \<and>
   set (knd_generate_random_id rand chunk_size num_chunks separ) \<subseteq>
     insert separ (set obj_id_seq - {obj_id_seq ! 61})"
proof -
  have "set (butlast obj_id_seq) = set obj_id_seq - {obj_id_seq ! 61}" by code_simp
  then show ?thesis
    using random_chunks_props(1) [of rand 0 0 chunk_size num_chunks separ]
      random_chunks_props(2) [of rand 0 0 chunk_size num_chunks separ]
    by (simp add: knd_generate_random_id_def)
qed

text \<open>Two identifiers of eight characters have the same path only when they are equal.\<close>
theorem id_path_inject:
  assumes "length a = KND_ID_SIZE" and "length b = KND_ID_SIZE"
  shows "knd_make_id_path path a filename = knd_make_id_path path b filename \<longleftrightarrow> a = b"
proof -
  have "\<exists>c0 c1 c2 c3 c4 c5 c6 c7. key = [c0, c1, c2, c3, c4, c5, c6, c7]"
    if "length key = 8" for key :: "byte list"
    using that by (auto simp: length_Suc_conv numeral_eq_Suc)
  then obtain a0 a1 a2 a3 a4 a5 a6 a7 b0 b1 b2 b3 b4 b5 b6 b7 where
    "a = [a0, a1, a2, a3, a4, a5, a6, a7]" "b = [b0, b1, b2, b3, b4, b5, b6, b7]"
    using assms by metis
  then show ?thesis by (simp add: knd_make_id_path_def upt_rec_numeral numeral_eq_Suc)
qed

theorem id_path_inject_witness:
  "knd_make_id_path None [48, 48, 48, 48, 48, 48, 48, 49] None =
   knd_make_id_path None [48, 48, 48, 48, 48, 48, 49, 48] None \<longleftrightarrow>
   [48, 48, 48, 48, 48, 48, 48, 49] = [48, 48, 48, 48, 48, 48, 49, 48 :: byte]"
  by (rule id_path_inject) simp_all

section \<open>Decimal numbers\<close>

text \<open>
  \<^verbatim>\<open>strtol\<close> in base 10 as the C standard defines it: blanks, an optional sign, the
  longest run of digits, the value clamped to \<^verbatim>\<open>long\<close>. The result holds the number, how
  many characters were used (0 without digits) and whether \<^verbatim>\<open>errno\<close> is \<^verbatim>\<open>ERANGE\<close>.
\<close>

definition dec_digit :: "byte \<Rightarrow> bool" where
  "dec_digit c \<longleftrightarrow> 48 \<le> c \<and> c \<le> 57"

definition dec_value :: "byte list \<Rightarrow> nat" where
  "dec_value ds = foldl (\<lambda>n c. 10 * n + (unat c - 48)) 0 ds"

definition strtol10 :: "byte list \<Rightarrow> int \<times> nat \<times> bool" where
  "strtol10 s =
     (let blanks = takeWhile isspace s;
          s1 = dropWhile isspace s;
          neg = (case s1 of c # _ \<Rightarrow> c = 45 | [] \<Rightarrow> False);
          signed = (case s1 of c # _ \<Rightarrow> c = 45 \<or> c = 43 | [] \<Rightarrow> False);
          s2 = (if signed then tl s1 else s1);
          ds = takeWhile dec_digit s2;
          v = (if neg then - int (dec_value ds) else int (dec_value ds))
      in if ds = [] then (0, 0, False)
         else (if v > 2 ^ 63 - 1 then 2 ^ 63 - 1 else if v < - (2 ^ 63) then - (2 ^ 63) else v,
               length blanks + (if signed then 1 else 0) + length ds,
               v > 2 ^ 63 - 1 \<or> v < - (2 ^ 63)))"

definition knd_parse_num :: "byte list \<Rightarrow> int result" where
  "knd_parse_num val =
     (case strtol10 val of (numval, used, erange) \<Rightarrow>
        if (erange \<and> (numval = 2 ^ 63 - 1 \<or> numval = - (2 ^ 63))) \<or> (erange \<and> numval = 0)
        then Inl (Err knd_FAIL)
        else if used = 0 then Inl (Err knd_FAIL)
        else Inr numval)"

text \<open>The value becomes the state filter of a task: it is cast to \<^verbatim>\<open>size_t\<close>.\<close>

definition knd_set_curr_state :: "byte list \<Rightarrow> size_t result" where
  "knd_set_curr_state val =
     (if length val = 0 then Inl (Err knd_FAIL)
      else if length val \<ge> KND_NAME_SIZE then Inl (Err knd_LIMIT)
      else bind_result (knd_parse_num (takeWhile (\<lambda>c. c \<noteq> 0) val)) (\<lambda>numval. Inr (word_of_int numval)))"

fun dec_print :: "nat \<Rightarrow> byte list" where
  "dec_print n = (if n < 10 then [of_nat (n + 48)] else dec_print (n div 10) @ [of_nat (n mod 10 + 48)])"

declare dec_print.simps [simp del]

definition sign_chars :: "bool \<Rightarrow> byte list" where
  "sign_chars neg = (if neg then [45] else [])"

lemma unat_dec: "k < 10 \<Longrightarrow> unat (of_nat (k + 48) :: byte) = k + 48"
  by (rule unat_of_nat_byte) simp

lemma dec_digit_of: "k < 10 \<Longrightarrow> dec_digit (of_nat (k + 48))"
  using unat_dec [of k] by (simp add: dec_digit_def word_le_nat_alt del: of_nat_add)

lemma dec_print_digits: "list_all dec_digit (dec_print n)" and dec_print_nonempty: "dec_print n \<noteq> []"
  by (induction n rule: dec_print.induct; subst dec_print.simps; simp add: dec_digit_of del: of_nat_add)+

lemma dec_value_print: "dec_value (dec_print n) = n"
proof (induction n rule: dec_print.induct)
  case (1 n)
  then show ?case
    by (subst dec_print.simps) (auto simp: dec_value_def unat_dec simp del: of_nat_add)
qed

lemma takeWhile_tail:
  "list_all P xs \<Longrightarrow> (\<forall>c cs. tail = c # cs \<longrightarrow> \<not> P c) \<Longrightarrow> takeWhile P (xs @ tail) = xs"
  by (induction xs) (auto split: list.splits, cases tail, auto)

lemma dec_digit_not_sign: "dec_digit c \<Longrightarrow> \<not> isspace c \<and> c \<noteq> 45 \<and> c \<noteq> 43"
  by (auto simp: dec_digit_def isspace_def word_le_nat_alt)

lemma dropWhile_blank: "list_all isspace ws \<Longrightarrow> s \<noteq> [] \<Longrightarrow> \<not> isspace (hd s) \<Longrightarrow>
  dropWhile isspace (ws @ s) = s \<and> takeWhile isspace (ws @ s) = ws"
  by (induction ws) (cases s, auto)+

text \<open>A decimal number with blanks before it, and anything but a digit after it, is read as its
  value when it fits a \<^verbatim>\<open>long\<close>, and refused otherwise; what follows the digits is ignored.\<close>
theorem parse_num_decimal:
  assumes "list_all isspace ws" and "tail = [] \<or> \<not> dec_digit (hd tail)"
  shows "knd_parse_num (ws @ sign_chars neg @ dec_print n @ tail) =
    (let v = (if neg then - int n else int n) in
     if - (2 ^ 63) \<le> v \<and> v < 2 ^ 63 then Inr v else Inl (Err knd_FAIL))"
proof -
  define s where "s = sign_chars neg @ dec_print n @ tail"
  obtain d ds where ds: "dec_print n = d # ds" using dec_print_nonempty [of n] by (cases "dec_print n") auto
  with dec_print_digits [of n] have d: "dec_digit d" by simp
  have s: "s \<noteq> []" "\<not> isspace (hd s)"
    using dec_digit_not_sign [OF d] by (auto simp: s_def ds sign_chars_def isspace_def)
  have t: "takeWhile dec_digit (dec_print n @ tail) = dec_print n"
    using dec_print_digits [of n] assms(2) by (intro takeWhile_tail) auto
  have "strtol10 (ws @ s) =
    (let v = (if neg then - int n else int n) in
     (if v > 2 ^ 63 - 1 then 2 ^ 63 - 1 else if v < - (2 ^ 63) then - (2 ^ 63) else v,
      length ws + length (sign_chars neg) + length (dec_print n),
      v > 2 ^ 63 - 1 \<or> v < - (2 ^ 63)))"
    using dec_digit_not_sign [OF d] t dropWhile_blank [OF assms(1) s] dec_print_nonempty [of n]
    by (cases neg)
      (simp_all add: strtol10_def Let_def s_def sign_chars_def ds dec_value_print [of n, unfolded ds])
  then show ?thesis
    using dec_print_nonempty [of n]
    by (auto simp: knd_parse_num_def Let_def s_def [symmetric])
qed

theorem parse_num_decimal_witness:
  "knd_parse_num ([32] @ sign_chars True @ dec_print 420 @ [120]) =
    (let v = (if True then - int 420 else int 420) in
     if - (2 ^ 63) \<le> v \<and> v < 2 ^ 63 then Inr v else Inl (Err knd_FAIL))"
  by (rule parse_num_decimal) (simp_all add: isspace_def dec_digit_def)

end
