(* ===== verification/File_Paths.thy ===== *)
theory File_Paths
  imports Prelude
begin

text \<open>
  \<^verbatim>\<open>knd_mkdir\<close>, \<^verbatim>\<open>knd_mkpath\<close>, \<^verbatim>\<open>knd_write_file\<close> and \<^verbatim>\<open>knd_append_file\<close> of \<^verbatim>\<open>src/knd_utils.c\<close>.
  The file system is the operating system's: its type \<open>'f\<close> and the calls \<^verbatim>\<open>stat\<close>, \<^verbatim>\<open>mkdir\<close> and
  \<^verbatim>\<open>open\<close> with \<^verbatim>\<open>write\<close> are parameters, and what the code relies on are the predicates
  \<open>posix_dirs\<close> and \<open>posix_append\<close>.
\<close>

datatype file_kind = Directory | Other_File
datatype mkdir_outcome = Made | Eexist | Failed

type_synonym 'f stat_fun = "'f \<Rightarrow> byte list \<Rightarrow> file_kind option"
type_synonym 'f mkdir_fun = "'f \<Rightarrow> byte list \<Rightarrow> mkdir_outcome \<times> 'f"

text \<open>The result is the error, if any, and the new file system.\<close>

definition knd_mkdir :: "'f stat_fun \<Rightarrow> 'f mkdir_fun \<Rightarrow> byte list \<Rightarrow> 'f \<Rightarrow> failure option \<times> 'f" where
  "knd_mkdir sys_stat sys_mkdir path fs =
     (case sys_stat fs path of
        None \<Rightarrow>
          (case sys_mkdir fs path of
             (Made, fs') \<Rightarrow> (None, fs')
           | (Eexist, fs') \<Rightarrow> (None, fs')
           | (Failed, fs') \<Rightarrow> (Some (Err knd_IO_FAIL), fs'))
      | Some Directory \<Rightarrow> (None, fs)
      | Some Other_File \<Rightarrow> (Some (Err knd_FAIL), fs))"

text \<open>A call sees the buffer up to its first NUL.\<close>

definition c_string :: "byte list \<Rightarrow> byte list" where
  "c_string buf = takeWhile (\<lambda>c. c \<noteq> 0) buf"

fun mkpath_loop :: "'f stat_fun \<Rightarrow> 'f mkdir_fun \<Rightarrow> byte list \<Rightarrow> byte list \<Rightarrow> 'f \<Rightarrow> failure option \<times> 'f" where
  "mkpath_loop sys_stat sys_mkdir buf [] fs = (None, fs)"
| "mkpath_loop sys_stat sys_mkdir buf (p # path) fs =
     (if p = 47 \<and> buf \<noteq> [] then
        (case knd_mkdir sys_stat sys_mkdir (c_string buf) fs of
           (Some e, fs') \<Rightarrow> (Some e, fs')
         | (None, fs') \<Rightarrow> mkpath_loop sys_stat sys_mkdir (buf @ [p]) path fs')
      else mkpath_loop sys_stat sys_mkdir (buf @ [p]) path fs)"

definition knd_mkpath ::
  "'f stat_fun \<Rightarrow> 'f mkdir_fun \<Rightarrow> byte list \<Rightarrow> bool \<Rightarrow> 'f \<Rightarrow> failure option \<times> 'f" where
  "knd_mkpath sys_stat sys_mkdir path has_filename fs =
     (if length path \<ge> KND_TEMP_BUF_SIZE then (Some (Err knd_LIMIT), fs)
      else if length path = 0 then (Some (Err knd_LIMIT), fs)
      else
        (case mkpath_loop sys_stat sys_mkdir [] path fs of
           (Some e, fs') \<Rightarrow> (Some e, fs')
         | (None, fs') \<Rightarrow>
             if \<not> has_filename then knd_mkdir sys_stat sys_mkdir (c_string path) fs' else (None, fs')))"

text \<open>
  A file is opened, written with one call and closed. The call reports that the file could not
  be opened or the result of \<^verbatim>\<open>write\<close>, the number of bytes written or -1.
\<close>

datatype write_outcome = Not_Opened | Written int

type_synonym 'f write_fun = "'f \<Rightarrow> byte list \<Rightarrow> write_outcome \<times> 'f"

definition knd_write_file :: "'f write_fun \<Rightarrow> byte list \<Rightarrow> 'f \<Rightarrow> failure option \<times> 'f" where
  "knd_write_file sys_truncate_write buf fs =
     (case sys_truncate_write fs buf of
        (Not_Opened, fs) \<Rightarrow> (Some (Err knd_IO_FAIL), fs)
      | (Written n, fs) \<Rightarrow> (if n = -1 \<or> n \<noteq> int (length buf) then Some (Err knd_IO_FAIL) else None, fs))"

definition knd_append_file :: "'f write_fun \<Rightarrow> byte list \<Rightarrow> 'f \<Rightarrow> failure option \<times> 'f" where
  "knd_append_file sys_append buf fs =
     (case sys_append fs buf of
        (Not_Opened, fs) \<Rightarrow> (Some (Err knd_IO_FAIL), fs)
      | (Written n, fs) \<Rightarrow> (if n = -1 \<or> n \<noteq> int (length buf) then Some (Err knd_IO_FAIL) else None, fs))"

section \<open>What the calls promise\<close>

text \<open>A complete write in append mode puts the bytes at the end of the file; \<open>contents\<close> reads it.\<close>

definition posix_append :: "'f write_fun \<Rightarrow> ('f \<Rightarrow> byte list) \<Rightarrow> bool" where
  "posix_append sys_append contents \<longleftrightarrow>
     (\<forall>fs bs fs'. sys_append fs bs = (Written (int (length bs)), fs') \<longrightarrow> contents fs' = contents fs @ bs)"

lemma append_file_contents:
  "posix_append sys_append contents \<Longrightarrow> knd_append_file sys_append bs fs = (None, fs') \<Longrightarrow>
   contents fs' = contents fs @ bs"
  by (auto simp: knd_append_file_def posix_append_def split: prod.splits write_outcome.splits if_splits)

definition posix_dirs :: "'f stat_fun \<Rightarrow> 'f mkdir_fun \<Rightarrow> bool" where
  "posix_dirs sys_stat sys_mkdir \<longleftrightarrow>
     (\<forall>fs p q. sys_stat fs q = Some Directory \<longrightarrow> sys_stat (snd (sys_mkdir fs p)) q = Some Directory) \<and>
     (\<forall>fs p. fst (sys_mkdir fs p) = Made \<longrightarrow> sys_stat (snd (sys_mkdir fs p)) p = Some Directory) \<and>
     (\<forall>fs p. fst (sys_mkdir fs p) = Eexist \<longrightarrow> sys_stat fs p \<noteq> None)"

lemma posix_dirsD:
  assumes "posix_dirs sys_stat sys_mkdir" and "sys_mkdir fs p = (r, fs')"
  shows "sys_stat fs q = Some Directory \<Longrightarrow> sys_stat fs' q = Some Directory"
    and "r = Made \<Longrightarrow> sys_stat fs' p = Some Directory"
    and "r = Eexist \<Longrightarrow> sys_stat fs p \<noteq> None"
  using assms unfolding posix_dirs_def by (metis fst_conv snd_conv)+

lemma mkdir_cases:
  assumes "knd_mkdir sys_stat sys_mkdir p fs = (r, fs')"
  obtains k where "sys_stat fs p = Some k" "fs' = fs" "r = None \<Longrightarrow> k = Directory"
  | res where "sys_stat fs p = None" "sys_mkdir fs p = (res, fs')" "r = None \<Longrightarrow> res \<noteq> Failed"
  using assms unfolding knd_mkdir_def
  by (auto split: option.splits file_kind.splits mkdir_outcome.splits prod.splits)

lemma mkdir_keeps:
  assumes "posix_dirs sys_stat sys_mkdir" and "sys_stat fs q = Some Directory"
  shows "sys_stat (snd (knd_mkdir sys_stat sys_mkdir p fs)) q = Some Directory"
proof -
  obtain r fs' where s: "knd_mkdir sys_stat sys_mkdir p fs = (r, fs')" by fastforce
  from s have "sys_stat fs' q = Some Directory"
  proof (cases rule: mkdir_cases)
    case (2 res)
    then show ?thesis using posix_dirsD(1) [OF assms(1) 2(2)] assms(2) by simp
  qed (use assms(2) in simp)
  with s show ?thesis by simp
qed

lemma mkdir_makes:
  assumes "posix_dirs sys_stat sys_mkdir" and "fst (knd_mkdir sys_stat sys_mkdir p fs) = None"
  shows "sys_stat (snd (knd_mkdir sys_stat sys_mkdir p fs)) p = Some Directory"
proof -
  obtain fs' where s: "knd_mkdir sys_stat sys_mkdir p fs = (None, fs')" using assms(2) by (cases "knd_mkdir sys_stat sys_mkdir p fs") auto
  from s have "sys_stat fs' p = Some Directory"
  proof (cases rule: mkdir_cases)
    case (2 res)
    then show ?thesis using posix_dirsD(2,3) [OF assms(1) 2(2)] by (cases res) auto
  qed simp
  with s show ?thesis by simp
qed

text \<open>The directories a path asks for: what stands before each \<^verbatim>\<open>/\<close> but a leading one.\<close>

definition path_dirs :: "byte list \<Rightarrow> byte list set" where
  "path_dirs path = {c_string (take i path) | i. 0 < i \<and> i < length path \<and> path ! i = 47}"

lemma mkpath_loop_dirs:
  assumes "posix_dirs sys_stat sys_mkdir"
    and "mkpath_loop sys_stat sys_mkdir buf path fs = (None, fs')"
  shows "(\<forall>q. sys_stat fs q = Some Directory \<longrightarrow> sys_stat fs' q = Some Directory) \<and>
    (\<forall>i. length buf \<le> i \<longrightarrow> 0 < i \<longrightarrow> i < length (buf @ path) \<longrightarrow> (buf @ path) ! i = 47 \<longrightarrow>
      sys_stat fs' (c_string (take i (buf @ path))) = Some Directory)"
  using assms(2)
proof (induction path arbitrary: buf fs)
  case Nil
  then show ?case by simp
next
  case (Cons p path)
  let ?step = "if p = 47 \<and> buf \<noteq> [] then knd_mkdir sys_stat sys_mkdir (c_string buf) fs else (None, fs)"
  obtain fs1 where step: "?step = (None, fs1)"
    and rest: "mkpath_loop sys_stat sys_mkdir (buf @ [p]) path fs1 = (None, fs')"
    using Cons.prems by (auto split: if_splits prod.splits option.splits)
  have keep1: "sys_stat fs1 q = Some Directory" if "sys_stat fs q = Some Directory" for q
    using step mkdir_keeps [OF assms(1) that, of "c_string buf"] that by (auto split: if_splits)
  have made: "sys_stat fs1 (c_string buf) = Some Directory" if "p = 47" "buf \<noteq> []"
    using step mkdir_makes [OF assms(1), of "c_string buf" fs] that by auto
  note IH = Cons.IH [OF rest]
  show ?case
  proof (intro conjI allI impI)
    fix q assume "sys_stat fs q = Some Directory"
    then show "sys_stat fs' q = Some Directory" using keep1 IH by blast
  next
    fix i assume i: "length buf \<le> i" "0 < i" "i < length (buf @ p # path)" "(buf @ p # path) ! i = 47"
    show "sys_stat fs' (c_string (take i (buf @ p # path))) = Some Directory"
    proof (cases "i = length buf")
      case True
      then show ?thesis using i made IH by auto
    next
      case False
      then show ?thesis using i IH by simp
    qed
  qed
qed

text \<open>When it returns without an error, every directory on the path exists, the whole path too
  unless its last part is a file name, and every directory that was there still is.\<close>
theorem mkpath_makes_dirs:
  assumes "posix_dirs sys_stat sys_mkdir"
    and "knd_mkpath sys_stat sys_mkdir path has_filename fs = (None, fs')"
  shows "(\<forall>d \<in> path_dirs path. sys_stat fs' d = Some Directory) \<and>
    (has_filename \<or> sys_stat fs' (c_string path) = Some Directory) \<and>
    (\<forall>q. sys_stat fs q = Some Directory \<longrightarrow> sys_stat fs' q = Some Directory)"
proof -
  obtain fs1 where loop: "mkpath_loop sys_stat sys_mkdir [] path fs = (None, fs1)"
    and last: "(if \<not> has_filename then knd_mkdir sys_stat sys_mkdir (c_string path) fs1 else (None, fs1)) = (None, fs')"
    using assms(2) by (auto simp: knd_mkpath_def split: if_splits prod.splits option.splits)
  note L = mkpath_loop_dirs [OF assms(1) loop]
  have keep: "sys_stat fs' q = Some Directory" if "sys_stat fs1 q = Some Directory" for q
    using last mkdir_keeps [OF assms(1) that, of "c_string path"] that by (auto split: if_splits)
  have made: "sys_stat fs' (c_string path) = Some Directory" if "\<not> has_filename"
    using last that mkdir_makes [OF assms(1), of "c_string path" fs1] by simp
  show ?thesis using L keep made by (auto simp: path_dirs_def)
qed

text \<open>A file system of directories only, to instantiate the theorem.\<close>

definition dirs_stat :: "byte list list stat_fun" where
  "dirs_stat fs p = (if p \<in> set fs then Some Directory else None)"

definition dirs_mkdir :: "byte list list mkdir_fun" where
  "dirs_mkdir fs p = (if p \<in> set fs then (Eexist, fs) else (Made, p # fs))"

lemma dirs_posix: "posix_dirs dirs_stat dirs_mkdir"
  by (simp add: posix_dirs_def dirs_stat_def dirs_mkdir_def)

theorem mkpath_makes_dirs_witness:
  "dirs_stat [[47, 97, 47, 98], [47, 97]] [47, 97] = Some Directory \<and>
    dirs_stat [[47, 97, 47, 98], [47, 97]] (c_string [47, 97, 47, 98]) = Some Directory"
proof -
  have "knd_mkpath dirs_stat dirs_mkdir [47, 97, 47, 98] False [] = (None, [[47, 97, 47, 98], [47, 97]])"
    by (simp add: knd_mkpath_def knd_mkdir_def dirs_stat_def dirs_mkdir_def c_string_def)
  note made = mkpath_makes_dirs [OF dirs_posix this]
  have "[47, 97] = c_string (take 2 [47, 97, 47, 98])" by (simp add: c_string_def)
  then have "[47, 97] \<in> path_dirs [47, 97, 47, 98]" unfolding path_dirs_def by fastforce
  then show ?thesis using made by blast
qed

end
