(* ===== verification/Output.thy ===== *)
theory Output
  imports Prelude
begin

text \<open>
  The output buffer of \<^verbatim>\<open>src/knd_output.c\<close>. The memory behind \<^verbatim>\<open>buf\<close> is the list of its
  bytes; sizes are \<^verbatim>\<open>size_t\<close>, so that \<open>capacity - buf_size - 1\<close> wraps as it does in the
  code. An operation returns the error, if any, and the new buffer; a store outside the
  memory is \<open>Stuck\<close>.
\<close>

section \<open>State and operations\<close>

record kndOutput =
  out_mem :: "byte list"
  out_size :: size_t
  out_cap :: size_t

type_synonym out_step = "failure option \<times> kndOutput"

text \<open>A store of \<open>bs\<close> at offset \<open>off\<close>, then the rest of the operation.\<close>

definition out_store :: "kndOutput \<Rightarrow> nat \<Rightarrow> byte list \<Rightarrow> (kndOutput \<Rightarrow> out_step) \<Rightarrow> out_step" where
  "out_store self off bs k =
     (case put_bytes (out_mem self) off bs of
        None \<Rightarrow> (Some Stuck, self)
      | Some mem \<Rightarrow> k (self\<lparr>out_mem := mem\<rparr>))"

definition kndOutput_reset :: "kndOutput \<Rightarrow> out_step" where
  "kndOutput_reset self = out_store (self\<lparr>out_size := 0\<rparr>) 0 [0] (\<lambda>self. (None, self))"

definition kndOutput_rtrim :: "kndOutput \<Rightarrow> size_t \<Rightarrow> out_step" where
  "kndOutput_rtrim self trim_size =
     (if trim_size > out_size self then (Some (Err knd_LIMIT), self)
      else
        let self = self\<lparr>out_size := out_size self - trim_size\<rparr>
        in out_store self (unat (out_size self)) [0] (\<lambda>self. (None, self)))"

definition kndOutput_writec :: "kndOutput \<Rightarrow> byte \<Rightarrow> out_step" where
  "kndOutput_writec self ch =
     (if out_size self \<ge> out_cap self - 1 then (Some (Err knd_NOMEM), self)
      else out_store self (unat (out_size self)) [ch] (\<lambda>self.
        let self = self\<lparr>out_size := out_size self + 1\<rparr>
        in out_store self (unat (out_size self)) [0] (\<lambda>self. (None, self))))"

text \<open>
  \<^verbatim>\<open>vsnprintf\<close> stores the formatted text, cut to the room left, with a NUL, and returns
  the full length; \<open>None\<close> is its failure.
\<close>

definition kndOutput_writef :: "kndOutput \<Rightarrow> byte list option \<Rightarrow> out_step" where
  "kndOutput_writef self formatted =
     (let room = out_cap self - out_size self in
      case formatted of
        None \<Rightarrow> (Some (Err knd_IO_FAIL), self)
      | Some text \<Rightarrow>
          out_store self (unat (out_size self))
            (if room = 0 then [] else take (unat room - 1) text @ [0]) (\<lambda>self.
            if of_nat (length text) \<ge> room then (Some (Err knd_NOMEM), self)
            else (None, self\<lparr>out_size := out_size self + of_nat (length text)\<rparr>)))"

definition kndOutput_write :: "kndOutput \<Rightarrow> byte list \<Rightarrow> out_step" where
  "kndOutput_write self buf =
     (if of_nat (length buf) > out_cap self - out_size self - 1 then (Some (Err knd_NOMEM), self)
      else out_store self (unat (out_size self)) buf (\<lambda>self.
        let self = self\<lparr>out_size := out_size self + of_nat (length buf)\<rparr>
        in out_store self (unat (out_size self)) [0] (\<lambda>self. (None, self))))"

definition dropped_char :: "byte \<Rightarrow> bool" where
  "dropped_char b \<longleftrightarrow> b = 123 \<or> b = 125 \<or> b = 34 \<or> b = 39"

definition blank_char :: "byte \<Rightarrow> bool" where
  "blank_char b \<longleftrightarrow> b = 10 \<or> b = 13 \<or> b = 9 \<or> b = 32"

text \<open>The loop of \<open>write_escaped\<close>: \<open>chunk_size\<close> bytes lie behind \<open>buf_size\<close> so far.\<close>

fun escaped_loop :: "kndOutput \<Rightarrow> size_t \<Rightarrow> size_t \<Rightarrow> bool \<Rightarrow> byte list \<Rightarrow> out_step" where
  "escaped_loop self free_space chunk_size in_whitespace [] =
     (None, self\<lparr>out_size := out_size self + chunk_size\<rparr>)"
| "escaped_loop self free_space chunk_size in_whitespace (b # buf) =
     (if chunk_size \<ge> free_space then (Some (Err knd_NOMEM), self)
      else if dropped_char b then escaped_loop self free_space chunk_size in_whitespace buf
      else if blank_char b then
        (if in_whitespace then escaped_loop self free_space chunk_size in_whitespace buf
         else out_store self (unat (out_size self) + unat chunk_size) [32] (\<lambda>self.
           escaped_loop self free_space (chunk_size + 1) True buf))
      else out_store self (unat (out_size self) + unat chunk_size) [b] (\<lambda>self.
           escaped_loop self free_space (chunk_size + 1) False buf))"

definition kndOutput_write_escaped :: "kndOutput \<Rightarrow> byte list \<Rightarrow> out_step" where
  "kndOutput_write_escaped self buf = escaped_loop self (out_cap self - out_size self) 0 False buf"

definition kndOutput_write_state_path :: "kndOutput \<Rightarrow> byte list \<Rightarrow> out_step" where
  "kndOutput_write_state_path self state =
     (let rec_size = of_nat (length state) * 2 + 1 in
      if rec_size > out_cap self - out_size self then (Some (Err knd_NOMEM), self)
      else out_store self (unat (out_size self)) (concat (map (\<lambda>c. [47, c]) state) @ [0]) (\<lambda>self.
        (None, self\<lparr>out_size := out_size self + rec_size\<rparr>)))"

text \<open>
  The stdio calls are the environment's: the file cannot be opened, cannot be measured,
  or has contents of which \<^verbatim>\<open>fread\<close> delivers the first \<open>n\<close> bytes.
\<close>

datatype file_stream = Open_Failed | Seek_Failed | File_Content "byte list" nat

definition kndOutput_write_file_content :: "kndOutput \<Rightarrow> file_stream \<Rightarrow> out_step" where
  "kndOutput_write_file_content self file =
     (if out_size self \<noteq> 0 then (Some (Err knd_FAIL), self)
      else case file of
        Open_Failed \<Rightarrow> (Some (Err knd_IO_FAIL), self)
      | Seek_Failed \<Rightarrow> (Some (Err knd_IO_FAIL), self)
      | File_Content bytes n \<Rightarrow>
          if of_nat (length bytes) > out_cap self - out_size self - 1 then (Some (Err knd_NOMEM), self)
          else out_store self (unat (out_size self)) (take n bytes) (\<lambda>self.
            let self = self\<lparr>out_size := out_size self + of_nat (length (take n bytes))\<rparr>
            in out_store self (unat (out_size self)) [0] (\<lambda>self. (None, self))))"

text \<open>\<open>got_self\<close> tells whether the record itself was allocated; \<open>malloc n\<close> is the block of \<open>n\<close> bytes, or
  \<open>None\<close>. Without a buffer of the caller one byte more than the capacity is allocated.\<close>

definition knd_output_new :: "bool \<Rightarrow> (nat \<Rightarrow> byte list option) \<Rightarrow> byte list option \<Rightarrow> size_t \<Rightarrow> kndOutput result" where
  "knd_output_new got_self malloc buf capacity =
     (if \<not> got_self then Inl (Err knd_NOMEM)
      else case buf of
        None \<Rightarrow>
          (case malloc (unat (capacity + 1)) of
             None \<Rightarrow> Inl (Err knd_NOMEM)
           | Some mem \<Rightarrow> Inr \<lparr>out_mem = mem, out_size = 0, out_cap = capacity\<rparr>)
      | Some mem \<Rightarrow> Inr \<lparr>out_mem = mem, out_size = 0, out_cap = capacity\<rparr>)"


section \<open>Invariant and contents\<close>

definition out_ok :: "kndOutput \<Rightarrow> bool" where
  "out_ok self \<longleftrightarrow> unat (out_size self) < unat (out_cap self) \<and> unat (out_cap self) \<le> length (out_mem self)"

definition out_text :: "kndOutput \<Rightarrow> byte list" where
  "out_text self = take (unat (out_size self)) (out_mem self)"

definition nul_terminated :: "kndOutput \<Rightarrow> bool" where
  "nul_terminated self \<longleftrightarrow> unat (out_size self) < length (out_mem self) \<and>
     out_mem self ! unat (out_size self) = 0"

definition out_room :: "kndOutput \<Rightarrow> nat" where
  "out_room self = unat (out_cap self) - unat (out_size self) - 1"

lemma out_store_fits:
  "off + length bs \<le> length (out_mem self) \<Longrightarrow>
   out_store self off bs k =
     k (self\<lparr>out_mem := take off (out_mem self) @ bs @ drop (off + length bs) (out_mem self)\<rparr>)"
  by (simp add: out_store_def put_bytes_Some)

lemma unat_room:
  assumes "out_ok self"
  shows "unat (out_cap self - out_size self - 1) = out_room self"
    and "unat (out_cap self - out_size self) = out_room self + 1"
proof -
  have "out_size self \<le> out_cap self" using assms by (simp add: out_ok_def word_le_nat_alt)
  then have d: "unat (out_cap self - out_size self) = unat (out_cap self) - unat (out_size self)"
    by (rule unat_sub)
  then show "unat (out_cap self - out_size self) = out_room self + 1"
    using assms by (auto simp: out_room_def out_ok_def)
  then have "1 \<le> out_cap self - out_size self" by (simp add: word_le_nat_alt)
  then show "unat (out_cap self - out_size self - 1) = out_room self"
    by (simp add: unat_sub d out_room_def)
qed

lemma unat_add_size:
  assumes "out_ok self" and "n \<le> out_room self"
  shows "unat (out_size self + of_nat n) = unat (out_size self) + n"
proof -
  have "unat (out_size self) + n < 2 ^ 64"
    using assms unat_size_t_less [of "out_cap self"] by (auto simp: out_ok_def out_room_def)
  then show ?thesis by (simp add: unat_word_ariths unat_of_nat_size_t)
qed

text \<open>The two stores of \<open>write\<close>, shared by the operations that append.\<close>

lemma append_and_terminate:
  assumes "out_ok self" and "length bs \<le> out_room self"
  obtains mem where
    "out_store self (unat (out_size self)) bs (\<lambda>self.
       let self = self\<lparr>out_size := out_size self + of_nat (length bs)\<rparr>
       in out_store self (unat (out_size self)) [0] (\<lambda>self. (None, self))) =
     (None, self\<lparr>out_mem := mem, out_size := out_size self + of_nat (length bs)\<rparr>)"
    and "length mem = length (out_mem self)"
    and "take (unat (out_size self) + length bs) mem = out_text self @ bs"
    and "mem ! (unat (out_size self) + length bs) = 0"
proof -
  let ?n = "unat (out_size self)"
  have fit: "?n + length bs < length (out_mem self)"
    using assms by (auto simp: out_ok_def out_room_def)
  define m1 where "m1 = take ?n (out_mem self) @ bs @ drop (?n + length bs) (out_mem self)"
  define mem where "mem = take (?n + length bs) m1 @ [0] @ drop (?n + length bs + 1) m1"
  have l: "length m1 = length (out_mem self)" using fit by (simp add: m1_def)
  have t1: "take (?n + length bs) m1 = out_text self @ bs" using fit by (simp add: m1_def out_text_def)
  show ?thesis
  proof (rule that [of mem])
    show "out_store self ?n bs (\<lambda>self.
       let self = self\<lparr>out_size := out_size self + of_nat (length bs)\<rparr>
       in out_store self (unat (out_size self)) [0] (\<lambda>self. (None, self))) =
     (None, self\<lparr>out_mem := mem, out_size := out_size self + of_nat (length bs)\<rparr>)"
      using fit l by (simp add: out_store_fits unat_add_size [OF assms] mem_def flip: m1_def)
    show "length mem = length (out_mem self)" using fit l by (simp add: mem_def)
    have "length (out_text self @ bs) = ?n + length bs" using fit by (simp add: out_text_def)
    then show "take (?n + length bs) mem = out_text self @ bs" using t1 by (simp add: mem_def)
    show "mem ! (?n + length bs) = 0" using fit l by (simp add: mem_def nth_append)
  qed
qed

lemma write_append:
  assumes "out_ok self" and "length buf \<le> out_room self"
  obtains mem where "kndOutput_write self buf =
      (None, self\<lparr>out_mem := mem, out_size := out_size self + of_nat (length buf)\<rparr>)"
    and "length mem = length (out_mem self)"
    and "take (unat (out_size self) + length buf) mem = out_text self @ buf"
    and "mem ! (unat (out_size self) + length buf) = 0"
proof -
  have "length buf < 2 ^ 64"
    using assms unat_size_t_less [of "out_cap self"] by (auto simp: out_ok_def out_room_def)
  then have len: "unat (of_nat (length buf) :: size_t) = length buf" by (rule unat_of_nat_size_t)
  obtain mem where m:
    "out_store self (unat (out_size self)) buf (\<lambda>self.
       let self = self\<lparr>out_size := out_size self + of_nat (length buf)\<rparr>
       in out_store self (unat (out_size self)) [0] (\<lambda>self. (None, self))) =
     (None, self\<lparr>out_mem := mem, out_size := out_size self + of_nat (length buf)\<rparr>)"
    "length mem = length (out_mem self)"
    "take (unat (out_size self) + length buf) mem = out_text self @ buf"
    "mem ! (unat (out_size self) + length buf) = 0"
    using append_and_terminate [OF assms] by blast
  have "kndOutput_write self buf =
      (None, self\<lparr>out_mem := mem, out_size := out_size self + of_nat (length buf)\<rparr>)"
    using assms unat_room [OF assms(1)] len m(1) by (simp add: kndOutput_write_def word_less_nat_alt)
  then show ?thesis using m(2-4) by (rule that)
qed

text \<open>What an appended buffer is: shared by the operations that append.\<close>

lemma appended_state:
  assumes "out_ok self" and "length bs \<le> out_room self"
    and "length mem = length (out_mem self)"
    and "take (unat (out_size self) + length bs) mem = out_text self @ bs"
  shows "out_text (self\<lparr>out_mem := mem, out_size := out_size self + of_nat (length bs)\<rparr>) = out_text self @ bs"
    and "out_ok (self\<lparr>out_mem := mem, out_size := out_size self + of_nat (length bs)\<rparr>)"
    and "out_room (self\<lparr>out_mem := mem, out_size := out_size self + of_nat (length bs)\<rparr>) =
      out_room self - length bs"
  using assms unat_add_size [OF assms(1,2)] by (auto simp: out_text_def out_ok_def out_room_def)

text \<open>\<open>write\<close> appends the bytes and terminates them when they fit before the last byte of the
  capacity, refuses them unchanged otherwise, and never stores outside the memory.\<close>
theorem output_write:
  assumes "out_ok self" and "length buf < 2 ^ 64"
  shows "(length buf \<le> out_room self \<longrightarrow> (\<exists>self'. kndOutput_write self buf = (None, self') \<and>
       out_text self' = out_text self @ buf \<and> nul_terminated self' \<and> out_ok self')) \<and>
    (out_room self < length buf \<longrightarrow> kndOutput_write self buf = (Some (Err knd_NOMEM), self))"
proof (intro conjI impI)
  have len: "unat (of_nat (length buf) :: size_t) = length buf" using assms(2) by (rule unat_of_nat_size_t)
  show "kndOutput_write self buf = (Some (Err knd_NOMEM), self)" if "out_room self < length buf"
    using that unat_room [OF assms(1)] len by (simp add: kndOutput_write_def word_less_nat_alt)
  assume fits: "length buf \<le> out_room self"
  obtain mem where m: "kndOutput_write self buf =
      (None, self\<lparr>out_mem := mem, out_size := out_size self + of_nat (length buf)\<rparr>)"
    "length mem = length (out_mem self)"
    "take (unat (out_size self) + length buf) mem = out_text self @ buf"
    "mem ! (unat (out_size self) + length buf) = 0"
    using write_append [OF assms(1) fits] by blast
  let ?self = "self\<lparr>out_mem := mem, out_size := out_size self + of_nat (length buf)\<rparr>"
  have "nul_terminated ?self"
    using m(2,4) fits assms(1) unat_add_size [OF assms(1) fits]
    by (auto simp: nul_terminated_def out_ok_def out_room_def)
  then show "\<exists>self'. kndOutput_write self buf = (None, self') \<and>
       out_text self' = out_text self @ buf \<and> nul_terminated self' \<and> out_ok self'"
    using m(1) appended_state [OF assms(1) fits m(2,3)] by blast
qed

text \<open>A buffer of six bytes holding one character, for instances.\<close>

definition sample_out :: kndOutput where
  "sample_out = \<lparr>out_mem = [65, 0, 0, 0, 0, 0], out_size = 1, out_cap = 6\<rparr>"

lemma sample_out_ok: "out_ok sample_out"
  by (simp add: out_ok_def sample_out_def)

theorem output_write_witness:
  "(length [7, 8 :: byte] \<le> out_room sample_out \<longrightarrow> (\<exists>self'. kndOutput_write sample_out [7, 8] = (None, self') \<and>
       out_text self' = out_text sample_out @ [7, 8] \<and> nul_terminated self' \<and> out_ok self')) \<and>
    (out_room sample_out < length [7, 8 :: byte] \<longrightarrow>
       kndOutput_write sample_out [7, 8] = (Some (Err knd_NOMEM), sample_out))"
  by (rule output_write [OF sample_out_ok]) simp

text \<open>Appending one character succeeds exactly when there is room for it and its NUL.\<close>
theorem output_writec:
  assumes "out_ok self"
  shows "if out_room self = 0 then kndOutput_writec self ch = (Some (Err knd_NOMEM), self)
    else \<exists>self'. kndOutput_writec self ch = (None, self') \<and> out_text self' = out_text self @ [ch] \<and>
      nul_terminated self' \<and> out_ok self'"
proof -
  have "1 \<le> out_cap self" using assms by (simp add: out_ok_def word_le_nat_alt)
  then have guard: "out_cap self - 1 \<le> out_size self \<longleftrightarrow> out_room self = 0"
    using assms by (auto simp: word_le_nat_alt unat_sub out_ok_def out_room_def)
  show ?thesis
  proof (cases "out_room self = 0")
    case True
    then show ?thesis using guard by (simp add: kndOutput_writec_def)
  next
    case False
    then have fits: "length [ch] \<le> out_room self" by simp
    obtain mem where m: "out_store self (unat (out_size self)) [ch] (\<lambda>self.
         let self = self\<lparr>out_size := out_size self + of_nat (length [ch])\<rparr>
         in out_store self (unat (out_size self)) [0] (\<lambda>self. (None, self))) =
       (None, self\<lparr>out_mem := mem, out_size := out_size self + of_nat (length [ch])\<rparr>)"
      "length mem = length (out_mem self)"
      "take (unat (out_size self) + length [ch]) mem = out_text self @ [ch]"
      "mem ! (unat (out_size self) + length [ch]) = 0"
      using append_and_terminate [OF assms fits] by blast
    let ?self = "self\<lparr>out_mem := mem, out_size := out_size self + of_nat (length [ch])\<rparr>"
    have "kndOutput_writec self ch = (None, ?self)"
      using False guard m(1) by (simp add: kndOutput_writec_def)
    moreover have "nul_terminated ?self"
      using m(2,4) fits assms unat_add_size [OF assms fits]
      by (auto simp: nul_terminated_def out_ok_def out_room_def)
    ultimately show ?thesis using False appended_state [OF assms fits m(2,3)] by auto
  qed
qed

theorem output_writec_witness:
  "if out_room sample_out = 0 then kndOutput_writec sample_out 66 = (Some (Err knd_NOMEM), sample_out)
    else \<exists>self'. kndOutput_writec sample_out 66 = (None, self') \<and>
      out_text self' = out_text sample_out @ [66] \<and> nul_terminated self' \<and> out_ok self'"
  by (rule output_writec [OF sample_out_ok])

text \<open>Formatted text is appended when it fits before the last byte; otherwise the error leaves
  the contents as they were, although the memory behind them holds the text cut off.\<close>
theorem output_writef:
  assumes "out_ok self" and "length text < 2 ^ 64"
  shows "\<exists>self'. kndOutput_writef self (Some text) =
      (if length text \<le> out_room self then None else Some (Err knd_NOMEM), self') \<and>
    out_text self' = (if length text \<le> out_room self then out_text self @ text else out_text self) \<and>
    out_ok self'"
proof -
  let ?n = "unat (out_size self)" and ?r = "out_room self"
  define cut where "cut = take ?r text @ [0]"
  have room: "unat (out_cap self - out_size self) = ?r + 1" "out_cap self - out_size self \<noteq> 0"
    using unat_room(2) [OF assms(1)] by auto
  have fit: "?n + length cut \<le> length (out_mem self)"
    using assms(1) by (auto simp: cut_def out_ok_def out_room_def min_def)
  define mem where "mem = take ?n (out_mem self) @ cut @ drop (?n + length cut) (out_mem self)"
  have len: "unat (of_nat (length text) :: size_t) = length text" using assms(2) by (rule unat_of_nat_size_t)
  have w: "kndOutput_writef self (Some text) =
     (if length text \<le> ?r then (None, self\<lparr>out_mem := mem, out_size := out_size self + of_nat (length text)\<rparr>)
      else (Some (Err knd_NOMEM), self\<lparr>out_mem := mem\<rparr>))"
    using fit room len by (simp add: kndOutput_writef_def cut_def out_store_fits mem_def word_le_nat_alt not_le)
  have l: "length mem = length (out_mem self)" using fit by (simp add: mem_def)
  have n: "?n \<le> length (out_mem self)" using fit by simp
  show ?thesis
  proof (cases "length text \<le> ?r")
    case True
    have "take (?n + length text) mem = out_text self @ text"
      using True n by (simp add: mem_def cut_def out_text_def)
    then show ?thesis using w True appended_state(1,2) [OF assms(1) True l] by auto
  next
    case False
    have "out_text (self\<lparr>out_mem := mem\<rparr>) = out_text self" using n by (simp add: out_text_def mem_def)
    moreover have "out_ok (self\<lparr>out_mem := mem\<rparr>)" using assms(1) l by (simp add: out_ok_def)
    ultimately show ?thesis using w False by auto
  qed
qed

theorem output_writef_witness:
  "\<exists>self'. kndOutput_writef sample_out (Some [1, 2, 3, 4, 5]) =
      (if length [1, 2, 3, 4, 5 :: byte] \<le> out_room sample_out then None else Some (Err knd_NOMEM), self') \<and>
    out_text self' = (if length [1, 2, 3, 4, 5 :: byte] \<le> out_room sample_out
      then out_text sample_out @ [1, 2, 3, 4, 5] else out_text sample_out) \<and>
    out_ok self'"
  by (rule output_writef [OF sample_out_ok]) simp

text \<open>Trimming drops the last bytes and resetting drops all, both with a NUL after what is left;
  a trim of more than there is is refused.\<close>
theorem output_rtrim:
  assumes "out_ok self"
  shows "(if unat trim_size > unat (out_size self)
      then kndOutput_rtrim self trim_size = (Some (Err knd_LIMIT), self)
      else \<exists>self'. kndOutput_rtrim self trim_size = (None, self') \<and>
        out_text self' = take (unat (out_size self) - unat trim_size) (out_text self) \<and>
        nul_terminated self' \<and> out_ok self') \<and>
    (\<exists>self'. kndOutput_reset self = (None, self') \<and> out_text self' = [] \<and> nul_terminated self' \<and> out_ok self')"
proof (rule conjI)
  show "if unat trim_size > unat (out_size self)
      then kndOutput_rtrim self trim_size = (Some (Err knd_LIMIT), self)
      else \<exists>self'. kndOutput_rtrim self trim_size = (None, self') \<and>
        out_text self' = take (unat (out_size self) - unat trim_size) (out_text self) \<and>
        nul_terminated self' \<and> out_ok self'"
  proof (cases "unat trim_size > unat (out_size self)")
    case True
    then show ?thesis by (simp add: kndOutput_rtrim_def word_less_nat_alt)
  next
    case False
    then have u: "unat (out_size self - trim_size) = unat (out_size self) - unat trim_size"
      by (intro unat_sub) (simp add: word_le_nat_alt)
    have fit: "unat (out_size self - trim_size) + 1 \<le> length (out_mem self)"
      using u assms by (auto simp: out_ok_def)
    show ?thesis using False fit u assms
      by (auto simp: kndOutput_rtrim_def word_less_nat_alt out_store_fits out_text_def nul_terminated_def
          out_ok_def nth_append)
  qed
  show "\<exists>self'. kndOutput_reset self = (None, self') \<and> out_text self' = [] \<and> nul_terminated self' \<and> out_ok self'"
    using assms by (auto simp: kndOutput_reset_def out_store_fits out_text_def nul_terminated_def out_ok_def)
qed

theorem output_rtrim_witness:
  "(if unat (1 :: size_t) > unat (out_size sample_out)
      then kndOutput_rtrim sample_out 1 = (Some (Err knd_LIMIT), sample_out)
      else \<exists>self'. kndOutput_rtrim sample_out 1 = (None, self') \<and>
        out_text self' = take (unat (out_size sample_out) - unat (1 :: size_t)) (out_text sample_out) \<and>
        nul_terminated self' \<and> out_ok self') \<and>
    (\<exists>self'. kndOutput_reset sample_out = (None, self') \<and> out_text self' = [] \<and> nul_terminated self' \<and>
      out_ok self')"
  by (rule output_rtrim [OF sample_out_ok])

section \<open>Escaped text and state paths\<close>

text \<open>What \<open>write_escaped\<close> keeps: no braces and quotes, and one blank for a run of blanks, also
  when dropped characters stand between them.\<close>

fun escaped :: "bool \<Rightarrow> byte list \<Rightarrow> byte list" where
  "escaped in_whitespace [] = []"
| "escaped in_whitespace (b # buf) =
     (if dropped_char b then escaped in_whitespace buf
      else if blank_char b then (if in_whitespace then escaped True buf else 32 # escaped True buf)
      else b # escaped False buf)"

text \<open>Escaped text never contains braces or quotes, every blank in it is a space, and escaping
  it once more changes nothing.\<close>
theorem escaped_clean:
  "list_all (\<lambda>b. \<not> dropped_char b \<and> (blank_char b \<longrightarrow> b = 32)) (escaped w buf) \<and>
   escaped w (escaped w buf) = escaped w buf"
  by (induction w buf rule: escaped.induct) (auto simp: dropped_char_def blank_char_def)

lemma out_store_byte:
  "off < length (out_mem self) \<Longrightarrow>
   out_store self off [x] k = k (self\<lparr>out_mem := (out_mem self)[off := x]\<rparr>)"
  by (simp add: out_store_fits upd_conv_take_nth_drop)

text \<open>How a run of the loop from \<open>k\<close> stored bytes ends: it fails only with more input than room.\<close>

definition escaped_result :: "kndOutput \<Rightarrow> nat \<Rightarrow> nat \<Rightarrow> bool \<Rightarrow> byte list \<Rightarrow> out_step \<Rightarrow> bool" where
  "escaped_result self k f w buf r \<longleftrightarrow>
     (\<exists>mem. length mem = length (out_mem self) \<and>
        take (unat (out_size self) + k) mem = take (unat (out_size self) + k) (out_mem self) \<and>
        (r = (Some (Err knd_NOMEM), self\<lparr>out_mem := mem\<rparr>) \<and> f < k + length buf \<or>
         r = (None, self\<lparr>out_mem := mem, out_size := out_size self + of_nat (k + length (escaped w buf))\<rparr>) \<and>
         k + length (escaped w buf) \<le> f \<and>
         take (unat (out_size self) + k + length (escaped w buf)) mem =
           take (unat (out_size self) + k) (out_mem self) @ escaped w buf))"

lemma escaped_result_store:
  assumes "escaped_result (self\<lparr>out_mem := (out_mem self)[unat (out_size self) + k := x]\<rparr>) (Suc k) f w' buf r"
    and "unat (out_size self) + k < length (out_mem self)"
    and "escaped w (b # buf) = x # escaped w' buf"
  shows "escaped_result self k f w (b # buf) r"
proof -
  let ?n = "unat (out_size self)"
  obtain mem where mem: "length mem = length (out_mem self)"
    "take (?n + Suc k) mem = take (?n + Suc k) ((out_mem self)[?n + k := x])"
    "r = (Some (Err knd_NOMEM), self\<lparr>out_mem := mem\<rparr>) \<and> f < Suc k + length buf \<or>
     r = (None, self\<lparr>out_mem := mem, out_size := out_size self + of_nat (Suc k + length (escaped w' buf))\<rparr>) \<and>
     Suc k + length (escaped w' buf) \<le> f \<and>
     take (?n + Suc k + length (escaped w' buf)) mem =
       take (?n + Suc k) ((out_mem self)[?n + k := x]) @ escaped w' buf"
    using assms(1) unfolding escaped_result_def by auto
  have step: "take (?n + Suc k) ((out_mem self)[?n + k := x]) = take (?n + k) (out_mem self) @ [x]"
    using assms(2) by (simp add: take_Suc_conv_app_nth)
  have "take (?n + k) mem = take (?n + k) (take (?n + Suc k) mem)" by (simp add: min_def)
  also have "\<dots> = take (?n + k) (out_mem self)"
    unfolding mem(2) step using assms(2) by simp
  finally have low: "take (?n + k) mem = take (?n + k) (out_mem self)" .
  show ?thesis unfolding escaped_result_def
    using mem low step assms(3) by (intro exI [of _ mem]) auto
qed

lemma escaped_loop_result:
  assumes "unat chunk = k" and "unat free = f" and "k \<le> f"
    and "unat (out_size self) + f \<le> length (out_mem self)"
  shows "escaped_result self k f w buf (escaped_loop self free chunk w buf)"
  using assms
proof (induction buf arbitrary: self k chunk w)
  case Nil
  then have "chunk = of_nat k" by auto
  with Nil show ?case by (auto simp: escaped_result_def intro!: exI [of _ "out_mem self"])
next
  case (Cons b buf)
  let ?n = "unat (out_size self)"
  show ?case
  proof (cases "free \<le> chunk")
    case True
    with Cons.prems show ?thesis
      by (auto simp: escaped_result_def word_le_nat_alt intro!: exI [of _ "out_mem self"])
  next
    case False
    with Cons.prems have lt: "k < f" by (simp add: word_le_nat_alt)
    then have next_chunk: "unat (chunk + 1) = Suc k"
      using Cons.prems unat_size_t_less [of free] by (simp add: unat_word_ariths)
    have inside: "?n + k < length (out_mem self)" using lt Cons.prems by simp
    have store: "escaped_result self k f w (b # buf)
        (escaped_loop (self\<lparr>out_mem := (out_mem self)[?n + k := x]\<rparr>) free (chunk + 1) w' buf)"
      if "escaped w (b # buf) = x # escaped w' buf" for x w'
      by (rule escaped_result_store [OF Cons.IH inside that]) (use next_chunk lt Cons.prems in auto)
    have skip: "escaped_result self k f w (b # buf) (escaped_loop self free chunk w' buf)"
      if "escaped w (b # buf) = escaped w' buf" for w'
    proof -
      have "escaped_result self k f w' buf (escaped_loop self free chunk w' buf)"
        using Cons.prems by (intro Cons.IH)
      then show ?thesis unfolding escaped_result_def that by fastforce
    qed
    show ?thesis
      using False store skip inside Cons.prems(1) by (auto simp: out_store_byte)
  qed
qed


lemma escaped_plain: "list_all (\<lambda>b. \<not> dropped_char b \<and> \<not> blank_char b) buf \<Longrightarrow> escaped w buf = buf"
  by (induction w buf rule: escaped.induct) auto

lemma write_escaped_result:
  assumes "out_ok self"
  shows "escaped_result self 0 (out_room self + 1) False buf (kndOutput_write_escaped self buf)"
  unfolding kndOutput_write_escaped_def
  by (rule escaped_loop_result) (use unat_room(2) [OF assms] assms in \<open>auto simp: out_ok_def out_room_def\<close>)

text \<open>Text that is not longer than the room left is appended in its escaped form; the operation
  stores nothing outside the memory, and an error leaves the contents as they were.\<close>
theorem output_write_escaped:
  assumes "out_ok self"
  shows "(length buf \<le> out_room self \<longrightarrow> fst (kndOutput_write_escaped self buf) = None) \<and>
    (fst (kndOutput_write_escaped self buf) = None \<longrightarrow>
       out_text (snd (kndOutput_write_escaped self buf)) = out_text self @ escaped False buf) \<and>
    (fst (kndOutput_write_escaped self buf) \<noteq> None \<longrightarrow>
       fst (kndOutput_write_escaped self buf) = Some (Err knd_NOMEM) \<and>
       out_text (snd (kndOutput_write_escaped self buf)) = out_text self \<and>
       out_ok (snd (kndOutput_write_escaped self buf)))"
proof -
  let ?n = "unat (out_size self)" and ?e = "length (escaped False buf)"
  obtain mem where mem: "length mem = length (out_mem self)" "take ?n mem = take ?n (out_mem self)"
    "kndOutput_write_escaped self buf = (Some (Err knd_NOMEM), self\<lparr>out_mem := mem\<rparr>) \<and> out_room self + 1 < length buf \<or>
     kndOutput_write_escaped self buf = (None, self\<lparr>out_mem := mem, out_size := out_size self + of_nat ?e\<rparr>) \<and>
     ?e \<le> out_room self + 1 \<and> take (?n + ?e) mem = take ?n (out_mem self) @ escaped False buf"
    using write_escaped_result [OF assms, of buf] unfolding escaped_result_def by auto
  have u: "unat (out_size self + of_nat ?e) = ?n + ?e" if "?e \<le> out_room self + 1"
  proof -
    have "?n + ?e < 2 ^ 64" using that assms unat_size_t_less [of "out_cap self"]
      by (auto simp: out_ok_def out_room_def)
    then show ?thesis by (simp add: unat_word_ariths unat_of_nat_size_t)
  qed
  from mem(3) show ?thesis
  proof
    assume e: "kndOutput_write_escaped self buf = (Some (Err knd_NOMEM), self\<lparr>out_mem := mem\<rparr>) \<and>
      out_room self + 1 < length buf"
    then show ?thesis using mem(1,2) assms by (simp add: out_text_def out_ok_def)
  next
    assume e: "kndOutput_write_escaped self buf = (None, self\<lparr>out_mem := mem, out_size := out_size self + of_nat ?e\<rparr>) \<and>
     ?e \<le> out_room self + 1 \<and> take (?n + ?e) mem = take ?n (out_mem self) @ escaped False buf"
    then show ?thesis using u by (simp add: out_text_def)
  qed
qed

theorem output_write_escaped_witness:
  "(length [34, 66, 32, 10 :: byte] \<le> out_room sample_out \<longrightarrow>
      fst (kndOutput_write_escaped sample_out [34, 66, 32, 10]) = None) \<and>
    (fst (kndOutput_write_escaped sample_out [34, 66, 32, 10]) = None \<longrightarrow>
       out_text (snd (kndOutput_write_escaped sample_out [34, 66, 32, 10])) =
         out_text sample_out @ escaped False [34, 66, 32, 10]) \<and>
    (fst (kndOutput_write_escaped sample_out [34, 66, 32, 10]) \<noteq> None \<longrightarrow>
       fst (kndOutput_write_escaped sample_out [34, 66, 32, 10]) = Some (Err knd_NOMEM) \<and>
       out_text (snd (kndOutput_write_escaped sample_out [34, 66, 32, 10])) = out_text sample_out \<and>
       out_ok (snd (kndOutput_write_escaped sample_out [34, 66, 32, 10])))"
  by (rule output_write_escaped [OF sample_out_ok])

text \<open>C21: the guard of \<open>write_escaped\<close> leaves no byte for the terminator. When plain text fills
  the capacity, it is accepted, and then the room of the next \<open>write\<close> is computed as
  \<open>2\<^sup>6\<^sup>4 - 1\<close>: whatever is written is stored behind the end of the memory.\<close>
theorem escaped_then_write_overflows:
  assumes "out_ok self" and "length (out_mem self) = unat (out_cap self)"
    and "list_all (\<lambda>b. \<not> dropped_char b \<and> \<not> blank_char b) chars"
    and "length chars = out_room self + 1" and "length buf < 2 ^ 64"
  shows "fst (kndOutput_write_escaped self chars) = None \<and>
    fst (kndOutput_write (snd (kndOutput_write_escaped self chars)) buf) = Some Stuck"
proof -
  let ?n = "unat (out_size self)"
  obtain mem where mem: "length mem = length (out_mem self)"
    "kndOutput_write_escaped self chars = (None, self\<lparr>out_mem := mem, out_size := out_size self + of_nat (length chars)\<rparr>)"
    using write_escaped_result [OF assms(1), of chars] escaped_plain [OF assms(3)] assms(4)
    unfolding escaped_result_def by auto
  have "?n + length chars = unat (out_cap self)" using assms(1,4) by (auto simp: out_ok_def out_room_def)
  then have "(of_nat (?n + length chars) :: size_t) = of_nat (unat (out_cap self))" by (simp only:)
  then have full: "out_size self + of_nat (length chars) = out_cap self" by simp
  have "put_bytes mem (unat (out_cap self)) [0] = None"
    using mem(1) assms(2) by (simp add: put_bytes_def)
  moreover have "put_bytes mem (unat (out_cap self)) buf = None \<or>
      buf = [] \<and> put_bytes mem (unat (out_cap self)) buf = Some mem"
    using mem(1) assms(2) by (auto simp: put_bytes_def)
  ultimately show ?thesis
    using mem assms(2) full
    by (auto simp: kndOutput_write_def out_store_def Let_def)
qed

theorem escaped_then_write_overflows_witness:
  "fst (kndOutput_write_escaped sample_out [66, 67, 68, 69, 70]) = None \<and>
    fst (kndOutput_write (snd (kndOutput_write_escaped sample_out [66, 67, 68, 69, 70])) [71]) = Some Stuck"
  by (rule escaped_then_write_overflows [OF sample_out_ok])
    (simp_all add: sample_out_def out_room_def dropped_char_def blank_char_def)

text \<open>A state path is appended with a slash before each character when it fits, and its NUL is
  counted as part of the contents.\<close>
theorem output_write_state_path:
  assumes "out_ok self" and "length state * 2 + 1 < 2 ^ 64"
  shows "(length state * 2 \<le> out_room self \<longrightarrow> (\<exists>self'. kndOutput_write_state_path self state = (None, self') \<and>
      out_text self' = out_text self @ concat (map (\<lambda>c. [47, c]) state) @ [0])) \<and>
    (out_room self < length state * 2 \<longrightarrow> kndOutput_write_state_path self state = (Some (Err knd_NOMEM), self))"
proof -
  let ?n = "unat (out_size self)" and ?bs = "concat (map (\<lambda>c. [47, c]) state) @ [0]"
  have len: "length ?bs = length state * 2 + 1" by (induction state) simp_all
  have rec: "unat (of_nat (length state) * 2 + 1 :: size_t) = length state * 2 + 1"
    using unat_of_nat_size_t [OF assms(2)] by (simp add: add.commute)
  have "(\<exists>self'. kndOutput_write_state_path self state = (None, self') \<and>
      out_text self' = out_text self @ ?bs)" if fits: "length state * 2 \<le> out_room self"
  proof -
    have fit: "?n + length ?bs \<le> length (out_mem self)"
      using fits assms(1) len by (auto simp: out_ok_def out_room_def)
    define mem where "mem = take ?n (out_mem self) @ ?bs @ drop (?n + length ?bs) (out_mem self)"
    have "?n + (length state * 2 + 1) < 2 ^ 64"
      using fits assms(1) unat_size_t_less [of "out_cap self"] by (auto simp: out_ok_def out_room_def)
    then have sz: "unat (out_size self + (of_nat (length state) * 2 + 1)) = ?n + length ?bs"
      using rec len by (simp add: unat_word_ariths)
    have "kndOutput_write_state_path self state =
      (None, self\<lparr>out_mem := mem, out_size := out_size self + (of_nat (length state) * 2 + 1)\<rparr>)"
      using fits rec unat_room(2) [OF assms(1)] fit
      by (simp add: kndOutput_write_state_path_def Let_def word_less_nat_alt out_store_fits mem_def)
    moreover have "take (?n + length ?bs) mem = out_text self @ ?bs"
      using fit by (simp add: mem_def out_text_def)
    ultimately show ?thesis using sz by (simp add: out_text_def)
  qed
  moreover have "kndOutput_write_state_path self state = (Some (Err knd_NOMEM), self)"
    if "out_room self < length state * 2"
    using that rec unat_room(2) [OF assms(1)]
    by (simp add: kndOutput_write_state_path_def Let_def word_less_nat_alt)
  ultimately show ?thesis by blast
qed

theorem output_write_state_path_witness:
  "(length [48, 49 :: byte] * 2 \<le> out_room sample_out \<longrightarrow>
      (\<exists>self'. kndOutput_write_state_path sample_out [48, 49] = (None, self') \<and>
      out_text self' = out_text sample_out @ concat (map (\<lambda>c. [47, c]) [48, 49]) @ [0])) \<and>
    (out_room sample_out < length [48, 49 :: byte] * 2 \<longrightarrow>
      kndOutput_write_state_path sample_out [48, 49] = (Some (Err knd_NOMEM), sample_out))"
  by (rule output_write_state_path [OF sample_out_ok]) simp

text \<open>A file is read into an empty buffer only, never past its memory; the contents become the
  bytes delivered, and a file larger than the room is refused.\<close>
theorem output_write_file_content:
  assumes "out_ok self" and "length bytes < 2 ^ 64"
  shows "if out_size self \<noteq> 0 then kndOutput_write_file_content self (File_Content bytes n) = (Some (Err knd_FAIL), self)
    else if out_room self < length bytes
    then kndOutput_write_file_content self (File_Content bytes n) = (Some (Err knd_NOMEM), self)
    else \<exists>self'. kndOutput_write_file_content self (File_Content bytes n) = (None, self') \<and>
      out_text self' = take n bytes \<and> out_ok self'"
proof -
  have len: "unat (of_nat (length bytes) :: size_t) = length bytes" using assms(2) by (rule unat_of_nat_size_t)
  show ?thesis
  proof (cases "out_size self = 0 \<and> length bytes \<le> out_room self")
    case True
    then have fits: "length (take n bytes) \<le> out_room self" by auto
    obtain mem where m: "out_store self (unat (out_size self)) (take n bytes) (\<lambda>self.
         let self = self\<lparr>out_size := out_size self + of_nat (length (take n bytes))\<rparr>
         in out_store self (unat (out_size self)) [0] (\<lambda>self. (None, self))) =
       (None, self\<lparr>out_mem := mem, out_size := out_size self + of_nat (length (take n bytes))\<rparr>)"
      "length mem = length (out_mem self)"
      "take (unat (out_size self) + length (take n bytes)) mem = out_text self @ take n bytes"
      "mem ! (unat (out_size self) + length (take n bytes)) = 0"
      using append_and_terminate [OF assms(1) fits] by blast
    have "kndOutput_write_file_content self (File_Content bytes n) =
       (None, self\<lparr>out_mem := mem, out_size := out_size self + of_nat (length (take n bytes))\<rparr>)"
      using True len unat_room(1) [OF assms(1)] m(1)
      by (simp add: kndOutput_write_file_content_def word_less_nat_alt)
    moreover have "out_text self = []" using True by (simp add: out_text_def)
    ultimately show ?thesis using True appended_state(1,2) [OF assms(1) fits m(2,3)] by auto
  next
    case False
    then show ?thesis using len unat_room(1) [OF assms(1)]
      by (auto simp: kndOutput_write_file_content_def word_less_nat_alt)
  qed
qed

theorem output_write_file_content_witness:
  "if out_size (sample_out\<lparr>out_size := 0\<rparr>) \<noteq> 0
    then kndOutput_write_file_content (sample_out\<lparr>out_size := 0\<rparr>) (File_Content [1, 2, 3] 3) =
      (Some (Err knd_FAIL), sample_out\<lparr>out_size := 0\<rparr>)
    else if out_room (sample_out\<lparr>out_size := 0\<rparr>) < length [1, 2, 3 :: byte]
    then kndOutput_write_file_content (sample_out\<lparr>out_size := 0\<rparr>) (File_Content [1, 2, 3] 3) =
      (Some (Err knd_NOMEM), sample_out\<lparr>out_size := 0\<rparr>)
    else \<exists>self'. kndOutput_write_file_content (sample_out\<lparr>out_size := 0\<rparr>) (File_Content [1, 2, 3] 3) = (None, self') \<and>
      out_text self' = take 3 [1, 2, 3] \<and> out_ok self'"
  by (rule output_write_file_content) (simp_all add: sample_out_def out_ok_def)

section \<open>Sequences of writes\<close>

text \<open>
  The writers of the program are sequences of \<open>write\<close> calls, each followed by an early
  return on error. The interface they rely on: a call appends or fails for lack of room.
\<close>

fun put_all :: "('s \<Rightarrow> byte list \<Rightarrow> failure option \<times> 's) \<Rightarrow> 's \<Rightarrow> byte list list \<Rightarrow> failure option \<times> 's" where
  "put_all put s [] = (None, s)"
| "put_all put s (bs # rest) =
     (case put s bs of (Some e, s') \<Rightarrow> (Some e, s') | (None, s') \<Rightarrow> put_all put s' rest)"

locale byte_sink =
  fixes put :: "'s \<Rightarrow> byte list \<Rightarrow> failure option \<times> 's"
    and ok :: "'s \<Rightarrow> bool"
    and content :: "'s \<Rightarrow> byte list"
    and room :: "'s \<Rightarrow> nat"
  assumes put_fits: "ok s \<Longrightarrow> length bs \<le> room s \<Longrightarrow>
      \<exists>s'. put s bs = (None, s') \<and> ok s' \<and> content s' = content s @ bs \<and> room s' = room s - length bs"
    and put_full: "ok s \<Longrightarrow> room s < length bs \<Longrightarrow> length bs < 2 ^ 64 \<Longrightarrow> put s bs = (Some (Err knd_NOMEM), s)"
begin

lemma put_all_fits:
  "ok s \<Longrightarrow> length (concat bss) \<le> room s \<Longrightarrow>
   \<exists>s'. put_all put s bss = (None, s') \<and> ok s' \<and> content s' = content s @ concat bss \<and>
     room s' = room s - length (concat bss)"
proof (induction bss arbitrary: s)
  case Nil
  then show ?case by simp
next
  case (Cons bs bss)
  then have "length bs \<le> room s" by simp
  from put_fits [OF Cons.prems(1) this] obtain s1 where
    s1: "put s bs = (None, s1)" "ok s1" "content s1 = content s @ bs" "room s1 = room s - length bs" by blast
  have "length (concat bss) \<le> room s1" using Cons.prems(2) s1(4) by simp
  from Cons.IH [OF s1(2) this] s1 show ?case by auto
qed

lemma put_all_full:
  assumes "ok s" and "room s < length (concat bss)" and "\<forall>bs\<in>set bss. length bs < 2 ^ 64"
  shows "\<exists>s' rest. put_all put s bss = (Some (Err knd_NOMEM), s') \<and> ok s' \<and>
    concat bss = rest @ drop (length rest) (concat bss) \<and> content s' = content s @ rest"
  using assms
proof (induction bss arbitrary: s)
  case Nil
  then show ?case by simp
next
  case (Cons bs bss)
  show ?case
  proof (cases "length bs \<le> room s")
    case True
    from put_fits [OF Cons.prems(1) this] obtain s1 where
      s1: "put s bs = (None, s1)" "ok s1" "content s1 = content s @ bs" "room s1 = room s - length bs" by blast
    have "room s1 < length (concat bss)" using Cons.prems(2) s1(4) True by simp
    with Cons.IH [OF s1(2)] Cons.prems(3) obtain s' rest where
      "put_all put s1 bss = (Some (Err knd_NOMEM), s')" "ok s'"
      "concat bss = rest @ drop (length rest) (concat bss)" "content s' = content s1 @ rest" by auto
    then show ?thesis using s1 by (intro exI [of _ s'] exI [of _ "bs @ rest"]) simp
  next
    case False
    then have "put s bs = (Some (Err knd_NOMEM), s)" using Cons.prems by (intro put_full) simp_all
    then show ?thesis using Cons.prems(1) by (intro exI [of _ s] exI [of _ "[]"]) simp
  qed
qed

end

interpretation out_sink: byte_sink kndOutput_write out_ok out_text out_room
proof
  fix s and bs :: "byte list" assume s: "out_ok s" "length bs \<le> out_room s"
  obtain mem where "kndOutput_write s bs = (None, s\<lparr>out_mem := mem, out_size := out_size s + of_nat (length bs)\<rparr>)"
    "length mem = length (out_mem s)" "take (unat (out_size s) + length bs) mem = out_text s @ bs"
    using write_append [OF s] by blast
  then show "\<exists>s'. kndOutput_write s bs = (None, s') \<and> out_ok s' \<and> out_text s' = out_text s @ bs \<and>
      out_room s' = out_room s - length bs"
    using appended_state [OF s] by blast
next
  fix s and bs :: "byte list" assume "out_ok s" "out_room s < length bs" "length bs < 2 ^ 64"
  then show "kndOutput_write s bs = (Some (Err knd_NOMEM), s)"
    using unat_of_nat_size_t [of "length bs"] unat_room [of s]
    by (simp add: kndOutput_write_def word_less_nat_alt)
qed

text \<open>A sequence of writes into a sound buffer either stores all of them in order, or stops with
  \<open>knd_NOMEM\<close> after a prefix of their bytes; it stops only when they do not all fit.\<close>
theorem output_write_sequence:
  assumes "out_ok self" and "\<forall>bs\<in>set bss. length bs < 2 ^ 64"
  shows "\<exists>self' rest. put_all kndOutput_write self bss =
      (if length (concat bss) \<le> out_room self then None else Some (Err knd_NOMEM), self') \<and> out_ok self' \<and>
    out_text self' = out_text self @ rest \<and>
    (if length (concat bss) \<le> out_room self then rest = concat bss
     else concat bss = rest @ drop (length rest) (concat bss))"
proof (cases "length (concat bss) \<le> out_room self")
  case True
  then show ?thesis using out_sink.put_all_fits [OF assms(1) True] by auto
next
  case False
  then have "out_room self < length (concat bss)" by simp
  from out_sink.put_all_full [OF assms(1) this assms(2)] show ?thesis using False by auto
qed

theorem output_write_sequence_witness:
  "\<exists>self' rest. put_all kndOutput_write sample_out [[1, 2], [3], [4, 5]] =
      (if length (concat [[1, 2], [3], [4, 5 :: byte]]) \<le> out_room sample_out then None else Some (Err knd_NOMEM), self') \<and>
    out_ok self' \<and> out_text self' = out_text sample_out @ rest \<and>
    (if length (concat [[1, 2], [3], [4, 5 :: byte]]) \<le> out_room sample_out then rest = concat [[1, 2], [3], [4, 5]]
     else concat [[1, 2], [3], [4, 5]] = rest @ drop (length rest) (concat [[1, 2], [3], [4, 5]]))"
  by (rule output_write_sequence [OF sample_out_ok]) simp

end
