(* ===== verification/Mempool.thy ===== *)
theory Mempool
  imports Prelude
begin

text \<open>
  The memory pools of \<^verbatim>\<open>src/knd_mempool.c\<close>. A pool keeps five classes of pages; the
  fields that the code repeats for each of them are one record. A page is named by its
  address, 0 is \<^verbatim>\<open>NULL\<close>, and \<open>mp_next\<close> is the memory of the page headers: the \<open>next\<close> field
  stored at the start of a free page, through which the free lists run.
\<close>

section \<open>State\<close>

datatype knd_mempage = KND_MEMPAGE_LARGE | KND_MEMPAGE_BASE_X4 | KND_MEMPAGE_BASE_X2 | KND_MEMPAGE_BASE
  | KND_MEMPAGE_SMALL_X4 | KND_MEMPAGE_SMALL_X2 | KND_MEMPAGE_SMALL | KND_MEMPAGE_TINY

datatype knd_mempool_type = KND_ALLOC_INCR | KND_ALLOC_LIST | KND_ALLOC_SHARED

record page_pool =
  pc_pages :: nat
  pc_page_size :: size_t
  pc_num_pages :: size_t
  pc_pages_used :: size_t
  pc_page_list :: nat
  pc_shared_list :: nat
  pc_shared_used :: size_t

record kndMemPool =
  mp_type :: knd_mempool_type
  mp_id :: int
  mp_capacity :: size_t
  mp_base :: page_pool
  mp_small_x4 :: page_pool
  mp_small_x2 :: page_pool
  mp_small :: page_pool
  mp_tiny :: page_pool
  mp_next :: "nat \<Rightarrow> nat"

text \<open>The \<^verbatim>\<open>switch (page_type)\<close> of the operations: all types but four are base pages.\<close>

fun page_class :: "knd_mempage \<Rightarrow> kndMemPool \<Rightarrow> page_pool" where
  "page_class KND_MEMPAGE_SMALL_X4 self = mp_small_x4 self"
| "page_class KND_MEMPAGE_SMALL_X2 self = mp_small_x2 self"
| "page_class KND_MEMPAGE_SMALL self = mp_small self"
| "page_class KND_MEMPAGE_TINY self = mp_tiny self"
| "page_class _ self = mp_base self"

fun set_page_class :: "knd_mempage \<Rightarrow> page_pool \<Rightarrow> kndMemPool \<Rightarrow> kndMemPool" where
  "set_page_class KND_MEMPAGE_SMALL_X4 c self = self\<lparr>mp_small_x4 := c\<rparr>"
| "set_page_class KND_MEMPAGE_SMALL_X2 c self = self\<lparr>mp_small_x2 := c\<rparr>"
| "set_page_class KND_MEMPAGE_SMALL c self = self\<lparr>mp_small := c\<rparr>"
| "set_page_class KND_MEMPAGE_TINY c self = self\<lparr>mp_tiny := c\<rparr>"
| "set_page_class _ c self = self\<lparr>mp_base := c\<rparr>"

section \<open>Taking and freeing a page\<close>

text \<open>A thread running alone: its compare-and-exchange succeeds.\<close>

definition get_shared_page :: "kndMemPool \<Rightarrow> knd_mempage \<Rightarrow> (nat \<times> kndMemPool) result" where
  "get_shared_page self page_type =
     (let c = page_class page_type self; page_list = pc_shared_list c in
      if page_list = 0 then Inl (Err knd_NOMEM)
      else
        let next_page = mp_next self page_list
        in Inr (page_list, set_page_class page_type
             (c\<lparr>pc_shared_list := next_page, pc_shared_used := pc_shared_used c + 1\<rparr>) self))"

definition get_page :: "kndMemPool \<Rightarrow> knd_mempage \<Rightarrow> (nat \<times> kndMemPool) result" where
  "get_page self page_type =
     (let c = page_class page_type self in
      if pc_page_list c = 0 then Inl (Err knd_NOMEM)
      else Inr (pc_page_list c, set_page_class page_type
             (c\<lparr>pc_page_list := mp_next self (pc_page_list c), pc_pages_used := pc_pages_used c + 1\<rparr>) self))"

definition incr_page :: "kndMemPool \<Rightarrow> knd_mempage \<Rightarrow> (nat \<times> kndMemPool) result" where
  "incr_page self page_type =
     (let c = page_class page_type self in
      if pc_pages_used c + 1 > pc_num_pages c then Inl (Err knd_NOMEM)
      else
        let offset = pc_page_size c * pc_pages_used c
        in Inr (pc_pages c + unat offset,
             set_page_class page_type (c\<lparr>pc_pages_used := pc_pages_used c + 1\<rparr>) self))"

definition knd_mempool_page :: "kndMemPool \<Rightarrow> knd_mempage \<Rightarrow> (nat \<times> kndMemPool) result" where
  "knd_mempool_page self page_type =
     (case mp_type self of
        KND_ALLOC_SHARED \<Rightarrow> get_shared_page self page_type
      | KND_ALLOC_LIST \<Rightarrow> get_page self page_type
      | KND_ALLOC_INCR \<Rightarrow> incr_page self page_type)"

definition knd_mempool_free :: "kndMemPool \<Rightarrow> knd_mempage \<Rightarrow> nat \<Rightarrow> kndMemPool result" where
  "knd_mempool_free self page_type page_data =
     (if page_data = 0 then Inl Stuck
      else
        let c = page_class page_type self;
            self = self\<lparr>mp_next := (mp_next self)(page_data := pc_page_list c)\<rparr>
        in Inr (set_page_class page_type
             (c\<lparr>pc_page_list := page_data, pc_pages_used := pc_pages_used c - 1\<rparr>) self))"

definition knd_mempool_reset :: "kndMemPool \<Rightarrow> kndMemPool" where
  "knd_mempool_reset self = self
     \<lparr>mp_base := (mp_base self)\<lparr>pc_pages_used := 0\<rparr>,
      mp_small_x4 := (mp_small_x4 self)\<lparr>pc_pages_used := 0\<rparr>,
      mp_small_x2 := (mp_small_x2 self)\<lparr>pc_pages_used := 0\<rparr>,
      mp_small := (mp_small self)\<lparr>pc_pages_used := 0\<rparr>,
      mp_tiny := (mp_tiny self)\<lparr>pc_pages_used := 0\<rparr>\<rparr>"

section \<open>Building a pool\<close>

text \<open>\<open>calloc n size\<close> is the address of the block, or \<open>None\<close>; the code takes each of the five
  blocks from one call, told apart by the page type.\<close>

definition alloc_page_buf ::
  "(knd_mempage \<Rightarrow> size_t \<Rightarrow> size_t \<Rightarrow> nat option) \<Rightarrow> knd_mempage \<Rightarrow> size_t \<Rightarrow> size_t \<Rightarrow> kndMemPool \<Rightarrow>
   failure option \<times> kndMemPool" where
  "alloc_page_buf calloc page_type default_num_pages default_page_size self =
     (let c = page_class page_type self;
          num_pages = (if pc_num_pages c = 0 then default_num_pages else pc_num_pages c);
          page_size = (if pc_page_size c = 0 then default_page_size else pc_page_size c)
      in if page_size \<le> 8 then (Some (Err knd_LIMIT), self)
         else case calloc page_type num_pages page_size of
           None \<Rightarrow> (Some (Err knd_NOMEM), self)
         | Some pages \<Rightarrow>
             (None, set_page_class page_type
               (c\<lparr>pc_pages := pages, pc_page_size := page_size, pc_num_pages := num_pages\<rparr>)
               (self\<lparr>mp_capacity := mp_capacity self + num_pages * page_size\<rparr>)))"

text \<open>The slot that the next iteration fills: the list head or the header of the page before.\<close>

datatype list_slot = Head_Slot | Next_Slot nat

fun fill_slot :: "list_slot \<Rightarrow> nat \<Rightarrow> nat \<times> (nat \<Rightarrow> nat) \<Rightarrow> nat \<times> (nat \<Rightarrow> nat)" where
  "fill_slot Head_Slot p (h, nx) = (p, nx)"
| "fill_slot (Next_Slot a) p (h, nx) = (h, nx(a := p))"

fun build_loop :: "nat \<Rightarrow> nat \<Rightarrow> nat \<Rightarrow> list_slot \<Rightarrow> nat \<times> (nat \<Rightarrow> nat) \<Rightarrow> nat \<times> (nat \<Rightarrow> nat)" where
  "build_loop 0 pages page_size slot st = fill_slot slot 0 st"
| "build_loop (Suc n) pages page_size slot st =
     build_loop n (pages + page_size) page_size (Next_Slot pages) (fill_slot slot pages st)"

definition build_linked_list :: "knd_mempage \<Rightarrow> kndMemPool \<Rightarrow> kndMemPool" where
  "build_linked_list page_type self =
     (let c = page_class page_type self in
      case build_loop (unat (pc_num_pages c)) (pc_pages c) (unat (pc_page_size c)) Head_Slot
          (pc_page_list c, mp_next self) of
        (h, nx) \<Rightarrow> set_page_class page_type (c\<lparr>pc_page_list := h\<rparr>) (self\<lparr>mp_next := nx\<rparr>))"

definition clear_pages :: "knd_mempage \<Rightarrow> kndMemPool \<Rightarrow> kndMemPool" where
  "clear_pages page_type self =
     (let c = page_class page_type self; size = unat (pc_page_size c * pc_num_pages c) in
      self\<lparr>mp_next := (\<lambda>a. if pc_pages c \<le> a \<and> a < pc_pages c + size then 0 else mp_next self a)\<rparr>)"

definition reset_capacity :: "kndMemPool \<Rightarrow> kndMemPool" where
  "reset_capacity self =
     (let self = build_linked_list KND_MEMPAGE_BASE (clear_pages KND_MEMPAGE_BASE self);
          self = build_linked_list KND_MEMPAGE_SMALL_X4 (clear_pages KND_MEMPAGE_SMALL_X4 self);
          self = build_linked_list KND_MEMPAGE_SMALL_X2 (clear_pages KND_MEMPAGE_SMALL_X2 self);
          self = build_linked_list KND_MEMPAGE_SMALL (clear_pages KND_MEMPAGE_SMALL self);
          self = build_linked_list KND_MEMPAGE_TINY (clear_pages KND_MEMPAGE_TINY self)
      in self)"

definition share_list :: "page_pool \<Rightarrow> page_pool" where
  "share_list c = c\<lparr>pc_shared_list := pc_page_list c\<rparr>"

definition alloc_capacity :: "(knd_mempage \<Rightarrow> size_t \<Rightarrow> size_t \<Rightarrow> nat option) \<Rightarrow> kndMemPool \<Rightarrow>
    failure option \<times> kndMemPool" where
  "alloc_capacity calloc self =
     then_step (alloc_page_buf calloc KND_MEMPAGE_BASE 10000 1024 self) (\<lambda>self.
     then_step (alloc_page_buf calloc KND_MEMPAGE_SMALL_X4 10000 512 self) (\<lambda>self.
     then_step (alloc_page_buf calloc KND_MEMPAGE_SMALL_X2 10000 256 self) (\<lambda>self.
     then_step (alloc_page_buf calloc KND_MEMPAGE_SMALL 10000 128 self) (\<lambda>self.
     then_step (alloc_page_buf calloc KND_MEMPAGE_TINY 10000 64 self) (\<lambda>self.
       let self = (if mp_type self = KND_ALLOC_SHARED \<or> mp_type self = KND_ALLOC_LIST then
             let self = build_linked_list KND_MEMPAGE_BASE self;
                 self = build_linked_list KND_MEMPAGE_SMALL_X4 self;
                 self = build_linked_list KND_MEMPAGE_SMALL_X2 self;
                 self = build_linked_list KND_MEMPAGE_SMALL self;
                 self = build_linked_list KND_MEMPAGE_TINY self
             in self
           else self);
           self = (if mp_type self = KND_ALLOC_SHARED then self
             \<lparr>mp_base := share_list (mp_base self),
              mp_tiny := share_list (mp_tiny self),
              mp_small := share_list (mp_small self),
              mp_small_x2 := share_list (mp_small_x2 self),
              mp_small_x4 := share_list (mp_small_x4 self)\<rparr>
           else self)
       in (None, self))))))"

definition empty_class :: page_pool where
  "empty_class = \<lparr>pc_pages = 0, pc_page_size = 0, pc_num_pages = 0, pc_pages_used = 0,
     pc_page_list = 0, pc_shared_list = 0, pc_shared_used = 0\<rparr>"

text \<open>\<open>memory\<close> is what the memory of the pages holds before they are allocated.\<close>

definition knd_mempool_new :: "knd_mempool_type \<Rightarrow> int \<Rightarrow> (nat \<Rightarrow> nat) \<Rightarrow> kndMemPool" where
  "knd_mempool_new type mempool_id memory =
     \<lparr>mp_type = type, mp_id = mempool_id, mp_capacity = 0, mp_base = empty_class,
      mp_small_x4 = empty_class, mp_small_x2 = empty_class, mp_small = empty_class,
      mp_tiny = empty_class, mp_next = memory\<rparr>"

section \<open>The pages of a class and the paths through them\<close>

lemma page_class_set [simp]: "page_class t (set_page_class t c self) = c"
  by (cases t) simp_all

lemma set_page_class_fields [simp]:
  "mp_next (set_page_class t c self) = mp_next self"
  "mp_type (set_page_class t c self) = mp_type self"
  "mp_capacity (set_page_class t c self) = mp_capacity self"
  by (cases t; simp)+

lemma page_class_fields [simp]:
  "page_class t (self\<lparr>mp_next := nx\<rparr>) = page_class t self"
  "page_class t (self\<lparr>mp_capacity := n\<rparr>) = page_class t self"
  by (cases t; simp)+

text \<open>The page types that share a class.\<close>

fun canon :: "knd_mempage \<Rightarrow> knd_mempage" where
  "canon KND_MEMPAGE_LARGE = KND_MEMPAGE_BASE"
| "canon KND_MEMPAGE_BASE_X4 = KND_MEMPAGE_BASE"
| "canon KND_MEMPAGE_BASE_X2 = KND_MEMPAGE_BASE"
| "canon t = t"

lemma page_class_set_if:
  "page_class t (set_page_class u c self) = (if canon t = canon u then c else page_class t self)"
  by (cases t; cases u; simp)

lemma page_class_canon [simp]: "page_class (canon t) self = page_class t self"
  by (cases t) simp_all

lemma canon_canon [simp]: "canon (canon t) = canon t"
  by (cases t) simp_all

definition class_pages :: "page_pool \<Rightarrow> nat list" where
  "class_pages c = map (\<lambda>i. pc_pages c + unat (pc_page_size c) * i) [0..<unat (pc_num_pages c)]"

definition class_ok :: "page_pool \<Rightarrow> bool" where
  "class_ok c \<longleftrightarrow> pc_pages c \<noteq> 0 \<and> 8 < unat (pc_page_size c) \<and>
     unat (pc_page_size c) * unat (pc_num_pages c) < 2 ^ 64 \<and> unat (pc_pages_used c) \<le> unat (pc_num_pages c)"

lemma distinct_class_pages: "class_ok c \<Longrightarrow> distinct (class_pages c)"
  by (auto simp: class_pages_def class_ok_def distinct_map inj_on_def)

lemma length_class_pages [simp]: "length (class_pages c) = unat (pc_num_pages c)"
  by (simp add: class_pages_def)

lemma class_pages_nonzero: "class_ok c \<Longrightarrow> p \<in> set (class_pages c) \<Longrightarrow> p \<noteq> 0"
  by (auto simp: class_pages_def class_ok_def)

fun free_path :: "(nat \<Rightarrow> nat) \<Rightarrow> nat \<Rightarrow> nat list \<Rightarrow> bool" where
  "free_path nx p [] \<longleftrightarrow> p = 0"
| "free_path nx p (x # xs) \<longleftrightarrow> p = x \<and> x \<noteq> 0 \<and> free_path nx (nx x) xs"

text \<open>The free list read off the memory, \<open>n\<close> pages long.\<close>

fun collect_path :: "nat \<Rightarrow> (nat \<Rightarrow> nat) \<Rightarrow> nat \<Rightarrow> nat list" where
  "collect_path 0 nx p = []"
| "collect_path (Suc n) nx p = p # collect_path n nx (nx p)"

lemma free_path_collect: "free_path nx p ps \<Longrightarrow> collect_path (length ps) nx p = ps"
  by (induction ps arbitrary: p) auto

lemma free_path_upd: "a \<notin> set ps \<Longrightarrow> free_path (nx(a := v)) p ps = free_path nx p ps"
  by (induction ps arbitrary: p) auto

lemma free_path_cong: "(\<And>a. a \<in> set ps \<Longrightarrow> nx a = nx' a) \<Longrightarrow> free_path nx p ps = free_path nx' p ps"
  by (induction ps arbitrary: p) auto

fun slot_value :: "list_slot \<Rightarrow> nat \<times> (nat \<Rightarrow> nat) \<Rightarrow> nat" where
  "slot_value Head_Slot (h, nx) = h"
| "slot_value (Next_Slot a) (h, nx) = nx a"

definition page_row :: "nat \<Rightarrow> nat \<Rightarrow> nat \<Rightarrow> nat list" where
  "page_row pages sz n = map (\<lambda>i. pages + sz * i) [0..<n]"

lemma page_row_Suc: "page_row pages sz (Suc n) = pages # page_row (pages + sz) sz n"
  by (simp add: page_row_def upt_rec [of 0] map_Suc_upt [symmetric] algebra_simps del: map_Suc_upt upt_Suc)

lemma page_row_Nil [simp]: "page_row pages sz 0 = []"
  by (simp add: page_row_def)

lemma page_row_above: "a \<in> set (page_row pages sz n) \<Longrightarrow> pages \<le> a"
  by (auto simp: page_row_def)

lemma build_loop_spec:
  assumes "build_loop n pages sz slot (h, nx) = (h', nx')" and "pages \<noteq> 0" and "0 < sz"
    and "\<And>a. slot = Next_Slot a \<Longrightarrow> a < pages"
  shows "free_path nx' (slot_value slot (h', nx')) (page_row pages sz n) \<and>
    (\<forall>a. a \<notin> set (page_row pages sz n) \<longrightarrow> slot \<noteq> Next_Slot a \<longrightarrow> nx' a = nx a) \<and>
    (slot \<noteq> Head_Slot \<longrightarrow> h' = h)"
  using assms
proof (induction n arbitrary: pages slot h nx)
  case 0
  then show ?case by (cases slot) auto
next
  case (Suc n)
  obtain h1 nx1 where f: "fill_slot slot pages (h, nx) = (h1, nx1)" by fastforce
  have "build_loop n (pages + sz) sz (Next_Slot pages) (h1, nx1) = (h', nx')"
    using Suc.prems(1) f by simp
  from Suc.IH [OF this] Suc.prems have
    rest: "free_path nx' (nx' pages) (page_row (pages + sz) sz n)" and
    frame: "\<And>a. a \<notin> set (page_row (pages + sz) sz n) \<Longrightarrow> a \<noteq> pages \<Longrightarrow> nx' a = nx1 a" and
    head: "h' = h1" by auto
  have "slot_value slot (h', nx') = pages"
  proof (cases slot)
    case Head_Slot
    then show ?thesis using head f by simp
  next
    case (Next_Slot a)
    then have "a < pages" using Suc.prems(4) by simp
    moreover have "a \<notin> set (page_row (pages + sz) sz n)"
      using page_row_above [of a "pages + sz"] \<open>a < pages\<close> by fastforce
    ultimately show ?thesis using frame f Next_Slot by auto
  qed
  moreover have "nx' a = nx a" if "a \<notin> set (page_row pages sz (Suc n))" "slot \<noteq> Next_Slot a" for a
    using that frame [of a] f by (cases slot) (auto simp: page_row_Suc)
  moreover have "slot \<noteq> Head_Slot \<Longrightarrow> h' = h" using head f by (cases slot) auto
  ultimately show ?case using rest Suc.prems(2) by (simp add: page_row_Suc)
qed

section \<open>The free lists of a pool\<close>

text \<open>
  \<open>F\<close> gives the free pages of each class in the order of its list: the abstract state of a
  pool of lists.
\<close>

definition class_view :: "kndMemPool \<Rightarrow> knd_mempage \<Rightarrow> nat list \<Rightarrow> bool" where
  "class_view self t ps \<longleftrightarrow>
     (let c = page_class t self in
      class_ok c \<and> free_path (mp_next self) (pc_page_list c) ps \<and> distinct ps \<and>
      set ps \<subseteq> set (class_pages c) \<and> unat (pc_pages_used c) + length ps = unat (pc_num_pages c))"

definition separate :: "kndMemPool \<Rightarrow> bool" where
  "separate self \<longleftrightarrow> (\<forall>t u. canon t \<noteq> canon u \<longrightarrow>
     set (class_pages (page_class t self)) \<inter> set (class_pages (page_class u self)) = {})"

definition pool_view :: "kndMemPool \<Rightarrow> (knd_mempage \<Rightarrow> nat list) \<Rightarrow> bool" where
  "pool_view self F \<longleftrightarrow> (\<forall>t. class_view self t (F (canon t))) \<and> separate self"

lemma same_class: "canon u = canon t \<Longrightarrow> page_class u self = page_class t self"
  by (metis page_class_canon)

lemma class_pages_simps [simp]:
  "class_pages (c\<lparr>pc_page_list := p\<rparr>) = class_pages c"
  "class_pages (c\<lparr>pc_pages_used := n\<rparr>) = class_pages c"
  "class_pages (c\<lparr>pc_shared_list := p\<rparr>) = class_pages c"
  "class_pages (c\<lparr>pc_shared_used := n\<rparr>) = class_pages c"
  by (simp_all add: class_pages_def)

lemma unat_plus_1: "unat (a :: size_t) < unat (b :: size_t) \<Longrightarrow> unat (a + 1) = unat a + 1"
  using unat_size_t_less [of b] by (simp add: unat_word_ariths)

lemma unat_minus_1: "0 < unat (a :: size_t) \<Longrightarrow> unat (a - 1) = unat a - 1"
  using unat_sub [of 1 a] by (simp add: word_le_nat_alt)

lemma get_page_refines:
  assumes "pool_view self F"
  shows "case F (canon t) of
      [] \<Rightarrow> get_page self t = Inl (Err knd_NOMEM)
    | p # ps \<Rightarrow> \<exists>self'. get_page self t = Inr (p, self') \<and> pool_view self' (F(canon t := ps)) \<and>
        mp_type self' = mp_type self"
proof (cases "F (canon t)")
  case Nil
  then have "pc_page_list (page_class t self) = 0"
    using assms by (auto simp: pool_view_def class_view_def Let_def dest: spec [of _ t])
  then show ?thesis using Nil by (simp add: get_page_def)
next
  case (Cons p ps)
  define c where "c = page_class t self"
  have view: "class_view self t (p # ps)" using assms Cons by (auto simp: pool_view_def dest: spec [of _ t])
  then have l: "pc_page_list c = p" "p \<noteq> 0" "free_path (mp_next self) (mp_next self p) ps" "distinct (p # ps)"
    "set (p # ps) \<subseteq> set (class_pages c)" "class_ok c" "unat (pc_pages_used c) + length (p # ps) = unat (pc_num_pages c)"
    by (auto simp: class_view_def c_def Let_def)
  define c' where "c' = c\<lparr>pc_page_list := mp_next self p, pc_pages_used := pc_pages_used c + 1\<rparr>"
  define self' where "self' = set_page_class t c' self"
  have used: "unat (pc_pages_used c + 1) = unat (pc_pages_used c) + 1"
    using l(7) by (intro unat_plus_1 [of _ "pc_num_pages c"]) simp
  have get: "get_page self t = Inr (p, self')"
    using l by (simp add: get_page_def Let_def flip: c_def) (simp add: self'_def c'_def)
  have "class_view self' u ((F(canon t := ps)) (canon u))" for u
  proof (cases "canon u = canon t")
    case True
    then have "page_class u self' = c'" by (simp add: self'_def page_class_set_if)
    then show ?thesis using True l used
      by (auto simp: class_view_def Let_def c'_def self'_def class_ok_def)
  next
    case False
    then have "page_class u self' = page_class u self" by (simp add: self'_def page_class_set_if)
    then show ?thesis using False assms
      by (auto simp: class_view_def Let_def self'_def pool_view_def)
  qed
  moreover have "separate self'"
  proof -
    have "class_pages (page_class u self') = class_pages (page_class u self)" for u
      by (cases "canon u = canon t") (auto simp: self'_def page_class_set_if c'_def c_def
          dest: arg_cong [where f = "\<lambda>x. page_class x self"])
    then show ?thesis using assms by (simp add: pool_view_def separate_def)
  qed
  ultimately show ?thesis using Cons get by (auto simp: pool_view_def self'_def)
qed

lemma free_refines:
  assumes "pool_view self F" and "p \<in> set (class_pages (page_class t self))" and "p \<notin> set (F (canon t))"
  shows "\<exists>self'. knd_mempool_free self t p = Inr self' \<and> pool_view self' (F(canon t := p # F (canon t))) \<and>
    mp_type self' = mp_type self"
proof -
  define c where "c = page_class t self"
  have view: "class_view self t (F (canon t))" using assms by (auto simp: pool_view_def)
  then have l: "free_path (mp_next self) (pc_page_list c) (F (canon t))" "distinct (F (canon t))"
    "set (F (canon t)) \<subseteq> set (class_pages c)" "class_ok c"
    "unat (pc_pages_used c) + length (F (canon t)) = unat (pc_num_pages c)"
    by (auto simp: class_view_def c_def Let_def)
  have p: "p \<noteq> 0" "p \<in> set (class_pages c)" using assms(2) class_pages_nonzero l(4) by (auto simp: c_def)
  have "length (p # F (canon t)) \<le> length (class_pages c)"
    using l(2,3) p assms(3) distinct_class_pages [OF l(4)]
    by (metis card_mono distinct.simps(2) distinct_card finite_set insert_subset list.simps(15))
  then have used: "unat (pc_pages_used c - 1) = unat (pc_pages_used c) - 1" "0 < unat (pc_pages_used c)"
    using l(5) unat_minus_1 [of "pc_pages_used c"] by auto
  define nx where "nx = (mp_next self)(p := pc_page_list c)"
  define c' where "c' = c\<lparr>pc_page_list := p, pc_pages_used := pc_pages_used c - 1\<rparr>"
  define self' where "self' = set_page_class t c' (self\<lparr>mp_next := nx\<rparr>)"
  have free: "knd_mempool_free self t p = Inr self'"
    using p by (simp add: knd_mempool_free_def Let_def self'_def c'_def nx_def c_def)
  have "class_view self' u ((F(canon t := p # F (canon t))) (canon u))" for u
  proof (cases "canon u = canon t")
    case True
    then have "page_class u self' = c'" by (simp add: self'_def page_class_set_if)
    moreover have "free_path nx p (p # F (canon t))"
      using p l(1) assms(3) by (simp add: nx_def free_path_upd)
    ultimately show ?thesis using True l used p assms(3)
      by (auto simp: class_view_def Let_def c'_def self'_def class_ok_def)
  next
    case False
    then have same: "page_class u self' = page_class u self" by (simp add: self'_def page_class_set_if)
    have v: "class_view self u (F (canon u))" using assms(1) by (simp add: pool_view_def)
    have "set (F (canon u)) \<subseteq> set (class_pages (page_class u self))"
      using v by (simp add: class_view_def Let_def)
    moreover have "set (class_pages (page_class t self)) \<inter> set (class_pages (page_class u self)) = {}"
      using False assms(1) by (simp add: pool_view_def separate_def)
    ultimately have "p \<notin> set (F (canon u))" using assms(2) by blast
    then show ?thesis using False v same
      by (auto simp: class_view_def Let_def self'_def nx_def free_path_upd)
  qed
  moreover have "separate self'"
  proof -
    have "class_pages (page_class u self') = class_pages (page_class u self)" for u
      by (cases "canon u = canon t") (auto simp: self'_def page_class_set_if c'_def c_def
          dest: arg_cong [where f = "\<lambda>x. page_class x self"])
    then show ?thesis using assms by (simp add: pool_view_def separate_def)
  qed
  ultimately show ?thesis using free by (auto simp: pool_view_def self'_def)
qed


section \<open>Allocation of the blocks\<close>

definition calloc_ok :: "(knd_mempage \<Rightarrow> size_t \<Rightarrow> size_t \<Rightarrow> nat option) \<Rightarrow> bool" where
  "calloc_ok calloc \<longleftrightarrow>
     (\<forall>t n s p. calloc t n s = Some p \<longrightarrow> p \<noteq> 0 \<and> unat s * unat n < 2 ^ 64) \<and>
     (\<forall>t u n s n' s' p q. canon t \<noteq> canon u \<and> calloc t n s = Some p \<and> calloc u n' s' = Some q \<longrightarrow>
        p + unat s * unat n \<le> q \<or> q + unat s' * unat n' \<le> p)"

lemma class_pages_row: "class_pages c = page_row (pc_pages c) (unat (pc_page_size c)) (unat (pc_num_pages c))"
  by (simp add: class_pages_def page_row_def)

lemma page_row_below:
  assumes "a \<in> set (page_row p s n)" and "0 < s"
  shows "p \<le> a \<and> a < p + s * n"
  using assms by (auto simp: page_row_def)

lemma page_rows_disjoint:
  assumes "p + s * n \<le> q" and "0 < s" and "0 < s'"
  shows "set (page_row p s n) \<inter> set (page_row q s' n') = {}"
proof -
  have "False" if "a \<in> set (page_row p s n)" "a \<in> set (page_row q s' n')" for a
    using page_row_below [OF that(1) assms(2)] page_row_above [OF that(2)] assms(1) by linarith
  then show ?thesis by blast
qed

text \<open>Building the list of one class makes all its pages free and leaves the others alone.\<close>

lemma build_list_effect:
  assumes "class_ok (page_class t self)"
  shows "free_path (mp_next (build_linked_list t self)) (pc_page_list (page_class t (build_linked_list t self)))
      (class_pages (page_class t self))"
    and "\<exists>h. page_class u (build_linked_list t self) =
      (if canon u = canon t then (page_class t self)\<lparr>pc_page_list := h\<rparr> else page_class u self)"
    and "\<And>a. a \<notin> set (class_pages (page_class t self)) \<Longrightarrow> mp_next (build_linked_list t self) a = mp_next self a"
    and "mp_type (build_linked_list t self) = mp_type self"
proof -
  define c where "c = page_class t self"
  obtain h nx where b: "build_loop (unat (pc_num_pages c)) (pc_pages c) (unat (pc_page_size c)) Head_Slot
      (pc_page_list c, mp_next self) = (h, nx)" by fastforce
  have self': "build_linked_list t self = set_page_class t (c\<lparr>pc_page_list := h\<rparr>) (self\<lparr>mp_next := nx\<rparr>)"
    using b by (simp add: build_linked_list_def c_def Let_def)
  have ok: "pc_pages c \<noteq> 0" "0 < unat (pc_page_size c)" using assms by (auto simp: class_ok_def c_def)
  note spec = build_loop_spec [OF b ok]
  show "free_path (mp_next (build_linked_list t self)) (pc_page_list (page_class t (build_linked_list t self)))
      (class_pages (page_class t self))"
    using spec by (simp add: self' class_pages_row flip: c_def)
  show "\<exists>h. page_class u (build_linked_list t self) =
      (if canon u = canon t then (page_class t self)\<lparr>pc_page_list := h\<rparr> else page_class u self)"
    by (auto simp: self' page_class_set_if c_def)
  show "mp_next (build_linked_list t self) a = mp_next self a" if "a \<notin> set (class_pages (page_class t self))" for a
    using spec that by (simp add: self' class_pages_row flip: c_def)
  show "mp_type (build_linked_list t self) = mp_type self" by (simp add: self')
qed

definition all_free :: "kndMemPool \<Rightarrow> knd_mempage \<Rightarrow> nat list" where
  "all_free self t = class_pages (page_class t self)"

definition fresh_classes :: "kndMemPool \<Rightarrow> bool" where
  "fresh_classes self \<longleftrightarrow> separate self \<and>
     (\<forall>t. class_ok (page_class t self) \<and> pc_pages_used (page_class t self) = 0)"

definition built :: "kndMemPool \<Rightarrow> knd_mempage \<Rightarrow> bool" where
  "built self t \<longleftrightarrow> free_path (mp_next self) (pc_page_list (page_class t self)) (class_pages (page_class t self))"

lemma build_list_keeps:
  assumes "fresh_classes self"
  shows "fresh_classes (build_linked_list t self)" and "built (build_linked_list t self) t"
    and "\<And>u. built self u \<Longrightarrow> built (build_linked_list t self) u"
    and "all_free (build_linked_list t self) = all_free self"
    and "mp_type (build_linked_list t self) = mp_type self"
proof -
  have ok: "class_ok (page_class t self)" using assms by (simp add: fresh_classes_def)
  note e = build_list_effect [OF ok]
  have pages: "class_pages (page_class u (build_linked_list t self)) = class_pages (page_class u self)" for u
    using e(2) [of u] same_class [of u t self] by auto
  have other: "page_class u (build_linked_list t self) = page_class u self" if "canon u \<noteq> canon t" for u
    using e(2) [of u] that by auto
  have "class_ok (page_class u (build_linked_list t self)) \<and> pc_pages_used (page_class u (build_linked_list t self)) = 0" for u
    using e(2) [of u] assms by (auto simp: fresh_classes_def class_ok_def)
  then show "fresh_classes (build_linked_list t self)"
    using assms pages by (simp add: fresh_classes_def separate_def)
  show b: "built (build_linked_list t self) t" using e(1) by (simp add: built_def pages)
  show "built (build_linked_list t self) u" if u: "built self u" for u
  proof (cases "canon u = canon t")
    case True
    then have "page_class u p = page_class t p" for p by (metis page_class_canon)
    then show ?thesis using b by (simp add: built_def)
  next
    case False
    then have "set (class_pages (page_class u self)) \<inter> set (class_pages (page_class t self)) = {}"
      using assms by (simp add: fresh_classes_def separate_def)
    then have "mp_next (build_linked_list t self) a = mp_next self a" if "a \<in> set (class_pages (page_class u self))" for a
      using that by (intro e(3)) blast
    then have "free_path (mp_next (build_linked_list t self)) p (class_pages (page_class u self)) =
        free_path (mp_next self) p (class_pages (page_class u self))" for p
      by (rule free_path_cong)
    then show ?thesis using u other [OF False] by (simp add: built_def)
  qed
  show "all_free (build_linked_list t self) = all_free self" by (rule ext) (simp add: all_free_def pages)
  show "mp_type (build_linked_list t self) = mp_type self" by (rule e(4))
qed

lemma built_view:
  assumes "fresh_classes self" and "\<And>t. built self t"
  shows "pool_view self (all_free self)"
  using assms distinct_class_pages
  by (auto simp: pool_view_def fresh_classes_def built_def class_view_def Let_def all_free_def)

definition build_lists :: "kndMemPool \<Rightarrow> kndMemPool" where
  "build_lists self = build_linked_list KND_MEMPAGE_TINY (build_linked_list KND_MEMPAGE_SMALL
     (build_linked_list KND_MEMPAGE_SMALL_X2 (build_linked_list KND_MEMPAGE_SMALL_X4
       (build_linked_list KND_MEMPAGE_BASE self))))"

lemma build_lists_view:
  assumes "fresh_classes self"
  shows "pool_view (build_lists self) (all_free self)" and "all_free (build_lists self) = all_free self"
    and "mp_type (build_lists self) = mp_type self" and "fresh_classes (build_lists self)"
proof -
  define p1 where "p1 = build_linked_list KND_MEMPAGE_BASE self"
  define p2 where "p2 = build_linked_list KND_MEMPAGE_SMALL_X4 p1"
  define p3 where "p3 = build_linked_list KND_MEMPAGE_SMALL_X2 p2"
  define p4 where "p4 = build_linked_list KND_MEMPAGE_SMALL p3"
  define p5 where "p5 = build_linked_list KND_MEMPAGE_TINY p4"
  note k1 = build_list_keeps [OF assms, where t = KND_MEMPAGE_BASE, folded p1_def]
  note k2 = build_list_keeps [OF k1(1), where t = KND_MEMPAGE_SMALL_X4, folded p2_def]
  note k3 = build_list_keeps [OF k2(1), where t = KND_MEMPAGE_SMALL_X2, folded p3_def]
  note k4 = build_list_keeps [OF k3(1), where t = KND_MEMPAGE_SMALL, folded p4_def]
  note k5 = build_list_keeps [OF k4(1), where t = KND_MEMPAGE_TINY, folded p5_def]
  have p5: "build_lists self = p5" by (simp add: build_lists_def p1_def p2_def p3_def p4_def p5_def)
  have b: "built p5 KND_MEMPAGE_BASE" "built p5 KND_MEMPAGE_SMALL_X4" "built p5 KND_MEMPAGE_SMALL_X2"
    "built p5 KND_MEMPAGE_SMALL" "built p5 KND_MEMPAGE_TINY"
    using k1(2,3) k2(2,3) k3(2,3) k4(2,3) k5(2,3) by blast+
  have "built p5 t" for t
  proof -
    have "built p5 (canon t)" using b by (cases t) simp_all
    then show ?thesis by (simp add: built_def)
  qed
  then have "pool_view p5 (all_free p5)" by (rule built_view [OF k5(1)])
  moreover have "all_free p5 = all_free self" using k1 k2 k3 k4 k5 by simp
  ultimately show "pool_view (build_lists self) (all_free self)" "all_free (build_lists self) = all_free self"
    using p5 by simp_all
  show "mp_type (build_lists self) = mp_type self" "fresh_classes (build_lists self)"
    using k1 k2 k3 k4 k5 p5 by simp_all
qed

definition has_block :: "(knd_mempage \<Rightarrow> size_t \<Rightarrow> size_t \<Rightarrow> nat option) \<Rightarrow> kndMemPool \<Rightarrow> knd_mempage \<Rightarrow> bool" where
  "has_block calloc self t \<longleftrightarrow>
     (let c = page_class t self in
      calloc (canon t) (pc_num_pages c) (pc_page_size c) = Some (pc_pages c) \<and> 8 < unat (pc_page_size c))"

lemma alloc_page_buf_effect:
  assumes "alloc_page_buf calloc t dn ds self = (None, self')" and "canon t = t"
  shows "has_block calloc self' t" and "\<And>u. has_block calloc self u \<Longrightarrow> has_block calloc self' u"
    and "(\<forall>u. pc_pages_used (page_class u self) = 0) \<Longrightarrow> \<forall>u. pc_pages_used (page_class u self') = 0"
    and "mp_type self' = mp_type self"
    and "\<And>u k. pc_num_pages (page_class u self) = k \<Longrightarrow> k \<noteq> 0 \<Longrightarrow> pc_num_pages (page_class u self') = k"
proof -
  have n_eq: "pc_num_pages (page_class t self) \<noteq> 0 \<Longrightarrow>
      pc_num_pages (page_class t self') = pc_num_pages (page_class t self)"
    using assms(1) by (auto simp: alloc_page_buf_def Let_def split: if_splits option.splits)
  obtain n s p m where c: "calloc t n s = Some p" "8 < unat s"
    and self': "self' = set_page_class t ((page_class t self)\<lparr>pc_pages := p, pc_page_size := s, pc_num_pages := n\<rparr>)
      (self\<lparr>mp_capacity := m\<rparr>)"
    using assms(1) by (auto simp: alloc_page_buf_def Let_def word_le_nat_alt not_le split: if_splits option.splits)
  show b: "has_block calloc self' t" using c assms(2) by (simp add: has_block_def self' Let_def)
  show "has_block calloc self' u" if "has_block calloc self u" for u
  proof (cases "canon u = canon t")
    case True
    then show ?thesis using b same_class [OF True] by (simp add: has_block_def)
  next
    case False
    then show ?thesis using that by (simp add: has_block_def self' page_class_set_if)
  qed
  show "(\<forall>u. pc_pages_used (page_class u self) = 0) \<Longrightarrow> \<forall>u. pc_pages_used (page_class u self') = 0"
    by (simp add: self' page_class_set_if)
  show "mp_type self' = mp_type self" by (simp add: self')
  show "pc_num_pages (page_class u self') = k" if "pc_num_pages (page_class u self) = k" "k \<noteq> 0" for u k
  proof (cases "canon u = canon t")
    case True
    then show ?thesis using n_eq that same_class [OF True, of self] same_class [OF True, of self'] by simp
  next
    case False
    then show ?thesis using that by (simp add: self' page_class_set_if)
  qed
qed

lemma blocks_fresh:
  assumes "calloc_ok calloc" and "\<And>t. has_block calloc self t" and "\<And>t. pc_pages_used (page_class t self) = 0"
  shows "fresh_classes self"
proof -
  have "class_ok (page_class t self)" for t
    using assms(1,3) assms(2) [of t] by (auto simp: has_block_def Let_def class_ok_def calloc_ok_def)
  moreover have "set (class_pages (page_class t self)) \<inter> set (class_pages (page_class u self)) = {}"
    if "canon t \<noteq> canon u" for t u
  proof -
    let ?c = "page_class t self" and ?d = "page_class u self"
    have bt: "calloc (canon t) (pc_num_pages ?c) (pc_page_size ?c) = Some (pc_pages ?c)" "8 < unat (pc_page_size ?c)"
      and bu: "calloc (canon u) (pc_num_pages ?d) (pc_page_size ?d) = Some (pc_pages ?d)" "8 < unat (pc_page_size ?d)"
      using assms(2) by (simp_all add: has_block_def Let_def)
    have "pc_pages ?c + unat (pc_page_size ?c) * unat (pc_num_pages ?c) \<le> pc_pages ?d \<or>
        pc_pages ?d + unat (pc_page_size ?d) * unat (pc_num_pages ?d) \<le> pc_pages ?c"
      using assms(1) bt(1) bu(1) that unfolding calloc_ok_def by (metis canon_canon)
    then show ?thesis
      using page_rows_disjoint [of "pc_pages ?c" "unat (pc_page_size ?c)" "unat (pc_num_pages ?c)" "pc_pages ?d"
          "unat (pc_page_size ?d)" "unat (pc_num_pages ?d)"]
        page_rows_disjoint [of "pc_pages ?d" "unat (pc_page_size ?d)" "unat (pc_num_pages ?d)" "pc_pages ?c"
          "unat (pc_page_size ?c)" "unat (pc_num_pages ?c)"] bt(2) bu(2)
      by (auto simp: class_pages_row)
  qed
  ultimately show ?thesis using assms(3) by (simp add: fresh_classes_def separate_def)
qed

definition share_lists :: "kndMemPool \<Rightarrow> kndMemPool" where
  "share_lists self = self
     \<lparr>mp_base := share_list (mp_base self), mp_tiny := share_list (mp_tiny self),
      mp_small := share_list (mp_small self), mp_small_x2 := share_list (mp_small_x2 self),
      mp_small_x4 := share_list (mp_small_x4 self)\<rparr>"

lemma alloc_capacity_blocks:
  assumes "alloc_capacity calloc self = (None, self')" and "calloc_ok calloc"
    and "\<And>t. pc_pages_used (page_class t self) = 0"
  obtains p where "fresh_classes p" and "mp_type p = mp_type self"
    and "self' = (case mp_type self of KND_ALLOC_INCR \<Rightarrow> p | KND_ALLOC_LIST \<Rightarrow> build_lists p
      | KND_ALLOC_SHARED \<Rightarrow> share_lists (build_lists p))"
    and "\<And>u k. pc_num_pages (page_class u self) = k \<Longrightarrow> k \<noteq> 0 \<Longrightarrow> pc_num_pages (page_class u p) = k"
proof -
  obtain p1 p2 p3 p4 p5 where
    p1: "alloc_page_buf calloc KND_MEMPAGE_BASE 10000 1024 self = (None, p1)" and
    p2: "alloc_page_buf calloc KND_MEMPAGE_SMALL_X4 10000 512 p1 = (None, p2)" and
    p3: "alloc_page_buf calloc KND_MEMPAGE_SMALL_X2 10000 256 p2 = (None, p3)" and
    p4: "alloc_page_buf calloc KND_MEMPAGE_SMALL 10000 128 p3 = (None, p4)" and
    p5: "alloc_page_buf calloc KND_MEMPAGE_TINY 10000 64 p4 = (None, p5)" and
    fin: "self' = (let self = (if mp_type p5 = KND_ALLOC_SHARED \<or> mp_type p5 = KND_ALLOC_LIST
        then build_lists p5 else p5) in
        if mp_type self = KND_ALLOC_SHARED then share_lists self else self)"
    using assms(1) unfolding alloc_capacity_def then_step_None
    by (auto simp: Let_def share_lists_def build_lists_def)
  note e1 = alloc_page_buf_effect [OF p1, simplified]
  note e2 = alloc_page_buf_effect [OF p2, simplified]
  note e3 = alloc_page_buf_effect [OF p3, simplified]
  note e4 = alloc_page_buf_effect [OF p4, simplified]
  note e5 = alloc_page_buf_effect [OF p5, simplified]
  have b: "has_block calloc p5 KND_MEMPAGE_BASE" "has_block calloc p5 KND_MEMPAGE_SMALL_X4"
    "has_block calloc p5 KND_MEMPAGE_SMALL_X2" "has_block calloc p5 KND_MEMPAGE_SMALL"
    "has_block calloc p5 KND_MEMPAGE_TINY"
    using e1(1) e2(1,2) e3(1,2) e4(1,2) e5(1,2) by blast+
  have "has_block calloc p5 t" for t
  proof -
    have "has_block calloc p5 (canon t)" using b by (cases t) simp_all
    then show ?thesis by (simp add: has_block_def)
  qed
  moreover have "\<forall>t. pc_pages_used (page_class t p5) = 0"
    using assms(3) e1(3) e2(3) e3(3) e4(3) e5(3) by blast
  ultimately have fresh: "fresh_classes p5" using blocks_fresh [OF assms(2)] by blast
  have ty: "mp_type p5 = mp_type self" using e1(4) e2(4) e3(4) e4(4) e5(4) by simp
  have num: "pc_num_pages (page_class u p5) = k" if "pc_num_pages (page_class u self) = k" "k \<noteq> 0" for u k
    using e1(5) e2(5) e3(5) e4(5) e5(5) that by blast
  show ?thesis
    by (rule that [OF fresh ty _ num]) (use fin ty build_lists_view(3) [OF fresh] in \<open>auto simp: Let_def split: knd_mempool_type.splits\<close>)
qed

text \<open>A pool of lists whose blocks were allocated starts with every page of every class on the free
  list of its class, in address order, and no page belongs to two classes.\<close>
theorem alloc_capacity_lists:
  assumes "alloc_capacity calloc self = (None, self')" and "calloc_ok calloc"
    and "\<forall>t. pc_pages_used (page_class t self) = 0" and "mp_type self = KND_ALLOC_LIST"
  shows "pool_view self' (all_free self') \<and> mp_type self' = KND_ALLOC_LIST"
proof -
  from assms(3) have "\<And>t. pc_pages_used (page_class t self) = 0" by blast
  from alloc_capacity_blocks [OF assms(1,2) this] obtain p where
    p: "fresh_classes p" "mp_type p = mp_type self" "self' = build_lists p"
    using assms(4) by auto
  show ?thesis using build_lists_view [OF p(1)] p assms(4) by simp
qed

definition sample_calloc :: "knd_mempage \<Rightarrow> size_t \<Rightarrow> size_t \<Rightarrow> nat option" where
  "sample_calloc t n s =
     (if unat s * unat n < 2 ^ 64 then
        Some (case canon t of KND_MEMPAGE_BASE \<Rightarrow> 2 ^ 64 | KND_MEMPAGE_SMALL_X4 \<Rightarrow> 2 * 2 ^ 64
          | KND_MEMPAGE_SMALL_X2 \<Rightarrow> 3 * 2 ^ 64 | KND_MEMPAGE_SMALL \<Rightarrow> 4 * 2 ^ 64 | _ \<Rightarrow> 5 * 2 ^ 64)
      else None)"

lemma sample_calloc_ok: "calloc_ok sample_calloc"
proof -
  have "p + unat s * unat n \<le> q \<or> q + unat s' * unat n' \<le> p"
    if "canon t \<noteq> canon u" "sample_calloc t n s = Some p" "sample_calloc u n' s' = Some q" for t u n s n' s' p q
    using that by (cases t; cases u; simp add: sample_calloc_def split: if_splits)
  moreover have "p \<noteq> 0 \<and> unat s * unat n < 2 ^ 64" if "sample_calloc t n s = Some p" for t n s p
    using that by (cases t; simp add: sample_calloc_def split: if_splits)
  ultimately show ?thesis unfolding calloc_ok_def by blast
qed

text \<open>A pool configured for two pages of each class.\<close>

definition sample_class :: page_pool where
  "sample_class = empty_class\<lparr>pc_num_pages := 2\<rparr>"

definition sample_conf :: "knd_mempool_type \<Rightarrow> kndMemPool" where
  "sample_conf type = (knd_mempool_new type 0 (\<lambda>_. 0))
     \<lparr>mp_base := sample_class, mp_small_x4 := sample_class, mp_small_x2 := sample_class,
      mp_small := sample_class, mp_tiny := sample_class\<rparr>"

lemma sample_conf_unused: "\<forall>t. pc_pages_used (page_class t (sample_conf type)) = 0"
proof
  fix t show "pc_pages_used (page_class t (sample_conf type)) = 0"
    by (cases t) (simp_all add: sample_conf_def sample_class_def empty_class_def)
qed

lemma alloc_page_buf_sample:
  assumes "pc_page_size (page_class t self) = 0" and "pc_num_pages (page_class t self) = 2"
    and "8 < unat ds" and "unat ds < 2 ^ 60"
  shows "\<exists>self'. alloc_page_buf sample_calloc t dn ds self = (None, self')"
proof -
  have "ds \<noteq> 0" using assms(3) by auto
  then show ?thesis using assms
    by (auto simp: alloc_page_buf_def Let_def word_le_nat_alt sample_calloc_def)
qed

definition sample_pool :: "knd_mempool_type \<Rightarrow> kndMemPool" where
  "sample_pool type = snd (alloc_capacity sample_calloc (sample_conf type))"

lemma sample_alloc: "alloc_capacity sample_calloc (sample_conf type) = (None, sample_pool type)"
proof -
  have "fst (alloc_capacity sample_calloc (sample_conf type)) = None"
    by (simp add: alloc_capacity_def alloc_page_buf_def sample_conf_def sample_class_def empty_class_def
        sample_calloc_def knd_mempool_new_def Let_def word_le_nat_alt del: unat_eq_zero)
  then show ?thesis by (cases "alloc_capacity sample_calloc (sample_conf type)") (simp add: sample_pool_def)
qed

lemma sample_conf_type: "mp_type (sample_conf type) = type"
  by (simp add: sample_conf_def knd_mempool_new_def)

theorem alloc_capacity_lists_witness:
  "pool_view (sample_pool KND_ALLOC_LIST) (all_free (sample_pool KND_ALLOC_LIST)) \<and>
   mp_type (sample_pool KND_ALLOC_LIST) = KND_ALLOC_LIST"
  by (rule alloc_capacity_lists [OF sample_alloc sample_calloc_ok sample_conf_unused sample_conf_type])

lemma sample_pool_cases:
  obtains p where "fresh_classes p" and "mp_type p = type"
    and "sample_pool type = (case type of KND_ALLOC_INCR \<Rightarrow> p | KND_ALLOC_LIST \<Rightarrow> build_lists p
      | KND_ALLOC_SHARED \<Rightarrow> share_lists (build_lists p))"
    and "\<And>u. pc_num_pages (page_class u p) = 2"
proof -
  have "pc_num_pages (page_class u (sample_conf type)) = 2" for u
    by (cases u) (simp_all add: sample_conf_def sample_class_def empty_class_def)
  moreover have "\<And>t. pc_pages_used (page_class t (sample_conf type)) = 0" using sample_conf_unused by blast
  from alloc_capacity_blocks [OF sample_alloc sample_calloc_ok this] obtain p where
    p: "fresh_classes p" "mp_type p = mp_type (sample_conf type)"
    "sample_pool type = (case mp_type (sample_conf type) of KND_ALLOC_INCR \<Rightarrow> p
      | KND_ALLOC_LIST \<Rightarrow> build_lists p | KND_ALLOC_SHARED \<Rightarrow> share_lists (build_lists p))"
    "\<And>u k. pc_num_pages (page_class u (sample_conf type)) = k \<Longrightarrow> k \<noteq> 0 \<Longrightarrow> pc_num_pages (page_class u p) = k"
    by blast
  ultimately show ?thesis using that [of p] p(1-3) p(4) [of _ 2] by (simp add: sample_conf_type)
qed

lemma sample_pool_view: "pool_view (sample_pool KND_ALLOC_LIST) (all_free (sample_pool KND_ALLOC_LIST))"
  and sample_pool_type: "mp_type (sample_pool KND_ALLOC_LIST) = KND_ALLOC_LIST"
  by (rule sample_pool_cases [of KND_ALLOC_LIST], simp add: build_lists_view)+

section \<open>Runs of a pool of lists\<close>

text \<open>
  A run takes and frees pages in any order; a page is freed only by a holder, under a type
  of its class, and whoever holds a page may store anything in it, the header included.
\<close>

inductive pool_run :: "kndMemPool \<Rightarrow> kndMemPool \<Rightarrow> (knd_mempage \<times> nat) set \<Rightarrow> bool" for s0 where
  run_start: "pool_run s0 s0 {}"
| run_take: "pool_run s0 s A \<Longrightarrow> knd_mempool_page s t = Inr (p, s') \<Longrightarrow> pool_run s0 s' (insert (canon t, p) A)"
| run_free: "pool_run s0 s A \<Longrightarrow> (canon t, p) \<in> A \<Longrightarrow> knd_mempool_free s t p = Inr s' \<Longrightarrow>
    pool_run s0 s' (A - {(canon t, p)})"
| run_store: "pool_run s0 s A \<Longrightarrow> (u, p) \<in> A \<Longrightarrow> pool_run s0 (s\<lparr>mp_next := (mp_next s)(p := v)\<rparr>) A"

definition run_inv :: "kndMemPool \<Rightarrow> (knd_mempage \<times> nat) set \<Rightarrow> (knd_mempage \<Rightarrow> nat list) \<Rightarrow> bool" where
  "run_inv s A F \<longleftrightarrow> pool_view s F \<and> mp_type s = KND_ALLOC_LIST \<and> (\<forall>(u, p)\<in>A. canon u = u) \<and>
     (\<forall>t. {p. (canon t, p) \<in> A} \<inter> set (F (canon t)) = {} \<and>
       {p. (canon t, p) \<in> A} \<union> set (F (canon t)) = set (class_pages (page_class t s)))"

lemma get_page_pages:
  assumes "get_page s t = Inr (p, s')"
  shows "class_pages (page_class u s') = class_pages (page_class u s)"
proof -
  have "class_pages (page_class u s') = (if canon u = canon t then class_pages (page_class t s) else class_pages (page_class u s))"
    using assms by (auto simp: get_page_def Let_def page_class_set_if split: if_splits)
  then show ?thesis by (metis same_class)
qed

lemma free_pages:
  assumes "knd_mempool_free s t p = Inr s'"
  shows "class_pages (page_class u s') = class_pages (page_class u s)"
proof -
  have "class_pages (page_class u s') = (if canon u = canon t then class_pages (page_class t s) else class_pages (page_class u s))"
    using assms by (auto simp: knd_mempool_free_def Let_def page_class_set_if split: if_splits)
  then show ?thesis by (metis same_class)
qed

lemma run_inv_take:
  assumes "run_inv s A F" and "knd_mempool_page s t = Inr (p, s')"
  obtains ps where "F (canon t) = p # ps" and "run_inv s' (insert (canon t, p) A) (F(canon t := ps))"
proof -
  have view: "pool_view s F" and ty: "mp_type s = KND_ALLOC_LIST" using assms(1) by (simp_all add: run_inv_def)
  have get: "get_page s t = Inr (p, s')" using assms(2) ty by (simp add: knd_mempool_page_def)
  obtain ps where F: "F (canon t) = p # ps" and v: "pool_view s' (F(canon t := ps))" "mp_type s' = mp_type s"
    using get_page_refines [OF view, of t] get by (auto split: list.splits)
  have d: "distinct (p # ps)" using view F by (auto simp: pool_view_def class_view_def Let_def dest: spec [of _ t])
  have "run_inv s' (insert (canon t, p) A) (F(canon t := ps))"
    unfolding run_inv_def
  proof (intro conjI allI)
    show "pool_view s' (F(canon t := ps))" by (rule v(1))
    show "mp_type s' = KND_ALLOC_LIST" using v(2) ty by simp
    show "\<forall>(u, p)\<in>insert (canon t, p) A. canon u = u" using assms(1) by (simp add: run_inv_def)
    fix u
    have old: "{q. (canon u, q) \<in> A} \<inter> set (F (canon u)) = {}"
      "{q. (canon u, q) \<in> A} \<union> set (F (canon u)) = set (class_pages (page_class u s))"
      using assms(1) by (simp_all add: run_inv_def)
    show "{q. (canon u, q) \<in> insert (canon t, p) A} \<inter> set ((F(canon t := ps)) (canon u)) = {}"
      using old(1) F d by (cases "canon u = canon t") auto
    show "{q. (canon u, q) \<in> insert (canon t, p) A} \<union> set ((F(canon t := ps)) (canon u)) =
        set (class_pages (page_class u s'))"
      using old(2) F get_page_pages [OF get, of u] by (cases "canon u = canon t") auto
  qed
  with F show ?thesis by (rule that)
qed

lemma run_inv_free:
  assumes "run_inv s A F" and "(canon t, p) \<in> A" and "knd_mempool_free s t p = Inr s'"
  shows "run_inv s' (A - {(canon t, p)}) (F(canon t := p # F (canon t)))"
proof -
  have view: "pool_view s F" and ty: "mp_type s = KND_ALLOC_LIST" using assms(1) by (simp_all add: run_inv_def)
  have p: "p \<in> set (class_pages (page_class t s))" "p \<notin> set (F (canon t))"
    using assms(1,2) unfolding run_inv_def by blast+
  note v = free_refines [OF view p]
  show ?thesis unfolding run_inv_def
  proof (intro conjI allI)
    show "pool_view s' (F(canon t := p # F (canon t)))" "mp_type s' = KND_ALLOC_LIST"
      using v assms(3) ty by auto
    show "\<forall>(u, p)\<in>A - {(canon t, p)}. canon u = u" using assms(1) by (auto simp: run_inv_def)
    fix u
    have old: "{q. (canon u, q) \<in> A} \<inter> set (F (canon u)) = {}"
      "{q. (canon u, q) \<in> A} \<union> set (F (canon u)) = set (class_pages (page_class u s))"
      using assms(1) by (simp_all add: run_inv_def)
    show "{q. (canon u, q) \<in> A - {(canon t, p)}} \<inter> set ((F(canon t := p # F (canon t))) (canon u)) = {}"
      using old(1) by (cases "canon u = canon t") auto
    have "{q. (canon u, q) \<in> A - {(canon t, p)}} \<union> set ((F(canon t := p # F (canon t))) (canon u)) =
        {q. (canon u, q) \<in> A} \<union> set (F (canon u))"
      using assms(2) by (cases "canon u = canon t") auto
    then show "{q. (canon u, q) \<in> A - {(canon t, p)}} \<union> set ((F(canon t := p # F (canon t))) (canon u)) =
        set (class_pages (page_class u s'))"
      using old(2) free_pages [OF assms(3), of u] by simp
  qed
qed

lemma run_inv_store:
  assumes "run_inv s A F" and "(u, p) \<in> A"
  shows "run_inv (s\<lparr>mp_next := (mp_next s)(p := v)\<rparr>) A F"
proof -
  have u: "canon u = u" using assms by (auto simp: run_inv_def)
  have view: "pool_view s F" using assms(1) by (simp add: run_inv_def)
  have "p \<notin> set (F (canon t))" for t
  proof (cases "canon t = canon u")
    case True
    then show ?thesis using assms u unfolding run_inv_def by (metis IntI emptyE mem_Collect_eq)
  next
    case False
    have "p \<in> set (class_pages (page_class u s))" using assms u unfolding run_inv_def by (metis UnI1 mem_Collect_eq)
    moreover have "set (F (canon t)) \<subseteq> set (class_pages (page_class t s))"
      using view by (simp add: pool_view_def class_view_def Let_def)
    moreover have "set (class_pages (page_class t s)) \<inter> set (class_pages (page_class u s)) = {}"
      using view False by (simp add: pool_view_def separate_def)
    ultimately show ?thesis by blast
  qed
  then have "pool_view (s\<lparr>mp_next := (mp_next s)(p := v)\<rparr>) F"
    using view by (simp add: pool_view_def class_view_def Let_def free_path_upd separate_def)
  then show ?thesis using assms(1) by (simp add: run_inv_def)
qed

lemma run_has_inv:
  assumes "pool_run s0 s A" and "pool_view s0 (all_free s0)" and "mp_type s0 = KND_ALLOC_LIST"
  shows "\<exists>F. run_inv s A F"
  using assms
proof (induction rule: pool_run.induct)
  case run_start
  then have "run_inv s0 {} (all_free s0)" unfolding run_inv_def by (simp add: all_free_def [of s0 "canon _"])
  then show ?case by blast
next
  case (run_take s A t p s')
  then show ?case using run_inv_take by metis
next
  case (run_free s A t p s')
  then show ?case using run_inv_free by blast
next
  case (run_store s A u p v)
  then show ?case using run_inv_store by blast
qed

text \<open>C22: in every run of a pool of lists, a page that is handed out belongs to its class and is not
  held by anyone, whatever the holders stored in their pages; and the pool reports
  \<open>knd_NOMEM\<close> exactly when all pages of the class are held.\<close>
theorem list_pool_exclusive:
  assumes "pool_run s0 s A" and "pool_view s0 (all_free s0)" and "mp_type s0 = KND_ALLOC_LIST"
  shows "(\<forall>p s'. knd_mempool_page s t = Inr (p, s') \<longrightarrow>
      p \<in> set (class_pages (page_class t s)) \<and> (canon t, p) \<notin> A) \<and>
    (knd_mempool_page s t = Inl (Err knd_NOMEM) \<longleftrightarrow>
      set (class_pages (page_class t s)) \<subseteq> {p. (canon t, p) \<in> A})"
proof -
  obtain F where inv: "run_inv s A F" using run_has_inv [OF assms] by blast
  then have view: "pool_view s F" and ty: "mp_type s = KND_ALLOC_LIST" and
    part: "{p. (canon t, p) \<in> A} \<inter> set (F (canon t)) = {}"
      "{p. (canon t, p) \<in> A} \<union> set (F (canon t)) = set (class_pages (page_class t s))"
    by (auto simp: run_inv_def)
  have page: "knd_mempool_page s t = get_page s t" using ty by (simp add: knd_mempool_page_def)
  show ?thesis
  proof (cases "F (canon t)")
    case Nil
    then have "get_page s t = Inl (Err knd_NOMEM)" using get_page_refines [OF view, of t] by simp
    then show ?thesis using part Nil page by auto
  next
    case (Cons q qs)
    then obtain s' where "get_page s t = Inr (q, s')" using get_page_refines [OF view, of t] by auto
    then show ?thesis using part Cons page by auto
  qed
qed

text \<open>Freeing a held page and asking for one of the same class again returns that page, with the
  free lists and the number of used pages as they were.\<close>
theorem list_pool_free_take:
  assumes "pool_run s0 s A" and "pool_view s0 (all_free s0)" and "mp_type s0 = KND_ALLOC_LIST"
    and "(canon t, p) \<in> A"
  shows "\<exists>s1 s2. knd_mempool_free s t p = Inr s1 \<and> knd_mempool_page s1 t = Inr (p, s2) \<and>
    (\<forall>u. pc_pages_used (page_class u s2) = pc_pages_used (page_class u s) \<and>
      pc_page_list (page_class u s2) = pc_page_list (page_class u s))"
proof -
  obtain F where inv: "run_inv s A F" using run_has_inv [OF assms(1-3)] by blast
  then have p: "p \<in> set (class_pages (page_class t s))" and ty: "mp_type s = KND_ALLOC_LIST"
    using assms(4) unfolding run_inv_def by blast+
  have "class_ok (page_class t s)" using inv by (simp add: run_inv_def pool_view_def class_view_def Let_def)
  then have nz: "p \<noteq> 0" using p class_pages_nonzero by blast
  define c where "c = page_class t s"
  define s1 where "s1 = set_page_class t (c\<lparr>pc_page_list := p, pc_pages_used := pc_pages_used c - 1\<rparr>)
    (s\<lparr>mp_next := (mp_next s)(p := pc_page_list c)\<rparr>)"
  define s2 where "s2 = set_page_class t (c\<lparr>pc_page_list := pc_page_list c, pc_pages_used := pc_pages_used c\<rparr>) s1"
  have "knd_mempool_free s t p = Inr s1" using nz by (simp add: knd_mempool_free_def Let_def s1_def c_def)
  moreover have "knd_mempool_page s1 t = Inr (p, s2)"
    using nz ty by (simp add: knd_mempool_page_def get_page_def Let_def s1_def s2_def)
  moreover have "page_class u s2 = page_class u s" for u
  proof (cases "canon u = canon t")
    case True
    then show ?thesis using same_class [OF True, of s] by (simp add: s2_def page_class_set_if c_def)
  next
    case False
    then show ?thesis by (simp add: s2_def s1_def page_class_set_if)
  qed
  ultimately show ?thesis by auto
qed

lemma length_all_free_sample: "length (all_free (sample_pool KND_ALLOC_LIST) t) = 2"
  by (rule sample_pool_cases [of KND_ALLOC_LIST])
    (simp add: build_lists_view, simp add: all_free_def)

lemma sample_take: "\<exists>p s'. knd_mempool_page (sample_pool KND_ALLOC_LIST) KND_MEMPAGE_TINY = Inr (p, s')"
proof -
  obtain p ps where f: "all_free (sample_pool KND_ALLOC_LIST) (canon KND_MEMPAGE_TINY) = p # ps"
    using length_all_free_sample [of KND_MEMPAGE_TINY]
    by (cases "all_free (sample_pool KND_ALLOC_LIST) KND_MEMPAGE_TINY") auto
  then show ?thesis using get_page_refines [OF sample_pool_view, of KND_MEMPAGE_TINY] sample_pool_type
    by (auto simp: knd_mempool_page_def)
qed

theorem list_pool_exclusive_witness:
  "\<exists>p s'. knd_mempool_page (sample_pool KND_ALLOC_LIST) KND_MEMPAGE_TINY = Inr (p, s') \<and>
    p \<in> set (class_pages (page_class KND_MEMPAGE_TINY (sample_pool KND_ALLOC_LIST)))"
proof -
  obtain p s' where "knd_mempool_page (sample_pool KND_ALLOC_LIST) KND_MEMPAGE_TINY = Inr (p, s')"
    using sample_take by blast
  then show ?thesis
    using list_pool_exclusive [OF run_start sample_pool_view sample_pool_type, of KND_MEMPAGE_TINY] by blast
qed

theorem list_pool_free_take_witness:
  "\<exists>s p s1 s2. knd_mempool_free s KND_MEMPAGE_TINY p = Inr s1 \<and> knd_mempool_page s1 KND_MEMPAGE_TINY = Inr (p, s2) \<and>
    (\<forall>u. pc_pages_used (page_class u s2) = pc_pages_used (page_class u s) \<and>
      pc_page_list (page_class u s2) = pc_page_list (page_class u s))"
proof -
  obtain p s where t: "knd_mempool_page (sample_pool KND_ALLOC_LIST) KND_MEMPAGE_TINY = Inr (p, s)"
    using sample_take by blast
  show ?thesis
    using list_pool_free_take [OF run_take [OF run_start t] sample_pool_view sample_pool_type,
        of KND_MEMPAGE_TINY p] by auto
qed

section \<open>Sources of pages\<close>

text \<open>What the rest of the program relies on: a source hands out one of the pages it has left.\<close>

fun draw_n :: "('s \<Rightarrow> (nat \<times> 's) result) \<Rightarrow> nat \<Rightarrow> 's \<Rightarrow> (nat list \<times> 's) result" where
  "draw_n draw 0 s = Inr ([], s)"
| "draw_n draw (Suc n) s =
     bind_result (draw s) (\<lambda>(p, s). bind_result (draw_n draw n s) (\<lambda>(ps, s). Inr (p # ps, s)))"

locale page_source =
  fixes draw :: "'s \<Rightarrow> (nat \<times> 's) result"
    and ready :: "'s \<Rightarrow> bool"
    and avail :: "'s \<Rightarrow> nat set"
  assumes finite_avail: "ready s \<Longrightarrow> finite (avail s)"
    and draw_some: "ready s \<Longrightarrow> avail s \<noteq> {} \<Longrightarrow>
      \<exists>p s'. draw s = Inr (p, s') \<and> ready s' \<and> p \<in> avail s \<and> avail s' = avail s - {p}"
    and draw_none: "ready s \<Longrightarrow> avail s = {} \<Longrightarrow> draw s = Inl (Err knd_NOMEM)"
begin

lemma draw_n_avail:
  "ready s \<Longrightarrow> n \<le> card (avail s) \<Longrightarrow>
   \<exists>ps s'. draw_n draw n s = Inr (ps, s') \<and> length ps = n \<and> distinct ps \<and> set ps \<subseteq> avail s \<and> ready s' \<and>
     avail s' = avail s - set ps"
proof (induction n arbitrary: s)
  case 0
  then show ?case by simp
next
  case (Suc n)
  then have "avail s \<noteq> {}" by auto
  from draw_some [OF Suc.prems(1) this] obtain p s1 where
    s1: "draw s = Inr (p, s1)" "ready s1" "p \<in> avail s" "avail s1 = avail s - {p}" by blast
  then have "n \<le> card (avail s1)" using Suc.prems finite_avail by simp
  from Suc.IH [OF s1(2) this] obtain ps s' where
    "draw_n draw n s1 = Inr (ps, s')" "length ps = n" "distinct ps" "set ps \<subseteq> avail s1" "ready s'"
    "avail s' = avail s1 - set ps" by blast
  then show ?case using s1 by (intro exI [of _ "p # ps"] exI [of _ s']) auto
qed

lemma draw_n_exhausted:
  "ready s \<Longrightarrow> card (avail s) < n \<Longrightarrow> draw_n draw n s = Inl (Err knd_NOMEM)"
proof (induction n arbitrary: s)
  case 0
  then show ?case by simp
next
  case (Suc n)
  show ?case
  proof (cases "avail s = {}")
    case True
    then show ?thesis using draw_none Suc.prems by simp
  next
    case False
    from draw_some [OF Suc.prems(1) False] obtain p s1 where
      s1: "draw s = Inr (p, s1)" "ready s1" "p \<in> avail s" "avail s1 = avail s - {p}" by blast
    then have "card (avail s1) < n" using Suc.prems finite_avail
      by (metis Suc_less_SucD card_Suc_Diff1)
    then show ?thesis using Suc.IH [OF s1(2)] s1 by simp
  qed
qed

end

text \<open>A shared pool seen through its shared lists.\<close>

definition as_shared :: "page_pool \<Rightarrow> page_pool" where
  "as_shared c = c\<lparr>pc_page_list := pc_shared_list c, pc_pages_used := pc_shared_used c\<rparr>"

definition unshare :: "kndMemPool \<Rightarrow> kndMemPool" where
  "unshare self = self
     \<lparr>mp_base := as_shared (mp_base self), mp_tiny := as_shared (mp_tiny self),
      mp_small := as_shared (mp_small self), mp_small_x2 := as_shared (mp_small_x2 self),
      mp_small_x4 := as_shared (mp_small_x4 self)\<rparr>"

lemma page_class_unshare [simp]: "page_class t (unshare self) = as_shared (page_class t self)"
  by (cases t) (simp_all add: unshare_def)

lemma unshare_fields [simp]: "mp_next (unshare self) = mp_next self" "mp_type (unshare self) = mp_type self"
  by (simp_all add: unshare_def)

lemma get_shared_page_unshare:
  "get_shared_page self t = Inr (p, self') \<Longrightarrow>
   \<exists>self2. get_page (unshare self) t = Inr (p, self2) \<and> mp_next self2 = mp_next (unshare self') \<and>
     (\<forall>u. pc_page_list (page_class u self2) = pc_page_list (page_class u (unshare self')) \<and>
       pc_pages_used (page_class u self2) = pc_pages_used (page_class u (unshare self')) \<and>
       class_pages (page_class u self2) = class_pages (page_class u (unshare self')) \<and>
       class_ok (page_class u self2) = class_ok (page_class u (unshare self')) \<and>
       pc_num_pages (page_class u self2) = pc_num_pages (page_class u (unshare self')))"
  by (auto simp: get_shared_page_def get_page_def Let_def as_shared_def page_class_set_if class_ok_def
      split: if_splits)

definition shared_view :: "kndMemPool \<Rightarrow> (knd_mempage \<Rightarrow> nat list) \<Rightarrow> bool" where
  "shared_view self F \<longleftrightarrow> pool_view (unshare self) F"

lemma get_shared_refines:
  assumes "shared_view self F"
  shows "case F (canon t) of
      [] \<Rightarrow> get_shared_page self t = Inl (Err knd_NOMEM)
    | p # ps \<Rightarrow> \<exists>self'. get_shared_page self t = Inr (p, self') \<and> shared_view self' (F(canon t := ps)) \<and>
        mp_type self' = mp_type self"
proof (cases "F (canon t)")
  case Nil
  then have "get_page (unshare self) t = Inl (Err knd_NOMEM)"
    using get_page_refines [of "unshare self" F t] assms by (simp add: shared_view_def)
  then show ?thesis using Nil
    by (simp add: get_page_def get_shared_page_def as_shared_def Let_def split: if_splits)
next
  case (Cons p ps)
  then obtain s2 where s2: "get_page (unshare self) t = Inr (p, s2)" "pool_view s2 (F(canon t := ps))"
    using get_page_refines [of "unshare self" F t] assms by (auto simp: shared_view_def)
  then obtain self' where g: "get_shared_page self t = Inr (p, self')"
    by (auto simp: get_page_def get_shared_page_def as_shared_def Let_def split: if_splits)
  have "pool_view (unshare self') (F(canon t := ps))"
    using get_shared_page_unshare [OF g] s2
    by (simp add: pool_view_def class_view_def Let_def separate_def del: page_class_unshare)
  moreover have "mp_type self' = mp_type self"
    using g by (auto simp: get_shared_page_def Let_def split: if_splits)
  ultimately show ?thesis using Cons g by (auto simp: shared_view_def)
qed

section \<open>Pages one after the other\<close>

lemma incr_page_spec:
  assumes "class_ok (page_class t self)"
  shows "if unat (pc_pages_used (page_class t self)) = unat (pc_num_pages (page_class t self))
    then incr_page self t = Inl (Err knd_NOMEM)
    else incr_page self t = Inr (class_pages (page_class t self) ! unat (pc_pages_used (page_class t self)),
      set_page_class t ((page_class t self)\<lparr>pc_pages_used := pc_pages_used (page_class t self) + 1\<rparr>) self) \<and>
      unat (pc_pages_used (page_class t self) + 1) = unat (pc_pages_used (page_class t self)) + 1"
proof -
  define c where "c = page_class t self"
  show ?thesis
  proof (cases "unat (pc_pages_used c) = unat (pc_num_pages c)")
    case True
    have lt: "unat (pc_num_pages c) < 2 ^ 64 - 1"
    proof -
      have "9 * unat (pc_num_pages c) \<le> unat (pc_page_size c) * unat (pc_num_pages c)"
        using assms by (intro mult_le_mono1) (simp add: class_ok_def c_def)
      moreover have "unat (pc_page_size c) * unat (pc_num_pages c) < 2 ^ 64"
        using assms by (simp add: class_ok_def c_def)
      ultimately have "9 * unat (pc_num_pages c) < 2 ^ 64" by (rule order_le_less_trans)
      then show ?thesis by simp
    qed
    then have "unat (pc_pages_used c + 1) = unat (pc_num_pages c) + 1"
      using True by (simp add: unat_word_ariths)
    then have "pc_pages_used c + 1 > pc_num_pages c" by (simp add: word_less_nat_alt)
    then show ?thesis using True by (simp add: incr_page_def Let_def flip: c_def)
  next
    case False
    then have lt: "unat (pc_pages_used c) < unat (pc_num_pages c)"
      using assms by (simp add: class_ok_def c_def)
    then have u: "unat (pc_pages_used c + 1) = unat (pc_pages_used c) + 1" by (rule unat_plus_1)
    then have "\<not> pc_pages_used c + 1 > pc_num_pages c" using lt by (simp add: word_less_nat_alt)
    moreover have "unat (pc_page_size c * pc_pages_used c) = unat (pc_page_size c) * unat (pc_pages_used c)"
    proof -
      have "unat (pc_page_size c) * unat (pc_pages_used c) \<le> unat (pc_page_size c) * unat (pc_num_pages c)"
        using lt by (intro mult_le_mono2) simp
      also have "\<dots> < 2 ^ 64" using assms by (simp add: class_ok_def c_def)
      finally have "unat (pc_page_size c) * unat (pc_pages_used c) < 2 ^ 64" .
      then show ?thesis by (simp add: unat_word_ariths)
    qed
    ultimately show ?thesis using False lt u
      by (simp add: incr_page_def Let_def class_pages_def flip: c_def)
  qed
qed


definition pool_ready :: "kndMemPool \<Rightarrow> bool" where
  "pool_ready self \<longleftrightarrow>
     (case mp_type self of
        KND_ALLOC_INCR \<Rightarrow> (\<forall>t. class_ok (page_class t self))
      | KND_ALLOC_LIST \<Rightarrow> (\<exists>F. pool_view self F)
      | KND_ALLOC_SHARED \<Rightarrow> (\<exists>F. shared_view self F))"

text \<open>The pages of a class that a pool has left, computed from its state.\<close>

definition left_on_list :: "page_pool \<Rightarrow> (nat \<Rightarrow> nat) \<Rightarrow> nat list" where
  "left_on_list c nx = collect_path (unat (pc_num_pages c) - unat (pc_pages_used c)) nx (pc_page_list c)"

definition pages_left :: "knd_mempage \<Rightarrow> kndMemPool \<Rightarrow> nat list" where
  "pages_left t self =
     (case mp_type self of
        KND_ALLOC_INCR \<Rightarrow> drop (unat (pc_pages_used (page_class t self))) (class_pages (page_class t self))
      | KND_ALLOC_LIST \<Rightarrow> left_on_list (page_class t self) (mp_next self)
      | KND_ALLOC_SHARED \<Rightarrow> left_on_list (as_shared (page_class t self)) (mp_next self))"

lemma view_left: "pool_view self F \<Longrightarrow> left_on_list (page_class t self) (mp_next self) = F (canon t)"
proof -
  assume "pool_view self F"
  then have v: "class_view self t (F (canon t))" by (simp add: pool_view_def)
  then have "unat (pc_num_pages (page_class t self)) - unat (pc_pages_used (page_class t self)) = length (F (canon t))"
    by (auto simp: class_view_def Let_def)
  then show ?thesis using v by (simp add: left_on_list_def class_view_def Let_def free_path_collect)
qed

lemma view_distinct: "pool_view self F \<Longrightarrow> distinct (F (canon t))"
  by (auto simp: pool_view_def class_view_def Let_def)

lemma pages_left_step:
  assumes "pool_ready self"
  shows "case pages_left t self of
      [] \<Rightarrow> knd_mempool_page self t = Inl (Err knd_NOMEM)
    | p # ps \<Rightarrow> distinct (p # ps) \<and> (\<exists>self'. knd_mempool_page self t = Inr (p, self') \<and> pool_ready self' \<and>
        pages_left t self' = ps)"
proof (cases "mp_type self")
  case KND_ALLOC_INCR
  define c where "c = page_class t self"
  have ok: "class_ok c" using assms KND_ALLOC_INCR by (simp add: pool_ready_def c_def)
  note spec = incr_page_spec [OF ok [unfolded c_def], folded c_def]
  show ?thesis
  proof (cases "unat (pc_pages_used c) = unat (pc_num_pages c)")
    case True
    then show ?thesis using spec KND_ALLOC_INCR by (simp add: pages_left_def knd_mempool_page_def flip: c_def)
  next
    case False
    then have lt: "unat (pc_pages_used c) < length (class_pages c)" using ok by (simp add: class_ok_def)
    define self' where "self' = set_page_class t (c\<lparr>pc_pages_used := pc_pages_used c + 1\<rparr>) self"
    have left: "pages_left t self = class_pages c ! unat (pc_pages_used c) # pages_left t self'"
      using spec False lt KND_ALLOC_INCR
      by (simp add: pages_left_def self'_def Cons_nth_drop_Suc flip: c_def)
    have page: "knd_mempool_page self t = Inr (class_pages c ! unat (pc_pages_used c), self')"
      using spec False KND_ALLOC_INCR by (simp add: knd_mempool_page_def self'_def)
    have "pool_ready self'"
      using assms KND_ALLOC_INCR spec False lt ok
      by (auto simp: pool_ready_def self'_def page_class_set_if class_ok_def)
    moreover have "distinct (pages_left t self)"
      using distinct_class_pages [OF ok] KND_ALLOC_INCR by (simp add: pages_left_def flip: c_def)
    ultimately show ?thesis using left page by auto
  qed
next
  case KND_ALLOC_LIST
  then obtain F where F: "pool_view self F" using assms by (auto simp: pool_ready_def)
  have left: "pages_left t self = F (canon t)" using view_left [OF F] KND_ALLOC_LIST by (simp add: pages_left_def)
  show ?thesis
  proof (cases "F (canon t)")
    case Nil
    then show ?thesis using get_page_refines [OF F, of t] left KND_ALLOC_LIST by (simp add: knd_mempool_page_def)
  next
    case (Cons p ps)
    then obtain self' where s': "get_page self t = Inr (p, self')" "pool_view self' (F(canon t := ps))"
      "mp_type self' = mp_type self" using get_page_refines [OF F, of t] by auto
    then have "pages_left t self' = ps" using view_left [OF s'(2), of t] KND_ALLOC_LIST by (simp add: pages_left_def)
    then show ?thesis using Cons s' left KND_ALLOC_LIST view_distinct [OF F, of t]
      by (auto simp: knd_mempool_page_def pool_ready_def)
  qed
next
  case KND_ALLOC_SHARED
  then obtain F where F: "shared_view self F" using assms by (auto simp: pool_ready_def)
  then have pv: "pool_view (unshare self) F" by (simp add: shared_view_def)
  have left: "pages_left t self = F (canon t)"
    using view_left [OF pv, of t] KND_ALLOC_SHARED by (simp add: pages_left_def)
  show ?thesis
  proof (cases "F (canon t)")
    case Nil
    then show ?thesis using get_shared_refines [OF F, of t] left KND_ALLOC_SHARED by (simp add: knd_mempool_page_def)
  next
    case (Cons p ps)
    then obtain self' where s': "get_shared_page self t = Inr (p, self')" "shared_view self' (F(canon t := ps))"
      "mp_type self' = mp_type self" using get_shared_refines [OF F, of t] by auto
    then have "pages_left t self' = ps"
      using view_left [of "unshare self'" "F(canon t := ps)" t] KND_ALLOC_SHARED
      by (simp add: pages_left_def shared_view_def)
    then show ?thesis using Cons s' left KND_ALLOC_SHARED view_distinct [OF pv, of t]
      by (auto simp: knd_mempool_page_def pool_ready_def)
  qed
qed

interpretation pool_source: page_source "\<lambda>self. knd_mempool_page self t" pool_ready "\<lambda>self. set (pages_left t self)" for t
proof
  fix s assume ready: "pool_ready s"
  show "finite (set (pages_left t s))" by simp
  show "\<exists>p s'. knd_mempool_page s t = Inr (p, s') \<and> pool_ready s' \<and> p \<in> set (pages_left t s) \<and>
      set (pages_left t s') = set (pages_left t s) - {p}" if "set (pages_left t s) \<noteq> {}"
    using that pages_left_step [OF ready, of t] by (cases "pages_left t s") auto
  show "knd_mempool_page s t = Inl (Err knd_NOMEM)" if "set (pages_left t s) = {}"
    using that pages_left_step [OF ready, of t] by simp
qed

text \<open>Whatever the type of the pool, \<open>n\<close> requests in a row get \<open>n\<close> different pages from those left
  in the class, and fail with \<open>knd_NOMEM\<close> exactly when fewer are left.\<close>
theorem mempool_many_pages:
  assumes "pool_ready self"
  shows "if n \<le> length (pages_left t self)
    then \<exists>ps self'. draw_n (\<lambda>s. knd_mempool_page s t) n self = Inr (ps, self') \<and> length ps = n \<and> distinct ps \<and>
      set ps \<subseteq> set (pages_left t self) \<and> pool_ready self' \<and>
      set (pages_left t self') = set (pages_left t self) - set ps
    else draw_n (\<lambda>s. knd_mempool_page s t) n self = Inl (Err knd_NOMEM)"
proof -
  have "distinct (pages_left t self)" using pages_left_step [OF assms, of t] by (auto split: list.splits)
  then have "card (set (pages_left t self)) = length (pages_left t self)" by (rule distinct_card)
  then show ?thesis
    using pool_source.draw_n_avail [OF assms, of n t] pool_source.draw_n_exhausted [OF assms, of t n] by auto
qed

lemma sample_incr_ready: "pool_ready (sample_pool KND_ALLOC_INCR)"
  by (rule sample_pool_cases [of KND_ALLOC_INCR]) (simp add: pool_ready_def fresh_classes_def)

theorem mempool_many_pages_witness:
  "if 2 \<le> length (pages_left KND_MEMPAGE_SMALL (sample_pool KND_ALLOC_INCR))
    then \<exists>ps self'. draw_n (\<lambda>s. knd_mempool_page s KND_MEMPAGE_SMALL) 2 (sample_pool KND_ALLOC_INCR) = Inr (ps, self') \<and>
      length ps = 2 \<and> distinct ps \<and>
      set ps \<subseteq> set (pages_left KND_MEMPAGE_SMALL (sample_pool KND_ALLOC_INCR)) \<and> pool_ready self' \<and>
      set (pages_left KND_MEMPAGE_SMALL self') =
        set (pages_left KND_MEMPAGE_SMALL (sample_pool KND_ALLOC_INCR)) - set ps
    else draw_n (\<lambda>s. knd_mempool_page s KND_MEMPAGE_SMALL) 2 (sample_pool KND_ALLOC_INCR) = Inl (Err knd_NOMEM)"
  by (rule mempool_many_pages [OF sample_incr_ready])

section \<open>Resetting\<close>

text \<open>\<open>knd_mempool_reset\<close> makes a pool of consecutive pages whole again, but in a pool of lists it
  only clears the counters: the pages that were held stay off the lists, so that fewer
  pages can be taken than the counter leaves.\<close>
theorem mempool_reset_effect:
  assumes "class_ok (page_class t self)"
  shows "(mp_type self = KND_ALLOC_INCR \<longrightarrow>
      pages_left t (knd_mempool_reset self) = class_pages (page_class t self)) \<and>
    (mp_type self = KND_ALLOC_LIST \<and> pool_view self F \<longrightarrow>
      free_path (mp_next (knd_mempool_reset self)) (pc_page_list (page_class t (knd_mempool_reset self))) (F (canon t)) \<and>
      unat (pc_num_pages (page_class t (knd_mempool_reset self))) -
        unat (pc_pages_used (page_class t (knd_mempool_reset self))) =
      length (F (canon t)) + unat (pc_pages_used (page_class t self)))"
proof -
  have c: "page_class t (knd_mempool_reset self) = (page_class t self)\<lparr>pc_pages_used := 0\<rparr>"
    by (cases t) (simp_all add: knd_mempool_reset_def)
  have f: "mp_next (knd_mempool_reset self) = mp_next self" "mp_type (knd_mempool_reset self) = mp_type self"
    by (simp_all add: knd_mempool_reset_def)
  have "class_view self t (F (canon t))" if "pool_view self F" using that by (simp add: pool_view_def)
  then show ?thesis by (auto simp: c f pages_left_def class_view_def Let_def)
qed

lemma sample_list_class_ok: "class_ok (page_class t (sample_pool KND_ALLOC_LIST))"
  using sample_pool_view by (simp add: pool_view_def class_view_def Let_def)

theorem mempool_reset_effect_witness:
  "(mp_type (sample_pool KND_ALLOC_LIST) = KND_ALLOC_INCR \<longrightarrow>
      pages_left KND_MEMPAGE_TINY (knd_mempool_reset (sample_pool KND_ALLOC_LIST)) =
        class_pages (page_class KND_MEMPAGE_TINY (sample_pool KND_ALLOC_LIST))) \<and>
    (mp_type (sample_pool KND_ALLOC_LIST) = KND_ALLOC_LIST \<and>
      pool_view (sample_pool KND_ALLOC_LIST) (all_free (sample_pool KND_ALLOC_LIST)) \<longrightarrow>
      free_path (mp_next (knd_mempool_reset (sample_pool KND_ALLOC_LIST)))
        (pc_page_list (page_class KND_MEMPAGE_TINY (knd_mempool_reset (sample_pool KND_ALLOC_LIST))))
        (all_free (sample_pool KND_ALLOC_LIST) (canon KND_MEMPAGE_TINY)) \<and>
      unat (pc_num_pages (page_class KND_MEMPAGE_TINY (knd_mempool_reset (sample_pool KND_ALLOC_LIST)))) -
        unat (pc_pages_used (page_class KND_MEMPAGE_TINY (knd_mempool_reset (sample_pool KND_ALLOC_LIST)))) =
      length (all_free (sample_pool KND_ALLOC_LIST) (canon KND_MEMPAGE_TINY)) +
        unat (pc_pages_used (page_class KND_MEMPAGE_TINY (sample_pool KND_ALLOC_LIST))))"
  by (rule mempool_reset_effect [OF sample_list_class_ok])

end
