(* ===== verification/Mempool_Shared.thy ===== *)
theory Mempool_Shared
  imports Mempool
begin

text \<open>
  The shared lists of \<^verbatim>\<open>src/knd_mempool.c\<close> under concurrency: any number of threads run
  \<open>get_shared_page\<close> on one class, one atomic access at a time, while the holders of pages
  store in them. The last section shows what freeing does to a shared pool.
\<close>

section \<open>The steps of a thread\<close>

text \<open>
  \<open>Loaded h\<close>: the head \<open>h\<close> was loaded. \<open>Read_Next h n\<close>: \<open>h->next\<close> was read as \<open>n\<close>, the
  exchange comes next. \<open>Popped\<close>: the exchange succeeded, the counter comes next.
\<close>

datatype pop_pc = Idle | Loaded nat | Read_Next nat nat | Popped nat | Empty_List

record shared_state =
  sh_list :: nat
  sh_used :: size_t
  sh_next :: "nat \<Rightarrow> nat"
  sh_pc :: "nat \<Rightarrow> pop_pc"
  sh_held :: "(nat \<times> nat) list"

text \<open>\<open>sh_held\<close> records the pages obtained, with the thread. The weak exchange may fail at any time.\<close>

inductive pop_step :: "shared_state \<Rightarrow> shared_state \<Rightarrow> bool" where
  step_load: "sh_pc s t = Idle \<Longrightarrow>
    pop_step s (s\<lparr>sh_pc := (sh_pc s)(t := if sh_list s = 0 then Empty_List else Loaded (sh_list s))\<rparr>)"
| step_read: "sh_pc s t = Loaded h \<Longrightarrow>
    pop_step s (s\<lparr>sh_pc := (sh_pc s)(t := Read_Next h (sh_next s h))\<rparr>)"
| step_cas: "sh_pc s t = Read_Next h n \<Longrightarrow> sh_list s = h \<Longrightarrow>
    pop_step s (s\<lparr>sh_list := n, sh_pc := (sh_pc s)(t := Popped h), sh_held := (t, h) # sh_held s\<rparr>)"
| step_cas_fails: "sh_pc s t = Read_Next h n \<Longrightarrow>
    pop_step s (s\<lparr>sh_pc := (sh_pc s)(t := Idle)\<rparr>)"
| step_count: "sh_pc s t = Popped h \<Longrightarrow>
    pop_step s (s\<lparr>sh_used := sh_used s + 1, sh_pc := (sh_pc s)(t := Idle)\<rparr>)"
| step_retry: "sh_pc s t = Empty_List \<Longrightarrow>
    pop_step s (s\<lparr>sh_pc := (sh_pc s)(t := Idle)\<rparr>)"
| step_store: "(t, p) \<in> set (sh_held s) \<Longrightarrow>
    pop_step s (s\<lparr>sh_next := (sh_next s)(p := v)\<rparr>)"

definition shared_start :: "nat \<Rightarrow> (nat \<Rightarrow> nat) \<Rightarrow> shared_state" where
  "shared_start list next =
     \<lparr>sh_list = list, sh_used = 0, sh_next = next, sh_pc = (\<lambda>_. Idle), sh_held = []\<rparr>"

definition popping :: "shared_state \<Rightarrow> nat set" where
  "popping s = {t. \<exists>h. sh_pc s t = Popped h}"

definition pop_inv :: "nat set \<Rightarrow> shared_state \<Rightarrow> nat list \<Rightarrow> bool" where
  "pop_inv pages s ps \<longleftrightarrow>
     free_path (sh_next s) (sh_list s) ps \<and> distinct (ps @ map snd (sh_held s)) \<and>
     set ps \<union> snd ` set (sh_held s) = pages \<and>
     (\<forall>t h n. sh_pc s t = Read_Next h n \<longrightarrow> h \<noteq> 0 \<and> (h \<in> set ps \<longrightarrow> n = sh_next s h)) \<and>
     (\<forall>t h. sh_pc s t = Loaded h \<longrightarrow> h \<noteq> 0) \<and>
     finite (popping s) \<and> sh_used s + of_nat (card (popping s)) = of_nat (length (sh_held s))"

lemma free_path_head: "free_path nx p ps \<Longrightarrow> p \<noteq> 0 \<Longrightarrow> \<exists>qs. ps = p # qs \<and> free_path nx (nx p) qs"
  by (cases ps) auto

lemma popping_upd:
  "popping (s\<lparr>sh_pc := (sh_pc s)(t := q)\<rparr>) =
     (if \<exists>h. q = Popped h then insert t (popping s) else popping s - {t})"
  by (auto simp: popping_def)

lemma popping_other [simp]:
  "popping (s\<lparr>sh_next := nx\<rparr>) = popping s"
  "popping (s\<lparr>sh_list := l, sh_pc := pcs, sh_held := hs\<rparr>) = popping (s\<lparr>sh_pc := pcs\<rparr>)"
  "popping (s\<lparr>sh_used := u, sh_pc := pcs\<rparr>) = popping (s\<lparr>sh_pc := pcs\<rparr>)"
  by (simp_all add: popping_def)

lemma not_popping: "sh_pc s t = q \<Longrightarrow> \<forall>h. q \<noteq> Popped h \<Longrightarrow> popping s - {t} = popping s"
  by (auto simp: popping_def)

lemma pop_inv_step:
  assumes "pop_step s s'" and "pop_inv pages s ps"
  shows "\<exists>ps'. pop_inv pages s' ps'"
  using assms
proof (induction rule: pop_step.induct)
  case (step_load s t)
  then have "pop_inv pages (s\<lparr>sh_pc := (sh_pc s)(t := if sh_list s = 0 then Empty_List else Loaded (sh_list s))\<rparr>) ps"
    using not_popping [OF step_load(1)] by (auto simp: pop_inv_def popping_upd)
  then show ?case by blast
next
  case (step_read s t h)
  then have "pop_inv pages (s\<lparr>sh_pc := (sh_pc s)(t := Read_Next h (sh_next s h))\<rparr>) ps"
    using not_popping [OF step_read(1)] by (auto simp: pop_inv_def popping_upd)
  then show ?case by blast
next
  case (step_cas s t h n)
  have "h \<noteq> 0" using step_cas by (auto simp: pop_inv_def)
  then obtain qs where qs: "ps = h # qs" "free_path (sh_next s) (sh_next s h) qs"
    using step_cas(2,3) free_path_head [of "sh_next s" "sh_list s" ps] unfolding pop_inv_def by blast
  then have n: "n = sh_next s h" using step_cas(1,3) unfolding pop_inv_def by (metis list.set_intros(1))
  have t: "t \<notin> popping s" using step_cas(1) by (simp add: popping_def)
  let ?s = "s\<lparr>sh_list := n, sh_pc := (sh_pc s)(t := Popped h), sh_held := (t, h) # sh_held s\<rparr>"
  have inv: "distinct (ps @ map snd (sh_held s))" "set ps \<union> snd ` set (sh_held s) = pages"
    "\<forall>t h n. sh_pc s t = Read_Next h n \<longrightarrow> h \<noteq> 0 \<and> (h \<in> set ps \<longrightarrow> n = sh_next s h)"
    "\<forall>t h. sh_pc s t = Loaded h \<longrightarrow> h \<noteq> 0" "finite (popping s)"
    "sh_used s + of_nat (card (popping s)) = of_nat (length (sh_held s))"
    using step_cas(3) unfolding pop_inv_def by blast+
  have pop: "popping ?s = insert t (popping s)" by (simp add: popping_upd)
  have "pop_inv pages ?s qs"
    unfolding pop_inv_def pop
  proof (intro conjI)
    show "free_path (sh_next ?s) (sh_list ?s) qs" using qs n by simp
    show "distinct (qs @ map snd (sh_held ?s))" using inv(1) qs by auto
    show "set qs \<union> snd ` set (sh_held ?s) = pages" using inv(2) qs by auto
    show "\<forall>t h n. sh_pc ?s t = Read_Next h n \<longrightarrow> h \<noteq> 0 \<and> (h \<in> set qs \<longrightarrow> n = sh_next ?s h)"
      using inv(3) qs(1) by simp
    show "\<forall>t h. sh_pc ?s t = Loaded h \<longrightarrow> h \<noteq> 0" using inv(4) by simp
    show "finite (insert t (popping s))" using inv(5) by simp
    show "sh_used ?s + of_nat (card (insert t (popping s))) = of_nat (length (sh_held ?s))"
      using inv(5,6) t by (simp add: algebra_simps)
  qed
  then show ?case by blast
next
  case (step_cas_fails s t h n)
  then have "pop_inv pages (s\<lparr>sh_pc := (sh_pc s)(t := Idle)\<rparr>) ps"
    using not_popping [OF step_cas_fails(1)] by (auto simp: pop_inv_def popping_upd)
  then show ?case by blast
next
  case (step_count s t h)
  then have t: "t \<in> popping s" by (auto simp: popping_def)
  have fin: "finite (popping s)" using step_count by (simp add: pop_inv_def)
  have "card (popping s) = Suc (card (popping s - {t}))" using card_Suc_Diff1 [OF fin t] by simp
  then have "sh_used s + 1 + of_nat (card (popping s - {t})) = of_nat (length (sh_held s))"
    using step_count by (simp add: pop_inv_def algebra_simps)
  then have "pop_inv pages (s\<lparr>sh_used := sh_used s + 1, sh_pc := (sh_pc s)(t := Idle)\<rparr>) ps"
    using step_count by (auto simp: pop_inv_def popping_upd)
  then show ?case by blast
next
  case (step_retry s t)
  then have "pop_inv pages (s\<lparr>sh_pc := (sh_pc s)(t := Idle)\<rparr>) ps"
    using not_popping [OF step_retry(1)] by (auto simp: pop_inv_def popping_upd)
  then show ?case by blast
next
  case (step_store t p s v)
  let ?s = "s\<lparr>sh_next := (sh_next s)(p := v)\<rparr>"
  have inv: "free_path (sh_next s) (sh_list s) ps" "distinct (ps @ map snd (sh_held s))"
    "set ps \<union> snd ` set (sh_held s) = pages"
    "\<forall>t h n. sh_pc s t = Read_Next h n \<longrightarrow> h \<noteq> 0 \<and> (h \<in> set ps \<longrightarrow> n = sh_next s h)"
    "\<forall>t h. sh_pc s t = Loaded h \<longrightarrow> h \<noteq> 0" "finite (popping s)"
    "sh_used s + of_nat (card (popping s)) = of_nat (length (sh_held s))"
    using step_store(2) unfolding pop_inv_def by blast+
  have "p \<in> snd ` set (sh_held s)" using step_store(1) by force
  then have p: "p \<notin> set ps" using inv(2) by auto
  have "pop_inv pages ?s ps"
    unfolding pop_inv_def popping_other
  proof (intro conjI)
    show "free_path (sh_next ?s) (sh_list ?s) ps" using inv(1) p by (simp add: free_path_upd)
    show "\<forall>t h n. sh_pc ?s t = Read_Next h n \<longrightarrow> h \<noteq> 0 \<and> (h \<in> set ps \<longrightarrow> n = sh_next ?s h)"
      using inv(4) p by fastforce
  qed (use inv in simp_all)
  then show ?case by blast
qed

lemma pop_inv_reach:
  assumes "pop_step\<^sup>*\<^sup>* (shared_start list next) s" and "free_path next list ps0" and "distinct ps0"
  shows "\<exists>ps. pop_inv (set ps0) s ps"
  using assms(1)
proof (induction rule: rtranclp_induct)
  case base
  have "pop_inv (set ps0) (shared_start list next) ps0"
    using assms(2,3) by (simp add: pop_inv_def shared_start_def popping_def)
  then show ?case by blast
next
  case (step s s')
  then show ?case using pop_inv_step by blast
qed

text \<open>C23: however the threads interleave and whatever the holders store in their pages, no page is
  handed out twice, every page of the pool is either held or still on the list, and
  when no thread is between its exchange and its counter, the counter is the number of
  pages held.\<close>
theorem shared_pages_exclusive:
  assumes "pop_step\<^sup>*\<^sup>* (shared_start list next) s" and "free_path next list ps0" and "distinct ps0"
  shows "distinct (map snd (sh_held s)) \<and>
    (\<exists>ps. free_path (sh_next s) (sh_list s) ps \<and> distinct ps \<and> set ps \<inter> snd ` set (sh_held s) = {} \<and>
      set ps \<union> snd ` set (sh_held s) = set ps0) \<and>
    (popping s = {} \<longrightarrow> sh_used s = of_nat (length (sh_held s)))"
proof -
  obtain ps where "pop_inv (set ps0) s ps" using pop_inv_reach [OF assms] by blast
  then show ?thesis by (intro conjI exI [of _ ps]) (auto simp: pop_inv_def)
qed

text \<open>Two threads that both read the head: the second exchange fails and is retried.\<close>

inductive_cases pop_stepE: "pop_step s s'"

definition two_threads :: shared_state where
  "two_threads = \<lparr>sh_list = 20, sh_used = 0, sh_next = (\<lambda>_. 0)(10 := 20),
     sh_pc = (\<lambda>_. Idle)(1 := Read_Next 10 20, 2 := Popped 10), sh_held = [(2, 10)]\<rparr>"

lemma two_threads_reached: "pop_step\<^sup>*\<^sup>* (shared_start 10 ((\<lambda>_. 0)(10 := 20))) two_threads"
proof -
  let ?nx = "(\<lambda>_. 0)(10 := 20) :: nat \<Rightarrow> nat"
  let ?st = "\<lambda>l pcs hs. \<lparr>sh_list = l, sh_used = 0, sh_next = ?nx, sh_pc = pcs, sh_held = hs\<rparr>"
  have a: "pop_step (shared_start 10 ?nx) (?st 10 ((\<lambda>_. Idle)(1 := Loaded 10)) [])"
    using step_load [of "shared_start 10 ?nx" 1] by (simp add: shared_start_def)
  have b: "pop_step (?st 10 ((\<lambda>_. Idle)(1 := Loaded 10)) []) (?st 10 ((\<lambda>_. Idle)(1 := Read_Next 10 20)) [])"
    using step_read [of "?st 10 ((\<lambda>_. Idle)(1 := Loaded 10)) []" 1 10] by simp
  have c: "pop_step (?st 10 ((\<lambda>_. Idle)(1 := Read_Next 10 20)) [])
      (?st 10 ((\<lambda>_. Idle)(1 := Read_Next 10 20, 2 := Loaded 10)) [])"
    using step_load [of "?st 10 ((\<lambda>_. Idle)(1 := Read_Next 10 20)) []" 2] by simp
  have d: "pop_step (?st 10 ((\<lambda>_. Idle)(1 := Read_Next 10 20, 2 := Loaded 10)) [])
      (?st 10 ((\<lambda>_. Idle)(1 := Read_Next 10 20, 2 := Read_Next 10 20)) [])"
    using step_read [of "?st 10 ((\<lambda>_. Idle)(1 := Read_Next 10 20, 2 := Loaded 10)) []" 2 10] by simp
  have e: "pop_step (?st 10 ((\<lambda>_. Idle)(1 := Read_Next 10 20, 2 := Read_Next 10 20)) []) two_threads"
    using step_cas [of "?st 10 ((\<lambda>_. Idle)(1 := Read_Next 10 20, 2 := Read_Next 10 20)) []" 2 10 20]
    by (simp add: two_threads_def)
  show ?thesis
    by (rule converse_rtranclp_into_rtranclp [OF a converse_rtranclp_into_rtranclp [OF b
          converse_rtranclp_into_rtranclp [OF c converse_rtranclp_into_rtranclp [OF d r_into_rtranclp [of pop_step, OF e]]]]])
qed

theorem shared_pages_exclusive_witness:
  "distinct (map snd (sh_held two_threads)) \<and>
    (\<exists>ps. free_path (sh_next two_threads) (sh_list two_threads) ps \<and> distinct ps \<and>
      set ps \<inter> snd ` set (sh_held two_threads) = {} \<and>
      set ps \<union> snd ` set (sh_held two_threads) = set [10, 20])"
proof -
  have "distinct (map snd (sh_held two_threads)) \<and>
    (\<exists>ps. free_path (sh_next two_threads) (sh_list two_threads) ps \<and> distinct ps \<and>
      set ps \<inter> snd ` set (sh_held two_threads) = {} \<and>
      set ps \<union> snd ` set (sh_held two_threads) = set [10, 20]) \<and>
    (popping two_threads = {} \<longrightarrow> sh_used two_threads = of_nat (length (sh_held two_threads)))"
    by (rule shared_pages_exclusive [OF two_threads_reached]) simp_all
  then show ?thesis by blast
qed

section \<open>Freeing in a shared pool\<close>

text \<open>C24: \<open>knd_mempool_free\<close> does not give a page that was taken back to a shared pool: it goes to the
  list that only unshared pools use, no request will get it again, and the counter of that list,
  which a shared pool never counts up, wraps around from zero to the greatest number.\<close>
theorem shared_free_lost:
  assumes "mp_type self = KND_ALLOC_SHARED" and "shared_view self F"
    and "page_data \<in> set (class_pages (page_class t self))" and "page_data \<notin> set (F (canon t))"
    and "pc_pages_used (page_class t self) = 0"
  shows "\<exists>self'. knd_mempool_free self t page_data = Inr self' \<and> shared_view self' F \<and>
    pc_page_list (page_class t self') = page_data \<and>
    (\<forall>u. pages_left u self' = pages_left u self \<and> page_data \<notin> set (pages_left u self') \<and>
      (knd_mempool_page self' u = Inl (Err knd_NOMEM) \<longleftrightarrow> knd_mempool_page self u = Inl (Err knd_NOMEM))) \<and>
    unat (pc_pages_used (page_class t self')) = 2 ^ 64 - 1 \<and>
    pc_shared_used (page_class t self') = pc_shared_used (page_class t self)"
proof -
  define c where "c = page_class t self"
  define self' where "self' = set_page_class t
    (c\<lparr>pc_page_list := page_data, pc_pages_used := pc_pages_used c - 1\<rparr>)
    (self\<lparr>mp_next := (mp_next self)(page_data := pc_page_list c)\<rparr>)"
  have pv: "pool_view (unshare self) F" using assms(2) by (simp add: shared_view_def)
  then have view_u: "class_view (unshare self) u (F (canon u))" for u by (simp add: pool_view_def)
  have "pc_pages c \<noteq> 0" using view_u [of t] by (simp add: class_view_def Let_def as_shared_def class_ok_def c_def)
  then have "page_data \<noteq> 0" using assms(3) by (auto simp: class_pages_def c_def)
  then have free: "knd_mempool_free self t page_data = Inr self'"
    by (simp add: knd_mempool_free_def Let_def self'_def c_def)
  have taken: "page_data \<notin> set (F (canon u))" for u
  proof (cases "canon u = canon t")
    case True
    then show ?thesis using assms(4) by simp
  next
    case False
    have "set (F (canon u)) \<subseteq> set (class_pages (page_class u self))"
      using view_u [of u] by (simp add: class_view_def Let_def as_shared_def class_pages_def)
    moreover have "set (class_pages (page_class u self)) \<inter> set (class_pages (page_class t self)) = {}"
      using pv False by (simp add: pool_view_def separate_def as_shared_def class_pages_def)
    ultimately show ?thesis using assms(3) by blast
  qed
  have same: "as_shared (page_class u self') = as_shared (page_class u self)" for u
  proof (cases "canon u = canon t")
    case True
    then show ?thesis using same_class [OF True, of self]
      by (simp add: self'_def page_class_set_if as_shared_def c_def)
  next
    case False
    then show ?thesis by (simp add: self'_def page_class_set_if)
  qed
  have ty: "mp_type self' = KND_ALLOC_SHARED" using assms(1) by (simp add: self'_def)
  have "class_view (unshare self') u (F (canon u))" for u
    using view_u [of u] taken [of u] same
    by (simp add: class_view_def Let_def self'_def free_path_upd)
  then have view: "shared_view self' F"
    using pv same by (simp add: shared_view_def pool_view_def separate_def)
  have left: "pages_left u self' = F (canon u)" "pages_left u self = F (canon u)" for u
    using view_left [OF pv, of u] view_left [of "unshare self'" F u] view ty assms(1)
    by (simp_all add: pages_left_def shared_view_def)
  have ready: "pool_ready self" "pool_ready self'"
    using assms(1,2) ty view by (auto simp: pool_ready_def)
  have "knd_mempool_page self' u = Inl (Err knd_NOMEM) \<longleftrightarrow> knd_mempool_page self u = Inl (Err knd_NOMEM)" for u
    using pages_left_step [OF ready(1), of u] pages_left_step [OF ready(2), of u] left [of u]
    by (auto split: list.splits)
  moreover have "pc_pages_used (page_class t self') = - 1" "pc_page_list (page_class t self') = page_data"
    "pc_shared_used (page_class t self') = pc_shared_used (page_class t self)"
    using assms(5) by (simp_all add: self'_def c_def)
  moreover have "unat (- 1 :: size_t) = 2 ^ 64 - 1" by (simp add: unsigned_minus_1_eq_mask mask_eq_exp_minus_1)
  ultimately show ?thesis using free view left taken by auto
qed

lemma alloc_buf_shared_used:
  "alloc_page_buf calloc t dn ds self = (None, self') \<Longrightarrow> pc_shared_used (page_class u self') = pc_shared_used (page_class u self)"
  using same_class [of u t self]
  by (auto simp: alloc_page_buf_def Let_def page_class_set_if split: if_splits option.splits)

lemma build_list_shared_used:
  "pc_shared_used (page_class u (build_linked_list t self)) = pc_shared_used (page_class u self)"
  using same_class [of u t self] by (auto simp: build_linked_list_def Let_def page_class_set_if split: prod.split)

lemma share_lists_fields: "mp_type (share_lists s) = mp_type s" "mp_next (share_lists s) = mp_next s"
  "page_class t (share_lists s) = share_list (page_class t s)"
  by (simp_all add: share_lists_def, cases t) simp_all

lemma alloc_shared_used:
  assumes "alloc_capacity calloc self = (None, self')"
  shows "pc_shared_used (page_class u self') = pc_shared_used (page_class u self)"
proof -
  obtain p1 p2 p3 p4 p5 where p:
    "alloc_page_buf calloc KND_MEMPAGE_BASE 10000 1024 self = (None, p1)"
    "alloc_page_buf calloc KND_MEMPAGE_SMALL_X4 10000 512 p1 = (None, p2)"
    "alloc_page_buf calloc KND_MEMPAGE_SMALL_X2 10000 256 p2 = (None, p3)"
    "alloc_page_buf calloc KND_MEMPAGE_SMALL 10000 128 p3 = (None, p4)"
    "alloc_page_buf calloc KND_MEMPAGE_TINY 10000 64 p4 = (None, p5)" and
    fin: "self' = (let self = (if mp_type p5 = KND_ALLOC_SHARED \<or> mp_type p5 = KND_ALLOC_LIST
        then build_lists p5 else p5) in
        if mp_type self = KND_ALLOC_SHARED then share_lists self else self)"
    using assms unfolding alloc_capacity_def then_step_None
    by (auto simp: Let_def share_lists_def build_lists_def)
  show ?thesis
    by (simp add: fin Let_def share_lists_fields share_list_def build_lists_def build_list_shared_used
        p [THEN alloc_buf_shared_used])
qed

lemma sample_shared_used: "pc_shared_used (page_class u (sample_pool type)) = 0"
  unfolding alloc_shared_used [OF sample_alloc]
  by (cases u) (simp_all add: sample_conf_def sample_class_def empty_class_def)

text \<open>A new shared pool: all its pages are on the shared lists, and no counter was counted up.\<close>

lemma sample_shared_view:
  "\<exists>F. shared_view (sample_pool KND_ALLOC_SHARED) F \<and> F KND_MEMPAGE_TINY \<noteq> []"
  "pc_pages_used (page_class t (sample_pool KND_ALLOC_SHARED)) = 0"
  "mp_type (sample_pool KND_ALLOC_SHARED) = KND_ALLOC_SHARED"
proof -
  let ?s = "sample_pool KND_ALLOC_SHARED"
  obtain p where p: "fresh_classes p" "mp_type p = KND_ALLOC_SHARED" "?s = share_lists (build_lists p)"
    "\<And>u. pc_num_pages (page_class u p) = 2"
    by (rule sample_pool_cases [of KND_ALLOC_SHARED]) simp
  note v = build_lists_view [OF p(1)]
  show used: "pc_pages_used (page_class t ?s) = 0" for t
    using v(4) p(3) by (simp add: share_lists_fields share_list_def fresh_classes_def)
  show "mp_type ?s = KND_ALLOC_SHARED" using v(3) p(2,3) by (simp add: share_lists_fields)
  have same: "as_shared (page_class u ?s) = (page_class u (build_lists p))\<lparr>pc_shared_list := pc_page_list (page_class u (build_lists p))\<rparr>" for u
    using used [of u] sample_shared_used [of u KND_ALLOC_SHARED] p(3)
    by (simp add: share_lists_fields share_list_def as_shared_def)
  have cv: "class_view (build_lists p) u (all_free p (canon u))" for u using v(1) by (simp add: pool_view_def)
  have "class_view (unshare ?s) u (all_free p (canon u))" for u
    unfolding class_view_def page_class_unshare same Let_def
    using cv [of u] p(3) by (simp add: class_view_def Let_def class_ok_def share_lists_fields class_pages_def)
  moreover have "separate (unshare ?s)"
    unfolding separate_def page_class_unshare same
    using v(1) by (simp add: pool_view_def separate_def class_pages_def)
  ultimately have "shared_view ?s (all_free p)" by (simp add: shared_view_def pool_view_def)
  moreover have "all_free p KND_MEMPAGE_TINY \<noteq> []" using p(4) [of KND_MEMPAGE_TINY] by (simp add: all_free_def class_pages_def)
  ultimately show "\<exists>F. shared_view ?s F \<and> F KND_MEMPAGE_TINY \<noteq> []" by blast
qed

text \<open>A page is taken from the shared pool and freed.\<close>

theorem shared_free_lost_witness:
  "\<exists>p s s'. knd_mempool_page (sample_pool KND_ALLOC_SHARED) KND_MEMPAGE_TINY = Inr (p, s) \<and>
    knd_mempool_free s KND_MEMPAGE_TINY p = Inr s' \<and> p \<notin> set (pages_left KND_MEMPAGE_TINY s') \<and>
    unat (pc_pages_used (page_class KND_MEMPAGE_TINY s')) = 2 ^ 64 - 1"
proof -
  let ?s = "sample_pool KND_ALLOC_SHARED"
  obtain F q ps where F: "shared_view ?s F" "F KND_MEMPAGE_TINY = q # ps"
    using sample_shared_view(1) by (metis neq_Nil_conv)
  obtain s where s: "get_shared_page ?s KND_MEMPAGE_TINY = Inr (q, s)" "shared_view s (F(KND_MEMPAGE_TINY := ps))"
    using get_shared_refines [OF F(1), of KND_MEMPAGE_TINY] F(2) by auto
  have v: "class_view (unshare ?s) KND_MEMPAGE_TINY (q # ps)"
    using F by (metis canon.simps shared_view_def pool_view_def)
  have ty: "mp_type s = KND_ALLOC_SHARED" "pc_pages_used (page_class KND_MEMPAGE_TINY s) = 0"
    "class_pages (page_class KND_MEMPAGE_TINY s) = class_pages (page_class KND_MEMPAGE_TINY ?s)"
    using s(1) sample_shared_view(2) [of KND_MEMPAGE_TINY] sample_shared_view(3)
    by (auto simp: get_shared_page_def Let_def class_pages_def split: if_splits)
  have "q \<in> set (class_pages (page_class KND_MEMPAGE_TINY s))" "q \<notin> set ps"
    using v ty(3) by (auto simp: class_view_def Let_def as_shared_def class_pages_def)
  then obtain s' where "knd_mempool_free s KND_MEMPAGE_TINY q = Inr s'" "q \<notin> set (pages_left KND_MEMPAGE_TINY s')"
    "unat (pc_pages_used (page_class KND_MEMPAGE_TINY s')) = 2 ^ 64 - 1"
    using shared_free_lost [OF ty(1) s(2), of q KND_MEMPAGE_TINY] ty(2) by auto
  moreover have "knd_mempool_page ?s KND_MEMPAGE_TINY = Inr (q, s)"
    using s(1) sample_shared_view(3) by (simp add: knd_mempool_page_def)
  ultimately show ?thesis by blast
qed

end
