(* ===== verification/Name_Index.thy ===== *)
theory Name_Index
  imports Prelude
begin

text \<open>
  What the loader of a repository relies on in an index of names, whichever table
  provides it: a name is added once, found afterwards, and refused when it is taken.
\<close>

text \<open>The loader adds the names in order and returns at the first error.\<close>

fun register_all :: "('s \<Rightarrow> byte list \<Rightarrow> 'v \<Rightarrow> failure option \<times> 's) \<Rightarrow> 's \<Rightarrow> (byte list \<times> 'v) list \<Rightarrow> failure option \<times> 's" where
  "register_all insert_name s [] = (None, s)"
| "register_all insert_name s ((k, v) # kvs) =
     then_step (insert_name s k v) (\<lambda>s. register_all insert_name s kvs)"

locale name_index =
  fixes ok :: "'s \<Rightarrow> bool"
    and lookup :: "'s \<Rightarrow> byte list \<Rightarrow> 'v option"
    and insert_name :: "'s \<Rightarrow> byte list \<Rightarrow> 'v \<Rightarrow> failure option \<times> 's"
  assumes insert_taken: "ok s \<Longrightarrow> lookup s k \<noteq> None \<Longrightarrow> insert_name s k v = (Some (Err knd_CONFLICT), s)"
    and insert_added: "ok s \<Longrightarrow> insert_name s k v = (None, s') \<Longrightarrow> ok s' \<and> lookup s' = (lookup s)(k \<mapsto> v)"
    and insert_failed: "ok s \<Longrightarrow> lookup s k = None \<Longrightarrow> insert_name s k v = (Some e, s') \<Longrightarrow>
      e \<noteq> Err knd_CONFLICT \<and> ok s' \<and> lookup s' = lookup s"
begin

lemma register_all_done:
  "ok s \<Longrightarrow> register_all insert_name s kvs = (None, s') \<Longrightarrow>
   ok s' \<and> distinct (map fst kvs) \<and> dom (lookup s) \<inter> fst ` set kvs = {} \<and>
   lookup s' = lookup s ++ map_of kvs"
proof (induction kvs arbitrary: s)
  case Nil
  then show ?case by simp
next
  case (Cons kv kvs)
  obtain k v where kv: "kv = (k, v)" by fastforce
  with Cons.prems(2) obtain s1 where s1: "insert_name s k v = (None, s1)"
    and rest: "register_all insert_name s1 kvs = (None, s')" by (auto simp: then_step_None)
  have free: "lookup s k = None"
  proof (rule ccontr)
    assume "lookup s k \<noteq> None"
    from insert_taken [OF Cons.prems(1) this, of v] s1 show False by simp
  qed
  note add = insert_added [OF Cons.prems(1) s1]
  have IH: "ok s'" "distinct (map fst kvs)" "dom (lookup s1) \<inter> fst ` set kvs = {}"
    "lookup s' = lookup s1 ++ map_of kvs"
    using Cons.IH [OF _ rest] add by blast+
  have "k \<notin> fst ` set kvs" using IH(3) add by auto
  moreover have "map_of kvs k = None" using \<open>k \<notin> fst ` set kvs\<close> by (simp add: map_of_eq_None_iff)
  moreover have "dom (lookup s) \<inter> fst ` set kvs = {}" using IH(3) add by auto
  ultimately show ?case using IH add free kv
    by (auto simp: map_add_def fun_eq_iff split: option.splits)
qed

lemma register_all_conflict:
  "ok s \<Longrightarrow> register_all insert_name s kvs = (Some (Err knd_CONFLICT), s') \<Longrightarrow>
   \<exists>pre k v post. kvs = pre @ (k, v) # post \<and> register_all insert_name s pre = (None, s') \<and>
     k \<in> dom (lookup s')"
proof (induction kvs arbitrary: s)
  case Nil
  then show ?case by simp
next
  case (Cons kv kvs)
  obtain k v where kv: "kv = (k, v)" by fastforce
  show ?case
  proof (cases "fst (insert_name s k v)")
    case None
    then obtain s1 where s1: "insert_name s k v = (None, s1)" by (cases "insert_name s k v") auto
    note add = insert_added [OF Cons.prems(1) s1]
    have rest: "register_all insert_name s1 kvs = (Some (Err knd_CONFLICT), s')"
      using Cons.prems(2) s1 kv by simp
    from Cons.IH [OF conjunct1 [OF add] rest] obtain pre k' v' post where
      IH: "kvs = pre @ (k', v') # post" "register_all insert_name s1 pre = (None, s')" "k' \<in> dom (lookup s')"
      by blast
    then have "kv # kvs = ((k, v) # pre) @ (k', v') # post"
      "register_all insert_name s ((k, v) # pre) = (None, s')" using kv s1 by simp_all
    with IH(3) show ?thesis by blast
  next
    case (Some e)
    then have e: "insert_name s k v = (Some e, s')" "e = Err knd_CONFLICT"
      using Cons.prems(2) kv by (cases "insert_name s k v"; auto)+
    have taken: "lookup s k \<noteq> None" using insert_failed [OF Cons.prems(1) _ e(1)] e(2) by blast
    from insert_taken [OF Cons.prems(1) this, of v] e(1) have "s' = s" by simp
    then show ?thesis using kv taken by (intro exI [of _ "[]"] exI [of _ k] exI [of _ v] exI [of _ kvs]) auto
  qed
qed

end

end
