(* ===== verification/Dict.thy ===== *)
theory Dict
  imports Mempool Name_Index
begin

text \<open>
  The hash tables of \<^verbatim>\<open>src/knd_dict.c\<close>. A chain is the list of its items, newest first:
  the code only ever adds at the head and changes the phase of an item in place. Items
  are pages of a memory pool, which is part of the state. A key is the list of its bytes;
  data is \<open>None\<close> for \<^verbatim>\<open>NULL\<close>.
\<close>

section \<open>State\<close>

datatype knd_dict_item_phase = KND_DICT_VALID | KND_DICT_PENDING | KND_DICT_REMOVED

record 'v kndDictItem =
  di_phase :: knd_dict_item_phase
  di_key :: "byte list"
  di_data :: "'v option"

record 'v kndDict =
  hash_array :: "'v kndDictItem list list"
  dict_size :: size_t
  num_keys :: size_t
  num_items :: size_t

section \<open>Operations\<close>

fun hash_loop :: "size_t \<Rightarrow> byte list \<Rightarrow> size_t" where
  "hash_loop h [] = h"
| "hash_loop h (p # key) = hash_loop (push_bit 1 h XOR scast p) key"

definition knd_dict_hash :: "byte list \<Rightarrow> size_t" where
  "knd_dict_hash key = (if length key = 0 then 0 else hash_loop 0 key)"

text \<open>The chain of a key: \<open>% 0\<close> and an index outside the array are stuck.\<close>

definition dict_slot :: "'v kndDict \<Rightarrow> byte list \<Rightarrow> nat result" where
  "dict_slot self key =
     (if dict_size self = 0 then Inl Stuck
      else
        let h = unat (knd_dict_hash key mod dict_size self)
        in if h < length (hash_array self) then Inr h else Inl Stuck)"

fun find_item :: "byte list \<Rightarrow> 'v kndDictItem list \<Rightarrow> 'v kndDictItem option" where
  "find_item key [] = None"
| "find_item key (item # rest) =
     (if length (di_key item) \<noteq> length key then find_item key rest
      else if di_key item = key then Some item
      else find_item key rest)"

definition knd_dict_get :: "'v kndDict \<Rightarrow> byte list \<Rightarrow> 'v option result" where
  "knd_dict_get self key =
     bind_result (dict_slot self key) (\<lambda>h.
       case find_item key (hash_array self ! h) of
         None \<Rightarrow> Inr None
       | Some item \<Rightarrow> if di_phase item = KND_DICT_REMOVED then Inr None else Inr (di_data item))"

text \<open>An item has 40 bytes; the assertion on the page size is stuck when it fails.\<close>

definition dict_item_new :: "kndMemPool \<Rightarrow> (nat \<times> kndMemPool) result" where
  "dict_item_new mempool =
     (if pc_page_size (mp_tiny mempool) < 40 then Inl Stuck else knd_mempool_page mempool KND_MEMPAGE_TINY)"

type_synonym 'v dict_step = "failure option \<times> 'v kndDict \<times> kndMemPool"

definition knd_dict_set :: "'v kndDict \<Rightarrow> kndMemPool \<Rightarrow> byte list \<Rightarrow> 'v option \<Rightarrow> 'v dict_step" where
  "knd_dict_set self mempool key data =
     (case dict_slot self key of
        Inl e \<Rightarrow> (Some e, self, mempool)
      | Inr h \<Rightarrow>
          let orig_head = hash_array self ! h;
              conflict = (case find_item key orig_head of
                  None \<Rightarrow> False | Some item \<Rightarrow> di_phase item = KND_DICT_VALID)
          in if conflict then (Some (Err knd_CONFLICT), self, mempool)
             else (case dict_item_new mempool of
                 Inl Stuck \<Rightarrow> (Some Stuck, self, mempool)
               | Inl (Err _) \<Rightarrow> (Some (Err knd_NOMEM), self, mempool)
               | Inr (_, mempool) \<Rightarrow>
                   let new_item = \<lparr>di_phase = KND_DICT_VALID, di_key = key, di_data = data\<rparr>
                   in (None, self\<lparr>hash_array := (hash_array self)[h := new_item # orig_head],
                         num_keys := num_keys self + 1, num_items := num_items self + 1\<rparr>, mempool)))"

fun mark_removed :: "byte list \<Rightarrow> 'v kndDictItem list \<Rightarrow> 'v kndDictItem list" where
  "mark_removed key [] = []"
| "mark_removed key (item # rest) =
     (if length (di_key item) \<noteq> length key then item # mark_removed key rest
      else if di_key item = key then item\<lparr>di_phase := KND_DICT_REMOVED\<rparr> # rest
      else item # mark_removed key rest)"

definition knd_dict_remove :: "'v kndDict \<Rightarrow> byte list \<Rightarrow> failure option \<times> 'v kndDict" where
  "knd_dict_remove self key =
     (case dict_slot self key of
        Inl e \<Rightarrow> (Some e, self)
      | Inr h \<Rightarrow>
          let head = hash_array self ! h in
          case find_item key head of
            None \<Rightarrow> (Some (Err knd_FAIL), self)
          | Some _ \<Rightarrow>
              (None, self\<lparr>hash_array := (hash_array self)[h := mark_removed key head],
                 num_keys := num_keys self - 1\<rparr>))"

definition knd_dict_reset :: "'v kndDict \<Rightarrow> 'v kndDict" where
  "knd_dict_reset self = self\<lparr>hash_array := map (\<lambda>_. []) (hash_array self)\<rparr>"

definition knd_dict_new :: "size_t \<Rightarrow> 'v kndDict" where
  "knd_dict_new init_size =
     \<lparr>hash_array = replicate (unat init_size) [], dict_size = init_size, num_keys = 0, num_items = 0\<rparr>"

section \<open>The map a table stands for\<close>

definition dict_ok :: "'v kndDict \<Rightarrow> bool" where
  "dict_ok self \<longleftrightarrow> dict_size self \<noteq> 0 \<and> length (hash_array self) = unat (dict_size self)"

definition slot_of :: "'v kndDict \<Rightarrow> byte list \<Rightarrow> nat" where
  "slot_of self key = unat (knd_dict_hash key mod dict_size self)"

text \<open>\<open>Some data\<close> for a key whose newest item is live.\<close>

definition live_data :: "'v kndDictItem option \<Rightarrow> 'v option option" where
  "live_data found = (case found of None \<Rightarrow> None
     | Some item \<Rightarrow> if di_phase item = KND_DICT_REMOVED then None else Some (di_data item))"

definition dict_map :: "'v kndDict \<Rightarrow> byte list \<Rightarrow> 'v option option" where
  "dict_map self key = live_data (find_item key (hash_array self ! slot_of self key))"

text \<open>No item is pending: plain tables never make one.\<close>

definition dict_settled :: "'v kndDict \<Rightarrow> bool" where
  "dict_settled self \<longleftrightarrow> (\<forall>chain\<in>set (hash_array self). \<forall>item\<in>set chain. di_phase item \<noteq> KND_DICT_PENDING)"

lemma dict_slot_ok: "dict_ok self \<Longrightarrow> dict_slot self key = Inr (slot_of self key)"
  and slot_of_less: "dict_ok self \<Longrightarrow> slot_of self key < length (hash_array self)"
proof -
  assume ok: "dict_ok self"
  then have "0 < unat (dict_size self)" by (simp add: dict_ok_def unat_gt_0)
  then show "slot_of self key < length (hash_array self)"
    using ok by (simp add: slot_of_def unat_mod dict_ok_def)
  then show "dict_slot self key = Inr (slot_of self key)"
    using ok by (simp add: dict_slot_def slot_of_def dict_ok_def Let_def)
qed

lemma find_item_key: "find_item key items = Some item \<Longrightarrow> di_key item = key \<and> item \<in> set items"
  by (induction items) (auto split: if_splits)

lemma find_item_Cons: "find_item key (item # rest) = (if di_key item = key then Some item else find_item key rest)"
  by auto

lemma find_mark_removed:
  "find_item k (mark_removed key items) =
     (if k = key then map_option (\<lambda>item. item\<lparr>di_phase := KND_DICT_REMOVED\<rparr>) (find_item key items)
      else find_item k items)"
  by (induction items) auto

lemma set_mark_removed:
  "item \<in> set (mark_removed key items) \<Longrightarrow> di_phase item = KND_DICT_REMOVED \<or> item \<in> set items"
  by (induction items) (auto split: if_splits)

lemma slot_of_cong: "dict_size self' = dict_size self \<Longrightarrow> slot_of self' key = slot_of self key"
  by (simp add: slot_of_def)

lemma dict_map_update:
  assumes "dict_ok self" and "hash_array self' = (hash_array self)[slot_of self key := chain]"
    and "dict_size self' = dict_size self"
    and "\<And>k. k \<noteq> key \<Longrightarrow> find_item k chain = find_item k (hash_array self ! slot_of self key)"
  shows "dict_map self' = (dict_map self)(key := live_data (find_item key chain))"
proof
  fix k
  have slot: "slot_of self' k = slot_of self k" using assms(3) by (rule slot_of_cong)
  show "dict_map self' k = ((dict_map self)(key := live_data (find_item key chain))) k"
    using assms(4) [of k] slot_of_less [OF assms(1), of key]
    by (simp add: dict_map_def slot assms(2) nth_list_update)
qed

lemma dict_settled_update:
  assumes "dict_settled self" and "dict_ok self"
    and "hash_array self' = (hash_array self)[slot_of self key := chain]"
    and "\<And>item. item \<in> set chain \<Longrightarrow> di_phase item = KND_DICT_PENDING \<Longrightarrow>
      item \<in> set (hash_array self ! slot_of self key)"
  shows "dict_settled self'"
proof -
  have "hash_array self ! slot_of self key \<in> set (hash_array self)" using slot_of_less [OF assms(2)] by simp
  then have "\<forall>item\<in>set chain. di_phase item \<noteq> KND_DICT_PENDING"
    using assms(1,4) unfolding dict_settled_def by blast
  then show ?thesis
    using assms(1) set_update_subset_insert [of "hash_array self" "slot_of self key" chain]
    unfolding dict_settled_def assms(3) by blast
qed

lemma dict_find_live:
  assumes "dict_ok self" and "dict_settled self"
  shows "(case find_item key (hash_array self ! slot_of self key) of
      None \<Rightarrow> False | Some item \<Rightarrow> di_phase item = KND_DICT_VALID) \<longleftrightarrow> dict_map self key \<noteq> None"
proof (cases "find_item key (hash_array self ! slot_of self key)")
  case None
  then show ?thesis by (simp add: dict_map_def live_data_def)
next
  case (Some item)
  have "hash_array self ! slot_of self key \<in> set (hash_array self)" using slot_of_less [OF assms(1)] by simp
  then have "di_phase item \<noteq> KND_DICT_PENDING"
    using find_item_key [OF Some] assms(2) by (auto simp: dict_settled_def)
  then show ?thesis using Some by (cases "di_phase item") (auto simp: dict_map_def live_data_def)
qed

lemma dict_get_map:
  assumes "dict_ok self"
  shows "knd_dict_get self key = Inr (case dict_map self key of None \<Rightarrow> None | Some data \<Rightarrow> data)"
  using dict_slot_ok [OF assms]
  by (simp add: knd_dict_get_def dict_map_def live_data_def split: option.split)

lemma dict_set_cases:
  assumes "dict_ok self" and "dict_settled self"
  obtains "dict_map self key \<noteq> None" "knd_dict_set self mempool key data = (Some (Err knd_CONFLICT), self, mempool)"
  | e where "dict_map self key = None" "dict_item_new mempool = Inl e"
      "knd_dict_set self mempool key data = (Some (if e = Stuck then Stuck else Err knd_NOMEM), self, mempool)"
  | page mempool' self' where "dict_map self key = None" "dict_item_new mempool = Inr (page, mempool')"
      "knd_dict_set self mempool key data = (None, self', mempool')" "dict_ok self'" "dict_settled self'"
      "dict_map self' = (dict_map self)(key := Some data)"
      "num_keys self' = num_keys self + 1" "num_items self' = num_items self + 1" "dict_size self' = dict_size self"
proof (cases "dict_map self key")
  case (Some x)
  then show ?thesis using that(1) dict_find_live [OF assms, of key] dict_slot_ok [OF assms(1)]
    by (simp add: knd_dict_set_def Let_def)
next
  case None
  note live = dict_find_live [OF assms, of key]
  show ?thesis
  proof (cases "dict_item_new mempool")
    case (Inl e)
    then show ?thesis using that(2) [OF None Inl] None live dict_slot_ok [OF assms(1)]
      by (cases e) (simp_all add: knd_dict_set_def Let_def)
  next
    case (Inr r)
    obtain page mempool' where r: "r = (page, mempool')" by fastforce
    define chain where "chain = \<lparr>di_phase = KND_DICT_VALID, di_key = key, di_data = data\<rparr> #
      hash_array self ! slot_of self key"
    define self' where "self' = self\<lparr>hash_array := (hash_array self)[slot_of self key := chain],
      num_keys := num_keys self + 1, num_items := num_items self + 1\<rparr>"
    have "knd_dict_set self mempool key data = (None, self', mempool')"
      using None live dict_slot_ok [OF assms(1)] Inr r
      by (simp add: knd_dict_set_def Let_def self'_def chain_def)
    moreover have "dict_map self' = (dict_map self)(key := live_data (find_item key chain))"
      by (rule dict_map_update [OF assms(1)]) (simp_all add: self'_def chain_def)
    moreover have "dict_settled self'"
      by (rule dict_settled_update [OF assms(2,1), where key = key and chain = chain])
        (auto simp: self'_def chain_def)
    ultimately show ?thesis using that(3) [OF None] Inr r assms(1)
      by (simp add: live_data_def chain_def self'_def dict_ok_def)
  qed
qed

lemma dict_remove_cases:
  assumes "dict_ok self" and "dict_settled self"
  obtains "find_item key (hash_array self ! slot_of self key) = None" "dict_map self key = None"
      "knd_dict_remove self key = (Some (Err knd_FAIL), self)"
  | item self' where "find_item key (hash_array self ! slot_of self key) = Some item"
      "knd_dict_remove self key = (None, self')" "dict_ok self'" "dict_settled self'"
      "dict_map self' = (dict_map self)(key := None)" "num_keys self' = num_keys self - 1"
      "find_item key (hash_array self' ! slot_of self' key) = Some (item\<lparr>di_phase := KND_DICT_REMOVED\<rparr>)"
proof (cases "find_item key (hash_array self ! slot_of self key)")
  case None
  then show ?thesis using that(1) dict_slot_ok [OF assms(1)]
    by (simp add: knd_dict_remove_def dict_map_def live_data_def)
next
  case (Some item)
  define chain where "chain = mark_removed key (hash_array self ! slot_of self key)"
  define self' where "self' = self\<lparr>hash_array := (hash_array self)[slot_of self key := chain],
      num_keys := num_keys self - 1\<rparr>"
  have found: "find_item key chain = Some (item\<lparr>di_phase := KND_DICT_REMOVED\<rparr>)"
    using Some by (simp add: chain_def find_mark_removed)
  have "knd_dict_remove self key = (None, self')"
    using Some dict_slot_ok [OF assms(1)] by (simp add: knd_dict_remove_def self'_def chain_def)
  moreover have "dict_map self' = (dict_map self)(key := live_data (find_item key chain))"
    by (rule dict_map_update [OF assms(1)]) (simp_all add: self'_def chain_def find_mark_removed)
  moreover have "dict_settled self'"
    by (rule dict_settled_update [OF assms(2,1), where key = key and chain = chain])
      (auto simp: self'_def chain_def dest: set_mark_removed)
  moreover have "hash_array self' ! slot_of self' key = chain"
    using slot_of_less [OF assms(1)] slot_of_cong [of self' self key] by (simp add: self'_def)
  ultimately show ?thesis using that(2) [OF Some] assms(1) found
    by (simp add: live_data_def self'_def dict_ok_def)
qed

text \<open>C25: a table behaves as the map from keys to the data of their newest live item: \<open>get\<close> reads it,
  \<open>set\<close> refuses exactly the keys it has and otherwise adds the pair, or fails without effect,
  \<open>remove\<close> takes the key out; all keep the table well formed.\<close>
theorem dict_refines_map:
  assumes "dict_ok self" and "dict_settled self"
  shows "knd_dict_get self key = Inr (case dict_map self key of None \<Rightarrow> None | Some data \<Rightarrow> data) \<and>
    (case knd_dict_set self mempool key data of (err, self', _) \<Rightarrow>
       dict_ok self' \<and> dict_settled self' \<and>
       (err = Some (Err knd_CONFLICT) \<longleftrightarrow> dict_map self key \<noteq> None) \<and>
       (if err = None then dict_map self' = (dict_map self)(key := Some data) else self' = self)) \<and>
    (case knd_dict_remove self key of (err, self') \<Rightarrow>
       dict_ok self' \<and> dict_settled self' \<and>
       (if err = None then dict_map self' = (dict_map self)(key := None)
        else self' = self \<and> dict_map self key = None))"
proof (intro conjI)
  show "knd_dict_get self key = Inr (case dict_map self key of None \<Rightarrow> None | Some data \<Rightarrow> data)"
    by (rule dict_get_map [OF assms(1)])
  show "case knd_dict_set self mempool key data of (err, self', _) \<Rightarrow>
       dict_ok self' \<and> dict_settled self' \<and>
       (err = Some (Err knd_CONFLICT) \<longleftrightarrow> dict_map self key \<noteq> None) \<and>
       (if err = None then dict_map self' = (dict_map self)(key := Some data) else self' = self)"
    by (rule dict_set_cases [OF assms, of key mempool data]) (use assms in auto)
  show "case knd_dict_remove self key of (err, self') \<Rightarrow>
       dict_ok self' \<and> dict_settled self' \<and>
       (if err = None then dict_map self' = (dict_map self)(key := None)
        else self' = self \<and> dict_map self key = None)"
    by (rule dict_remove_cases [OF assms, of key]) (use assms in auto)
qed

definition sample_dict :: "nat kndDict" where
  "sample_dict = (knd_dict_new 2)\<lparr>hash_array := [[\<lparr>di_phase = KND_DICT_VALID, di_key = [66], di_data = Some 7\<rparr>], []],
     num_keys := 1, num_items := 1\<rparr>"

lemma sample_dict_ok: "dict_ok sample_dict" and sample_dict_settled: "dict_settled sample_dict"
  by (simp_all add: sample_dict_def knd_dict_new_def dict_ok_def dict_settled_def)

theorem dict_refines_map_witness:
  "knd_dict_get sample_dict [66] = Inr (case dict_map sample_dict [66] of None \<Rightarrow> None | Some data \<Rightarrow> data) \<and>
    (case knd_dict_set sample_dict (sample_pool KND_ALLOC_INCR) [66] (Some 8) of (err, self', _) \<Rightarrow>
       dict_ok self' \<and> dict_settled self' \<and>
       (err = Some (Err knd_CONFLICT) \<longleftrightarrow> dict_map sample_dict [66] \<noteq> None) \<and>
       (if err = None then dict_map self' = (dict_map sample_dict)([66] := Some (Some 8)) else self' = sample_dict)) \<and>
    (case knd_dict_remove sample_dict [66] of (err, self') \<Rightarrow>
       dict_ok self' \<and> dict_settled self' \<and>
       (if err = None then dict_map self' = (dict_map sample_dict)([66] := None)
        else self' = sample_dict \<and> dict_map sample_dict [66] = None))"
  by (rule dict_refines_map [OF sample_dict_ok sample_dict_settled])

section \<open>The key counter\<close>

lemma finite_dict_map: "dict_ok self \<Longrightarrow> finite (dom (dict_map self))"
proof -
  assume ok: "dict_ok self"
  have "dom (dict_map self) \<subseteq> di_key ` (\<Union>chain\<in>set (hash_array self). set chain)"
  proof
    fix key assume "key \<in> dom (dict_map self)"
    then obtain item where "find_item key (hash_array self ! slot_of self key) = Some item"
      by (auto simp: dict_map_def live_data_def split: option.splits)
    then have "di_key item = key" "item \<in> set (hash_array self ! slot_of self key)"
      using find_item_key by blast+
    moreover have "hash_array self ! slot_of self key \<in> set (hash_array self)" using slot_of_less [OF ok] by simp
    ultimately show "key \<in> di_key ` (\<Union>chain\<in>set (hash_array self). set chain)" by blast
  qed
  then show ?thesis by (rule finite_subset) simp
qed

text \<open>\<open>num_keys\<close> counts the live keys.\<close>

definition keys_counted :: "'v kndDict \<Rightarrow> bool" where
  "keys_counted self \<longleftrightarrow> num_keys self = of_nat (card (dom (dict_map self)))"

text \<open>C26: the counter of keys stays right as long as only live keys are removed; removing a key twice
  succeeds twice and counts one key too few, and a reset forgets the keys but not the count.\<close>
theorem dict_key_counter:
  assumes "dict_ok self" and "dict_settled self" and "keys_counted self"
  shows "(fst (knd_dict_set self mempool key data) = None \<longrightarrow>
      keys_counted (fst (snd (knd_dict_set self mempool key data)))) \<and>
    (dict_map self key \<noteq> None \<longrightarrow> (\<exists>self1 self2. knd_dict_remove self key = (None, self1) \<and> keys_counted self1 \<and>
      knd_dict_remove self1 key = (None, self2) \<and> dict_map self2 = dict_map self1 \<and>
      num_keys self2 = num_keys self1 - 1)) \<and>
    dict_map (knd_dict_reset self) = (\<lambda>_. None) \<and> num_keys (knd_dict_reset self) = num_keys self"
proof (intro conjI impI)
  have fin: "finite (dom (dict_map self))" by (rule finite_dict_map [OF assms(1)])
  show "keys_counted (fst (snd (knd_dict_set self mempool key data)))"
    if "fst (knd_dict_set self mempool key data) = None"
  proof (rule dict_set_cases [OF assms(1,2), of key mempool data])
    fix page mempool' self'
    assume s: "dict_map self key = None" "knd_dict_set self mempool key data = (None, self', mempool')"
      "dict_map self' = (dict_map self)(key := Some data)" "num_keys self' = num_keys self + 1"
    have "key \<notin> dom (dict_map self)" using s(1) by auto
    then show ?thesis using s fin assms(3) by (simp add: keys_counted_def add.commute)
  qed (use that in simp_all)
  show "\<exists>self1 self2. knd_dict_remove self key = (None, self1) \<and> keys_counted self1 \<and>
      knd_dict_remove self1 key = (None, self2) \<and> dict_map self2 = dict_map self1 \<and>
      num_keys self2 = num_keys self1 - 1" if live: "dict_map self key \<noteq> None"
  proof (rule dict_remove_cases [OF assms(1,2), of key])
    fix item self1
    assume r: "knd_dict_remove self key = (None, self1)" "dict_ok self1" "dict_settled self1"
      "dict_map self1 = (dict_map self)(key := None)" "num_keys self1 = num_keys self - 1"
      "find_item key (hash_array self1 ! slot_of self1 key) = Some (item\<lparr>di_phase := KND_DICT_REMOVED\<rparr>)"
    have "key \<in> dom (dict_map self)" using live by auto
    then have "card (dom (dict_map self)) = Suc (card (dom (dict_map self) - {key}))"
      using card_Suc_Diff1 [OF fin] by simp
    then have "of_nat (card (dom (dict_map self))) = of_nat (card (dom (dict_map self) - {key})) + (1 :: size_t)"
      by simp
    then have counted: "keys_counted self1" using r(4,5) assms(3) by (simp add: keys_counted_def)
    show ?thesis
      by (rule dict_remove_cases [OF r(2,3), of key]) (use r counted in auto)
  qed (use live in auto)
  show "dict_map (knd_dict_reset self) = (\<lambda>_. None)"
  proof
    fix k
    have "slot_of (knd_dict_reset self) k = slot_of self k"
      by (rule slot_of_cong) (simp add: knd_dict_reset_def)
    then show "dict_map (knd_dict_reset self) k = None"
      using slot_of_less [OF assms(1), of k]
      by (simp add: dict_map_def knd_dict_reset_def live_data_def)
  qed
  show "num_keys (knd_dict_reset self) = num_keys self" by (simp add: knd_dict_reset_def)
qed

lemma sample_dict_map: "dict_map sample_dict = [[66] \<mapsto> Some 7]"
proof -
  have hit: "slot_of sample_dict [66] = 0"
    by (simp add: slot_of_def sample_dict_def knd_dict_new_def knd_dict_hash_def)
  have "dict_map sample_dict key = (if key = [66] then Some (Some 7) else None)" for key
  proof -
    have "slot_of sample_dict key < 2"
      using slot_of_less [OF sample_dict_ok, of key] by (simp add: sample_dict_def knd_dict_new_def)
    then consider "slot_of sample_dict key = 0" | "slot_of sample_dict key = 1" by linarith
    then show ?thesis
    proof cases
      case 1
      then show ?thesis unfolding dict_map_def 1 by (auto simp: sample_dict_def live_data_def)
    next
      case 2
      then have "key \<noteq> [66]" using hit by auto
      then show ?thesis unfolding dict_map_def 2 by (auto simp: sample_dict_def live_data_def)
    qed
  qed
  then show ?thesis by auto
qed

lemma sample_keys_counted: "keys_counted sample_dict"
  by (simp add: keys_counted_def sample_dict_map) (simp add: sample_dict_def)

theorem dict_key_counter_witness:
  "\<exists>self1 self2. knd_dict_remove sample_dict [66] = (None, self1) \<and> keys_counted self1 \<and>
    knd_dict_remove self1 [66] = (None, self2) \<and> dict_map self2 = dict_map self1 \<and>
    num_keys self2 = num_keys self1 - 1"
  using dict_key_counter [OF sample_dict_ok sample_dict_settled sample_keys_counted, of "sample_pool KND_ALLOC_INCR" "[66]"]
  by (simp add: sample_dict_map)

section \<open>Tables as name indices\<close>

text \<open>A table with its pool, whose data are never \<^verbatim>\<open>NULL\<close>.\<close>

definition dict_index_ok :: "'v kndDict \<times> kndMemPool \<Rightarrow> bool" where
  "dict_index_ok s \<longleftrightarrow> dict_ok (fst s) \<and> dict_settled (fst s) \<and> (\<forall>k. dict_map (fst s) k \<noteq> Some None)"

definition dict_lookup :: "'v kndDict \<times> kndMemPool \<Rightarrow> byte list \<Rightarrow> 'v option" where
  "dict_lookup s key = (case dict_map (fst s) key of None \<Rightarrow> None | Some data \<Rightarrow> data)"

definition dict_insert :: "'v kndDict \<times> kndMemPool \<Rightarrow> byte list \<Rightarrow> 'v \<Rightarrow> failure option \<times> 'v kndDict \<times> kndMemPool" where
  "dict_insert s key v = knd_dict_set (fst s) (snd s) key (Some v)"

lemma dict_lookup_None: "dict_index_ok s \<Longrightarrow> dict_lookup s k = None \<longleftrightarrow> dict_map (fst s) k = None"
  unfolding dict_index_ok_def dict_lookup_def by (metis not_None_eq option.simps(4,5))

interpretation dict_index: name_index dict_index_ok dict_lookup dict_insert
proof
  fix s :: "'v kndDict \<times> kndMemPool" and k v
  assume ok: "dict_index_ok s"
  then have d: "dict_ok (fst s)" "dict_settled (fst s)" by (simp_all add: dict_index_ok_def)
  show "dict_insert s k v = (Some (Err knd_CONFLICT), s)" if "dict_lookup s k \<noteq> None"
    by (rule dict_set_cases [OF d, of k "snd s" "Some v"])
      (use that dict_lookup_None [OF ok] in \<open>auto simp: dict_insert_def\<close>)
  fix e s'
  show "dict_index_ok s' \<and> dict_lookup s' = (dict_lookup s)(k \<mapsto> v)" if "dict_insert s k v = (None, s')"
    by (rule dict_set_cases [OF d, of k "snd s" "Some v"])
      (use that ok in \<open>auto simp: dict_insert_def dict_index_ok_def dict_lookup_def split: if_splits\<close>)
  show "e \<noteq> Err knd_CONFLICT \<and> dict_index_ok s' \<and> dict_lookup s' = dict_lookup s"
    if "dict_lookup s k = None" "dict_insert s k v = (Some e, s')"
    by (rule dict_set_cases [OF d, of k "snd s" "Some v"])
      (use that ok dict_lookup_None [OF ok, of k] in \<open>auto simp: dict_insert_def split: if_splits\<close>)
qed

text \<open>Adding a list of names to a table returns without an error only when the names are new and
  different, and then each is found with its data and the old ones are unchanged; it reports
  a conflict only at a name that the table has or an earlier pair added.\<close>
theorem dict_register_all:
  assumes "dict_index_ok s"
  shows "(\<forall>s'. register_all dict_insert s kvs = (None, s') \<longrightarrow>
      distinct (map fst kvs) \<and> dom (dict_lookup s) \<inter> fst ` set kvs = {} \<and>
      dict_lookup s' = dict_lookup s ++ map_of kvs) \<and>
    (\<forall>s'. register_all dict_insert s kvs = (Some (Err knd_CONFLICT), s') \<longrightarrow>
      (\<exists>pre k v post. kvs = pre @ (k, v) # post \<and> dict_lookup s' = dict_lookup s ++ map_of pre \<and>
        k \<in> dom (dict_lookup s')))"
  using dict_index.register_all_done [OF assms] dict_index.register_all_conflict [OF assms] by meson

lemma sample_index_ok: "dict_index_ok (sample_dict, sample_pool KND_ALLOC_INCR)"
proof -
  have "find_item k (hash_array sample_dict ! slot_of sample_dict k) = Some item \<Longrightarrow> di_data item \<noteq> None" for k item
  proof -
    assume f: "find_item k (hash_array sample_dict ! slot_of sample_dict k) = Some item"
    have "hash_array sample_dict ! slot_of sample_dict k \<in> set (hash_array sample_dict)"
      using slot_of_less [OF sample_dict_ok] by simp
    then show "di_data item \<noteq> None" using find_item_key [OF f] by (auto simp: sample_dict_def)
  qed
  then have "dict_map sample_dict k \<noteq> Some None" for k
    by (auto simp: dict_map_def live_data_def split: option.splits)
  then show ?thesis using sample_dict_ok sample_dict_settled by (simp add: dict_index_ok_def)
qed

theorem dict_register_all_witness:
  "(\<forall>s'. register_all dict_insert (sample_dict, sample_pool KND_ALLOC_INCR) [([67], 1), ([68], 2)] = (None, s') \<longrightarrow>
      distinct (map fst [([67 :: byte], 1 :: nat), ([68], 2)]) \<and>
      dom (dict_lookup (sample_dict, sample_pool KND_ALLOC_INCR)) \<inter> fst ` set [([67], 1 :: nat), ([68], 2)] = {} \<and>
      dict_lookup s' = dict_lookup (sample_dict, sample_pool KND_ALLOC_INCR) ++ map_of [([67], 1), ([68], 2)]) \<and>
    (\<forall>s'. register_all dict_insert (sample_dict, sample_pool KND_ALLOC_INCR) [([67], 1), ([68], 2)] =
        (Some (Err knd_CONFLICT), s') \<longrightarrow>
      (\<exists>pre k v post. [([67], 1), ([68], 2)] = pre @ (k, v) # post \<and>
        dict_lookup s' = dict_lookup (sample_dict, sample_pool KND_ALLOC_INCR) ++ map_of pre \<and> k \<in> dom (dict_lookup s')))"
  by (rule dict_register_all [OF sample_index_ok])

end
