(* ===== verification/Shared_Dict.thy ===== *)
theory Shared_Dict
  imports Mempool Name_Index Dict
begin

text \<open>
  The lock-free hash tables of \<^verbatim>\<open>src/knd_shared_dict.c\<close>: first each operation run by one
  thread, then the operations of many threads on one chain, one atomic access at a time.
  An item is known by its address; \<open>sd_states\<close> lists the commits of its state list.
\<close>

section \<open>State\<close>

datatype knd_shared_dict_item_phase = KND_SHARED_DICT_VALID | KND_SHARED_DICT_PENDING | KND_SHARED_DICT_REMOVED

record ('v, 'c) kndSharedDictItem =
  sd_addr :: nat
  sd_phase :: knd_shared_dict_item_phase
  sd_key :: "byte list"
  sd_data :: "'v option"
  sd_states :: "'c list"

record ('v, 'c) kndSharedDict =
  sd_hash_array :: "('v, 'c) kndSharedDictItem list list"
  sd_size :: size_t
  sd_num_items :: size_t

section \<open>Operations of one thread\<close>

definition shared_slot :: "('v, 'c) kndSharedDict \<Rightarrow> byte list \<Rightarrow> nat result" where
  "shared_slot self key =
     (if sd_size self = 0 then Inl Stuck
      else
        let h = unat (knd_dict_hash key mod sd_size self)
        in if h < length (sd_hash_array self) then Inr h else Inl Stuck)"

fun find_shared :: "byte list \<Rightarrow> ('v, 'c) kndSharedDictItem list \<Rightarrow> ('v, 'c) kndSharedDictItem option" where
  "find_shared key [] = None"
| "find_shared key (item # rest) =
     (if length (sd_key item) \<noteq> length key then find_shared key rest
      else if sd_key item = key then Some item
      else find_shared key rest)"

definition knd_shared_dict_get :: "('v, 'c) kndSharedDict \<Rightarrow> byte list \<Rightarrow> 'v option result" where
  "knd_shared_dict_get self key =
     (if length key = 0 then Inl Stuck
      else bind_result (shared_slot self key) (\<lambda>h.
        case find_shared key (sd_hash_array self ! h) of
          None \<Rightarrow> Inr None
        | Some item \<Rightarrow> if sd_phase item = KND_SHARED_DICT_REMOVED then Inr None else Inr (sd_data item)))"

text \<open>An item has 48 bytes and a state 64; the pages are tiny ones.\<close>

definition shared_item_new :: "kndMemPool \<Rightarrow> (nat \<times> kndMemPool) result" where
  "shared_item_new mempool =
     (if pc_page_size (mp_tiny mempool) < 48 then Inl Stuck else knd_mempool_page mempool KND_MEMPAGE_TINY)"

definition knd_state_new :: "kndMemPool \<Rightarrow> (nat \<times> kndMemPool) result" where
  "knd_state_new mempool =
     (if pc_page_size (mp_tiny mempool) < 64 then Inl Stuck else knd_mempool_page mempool KND_MEMPAGE_TINY)"

text \<open>
  The part of \<open>set\<close> before the exchange: the new item, valid without a commit, pending with
  a state of the commit. The pool keeps the pages taken when a later step fails.
\<close>

definition make_item ::
  "kndMemPool \<Rightarrow> byte list \<Rightarrow> 'v option \<Rightarrow> 'c option \<Rightarrow> ('v, 'c) kndSharedDictItem result \<times> kndMemPool" where
  "make_item mempool key data commit =
     (case shared_item_new mempool of
        Inl Stuck \<Rightarrow> (Inl Stuck, mempool)
      | Inl (Err _) \<Rightarrow> (Inl (Err knd_NOMEM), mempool)
      | Inr (page, mempool) \<Rightarrow>
          (case commit of
             None \<Rightarrow>
               (Inr \<lparr>sd_addr = page, sd_phase = KND_SHARED_DICT_VALID, sd_key = key, sd_data = data, sd_states = []\<rparr>,
                mempool)
           | Some commit \<Rightarrow>
               (case knd_state_new mempool of
                  Inl e \<Rightarrow> (Inl e, mempool)
                | Inr (_, mempool) \<Rightarrow>
                    (Inr \<lparr>sd_addr = page, sd_phase = KND_SHARED_DICT_PENDING, sd_key = key, sd_data = data,
                       sd_states = [commit]\<rparr>, mempool))))"

text \<open>The result is the error, the item stored to \<^verbatim>\<open>*result\<close> (only with a commit), and the state.\<close>

type_synonym ('v, 'c) shared_set_result =
  "failure option \<times> ('v, 'c) kndSharedDictItem option \<times> ('v, 'c) kndSharedDict \<times> kndMemPool"

definition knd_shared_dict_set ::
  "('v, 'c) kndSharedDict \<Rightarrow> byte list \<Rightarrow> 'v option \<Rightarrow> kndMemPool \<Rightarrow> 'c option \<Rightarrow> bool \<Rightarrow> ('v, 'c) shared_set_result" where
  "knd_shared_dict_set self key data mempool commit allow_overwrite =
     (case shared_slot self key of
        Inl e \<Rightarrow> (Some e, None, self, mempool)
      | Inr h \<Rightarrow>
          let orig_head = sd_hash_array self ! h;
              conflict = (case find_shared key orig_head of
                  None \<Rightarrow> False
                | Some item \<Rightarrow> \<not> allow_overwrite \<and> sd_phase item = KND_SHARED_DICT_VALID)
          in if conflict then (Some (Err knd_CONFLICT), None, self, mempool)
             else (case make_item mempool key data commit of
                 (Inl e, mempool) \<Rightarrow> (Some e, None, self, mempool)
               | (Inr new_item, mempool) \<Rightarrow>
                   (None, if commit = None then None else Some new_item,
                    self\<lparr>sd_hash_array := (sd_hash_array self)[h := new_item # orig_head],
                      sd_num_items := sd_num_items self + 1\<rparr>, mempool)))"

fun mark_shared_removed :: "byte list \<Rightarrow> ('v, 'c) kndSharedDictItem list \<Rightarrow> ('v, 'c) kndSharedDictItem list" where
  "mark_shared_removed key [] = []"
| "mark_shared_removed key (item # rest) =
     (if length (sd_key item) \<noteq> length key then item # mark_shared_removed key rest
      else if sd_key item = key then item\<lparr>sd_phase := KND_SHARED_DICT_REMOVED\<rparr> # rest
      else item # mark_shared_removed key rest)"

definition knd_shared_dict_remove :: "('v, 'c) kndSharedDict \<Rightarrow> byte list \<Rightarrow> failure option \<times> ('v, 'c) kndSharedDict" where
  "knd_shared_dict_remove self key =
     (case shared_slot self key of
        Inl e \<Rightarrow> (Some e, self)
      | Inr h \<Rightarrow>
          let head = sd_hash_array self ! h in
          case find_shared key head of
            None \<Rightarrow> (Some (Err knd_FAIL), self)
          | Some _ \<Rightarrow> (None, self\<lparr>sd_hash_array := (sd_hash_array self)[h := mark_shared_removed key head]\<rparr>))"

definition knd_shared_dict_new :: "size_t \<Rightarrow> ('v, 'c) kndSharedDict" where
  "knd_shared_dict_new init_size =
     \<lparr>sd_hash_array = replicate (unat init_size) [], sd_size = init_size, sd_num_items = 0\<rparr>"

text \<open>A caller that gets the item it has set with a commit may make it valid.\<close>

definition validate_item ::
  "('v, 'c) kndSharedDictItem option \<Rightarrow> ('v, 'c) kndSharedDict \<Rightarrow> ('v, 'c) kndSharedDict" where
  "validate_item item self =
     (case item of
        None \<Rightarrow> self
      | Some i \<Rightarrow> self\<lparr>sd_hash_array := map (map (\<lambda>x.
          if sd_addr x = sd_addr i then x\<lparr>sd_phase := KND_SHARED_DICT_VALID\<rparr> else x)) (sd_hash_array self)\<rparr>)"

section \<open>The map a table stands for\<close>

definition shared_ok :: "('v, 'c) kndSharedDict \<Rightarrow> bool" where
  "shared_ok self \<longleftrightarrow> sd_size self \<noteq> 0 \<and> length (sd_hash_array self) = unat (sd_size self)"

definition shared_index :: "('v, 'c) kndSharedDict \<Rightarrow> byte list \<Rightarrow> nat" where
  "shared_index self key = unat (knd_dict_hash key mod sd_size self)"

definition shared_found :: "('v, 'c) kndSharedDict \<Rightarrow> byte list \<Rightarrow> ('v, 'c) kndSharedDictItem option" where
  "shared_found self key = find_shared key (sd_hash_array self ! shared_index self key)"

definition live_shared :: "('v, 'c) kndSharedDictItem option \<Rightarrow> 'v option option" where
  "live_shared found = (case found of None \<Rightarrow> None
     | Some item \<Rightarrow> if sd_phase item = KND_SHARED_DICT_REMOVED then None else Some (sd_data item))"

definition shared_map :: "('v, 'c) kndSharedDict \<Rightarrow> byte list \<Rightarrow> 'v option option" where
  "shared_map self key = live_shared (shared_found self key)"

lemma shared_index_less: "shared_ok self \<Longrightarrow> shared_index self key < length (sd_hash_array self)"
  and shared_slot_ok: "shared_ok self \<Longrightarrow> shared_slot self key = Inr (shared_index self key)"
proof -
  assume ok: "shared_ok self"
  then have "0 < unat (sd_size self)" by (simp add: shared_ok_def unat_gt_0)
  then show "shared_index self key < length (sd_hash_array self)"
    using ok by (simp add: shared_index_def unat_mod shared_ok_def)
  then show "shared_slot self key = Inr (shared_index self key)"
    using ok by (simp add: shared_slot_def shared_index_def shared_ok_def Let_def)
qed

lemma find_shared_key: "find_shared key items = Some item \<Longrightarrow> sd_key item = key \<and> item \<in> set items"
  by (induction items) (auto split: if_splits)

lemma find_shared_None: "find_shared key items = None \<longleftrightarrow> (\<forall>item\<in>set items. sd_key item \<noteq> key)"
  by (induction items) auto

lemma find_mark_shared:
  "find_shared k (mark_shared_removed key items) =
     (if k = key then map_option (\<lambda>item. item\<lparr>sd_phase := KND_SHARED_DICT_REMOVED\<rparr>) (find_shared key items)
      else find_shared k items)"
  by (induction items) auto

text \<open>Replacing the chain of a key changes what is found for that key only, when the new chain
  finds the other keys as before.\<close>

lemma shared_found_update:
  assumes "shared_ok self" and "sd_hash_array self' = (sd_hash_array self)[shared_index self key := chain]"
    and "sd_size self' = sd_size self"
    and "\<And>k. k \<noteq> key \<Longrightarrow> find_shared k chain = find_shared k (sd_hash_array self ! shared_index self key)"
  shows "shared_found self' = (shared_found self)(key := find_shared key chain)"
proof
  fix k
  have idx: "shared_index self' k = shared_index self k" using assms(3) by (simp add: shared_index_def)
  show "shared_found self' k = ((shared_found self)(key := find_shared key chain)) k"
    using assms(4) [of k] shared_index_less [OF assms(1), of key]
    by (simp add: shared_found_def idx assms(2) nth_list_update)
qed

lemma shared_set_cases:
  assumes "shared_ok self"
  obtains item where "shared_found self key = Some item" "sd_phase item = KND_SHARED_DICT_VALID" "\<not> allow_overwrite"
      "knd_shared_dict_set self key data mempool commit allow_overwrite = (Some (Err knd_CONFLICT), None, self, mempool)"
  | e mempool' where "\<not> (\<exists>item. shared_found self key = Some item \<and> sd_phase item = KND_SHARED_DICT_VALID) \<or> allow_overwrite"
      "make_item mempool key data commit = (Inl e, mempool')"
      "knd_shared_dict_set self key data mempool commit allow_overwrite = (Some e, None, self, mempool')"
  | item mempool' self' where
      "\<not> (\<exists>item. shared_found self key = Some item \<and> sd_phase item = KND_SHARED_DICT_VALID) \<or> allow_overwrite"
      "make_item mempool key data commit = (Inr item, mempool')"
      "knd_shared_dict_set self key data mempool commit allow_overwrite =
        (None, if commit = None then None else Some item, self', mempool')"
      "shared_ok self'" "shared_found self' = (shared_found self)(key \<mapsto> item)"
      "sd_key item = key" "sd_data item = data"
      "sd_phase item = (if commit = None then KND_SHARED_DICT_VALID else KND_SHARED_DICT_PENDING)"
proof (cases "\<exists>item. shared_found self key = Some item \<and> sd_phase item = KND_SHARED_DICT_VALID \<and> \<not> allow_overwrite")
  case True
  then show ?thesis using that(1) shared_slot_ok [OF assms]
    by (auto simp: knd_shared_dict_set_def Let_def shared_found_def)
next
  case False
  then have free: "\<not> (\<exists>item. shared_found self key = Some item \<and> sd_phase item = KND_SHARED_DICT_VALID) \<or> allow_overwrite"
    by blast
  have no: "\<not> (case shared_found self key of None \<Rightarrow> False
      | Some item \<Rightarrow> \<not> allow_overwrite \<and> sd_phase item = KND_SHARED_DICT_VALID)"
    using False by (auto split: option.splits)
  obtain r mempool' where m: "make_item mempool key data commit = (r, mempool')" by fastforce
  show ?thesis
  proof (cases r)
    case (Inl e)
    then show ?thesis using that(2) [OF free] m no shared_slot_ok [OF assms]
      by (simp add: knd_shared_dict_set_def Let_def shared_found_def)
  next
    case (Inr item)
    have item: "sd_key item = key" "sd_data item = data"
      "sd_phase item = (if commit = None then KND_SHARED_DICT_VALID else KND_SHARED_DICT_PENDING)"
      using m Inr by (auto simp: make_item_def split: sum.splits failure.splits option.splits)
    define chain where "chain = item # sd_hash_array self ! shared_index self key"
    define self' where "self' = self\<lparr>sd_hash_array := (sd_hash_array self)[shared_index self key := chain],
      sd_num_items := sd_num_items self + 1\<rparr>"
    have "knd_shared_dict_set self key data mempool commit allow_overwrite =
        (None, if commit = None then None else Some item, self', mempool')"
      using m no Inr shared_slot_ok [OF assms]
      by (simp add: knd_shared_dict_set_def Let_def shared_found_def self'_def chain_def)
    moreover have "shared_found self' = (shared_found self)(key := find_shared key chain)"
      by (rule shared_found_update [OF assms]) (use item in \<open>simp_all add: self'_def chain_def\<close>)
    ultimately show ?thesis using that(3) [OF free] m Inr assms item
      by (simp add: chain_def self'_def shared_ok_def)
  qed
qed

lemma make_item_no_conflict: "make_item mempool key data commit = (Inl e, mempool') \<Longrightarrow> e \<noteq> Err knd_CONFLICT"
  by (auto simp: make_item_def knd_state_new_def knd_mempool_page_def get_page_def get_shared_page_def
      incr_page_def Let_def split: sum.splits failure.splits option.splits if_splits knd_mempool_type.splits)

text \<open>C27: a shared table run by one thread is the map from keys to the data of their newest item that
  is not removed. Without overwriting, \<open>set\<close> refuses a key only when its newest item is
  valid: an item that another commit left pending does not stop it.\<close>
theorem shared_dict_refines_map:
  assumes "shared_ok self" and "key \<noteq> []"
  shows "knd_shared_dict_get self key = Inr (case shared_map self key of None \<Rightarrow> None | Some data \<Rightarrow> data) \<and>
    (case knd_shared_dict_set self key data mempool commit allow_overwrite of (err, stored, self', _) \<Rightarrow>
       shared_ok self' \<and>
       (err = Some (Err knd_CONFLICT) \<longrightarrow> \<not> allow_overwrite \<and> shared_map self key \<noteq> None) \<and>
       (\<not> allow_overwrite \<and> (\<exists>item. shared_found self key = Some item \<and> sd_phase item = KND_SHARED_DICT_VALID) \<longrightarrow>
          err = Some (Err knd_CONFLICT)) \<and>
       (if err = None then shared_map self' = (shared_map self)(key := Some data) \<and> (stored = None \<longleftrightarrow> commit = None)
        else self' = self)) \<and>
    (case knd_shared_dict_remove self key of (err, self') \<Rightarrow>
       shared_ok self' \<and>
       (if err = None then shared_map self' = (shared_map self)(key := None)
        else self' = self \<and> shared_map self key = None))"
proof (intro conjI)
  show "knd_shared_dict_get self key = Inr (case shared_map self key of None \<Rightarrow> None | Some data \<Rightarrow> data)"
    using shared_slot_ok [OF assms(1)] assms(2)
    by (simp add: knd_shared_dict_get_def shared_map_def live_shared_def shared_found_def split: option.split)
  show "case knd_shared_dict_set self key data mempool commit allow_overwrite of (err, stored, self', _) \<Rightarrow>
       shared_ok self' \<and>
       (err = Some (Err knd_CONFLICT) \<longrightarrow> \<not> allow_overwrite \<and> shared_map self key \<noteq> None) \<and>
       (\<not> allow_overwrite \<and> (\<exists>item. shared_found self key = Some item \<and> sd_phase item = KND_SHARED_DICT_VALID) \<longrightarrow>
          err = Some (Err knd_CONFLICT)) \<and>
       (if err = None then shared_map self' = (shared_map self)(key := Some data) \<and> (stored = None \<longleftrightarrow> commit = None)
        else self' = self)"
  proof (rule shared_set_cases [OF assms(1), of key allow_overwrite data mempool commit], goal_cases)
    case (1 item)
    then show ?thesis using assms by (auto simp: shared_map_def live_shared_def)
  next
    case (2 e mempool')
    have "e \<noteq> Err knd_CONFLICT" using 2(2) by (rule make_item_no_conflict)
    then show ?thesis using 2 assms by auto
  next
    case (3 item mempool' self')
    then show ?thesis using assms by (auto simp: shared_map_def live_shared_def fun_eq_iff)
  qed
  show "case knd_shared_dict_remove self key of (err, self') \<Rightarrow>
       shared_ok self' \<and>
       (if err = None then shared_map self' = (shared_map self)(key := None)
        else self' = self \<and> shared_map self key = None)"
  proof (cases "shared_found self key")
    case None
    then show ?thesis using shared_slot_ok [OF assms(1)] assms(1)
      by (simp add: knd_shared_dict_remove_def shared_map_def live_shared_def shared_found_def)
  next
    case (Some item)
    define chain where "chain = mark_shared_removed key (sd_hash_array self ! shared_index self key)"
    define self' where "self' = self\<lparr>sd_hash_array := (sd_hash_array self)[shared_index self key := chain]\<rparr>"
    have r: "knd_shared_dict_remove self key = (None, self')"
      using Some shared_slot_ok [OF assms(1)]
      by (simp add: knd_shared_dict_remove_def self'_def chain_def shared_found_def)
    have "shared_found self' = (shared_found self)(key := find_shared key chain)"
      by (rule shared_found_update [OF assms(1)]) (simp_all add: self'_def chain_def find_mark_shared)
    then have "shared_map self' = (shared_map self)(key := None)"
      using Some by (auto simp: shared_map_def live_shared_def chain_def find_mark_shared shared_found_def fun_eq_iff)
    then show ?thesis using r assms(1) by (simp add: self'_def shared_ok_def)
  qed
qed

definition sample_shared :: "(nat, nat) kndSharedDict" where
  "sample_shared = (knd_shared_dict_new 1)\<lparr>sd_hash_array :=
     [[\<lparr>sd_addr = 4, sd_phase = KND_SHARED_DICT_VALID, sd_key = [66], sd_data = Some 7, sd_states = []\<rparr>]],
     sd_num_items := 1\<rparr>"

lemma sample_shared_ok: "shared_ok sample_shared"
  by (simp add: sample_shared_def knd_shared_dict_new_def shared_ok_def)

theorem shared_dict_refines_map_witness:
  "knd_shared_dict_get sample_shared [66] =
      Inr (case shared_map sample_shared [66] of None \<Rightarrow> None | Some data \<Rightarrow> data) \<and>
    (case knd_shared_dict_set sample_shared [66] None (sample_pool KND_ALLOC_INCR) (Some 3) False of
       (err, stored, self', _) \<Rightarrow>
       shared_ok self' \<and>
       (err = Some (Err knd_CONFLICT) \<longrightarrow> \<not> False \<and> shared_map sample_shared [66] \<noteq> None) \<and>
       (\<not> False \<and> (\<exists>item. shared_found sample_shared [66] = Some item \<and> sd_phase item = KND_SHARED_DICT_VALID) \<longrightarrow>
          err = Some (Err knd_CONFLICT)) \<and>
       (if err = None then shared_map self' = (shared_map sample_shared)([66] := Some None) \<and>
          (stored = None \<longleftrightarrow> Some (3 :: nat) = None)
        else self' = sample_shared)) \<and>
    (case knd_shared_dict_remove sample_shared [66] of (err, self') \<Rightarrow>
       shared_ok self' \<and>
       (if err = None then shared_map self' = (shared_map sample_shared)([66] := None)
        else self' = sample_shared \<and> shared_map sample_shared [66] = None))"
  by (rule shared_dict_refines_map [OF sample_shared_ok]) simp

section \<open>Shared tables as name indices\<close>

text \<open>Without commits every item is valid or removed, and the data are never \<^verbatim>\<open>NULL\<close>.\<close>

definition shared_index_ok :: "('v, 'c) kndSharedDict \<times> kndMemPool \<Rightarrow> bool" where
  "shared_index_ok s \<longleftrightarrow> shared_ok (fst s) \<and>
     (\<forall>k item. shared_found (fst s) k = Some item \<longrightarrow>
        sd_phase item \<noteq> KND_SHARED_DICT_PENDING \<and> sd_data item \<noteq> None)"

definition shared_lookup :: "('v, 'c) kndSharedDict \<times> kndMemPool \<Rightarrow> byte list \<Rightarrow> 'v option" where
  "shared_lookup s key = (case shared_map (fst s) key of None \<Rightarrow> None | Some data \<Rightarrow> data)"

definition shared_insert ::
  "('v, 'c) kndSharedDict \<times> kndMemPool \<Rightarrow> byte list \<Rightarrow> 'v \<Rightarrow> failure option \<times> ('v, 'c) kndSharedDict \<times> kndMemPool" where
  "shared_insert s key v =
     (case knd_shared_dict_set (fst s) key (Some v) (snd s) None False of (err, _, self, mempool) \<Rightarrow> (err, self, mempool))"

lemma shared_lookup_None:
  "shared_index_ok s \<Longrightarrow> shared_lookup s k = None \<longleftrightarrow>
     \<not> (\<exists>item. shared_found (fst s) k = Some item \<and> sd_phase item = KND_SHARED_DICT_VALID)"
proof -
  assume ok: "shared_index_ok s"
  show ?thesis
  proof (cases "shared_found (fst s) k")
    case None
    then show ?thesis by (simp add: shared_lookup_def shared_map_def live_shared_def)
  next
    case (Some item)
    then have "sd_phase item \<noteq> KND_SHARED_DICT_PENDING" "sd_data item \<noteq> None"
      using ok by (auto simp: shared_index_ok_def)
    then show ?thesis using Some
      by (cases "sd_phase item") (simp_all add: shared_lookup_def shared_map_def live_shared_def)
  qed
qed

interpretation shared_index: name_index shared_index_ok shared_lookup shared_insert
proof
  fix s :: "('v, 'c) kndSharedDict \<times> kndMemPool" and k v e s'
  assume ok: "shared_index_ok s"
  then have d: "shared_ok (fst s)" by (simp add: shared_index_ok_def)
  note cases = shared_set_cases [OF d, of k False "Some v" "snd s" None]
  show "shared_insert s k v = (Some (Err knd_CONFLICT), s)" if "shared_lookup s k \<noteq> None"
    by (rule cases) (use that shared_lookup_None [OF ok] in \<open>auto simp: shared_insert_def\<close>)
  show "shared_index_ok s' \<and> shared_lookup s' = (shared_lookup s)(k \<mapsto> v)" if ins: "shared_insert s k v = (None, s')"
  proof (rule cases, goal_cases)
    case (3 item mempool' self')
    then have s': "fst s' = self'" using ins by (auto simp: shared_insert_def)
    have "shared_lookup s' = (shared_lookup s)(k \<mapsto> v)"
      using 3(5,7,8) by (intro ext) (simp add: shared_lookup_def shared_map_def live_shared_def s')
    moreover have "shared_index_ok s'"
      using ok 3(4,5,7,8) by (simp add: shared_index_ok_def s')
    ultimately show ?thesis by simp
  qed (use ins in \<open>auto simp: shared_insert_def\<close>)
  show "e \<noteq> Err knd_CONFLICT \<and> shared_index_ok s' \<and> shared_lookup s' = shared_lookup s"
    if "shared_lookup s k = None" "shared_insert s k v = (Some e, s')"
    by (rule cases)
      (use that ok shared_lookup_None [OF ok, of k] in
        \<open>auto simp: shared_insert_def shared_index_ok_def shared_lookup_def dest: make_item_no_conflict\<close>)
qed

end
