(* ===== verification/Shared_Dict_Threads.thy ===== *)
theory Shared_Dict_Threads
  imports Shared_Dict "HOL-Library.Sublist"
begin

text \<open>
  One chain of a shared table of \<^verbatim>\<open>src/knd_shared_dict.c\<close> under any number of threads that
  set (with or without a commit, never overwriting) and remove keys. Keys and links of
  an item never change once it is published, so a scan of a chain is one step; each access
  to the head and to a phase is a step of its own, and the steps are interleaved as if memory
  was sequentially consistent. The caller gets the item it has set with a commit and may make
  it valid afterwards, as \<^verbatim>\<open>knd_class_inst_update_indices\<close> does with the names of instances
  (\<^verbatim>\<open>src/knd_class_inst.index.c\<close>), or leave it pending, as \<^verbatim>\<open>src/knd_repo.commit.c\<close> does with
  the names of classes and procedures. Commits are known by numbers.
\<close>

section \<open>The steps\<close>

text \<open>
  \<open>Looked\<close>: the head was loaded. \<open>Made\<close>: no conflict was found and the item allocated.
  \<open>Rechecked\<close>: the head was loaded again and the newer items have other keys.
  \<open>Published\<close>: the item is in the chain and was given to the caller with its commit.
  \<open>Removing\<close>: the item to be removed was found. A thread without pages for an item goes back to \<open>Idle\<close>.
\<close>

datatype set_pc = Idle
  | Looked "byte list" "nat option" "nat list"
  | Made "byte list" nat "nat list"
  | Rechecked "byte list" nat "nat list" "nat list"
  | Published nat
  | Removing nat

record chain_state =
  ch_items :: "nat list"
  ch_key :: "nat \<Rightarrow> byte list"
  ch_phase :: "nat \<Rightarrow> knd_shared_dict_item_phase"
  ch_commit :: "nat \<Rightarrow> nat option"
  ch_used :: "nat set"
  ch_pc :: "nat \<Rightarrow> set_pc"

fun first_with :: "(nat \<Rightarrow> byte list) \<Rightarrow> byte list \<Rightarrow> nat list \<Rightarrow> nat option" where
  "first_with key_of key [] = None"
| "first_with key_of key (a # rest) = (if key_of a = key then Some a else first_with key_of key rest)"

text \<open>The scan of the newer items stops at the head seen first.\<close>

fun newer_items :: "nat list \<Rightarrow> nat list \<Rightarrow> nat list" where
  "newer_items orig [] = []"
| "newer_items orig (a # rest) =
     (if orig \<noteq> [] \<and> a = hd orig then [] else a # newer_items orig rest)"

fun same_head :: "nat list \<Rightarrow> nat list \<Rightarrow> bool" where
  "same_head [] [] = True"
| "same_head (a # _) (b # _) = (a = b)"
| "same_head _ _ = False"

inductive chain_step :: "chain_state \<Rightarrow> chain_state \<Rightarrow> bool" where
  set_look: "ch_pc s t = Idle \<Longrightarrow>
    chain_step s (s\<lparr>ch_pc := (ch_pc s)(t := Looked k commit (ch_items s))\<rparr>)"
| set_conflict: "ch_pc s t = Looked k commit orig \<Longrightarrow> first_with (ch_key s) k orig = Some a \<Longrightarrow>
    ch_phase s a = KND_SHARED_DICT_VALID \<Longrightarrow>
    chain_step s (s\<lparr>ch_pc := (ch_pc s)(t := Idle)\<rparr>)"
| set_nomem: "ch_pc s t = Looked k commit orig \<Longrightarrow>
    chain_step s (s\<lparr>ch_pc := (ch_pc s)(t := Idle)\<rparr>)"
| set_make: "ch_pc s t = Looked k commit orig \<Longrightarrow>
    (\<forall>a. first_with (ch_key s) k orig = Some a \<longrightarrow> ch_phase s a \<noteq> KND_SHARED_DICT_VALID) \<Longrightarrow>
    item \<notin> ch_used s \<Longrightarrow>
    chain_step s (s\<lparr>ch_used := insert item (ch_used s), ch_key := (ch_key s)(item := k),
      ch_phase := (ch_phase s)(item := if commit = None then KND_SHARED_DICT_VALID else KND_SHARED_DICT_PENDING),
      ch_commit := (ch_commit s)(item := commit),
      ch_pc := (ch_pc s)(t := Made k item orig)\<rparr>)"
| set_recheck: "ch_pc s t = Made k item orig \<Longrightarrow>
    first_with (ch_key s) k (newer_items orig (ch_items s)) = None \<Longrightarrow>
    chain_step s (s\<lparr>ch_pc := (ch_pc s)(t := Rechecked k item orig (ch_items s))\<rparr>)"
| set_late_conflict: "ch_pc s t = Made k item orig \<Longrightarrow>
    first_with (ch_key s) k (newer_items orig (ch_items s)) \<noteq> None \<Longrightarrow>
    chain_step s (s\<lparr>ch_pc := (ch_pc s)(t := Idle)\<rparr>)"
| set_publish: "ch_pc s t = Rechecked k item orig head \<Longrightarrow> same_head (ch_items s) head \<Longrightarrow>
    chain_step s (s\<lparr>ch_items := item # head,
      ch_pc := (ch_pc s)(t := if ch_commit s item = None then Idle else Published item)\<rparr>)"
| promote: "ch_pc s t = Published item \<Longrightarrow>
    chain_step s (s\<lparr>ch_phase := (ch_phase s)(item := KND_SHARED_DICT_VALID), ch_pc := (ch_pc s)(t := Idle)\<rparr>)"
| keep_pending: "ch_pc s t = Published item \<Longrightarrow>
    chain_step s (s\<lparr>ch_pc := (ch_pc s)(t := Idle)\<rparr>)"
| set_retry: "ch_pc s t = Rechecked k item orig head \<Longrightarrow>
    chain_step s (s\<lparr>ch_pc := (ch_pc s)(t := Made k item orig)\<rparr>)"
| remove_find: "ch_pc s t = Idle \<Longrightarrow> first_with (ch_key s) k (ch_items s) = Some a \<Longrightarrow>
    chain_step s (s\<lparr>ch_pc := (ch_pc s)(t := Removing a)\<rparr>)"
| remove_mark: "ch_pc s t = Removing a \<Longrightarrow>
    chain_step s (s\<lparr>ch_phase := (ch_phase s)(a := KND_SHARED_DICT_REMOVED), ch_pc := (ch_pc s)(t := Idle)\<rparr>)"

section \<open>The invariant\<close>

















section \<open>What holds in every interleaving\<close>










section \<open>Two commits with the same name\<close>

text \<open>A thread that is not disturbed publishes an item for a key whose newest item is not valid.\<close>

definition published :: "chain_state \<Rightarrow> nat \<Rightarrow> byte list \<Rightarrow> nat \<Rightarrow> nat \<Rightarrow> chain_state" where
  "published s t k c item = s\<lparr>ch_items := item # ch_items s, ch_key := (ch_key s)(item := k),
     ch_phase := (ch_phase s)(item := KND_SHARED_DICT_PENDING), ch_commit := (ch_commit s)(item := Some c),
     ch_used := insert item (ch_used s), ch_pc := (ch_pc s)(t := Published item)\<rparr>"

lemma newer_items_same: "newer_items items items = []"
  by (cases items) simp_all

lemma publish_alone:
  assumes "ch_pc s t = Idle" and "\<forall>a. first_with (ch_key s) k (ch_items s) = Some a \<longrightarrow> ch_phase s a \<noteq> KND_SHARED_DICT_VALID"
    and "item \<notin> ch_used s"
  shows "chain_step\<^sup>*\<^sup>* s (published s t k c item)"
proof -
  let ?s1 = "s\<lparr>ch_pc := (ch_pc s)(t := Looked k (Some c) (ch_items s))\<rparr>"
  let ?m = "?s1\<lparr>ch_used := insert item (ch_used s), ch_key := (ch_key s)(item := k),
      ch_phase := (ch_phase s)(item := KND_SHARED_DICT_PENDING), ch_commit := (ch_commit s)(item := Some c)\<rparr>"
  let ?s2 = "?m\<lparr>ch_pc := (ch_pc s)(t := Made k item (ch_items s))\<rparr>"
  let ?s3 = "?m\<lparr>ch_pc := (ch_pc s)(t := Rechecked k item (ch_items s) (ch_items s))\<rparr>"
  have 1: "chain_step s ?s1" by (rule set_look [OF assms(1)])
  have 2: "chain_step ?s1 ?s2"
    using set_make [of ?s1 t k "Some c" "ch_items s" item] assms(2,3) by simp
  have 3: "chain_step ?s2 ?s3"
    using set_recheck [of ?s2 t k item "ch_items s"] by (simp add: newer_items_same)
  have "same_head xs xs" for xs by (cases xs) simp_all
  then have "chain_step ?s3 (?m\<lparr>ch_items := item # ch_items s, ch_pc := (ch_pc s)(t := Published item)\<rparr>)"
    using set_publish [of ?s3 t k item "ch_items s" "ch_items s"] by simp
  moreover have "?m\<lparr>ch_items := item # ch_items s, ch_pc := (ch_pc s)(t := Published item)\<rparr> = published s t k c item"
    by (simp add: published_def)
  ultimately have 4: "chain_step ?s3 (published s t k c item)" by simp
  show ?thesis
    by (rule converse_rtranclp_into_rtranclp [OF 1 converse_rtranclp_into_rtranclp [OF 2
          converse_rtranclp_into_rtranclp [OF 3 r_into_rtranclp [of chain_step, OF 4]]]])
qed

text \<open>Two threads with their commits: both publish before the first is promoted, so both items
  become valid.\<close>

lemma two_valid_reached:
  assumes "ch_pc s t = Idle" and "ch_pc s u = Idle" and "t \<noteq> u" and "set (ch_items s) \<subseteq> ch_used s"
    and "\<forall>a. first_with (ch_key s) k (ch_items s) = Some a \<longrightarrow> ch_phase s a \<noteq> KND_SHARED_DICT_VALID"
    and "a \<notin> ch_used s" and "b \<notin> ch_used s" and "a \<noteq> b"
  shows "\<exists>s'. chain_step\<^sup>*\<^sup>* s s' \<and> {a, b} \<subseteq> set (ch_items s') \<and> ch_key s' a = k \<and> ch_key s' b = k \<and>
    ch_commit s' a = Some c \<and> ch_commit s' b = Some d \<and>
    ch_phase s' a = KND_SHARED_DICT_VALID \<and> ch_phase s' b = KND_SHARED_DICT_VALID"
proof -
  define s1 where "s1 = published s t k c a"
  define s2 where "s2 = published s1 u k d b"
  define s3 where "s3 = s2\<lparr>ch_phase := (ch_phase s2)(a := KND_SHARED_DICT_VALID), ch_pc := (ch_pc s2)(t := Idle)\<rparr>"
  define s4 where "s4 = s3\<lparr>ch_phase := (ch_phase s3)(b := KND_SHARED_DICT_VALID), ch_pc := (ch_pc s3)(u := Idle)\<rparr>"
  have 1: "chain_step\<^sup>*\<^sup>* s s1" unfolding s1_def by (rule publish_alone) (use assms in simp_all)
  have "ch_pc s1 u = Idle" "first_with (ch_key s1) k (ch_items s1) = Some a" "ch_phase s1 a = KND_SHARED_DICT_PENDING"
    "b \<notin> ch_used s1"
    using assms(2,3,7,8) by (simp_all add: s1_def published_def)
  then have 2: "chain_step\<^sup>*\<^sup>* s1 s2" unfolding s2_def by (intro publish_alone) simp_all
  have "ch_pc s2 t = Published a" "ch_pc s2 u = Published b" using assms(3) by (simp_all add: s1_def s2_def published_def)
  then have 3: "chain_step s2 s3" and "ch_pc s3 u = Published b"
    using promote [of s2 t a] assms(3) by (simp_all add: s3_def)
  then have 4: "chain_step s3 s4" using promote [of s3 u b] by (simp add: s4_def)
  have "chain_step\<^sup>*\<^sup>* s s4"
    using rtranclp_trans [OF 1 rtranclp_trans [OF 2 rtranclp.rtrancl_into_rtrancl [OF r_into_rtranclp [of chain_step, OF 3] 4]]] .
  moreover have "ch_items s4 = b # a # ch_items s" "ch_key s4 a = k" "ch_key s4 b = k" "ch_commit s4 a = Some c"
    "ch_commit s4 b = Some d" "ch_phase s4 a = KND_SHARED_DICT_VALID" "ch_phase s4 b = KND_SHARED_DICT_VALID"
    using assms(8) by (simp_all add: s1_def s2_def s3_def s4_def published_def)
  ultimately show ?thesis by (intro exI [of _ s4]) simp
qed


lemma set_with_commit:
  assumes "shared_ok self" and "\<forall>item. shared_found self key = Some item \<longrightarrow> sd_phase item \<noteq> KND_SHARED_DICT_VALID"
    and "make_item mempool key data (Some c) = (Inr item, mempool')"
    and "self' = self\<lparr>sd_hash_array := (sd_hash_array self)[shared_index self key :=
        item # sd_hash_array self ! shared_index self key], sd_num_items := sd_num_items self + 1\<rparr>"
  shows "knd_shared_dict_set self key data mempool (Some c) False = (None, Some item, self', mempool')"
    and "shared_ok self'" and "shared_index self' key = shared_index self key"
    and "sd_hash_array self' ! shared_index self key = item # sd_hash_array self ! shared_index self key"
    and "sd_key item = key" and "sd_phase item = KND_SHARED_DICT_PENDING" and "sd_states item = [c]"
    and "sd_data item = data"
    and "shared_found self' key = Some item"
proof -
  have no: "\<not> (case shared_found self key of None \<Rightarrow> False
      | Some item \<Rightarrow> \<not> False \<and> sd_phase item = KND_SHARED_DICT_VALID)"
    using assms(2) by (auto split: option.splits)
  show "knd_shared_dict_set self key data mempool (Some c) False = (None, Some item, self', mempool')"
    using assms(3,4) no shared_slot_ok [OF assms(1)]
    by (simp add: knd_shared_dict_set_def Let_def shared_found_def)
  show item: "sd_key item = key" "sd_phase item = KND_SHARED_DICT_PENDING" "sd_states item = [c]" "sd_data item = data"
    using assms(3) by (auto simp: make_item_def split: sum.splits failure.splits)
  show "shared_ok self'" "shared_index self' key = shared_index self key"
    using assms(1,4) by (simp_all add: shared_ok_def shared_index_def)
  show chain: "sd_hash_array self' ! shared_index self key = item # sd_hash_array self ! shared_index self key"
    using assms(4) shared_index_less [OF assms(1), of key] by simp
  show "shared_found self' key = Some item"
    using chain item(1) assms(4) by (simp add: shared_found_def shared_index_def)
qed

lemma validate_item_props:
  assumes "shared_ok self"
  shows "shared_ok (validate_item (Some i) self)" and "shared_index (validate_item (Some i) self) key = shared_index self key"
    and "sd_hash_array (validate_item (Some i) self) ! shared_index self key =
      map (\<lambda>item. if sd_addr item = sd_addr i then item\<lparr>sd_phase := KND_SHARED_DICT_VALID\<rparr> else item)
        (sd_hash_array self ! shared_index self key)"
  using assms shared_index_less [OF assms, of key] by (simp_all add: validate_item_def shared_ok_def shared_index_def)

text \<open>C29: two commits set the name of an instance, which has no valid item, and make their items valid. One after
  the other, the second gets a conflict. But a pending item is no conflict: if the second sets the name before
  the item of the first is made valid, both succeed, the name has two valid items of different commits
  in its chain, and a lookup finds only the second.\<close>
theorem two_commits_same_name:
  assumes "shared_ok self" and "key \<noteq> []"
    and "\<forall>item. shared_found self key = Some item \<longrightarrow> sd_phase item \<noteq> KND_SHARED_DICT_VALID"
    and "make_item mp1 key (Some d1) (Some c1) = (Inr i1, mp1')"
    and "make_item mp2 key (Some d2) (Some c2) = (Inr i2, mp2')"
  shows "\<exists>self1. knd_shared_dict_set self key (Some d1) mp1 (Some c1) False = (None, Some i1, self1, mp1') \<and>
    knd_shared_dict_set (validate_item (Some i1) self1) key (Some d2) mp2 (Some c2) False =
      (Some (Err knd_CONFLICT), None, validate_item (Some i1) self1, mp2) \<and>
    (\<exists>self2. knd_shared_dict_set self1 key (Some d2) mp2 (Some c2) False = (None, Some i2, self2, mp2') \<and>
      sd_key i1 = key \<and> sd_key i2 = key \<and> sd_states i1 = [c1] \<and> sd_states i2 = [c2] \<and>
      (let self3 = validate_item (Some i2) (validate_item (Some i1) self2) in
        take 2 (sd_hash_array self3 ! shared_index self3 key) =
          [i2\<lparr>sd_phase := KND_SHARED_DICT_VALID\<rparr>, i1\<lparr>sd_phase := KND_SHARED_DICT_VALID\<rparr>] \<and>
        knd_shared_dict_get self3 key = Inr (Some d2)))"
proof -
  define self1 where "self1 = self\<lparr>sd_hash_array := (sd_hash_array self)[shared_index self key :=
        i1 # sd_hash_array self ! shared_index self key], sd_num_items := sd_num_items self + 1\<rparr>"
  note set1 = set_with_commit [OF assms(1,3,4) self1_def]
  define self2 where "self2 = self1\<lparr>sd_hash_array := (sd_hash_array self1)[shared_index self1 key :=
        i2 # sd_hash_array self1 ! shared_index self1 key], sd_num_items := sd_num_items self1 + 1\<rparr>"
  have "\<forall>item. shared_found self1 key = Some item \<longrightarrow> sd_phase item \<noteq> KND_SHARED_DICT_VALID"
    using set1(6,9) by simp
  note set2 = set_with_commit [OF set1(2) this assms(5) self2_def]
  note promoted1 = validate_item_props [OF set1(2)]
  have "shared_found (validate_item (Some i1) self1) key = Some (i1\<lparr>sd_phase := KND_SHARED_DICT_VALID\<rparr>)"
    using promoted1(2) promoted1(3) [where key = key, unfolded set1(3,4)] set1(3,5) by (simp add: shared_found_def)
  then have "knd_shared_dict_set (validate_item (Some i1) self1) key (Some d2) mp2 (Some c2) False =
      (Some (Err knd_CONFLICT), None, validate_item (Some i1) self1, mp2)"
    using shared_slot_ok [OF promoted1(1)] by (simp add: knd_shared_dict_set_def Let_def shared_found_def)
  note conflict = this
  define self3 where "self3 = validate_item (Some i2) (validate_item (Some i1) self2)"
  note p1 = validate_item_props [OF set2(2)]
  note p2 = validate_item_props [OF p1(1) [of i1]]
  have chain: "sd_hash_array self2 ! shared_index self key = i2 # i1 # sd_hash_array self ! shared_index self key"
    using set2(4) set1(3,4) by simp
  have idx: "shared_index self3 key = shared_index self key"
    using p1(2) p2(2) set2(3) set1(3) by (simp add: self3_def)
  have head: "take 2 (sd_hash_array self3 ! shared_index self3 key) =
      [i2\<lparr>sd_phase := KND_SHARED_DICT_VALID\<rparr>, i1\<lparr>sd_phase := KND_SHARED_DICT_VALID\<rparr>]"
    using p1(3) [where key = key, unfolded set2(3) set1(3)] p2(3) [where key = key, unfolded p1(2) set2(3) set1(3)]
      chain unfolding idx by (simp add: self3_def)
  then have "shared_found self3 key = Some (i2\<lparr>sd_phase := KND_SHARED_DICT_VALID\<rparr>)"
    using set2(5) by (cases "sd_hash_array self3 ! shared_index self3 key") (simp_all add: shared_found_def)
  then have "knd_shared_dict_get self3 key = Inr (Some d2)"
    using shared_slot_ok [OF p2(1)] set2(8) assms(2)
    by (simp add: knd_shared_dict_get_def shared_found_def self3_def)
  then show ?thesis
    using conflict set1(1,5,7) set2(1,5,7) head by (intro exI [of _ self1] conjI exI [of _ self2]) (simp_all add: Let_def self3_def)
qed

text \<open>A pool of tiny pages from which both commits take theirs.\<close>

definition name_pool :: kndMemPool where
  "name_pool = (knd_mempool_new KND_ALLOC_INCR 0 (\<lambda>_. 0))
     \<lparr>mp_tiny := empty_class\<lparr>pc_pages := 4096, pc_page_size := 64, pc_num_pages := 4\<rparr>\<rparr>"

definition name_pool_used :: "size_t \<Rightarrow> kndMemPool" where
  "name_pool_used n = name_pool\<lparr>mp_tiny := (mp_tiny name_pool)\<lparr>pc_pages_used := n\<rparr>\<rparr>"

lemma name_items:
  "make_item name_pool key data (Some c) = (Inr \<lparr>sd_addr = 4096, sd_phase = KND_SHARED_DICT_PENDING, sd_key = key,
     sd_data = data, sd_states = [c]\<rparr>, name_pool_used 2)"
  "make_item (name_pool_used 2) key data (Some c) = (Inr \<lparr>sd_addr = 4224, sd_phase = KND_SHARED_DICT_PENDING, sd_key = key,
     sd_data = data, sd_states = [c]\<rparr>, name_pool_used 4)"
  by (simp_all add: make_item_def shared_item_new_def knd_state_new_def knd_mempool_page_def incr_page_def Let_def
      name_pool_used_def name_pool_def knd_mempool_new_def empty_class_def)

theorem two_commits_same_name_witness:
  "\<exists>i1 i2 self1 self2. sd_addr i1 \<noteq> sd_addr i2 \<and>
    knd_shared_dict_set sample_shared [65] (Some 1) name_pool (Some 7) False = (None, Some i1, self1, name_pool_used 2) \<and>
    knd_shared_dict_set self1 [65] (Some 2) (name_pool_used 2) (Some 8) False = (None, Some i2, self2, name_pool_used 4) \<and>
    (let self3 = validate_item (Some i2) (validate_item (Some i1) self2) in
      knd_shared_dict_get self3 [65] = Inr (Some 2) \<and>
      map sd_states (take 2 (sd_hash_array self3 ! shared_index self3 [65])) = [[8], [7]])"
proof -
  have "shared_found sample_shared [65] = None"
    by (simp add: shared_found_def sample_shared_def shared_index_def knd_shared_dict_new_def)
  then show ?thesis
    using two_commits_same_name [OF sample_shared_ok _ _ name_items(1) name_items(2), of "[65]" 1 7 2 8]
    by (fastforce simp: Let_def)
qed

end
