(* ===== verification/Elem_Idx.thy ===== *)
theory Elem_Idx
  imports Ident Name_Index
begin

text \<open>
  The trees over the 62 digits of an identifier that \<^verbatim>\<open>src/knd_set.c\<close> and \<^verbatim>\<open>src/knd_shared_set.c\<close>
  both keep. A node has an array of elements, for identifiers that end here, and an array of
  subfolders; \<^verbatim>\<open>NULL\<close> is \<open>None\<close>. The functions of the two files that store, intersect and read
  differ only in where a new node comes from and in the answer to an invalid digit: both are
  arguments here. What a source of nodes promises is the locale \<open>node_source\<close>.
\<close>

section \<open>Trees\<close>

datatype 'e elem_idx = Elem_Idx (idx_elems: "'e option list") (idx_idxs: "'e elem_idx option list")

definition empty_idx :: "'e elem_idx" where
  "empty_idx = Elem_Idx (replicate KND_RADIX_BASE None) (replicate KND_RADIX_BASE None)"

type_synonym ('m, 'e) node_fun = "'m \<Rightarrow> ('e elem_idx \<times> 'm) result"

section \<open>Adding and getting\<close>

text \<open>
  The result is the error, the node with what was stored before the error, and the memory the
  nodes are taken from.
\<close>

fun save_in ::
  "('m, 'e) node_fun \<Rightarrow> failure \<Rightarrow> bool \<Rightarrow> 'e elem_idx \<Rightarrow> 'e \<Rightarrow> byte list \<Rightarrow> 'm \<Rightarrow> failure option \<times> 'e elem_idx \<times> 'm" where
  "save_in new_node invalid allow_overwrite parent_idx elem [] mem = (Some Stuck, parent_idx, mem)"
| "save_in new_node invalid allow_overwrite parent_idx elem [c] mem =
     (let idx_pos = nat (id_pos c) in
      if id_pos c = -1 then (Some invalid, parent_idx, mem)
      else if \<not> allow_overwrite \<and> idx_elems parent_idx ! idx_pos \<noteq> None
      then (Some (Err knd_CONFLICT), parent_idx, mem)
      else (None, Elem_Idx ((idx_elems parent_idx)[idx_pos := Some elem]) (idx_idxs parent_idx), mem))"
| "save_in new_node invalid allow_overwrite parent_idx elem (c # d # rest) mem =
     (let idx_pos = nat (id_pos c) in
      if id_pos c = -1 then (Some invalid, parent_idx, mem)
      else
        (case idx_idxs parent_idx ! idx_pos of
           Some idx \<Rightarrow>
             (case save_in new_node invalid allow_overwrite idx elem (d # rest) mem of (err, idx, mem) \<Rightarrow>
                (err, Elem_Idx (idx_elems parent_idx) ((idx_idxs parent_idx)[idx_pos := Some idx]), mem))
         | None \<Rightarrow>
             (case new_node mem of
                Inl e \<Rightarrow> (Some e, parent_idx, mem)
              | Inr (idx, mem) \<Rightarrow>
                  (case save_in new_node invalid allow_overwrite idx elem (d # rest) mem of (err, idx, mem) \<Rightarrow>
                     (err, Elem_Idx (idx_elems parent_idx) ((idx_idxs parent_idx)[idx_pos := Some idx]), mem)))))"

fun get_in :: "failure \<Rightarrow> 'e elem_idx \<Rightarrow> byte list \<Rightarrow> 'e result" where
  "get_in invalid parent_idx [] = Inl Stuck"
| "get_in invalid parent_idx [c] =
     (if id_pos c = -1 then Inl invalid
      else case idx_elems parent_idx ! nat (id_pos c) of
        None \<Rightarrow> Inl (Err knd_NO_MATCH)
      | Some elem \<Rightarrow> Inr elem)"
| "get_in invalid parent_idx (c # d # rest) =
     (if id_pos c = -1 then Inl invalid
      else case idx_idxs parent_idx ! nat (id_pos c) of
        None \<Rightarrow> Inl (Err knd_NO_MATCH)
      | Some idx \<Rightarrow> get_in invalid idx (d # rest))"

section \<open>Visiting all elements\<close>

text \<open>
  A callback gets its object, the identifier, the count and the element, and returns an
  error or goes on; the identifier it gets is the last digit only.
\<close>

type_synonym ('o, 'e) map_cb = "'o \<Rightarrow> byte list \<Rightarrow> nat \<Rightarrow> 'e \<Rightarrow> failure option \<times> 'o"

fun visit_elems :: "('o, 'e) map_cb \<Rightarrow> nat \<Rightarrow> 'e option list \<Rightarrow> 'o \<times> nat \<Rightarrow> failure option \<times> 'o \<times> nat" where
  "visit_elems cb i [] st = (None, st)"
| "visit_elems cb i (None # elems) st = visit_elems cb (Suc i) elems st"
| "visit_elems cb i (Some elem # elems) (obj, count) =
     (case cb obj [obj_id_seq ! i] count elem of
        (Some e, obj) \<Rightarrow> (Some e, obj, count)
      | (None, obj) \<Rightarrow> visit_elems cb (Suc i) elems (obj, Suc count))"

fun traverse_idx :: "('o, 'e) map_cb \<Rightarrow> 'e elem_idx \<Rightarrow> 'o \<times> nat \<Rightarrow> failure option \<times> 'o \<times> nat"
  and traverse_idxs :: "('o, 'e) map_cb \<Rightarrow> 'e elem_idx option list \<Rightarrow> 'o \<times> nat \<Rightarrow> failure option \<times> 'o \<times> nat" where
  "traverse_idx cb (Elem_Idx elems idxs) st =
     then_step (visit_elems cb 0 elems st) (\<lambda>st. traverse_idxs cb idxs st)"
| "traverse_idxs cb [] st = (None, st)"
| "traverse_idxs cb (None # idxs) st = traverse_idxs cb idxs st"
| "traverse_idxs cb (Some idx # idxs) st =
     then_step (traverse_idx cb idx st) (\<lambda>st. traverse_idxs cb idxs st)"

section \<open>Intersection\<close>

definition in_all :: "nat \<Rightarrow> 'e elem_idx list \<Rightarrow> bool" where
  "in_all i idxs \<longleftrightarrow> list_all (\<lambda>idx. idx_elems idx ! i \<noteq> None) idxs"

text \<open>The terminal elements that all the other nodes have too, stored to the result node.\<close>

fun common_elems :: "'e elem_idx list \<Rightarrow> nat \<Rightarrow> 'e option list \<Rightarrow> 'e option list \<times> nat \<Rightarrow> 'e option list \<times> nat" where
  "common_elems idxs i [] res = res"
| "common_elems idxs i (None # elems) res = common_elems idxs (Suc i) elems res"
| "common_elems idxs i (Some elem # elems) (res, n) =
     (if in_all i idxs then common_elems idxs (Suc i) elems (res[i := Some elem], Suc n)
      else common_elems idxs (Suc i) elems (res, n))"

text \<open>The subfolders at a position, when all nodes have one.\<close>

fun nested_at :: "nat \<Rightarrow> 'e elem_idx list \<Rightarrow> 'e elem_idx list option" where
  "nested_at i [] = Some []"
| "nested_at i (idx # idxs) =
     (case idx_idxs idx ! i of
        None \<Rightarrow> None
      | Some sub \<Rightarrow> map_option ((#) sub) (nested_at i idxs))"

text \<open>The result node, the number of elements stored so far and the memory are the state.\<close>

type_synonym ('e, 'm) inter_state = "'e elem_idx \<times> nat \<times> 'm"

fun traverse_in :: "('m, 'e) node_fun \<Rightarrow> 'e elem_idx \<Rightarrow> 'e elem_idx list \<Rightarrow> ('e, 'm) inter_state \<Rightarrow>
    failure option \<times> ('e, 'm) inter_state"
  and traverse_subs_in :: "('m, 'e) node_fun \<Rightarrow> 'e elem_idx option list \<Rightarrow> nat \<Rightarrow> 'e elem_idx list \<Rightarrow> ('e, 'm) inter_state \<Rightarrow>
    failure option \<times> ('e, 'm) inter_state" where
  "traverse_in new_node (Elem_Idx elems subs) idxs (res, n, mem) =
     (case common_elems idxs 0 elems (idx_elems res, n) of (es, n) \<Rightarrow>
        traverse_subs_in new_node subs 0 idxs (Elem_Idx es (idx_idxs res), n, mem))"
| "traverse_subs_in new_node [] i idxs st = (None, st)"
| "traverse_subs_in new_node (None # subs) i idxs st = traverse_subs_in new_node subs (Suc i) idxs st"
| "traverse_subs_in new_node (Some sub # subs) i idxs (res, n, mem) =
     (case nested_at i idxs of
        None \<Rightarrow> traverse_subs_in new_node subs (Suc i) idxs (res, n, mem)
      | Some nested \<Rightarrow>
          (case new_node mem of
             Inl e \<Rightarrow> (Some e, res, n, mem)
           | Inr (sub_idx, mem) \<Rightarrow>
               (case traverse_in new_node sub nested (sub_idx, n, mem) of
                  (err, sub_idx, n, mem) \<Rightarrow>
                    then_step (err, Elem_Idx (idx_elems res) ((idx_idxs res)[i := Some sub_idx]), n, mem)
                      (\<lambda>st. traverse_subs_in new_node subs (Suc i) idxs st))))"

section \<open>The map a tree stands for\<close>

fun idx_ok :: "'e elem_idx \<Rightarrow> bool" and subs_ok :: "'e elem_idx option list \<Rightarrow> bool" where
  "idx_ok (Elem_Idx elems subs) \<longleftrightarrow>
     length elems = KND_RADIX_BASE \<and> length subs = KND_RADIX_BASE \<and> subs_ok subs"
| "subs_ok [] \<longleftrightarrow> True"
| "subs_ok (None # subs) \<longleftrightarrow> subs_ok subs"
| "subs_ok (Some sub # subs) \<longleftrightarrow> idx_ok sub \<and> subs_ok subs"

lemma subs_ok_iff: "subs_ok subs \<longleftrightarrow> (\<forall>sub. Some sub \<in> set subs \<longrightarrow> idx_ok sub)"
proof (induction subs)
  case (Cons s subs)
  then show ?case by (cases s) auto
qed simp

fun lookup :: "'e elem_idx \<Rightarrow> nat list \<Rightarrow> 'e option" where
  "lookup idx [] = None"
| "lookup idx [d] = idx_elems idx ! d"
| "lookup idx (d # e # rest) =
     (case idx_idxs idx ! d of None \<Rightarrow> None | Some sub \<Rightarrow> lookup sub (e # rest))"

definition digits :: "nat list \<Rightarrow> bool" where
  "digits ds \<longleftrightarrow> list_all (\<lambda>d. d < KND_RADIX_BASE) ds"

lemma digits_simps [simp]: "digits []" "digits (d # ds) \<longleftrightarrow> d < 62 \<and> digits ds"
  by (simp_all add: digits_def)

definition elem_at :: "'e elem_idx \<Rightarrow> byte list \<Rightarrow> 'e option" where
  "elem_at idx key = (if valid_id key then lookup idx (id_digits key) else None)"

lemma digits_id_digits: "list_all valid_digit key \<Longrightarrow> digits (id_digits key)"
  by (induction key) (simp_all add: id_digits_def id_pos_less)

lemma idx_ok_parts:
  assumes "idx_ok idx"
  shows "length (idx_elems idx) = 62" "length (idx_idxs idx) = 62"
    "idx_idxs idx ! i = Some sub \<Longrightarrow> i < 62 \<Longrightarrow> idx_ok sub"
proof -
  obtain es ss where idx: "idx = Elem_Idx es ss" by (cases idx)
  then show "length (idx_elems idx) = 62" "length (idx_idxs idx) = 62" using assms by simp_all
  then show "idx_idxs idx ! i = Some sub \<Longrightarrow> i < 62 \<Longrightarrow> idx_ok sub"
    using assms idx by (auto simp: subs_ok_iff) (metis nth_mem)
qed

lemma idx_okI:
  assumes "length es = 62" "length ss = 62" "\<And>sub. Some sub \<in> set ss \<Longrightarrow> idx_ok sub"
  shows "idx_ok (Elem_Idx es ss)"
  using assms by (simp add: subs_ok_iff)

lemma idx_ok_empty: "idx_ok empty_idx"
  unfolding empty_idx_def by (rule idx_okI) simp_all

lemma idx_ok_set_elem: "idx_ok idx \<Longrightarrow> idx_ok (Elem_Idx ((idx_elems idx)[i := e]) (idx_idxs idx))"
  by (cases idx) simp

lemma idx_ok_set_sub:
  assumes "idx_ok idx" and "idx_ok sub"
  shows "idx_ok (Elem_Idx (idx_elems idx) ((idx_idxs idx)[i := Some sub]))"
proof (rule idx_okI)
  fix s assume "Some s \<in> set ((idx_idxs idx)[i := Some sub])"
  then have "Some s \<in> set (idx_idxs idx) \<or> s = sub"
    using set_update_subset_insert [of "idx_idxs idx" i "Some sub"] by blast
  then show "idx_ok s" using assms idx_ok_parts(2,3) [OF assms(1)] by (auto simp: in_set_conv_nth)
qed (simp_all add: idx_ok_parts [OF assms(1)])

lemma lookup_empty: "digits ds \<Longrightarrow> lookup empty_idx ds = None"
  by (cases ds rule: list.exhaust, simp, case_tac x22) (simp_all add: empty_idx_def)

lemma lookup_set_elem:
  assumes "idx_ok idx" and "d < 62" and "digits ds"
  shows "lookup (Elem_Idx ((idx_elems idx)[d := Some e]) (idx_idxs idx)) ds =
    (if ds = [d] then Some e else lookup idx ds)"
proof (cases ds)
  case (Cons x xs)
  then show ?thesis using assms idx_ok_parts(1) [OF assms(1)] by (cases xs) (auto simp: nth_list_update)
qed simp

lemma lookup_set_sub:
  assumes "idx_ok idx" and "d < 62" and "digits ds"
  shows "lookup (Elem_Idx (idx_elems idx) ((idx_idxs idx)[d := Some sub])) ds =
    (case ds of x # y # rest \<Rightarrow> if x = d then lookup sub (y # rest) else lookup idx ds | _ \<Rightarrow> lookup idx ds)"
proof (cases ds)
  case (Cons x xs)
  then show ?thesis using assms idx_ok_parts(2) [OF assms(1)] by (cases xs) (auto simp: nth_list_update)
qed simp

lemma get_in_lookup:
  "valid_id key \<Longrightarrow> get_in invalid idx key =
    (case lookup idx (id_digits key) of None \<Rightarrow> Inl (Err knd_NO_MATCH) | Some elem \<Rightarrow> Inr elem)"
  by (induction invalid idx key rule: get_in.induct) (auto simp: valid_id_def valid_digit_pos split: option.splits)

lemma elem_at_None: "\<not> valid_id key \<Longrightarrow> elem_at idx key = None"
  by (simp add: elem_at_def)

lemma elem_at_eqI:
  "(\<And>ds. digits ds \<Longrightarrow> lookup a ds = lookup b ds) \<Longrightarrow> elem_at a = elem_at b"
  using digits_id_digits by (auto simp: elem_at_def fun_eq_iff valid_id_def)

section \<open>The elements in the order of a visit\<close>

fun elem_entries :: "nat \<Rightarrow> 'e option list \<Rightarrow> (nat list \<times> 'e) list" where
  "elem_entries i [] = []"
| "elem_entries i (None # elems) = elem_entries (Suc i) elems"
| "elem_entries i (Some elem # elems) = ([i], elem) # elem_entries (Suc i) elems"

fun idx_entries :: "'e elem_idx \<Rightarrow> (nat list \<times> 'e) list"
  and sub_entries :: "nat \<Rightarrow> 'e elem_idx option list \<Rightarrow> (nat list \<times> 'e) list" where
  "idx_entries (Elem_Idx elems subs) = elem_entries 0 elems @ sub_entries 0 subs"
| "sub_entries i [] = []"
| "sub_entries i (None # subs) = sub_entries (Suc i) subs"
| "sub_entries i (Some sub # subs) = map (apfst ((#) i)) (idx_entries sub) @ sub_entries (Suc i) subs"

definition digits_id :: "nat list \<Rightarrow> byte list" where
  "digits_id ds = map ((!) obj_id_seq) ds"

text \<open>Calling back for each entry in turn, until an error.\<close>

fun run_entries :: "('o, 'e) map_cb \<Rightarrow> (byte list \<times> 'e) list \<Rightarrow> 'o \<times> nat \<Rightarrow> failure option \<times> 'o \<times> nat" where
  "run_entries cb [] st = (None, st)"
| "run_entries cb ((key, elem) # entries) (obj, count) =
     (case cb obj [last key] count elem of
        (Some e, obj) \<Rightarrow> (Some e, obj, count)
      | (None, obj) \<Rightarrow> run_entries cb entries (obj, Suc count))"

lemma run_entries_append:
  "run_entries cb (xs @ ys) st = then_step (run_entries cb xs st) (run_entries cb ys)"
  by (induction cb xs st rule: run_entries.induct) (auto split: prod.splits option.splits)

lemma visit_elems_run:
  "visit_elems cb i elems st = run_entries cb (map (apfst digits_id) (elem_entries i elems)) st"
  by (induction cb i elems st rule: visit_elems.induct)
    (auto simp: digits_id_def split: prod.splits option.splits)

lemma run_entries_prefix:
  "\<forall>(ds, e)\<in>set entries. ds \<noteq> [] \<Longrightarrow>
   run_entries cb (map (apfst digits_id) (map (apfst ((#) i)) entries)) st =
     run_entries cb (map (apfst digits_id) entries) st"
proof (induction entries arbitrary: st)
  case (Cons en entries)
  obtain ds e obj count where "en = (ds, e)" "st = (obj, count)" by (metis surj_pair)
  with Cons show ?case by (auto simp: digits_id_def split: prod.splits option.splits)
qed simp

lemma elem_entries_set:
  "(ds, e) \<in> set (elem_entries i elems) \<longleftrightarrow> (\<exists>j<length elems. ds = [i + j] \<and> elems ! j = Some e)"
  by (induction i elems rule: elem_entries.induct) (auto simp: Ex_less_Suc2 less_Suc_eq_0_disj)

lemma elem_entries_distinct: "distinct (map fst (elem_entries i elems))"
  by (induction i elems rule: elem_entries.induct) (auto simp: elem_entries_set)

lemma idx_entries_nonempty:
  fixes idx :: "'e elem_idx"
  shows "\<forall>(ds, e)\<in>set (idx_entries idx). ds \<noteq> []"
    "\<forall>(ds, e)\<in>set (sub_entries i (subs :: 'e elem_idx option list)). ds \<noteq> []"
  by (induction idx and i subs rule: idx_entries_sub_entries.induct) (auto simp: elem_entries_set)

lemma traverse_idx_run:
  "traverse_idx cb idx st = run_entries cb (map (apfst digits_id) (idx_entries idx)) st"
  "traverse_idxs cb subs st = run_entries cb (map (apfst digits_id) (sub_entries i subs)) st"
proof (induction cb idx st and cb subs st arbitrary: and i rule: traverse_idx_traverse_idxs.induct)
  case (4 cb idx idxs st)
  obtain err st1 where r: "run_entries cb (map (apfst digits_id) (idx_entries idx)) st = (err, st1)" by (metis surj_pair)
  show ?case using 4(1) 4(2) [of _ "Suc i"] idx_entries_nonempty(1) [of idx] r
    by (cases err) (simp_all add: run_entries_append run_entries_prefix del: map_map)
next
  case (1 cb elems idxs st)
  obtain err st1 where "run_entries cb (map (apfst digits_id) (elem_entries 0 elems)) st = (err, st1)" by (metis surj_pair)
  then show ?case using 1 by (cases err) (simp_all add: run_entries_append visit_elems_run)
qed simp_all

lemma idx_entries_lookup:
  fixes idx :: "'e elem_idx"
  shows "idx_ok idx \<Longrightarrow> (ds, e) \<in> set (idx_entries idx) \<longleftrightarrow> digits ds \<and> lookup idx ds = Some e"
    "subs_ok subs \<Longrightarrow> (ds, e) \<in> set (sub_entries i subs) \<longleftrightarrow>
      (\<exists>j<length subs. \<exists>sub y rest. subs ! j = Some sub \<and> ds = (i + j) # y # rest \<and> digits (y # rest) \<and>
        lookup sub (y # rest) = Some (e :: 'e))"
proof (induction idx and subs arbitrary: ds and i ds rule: idx_ok_subs_ok.induct)
  case (1 elems subs)
  then have len: "length elems = 62" "length subs = 62" "subs_ok subs" by simp_all
  have "(ds, e) \<in> set (idx_entries (Elem_Idx elems subs)) \<longleftrightarrow>
    (\<exists>j<62. ds = [j] \<and> elems ! j = Some e) \<or>
    (\<exists>j<62. \<exists>sub y rest. subs ! j = Some sub \<and> ds = j # y # rest \<and> digits (y # rest) \<and> lookup sub (y # rest) = Some e)"
    using 1(1) [OF len(3), of ds 0] len by (simp add: elem_entries_set)
  also have "\<dots> \<longleftrightarrow> digits ds \<and> lookup (Elem_Idx elems subs) ds = Some e"
  proof (cases ds)
    case (Cons x xs)
    then show ?thesis by (cases xs) (auto split: option.splits)
  qed simp
  finally show ?case .
next
  case (4 sub subs)
  have "(ds, e) \<in> set (sub_entries i (Some sub # subs)) \<longleftrightarrow>
    (\<exists>y rest. ds = i # y # rest \<and> digits (y # rest) \<and> lookup sub (y # rest) = Some e) \<or>
    (\<exists>j<length subs. \<exists>sub y rest. subs ! j = Some sub \<and> ds = (Suc i + j) # y # rest \<and> digits (y # rest) \<and>
        lookup sub (y # rest) = Some e)"
  proof -
    have "(ds, e) \<in> set (map (apfst ((#) i)) (idx_entries sub)) \<longleftrightarrow>
      (\<exists>ds'. ds = i # ds' \<and> (ds', e) \<in> set (idx_entries sub))" by force
    also have "\<dots> \<longleftrightarrow> (\<exists>ds'. ds = i # ds' \<and> digits ds' \<and> lookup sub ds' = Some e)" using 4(1,3) by simp
    also have "\<dots> \<longleftrightarrow> (\<exists>y rest. ds = i # y # rest \<and> digits (y # rest) \<and> lookup sub (y # rest) = Some e)"
      by (metis lookup.simps(1) neq_Nil_conv option.distinct(1))
    finally show ?thesis using 4(2) [of ds "Suc i"] 4(3) by simp
  qed
  then show ?case by (auto simp: Ex_less_Suc2)
qed (auto simp: Ex_less_Suc2)

lemma idx_entries_distinct:
  fixes idx :: "'e elem_idx"
  shows "idx_ok idx \<Longrightarrow> distinct (map fst (idx_entries idx))"
    "subs_ok subs \<Longrightarrow> distinct (map fst (sub_entries i (subs :: 'e elem_idx option list)))"
proof (induction idx and subs arbitrary: and i rule: idx_ok_subs_ok.induct)
  case (1 elems subs)
  then have "distinct (map fst (sub_entries 0 subs))" "subs_ok subs" by simp_all
  then show ?case using elem_entries_distinct [of 0 elems]
    by (auto simp: idx_entries_lookup(2) elem_entries_set)
next
  case (4 sub subs)
  have "map fst (map (apfst ((#) i)) (idx_entries sub)) = map ((#) i) (map fst (idx_entries sub))" by simp
  then have "distinct (map fst (map (apfst ((#) i)) (idx_entries sub)))"
    using 4 by (simp only: distinct_map) simp
  then show ?case using 4 by (auto simp: idx_entries_lookup(2))
qed simp_all

lemma digits_id_inverse: "list_all valid_digit key \<Longrightarrow> digits_id (id_digits key) = key"
  by (simp add: digits_id_def seq_id_digits)

lemma id_digits_id: "digits ds \<Longrightarrow> id_digits (digits_id ds) = ds"
  by (induction ds) (simp_all add: digits_id_def id_pos_obj_id_seq)

lemma valid_digits_id: "digits ds \<Longrightarrow> list_all valid_digit (digits_id ds)"
  by (induction ds) (simp_all add: digits_id_def valid_digit_obj_id_seq)

section \<open>What an intersection has\<close>

definition common :: "'e elem_idx \<Rightarrow> 'e elem_idx list \<Rightarrow> nat list \<Rightarrow> 'e option" where
  "common base idxs ds = (if \<forall>idx\<in>set idxs. lookup idx ds \<noteq> None then lookup base ds else None)"

definition count_some :: "'a option list \<Rightarrow> nat" where
  "count_some xs = length (filter (\<lambda>x. x \<noteq> None) xs)"

lemma count_some_update:
  "j < length xs \<Longrightarrow> xs ! j = None \<Longrightarrow> count_some (xs[j := Some e]) = Suc (count_some xs)"
  unfolding count_some_def by (induction xs arbitrary: j) (auto simp: nth_Cons split: nat.splits)

lemma length_elem_entries: "length (elem_entries i elems) = count_some elems"
  unfolding count_some_def by (induction i elems rule: elem_entries.induct) simp_all

definition sub_size :: "'e elem_idx option \<Rightarrow> nat" where
  "sub_size s = (case s of None \<Rightarrow> 0 | Some sub \<Rightarrow> length (idx_entries sub))"

lemma length_sub_entries: "length (sub_entries i subs) = sum_list (map sub_size subs)"
proof (induction subs arbitrary: i)
  case (Cons s subs)
  then show ?case by (cases s) (simp_all add: sub_size_def)
qed simp

lemma length_idx_entries:
  "length (idx_entries idx) = count_some (idx_elems idx) + sum_list (map sub_size (idx_idxs idx))"
  by (cases idx) (simp add: length_elem_entries length_sub_entries)

lemma length_idx_entries_sub:
  assumes "i < length (idx_idxs res)" and "idx_idxs res ! i = None"
  shows "length (idx_entries (Elem_Idx (idx_elems res) ((idx_idxs res)[i := Some sub]))) =
    length (idx_entries res) + length (idx_entries sub)"
proof -
  have "sum_list (map sub_size ((idx_idxs res)[i := Some sub])) =
    sum_list (map sub_size (idx_idxs res)) + sub_size (Some sub) - map sub_size (idx_idxs res) ! i"
    using assms(1) by (simp add: map_update sum_list_update)
  then show ?thesis using assms by (simp add: length_idx_entries length_elem_entries length_sub_entries sub_size_def)
qed

lemma common_elems_spec:
  assumes "common_elems idxs i es (res, n) = (res', n')" and "i + length es = length res"
    and "\<forall>j. i \<le> j \<and> j < length res \<longrightarrow> res ! j = None"
  shows "length res' = length res \<and> n' + count_some res = n + count_some res' \<and>
    (\<forall>j<length res. res' ! j = (if j < i then res ! j else if in_all j idxs then es ! (j - i) else None))"
  using assms
proof (induction idxs i es "(res, n)" arbitrary: res n rule: common_elems.induct)
  case (2 idxs i elems res n)
  have "length res' = length res \<and> n' + count_some res = n + count_some res' \<and>
    (\<forall>j<length res. res' ! j = (if j < Suc i then res ! j else if in_all j idxs then elems ! (j - Suc i) else None))"
    using 2 by simp
  then show ?case using 2(3,4) by (auto simp: less_Suc_eq nth_Cons')
next
  case (3 idxs i elem elems res n)
  show ?case
  proof (cases "in_all i idxs")
    case True
    have "length res' = length (res[i := Some elem]) \<and> n' + count_some (res[i := Some elem]) = Suc n + count_some res' \<and>
      (\<forall>j<length (res[i := Some elem]). res' ! j = (if j < Suc i then res[i := Some elem] ! j
        else if in_all j idxs then elems ! (j - Suc i) else None))"
      using 3(1) [OF True] 3(3,4,5) True by simp
    then show ?thesis using 3(4,5) True count_some_update [of i res elem]
      by (auto simp: less_Suc_eq nth_Cons' nth_list_update)
  next
    case False
    have "length res' = length res \<and> n' + count_some res = n + count_some res' \<and>
      (\<forall>j<length res. res' ! j = (if j < Suc i then res ! j else if in_all j idxs then elems ! (j - Suc i) else None))"
      using 3(2) [OF False] 3(3,4,5) False by simp
    then show ?thesis using 3(4,5) False by (auto simp: less_Suc_eq nth_Cons')
  qed
qed auto

lemma nested_at_None: "nested_at x idxs = None \<Longrightarrow> \<exists>idx\<in>set idxs. lookup idx (x # y # rest) = None"
  by (induction idxs) (auto split: option.splits)

lemma nested_at_Some:
  "nested_at x idxs = Some nested \<Longrightarrow>
   (\<forall>idx\<in>set idxs. lookup idx (x # y # rest) \<noteq> None) \<longleftrightarrow> (\<forall>sub\<in>set nested. lookup sub (y # rest) \<noteq> None)"
  by (induction idxs arbitrary: nested) (auto split: option.splits)

lemma nested_at_ok:
  "nested_at x idxs = Some nested \<Longrightarrow> x < 62 \<Longrightarrow> \<forall>idx\<in>set idxs. idx_ok idx \<Longrightarrow> \<forall>sub\<in>set nested. idx_ok sub"
  by (induction idxs arbitrary: nested) (auto simp: idx_ok_parts(3) split: option.splits)

definition common_sub :: "'e elem_idx option \<Rightarrow> nat \<Rightarrow> 'e elem_idx list \<Rightarrow> nat list \<Rightarrow> 'e option" where
  "common_sub s x idxs ds =
     (case s of None \<Rightarrow> None
      | Some sub \<Rightarrow> (case nested_at x idxs of None \<Rightarrow> None | Some nested \<Rightarrow> common sub nested ds))"

lemma common_deeper:
  "common (Elem_Idx elems subs) idxs (x # y # rest) = common_sub (subs ! x) x idxs (y # rest)"
proof (cases "nested_at x idxs")
  case None
  from nested_at_None [OF this, of y rest] show ?thesis
    by (auto simp: common_def common_sub_def None split: option.splits)
next
  case (Some nested)
  then show ?thesis using nested_at_Some [OF Some, of y rest]
    by (auto simp: common_def common_sub_def split: option.splits)
qed

section \<open>Sources of nodes\<close>

text \<open>
  A source of nodes gives empty nodes while some are left and \<open>knd_NOMEM\<close> afterwards. The
  laws of the trees are proved for every source.
\<close>

locale node_source =
  fixes new_node :: "'m \<Rightarrow> ('e elem_idx \<times> 'm) result"
    and ready :: "'m \<Rightarrow> bool"
    and left :: "'m \<Rightarrow> nat"
  assumes new_empty: "new_node m = Inr (idx, m') \<Longrightarrow> idx = empty_idx"
    and new_no_conflict: "new_node m = Inl e \<Longrightarrow> e \<noteq> Err knd_CONFLICT"
    and new_none: "ready m \<Longrightarrow> left m = 0 \<Longrightarrow> new_node m = Inl (Err knd_NOMEM)"
    and new_some: "ready m \<Longrightarrow> left m \<noteq> 0 \<Longrightarrow>
      \<exists>m'. new_node m = Inr (empty_idx, m') \<and> ready m' \<and> left m = Suc (left m')"
begin

lemma save_below:
  assumes "save_in new_node bad ow idx elem (c # d # rest) m = (err, idx', m')" and "id_pos c \<noteq> -1"
  obtains (Fail) e where "idx_idxs idx ! nat (id_pos c) = None" "new_node m = Inl e" "err = Some e" "idx' = idx" "m' = m"
  | (Below) sub m0 sub' where
      "(idx_idxs idx ! nat (id_pos c) = Some sub \<and> m0 = m) \<or>
       (idx_idxs idx ! nat (id_pos c) = None \<and> new_node m = Inr (sub, m0) \<and> sub = empty_idx)"
      "save_in new_node bad ow sub elem (d # rest) m0 = (err, sub', m')"
      "idx' = Elem_Idx (idx_elems idx) ((idx_idxs idx)[nat (id_pos c) := Some sub'])"
proof (cases "idx_idxs idx ! nat (id_pos c)")
  case None
  show ?thesis
  proof (cases "new_node m")
    case (Inl e)
    show ?thesis by (rule Fail [OF None Inl]) (use assms None Inl in \<open>simp_all add: Let_def\<close>)
  next
    case (Inr r)
    obtain sub m0 where r: "r = (sub, m0)" by fastforce
    obtain e1 sub' m1 where s: "save_in new_node bad ow sub elem (d # rest) m0 = (e1, sub', m1)" by (metis surj_pair)
    show ?thesis
      by (rule Below [of sub m0 sub']) (use assms None Inr r s new_empty [OF Inr [unfolded r]] in \<open>simp_all add: Let_def\<close>)
  qed
next
  case (Some sub)
  obtain e1 sub' m1 where s: "save_in new_node bad ow sub elem (d # rest) m = (e1, sub', m1)" by (metis surj_pair)
  show ?thesis by (rule Below [of sub m sub']) (use assms Some s in \<open>simp_all add: Let_def\<close>)
qed

text \<open>The subfolder that is entered, or an empty new one.\<close>

lemma below_lookup:
  assumes "idx_ok idx" and "id_pos c \<noteq> -1"
    and "(idx_idxs idx ! nat (id_pos c) = Some sub \<and> m0 = m) \<or>
       (idx_idxs idx ! nat (id_pos c) = None \<and> new_node m = Inr (sub, m0) \<and> sub = empty_idx)"
  shows "idx_ok sub" and "digits (y # ys) \<Longrightarrow> lookup sub (y # ys) = lookup idx (nat (id_pos c) # y # ys)"
  using assms idx_ok_empty lookup_empty [of "y # ys"] idx_ok_parts(3) [OF assms(1)]
    id_pos_less [of c] by (auto simp: valid_digit_pos)

lemma save_lookup:
  assumes "save_in new_node bad ow idx elem key m = (err, idx', m')" and "idx_ok idx" and "valid_id key"
  shows "idx_ok idx' \<and>
    (\<forall>ds. digits ds \<longrightarrow> lookup idx' ds = (if err = None \<and> ds = id_digits key then Some elem else lookup idx ds)) \<and>
    (err = Some (Err knd_CONFLICT) \<longleftrightarrow> \<not> ow \<and> lookup idx (id_digits key) \<noteq> None)"
  using assms
proof (induction key arbitrary: idx m err idx' m' rule: induct_list012)
  case 1
  then show ?case by (simp add: valid_id_def)
next
  case (2 c)
  then have c: "id_pos c \<noteq> -1" "nat (id_pos c) < 62" by (simp_all add: valid_id_def valid_digit_pos id_pos_less)
  show ?case
  proof (cases "\<not> ow \<and> idx_elems idx ! nat (id_pos c) \<noteq> None")
    case True
    then show ?thesis using 2 c by auto
  next
    case False
    then have "err = None" "idx' = Elem_Idx ((idx_elems idx)[nat (id_pos c) := Some elem]) (idx_idxs idx)"
      using 2(1) c by (auto simp: Let_def)
    then show ?thesis using False 2(2) c idx_ok_set_elem lookup_set_elem [OF 2(2) c(2)] by auto
  qed
next
  case (3 c d rest)
  then have c: "id_pos c \<noteq> -1" "nat (id_pos c) < 62" and rest: "valid_id (d # rest)"
    by (simp_all add: valid_id_def valid_digit_pos id_pos_less)
  have dig: "digits (id_digits (d # rest))" using rest digits_id_digits unfolding valid_id_def by blast
  from 3(3) c(1) show ?case
  proof (cases rule: save_below)
    case (Fail e)
    then show ?thesis using 3(4) new_no_conflict [OF Fail(2)] by auto
  next
    case (Below sub m0 sub')
    note sub = below_lookup [OF 3(4) c(1) Below(1)]
    note IH = 3(2) [OF Below(2) sub(1) rest]
    have "lookup idx' ds = (if err = None \<and> ds = id_digits (c # d # rest) then Some elem else lookup idx ds)"
      if "digits ds" for ds
      using that IH sub(2) lookup_set_sub [OF 3(4) c(2) that, of sub'] Below(3) by (auto split: list.splits)
    moreover have "lookup sub (id_digits (d # rest)) = lookup idx (id_digits (c # d # rest))"
      using sub(2) dig by simp
    moreover have "idx_ok idx'" using IH idx_ok_set_sub [OF 3(4)] Below(3) by blast
    ultimately show ?thesis using IH by simp
  qed
qed

lemma save_invalid:
  assumes "save_in new_node bad ow idx elem key m = (err, idx', m')" and "idx_ok idx" and "\<not> valid_id key"
    and "bad \<noteq> Err knd_CONFLICT"
  shows "idx_ok idx' \<and> (\<forall>ds. digits ds \<longrightarrow> lookup idx' ds = lookup idx ds) \<and>
    err \<noteq> None \<and> err \<noteq> Some (Err knd_CONFLICT)"
  using assms
proof (induction key arbitrary: idx m err idx' m' rule: induct_list012)
  case (3 c d rest)
  show ?case
  proof (cases "id_pos c = -1")
    case True
    then show ?thesis using 3(3,4,6) by auto
  next
    case False
    then have c: "nat (id_pos c) < 62" by (simp add: id_pos_less valid_digit_pos)
    have rest: "\<not> valid_id (d # rest)" using 3(5) False by (simp add: valid_id_def valid_digit_pos)
    from 3(3) False show ?thesis
    proof (cases rule: save_below)
      case (Fail e)
      then show ?thesis using 3(4) new_no_conflict [OF Fail(2)] by auto
    next
      case (Below sub m0 sub')
      note sub = below_lookup [OF 3(4) False Below(1)]
      note IH = 3(2) [OF Below(2) sub(1) rest 3(6)]
      have "lookup idx' ds = lookup idx ds" if "digits ds" for ds
        using that IH sub(2) lookup_set_sub [OF 3(4) c that, of sub'] Below(3) by (auto split: list.splits)
      then show ?thesis using IH idx_ok_set_sub [OF 3(4)] Below(3) by blast
    qed
  qed
qed (auto simp: valid_id_def valid_digit_pos Let_def)

lemma save_conflict:
  assumes "save_in new_node bad ow idx elem key m = (Some (Err knd_CONFLICT), idx', m')" and "idx_ok idx"
    and "lookup idx (id_digits key) \<noteq> None" and "valid_id key"
  shows "idx' = idx \<and> m' = m"
  using assms
proof (induction key arbitrary: idx m idx' m' rule: induct_list012)
  case (2 c)
  then show ?case by (auto simp: valid_id_def valid_digit_pos Let_def split: if_splits)
next
  case (3 c d rest)
  then have c: "id_pos c \<noteq> -1" "nat (id_pos c) < 62" and rest: "valid_id (d # rest)"
    by (simp_all add: valid_id_def valid_digit_pos id_pos_less)
  from 3(5) obtain sub0 where sub0: "idx_idxs idx ! nat (id_pos c) = Some sub0"
    "lookup sub0 (id_digits (d # rest)) \<noteq> None" by (auto split: option.splits)
  from 3(3) c(1) show ?case
  proof (cases rule: save_below)
    case (Below sub m0 sub')
    then have "sub = sub0" "m0 = m" using sub0(1) by auto
    note IH = 3(2) [OF Below(2) [unfolded this] idx_ok_parts(3) [OF 3(4) sub0(1) c(2)] sub0(2) rest]
    moreover have "(idx_idxs idx)[nat (id_pos c) := Some sub0] = idx_idxs idx"
      using sub0(1) by (metis list_update_id)
    ultimately show ?thesis using Below(3) by (cases idx) simp
  qed (use sub0 in simp)
qed simp_all

text \<open>An identifier needs at most one new node for each digit but the last.\<close>

lemma save_nodes:
  assumes "save_in new_node bad ow idx elem key m = (err, idx', m')" and "valid_id key" and "ready m"
  shows "ready m' \<and> left m < left m' + length key \<and> left m' \<le> left m \<and>
    (length key \<le> Suc (left m) \<longrightarrow> err = None \<or> err = Some (Err knd_CONFLICT))"
  using assms
proof (induction key arbitrary: idx m err idx' m' rule: induct_list012)
  case 1
  then show ?case by (simp add: valid_id_def)
next
  case (2 c)
  then show ?case by (auto simp: valid_id_def valid_digit_pos Let_def split: if_splits)
next
  case (3 c d rest)
  then have c: "id_pos c \<noteq> -1" and rest: "valid_id (d # rest)"
    by (simp_all add: valid_id_def valid_digit_pos)
  from 3(3) c show ?case
  proof (cases rule: save_below)
    case (Fail e)
    then have "left m = 0" using new_some [OF 3(5)] by auto
    then show ?thesis using Fail 3(5) by simp
  next
    case (Below sub m0 sub')
    have "ready m0 \<and> left m0 \<le> left m \<and> left m \<le> Suc (left m0)"
    proof (cases "m0 = m")
      case False
      then have new: "new_node m = Inr (sub, m0)" using Below(1) by blast
      then have "left m \<noteq> 0" using new_none [OF 3(5)] by auto
      then show ?thesis using new_some [OF 3(5)] new by auto
    qed (use 3(5) in simp)
    then show ?thesis using 3(2) [OF Below(2) rest] by auto
  qed
qed

lemma save_added:
  assumes "save_in new_node bad ow idx elem key m = (None, idx', m')" and "idx_ok idx" and "bad \<noteq> Err knd_CONFLICT"
  shows "valid_id key \<and> idx_ok idx' \<and> elem_at idx' = (elem_at idx)(key \<mapsto> elem) \<and> (ow \<or> elem_at idx key = None)"
proof -
  have v: "valid_id key" using save_invalid [OF assms(1,2) _ assms(3)] by blast
  note s = save_lookup [OF assms(1,2) v]
  have "elem_at idx' k = ((elem_at idx)(key \<mapsto> elem)) k" for k
  proof (cases "valid_id k")
    case True
    then have "digits (id_digits k)" "id_digits k = id_digits key \<longleftrightarrow> k = key"
      using v digits_id_digits id_digits_inject unfolding valid_id_def by blast+
    then show ?thesis using s True v by (auto simp: elem_at_def)
  qed (use v in \<open>auto simp: elem_at_def\<close>)
  then show ?thesis using s v by (auto simp: elem_at_def)
qed

lemma save_failed:
  assumes "save_in new_node bad ow idx elem key m = (Some e, idx', m')" and "idx_ok idx" and "bad \<noteq> Err knd_CONFLICT"
  shows "idx_ok idx' \<and> elem_at idx' = elem_at idx \<and> (e = Err knd_CONFLICT \<longleftrightarrow> \<not> ow \<and> elem_at idx key \<noteq> None) \<and>
    (valid_id key \<and> ready m \<and> length key \<le> Suc (left m) \<longrightarrow> e = Err knd_CONFLICT)"
proof (cases "valid_id key")
  case True
  note s = save_lookup [OF assms(1,2) True]
  then have "elem_at idx' = elem_at idx" by (intro elem_at_eqI) auto
  then show ?thesis using s True save_nodes [OF assms(1) True] by (auto simp: elem_at_def)
next
  case False
  note s = save_invalid [OF assms(1,2) False assms(3)]
  then have "elem_at idx' = elem_at idx" by (intro elem_at_eqI) auto
  then show ?thesis using s False by (auto simp: elem_at_def)
qed

lemma save_taken:
  assumes "save_in new_node bad False idx elem key m = (err, idx', m')" and "idx_ok idx" and "elem_at idx key \<noteq> None"
  shows "err = Some (Err knd_CONFLICT) \<and> idx' = idx \<and> m' = m"
proof -
  have at: "valid_id key" "lookup idx (id_digits key) \<noteq> None"
    using assms(3) by (auto simp: elem_at_def split: if_splits)
  then have err: "err = Some (Err knd_CONFLICT)" using save_lookup [OF assms(1,2)] by simp
  then show ?thesis using save_conflict [OF assms(1) [unfolded err] assms(2) at(2,1)] by simp
qed

text \<open>The memory after a part of the traversal, or the error when it is exhausted.\<close>

definition spent :: "failure option \<Rightarrow> 'm \<Rightarrow> bool" where
  "spent err m \<longleftrightarrow> ready m \<and> (err \<noteq> None \<longrightarrow> err = Some (Err knd_NOMEM) \<and> left m = 0)"

end

definition id_entries :: "'e elem_idx \<Rightarrow> (byte list \<times> 'e) list" where
  "id_entries idx = map (apfst digits_id) (idx_entries idx)"

lemma id_entries_map:
  assumes "idx_ok idx"
  shows "distinct (map fst (id_entries idx))" and "map_of (id_entries idx) = elem_at idx"
proof -
  have dig: "digits ds" if "ds \<in> set (map fst (idx_entries idx))" for ds
    using that idx_entries_lookup(1) [OF assms] by auto
  have "inj_on digits_id (set (map fst (idx_entries idx)))"
    by (rule inj_onI) (metis dig id_digits_id)
  then have "distinct (map digits_id (map fst (idx_entries idx)))"
    using idx_entries_distinct(1) [OF assms] by (simp only: distinct_map)
  moreover have "map fst (id_entries idx) = map digits_id (map fst (idx_entries idx))"
    by (simp add: id_entries_def)
  ultimately show d: "distinct (map fst (id_entries idx))" by metis
  have "map_of (id_entries idx) key = Some e \<longleftrightarrow> elem_at idx key = Some e" for key e
  proof -
    have "map_of (id_entries idx) key = Some e \<longleftrightarrow> (key, e) \<in> set (id_entries idx)"
      using d by (rule map_of_eq_Some_iff)
    also have "\<dots> \<longleftrightarrow> (\<exists>ds. key = digits_id ds \<and> digits ds \<and> lookup idx ds = Some e)"
      using idx_entries_lookup(1) [OF assms] by (force simp: id_entries_def)
    also have "\<dots> \<longleftrightarrow> list_all valid_digit key \<and> lookup idx (id_digits key) = Some e"
      using digits_id_inverse id_digits_id valid_digits_id digits_id_digits by metis
    also have "\<dots> \<longleftrightarrow> elem_at idx key = Some e"
      by (cases key) (auto simp: elem_at_def valid_id_def)
    finally show ?thesis .
  qed
  then show "map_of (id_entries idx) = elem_at idx"
    by (intro ext) (metis not_None_eq)
qed

lemma card_dom_elem_at: "idx_ok idx \<Longrightarrow> card (dom (elem_at idx)) = length (idx_entries idx)"
  using id_entries_map [of idx] by (metis dom_map_of_conv_image_fst distinct_card length_map list.set_map id_entries_def)

context node_source
begin

lemma traverse_common:
  shows "traverse_in new_node base idxs (empty_idx, n, m) = (err, res', n', m') \<Longrightarrow>
      idx_ok base \<Longrightarrow> \<forall>idx\<in>set idxs. idx_ok idx \<Longrightarrow> ready m \<Longrightarrow>
      idx_ok res' \<and> spent err m' \<and>
      (err = None \<longrightarrow> n' = n + length (idx_entries res') \<and> (\<forall>ds. digits ds \<longrightarrow> lookup res' ds = common base idxs ds))"
    and "traverse_subs_in new_node subs i idxs (res, n, m) = (err, res', n', m') \<Longrightarrow>
      subs_ok subs \<Longrightarrow> i + length subs = 62 \<Longrightarrow> \<forall>idx\<in>set idxs. idx_ok idx \<Longrightarrow> idx_ok res \<Longrightarrow>
      \<forall>j. i \<le> j \<and> j < 62 \<longrightarrow> idx_idxs res ! j = None \<Longrightarrow> ready m \<Longrightarrow>
      idx_ok res' \<and> spent err m' \<and> idx_elems res' = idx_elems res \<and>
      (err = None \<longrightarrow> n' + length (idx_entries res) = n + length (idx_entries res') \<and>
        (\<forall>x y rest. x < 62 \<and> digits (y # rest) \<longrightarrow> lookup res' (x # y # rest) =
          (if x < i then lookup res (x # y # rest) else common_sub (subs ! (x - i)) x idxs (y # rest))))"
proof (induction base and subs arbitrary: idxs n m err res' n' m' and i idxs res n m err res' n' m'
    rule: idx_ok_subs_ok.induct)
  case (1 elems subs)
  have len: "length elems = 62" "length subs = 62" "subs_ok subs" using 1(3) by simp_all
  obtain es n1 where c: "common_elems idxs 0 elems (idx_elems empty_idx, n) = (es, n1)" by (metis surj_pair)
  have ce: "length es = 62" "n1 = n + count_some es" "\<forall>j<62. es ! j = (if in_all j idxs then elems ! j else None)"
    using common_elems_spec [OF c] len by (auto simp: empty_idx_def count_some_def)
  define res where "res = Elem_Idx es (idx_idxs (empty_idx :: 'e elem_idx))"
  have ok1: "idx_ok res" using ce by (simp add: res_def empty_idx_def subs_ok_iff)
  have "idx_ok res' \<and> spent err m' \<and> idx_elems res' = idx_elems res \<and>
      (err = None \<longrightarrow> n' + length (idx_entries res) = n1 + length (idx_entries res') \<and>
        (\<forall>x y rest. x < 62 \<and> digits (y # rest) \<longrightarrow> lookup res' (x # y # rest) =
          (if x < 0 then lookup res (x # y # rest) else common_sub (subs ! (x - 0)) x idxs (y # rest))))"
    by (rule 1(1)) (use 1(2,4,5) c len ok1 in \<open>simp_all add: res_def empty_idx_def\<close>)
  then have IH: "idx_ok res' \<and> spent err m' \<and> idx_elems res' = es \<and>
      (err = None \<longrightarrow> n' + length (idx_entries res) = n1 + length (idx_entries res') \<and>
        (\<forall>x y rest. x < 62 \<and> digits (y # rest) \<longrightarrow> lookup res' (x # y # rest) =
          common_sub (subs ! x) x idxs (y # rest)))" by (simp add: res_def)
  have size: "length (idx_entries res) = count_some es"
    by (simp add: res_def length_elem_entries length_sub_entries empty_idx_def sub_size_def)
  have "lookup res' ds = common (Elem_Idx elems subs) idxs ds" if "err = None" "digits ds" for ds
  proof (cases ds)
    case Nil
    then show ?thesis by (simp add: common_def)
  next
    case (Cons x xs)
    show ?thesis
    proof (cases xs)
      case Nil
      then show ?thesis using Cons that IH ce(3)
        by (auto simp: common_def in_all_def list_all_iff)
    next
      case (Cons y rest)
      with \<open>ds = x # xs\<close> show ?thesis using that IH by (simp add: common_deeper)
    qed
  qed
  then show ?case using IH size ce(2) by auto
next
  case 2
  then show ?case by (auto simp: spent_def)
next
  case (3 subs)
  have IH: "idx_ok res' \<and> spent err m' \<and> idx_elems res' = idx_elems res \<and>
      (err = None \<longrightarrow> n' + length (idx_entries res) = n + length (idx_entries res') \<and>
        (\<forall>x y rest. x < 62 \<and> digits (y # rest) \<longrightarrow> lookup res' (x # y # rest) =
          (if x < Suc i then lookup res (x # y # rest) else common_sub (subs ! (x - Suc i)) x idxs (y # rest))))"
    by (rule 3(1)) (use 3(2-) in auto)
  have "lookup res (i # y # rest) = None" for y rest using 3(4,7) by simp
  then show ?case using IH by (auto simp: less_Suc_eq common_sub_def nth_Cons')
next
  case (4 sub subs)
  have i: "i < 62" "idx_idxs res ! i = None" using 4(5,8) by simp_all
  then have none: "lookup res (i # y # rest) = None" for y rest by simp
  have oks: "idx_ok sub" "subs_ok subs" using 4(4) by simp_all
  show ?case
  proof (cases "nested_at i idxs")
    case None
    have IH: "idx_ok res' \<and> spent err m' \<and> idx_elems res' = idx_elems res \<and>
        (err = None \<longrightarrow> n' + length (idx_entries res) = n + length (idx_entries res') \<and>
          (\<forall>x y rest. x < 62 \<and> digits (y # rest) \<longrightarrow> lookup res' (x # y # rest) =
            (if x < Suc i then lookup res (x # y # rest) else common_sub (subs ! (x - Suc i)) x idxs (y # rest))))"
      by (rule 4(2)) (use 4(3-) None oks in auto)
    then show ?thesis using none None by (auto simp: less_Suc_eq common_sub_def nth_Cons')
  next
    case (Some nested)
    note nok = nested_at_ok [OF Some i(1) 4(6)]
    show ?thesis
    proof (cases "left m = 0")
      case True
      then show ?thesis using 4(3,7,9) Some new_none [OF 4(9) True] by (auto simp: spent_def)
    next
      case False
      then obtain m0 where m0: "new_node m = Inr (empty_idx, m0)" "ready m0" using new_some [OF 4(9)] by blast
      obtain e1 sub' n1 m1 where t: "traverse_in new_node sub nested (empty_idx, n, m0) = (e1, sub', n1, m1)"
        by (metis surj_pair)
      note IH1 = 4(1) [OF t oks(1) nok m0(2)]
      define res1 where "res1 = Elem_Idx (idx_elems res) ((idx_idxs res)[i := Some sub'])"
      have ok1: "idx_ok res1" unfolding res1_def using idx_ok_set_sub 4(7) IH1 by blast
      have look1: "lookup res1 ds = (case ds of x # y # rest \<Rightarrow> if x = i then lookup sub' (y # rest) else lookup res ds
          | _ \<Rightarrow> lookup res ds)" if "digits ds" for ds
        unfolding res1_def by (rule lookup_set_sub [OF 4(7) i(1) that])
      have size1: "length (idx_entries res1) = length (idx_entries res) + length (idx_entries sub')"
        unfolding res1_def using length_idx_entries_sub [of i res sub'] i idx_ok_parts(2) [OF 4(7)] by simp
      have step: "then_step (e1, res1, n1, m1) (\<lambda>st. traverse_subs_in new_node subs (Suc i) idxs st) = (err, res', n', m')"
        using 4(3) Some m0(1) t by (simp add: res1_def)
      show ?thesis
      proof (cases e1)
        case (Some e)
        then show ?thesis using step IH1 ok1 by (auto simp: res1_def)
      next
        case None
        have IH2: "idx_ok res' \<and> spent err m' \<and> idx_elems res' = idx_elems res1 \<and>
            (err = None \<longrightarrow> n' + length (idx_entries res1) = n1 + length (idx_entries res') \<and>
              (\<forall>x y rest. x < 62 \<and> digits (y # rest) \<longrightarrow> lookup res' (x # y # rest) =
                (if x < Suc i then lookup res1 (x # y # rest) else common_sub (subs ! (x - Suc i)) x idxs (y # rest))))"
          by (rule 4(2)) (use step None IH1 ok1 oks 4(5,6,8) in \<open>auto simp: spent_def res1_def nth_list_update\<close>)
        have "lookup res' (x # y # rest) = (if x < i then lookup res (x # y # rest)
            else common_sub ((Some sub # subs) ! (x - i)) x idxs (y # rest))"
          if "err = None" "x < 62" "digits (y # rest)" for x y rest
        proof -
          have "lookup res' (x # y # rest) = (if x < Suc i then lookup res1 (x # y # rest)
              else common_sub (subs ! (x - Suc i)) x idxs (y # rest))" using IH2 that by blast
          moreover have "lookup res1 (x # y # rest) =
              (if x = i then lookup sub' (y # rest) else lookup res (x # y # rest))"
            using look1 [of "x # y # rest"] that by simp
          moreover have "lookup sub' (y # rest) = common_sub (Some sub) i idxs (y # rest)"
            using IH1 None that Some by (simp add: common_sub_def)
          ultimately show ?thesis by (cases "x = i") (auto simp: nth_Cons')
        qed
        then show ?thesis using IH2 IH1 None size1 by (auto simp: res1_def)
      qed
    qed
  qed
qed

lemma traverse_elem_at:
  assumes "traverse_in new_node base idxs (empty_idx, n, m) = (None, res', n', m')"
    and "idx_ok base" and "\<forall>idx\<in>set idxs. idx_ok idx" and "ready m"
  shows "elem_at res' key = (if \<forall>idx\<in>set (base # idxs). elem_at idx key \<noteq> None then elem_at base key else None)"
    and "n' = n + card (dom (elem_at res'))"
proof -
  note T = traverse_common(1) [OF assms]
  then show "n' = n + card (dom (elem_at res'))" by (simp add: card_dom_elem_at)
  show "elem_at res' key = (if \<forall>idx\<in>set (base # idxs). elem_at idx key \<noteq> None then elem_at base key else None)"
  proof (cases "valid_id key")
    case True
    then have "digits (id_digits key)" using digits_id_digits unfolding valid_id_def by blast
    then show ?thesis using T True by (auto simp: elem_at_def common_def)
  qed (simp add: elem_at_None)
qed

end

end
