(* ===== verification/Elem_Set.thy ===== *)
theory Elem_Set
  imports Elem_Idx Mempool "HOL-Library.Multiset"
begin

text \<open>
  The sets of \<^verbatim>\<open>src/knd_set.c\<close>: trees over the 62 digits of an identifier. Nodes are
  pages of a memory pool, which is part of the state.
\<close>

section \<open>State\<close>

record 'e kndSet =
  set_idx :: "'e elem_idx option"
  set_num_elems :: size_t
  set_num_valid_elems :: size_t
  set_allow_overwrite :: bool

text \<open>A node has 992 bytes; the page is cleared.\<close>

definition knd_set_elem_idx_new :: "kndMemPool \<Rightarrow> ('e elem_idx \<times> kndMemPool) result" where
  "knd_set_elem_idx_new mempool =
     (if pc_page_size (mp_base mempool) < 992 then Inl Stuck
      else bind_result (knd_mempool_page mempool KND_MEMPAGE_BASE) (\<lambda>(_, mempool). Inr (empty_idx, mempool)))"

text \<open>A set has 80 bytes.\<close>

definition knd_set_new :: "kndMemPool \<Rightarrow> failure option \<times> 'e kndSet option \<times> kndMemPool" where
  "knd_set_new mempool =
     (if pc_page_size (mp_small mempool) < 80 then (Some Stuck, None, mempool)
      else case knd_mempool_page mempool KND_MEMPAGE_SMALL of
        Inl e \<Rightarrow> (Some e, None, mempool)
      | Inr (_, mempool) \<Rightarrow>
          (case knd_set_elem_idx_new mempool of
             Inl e \<Rightarrow> (Some e, None, mempool)
           | Inr (idx, mempool) \<Rightarrow>
               (None, Some \<lparr>set_idx = Some idx, set_num_elems = 0, set_num_valid_elems = 0,
                  set_allow_overwrite = False\<rparr>, mempool)))"

section \<open>Adding and getting\<close>

text \<open>The position of a byte that is not a digit is -1, an index outside the arrays.\<close>

definition save_elem ::
  "bool \<Rightarrow> 'e elem_idx \<Rightarrow> 'e \<Rightarrow> byte list \<Rightarrow> kndMemPool \<Rightarrow> failure option \<times> 'e elem_idx \<times> kndMemPool" where
  "save_elem = save_in knd_set_elem_idx_new Stuck"

definition get_elem :: "'e elem_idx \<Rightarrow> byte list \<Rightarrow> 'e result" where
  "get_elem = get_in Stuck"

text \<open>A \<^verbatim>\<open>NULL\<close> root is dereferenced by \<open>add\<close> but checked by \<open>get\<close> and \<open>map\<close>.\<close>

definition knd_set_add :: "'e kndSet \<Rightarrow> byte list \<Rightarrow> 'e \<Rightarrow> kndMemPool \<Rightarrow> failure option \<times> 'e kndSet \<times> kndMemPool" where
  "knd_set_add self key elem mempool =
     (if length key = 0 then (Some Stuck, self, mempool)
      else case set_idx self of
        None \<Rightarrow> (Some Stuck, self, mempool)
      | Some idx \<Rightarrow>
          (case save_elem (set_allow_overwrite self) idx elem key mempool of
             (Some e, idx, mempool) \<Rightarrow> (Some e, self\<lparr>set_idx := Some idx\<rparr>, mempool)
           | (None, idx, mempool) \<Rightarrow>
               (None, self\<lparr>set_idx := Some idx, set_num_elems := set_num_elems self + 1,
                  set_num_valid_elems := set_num_valid_elems self + 1\<rparr>, mempool)))"

definition knd_set_get :: "'e kndSet \<Rightarrow> byte list \<Rightarrow> 'e result" where
  "knd_set_get self key =
     (case set_idx self of None \<Rightarrow> Inl (Err knd_FAIL) | Some idx \<Rightarrow> get_elem idx key)"

section \<open>Visiting all elements\<close>

definition knd_set_map :: "'e kndSet \<Rightarrow> ('o, 'e) map_cb \<Rightarrow> 'o \<Rightarrow> failure option \<times> 'o" where
  "knd_set_map self cb obj =
     (case set_idx self of
        None \<Rightarrow> (None, obj)
      | Some idx \<Rightarrow> (case traverse_idx cb idx (obj, 0) of (err, obj, _) \<Rightarrow> (err, obj)))"

section \<open>Intersection\<close>

definition set_traverse ::
  "'e elem_idx \<Rightarrow> 'e elem_idx list \<Rightarrow> ('e, kndMemPool) inter_state \<Rightarrow> failure option \<times> ('e, kndMemPool) inter_state" where
  "set_traverse = traverse_in knd_set_elem_idx_new"

text \<open>
  \<^verbatim>\<open>qsort\<close> is a parameter: it may order sets of equal size in any way. The arrays of nested
  nodes hold \<^verbatim>\<open>KND_MAX_CLAUSES\<close> entries. All sets have a root.
\<close>

definition knd_set_intersect ::
  "('e kndSet list \<Rightarrow> 'e kndSet list) \<Rightarrow> 'e kndSet \<Rightarrow> 'e kndSet list \<Rightarrow> kndMemPool \<Rightarrow>
   failure option \<times> 'e kndSet \<times> kndMemPool" where
  "knd_set_intersect qsort self sets mempool =
     (if length sets = 1 then (Some (Err knd_FAIL), self, mempool)
      else if sets = [] \<or> length sets - 1 > KND_MAX_CLAUSES then (Some Stuck, self, mempool)
      else
        (case (those (map set_idx (qsort sets)), set_idx self) of
           (Some (base_idx # idxs), Some idx) \<Rightarrow>
             (case set_traverse base_idx idxs (idx, 0, mempool) of
                (err, idx, n, mempool) \<Rightarrow>
                  (err, self\<lparr>set_idx := Some idx, set_num_elems := set_num_elems self + of_nat n,
                     set_num_valid_elems := set_num_valid_elems self + of_nat n\<rparr>, mempool))
         | _ \<Rightarrow> (Some Stuck, self, mempool)))"

section \<open>Nodes and pages\<close>

definition nodes_ready :: "kndMemPool \<Rightarrow> bool" where
  "nodes_ready mempool \<longleftrightarrow> pool_ready mempool \<and> 992 \<le> pc_page_size (mp_base mempool)"

abbreviation nodes_left :: "kndMemPool \<Rightarrow> nat" where
  "nodes_left mempool \<equiv> length (pages_left KND_MEMPAGE_BASE mempool)"

lemma page_keeps_size:
  "knd_mempool_page mempool KND_MEMPAGE_BASE = Inr (p, mempool') \<Longrightarrow>
   pc_page_size (mp_base mempool') = pc_page_size (mp_base mempool)"
  by (auto simp: knd_mempool_page_def incr_page_def get_page_def get_shared_page_def Let_def
      split: if_splits knd_mempool_type.splits)

lemma elem_idx_new_none:
  "nodes_ready mempool \<Longrightarrow> nodes_left mempool = 0 \<Longrightarrow> knd_set_elem_idx_new mempool = Inl (Err knd_NOMEM)"
  using pages_left_step [of mempool KND_MEMPAGE_BASE]
  by (auto simp: nodes_ready_def knd_set_elem_idx_new_def)

lemma elem_idx_new_some:
  assumes "nodes_ready mempool" and "nodes_left mempool \<noteq> 0"
  shows "\<exists>mempool'. knd_set_elem_idx_new mempool = Inr (empty_idx, mempool') \<and> nodes_ready mempool' \<and>
    nodes_left mempool = Suc (nodes_left mempool')"
proof -
  from assms(2) obtain p ps where "pages_left KND_MEMPAGE_BASE mempool = p # ps"
    by (cases "pages_left KND_MEMPAGE_BASE mempool") auto
  then obtain m where m: "knd_mempool_page mempool KND_MEMPAGE_BASE = Inr (p, m)" "pool_ready m"
    "pages_left KND_MEMPAGE_BASE m = ps"
    using assms pages_left_step [of mempool KND_MEMPAGE_BASE] by (auto simp: nodes_ready_def)
  then show ?thesis using assms \<open>pages_left KND_MEMPAGE_BASE mempool = p # ps\<close> page_keeps_size [OF m(1)]
    by (auto simp: nodes_ready_def knd_set_elem_idx_new_def)
qed

lemma elem_idx_new_Inr: "knd_set_elem_idx_new mempool = Inr (idx, mempool') \<Longrightarrow> idx = empty_idx"
  by (auto simp: knd_set_elem_idx_new_def bind_result_eq_Inr split: if_splits)

lemma elem_idx_new_no_conflict: "knd_set_elem_idx_new mempool = Inl e \<Longrightarrow> e \<noteq> Err knd_CONFLICT"
  by (auto simp: knd_set_elem_idx_new_def bind_result_def knd_mempool_page_def get_page_def get_shared_page_def
      incr_page_def Let_def split: if_splits knd_mempool_type.splits)

interpretation pool_nodes: node_source knd_set_elem_idx_new nodes_ready "\<lambda>mempool. nodes_left mempool"
  by unfold_locales (auto intro: elem_idx_new_Inr elem_idx_new_none elem_idx_new_some dest: elem_idx_new_no_conflict)

lemmas save_elem_added = pool_nodes.save_added [where bad = Stuck, folded save_elem_def, simplified]
  and save_elem_failed = pool_nodes.save_failed [where bad = Stuck, folded save_elem_def, simplified]
  and save_elem_taken = pool_nodes.save_taken [where bad = Stuck, folded save_elem_def]
  and get_elem_lookup = get_in_lookup [where invalid = Stuck, folded get_elem_def]

section \<open>Sets as maps\<close>

definition set_ok :: "'e kndSet \<Rightarrow> bool" where
  "set_ok self \<longleftrightarrow> (case set_idx self of None \<Rightarrow> False | Some idx \<Rightarrow> idx_ok idx)"

definition set_at :: "'e kndSet \<Rightarrow> byte list \<Rightarrow> 'e option" where
  "set_at self key = (case set_idx self of None \<Rightarrow> None | Some idx \<Rightarrow> elem_at idx key)"

lemma set_idx_same [simp]: "set_idx self = Some idx \<Longrightarrow> self\<lparr>set_idx := Some idx\<rparr> = self"
  by (cases self) simp

lemma set_add_cases:
  assumes "set_ok self"
  obtains idx err idx' mempool' where "set_idx self = Some idx" "idx_ok idx"
    "save_elem (set_allow_overwrite self) idx elem key mempool = (err, idx', mempool')"
    "knd_set_add self key elem mempool = (err,
       (if err = None then self\<lparr>set_idx := Some idx', set_num_elems := set_num_elems self + 1,
          set_num_valid_elems := set_num_valid_elems self + 1\<rparr> else self\<lparr>set_idx := Some idx'\<rparr>), mempool')"
proof -
  from assms obtain idx where idx: "set_idx self = Some idx" "idx_ok idx"
    by (auto simp: set_ok_def split: option.splits)
  obtain err idx' mempool' where s:
    "save_elem (set_allow_overwrite self) idx elem key mempool = (err, idx', mempool')" by (metis surj_pair)
  show ?thesis
  proof (cases "key = []")
    case True
    then show ?thesis using idx s by (intro that [of idx "Some Stuck" idx mempool]) (auto simp: knd_set_add_def save_elem_def)
  next
    case False
    then show ?thesis using idx s
      by (intro that [of idx err idx' mempool']) (cases err; simp add: knd_set_add_def)+
  qed
qed

lemma set_add_effect:
  assumes "set_ok self"
  shows "case knd_set_add self key elem mempool of
       (None, self', mempool') \<Rightarrow> valid_id key \<and> set_ok self' \<and> set_at self' = (set_at self)(key \<mapsto> elem) \<and>
         set_num_elems self' = set_num_elems self + 1 \<and> (set_allow_overwrite self \<or> set_at self key = None)
     | (Some e, self', mempool') \<Rightarrow> set_ok self' \<and> set_at self' = set_at self \<and>
         set_num_elems self' = set_num_elems self \<and>
         (e = Err knd_CONFLICT \<longleftrightarrow> \<not> set_allow_overwrite self \<and> set_at self key \<noteq> None) \<and>
         (valid_id key \<and> nodes_ready mempool \<and> length key \<le> Suc (nodes_left mempool) \<longrightarrow> e = Err knd_CONFLICT)"
proof (rule set_add_cases [OF assms, of elem key mempool])
  fix idx err idx' mempool'
  assume idx: "set_idx self = Some idx" "idx_ok idx"
    and s: "save_elem (set_allow_overwrite self) idx elem key mempool = (err, idx', mempool')"
    and add: "knd_set_add self key elem mempool = (err,
       (if err = None then self\<lparr>set_idx := Some idx', set_num_elems := set_num_elems self + 1,
          set_num_valid_elems := set_num_valid_elems self + 1\<rparr> else self\<lparr>set_idx := Some idx'\<rparr>), mempool')"
  show ?thesis
  proof (cases err)
    case None
    then show ?thesis using add idx save_elem_added [OF s [unfolded None] idx(2)]
      by (simp add: set_ok_def set_at_def fun_eq_iff)
  next
    case (Some e)
    then show ?thesis using add idx save_elem_failed [OF s [unfolded Some] idx(2)]
      by (simp add: set_ok_def set_at_def fun_eq_iff)
  qed
qed

text \<open>C30: a set behaves as a map from identifiers to elements. \<open>get\<close> reads the map. \<open>add\<close> binds the
  identifier when it returns without an error, which needs valid digits and, unless the set may
  be overwritten, a free identifier; after an error the map is unchanged, and a conflict is
  reported exactly for a taken identifier. With a page left for every digit but the last
  nothing else can go wrong.\<close>
theorem set_refines_map:
  assumes "set_ok self"
  shows "(valid_id key \<longrightarrow> knd_set_get self key =
      (case set_at self key of None \<Rightarrow> Inl (Err knd_NO_MATCH) | Some elem \<Rightarrow> Inr elem)) \<and>
    (case knd_set_add self key elem mempool of
       (None, self', mempool') \<Rightarrow> valid_id key \<and> set_ok self' \<and> set_at self' = (set_at self)(key \<mapsto> elem) \<and>
         set_num_elems self' = set_num_elems self + 1 \<and> (set_allow_overwrite self \<or> set_at self key = None)
     | (Some e, self', mempool') \<Rightarrow> set_ok self' \<and> set_at self' = set_at self \<and>
         set_num_elems self' = set_num_elems self \<and>
         (e = Err knd_CONFLICT \<longleftrightarrow> \<not> set_allow_overwrite self \<and> set_at self key \<noteq> None) \<and>
         (valid_id key \<and> nodes_ready mempool \<and> length key \<le> Suc (nodes_left mempool) \<longrightarrow> e = Err knd_CONFLICT))"
proof
  obtain idx where "set_idx self = Some idx" using assms by (auto simp: set_ok_def split: option.splits)
  then show "valid_id key \<longrightarrow> knd_set_get self key =
      (case set_at self key of None \<Rightarrow> Inl (Err knd_NO_MATCH) | Some elem \<Rightarrow> Inr elem)"
    by (simp add: knd_set_get_def set_at_def elem_at_def get_elem_lookup)
qed (rule set_add_effect [OF assms])

definition sample_set :: "nat kndSet" where
  "sample_set = \<lparr>set_idx = Some (Elem_Idx (replicate 62 None)
       (replicate 11 None @ [Some (Elem_Idx (Some 7 # replicate 61 None) (replicate 62 None))] @ replicate 50 None)),
     set_num_elems = 1, set_num_valid_elems = 1, set_allow_overwrite = False\<rparr>"

lemma sample_set_ok: "set_ok sample_set"
  by (simp add: sample_set_def set_ok_def subs_ok_iff)

theorem set_refines_map_witness:
  "set_at sample_set [66, 48] = Some 7 \<and>
   (case knd_set_add sample_set [66, 48] 8 (sample_pool KND_ALLOC_LIST) of
       (None, self', mempool') \<Rightarrow> False
     | (Some e, self', mempool') \<Rightarrow> set_at self' = set_at sample_set \<and> e = Err knd_CONFLICT)"
proof -
  have "set_at sample_set [66, 48] = Some 7" by code_simp
  moreover have "\<not> set_allow_overwrite sample_set" by (simp add: sample_set_def)
  ultimately show ?thesis
    using set_refines_map [OF sample_set_ok, of "[66, 48]" 8 "sample_pool KND_ALLOC_LIST"]
    by (auto split: prod.splits option.splits)
qed

section \<open>Sets as name indices\<close>

definition set_index_ok :: "'e kndSet \<times> kndMemPool \<Rightarrow> bool" where
  "set_index_ok s \<longleftrightarrow> set_ok (fst s) \<and> \<not> set_allow_overwrite (fst s)"

definition set_insert :: "'e kndSet \<times> kndMemPool \<Rightarrow> byte list \<Rightarrow> 'e \<Rightarrow> failure option \<times> 'e kndSet \<times> kndMemPool" where
  "set_insert s key elem = knd_set_add (fst s) key elem (snd s)"

interpretation set_index: name_index set_index_ok "set_at \<circ> fst" set_insert
proof
  fix s :: "'e kndSet \<times> kndMemPool" and k and v :: 'e
  assume "set_index_ok s"
  then have ok: "set_ok (fst s)" "\<not> set_allow_overwrite (fst s)" by (simp_all add: set_index_ok_def)
  then have ow: "set_allow_overwrite (fst s) = False" by simp
  have keep: "set_allow_overwrite (fst s') = set_allow_overwrite (fst s)" if "set_insert s k v = (e, s')" for e s'
    using that by (rule_tac set_add_cases [OF ok(1), of v k "snd s"]) (auto simp: set_insert_def split: if_splits)
  fix e s'
  show "set_insert s k v = (Some (Err knd_CONFLICT), s)" if taken: "(set_at \<circ> fst) s k \<noteq> None"
  proof (rule set_add_cases [OF ok(1), of v k "snd s"])
    fix idx err idx' mempool'
    assume idx: "set_idx (fst s) = Some idx" "idx_ok idx"
      and sv: "save_elem (set_allow_overwrite (fst s)) idx v k (snd s) = (err, idx', mempool')"
      and add: "knd_set_add (fst s) k v (snd s) = (err,
       (if err = None then (fst s)\<lparr>set_idx := Some idx', set_num_elems := set_num_elems (fst s) + 1,
          set_num_valid_elems := set_num_valid_elems (fst s) + 1\<rparr> else (fst s)\<lparr>set_idx := Some idx'\<rparr>), mempool')"
    have "elem_at idx k \<noteq> None" using taken idx by (simp add: set_at_def)
    from save_elem_taken [OF sv [unfolded ow] idx(2) this]
    have "err = Some (Err knd_CONFLICT)" "idx' = idx" "mempool' = snd s" by simp_all
    then show ?thesis using add idx by (cases s) (simp add: set_insert_def)
  qed
  show "set_index_ok s' \<and> (set_at \<circ> fst) s' = ((set_at \<circ> fst) s)(k \<mapsto> v)" if "set_insert s k v = (None, s')"
    using that set_add_effect [OF ok(1), of k v "snd s"] keep [OF that] ok
    by (auto simp: set_insert_def set_index_ok_def)
  show "e \<noteq> Err knd_CONFLICT \<and> set_index_ok s' \<and> (set_at \<circ> fst) s' = (set_at \<circ> fst) s"
    if "(set_at \<circ> fst) s k = None" "set_insert s k v = (Some e, s')"
    using that set_add_effect [OF ok(1), of k v "snd s"] keep [OF that(2)] ok
    by (auto simp: set_insert_def set_index_ok_def)
qed

section \<open>The elements in the order of a visit\<close>

definition set_entries :: "'e kndSet \<Rightarrow> (byte list \<times> 'e) list" where
  "set_entries self = (case set_idx self of None \<Rightarrow> [] | Some idx \<Rightarrow> id_entries idx)"

lemma set_entries_map:
  assumes "set_ok self"
  shows "distinct (map fst (set_entries self))" and "map_of (set_entries self) = set_at self"
  using assms id_entries_map by (auto simp: set_ok_def set_entries_def set_at_def fun_eq_iff split: option.splits)

lemma set_map_run:
  assumes "set_ok self"
  shows "\<exists>entries. distinct (map fst entries) \<and> map_of entries = set_at self \<and>
    knd_set_map self cb obj = (case run_entries cb entries (obj, 0) of (err, obj, calls) \<Rightarrow> (err, obj))"
proof (intro exI conjI)
  show "distinct (map fst (set_entries self))" "map_of (set_entries self) = set_at self"
    using set_entries_map [OF assms] .
  show "knd_set_map self cb obj = (case run_entries cb (set_entries self) (obj, 0) of (err, obj, calls) \<Rightarrow> (err, obj))"
    by (simp add: knd_set_map_def set_entries_def id_entries_def traverse_idx_run(1) split: option.splits)
qed

text \<open>
  The order of a visit, for the digits of two identifiers: at the first place where they differ, or
  where one of them has its last digit, an identifier that ends here comes before those that go on,
  and otherwise the smaller digit first.
\<close>

fun visit_before :: "nat list \<Rightarrow> nat list \<Rightarrow> bool" where
  "visit_before [i] [j] \<longleftrightarrow> i < j"
| "visit_before [i] (j # k # es) \<longleftrightarrow> True"
| "visit_before (i # k # ds) [j] \<longleftrightarrow> False"
| "visit_before (i # k # ds) (j # l # es) \<longleftrightarrow> i < j \<or> i = j \<and> visit_before (k # ds) (l # es)"
| "visit_before _ _ \<longleftrightarrow> False"

lemma elem_entries_sorted: "sorted_wrt visit_before (map fst (elem_entries i elems))"
  by (induction i elems rule: elem_entries.induct) (auto simp: elem_entries_set)

lemma visit_before_Cons: "ds \<noteq> [] \<Longrightarrow> es \<noteq> [] \<Longrightarrow> visit_before (i # ds) (i # es) \<longleftrightarrow> visit_before ds es"
  by (cases ds; cases es) simp_all

lemma sub_entries_form: "(ds, e) \<in> set (sub_entries i subs) \<Longrightarrow> \<exists>j k rest. i \<le> j \<and> ds = j # k # rest"
proof (induction subs arbitrary: i)
  case (Cons sub subs)
  show ?case
  proof (cases sub)
    case None
    then show ?thesis using Cons(1) [of "Suc i"] Cons(2) by force
  next
    case (Some idx)
    then consider ds' where "ds = i # ds'" "(ds', e) \<in> set (idx_entries idx)" | "(ds, e) \<in> set (sub_entries (Suc i) subs)"
      using Cons(2) by auto
    then show ?thesis
    proof cases
      case 1
      then have "ds' \<noteq> []" using idx_entries_nonempty(1) [of idx] by blast
      then show ?thesis using 1(1) by (cases ds') simp_all
    next
      case 2
      then show ?thesis using Cons(1) [of "Suc i"] by force
    qed
  qed
qed simp

lemma idx_entries_sorted:
  fixes idx :: "'e elem_idx"
  shows "sorted_wrt visit_before (map fst (idx_entries idx))"
    "sorted_wrt visit_before (map fst (sub_entries i (subs :: 'e elem_idx option list)))"
proof (induction idx and i subs rule: idx_entries_sub_entries.induct)
  case (1 elems subs)
  have "visit_before ds es" if "(ds, e) \<in> set (elem_entries 0 elems)" "(es, e') \<in> set (sub_entries 0 subs)" for ds e es e'
    using that(1) sub_entries_form [OF that(2)] by (auto simp: elem_entries_set)
  then show ?case using 1 elem_entries_sorted [of 0 elems] by (auto simp: sorted_wrt_append)
next
  case (4 i sub subs)
  have ne: "ds \<noteq> []" if "ds \<in> set (map fst (idx_entries sub))" for ds
    using that idx_entries_nonempty(1) [of sub] by auto
  have "sorted_wrt (\<lambda>ds es. visit_before (i # ds) (i # es)) (map fst (idx_entries sub))"
    by (rule sorted_wrt_mono_rel [OF _ 4(1)]) (simp add: ne visit_before_Cons)
  then have "sorted_wrt visit_before (map ((#) i) (map fst (idx_entries sub)))" by (simp only: sorted_wrt_map)
  moreover have "visit_before (i # ds) es" if "(ds, e) \<in> set (idx_entries sub)" "(es, e') \<in> set (sub_entries (Suc i) subs)" for ds e es e'
  proof -
    have "ds \<in> set (map fst (idx_entries sub))" using that(1) by force
    then obtain k ds' where "ds = k # ds'" using ne [of ds] by (metis neq_Nil_conv)
    then show ?thesis using sub_entries_form [OF that(2)] by auto
  qed
  ultimately show ?case using 4(2) by (auto simp: sorted_wrt_append comp_def sorted_wrt_map)
qed simp_all

lemma id_entries_sorted:
  assumes "idx_ok idx"
  shows "sorted_wrt (\<lambda>k l. visit_before (id_digits k) (id_digits l)) (map fst (id_entries idx))"
proof -
  have "sorted_wrt (\<lambda>ds es. visit_before (id_digits (digits_id ds)) (id_digits (digits_id es))) (map fst (idx_entries idx))"
  proof (rule sorted_wrt_mono_rel [OF _ idx_entries_sorted(1)])
    fix ds es assume "ds \<in> set (map fst (idx_entries idx))" "es \<in> set (map fst (idx_entries idx))" "visit_before ds es"
    moreover have "digits ds" if "ds \<in> set (map fst (idx_entries idx))" for ds
      using that idx_entries_lookup(1) [OF assms] by auto
    ultimately show "visit_before (id_digits (digits_id ds)) (id_digits (digits_id es))"
      using id_digits_id by metis
  qed
  then show ?thesis by (simp add: id_entries_def sorted_wrt_map)
qed

text \<open>C31: mapping a function over a set calls it once for each identifier of the set, in the order of
  \<open>visit_before\<close> (the elements of a node in the order of their digits, before all those below the node),
  with the last digit of the identifier and the number of calls before, and stops at the first error.\<close>
theorem set_map_visits:
  assumes "set_ok self"
  shows "\<exists>entries. sorted_wrt (\<lambda>k l. visit_before (id_digits k) (id_digits l)) (map fst entries) \<and>
    distinct (map fst entries) \<and> map_of entries = set_at self \<and> (\<forall>key\<in>fst ` set entries. valid_id key) \<and>
    knd_set_map self cb obj = (case run_entries cb entries (obj, 0) of (err, obj, calls) \<Rightarrow> (err, obj))"
proof (intro exI conjI)
  show map: "distinct (map fst (set_entries self))" "map_of (set_entries self) = set_at self"
    using set_entries_map [OF assms] .
  show "sorted_wrt (\<lambda>k l. visit_before (id_digits k) (id_digits l)) (map fst (set_entries self))"
    using assms id_entries_sorted by (auto simp: set_ok_def set_entries_def split: option.splits)
  show "\<forall>key\<in>fst ` set (set_entries self). valid_id key"
  proof
    fix key assume "key \<in> fst ` set (set_entries self)"
    then have "set_at self key \<noteq> None" using map(2) by (metis map_of_eq_None_iff)
    then show "valid_id key" using elem_at_None [of key] unfolding set_at_def by (metis option.case_eq_if)
  qed
  show "knd_set_map self cb obj = (case run_entries cb (set_entries self) (obj, 0) of (err, obj, calls) \<Rightarrow> (err, obj))"
    by (simp add: knd_set_map_def set_entries_def id_entries_def traverse_idx_run(1) split: option.splits)
qed

theorem set_map_visits_witness:
  "\<exists>entries. sorted_wrt (\<lambda>k l. visit_before (id_digits k) (id_digits l)) (map fst entries) \<and>
    distinct (map fst entries) \<and> map_of entries = set_at sample_set \<and> (\<forall>key\<in>fst ` set entries. valid_id key) \<and>
    knd_set_map sample_set (\<lambda>obj name calls elem. (None, elem # obj)) [] =
      (case run_entries (\<lambda>obj name calls elem. (None, elem # obj)) entries ([], 0) of (err, obj, calls) \<Rightarrow> (err, obj))"
  by (rule set_map_visits [OF sample_set_ok])

section \<open>What an intersection has\<close>

lemma those_set_idx:
  "\<forall>s\<in>set sets. set_ok s \<Longrightarrow> \<exists>idxs. those (map set_idx sets) = Some idxs \<and>
     list_all2 (\<lambda>s idx. set_idx s = Some idx \<and> idx_ok idx) sets idxs"
  by (induction sets) (auto simp: set_ok_def split: option.splits)

text \<open>C32: intersecting sets into an empty set gives exactly the identifiers that all of them have, with
  the element of a smallest set, and counts them; the only possible error is an exhausted pool.
  Nothing is asked of \<^verbatim>\<open>qsort\<close> but that it sorts by size.\<close>
theorem set_intersect_spec:
  assumes "\<forall>s\<in>set sets. set_ok s" and "set_idx self = Some empty_idx" and "nodes_ready mempool"
    and "2 \<le> length sets" and "length sets \<le> Suc KND_MAX_CLAUSES"
    and "mset (qsort sets) = mset sets" and "sorted (map set_num_elems (qsort sets))"
  shows "case knd_set_intersect qsort self sets mempool of (err, self', mempool') \<Rightarrow>
    set_ok self' \<and>
    (case err of
       None \<Rightarrow> (\<exists>smallest\<in>set sets. (\<forall>s\<in>set sets. set_num_elems smallest \<le> set_num_elems s) \<and>
         (\<forall>key. set_at self' key = (if \<forall>s\<in>set sets. set_at s key \<noteq> None then set_at smallest key else None))) \<and>
         set_num_elems self' = set_num_elems self + of_nat (card (dom (set_at self')))
     | Some e \<Rightarrow> e = Err knd_NOMEM \<and> nodes_left mempool' = 0)"
proof -
  have qs: "set (qsort sets) = set sets" using assms(6) by (rule mset_eq_setD)
  then obtain idxs0 where idxs0: "those (map set_idx (qsort sets)) = Some idxs0"
    "list_all2 (\<lambda>s idx. set_idx s = Some idx \<and> idx_ok idx) (qsort sets) idxs0"
    using assms(1) those_set_idx [of "qsort sets"] by auto
  obtain smallest ss where ss: "qsort sets = smallest # ss"
    using assms(4) qs by (cases "qsort sets") auto
  then obtain base idxs where idxs: "idxs0 = base # idxs" "set_idx smallest = Some base" "idx_ok base"
    "list_all2 (\<lambda>s idx. set_idx s = Some idx \<and> idx_ok idx) ss idxs"
    using idxs0(2) by (auto simp: list_all2_Cons1)
  obtain err res n m where t: "set_traverse base idxs (empty_idx, 0, mempool) = (err, res, n, m)" by (metis surj_pair)
  have ok: "\<forall>idx\<in>set idxs. idx_ok idx"
    using idxs(4) by (auto simp: list_all2_conv_all_nth in_set_conv_nth)
  note T = pool_nodes.traverse_common(1) [OF t [unfolded set_traverse_def] idxs(3) ok assms(3)]
  define self' where "self' = self\<lparr>set_idx := Some res, set_num_elems := set_num_elems self + of_nat n,
    set_num_valid_elems := set_num_valid_elems self + of_nat n\<rparr>"
  have run: "knd_set_intersect qsort self sets mempool = (err, self', m)"
    using assms(2,4,5) idxs0(1) idxs(1) t by (auto simp: knd_set_intersect_def self'_def)
  have ok': "set_ok self'" using T by (simp add: self'_def set_ok_def)
  show ?thesis
  proof (cases err)
    case (Some e)
    then show ?thesis using T run ok' by (simp add: pool_nodes.spent_def)
  next
    case None
    have all: "(\<forall>s\<in>set sets. P s) \<longleftrightarrow> P smallest \<and> (\<forall>s\<in>set ss. P s)" for P
      using qs ss by auto
    have at: "(\<forall>s\<in>set ss. set_at s key \<noteq> None) \<longleftrightarrow> (\<forall>idx\<in>set idxs. elem_at idx key \<noteq> None)" for key
      using idxs(4) by (induction rule: list_all2_induct) (auto simp: set_at_def)
    note C = pool_nodes.traverse_elem_at [OF t [unfolded set_traverse_def None] idxs(3) ok assms(3)]
    have "set_at self' key = (if \<forall>s\<in>set sets. set_at s key \<noteq> None then set_at smallest key else None)" for key
      using C(1) [of key] idxs(2) unfolding all at by (auto simp: set_at_def self'_def)
    moreover have "\<forall>s\<in>set sets. set_num_elems smallest \<le> set_num_elems s" using assms(7) ss all by simp
    moreover have "smallest \<in> set sets" using qs ss by auto
    moreover have "set_num_elems self' = set_num_elems self + of_nat (card (dom (set_at self')))"
      using C(2) by (simp add: self'_def set_at_def [abs_def])
    ultimately show ?thesis unfolding run using ok' None by (simp del: not_None_eq) blast
  qed
qed

lemma sample_nodes_ready: "nodes_ready (sample_pool KND_ALLOC_INCR)"
proof -
  have "pc_page_size (mp_base (sample_pool KND_ALLOC_INCR)) = 1024"
    by (simp add: sample_pool_def alloc_capacity_def alloc_page_buf_def sample_conf_def sample_class_def empty_class_def
        sample_calloc_def knd_mempool_new_def Let_def word_le_nat_alt del: unat_eq_zero)
  then show ?thesis using sample_incr_ready by (simp add: nodes_ready_def)
qed

definition sample_empty_set :: "nat kndSet" where
  "sample_empty_set = sample_set\<lparr>set_idx := Some empty_idx, set_num_elems := 0, set_num_valid_elems := 0\<rparr>"

theorem set_intersect_spec_witness:
  "case knd_set_intersect (\<lambda>sets. sets) sample_empty_set [sample_set, sample_set] (sample_pool KND_ALLOC_INCR) of
     (err, self', mempool') \<Rightarrow> set_ok self' \<and>
    (case err of
       None \<Rightarrow> (\<exists>smallest\<in>set [sample_set, sample_set].
         (\<forall>s\<in>set [sample_set, sample_set]. set_num_elems smallest \<le> set_num_elems s) \<and>
         (\<forall>key. set_at self' key =
           (if \<forall>s\<in>set [sample_set, sample_set]. set_at s key \<noteq> None then set_at smallest key else None))) \<and>
         set_num_elems self' = set_num_elems sample_empty_set + of_nat (card (dom (set_at self')))
     | Some e \<Rightarrow> e = Err knd_NOMEM \<and> nodes_left mempool' = 0)"
  by (rule set_intersect_spec [OF _ _ sample_nodes_ready]) (simp_all add: sample_set_ok sample_empty_set_def)

end
