(* ===== verification/Shared_Set.thy ===== *)
theory Shared_Set
  imports Elem_Set
begin

text \<open>
  The sets that threads share, \<^verbatim>\<open>src/knd_shared_set.c\<close>, as one thread runs them: a
  compare-and-swap then succeeds the first time. The trees are those of \<open>Elem_Idx\<close>. A set
  with a memory pool takes its nodes from it, a set without one from \<^verbatim>\<open>calloc\<close>.
\<close>

section \<open>State\<close>

text \<open>The memory: the pool, \<^verbatim>\<open>NULL\<close> being \<open>None\<close>, and the number of \<^verbatim>\<open>calloc\<close>s that still succeed.\<close>

record set_mem =
  sm_mempool :: "kndMemPool option"
  sm_callocs :: nat

definition calloc_one :: "set_mem \<Rightarrow> set_mem result" where
  "calloc_one m =
     (if sm_callocs m = 0 then Inl (Err knd_NOMEM) else Inr (m\<lparr>sm_callocs := sm_callocs m - 1\<rparr>))"

text \<open>
  A directory describes the block of a node in a file. Its sizes are those of a file, so
  that their sums do not wrap; they are natural numbers.
\<close>

record dir_info =
  elem_block_sizes :: "nat list"
  dir_num_elems :: nat
  payload_block_size :: nat
  payload_footer_size :: nat
  dir_num_subdirs :: nat
  subdir_block_size :: nat
  cell_max_val :: nat
  total_elems :: nat
  global_offset :: nat
  total_size :: nat
  elems_linear_scan :: bool

datatype kndSharedSetDir = Shared_Set_Dir (dir_info: dir_info) (dir_subdirs: "kndSharedSetDir option list")

record 'e kndSharedSet =
  ss_path :: "byte list"
  ss_idx :: "'e elem_idx option"
  ss_num_elems :: size_t
  ss_num_valid_elems :: size_t
  ss_dir :: "kndSharedSetDir option"
  ss_allow_overwrite :: bool

section \<open>Allocation\<close>

text \<open>The structures have 992, 1072 and 1080 bytes.\<close>

definition knd_shared_set_elem_idx_new :: "set_mem \<Rightarrow> ('e elem_idx \<times> set_mem) result" where
  "knd_shared_set_elem_idx_new m =
     (case sm_mempool m of
        None \<Rightarrow> bind_result (calloc_one m) (\<lambda>m. Inr (empty_idx, m))
      | Some mempool \<Rightarrow>
          if pc_page_size (mp_base mempool) < 992 then Inl Stuck
          else bind_result (knd_mempool_page mempool KND_MEMPAGE_BASE)
            (\<lambda>(_, mempool). Inr (empty_idx, m\<lparr>sm_mempool := Some mempool\<rparr>)))"

definition empty_dir :: kndSharedSetDir where
  "empty_dir = Shared_Set_Dir
     \<lparr>elem_block_sizes = replicate KND_RADIX_BASE 0, dir_num_elems = 0, payload_block_size = 0,
      payload_footer_size = 0, dir_num_subdirs = 0, subdir_block_size = 0, cell_max_val = 0, total_elems = 0,
      global_offset = 0, total_size = 0, elems_linear_scan = False\<rparr>
     (replicate KND_RADIX_BASE None)"

definition knd_shared_set_dir_new :: "set_mem \<Rightarrow> (kndSharedSetDir \<times> set_mem) result" where
  "knd_shared_set_dir_new m =
     (case sm_mempool m of
        None \<Rightarrow> bind_result (calloc_one m) (\<lambda>m. Inr (empty_dir, m))
      | Some mempool \<Rightarrow>
          if pc_page_size (mp_small mempool) < 1072 then Inl Stuck
          else bind_result (knd_mempool_page mempool KND_MEMPAGE_SMALL)
            (\<lambda>(_, mempool). Inr (empty_dir, m\<lparr>sm_mempool := Some mempool\<rparr>)))"

definition new_set :: "'e elem_idx \<Rightarrow> 'e kndSharedSet" where
  "new_set idx = \<lparr>ss_path = [], ss_idx = Some idx, ss_num_elems = 0, ss_num_valid_elems = 0, ss_dir = None,
     ss_allow_overwrite = False\<rparr>"

definition knd_shared_set_new :: "set_mem \<Rightarrow> failure option \<times> 'e kndSharedSet option \<times> set_mem" where
  "knd_shared_set_new m =
     (case (case sm_mempool m of
              None \<Rightarrow> calloc_one m
            | Some mempool \<Rightarrow>
                if pc_page_size (mp_small mempool) < 1080 then Inl Stuck
                else bind_result (knd_mempool_page mempool KND_MEMPAGE_SMALL)
                  (\<lambda>(_, mempool). Inr (m\<lparr>sm_mempool := Some mempool\<rparr>))) of
        Inl e \<Rightarrow> (Some e, None, m)
      | Inr m \<Rightarrow>
          (case knd_shared_set_elem_idx_new m of
             Inl e \<Rightarrow> (Some e, None, m)
           | Inr (idx, m) \<Rightarrow> (None, Some (new_set idx), m)))"

section \<open>Operations\<close>

definition shared_save_elem ::
  "bool \<Rightarrow> 'e elem_idx \<Rightarrow> 'e \<Rightarrow> byte list \<Rightarrow> set_mem \<Rightarrow> failure option \<times> 'e elem_idx \<times> set_mem" where
  "shared_save_elem = save_in knd_shared_set_elem_idx_new (Err knd_FORMAT)"

definition shared_get_elem :: "'e elem_idx \<Rightarrow> byte list \<Rightarrow> 'e result" where
  "shared_get_elem = get_in (Err knd_FORMAT)"

text \<open>An empty key and a set without a root break an assertion of \<open>add\<close>.\<close>

definition knd_shared_set_add ::
  "'e kndSharedSet \<Rightarrow> byte list \<Rightarrow> 'e \<Rightarrow> set_mem \<Rightarrow> failure option \<times> 'e kndSharedSet \<times> set_mem" where
  "knd_shared_set_add self key elem m =
     (if length key = 0 then (Some Stuck, self, m)
      else case ss_idx self of
        None \<Rightarrow> (Some Stuck, self, m)
      | Some idx \<Rightarrow>
          (case shared_save_elem (ss_allow_overwrite self) idx elem key m of
             (Some e, idx, m) \<Rightarrow> (Some e, self\<lparr>ss_idx := Some idx\<rparr>, m)
           | (None, idx, m) \<Rightarrow>
               (None, self\<lparr>ss_idx := Some idx, ss_num_elems := ss_num_elems self + 1,
                  ss_num_valid_elems := ss_num_valid_elems self + 1\<rparr>, m)))"

definition knd_shared_set_get :: "'e kndSharedSet \<Rightarrow> byte list \<Rightarrow> 'e result" where
  "knd_shared_set_get self key =
     (case ss_idx self of None \<Rightarrow> Inl (Err knd_FAIL) | Some idx \<Rightarrow> shared_get_elem idx key)"

definition knd_shared_set_map :: "'e kndSharedSet \<Rightarrow> ('o, 'e) map_cb \<Rightarrow> 'o \<Rightarrow> failure option \<times> 'o" where
  "knd_shared_set_map self cb obj =
     (case ss_idx self of
        None \<Rightarrow> (None, obj)
      | Some idx \<Rightarrow> (case traverse_idx cb idx (obj, 0) of (err, obj, _) \<Rightarrow> (err, obj)))"

definition shared_traverse ::
  "'e elem_idx \<Rightarrow> 'e elem_idx list \<Rightarrow> ('e, set_mem) inter_state \<Rightarrow> failure option \<times> ('e, set_mem) inter_state" where
  "shared_traverse = traverse_in knd_shared_set_elem_idx_new"

text \<open>\<^verbatim>\<open>qsort\<close> is a parameter, as for \<open>knd_set_intersect\<close>; fewer than two sets break an assertion.\<close>

definition knd_shared_set_intersect ::
  "('e kndSharedSet list \<Rightarrow> 'e kndSharedSet list) \<Rightarrow> 'e kndSharedSet \<Rightarrow> 'e kndSharedSet list \<Rightarrow> set_mem \<Rightarrow>
   failure option \<times> 'e kndSharedSet \<times> set_mem" where
  "knd_shared_set_intersect qsort self sets m =
     (if \<not> 1 < length sets \<or> length sets - 1 > KND_MAX_CLAUSES then (Some Stuck, self, m)
      else
        (case (those (map ss_idx (qsort sets)), ss_idx self) of
           (Some (base_idx # idxs), Some idx) \<Rightarrow>
             (case shared_traverse base_idx idxs (idx, 0, m) of
                (err, idx, n, m) \<Rightarrow>
                  (err, self\<lparr>ss_idx := Some idx, ss_num_elems := ss_num_elems self + of_nat n,
                     ss_num_valid_elems := ss_num_valid_elems self + of_nat n\<rparr>, m))
         | _ \<Rightarrow> (Some Stuck, self, m)))"

section \<open>The memory as a source of nodes\<close>

definition mem_ready :: "set_mem \<Rightarrow> bool" where
  "mem_ready m \<longleftrightarrow> (case sm_mempool m of None \<Rightarrow> True | Some mempool \<Rightarrow> nodes_ready mempool)"

definition mem_left :: "set_mem \<Rightarrow> nat" where
  "mem_left m = (case sm_mempool m of None \<Rightarrow> sm_callocs m | Some mempool \<Rightarrow> nodes_left mempool)"

lemma shared_idx_new_pool:
  "sm_mempool m = Some mempool \<Longrightarrow> knd_shared_set_elem_idx_new m =
     (case knd_set_elem_idx_new mempool of
        Inl e \<Rightarrow> Inl e | Inr (idx, mempool) \<Rightarrow> Inr (idx, m\<lparr>sm_mempool := Some mempool\<rparr>))"
  by (auto simp: knd_shared_set_elem_idx_new_def knd_set_elem_idx_new_def bind_result_def split: sum.splits)

lemma shared_idx_new_calloc:
  "sm_mempool m = None \<Longrightarrow> knd_shared_set_elem_idx_new m =
     (if sm_callocs m = 0 then Inl (Err knd_NOMEM) else Inr (empty_idx, m\<lparr>sm_callocs := sm_callocs m - 1\<rparr>))"
  by (simp add: knd_shared_set_elem_idx_new_def calloc_one_def)

interpretation mem_nodes: node_source knd_shared_set_elem_idx_new mem_ready mem_left
proof
  fix m m' :: set_mem and idx :: "'e elem_idx"
  show "idx = empty_idx" if "knd_shared_set_elem_idx_new m = Inr (idx, m')"
    using that elem_idx_new_Inr
    by (cases "sm_mempool m") (auto simp: shared_idx_new_pool shared_idx_new_calloc split: if_splits sum.splits)
next
  fix m e
  show "e \<noteq> Err knd_CONFLICT"
    if "(knd_shared_set_elem_idx_new m :: ('e elem_idx \<times> set_mem) result) = Inl e"
    using that elem_idx_new_no_conflict
    by (cases "sm_mempool m") (auto simp: shared_idx_new_pool shared_idx_new_calloc split: if_splits sum.splits)
next
  fix m assume m: "mem_ready m" "mem_left m = 0"
  show "(knd_shared_set_elem_idx_new m :: ('e elem_idx \<times> set_mem) result) = Inl (Err knd_NOMEM)"
  proof (cases "sm_mempool m")
    case (Some mempool)
    then show ?thesis using m
      by (simp add: shared_idx_new_pool mem_ready_def mem_left_def elem_idx_new_none)
  qed (use m in \<open>simp add: shared_idx_new_calloc mem_left_def\<close>)
next
  fix m assume m: "mem_ready m" "mem_left m \<noteq> 0"
  show "\<exists>m'. (knd_shared_set_elem_idx_new m :: ('e elem_idx \<times> set_mem) result) = Inr (empty_idx, m') \<and>
    mem_ready m' \<and> mem_left m = Suc (mem_left m')"
  proof (cases "sm_mempool m")
    case None
    then show ?thesis using m by (simp add: shared_idx_new_calloc mem_ready_def mem_left_def)
  next
    case (Some mempool)
    then have "nodes_ready mempool" "nodes_left mempool \<noteq> 0" using m by (simp_all add: mem_ready_def mem_left_def)
    from elem_idx_new_some [OF this, where ?'a = 'e] show ?thesis using Some
      by (auto simp: shared_idx_new_pool mem_ready_def mem_left_def)
  qed
qed

section \<open>Shared sets as maps\<close>

lemmas shared_save_added = mem_nodes.save_added [where bad = "Err knd_FORMAT", folded shared_save_elem_def, simplified]
  and shared_save_failed = mem_nodes.save_failed [where bad = "Err knd_FORMAT", folded shared_save_elem_def, simplified]
  and shared_save_taken = mem_nodes.save_taken [where bad = "Err knd_FORMAT", folded shared_save_elem_def]
  and shared_get_lookup = get_in_lookup [where invalid = "Err knd_FORMAT", folded shared_get_elem_def]

definition shared_set_ok :: "'e kndSharedSet \<Rightarrow> bool" where
  "shared_set_ok self \<longleftrightarrow> (case ss_idx self of None \<Rightarrow> False | Some idx \<Rightarrow> idx_ok idx)"

definition shared_set_at :: "'e kndSharedSet \<Rightarrow> byte list \<Rightarrow> 'e option" where
  "shared_set_at self key = (case ss_idx self of None \<Rightarrow> None | Some idx \<Rightarrow> elem_at idx key)"

lemma ss_idx_same [simp]: "ss_idx self = Some idx \<Longrightarrow> self\<lparr>ss_idx := Some idx\<rparr> = self"
  by (cases self) simp

lemma shared_add_cases:
  assumes "shared_set_ok self"
  obtains idx err idx' m' where "ss_idx self = Some idx" "idx_ok idx"
    "shared_save_elem (ss_allow_overwrite self) idx elem key m = (err, idx', m')"
    "knd_shared_set_add self key elem m = (err,
       (if err = None then self\<lparr>ss_idx := Some idx', ss_num_elems := ss_num_elems self + 1,
          ss_num_valid_elems := ss_num_valid_elems self + 1\<rparr> else self\<lparr>ss_idx := Some idx'\<rparr>), m')"
proof -
  from assms obtain idx where idx: "ss_idx self = Some idx" "idx_ok idx"
    by (auto simp: shared_set_ok_def split: option.splits)
  obtain err idx' m' where s: "shared_save_elem (ss_allow_overwrite self) idx elem key m = (err, idx', m')"
    by (metis surj_pair)
  show ?thesis
  proof (cases "key = []")
    case True
    then show ?thesis using idx s
      by (intro that [of idx "Some Stuck" idx m]) (auto simp: knd_shared_set_add_def shared_save_elem_def)
  next
    case False
    then show ?thesis using idx s
      by (intro that [of idx err idx' m']) (cases err; simp add: knd_shared_set_add_def)+
  qed
qed

lemma shared_get_invalid:
  "key \<noteq> [] \<Longrightarrow> \<not> list_all valid_digit key \<Longrightarrow> shared_get_elem idx key \<in> {Inl (Err knd_FORMAT), Inl (Err knd_NO_MATCH)}"
  unfolding shared_get_elem_def
  by (induction "Err knd_FORMAT" idx key rule: get_in.induct) (auto simp: valid_digit_pos split: option.splits)

lemma shared_set_add_effect:
  assumes "shared_set_ok self"
  shows "case knd_shared_set_add self key elem m of
       (None, self', m') \<Rightarrow> valid_id key \<and> shared_set_ok self' \<and> shared_set_at self' = (shared_set_at self)(key \<mapsto> elem) \<and>
         ss_num_elems self' = ss_num_elems self + 1 \<and> (ss_allow_overwrite self \<or> shared_set_at self key = None)
     | (Some e, self', m') \<Rightarrow> shared_set_ok self' \<and> shared_set_at self' = shared_set_at self \<and>
         ss_num_elems self' = ss_num_elems self \<and>
         (e = Err knd_CONFLICT \<longleftrightarrow> \<not> ss_allow_overwrite self \<and> shared_set_at self key \<noteq> None) \<and>
         (valid_id key \<and> mem_ready m \<and> length key \<le> Suc (mem_left m) \<longrightarrow> e = Err knd_CONFLICT)"
proof (rule shared_add_cases [OF assms, of elem key m])
  fix idx err idx' m'
  assume idx: "ss_idx self = Some idx" "idx_ok idx"
    and s: "shared_save_elem (ss_allow_overwrite self) idx elem key m = (err, idx', m')"
    and add: "knd_shared_set_add self key elem m = (err,
       (if err = None then self\<lparr>ss_idx := Some idx', ss_num_elems := ss_num_elems self + 1,
          ss_num_valid_elems := ss_num_valid_elems self + 1\<rparr> else self\<lparr>ss_idx := Some idx'\<rparr>), m')"
  show ?thesis
  proof (cases err)
    case None
    then show ?thesis using add idx shared_save_added [OF s [unfolded None] idx(2)]
      by (simp add: shared_set_ok_def shared_set_at_def fun_eq_iff)
  next
    case (Some e)
    then show ?thesis using add idx shared_save_failed [OF s [unfolded Some] idx(2)]
      by (simp add: shared_set_ok_def shared_set_at_def fun_eq_iff)
  qed
qed

text \<open>C33: a shared set run by one thread behaves as a map from identifiers to elements, like a set, but an
  invalid identifier is an error and never out of bounds: \<open>get\<close> then reports \<open>knd_FORMAT\<close> or
  \<open>knd_NO_MATCH\<close>, and \<open>add\<close> leaves the map as it was.\<close>
theorem shared_set_refines_map:
  assumes "shared_set_ok self"
  shows "(if valid_id key then knd_shared_set_get self key =
        (case shared_set_at self key of None \<Rightarrow> Inl (Err knd_NO_MATCH) | Some elem \<Rightarrow> Inr elem)
      else key = [] \<or> knd_shared_set_get self key \<in> {Inl (Err knd_FORMAT), Inl (Err knd_NO_MATCH)}) \<and>
    (case knd_shared_set_add self key elem m of
       (None, self', m') \<Rightarrow> valid_id key \<and> shared_set_ok self' \<and> shared_set_at self' = (shared_set_at self)(key \<mapsto> elem) \<and>
         ss_num_elems self' = ss_num_elems self + 1 \<and> (ss_allow_overwrite self \<or> shared_set_at self key = None)
     | (Some e, self', m') \<Rightarrow> shared_set_ok self' \<and> shared_set_at self' = shared_set_at self \<and>
         ss_num_elems self' = ss_num_elems self \<and>
         (e = Err knd_CONFLICT \<longleftrightarrow> \<not> ss_allow_overwrite self \<and> shared_set_at self key \<noteq> None) \<and>
         (valid_id key \<and> mem_ready m \<and> length key \<le> Suc (mem_left m) \<longrightarrow> e = Err knd_CONFLICT))"
proof
  obtain idx where "ss_idx self = Some idx" using assms by (auto simp: shared_set_ok_def split: option.splits)
  then show "if valid_id key then knd_shared_set_get self key =
        (case shared_set_at self key of None \<Rightarrow> Inl (Err knd_NO_MATCH) | Some elem \<Rightarrow> Inr elem)
      else key = [] \<or> knd_shared_set_get self key \<in> {Inl (Err knd_FORMAT), Inl (Err knd_NO_MATCH)}"
    using shared_get_invalid [of key idx]
    by (auto simp: knd_shared_set_get_def shared_set_at_def elem_at_def shared_get_lookup valid_id_def)
qed (rule shared_set_add_effect [OF assms])

definition sample_shared_set :: "nat kndSharedSet" where
  "sample_shared_set = (new_set (the (set_idx sample_set)))\<lparr>ss_num_elems := 1, ss_num_valid_elems := 1\<rparr>"

lemma sample_shared_set_ok: "shared_set_ok sample_shared_set"
  using sample_set_ok by (simp add: sample_shared_set_def new_set_def shared_set_ok_def set_ok_def sample_set_def)

theorem shared_set_refines_map_witness:
  "shared_set_at sample_shared_set [66, 48] = Some 7 \<and>
   (case knd_shared_set_add sample_shared_set [66, 48] 8 \<lparr>sm_mempool = None, sm_callocs = 4\<rparr> of
       (None, self', m') \<Rightarrow> False
     | (Some e, self', m') \<Rightarrow> shared_set_at self' = shared_set_at sample_shared_set \<and> e = Err knd_CONFLICT)"
proof -
  have "shared_set_at sample_shared_set [66, 48] = Some 7" by code_simp
  moreover have "\<not> ss_allow_overwrite sample_shared_set" by (simp add: sample_shared_set_def new_set_def)
  ultimately show ?thesis
    using shared_set_refines_map [OF sample_shared_set_ok, of "[66, 48]" 8 "\<lparr>sm_mempool = None, sm_callocs = 4\<rparr>"]
    by (auto split: prod.splits option.splits)
qed

section \<open>Shared sets as name indices\<close>

definition shared_set_index_ok :: "'e kndSharedSet \<times> set_mem \<Rightarrow> bool" where
  "shared_set_index_ok s \<longleftrightarrow> shared_set_ok (fst s) \<and> \<not> ss_allow_overwrite (fst s)"

definition shared_set_insert ::
  "'e kndSharedSet \<times> set_mem \<Rightarrow> byte list \<Rightarrow> 'e \<Rightarrow> failure option \<times> 'e kndSharedSet \<times> set_mem" where
  "shared_set_insert s key elem = knd_shared_set_add (fst s) key elem (snd s)"

interpretation shared_set_index: name_index shared_set_index_ok "shared_set_at \<circ> fst" shared_set_insert
proof
  fix s :: "'e kndSharedSet \<times> set_mem" and k and v :: 'e
  assume "shared_set_index_ok s"
  then have ok: "shared_set_ok (fst s)" "\<not> ss_allow_overwrite (fst s)" by (simp_all add: shared_set_index_ok_def)
  then have ow: "ss_allow_overwrite (fst s) = False" by simp
  have keep: "ss_allow_overwrite (fst s') = ss_allow_overwrite (fst s)" if "shared_set_insert s k v = (e, s')" for e s'
    using that by (rule_tac shared_add_cases [OF ok(1), of v k "snd s"]) (auto simp: shared_set_insert_def split: if_splits)
  fix e s'
  show "shared_set_insert s k v = (Some (Err knd_CONFLICT), s)" if taken: "(shared_set_at \<circ> fst) s k \<noteq> None"
  proof (rule shared_add_cases [OF ok(1), of v k "snd s"])
    fix idx err idx' m'
    assume idx: "ss_idx (fst s) = Some idx" "idx_ok idx"
      and sv: "shared_save_elem (ss_allow_overwrite (fst s)) idx v k (snd s) = (err, idx', m')"
      and add: "knd_shared_set_add (fst s) k v (snd s) = (err,
       (if err = None then (fst s)\<lparr>ss_idx := Some idx', ss_num_elems := ss_num_elems (fst s) + 1,
          ss_num_valid_elems := ss_num_valid_elems (fst s) + 1\<rparr> else (fst s)\<lparr>ss_idx := Some idx'\<rparr>), m')"
    have "elem_at idx k \<noteq> None" using taken idx by (simp add: shared_set_at_def)
    from shared_save_taken [OF sv [unfolded ow] idx(2) this]
    have "err = Some (Err knd_CONFLICT)" "idx' = idx" "m' = snd s" by simp_all
    then show ?thesis using add idx by (cases s) (simp add: shared_set_insert_def)
  qed
  show "shared_set_index_ok s' \<and> (shared_set_at \<circ> fst) s' = ((shared_set_at \<circ> fst) s)(k \<mapsto> v)"
    if "shared_set_insert s k v = (None, s')"
    using that shared_set_add_effect [OF ok(1), of k v "snd s"] keep [OF that] ok
    by (auto simp: shared_set_insert_def shared_set_index_ok_def)
  show "e \<noteq> Err knd_CONFLICT \<and> shared_set_index_ok s' \<and> (shared_set_at \<circ> fst) s' = (shared_set_at \<circ> fst) s"
    if "(shared_set_at \<circ> fst) s k = None" "shared_set_insert s k v = (Some e, s')"
    using that shared_set_add_effect [OF ok(1), of k v "snd s"] keep [OF that(2)] ok
    by (auto simp: shared_set_insert_def shared_set_index_ok_def)
qed

end
