(* ===== verification/Gsp_Format.thy ===== *)
theory Gsp_Format
  imports Packing Shared_Set
begin

text \<open>
  The format of the set files that \<^verbatim>\<open>src/knd_shared_set.c\<close> writes and
  \<^verbatim>\<open>src/knd_shared_set.gsp.c\<close> reads, as a function from a tree to bytes. The block of a node is its
  payload, the blocks of its subfolders, a footer with their sizes when there are any, and the
  size of the payload. A short payload is a list of records separated by NULs; a long one ends
  in a footer with the sizes of its elements. Footers have a cell for every digit or only for
  those in use, whichever is shorter.
\<close>

section \<open>Cells\<close>

definition cell_bytes :: "nat \<Rightarrow> nat \<Rightarrow> byte list" where
  "cell_bytes cell_size n = knd_pack_int (of_nat n) cell_size"

fun cells :: "bool \<Rightarrow> nat \<Rightarrow> nat \<Rightarrow> nat list \<Rightarrow> byte list" where
  "cells use_keys cell_size i [] = []"
| "cells use_keys cell_size i (n # ns) =
     (if use_keys then (if n = 0 then [] else obj_id_seq ! i # cell_bytes cell_size n)
      else cell_bytes cell_size n) @ cells use_keys cell_size (Suc i) ns"

definition footer :: "nat \<Rightarrow> nat list \<Rightarrow> byte list" where
  "footer used ns =
     (let use_keys = KND_RADIX_BASE - used > KND_RADIX_BASE div 2;
          cell_size = knd_min_bytes (of_nat (Max (insert 0 (set ns))))
      in cells use_keys cell_size 0 ns @ (if use_keys then [of_nat used] else []) @
         [of_nat cell_size, if use_keys then 1 else 0])"

section \<open>Payload\<close>

text \<open>\<open>render\<close> is the text that the callback writes for an element.\<close>

definition payload_text :: "('e \<Rightarrow> byte list) \<Rightarrow> 'e option list \<Rightarrow> byte list" where
  "payload_text render elems = concat (map (case_option [] render) elems)"

fun keyed_records :: "('e \<Rightarrow> byte list) \<Rightarrow> nat \<Rightarrow> bool \<Rightarrow> 'e option list \<Rightarrow> byte list" where
  "keyed_records render i later [] = []"
| "keyed_records render i later (None # elems) = keyed_records render (Suc i) later elems"
| "keyed_records render i later (Some e # elems) =
     (if later then [0] else []) @ obj_id_seq ! i # render e @ keyed_records render (Suc i) True elems"

definition elem_sizes :: "('e \<Rightarrow> byte list) \<Rightarrow> 'e option list \<Rightarrow> nat list" where
  "elem_sizes render elems = map (case_option 0 (\<lambda>e. length (render e))) elems"

definition is_linear :: "('e \<Rightarrow> byte list) \<Rightarrow> 'e option list \<Rightarrow> bool" where
  "is_linear render elems \<longleftrightarrow> length (payload_text render elems) < 512"

definition payload :: "('e \<Rightarrow> byte list) \<Rightarrow> 'e option list \<Rightarrow> byte list" where
  "payload render elems =
     (if payload_text render elems = [] then []
      else if is_linear render elems then keyed_records render 0 False elems @ [0, 1]
      else payload_text render elems @
        footer (count_some elems) (map (case_option 0 (\<lambda>e. length (render e))) elems))"

definition size_spec :: "nat \<Rightarrow> byte list" where
  "size_spec n = (if n = 0 then [0]
     else cell_bytes (knd_min_bytes (of_nat n)) n @ [of_nat (knd_min_bytes (of_nat n))])"

section \<open>Blocks\<close>

fun block_bytes :: "('e \<Rightarrow> byte list) \<Rightarrow> 'e elem_idx \<Rightarrow> byte list"
  and sub_blocks :: "('e \<Rightarrow> byte list) \<Rightarrow> 'e elem_idx option list \<Rightarrow> byte list list" where
  "block_bytes render (Elem_Idx elems subs) =
     payload render elems @
     (if count_some subs = 0 then []
      else concat (sub_blocks render subs) @ footer (count_some subs) (map length (sub_blocks render subs))) @
     size_spec (length (payload render elems))"
| "sub_blocks render [] = []"
| "sub_blocks render (None # subs) = [] # sub_blocks render subs"
| "sub_blocks render (Some sub # subs) = block_bytes render sub # sub_blocks render subs"

lemma length_sub_blocks [simp]: "length (sub_blocks render subs) = length subs"
proof (induction subs)
  case (Cons s subs)
  then show ?case by (cases s) simp_all
qed simp

lemma block_bytes_nonempty [simp]: "block_bytes render idx \<noteq> []"
  by (cases idx) (simp add: size_spec_def)

lemma drop_Suc_tail: "drop i xs = x # ys \<Longrightarrow> drop (Suc i) xs = ys"
  by (metis drop_Suc list.sel(3) tl_drop)

lemma nth_drop_0: "drop i xs = x # ys \<Longrightarrow> xs ! i = x"
  by (metis drop_eq_Nil hd_drop_conv_nth leI list.distinct(1) list.sel(1))

end
