(* ===== verification/Gsp_Marshall.thy ===== *)
theory Gsp_Marshall
  imports Gsp_Format Output File_Paths
begin

text \<open>
  Writing a shared set to a file, \<^verbatim>\<open>traverse_marshall\<close> and its helpers in
  \<^verbatim>\<open>src/knd_shared_set.c\<close>. The callback that writes an element into the task's output and
  returns its size is a parameter, as is the system call that appends to the file. The report
  of an error in the task's log is not modelled.
\<close>

section \<open>State\<close>

record 'f gsp_state =
  g_out :: kndOutput
  g_file :: 'f
  g_callocs :: nat

type_synonym 'e marshall_cb = "'e \<Rightarrow> kndOutput \<Rightarrow> failure option \<times> nat \<times> kndOutput"

definition g_put :: "(kndOutput \<Rightarrow> out_step) \<Rightarrow> 'f gsp_state \<Rightarrow> ('f gsp_state, unit) outcome" where
  "g_put f s =
     (case f (g_out s) of
        (Some e, out) \<Rightarrow> Inl (e, s\<lparr>g_out := out\<rparr>)
      | (None, out) \<Rightarrow> Inr ((), s\<lparr>g_out := out\<rparr>))"

definition g_cb :: "'e marshall_cb \<Rightarrow> 'e \<Rightarrow> 'f gsp_state \<Rightarrow> ('f gsp_state, nat) outcome" where
  "g_cb cb elem s =
     (case cb elem (g_out s) of
        (Some e, _, out) \<Rightarrow> Inl (e, s\<lparr>g_out := out\<rparr>)
      | (None, block_size, out) \<Rightarrow> Inr (block_size, s\<lparr>g_out := out\<rparr>))"

definition g_append :: "'f write_fun \<Rightarrow> 'f gsp_state \<Rightarrow> ('f gsp_state, unit) outcome" where
  "g_append sys_append s =
     (case knd_append_file sys_append (out_text (g_out s)) (g_file s) of
        (Some e, fs) \<Rightarrow> Inl (e, s\<lparr>g_file := fs\<rparr>)
      | (None, fs) \<Rightarrow> Inr ((), s\<lparr>g_file := fs\<rparr>))"

section \<open>Footers\<close>

fun footer_cells :: "bool \<Rightarrow> nat \<Rightarrow> nat \<Rightarrow> nat list \<Rightarrow> 'f gsp_state \<Rightarrow> ('f gsp_state, unit) outcome" where
  "footer_cells use_keys cell_size i [] s = Inr ((), s)"
| "footer_cells use_keys cell_size i (block_size # sizes) s =
     (if use_keys \<and> block_size = 0 then footer_cells use_keys cell_size (Suc i) sizes s
      else
        bind_out (if use_keys then g_put (\<lambda>out. kndOutput_writec out (obj_id_seq ! i)) s else Inr ((), s)) (\<lambda>_ s.
        bind_out (g_put (\<lambda>out. kndOutput_write out (knd_pack_int (of_nat block_size) cell_size)) s) (\<lambda>_ s.
        footer_cells use_keys cell_size (Suc i) sizes s)))"

definition footer_tail :: "bool \<Rightarrow> nat \<Rightarrow> nat \<Rightarrow> 'f gsp_state \<Rightarrow> ('f gsp_state, unit) outcome" where
  "footer_tail use_keys cell_size used s =
     bind_out (if use_keys then g_put (\<lambda>out. kndOutput_writec out (of_nat used)) s else Inr ((), s)) (\<lambda>_ s.
     bind_out (g_put (\<lambda>out. kndOutput_writec out (of_nat cell_size)) s) (\<lambda>_ s.
     g_put (\<lambda>out. kndOutput_writec out (if use_keys then 1 else 0)) s))"

definition build_elems_footer :: "dir_info \<Rightarrow> bool \<Rightarrow> nat \<Rightarrow> 'f gsp_state \<Rightarrow> ('f gsp_state, unit) outcome" where
  "build_elems_footer dir use_keys cell_size s =
     bind_out (footer_cells use_keys cell_size 0 (elem_block_sizes dir) s) (\<lambda>_ s.
     footer_tail use_keys cell_size (dir_num_elems dir) s)"

definition subdir_size :: "kndSharedSetDir option \<Rightarrow> nat" where
  "subdir_size subdir = (case subdir of None \<Rightarrow> 0 | Some subdir \<Rightarrow> total_size (dir_info subdir))"

definition build_subdirs_footer ::
  "kndSharedSetDir option list \<Rightarrow> dir_info \<Rightarrow> bool \<Rightarrow> nat \<Rightarrow> 'f gsp_state \<Rightarrow> ('f gsp_state, unit) outcome" where
  "build_subdirs_footer subdirs dir use_keys cell_size s =
     bind_out (footer_cells use_keys cell_size 0 (map subdir_size subdirs) s) (\<lambda>_ s.
     footer_tail use_keys cell_size (dir_num_subdirs dir) s)"

section \<open>Elements\<close>

fun marshall_elems ::
  "'e marshall_cb \<Rightarrow> bool \<Rightarrow> nat \<Rightarrow> ('e option \<times> 'e elem_idx option) list \<Rightarrow> dir_info \<Rightarrow> 'f gsp_state \<Rightarrow>
   ('f gsp_state, dir_info) outcome" where
  "marshall_elems cb use_keys i [] dir s = Inr (dir, s)"
| "marshall_elems cb use_keys i ((elem, idx) # rest) dir s =
     (let dir = (if idx = None then dir else dir\<lparr>dir_num_subdirs := dir_num_subdirs dir + 1\<rparr>) in
      case elem of
        None \<Rightarrow> marshall_elems cb use_keys (Suc i) rest dir s
      | Some elem \<Rightarrow>
          bind_out (if use_keys \<and> dir_num_elems dir \<noteq> 0 then g_put (\<lambda>out. kndOutput_writec out 0) s
            else Inr ((), s)) (\<lambda>_ s.
          bind_out (if use_keys then g_put (\<lambda>out. kndOutput_writec out (obj_id_seq ! i)) s
            else Inr ((), s)) (\<lambda>_ s.
          bind_out (g_cb cb elem s) (\<lambda>block_size s.
          marshall_elems cb use_keys (Suc i) rest
            (dir\<lparr>cell_max_val := max (cell_max_val dir) block_size,
               elem_block_sizes := (elem_block_sizes dir)[i := block_size],
               dir_num_elems := dir_num_elems dir + 1\<rparr>) s))))"

text \<open>
  The quotient of \<^verbatim>\<open>KND_SET_MIN_FOOTER_SIZE\<close>, 64, and the size exceeds \<^verbatim>\<open>KND_MAX_IDX_OVERHEAD\<close>,
  0.125, when the size is less than 512.
\<close>

definition marshall_payload ::
  "'f write_fun \<Rightarrow> 'e marshall_cb \<Rightarrow> ('e option \<times> 'e elem_idx option) list \<Rightarrow> dir_info \<Rightarrow> 'f gsp_state \<Rightarrow>
   ('f gsp_state, dir_info) outcome" where
  "marshall_payload sys_append cb slots dir s =
     (let cell_size = knd_min_bytes (of_nat (cell_max_val dir)) in
      bind_out
        (if unat (out_size (g_out s)) < 512 then
           bind_out (g_put kndOutput_reset s) (\<lambda>_ s.
           bind_out (marshall_elems cb True 0 slots (dir\<lparr>dir_num_elems := 0\<rparr>) s) (\<lambda>dir s.
           bind_out (g_put (\<lambda>out. kndOutput_writec out 0) s) (\<lambda>_ s.
           bind_out (g_put (\<lambda>out. kndOutput_writec out 1) s) (\<lambda>_ s. Inr (dir, s)))))
         else
           bind_out (build_elems_footer dir (KND_RADIX_BASE - dir_num_elems dir > KND_RADIX_BASE div 2) cell_size s)
             (\<lambda>_ s. Inr (dir, s)))
      (\<lambda>dir s.
        let dir = dir\<lparr>payload_block_size := unat (out_size (g_out s)), total_elems := dir_num_elems dir,
                    total_size := unat (out_size (g_out s))\<rparr>
        in bind_out (g_append sys_append s) (\<lambda>_ s. Inr (dir, s))))"

section \<open>Blocks\<close>

definition marshall_size_spec ::
  "'f write_fun \<Rightarrow> dir_info \<Rightarrow> 'f gsp_state \<Rightarrow> ('f gsp_state, dir_info) outcome" where
  "marshall_size_spec sys_append dir s =
     bind_out (g_put kndOutput_reset s) (\<lambda>_ s.
     bind_out
       (if payload_block_size dir \<noteq> 0 then
          let byte_size = knd_min_bytes (of_nat (payload_block_size dir)) in
          bind_out (g_put (\<lambda>out. kndOutput_write out (knd_pack_int (of_nat (payload_block_size dir)) byte_size)) s) (\<lambda>_ s.
          bind_out (g_put (\<lambda>out. kndOutput_writec out (of_nat byte_size)) s) (\<lambda>_ s.
          Inr (dir\<lparr>total_size := total_size dir + byte_size + 1\<rparr>, s)))
        else
          bind_out (g_put (\<lambda>out. kndOutput_writec out 0) s) (\<lambda>_ s.
          Inr (dir\<lparr>total_size := total_size dir + 1\<rparr>, s)))
     (\<lambda>dir s. bind_out (g_append sys_append s) (\<lambda>_ s. Inr (dir, s))))"

definition marshall_subdirs_footer ::
  "'f write_fun \<Rightarrow> kndSharedSetDir option list \<Rightarrow> dir_info \<Rightarrow> 'f gsp_state \<Rightarrow> ('f gsp_state, dir_info) outcome" where
  "marshall_subdirs_footer sys_append subdirs dir s =
     bind_out (g_put kndOutput_reset s) (\<lambda>_ s.
     bind_out (build_subdirs_footer subdirs dir (KND_RADIX_BASE - dir_num_subdirs dir > KND_RADIX_BASE div 2)
       (knd_min_bytes (of_nat (cell_max_val dir))) s) (\<lambda>_ s.
     bind_out (g_append sys_append s) (\<lambda>_ s.
     let sz = subdir_block_size dir + unat (out_size (g_out s))
     in Inr (dir\<lparr>subdir_block_size := sz, total_size := total_size dir + sz\<rparr>, s))))"

text \<open>
  \<open>depth\<close> is the number of digits in \<^verbatim>\<open>idbuf\<close>, which has room for \<^verbatim>\<open>KND_ID_SIZE\<close>. The loop over
  the subfolders keeps the directory and its list of subdirectories.
\<close>

fun traverse_marshall ::
  "'f write_fun \<Rightarrow> 'e marshall_cb \<Rightarrow> 'e elem_idx \<Rightarrow> nat \<Rightarrow> 'f gsp_state \<Rightarrow> ('f gsp_state, kndSharedSetDir) outcome"
  and marshall_subdirs ::
  "'f write_fun \<Rightarrow> 'e marshall_cb \<Rightarrow> 'e elem_idx option list \<Rightarrow> nat \<Rightarrow> nat \<Rightarrow>
   dir_info \<times> kndSharedSetDir option list \<Rightarrow> 'f gsp_state \<Rightarrow> ('f gsp_state, dir_info \<times> kndSharedSetDir option list) outcome" where
  "traverse_marshall sys_append cb (Elem_Idx elems subs) depth s =
     (if g_callocs s = 0 then Inl (Err knd_NOMEM, s)
      else
        bind_out (g_put kndOutput_reset (s\<lparr>g_callocs := g_callocs s - 1\<rparr>)) (\<lambda>_ s.
        bind_out (marshall_elems cb False 0 (zip elems subs) (dir_info empty_dir) s) (\<lambda>dir s.
        bind_out (if out_size (g_out s) = 0 then Inr (dir, s)
          else marshall_payload sys_append cb (zip elems subs) dir s) (\<lambda>dir s.
        bind_out
          (if dir_num_subdirs dir = 0 then Inr ((dir, dir_subdirs empty_dir), s)
           else
             bind_out (g_put kndOutput_reset s) (\<lambda>_ s.
             bind_out (marshall_subdirs sys_append cb subs 0 depth
               (dir\<lparr>dir_num_subdirs := 0, cell_max_val := 0\<rparr>, dir_subdirs empty_dir) s) (\<lambda>(dir, subdirs) s.
             bind_out (marshall_subdirs_footer sys_append subdirs dir s) (\<lambda>dir s. Inr ((dir, subdirs), s)))))
          (\<lambda>(dir, subdirs) s.
        bind_out (marshall_size_spec sys_append dir s) (\<lambda>dir s. Inr (Shared_Set_Dir dir subdirs, s)))))))"
| "marshall_subdirs sys_append cb [] i depth d s = Inr (d, s)"
| "marshall_subdirs sys_append cb (None # subs) i depth d s = marshall_subdirs sys_append cb subs (Suc i) depth d s"
| "marshall_subdirs sys_append cb (Some idx # subs) i depth (dir, subdirs) s =
     (if depth \<ge> KND_ID_SIZE then Inl (Stuck, s)
      else
        bind_out (traverse_marshall sys_append cb idx (Suc depth) s) (\<lambda>subdir s.
        marshall_subdirs sys_append cb subs (Suc i) depth
          (dir\<lparr>cell_max_val := max (cell_max_val dir) (total_size (dir_info subdir)),
             total_elems := total_elems dir + total_elems (dir_info subdir),
             subdir_block_size := subdir_block_size dir + total_size (dir_info subdir),
             dir_num_subdirs := dir_num_subdirs dir + 1\<rparr>,
           subdirs[i := Some subdir]) s))"

definition knd_shared_set_marshall ::
  "'f write_fun \<Rightarrow> 'e marshall_cb \<Rightarrow> 'e kndSharedSet \<Rightarrow> 'f gsp_state \<Rightarrow> ('f gsp_state, nat) outcome" where
  "knd_shared_set_marshall sys_append cb self s =
     (case ss_idx self of
        None \<Rightarrow> Inl (Stuck, s)
      | Some idx \<Rightarrow>
          bind_out (traverse_marshall sys_append cb idx 0 s) (\<lambda>root_dir s.
          Inr (total_size (dir_info root_dir), s)))"

section \<open>What each step appends\<close>

definition cb_renders :: "('e \<Rightarrow> byte list) \<Rightarrow> 'e marshall_cb \<Rightarrow> bool" where
  "cb_renders render cb \<longleftrightarrow>
     (\<forall>e out n out'. out_ok out \<longrightarrow> cb e out = (None, n, out') \<longrightarrow>
        out_ok out' \<and> out_text out' = out_text out @ render e \<and> n = length (render e))"

text \<open>The output grew by some bytes, or the output was filed.\<close>

definition grew :: "byte list \<Rightarrow> 'f gsp_state \<Rightarrow> 'f gsp_state \<Rightarrow> bool" where
  "grew bs s s' \<longleftrightarrow> out_ok (g_out s') \<and> out_text (g_out s') = out_text (g_out s) @ bs \<and> g_file s' = g_file s"

lemma grew_trans: "grew a s s1 \<Longrightarrow> grew b s1 s2 \<Longrightarrow> grew (a @ b) s s2"
  by (simp add: grew_def)

lemma grew_refl: "out_ok (g_out s) \<Longrightarrow> grew [] s s"
  by (simp add: grew_def)

lemma length_out_text: "out_ok out \<Longrightarrow> length (out_text out) = unat (out_size out)"
  by (simp add: out_ok_def out_text_def)

lemma write_grows:
  assumes "g_put (\<lambda>out. kndOutput_write out bs) s = Inr (u, s')" and "out_ok (g_out s)" and "length bs < 2 ^ 64"
  shows "grew bs s s'"
proof -
  from assms(1) obtain out' where o: "kndOutput_write (g_out s) bs = (None, out')" "s' = s\<lparr>g_out := out'\<rparr>"
    by (auto simp: g_put_def split: prod.splits option.splits)
  then have "length bs \<le> out_room (g_out s)"
    using output_write [OF assms(2,3)] by (metis not_le option.distinct(1) prod.inject)
  then show ?thesis using output_write [OF assms(2,3)] o by (auto simp: grew_def)
qed

lemma writec_grows:
  assumes "g_put (\<lambda>out. kndOutput_writec out c) s = Inr (u, s')" and "out_ok (g_out s)"
  shows "grew [c] s s'"
proof -
  from assms(1) obtain out' where o: "kndOutput_writec (g_out s) c = (None, out')" "s' = s\<lparr>g_out := out'\<rparr>"
    by (auto simp: g_put_def split: prod.splits option.splits)
  then show ?thesis using output_writec [OF assms(2), of c] by (auto simp: grew_def split: if_splits)
qed

lemma reset_empties:
  assumes "g_put kndOutput_reset s = Inr (u, s')" and "out_ok (g_out s)"
  shows "out_ok (g_out s') \<and> out_text (g_out s') = [] \<and> g_file s' = g_file s"
  using assms output_rtrim [OF assms(2)] by (auto simp: g_put_def split: prod.splits option.splits)

lemma cb_grows:
  assumes "g_cb cb e s = Inr (n, s')" and "cb_renders render cb" and "out_ok (g_out s)"
  shows "grew (render e) s s' \<and> n = length (render e)"
  using assms by (fastforce simp: g_cb_def grew_def cb_renders_def split: prod.splits option.splits)

lemma append_files:
  assumes "g_append sys_append s = Inr (u, s')" and "posix_append sys_append contents"
  shows "contents (g_file s') = contents (g_file s) @ out_text (g_out s) \<and> g_out s' = g_out s"
  using assms by (auto simp: g_append_def split: prod.splits option.splits dest: append_file_contents)

lemma length_pack_int: "length (knd_pack_int v n) \<le> 4"
  by (simp add: pack_defs)

lemma footer_cells_grow:
  "footer_cells use_keys cell_size i sizes s = Inr (u, s') \<Longrightarrow> out_ok (g_out s) \<Longrightarrow>
   grew (cells use_keys cell_size i sizes) s s'"
proof (induction sizes arbitrary: i s)
  case Nil
  then show ?case by (simp add: grew_refl)
next
  case (Cons n sizes)
  show ?case
  proof (cases "use_keys \<and> n = 0")
    case True
    then show ?thesis using Cons by simp
  next
    case False
    then obtain s1 s2 where s: "(if use_keys then g_put (\<lambda>out. kndOutput_writec out (obj_id_seq ! i)) s else Inr ((), s)) = Inr ((), s1)"
      "g_put (\<lambda>out. kndOutput_write out (knd_pack_int (of_nat n) cell_size)) s1 = Inr ((), s2)"
      "footer_cells use_keys cell_size (Suc i) sizes s2 = Inr (u, s')"
      using Cons.prems(1) by (auto simp: bind_out_eq_Inr)
    have g1: "grew (if use_keys then [obj_id_seq ! i] else []) s s1"
      using s(1) writec_grows [of "obj_id_seq ! i" s] Cons.prems(2) grew_refl by (auto split: if_splits)
    have "length (knd_pack_int (of_nat n) cell_size) < 2 ^ 64" using length_pack_int by (rule le_less_trans) simp
    with s(2) g1 have g2: "grew (cell_bytes cell_size n) s1 s2"
      by (auto simp: cell_bytes_def grew_def [of _ s s1] intro: write_grows)
    have g3: "grew (cells use_keys cell_size (Suc i) sizes) s2 s'"
      using Cons.IH [OF s(3)] g2 by (simp add: grew_def)
    show ?thesis using grew_trans [OF grew_trans [OF g1 g2] g3] False by auto
  qed
qed

lemma footer_tail_grows:
  assumes "footer_tail use_keys cell_size used s = Inr (u, s')" and "out_ok (g_out s)"
  shows "grew ((if use_keys then [of_nat used] else []) @ [of_nat cell_size, if use_keys then 1 else 0]) s s'"
proof -
  from assms(1) obtain s1 s2 where s: "(if use_keys then g_put (\<lambda>out. kndOutput_writec out (of_nat used)) s else Inr ((), s)) = Inr ((), s1)"
    "g_put (\<lambda>out. kndOutput_writec out (of_nat cell_size)) s1 = Inr ((), s2)"
    "g_put (\<lambda>out. kndOutput_writec out (if use_keys then 1 else 0)) s2 = Inr (u, s')"
    by (auto simp: footer_tail_def bind_out_eq_Inr)
  have g1: "grew (if use_keys then [of_nat used] else []) s s1"
    using s(1) writec_grows [of "of_nat used" s] assms(2) grew_refl by (auto split: if_splits)
  have g2: "grew [of_nat cell_size] s1 s2" using writec_grows [OF s(2)] g1 by (simp add: grew_def)
  have g3: "grew [if use_keys then 1 else 0] s2 s'" using writec_grows [OF s(3)] g2 by (simp add: grew_def)
  show ?thesis using grew_trans [OF g1 grew_trans [OF g2 g3]] by simp
qed

lemma footer_grows:
  assumes "bind_out (footer_cells (KND_RADIX_BASE - used > KND_RADIX_BASE div 2)
      (knd_min_bytes (of_nat (Max (insert 0 (set sizes))))) 0 sizes s) (\<lambda>_ s.
     footer_tail (KND_RADIX_BASE - used > KND_RADIX_BASE div 2) (knd_min_bytes (of_nat (Max (insert 0 (set sizes))))) used s) = Inr (u, s')"
    and "out_ok (g_out s)"
  shows "grew (footer used sizes) s s'"
proof -
  let ?k = "KND_RADIX_BASE - used > KND_RADIX_BASE div 2" and ?c = "knd_min_bytes (of_nat (Max (insert 0 (set sizes))))"
  from assms(1) obtain s1 where s: "footer_cells ?k ?c 0 sizes s = Inr ((), s1)" "footer_tail ?k ?c used s1 = Inr (u, s')"
    by (auto simp: bind_out_eq_Inr)
  have g1: "grew (cells ?k ?c 0 sizes) s s1" by (rule footer_cells_grow [OF s(1) assms(2)])
  then have "grew ((if ?k then [of_nat used] else []) @ [of_nat ?c, if ?k then 1 else 0]) s1 s'"
    using footer_tail_grows [OF s(2)] by (simp add: grew_def)
  from grew_trans [OF g1 this] show ?thesis unfolding footer_def Let_def .
qed

section \<open>Elements\<close>

lemma marshall_elems_grow:
  assumes "marshall_elems cb use_keys i (zip elems subs) dir s = Inr (dir', s')" and "length subs = length elems"
    and "cb_renders render cb" and "out_ok (g_out s)"
  shows "grew (if use_keys then keyed_records render i (dir_num_elems dir \<noteq> 0) elems else payload_text render elems) s s' \<and>
    (\<exists>sizes. dir' = dir\<lparr>dir_num_subdirs := dir_num_subdirs dir + count_some subs,
       cell_max_val := max (cell_max_val dir) (Max (insert 0 (set (elem_sizes render elems)))),
       elem_block_sizes := sizes, dir_num_elems := dir_num_elems dir + count_some elems\<rparr> \<and>
       (drop i (elem_block_sizes dir) = replicate (length elems) 0 \<and> i \<le> length (elem_block_sizes dir) \<longrightarrow>
          sizes = take i (elem_block_sizes dir) @ elem_sizes render elems))"
  using assms
proof (induction elems arbitrary: i subs dir s)
  case Nil
  then show ?case by (auto simp: grew_refl payload_text_def count_some_def elem_sizes_def intro!: exI [of _ "elem_block_sizes dir'"])
next
  case (Cons elem elems)
  then obtain idx subs' where subs: "subs = idx # subs'" "length subs' = length elems" by (cases subs) auto
  define d where "d = (if idx = None then dir else dir\<lparr>dir_num_subdirs := dir_num_subdirs dir + 1\<rparr>)"
  have d: "elem_block_sizes d = elem_block_sizes dir" "dir_num_elems d = dir_num_elems dir"
    "cell_max_val d = cell_max_val dir"
    "d = dir\<lparr>dir_num_subdirs := dir_num_subdirs dir + count_some [idx]\<rparr>"
    by (auto simp: d_def count_some_def)
  have cs: "count_some (x # xs) = count_some [x] + count_some xs" for x :: "'x option" and xs
    by (simp add: count_some_def)
  show ?case
  proof (cases elem)
    case None
    have "marshall_elems cb use_keys (Suc i) (zip elems subs') d s = Inr (dir', s')"
      using Cons.prems(1) None subs by (simp add: d_def)
    note IH = Cons.IH [OF this subs(2) Cons.prems(3,4)]
    have z: "drop (Suc i) (elem_block_sizes dir) = replicate (length elems) 0 \<and> Suc i \<le> length (elem_block_sizes dir) \<and>
        take (Suc i) (elem_block_sizes dir) = take i (elem_block_sizes dir) @ [0]"
      if "drop i (elem_block_sizes dir) = replicate (length (elem # elems)) 0" "i \<le> length (elem_block_sizes dir)"
    proof -
      have i: "i < length (elem_block_sizes dir)" using arg_cong [OF that(1), of length] that(2) by simp
      then have "elem_block_sizes dir ! i # drop (Suc i) (elem_block_sizes dir) = 0 # replicate (length elems) 0"
        using that(1) by (simp add: Cons_nth_drop_Suc)
      then show ?thesis using i by (simp add: take_Suc_conv_app_nth)
    qed
    have c0: "count_some (None # elems) = count_some elems" by (simp add: count_some_def)
    have m0: "Max (insert 0 (set (elem_sizes render (None # elems)))) = Max (insert 0 (set (elem_sizes render elems)))"
      by (simp add: elem_sizes_def)
    from IH obtain sizes where
      g: "grew (if use_keys then keyed_records render (Suc i) (dir_num_elems d \<noteq> 0) elems else payload_text render elems) s s'"
      and dir': "dir' = d\<lparr>dir_num_subdirs := dir_num_subdirs d + count_some subs',
       cell_max_val := max (cell_max_val d) (Max (insert 0 (set (elem_sizes render elems)))),
       elem_block_sizes := sizes, dir_num_elems := dir_num_elems d + count_some elems\<rparr>"
      and sz: "drop (Suc i) (elem_block_sizes dir) = replicate (length elems) 0 \<and> Suc i \<le> length (elem_block_sizes dir) \<longrightarrow>
          sizes = take (Suc i) (elem_block_sizes dir) @ elem_sizes render elems" unfolding d(1) by blast
    have "grew (if use_keys then keyed_records render i (dir_num_elems dir \<noteq> 0) (elem # elems)
        else payload_text render (elem # elems)) s s'" using g None d(2) by (auto simp: payload_text_def split: if_splits)
    moreover have "dir' = dir\<lparr>dir_num_subdirs := dir_num_subdirs dir + count_some subs,
       cell_max_val := max (cell_max_val dir) (Max (insert 0 (set (elem_sizes render (elem # elems))))),
       elem_block_sizes := sizes, dir_num_elems := dir_num_elems dir + count_some (elem # elems)\<rparr>"
      unfolding dir' d(4) subs(1) None c0 m0 cs [of idx subs'] by simp
    moreover have "sizes = take i (elem_block_sizes dir) @ elem_sizes render (elem # elems)"
      if "drop i (elem_block_sizes dir) = replicate (length (elem # elems)) 0" "i \<le> length (elem_block_sizes dir)"
      using sz z [OF that] None by (simp add: elem_sizes_def)
    ultimately show ?thesis by blast
  next
    case (Some e)
    from Cons.prems(1) obtain s1 s2 s3 n where s:
      "(if use_keys \<and> dir_num_elems d \<noteq> 0 then g_put (\<lambda>out. kndOutput_writec out 0) s else Inr ((), s)) = Inr ((), s1)"
      "(if use_keys then g_put (\<lambda>out. kndOutput_writec out (obj_id_seq ! i)) s1 else Inr ((), s1)) = Inr ((), s2)"
      "g_cb cb e s2 = Inr (n, s3)"
      "marshall_elems cb use_keys (Suc i) (zip elems subs')
         (d\<lparr>cell_max_val := max (cell_max_val d) n, elem_block_sizes := (elem_block_sizes d)[i := n],
            dir_num_elems := dir_num_elems d + 1\<rparr>) s3 = Inr (dir', s')"
      unfolding subs(1) Some by (auto simp: bind_out_eq_Inr Let_def d_def simp del: if_split)
    have g1: "grew (if use_keys \<and> dir_num_elems dir \<noteq> 0 then [0] else []) s s1"
      using s(1) writec_grows [of 0 s] Cons.prems(4) grew_refl d(2) by (auto split: if_splits)
    then have g2: "grew (if use_keys then [obj_id_seq ! i] else []) s1 s2"
      using s(2) writec_grows [of "obj_id_seq ! i" s1] grew_refl by (auto simp: grew_def [of _ s s1] split: if_splits)
    then have g3: "grew (render e) s2 s3" "n = length (render e)"
      using cb_grows [OF s(3) Cons.prems(3)] by (simp_all add: grew_def [of _ s1 s2])
    note IH = Cons.IH [OF s(4) subs(2) Cons.prems(3)]
    have ok3: "out_ok (g_out s3)" using g3 by (simp add: grew_def)
    have z: "drop (Suc i) ((elem_block_sizes dir)[i := n]) = replicate (length elems) 0 \<and>
        Suc i \<le> length ((elem_block_sizes dir)[i := n]) \<and>
        take (Suc i) ((elem_block_sizes dir)[i := n]) = take i (elem_block_sizes dir) @ [n]"
      if "drop i (elem_block_sizes dir) = replicate (length (elem # elems)) 0" "i \<le> length (elem_block_sizes dir)"
    proof -
      have i: "i < length (elem_block_sizes dir)" using arg_cong [OF that(1), of length] that(2) by simp
      then have "elem_block_sizes dir ! i # drop (Suc i) (elem_block_sizes dir) = 0 # replicate (length elems) 0"
        using that(1) by (simp add: Cons_nth_drop_Suc)
      then show ?thesis using i by (simp add: take_Suc_conv_app_nth drop_update_cancel take_update_cancel)
    qed
    have m: "max (max a n) (Max (insert 0 (set xs))) = max a (Max (insert 0 (insert n (set xs))))" for a and xs :: "nat list"
      by (subst insert_commute) (simp add: max.assoc)
    define d1 where "d1 = d\<lparr>cell_max_val := max (cell_max_val d) n, elem_block_sizes := (elem_block_sizes d)[i := n],
      dir_num_elems := dir_num_elems d + 1\<rparr>"
    have d1: "dir_num_elems d1 = Suc (dir_num_elems d)" "elem_block_sizes d1 = (elem_block_sizes dir)[i := n]"
      by (simp_all add: d1_def d(1))
    from IH [OF ok3, folded d1_def] obtain sizes where
      g4: "grew (if use_keys then keyed_records render (Suc i) (dir_num_elems d1 \<noteq> 0) elems else payload_text render elems) s3 s'"
      and dir1: "dir' = d1\<lparr>dir_num_subdirs := dir_num_subdirs d1 + count_some subs',
         cell_max_val := max (cell_max_val d1) (Max (insert 0 (set (elem_sizes render elems)))),
         elem_block_sizes := sizes, dir_num_elems := dir_num_elems d1 + count_some elems\<rparr>"
      and sz: "drop (Suc i) ((elem_block_sizes dir)[i := n]) = replicate (length elems) 0 \<and>
          Suc i \<le> length ((elem_block_sizes dir)[i := n]) \<longrightarrow>
        sizes = take (Suc i) ((elem_block_sizes dir)[i := n]) @ elem_sizes render elems"
      unfolding d1(2) by blast
    have dir': "dir' = d\<lparr>cell_max_val := max (max (cell_max_val d) n) (Max (insert 0 (set (elem_sizes render elems)))),
         dir_num_subdirs := dir_num_subdirs d + count_some subs', elem_block_sizes := sizes,
         dir_num_elems := dir_num_elems d + 1 + count_some elems\<rparr>"
      unfolding dir1 d1_def by simp
    have "grew (if use_keys then keyed_records render i (dir_num_elems dir \<noteq> 0) (elem # elems)
        else payload_text render (elem # elems)) s s'"
      using grew_trans [OF grew_trans [OF grew_trans [OF g1 g2] g3(1)] g4] Some d1(1)
      by (auto simp: payload_text_def split: if_splits)
    moreover have "dir' = dir\<lparr>dir_num_subdirs := dir_num_subdirs dir + count_some subs,
       cell_max_val := max (cell_max_val dir) (Max (insert 0 (set (elem_sizes render (elem # elems))))),
       elem_block_sizes := sizes, dir_num_elems := dir_num_elems dir + count_some (elem # elems)\<rparr>"
    proof -
      have c1: "count_some (Some e # elems) = 1 + count_some elems" by (simp add: count_some_def)
      have m1: "max (cell_max_val dir) (Max (insert 0 (set (elem_sizes render (Some e # elems))))) =
          max (max (cell_max_val dir) n) (Max (insert 0 (set (elem_sizes render elems))))"
        using m [of "cell_max_val dir" "elem_sizes render elems"] g3(2) by (simp add: elem_sizes_def)
      show ?thesis
        unfolding dir' Some c1 m1 subs(1) cs [of idx subs'] by (cases idx) (simp_all add: d_def count_some_def)
    qed
    moreover have "sizes = take i (elem_block_sizes dir) @ elem_sizes render (elem # elems)"
      if "drop i (elem_block_sizes dir) = replicate (length (elem # elems)) 0" "i \<le> length (elem_block_sizes dir)"
      using sz z [OF that] Some g3(2) by (simp add: elem_sizes_def)
    ultimately show ?thesis by blast
  qed
qed

section \<open>Blocks\<close>

lemma payload_text_Nil: "count_some elems = 0 \<Longrightarrow> payload_text render elems = []"
  by (induction elems) (auto simp: count_some_def payload_text_def split: if_splits)

text \<open>A directory whose only entries are those of the payload.\<close>

lemma marshall_payload_files:
  assumes "marshall_payload sys_append cb (zip elems subs) dir s = Inr (dir', s')"
    and "length subs = length elems" and "cb_renders render cb" and "posix_append sys_append contents"
    and "out_ok (g_out s)" and "out_text (g_out s) = payload_text render elems"
    and "payload_text render elems \<noteq> []"
    and "elem_block_sizes dir = elem_sizes render elems" and "dir_num_elems dir = count_some elems"
    and "cell_max_val dir = Max (insert 0 (set (elem_sizes render elems)))"
  shows "contents (g_file s') = contents (g_file s) @ payload render elems \<and> out_ok (g_out s') \<and>
    payload_block_size dir' = length (payload render elems) \<and> total_size dir' = length (payload render elems) \<and>
    total_elems dir' = count_some elems \<and> (dir_num_subdirs dir' = 0 \<longleftrightarrow> dir_num_subdirs dir = 0 \<and> (is_linear render elems \<longrightarrow> count_some subs = 0)) \<and>
    subdir_block_size dir' = subdir_block_size dir"
proof -
  have len: "unat (out_size (g_out s)) = length (payload_text render elems)"
    using length_out_text [OF assms(5)] assms(6) by simp
  show ?thesis
  proof (cases "is_linear render elems")
    case True
    then have lin: "unat (out_size (g_out s)) < 512" using len by (simp add: is_linear_def)
    from assms(1) lin obtain s1 dir2 s2 s3 s4 where r:
      "g_put kndOutput_reset s = Inr ((), s1)"
      "marshall_elems cb True 0 (zip elems subs) (dir\<lparr>dir_num_elems := 0\<rparr>) s1 = Inr (dir2, s2)"
      "g_put (\<lambda>out. kndOutput_writec out 0) s2 = Inr ((), s3)"
      "g_put (\<lambda>out. kndOutput_writec out 1) s3 = Inr ((), s4)"
      "g_append sys_append s4 = Inr ((), s')"
      "dir' = dir2\<lparr>payload_block_size := unat (out_size (g_out s4)), total_elems := dir_num_elems dir2,
         total_size := unat (out_size (g_out s4))\<rparr>"
      by (auto simp: marshall_payload_def Let_def bind_out_eq_Inr)
    note reset = reset_empties [OF r(1) assms(5)]
    from marshall_elems_grow [OF r(2) assms(2,3)] reset obtain sizes where
      g: "grew (keyed_records render 0 False elems) s1 s2" and
      d2: "dir2 = dir\<lparr>dir_num_subdirs := dir_num_subdirs dir + count_some subs,
       cell_max_val := max (cell_max_val dir) (Max (insert 0 (set (elem_sizes render elems)))),
       elem_block_sizes := sizes, dir_num_elems := count_some elems\<rparr>" by auto
    have g3: "grew [0] s2 s3" using writec_grows [OF r(3)] g by (simp add: grew_def)
    have g4: "grew [1] s3 s4" using writec_grows [OF r(4)] g3 by (simp add: grew_def)
    have g5: "grew (payload render elems) s1 s4"
      using grew_trans [OF g grew_trans [OF g3 g4]] True assms(7) by (simp add: payload_def)
    then have t: "out_text (g_out s4) = payload render elems" "out_ok (g_out s4)" "g_file s4 = g_file s"
      using reset by (simp_all add: grew_def)
    then show ?thesis using append_files [OF r(5) assms(4)] r(6) d2 True length_out_text [OF t(2)] by simp
  next
    case False
    then have lin: "\<not> unat (out_size (g_out s)) < 512" using len by (simp add: is_linear_def)
    from assms(1) lin obtain s4 where r:
      "build_elems_footer dir (KND_RADIX_BASE - dir_num_elems dir > KND_RADIX_BASE div 2)
         (knd_min_bytes (of_nat (cell_max_val dir))) s = Inr ((), s4)"
      "g_append sys_append s4 = Inr ((), s')"
      "dir' = dir\<lparr>payload_block_size := unat (out_size (g_out s4)), total_elems := dir_num_elems dir,
         total_size := unat (out_size (g_out s4))\<rparr>"
      by (auto simp: marshall_payload_def Let_def bind_out_eq_Inr)
    have "grew (footer (count_some elems) (elem_sizes render elems)) s s4"
      using footer_grows [OF _ assms(5), of "count_some elems" "elem_sizes render elems"] r(1) assms(8,9,10)
      by (simp add: build_elems_footer_def)
    then have t: "out_text (g_out s4) = payload render elems" "out_ok (g_out s4)" "g_file s4 = g_file s"
      using assms(6,7) False by (simp_all add: grew_def payload_def elem_sizes_def)
    then show ?thesis using append_files [OF r(2) assms(4)] r(3) assms(9) False length_out_text [OF t(2)] by simp
  qed
qed

lemma marshall_size_spec_files:
  assumes "marshall_size_spec sys_append dir s = Inr (dir', s')" and "posix_append sys_append contents"
    and "out_ok (g_out s)"
  shows "contents (g_file s') = contents (g_file s) @ size_spec (payload_block_size dir) \<and> out_ok (g_out s') \<and>
    (\<exists>n. dir' = dir\<lparr>total_size := n\<rparr>) \<and> total_size dir' = total_size dir + length (size_spec (payload_block_size dir))"
proof -
  from assms(1) obtain s1 d2 s2 where r: "g_put kndOutput_reset s = Inr ((), s1)"
    "(if payload_block_size dir \<noteq> 0 then
          let byte_size = knd_min_bytes (of_nat (payload_block_size dir)) in
          bind_out (g_put (\<lambda>out. kndOutput_write out (knd_pack_int (of_nat (payload_block_size dir)) byte_size)) s1) (\<lambda>_ s.
          bind_out (g_put (\<lambda>out. kndOutput_writec out (of_nat byte_size)) s) (\<lambda>_ s.
          Inr (dir\<lparr>total_size := total_size dir + byte_size + 1\<rparr>, s)))
        else
          bind_out (g_put (\<lambda>out. kndOutput_writec out 0) s1) (\<lambda>_ s.
          Inr (dir\<lparr>total_size := total_size dir + 1\<rparr>, s))) = Inr (d2, s2)"
    "g_append sys_append s2 = Inr ((), s')" "dir' = d2"
    by (auto simp: marshall_size_spec_def bind_out_eq_Inr simp del: if_split)
  note reset = reset_empties [OF r(1) assms(3)]
  let ?n = "knd_min_bytes (of_nat (payload_block_size dir))"
  have "out_text (g_out s2) = size_spec (payload_block_size dir) \<and> out_ok (g_out s2) \<and> g_file s2 = g_file s \<and>
    (\<exists>n. d2 = dir\<lparr>total_size := n\<rparr>) \<and> total_size d2 = total_size dir + length (size_spec (payload_block_size dir))"
  proof (cases "payload_block_size dir = 0")
    case True
    then have "g_put (\<lambda>out. kndOutput_writec out 0) s1 = Inr ((), s2)" "d2 = dir\<lparr>total_size := total_size dir + 1\<rparr>"
      using r(2) by (auto simp: bind_out_eq_Inr)
    then show ?thesis using writec_grows [of 0 s1 _ s2] reset True by (auto simp: grew_def size_spec_def)
  next
    case False
    then obtain s3 where w: "g_put (\<lambda>out. kndOutput_write out (knd_pack_int (of_nat (payload_block_size dir)) ?n)) s1 = Inr ((), s3)"
      "g_put (\<lambda>out. kndOutput_writec out (of_nat ?n)) s3 = Inr ((), s2)"
      "d2 = dir\<lparr>total_size := total_size dir + ?n + 1\<rparr>"
      using r(2) by (auto simp: bind_out_eq_Inr Let_def)
    have "length (knd_pack_int (of_nat (payload_block_size dir)) ?n) < 2 ^ 64" using length_pack_int by (rule le_less_trans) simp
    then have g1: "grew (cell_bytes ?n (payload_block_size dir)) s1 s3"
      using write_grows [OF w(1)] reset by (simp add: cell_bytes_def)
    have g2: "grew [of_nat ?n] s3 s2" using writec_grows [OF w(2)] g1 by (simp add: grew_def)
    have "length (cell_bytes ?n (payload_block_size dir)) = ?n"
      by (simp add: cell_bytes_def knd_min_bytes_def pack_defs)
    then show ?thesis using grew_trans [OF g1 g2] reset w(3) False by (auto simp: grew_def size_spec_def)
  qed
  then show ?thesis using append_files [OF r(3) assms(2)] r(4) by auto
qed

lemma marshall_subdirs_footer_files:
  assumes "marshall_subdirs_footer sys_append subdirs dir s = Inr (dir', s')" and "posix_append sys_append contents"
    and "out_ok (g_out s)" and "cell_max_val dir = Max (insert 0 (set (map subdir_size subdirs)))"
  shows "contents (g_file s') = contents (g_file s) @ footer (dir_num_subdirs dir) (map subdir_size subdirs) \<and>
    out_ok (g_out s') \<and> payload_block_size dir' = payload_block_size dir \<and>
    total_size dir' = total_size dir + subdir_block_size dir + length (footer (dir_num_subdirs dir) (map subdir_size subdirs)) \<and>
    total_elems dir' = total_elems dir"
proof -
  from assms(1) obtain s1 s2 where r: "g_put kndOutput_reset s = Inr ((), s1)"
    "build_subdirs_footer subdirs dir (KND_RADIX_BASE - dir_num_subdirs dir > KND_RADIX_BASE div 2)
       (knd_min_bytes (of_nat (cell_max_val dir))) s1 = Inr ((), s2)"
    "g_append sys_append s2 = Inr ((), s')"
    "dir' = dir\<lparr>subdir_block_size := subdir_block_size dir + unat (out_size (g_out s')),
       total_size := total_size dir + (subdir_block_size dir + unat (out_size (g_out s')))\<rparr>"
    by (auto simp: marshall_subdirs_footer_def bind_out_eq_Inr Let_def)
  note reset = reset_empties [OF r(1) assms(3)]
  then have "grew (footer (dir_num_subdirs dir) (map subdir_size subdirs)) s1 s2"
    using footer_grows [of "dir_num_subdirs dir" "map subdir_size subdirs" s1] r(2) assms(4)
    by (simp add: build_subdirs_footer_def)
  then have t: "out_text (g_out s2) = footer (dir_num_subdirs dir) (map subdir_size subdirs)" "out_ok (g_out s2)" "g_file s2 = g_file s"
    using reset by (simp_all add: grew_def)
  then show ?thesis using append_files [OF r(3) assms(2)] r(4) length_out_text [OF t(2)] by simp
qed

section \<open>A tree in the file\<close>

lemma marshall_payload_step:
  assumes "(if out_size (g_out s) = 0 then Inr (dir, s) else marshall_payload sys_append cb (zip elems subs) dir s) =
      Inr (dir', s')"
    and "length subs = length elems" and "cb_renders render cb" and "posix_append sys_append contents"
    and "out_ok (g_out s)" and "out_text (g_out s) = payload_text render elems"
    and "elem_block_sizes dir = elem_sizes render elems" and "dir_num_elems dir = count_some elems"
    and "cell_max_val dir = Max (insert 0 (set (elem_sizes render elems)))"
    and "payload_block_size dir = 0" and "total_size dir = 0" and "dir_num_subdirs dir = count_some subs"
  shows "contents (g_file s') = contents (g_file s) @ payload render elems \<and> out_ok (g_out s') \<and>
    payload_block_size dir' = length (payload render elems) \<and> total_size dir' = length (payload render elems) \<and>
    (dir_num_subdirs dir' = 0 \<longleftrightarrow> count_some subs = 0) \<and> subdir_block_size dir' = subdir_block_size dir"
proof (cases "out_size (g_out s) = 0")
  case True
  then have "payload_text render elems = []" using length_out_text [OF assms(5)] assms(6) by simp
  then show ?thesis using True assms by (simp add: payload_def)
next
  case False
  then have "payload_text render elems \<noteq> []"
    using length_out_text [OF assms(5)] assms(6) by (auto simp: unat_eq_zero)
  then show ?thesis using marshall_payload_files [of sys_append cb elems subs dir s dir' s' render contents] False assms
    by auto
qed

lemma marshall_files:
  "traverse_marshall sys_append cb idx depth s = Inr (d, s') \<Longrightarrow> idx_ok idx \<Longrightarrow> cb_renders render cb \<Longrightarrow>
     posix_append sys_append contents \<Longrightarrow> out_ok (g_out s) \<Longrightarrow>
     contents (g_file s') = contents (g_file s) @ block_bytes render idx \<and> out_ok (g_out s') \<and>
     total_size (dir_info d) = length (block_bytes render idx)"
  "marshall_subdirs sys_append cb subs i depth dd s = Inr (dd', s') \<Longrightarrow> subs_ok subs \<Longrightarrow> cb_renders render cb \<Longrightarrow>
     posix_append sys_append contents \<Longrightarrow> out_ok (g_out s) \<Longrightarrow>
     drop i (snd dd) = replicate (length subs) None \<Longrightarrow> i \<le> length (snd dd) \<Longrightarrow>
     contents (g_file s') = contents (g_file s) @ concat (sub_blocks render subs) \<and> out_ok (g_out s') \<and>
     map subdir_size (snd dd') = take i (map subdir_size (snd dd)) @ map length (sub_blocks render subs) \<and>
     cell_max_val (fst dd') = max (cell_max_val (fst dd)) (Max (insert 0 (set (map length (sub_blocks render subs))))) \<and>
     subdir_block_size (fst dd') = subdir_block_size (fst dd) + length (concat (sub_blocks render subs)) \<and>
     dir_num_subdirs (fst dd') = dir_num_subdirs (fst dd) + count_some subs \<and>
     payload_block_size (fst dd') = payload_block_size (fst dd) \<and> total_size (fst dd') = total_size (fst dd)"
proof (induction idx and subs arbitrary: depth s d s' and i depth dd s dd' s' rule: idx_ok_subs_ok.induct)
  case (1 elems subs)
  then have nc: "g_callocs s \<noteq> 0" by (cases "g_callocs s = 0") simp_all
  from "1.prems"(1) obtain s1 dir1 s2 dir2 s3 dir3 subdirs s4 dir4 where r:
    "g_put kndOutput_reset (s\<lparr>g_callocs := g_callocs s - 1\<rparr>) = Inr ((), s1)"
    "marshall_elems cb False 0 (zip elems subs) (dir_info empty_dir) s1 = Inr (dir1, s2)"
    "(if out_size (g_out s2) = 0 then Inr (dir1, s2)
      else marshall_payload sys_append cb (zip elems subs) dir1 s2) = Inr (dir2, s3)"
    "(if dir_num_subdirs dir2 = 0 then Inr ((dir2, dir_subdirs empty_dir), s3)
      else bind_out (g_put kndOutput_reset s3) (\<lambda>_ s.
         bind_out (marshall_subdirs sys_append cb subs 0 depth
           (dir2\<lparr>dir_num_subdirs := 0, cell_max_val := 0\<rparr>, dir_subdirs empty_dir) s) (\<lambda>(dir, subdirs) s.
         bind_out (marshall_subdirs_footer sys_append subdirs dir s) (\<lambda>dir s. Inr ((dir, subdirs), s))))) =
      Inr ((dir3, subdirs), s4)"
    "marshall_size_spec sys_append dir3 s4 = Inr (dir4, s')" "d = Shared_Set_Dir dir4 subdirs"
    using nc by (auto simp only: traverse_marshall.simps bind_out_eq_Inr prod.case if_False)
  have len: "length elems = 62" "length subs = 62" "subs_ok subs" using "1.prems"(2) by simp_all
  note reset1 = reset_empties [OF r(1)]
  have ok1: "out_ok (g_out s1)" "out_text (g_out s1) = []" "g_file s1 = g_file s"
    using reset1 "1.prems"(5) by simp_all
  have d0: "elem_block_sizes (dir_info empty_dir) = replicate (length elems) 0"
    by (simp add: empty_dir_def len)
  from marshall_elems_grow [OF r(2) _ "1.prems"(3) ok1(1)] d0 len
  have g: "grew (payload_text render elems) s1 s2" and
    dir1: "dir1 = (dir_info empty_dir)\<lparr>dir_num_subdirs := count_some subs,
       cell_max_val := Max (insert 0 (set (elem_sizes render elems))),
       elem_block_sizes := elem_sizes render elems, dir_num_elems := count_some elems\<rparr>"
    by (auto simp: empty_dir_def)
  have pay: "contents (g_file s3) = contents (g_file s2) @ payload render elems \<and> out_ok (g_out s3) \<and>
    payload_block_size dir2 = length (payload render elems) \<and> total_size dir2 = length (payload render elems) \<and>
    (dir_num_subdirs dir2 = 0 \<longleftrightarrow> count_some subs = 0) \<and> subdir_block_size dir2 = subdir_block_size dir1"
    by (rule marshall_payload_step [OF r(3) _ "1.prems"(3,4)])
      (use g ok1 len in \<open>simp_all add: grew_def dir1 empty_dir_def\<close>)
  have sb2: "subdir_block_size dir2 = 0" using pay by (simp add: dir1 empty_dir_def)
  have fil: "contents (g_file s2) = contents (g_file s)" using g ok1 by (simp add: grew_def)
  let ?blocks = "sub_blocks render subs"
  have sub: "contents (g_file s4) = contents (g_file s3) @
      (if count_some subs = 0 then [] else concat ?blocks @ footer (count_some subs) (map length ?blocks)) \<and>
    out_ok (g_out s4) \<and> payload_block_size dir3 = payload_block_size dir2 \<and>
    total_size dir3 = total_size dir2 +
      (if count_some subs = 0 then 0 else length (concat ?blocks @ footer (count_some subs) (map length ?blocks)))"
  proof (cases "count_some subs = 0")
    case True
    then show ?thesis using r(4) pay by simp
  next
    case False
    then have nz: "dir_num_subdirs dir2 \<noteq> 0" using pay by simp
    from r(4) [unfolded if_not_P [OF nz]] obtain s5 dir5 subdirs5 s6 where q:
      "g_put kndOutput_reset s3 = Inr ((), s5)"
      "marshall_subdirs sys_append cb subs 0 depth (dir2\<lparr>dir_num_subdirs := 0, cell_max_val := 0\<rparr>, dir_subdirs empty_dir) s5 =
         Inr ((dir5, subdirs5), s6)"
      "marshall_subdirs_footer sys_append subdirs5 dir5 s6 = Inr (dir3, s4)"
      by (auto simp: bind_out_eq_Inr)
    have ok5: "out_ok (g_out s5)" "g_file s5 = g_file s3" using reset_empties [OF q(1)] pay by simp_all
    have e: "drop 0 (dir_subdirs empty_dir) = replicate (length subs) None" by (simp add: empty_dir_def len)
    note IH = "1.IH" [OF q(2) len(3) "1.prems"(3,4) ok5(1), unfolded fst_conv snd_conv, OF e le0]
    have IH': "contents (g_file s6) = contents (g_file s5) @ concat ?blocks" "out_ok (g_out s6)"
      "map subdir_size subdirs5 = map length ?blocks"
      "cell_max_val dir5 = Max (insert 0 (set (map length ?blocks)))"
      "subdir_block_size dir5 = length (concat ?blocks)" "dir_num_subdirs dir5 = count_some subs"
      "payload_block_size dir5 = payload_block_size dir2" "total_size dir5 = total_size dir2"
      using IH sb2 by simp_all
    from marshall_subdirs_footer_files [OF q(3) "1.prems"(4) IH'(2)] IH' ok5 False show ?thesis by simp
  qed
  from marshall_size_spec_files [OF r(5) "1.prems"(4)] sub pay fil
  show ?case by (auto simp: r(6))
next
  case (4 idx subs)
  obtain dir subdirs where dd: "dd = (dir, subdirs)" by (cases dd)
  from "4.prems"(1) have depth: "\<not> depth \<ge> KND_ID_SIZE" by (cases "depth \<ge> KND_ID_SIZE") (simp_all add: dd)
  define dir1 where "dir1 = (\<lambda>subdir. dir\<lparr>cell_max_val := max (cell_max_val dir) (total_size (dir_info subdir)),
             total_elems := total_elems dir + total_elems (dir_info subdir),
             subdir_block_size := subdir_block_size dir + total_size (dir_info subdir),
             dir_num_subdirs := dir_num_subdirs dir + 1\<rparr>)"
  from "4.prems"(1) depth obtain subdir s1 where r:
    "traverse_marshall sys_append cb idx (Suc depth) s = Inr (subdir, s1)"
    "marshall_subdirs sys_append cb subs (Suc i) depth (dir1 subdir, subdirs[i := Some subdir]) s1 = Inr (dd', s')"
    by (auto simp add: dd bind_out_eq_Inr dir1_def)
  have ok: "idx_ok idx" "subs_ok subs" using "4.prems"(2) by simp_all
  have il: "i < length subdirs" using arg_cong [OF "4.prems"(6), of length] by (simp add: dd)
  note IH1 = "4.IH"(1) [OF r(1) ok(1) "4.prems"(3,4,5)]
  have drp: "drop (Suc i) (subdirs[i := Some subdir]) = replicate (length subs) None"
    using "4.prems"(6) il by (simp add: dd drop_update_cancel drop_Suc_tail)
  have take1: "take (Suc i) (map subdir_size (subdirs[i := Some subdir])) =
      take i (map subdir_size subdirs) @ [total_size (dir_info subdir)]"
    using il by (simp add: take_Suc_conv_app_nth map_update subdir_size_def take_update_cancel)
  note IH2 = "4.IH"(2) [OF r(2) ok(2) "4.prems"(3,4) conjunct1 [OF conjunct2 [OF IH1]], unfolded fst_conv snd_conv,
      OF drp]
  have m: "max (max a n) (Max (insert 0 S)) = max a (Max (insert n S))" if "finite S" for a n :: nat and S
    using that by (cases "S = {}") (simp_all add: max.assoc)
  have c: "count_some (Some idx # subs) = Suc (count_some subs)" by (simp add: count_some_def)
  show ?case using IH1 IH2 il take1 by (simp add: dd dir1_def m c)
next
  case (3 subs)
  have il: "i < length (snd dd)" using arg_cong [OF "3.prems"(6), of length] by simp
  then have None: "snd dd ! i = None" using "3.prems"(6) by (simp add: nth_drop_0)
  have drp: "drop (Suc i) (snd dd) = replicate (length subs) None"
    using "3.prems"(6) by (simp add: drop_Suc_tail)
  have "marshall_subdirs sys_append cb subs (Suc i) depth dd s = Inr (dd', s')" "subs_ok subs"
    using "3.prems"(1,2) by simp_all
  note IH = "3.IH" [OF this "3.prems"(3-5) drp Suc_leI [OF il]]
  have "take (Suc i) (map subdir_size (snd dd)) = take i (map subdir_size (snd dd)) @ [0]"
    using il None by (simp add: take_Suc_conv_app_nth subdir_size_def)
  then show ?case using IH by (simp add: count_some_def)
qed (simp add: count_some_def)

end
