(* ===== verification/Gsp_Unmarshall.thy ===== *)
theory Gsp_Unmarshall
  imports Gsp_Format
begin

text \<open>
  Reading a set file, \<^verbatim>\<open>src/knd_shared_set.gsp.c\<close>. The open file is the parameter \<open>sys_read\<close>: the
  bytes that \<^verbatim>\<open>lseek\<close> to an offset and \<^verbatim>\<open>read\<close> of a count give, \<open>None\<close> for an error; on an offset
  that is negative it may do anything. Sizes are natural numbers below \<open>2\<^sup>6\<^sup>4\<close>, with the wrap-around
  of their differences and sums written out. The callback reads no more than the bytes of the
  element. The log, and the task's type while the callback runs, are not modelled.
\<close>

section \<open>State\<close>

type_synonym read_fun = "int \<Rightarrow> nat \<Rightarrow> byte list option"

text \<open>The callback's object, the memory, and the blocks that the repository keeps.\<close>

record 'o read_state =
  r_obj :: 'o
  r_mem :: set_mem
  r_blocks :: "byte list list"

type_synonym ('o, 'e) unmarshall_cb = "byte list \<Rightarrow> byte list \<Rightarrow> 'o \<Rightarrow> ('o, 'e) outcome"

definition r_call ::
  "('o, 'e) unmarshall_cb \<Rightarrow> byte list \<Rightarrow> byte list \<Rightarrow> 'o read_state \<Rightarrow> ('o read_state, 'e) outcome" where
  "r_call cb elem_id val s =
     (case cb elem_id val (r_obj s) of
        Inl (e, obj) \<Rightarrow> Inl (e, s\<lparr>r_obj := obj\<rparr>)
      | Inr (result, obj) \<Rightarrow> Inr (result, s\<lparr>r_obj := obj\<rparr>))"

definition r_calloc :: "'o read_state \<Rightarrow> ('o read_state, unit) outcome" where
  "r_calloc s = (case calloc_one (r_mem s) of Inl e \<Rightarrow> Inl (e, s) | Inr m \<Rightarrow> Inr ((), s\<lparr>r_mem := m\<rparr>))"

definition r_dir_new :: "'o read_state \<Rightarrow> ('o read_state, kndSharedSetDir) outcome" where
  "r_dir_new s =
     (case knd_shared_set_dir_new (r_mem s) of
        Inl e \<Rightarrow> Inl (e, s)
      | Inr (dir, m) \<Rightarrow> Inr (dir, s\<lparr>r_mem := m\<rparr>))"

definition size_sub :: "nat \<Rightarrow> nat \<Rightarrow> nat" where
  "size_sub a b = (if b \<le> a then a - b else a + 2 ^ 64 - b)"

definition size_add :: "nat \<Rightarrow> nat \<Rightarrow> nat" where
  "size_add a b = (a + b) mod 2 ^ 64"

text \<open>An offset is a signed number; a short count is an error.\<close>

definition read_at :: "read_fun \<Rightarrow> nat \<Rightarrow> nat \<Rightarrow> 's \<Rightarrow> ('s, byte list) outcome" where
  "read_at sys_read off n s =
     (case sys_read (if off < 2 ^ 63 then int off else int off - 2 ^ 64) n of
        None \<Rightarrow> Inl (Err knd_IO_FAIL, s)
      | Some bs \<Rightarrow> if length bs = n then Inr (bs, s) else Inl (Err knd_IO_FAIL, s))"

section \<open>Payload\<close>

text \<open>
  The scan of records: the digit and the bytes of the current one, and the bytes that remain. A
  separator that ends the block lets the loop run on.
\<close>

fun scan_records ::
  "('o, 'e) unmarshall_cb \<Rightarrow> byte list \<Rightarrow> byte \<Rightarrow> byte list \<Rightarrow> byte list \<Rightarrow> dir_info \<Rightarrow> 'o read_state \<Rightarrow>
   ('o read_state, dir_info) outcome" where
  "scan_records cb idbuf c val [] dir s =
     bind_out (r_call cb (idbuf @ [c]) val s) (\<lambda>_ s. Inr (dir\<lparr>dir_num_elems := dir_num_elems dir + 1\<rparr>, s))"
| "scan_records cb idbuf c val (b # rest) dir s =
     (if b = 0 then
        bind_out (r_call cb (idbuf @ [c]) val s) (\<lambda>_ s.
          let dir = dir\<lparr>dir_num_elems := dir_num_elems dir + 1\<rparr> in
          case rest of
            [] \<Rightarrow> Inl (Stuck, s)
          | d # rest \<Rightarrow> scan_records cb idbuf d [] rest dir s)
      else scan_records cb idbuf c (val @ [b]) rest dir s)"

definition payload_linear_scan ::
  "('o, 'e) unmarshall_cb \<Rightarrow> byte list \<Rightarrow> byte list \<Rightarrow> dir_info \<Rightarrow> 'o read_state \<Rightarrow> ('o read_state, dir_info) outcome" where
  "payload_linear_scan cb idbuf block dir s =
     (case block of
        [] \<Rightarrow> Inl (Stuck, s)
      | c # rest \<Rightarrow>
          if length idbuf \<ge> KND_ID_SIZE then Inl (Stuck, s) else scan_records cb idbuf c [] rest dir s)"

text \<open>The search for one record; \<open>c\<close> and the digit \<open>d\<close> that is searched are signed.\<close>

fun fetch_record ::
  "('o, 'e) unmarshall_cb \<Rightarrow> byte list \<Rightarrow> byte \<Rightarrow> byte list \<Rightarrow> byte list \<Rightarrow> 'o read_state \<Rightarrow> ('o read_state, 'e) outcome" where
  "fetch_record cb elem_id c val [] s =
     (if c = hd elem_id then r_call cb elem_id val s else Inl (Err knd_NO_MATCH, s))"
| "fetch_record cb elem_id c val (b # rest) s =
     (if b = 0 then
        (if c = hd elem_id then r_call cb elem_id val s
         else case rest of
            [] \<Rightarrow> Inl (Stuck, s)
          | d # rest \<Rightarrow>
              if sint d > sint (hd elem_id) then Inl (Err knd_NO_MATCH, s) else fetch_record cb elem_id d [] rest s)
      else fetch_record cb elem_id c (val @ [b]) rest s)"

definition fetch_elem_linear_scan ::
  "('o, 'e) unmarshall_cb \<Rightarrow> byte list \<Rightarrow> byte list \<Rightarrow> 'o read_state \<Rightarrow> ('o read_state, 'e) outcome" where
  "fetch_elem_linear_scan cb block elem_id s =
     (case block of [] \<Rightarrow> Inl (Stuck, s) | c # rest \<Rightarrow> fetch_record cb elem_id c [] rest s)"

text \<open>
  The fields of a footer with cells, as pairs of a digit and a size: the digit is stored with the
  size, or is the position.
\<close>

fun read_cells :: "bool \<Rightarrow> nat \<Rightarrow> nat \<Rightarrow> nat \<Rightarrow> byte list \<Rightarrow> (byte \<times> nat) list" where
  "read_cells use_keys cell_size i 0 c = []"
| "read_cells use_keys cell_size i (Suc n) c =
     (if use_keys then (c ! 0, unat (knd_unpack_int (drop 1 c) cell_size))
      else (obj_id_seq ! i, unat (knd_unpack_int c cell_size))) #
     read_cells use_keys cell_size (Suc i) n (drop (if use_keys then cell_size + 1 else cell_size) c)"

text \<open>The elements \<open>e\<close> that follow each other, each as long as its cell says.\<close>

fun unmarshall_cells ::
  "('o, 'e) unmarshall_cb \<Rightarrow> byte list \<Rightarrow> (byte \<times> nat) list \<Rightarrow> byte list \<Rightarrow> dir_info \<Rightarrow> 'o read_state \<Rightarrow>
   ('o read_state, dir_info) outcome" where
  "unmarshall_cells cb idbuf [] e dir s = Inr (dir, s)"
| "unmarshall_cells cb idbuf ((c, numval) # cs) e dir s =
     (if length idbuf \<ge> KND_ID_SIZE then Inl (Stuck, s)
      else if numval = 0 then unmarshall_cells cb idbuf cs e dir s
      else if numval > length e then Inl (Err knd_LIMIT, s)
      else if id_pos c = -1 then Inl (Stuck, s)
      else
        bind_out (r_call cb (idbuf @ [c]) (take numval e) s) (\<lambda>_ s.
        unmarshall_cells cb idbuf cs (drop numval e)
          (dir\<lparr>elem_block_sizes := (elem_block_sizes dir)[nat (id_pos c) := numval],
             dir_num_elems := dir_num_elems dir + 1\<rparr>) s))"

definition unmarshall_elems ::
  "('o, 'e) unmarshall_cb \<Rightarrow> byte list \<Rightarrow> byte list \<Rightarrow> dir_info \<Rightarrow> 'o read_state \<Rightarrow> ('o read_state, dir_info) outcome" where
  "unmarshall_elems cb idbuf block dir s =
     (let block_size = length block in
      if block_size = 0 then Inl (Stuck, s)
      else let use_keys = block ! (block_size - 1) \<noteq> 0 in
      if block_size < 2 then Inl (Err knd_LIMIT, s)
      else let cell_size = unat (block ! (block_size - 2)) in
      if cell_size > KND_UINT_SIZE then Inl (Err knd_LIMIT, s)
      else if use_keys \<and> cell_size > 0 \<and> block_size < 3 then Inl (Stuck, s)
      else
        let footer_size = (if use_keys \<and> cell_size > 0 then 3 else 2);
            num_elems = (if use_keys \<and> cell_size > 0 then unat (block ! (block_size - 3)) else KND_RADIX_BASE)
        in
      if num_elems > KND_RADIX_BASE then Inl (Err knd_LIMIT, s)
      else if use_keys \<and> cell_size = 0 then
        bind_out (payload_linear_scan cb idbuf (take (block_size - footer_size) block) dir s) (\<lambda>dir s.
        Inr (dir\<lparr>elems_linear_scan := True\<rparr>, s))
      else
        let dir_field_size = (if use_keys then cell_size + 1 else cell_size);
            dir_size = num_elems * dir_field_size
        in
      if block_size < dir_size + footer_size then Inl (Err knd_LIMIT, s)
      else
        let remainder = block_size - (dir_size + footer_size)
        in unmarshall_cells cb idbuf (read_cells use_keys cell_size 0 num_elems (drop remainder block))
             (take remainder block) dir s)"

section \<open>Blocks\<close>

text \<open>The size of the payload and that of its own encoding. The byte that is read first is signed.\<close>

definition read_payload_size ::
  "read_fun \<Rightarrow> nat \<Rightarrow> dir_info \<Rightarrow> 'o read_state \<Rightarrow> ('o read_state, dir_info) outcome" where
  "read_payload_size sys_read block_size dir s =
     (let offset = global_offset dir in
      bind_out (read_at sys_read (size_sub (size_add offset block_size) 1) 1 s) (\<lambda>bs s.
      let size_spec = sint (bs ! 0) in
      if size_spec = 0 then Inr (dir\<lparr>payload_footer_size := 1\<rparr>, s)
      else if size_spec > int KND_UINT_SIZE then Inl (Err knd_LIMIT, s)
      else if size_spec < 0 then Inl (Stuck, s)
      else
        let footer_size = 1 + nat size_spec in
        bind_out (read_at sys_read (size_sub (size_add offset block_size) footer_size) (nat size_spec) s) (\<lambda>buf s.
        let numval = unat (knd_unpack_int buf (nat size_spec)) in
        if numval > size_sub block_size footer_size then Inl (Err knd_LIMIT, s)
        else Inr (dir\<lparr>payload_block_size := numval, payload_footer_size := footer_size\<rparr>, s))))"

text \<open>The payload is read to a new block of the repository.\<close>

definition unmarshall_payload ::
  "read_fun \<Rightarrow> ('o, 'e) unmarshall_cb \<Rightarrow> byte list \<Rightarrow> dir_info \<Rightarrow> 'o read_state \<Rightarrow> ('o read_state, dir_info) outcome" where
  "unmarshall_payload sys_read cb idbuf dir s =
     (if payload_block_size dir = 0 then Inr (dir, s)
      else
        bind_out (r_calloc s) (\<lambda>_ s.
        bind_out (r_calloc s) (\<lambda>_ s.
        if payload_block_size dir = 2 ^ 64 - 1 then Inl (Stuck, s)
        else
          bind_out (read_at sys_read (global_offset dir) (payload_block_size dir) s) (\<lambda>b s.
          bind_out (unmarshall_elems cb idbuf b dir (s\<lparr>r_blocks := (b @ [0]) # r_blocks s\<rparr>)) (\<lambda>dir s.
          Inr (dir\<lparr>total_elems := dir_num_elems dir\<rparr>, s))))))"

text \<open>
  The cells of the subfolders, from the end of their area, which starts at \<open>offset\<close> and has
  \<open>parent_block_size\<close> bytes.
\<close>

definition read_subdirs_footer ::
  "read_fun \<Rightarrow> nat \<Rightarrow> nat \<Rightarrow> 's \<Rightarrow> ('s, (byte \<times> nat) list) outcome" where
  "read_subdirs_footer sys_read offset parent_block_size s =
     bind_out (read_at sys_read (size_sub (size_add offset parent_block_size) 3) 3 s) (\<lambda>spec s.
     let use_keys = spec ! 2 \<noteq> 0;
         cell_size = unat (spec ! 1);
         num_subdirs = (if use_keys then unat (spec ! 0) else KND_RADIX_BASE);
         subdir_footer_size = num_subdirs * cell_size + (if use_keys then num_subdirs else 0);
         spec_size = (if use_keys then 3 else 2)
     in
     if cell_size > KND_UINT_SIZE \<or> cell_size = 0 \<or> subdir_footer_size > KND_NAME_SIZE
     then Inl (Err knd_LIMIT, s)
     else
       let subdir_area_size = size_sub parent_block_size (subdir_footer_size + spec_size) in
       bind_out (read_at sys_read (size_add offset subdir_area_size) subdir_footer_size s) (\<lambda>buf s.
       Inr (read_cells use_keys cell_size 0 num_subdirs buf, s)))"

text \<open>
  A block, and the loop of \<^verbatim>\<open>read_subdirs\<close> over the cells. The two versions of the loop, with
  and without stored digits, differ in \<open>read_cells\<close> only; the index of a subfolder is the value
  of its digit.
\<close>

function unmarshall_block ::
  "read_fun \<Rightarrow> ('o, 'e) unmarshall_cb \<Rightarrow> nat \<Rightarrow> byte list \<Rightarrow> kndSharedSetDir \<Rightarrow> 'o read_state \<Rightarrow>
   ('o read_state, kndSharedSetDir) outcome"
  and unmarshall_subdirs ::
  "read_fun \<Rightarrow> ('o, 'e) unmarshall_cb \<Rightarrow> nat \<Rightarrow> nat \<Rightarrow> (byte \<times> nat) list \<Rightarrow> byte list \<Rightarrow>
   dir_info \<times> kndSharedSetDir option list \<Rightarrow> 'o read_state \<Rightarrow>
   ('o read_state, dir_info \<times> kndSharedSetDir option list) outcome" where
  "unmarshall_block sys_read cb block_size idbuf dir s =
     bind_out (read_payload_size sys_read block_size (dir_info dir) s) (\<lambda>d s.
     bind_out (unmarshall_payload sys_read cb idbuf d s) (\<lambda>d s.
     let subdir_block_size = size_sub block_size (size_add (payload_block_size d) (payload_footer_size d));
         offset = size_add (global_offset d) (payload_block_size d)
     in
     if subdir_block_size = 0 then Inr (Shared_Set_Dir d (dir_subdirs dir), s)
     else
       bind_out (read_subdirs_footer sys_read offset subdir_block_size s) (\<lambda>cs s.
       bind_out (unmarshall_subdirs sys_read cb offset 0 cs idbuf (d, dir_subdirs dir) s) (\<lambda>(d, subdirs) s.
       Inr (Shared_Set_Dir d subdirs, s)))))"
| "unmarshall_subdirs sys_read cb offset block_offset [] idbuf d s = Inr (d, s)"
| "unmarshall_subdirs sys_read cb offset block_offset ((c, numval) # cs) idbuf (d, subdirs) s =
     (if numval = 0 then unmarshall_subdirs sys_read cb offset block_offset cs idbuf (d, subdirs) s
      else if length idbuf \<ge> KND_ID_SIZE then Inl (Stuck, s)
      else
        bind_out (r_dir_new s) (\<lambda>subdir s.
        bind_out
          (unmarshall_block sys_read cb numval (idbuf @ [c])
             (Shared_Set_Dir ((dir_info subdir)\<lparr>total_size := numval, global_offset := size_add offset block_offset\<rparr>)
               (dir_subdirs subdir)) s) (\<lambda>subdir s.
        if id_pos c = -1 then Inl (Stuck, s)
        else
          unmarshall_subdirs sys_read cb offset (size_add block_offset numval) cs idbuf
            (d\<lparr>total_elems := total_elems d + total_elems (dir_info subdir)\<rparr>,
             subdirs[nat (id_pos c) := Some subdir]) s)))"
  by pat_completeness auto
termination
  by (relation "measures [\<lambda>x. case x of Inl (_, _, _, idbuf, _) \<Rightarrow> KND_ID_SIZE - length idbuf
        | Inr (_, _, _, _, _, idbuf, _) \<Rightarrow> KND_ID_SIZE - length idbuf,
      case_sum (\<lambda>_. 1) (\<lambda>_. 0), \<lambda>x. case x of Inl _ \<Rightarrow> 0 | Inr (_, _, _, _, cs, _) \<Rightarrow> length cs]") auto

declare unmarshall_block.simps [simp del]

section \<open>Files\<close>

text \<open>
  \<open>sys_open\<close> opens the file: \<open>None\<close> for an error. The file has three bytes of header. The path is
  copied to an array of \<^verbatim>\<open>KND_PATH_SIZE\<close>, 1024, bytes before the first error.
\<close>

definition knd_shared_set_unmarshall_file ::
  "(byte list \<Rightarrow> read_fun option) \<Rightarrow> ('o, 'e) unmarshall_cb \<Rightarrow> 'm kndSharedSet \<Rightarrow> byte list \<Rightarrow> nat \<Rightarrow> 'o read_state \<Rightarrow>
   failure option \<times> 'm kndSharedSet \<times> 'o read_state" where
  "knd_shared_set_unmarshall_file sys_open cb self filename filesize s =
     (case sys_open filename of
        None \<Rightarrow> (Some (Err knd_IO_FAIL), self, s)
      | Some sys_read \<Rightarrow>
          if length filename > 1024 then (Some Stuck, self, s)
          else
            let self = self\<lparr>ss_path := filename\<rparr> in
            (case
               bind_out (r_dir_new s) (\<lambda>dir s.
               unmarshall_block sys_read cb (size_sub filesize 3) []
                 (Shared_Set_Dir ((dir_info dir)\<lparr>total_size := filesize, global_offset := 3\<rparr>) (dir_subdirs dir)) s) of
               Inl (e, s) \<Rightarrow> (Some e, self, s)
             | Inr (dir, s) \<Rightarrow>
                 (None, self\<lparr>ss_dir := Some dir, ss_num_elems := of_nat (total_elems (dir_info dir))\<rparr>, s)))"

section \<open>Elements\<close>

fun read_elem ::
  "read_fun \<Rightarrow> ('o, 'e) unmarshall_cb \<Rightarrow> kndSharedSetDir \<Rightarrow> byte list \<Rightarrow> 'o read_state \<Rightarrow> ('o read_state, 'e) outcome" where
  "read_elem sys_read cb dir [] s = Inl (Stuck, s)"
| "read_elem sys_read cb dir (c # d # elem_id) s =
     (if id_pos c = -1 then Inl (Err knd_FORMAT, s)
      else case dir_subdirs dir ! nat (id_pos c) of
        None \<Rightarrow> Inl (Err knd_NO_MATCH, s)
      | Some subdir \<Rightarrow> read_elem sys_read cb subdir (d # elem_id) s)"
| "read_elem sys_read cb dir [c] s =
     (let d = dir_info dir;
          idx_pos = nat (id_pos c);
          elem_block_size = (if elems_linear_scan d then payload_block_size d else elem_block_sizes d ! idx_pos);
          elem_offset = (if elems_linear_scan d then 0 else sum_list (take idx_pos (elem_block_sizes d)))
      in
      if id_pos c = -1 then Inl (Err knd_FORMAT, s)
      else
        bind_out (r_calloc s) (\<lambda>_ s.
        bind_out (r_calloc s) (\<lambda>_ s.
        bind_out (read_at sys_read (size_add (global_offset d) elem_offset) elem_block_size s) (\<lambda>b s.
        if elems_linear_scan d then fetch_elem_linear_scan cb b [c] s else r_call cb [c] b s))))"

definition knd_shared_set_unmarshall_elem ::
  "(byte list \<Rightarrow> read_fun option) \<Rightarrow> ('o, 'e) unmarshall_cb \<Rightarrow> 'm kndSharedSet \<Rightarrow> byte list \<Rightarrow> 'o read_state \<Rightarrow>
   ('o read_state, 'e) outcome" where
  "knd_shared_set_unmarshall_elem sys_open cb self elem_id s =
     (case sys_open (ss_path self) of
        None \<Rightarrow> Inl (Err knd_IO_FAIL, s)
      | Some sys_read \<Rightarrow>
          (case ss_dir self of
             None \<Rightarrow> Inl (Stuck, s)
           | Some dir \<Rightarrow> read_elem sys_read cb dir elem_id s))"

end
