(* ===== verification/Gsp_Roundtrip.thy ===== *)
theory Gsp_Roundtrip
  imports Gsp_Marshall Gsp_Unmarshall
begin

text \<open>
  The reader and the format: a file with the bytes of a tree is read back to the callbacks of
  its elements, and to a directory from which each element can be fetched.
\<close>

section \<open>Cells\<close>

lemma length_cell_bytes [simp]: "length (cell_bytes (knd_min_bytes v) n) = knd_min_bytes v"
  by (simp add: cell_bytes_def)

lemma cell_bytes_roundtrip:
  assumes "n \<le> m" and "m < 2 ^ 31"
  shows "unat (knd_unpack_int (cell_bytes (knd_min_bytes (of_nat m)) n @ rest) (knd_min_bytes (of_nat m))) = n"
proof -
  have un: "unat (of_nat n :: size_t) = n" and um: "unat (of_nat m :: size_t) = m"
    using assms by (simp_all add: unat_of_nat)
  have "unat (of_nat n :: size_t) < 256 ^ knd_min_bytes (of_nat m)"
    using assms un um min_bytes_less [of "of_nat m"] by (simp add: order_le_less_trans [of n m])
  from unpack_pack_int [OF knd_min_bytes_range this, of rest] un assms
  show ?thesis by (simp add: cell_bytes_def)
qed

text \<open>The cells of a footer with the digits and sizes, all of them and those in use.\<close>

fun all_cells :: "nat \<Rightarrow> nat list \<Rightarrow> (byte \<times> nat) list" where
  "all_cells i [] = []"
| "all_cells i (n # ns) = (obj_id_seq ! i, n) # all_cells (Suc i) ns"

fun used_cells :: "nat \<Rightarrow> nat list \<Rightarrow> (byte \<times> nat) list" where
  "used_cells i [] = []"
| "used_cells i (n # ns) = (if n = 0 then [] else [(obj_id_seq ! i, n)]) @ used_cells (Suc i) ns"

definition num_used :: "nat list \<Rightarrow> nat" where
  "num_used ns = length (filter (\<lambda>n. n \<noteq> 0) ns)"

lemma num_used_simps [simp]:
  "num_used [] = 0" "num_used (n # ns) = (if n = 0 then num_used ns else Suc (num_used ns))"
  by (simp_all add: num_used_def)

lemma num_used_le: "num_used ns \<le> length ns"
  by (simp add: num_used_def)

lemma read_all_cells:
  assumes "\<forall>n\<in>set ns. n \<le> m" and "m < 2 ^ 31" and "sz = knd_min_bytes (of_nat m)"
  shows "read_cells False sz i (length ns) (cells False sz i ns @ rest) = all_cells i ns"
  using assms(1)
proof (induction ns arbitrary: i)
  case (Cons n ns)
  then show ?case using cell_bytes_roundtrip [of n m] assms(2,3) by simp
qed simp

lemma read_used_cells:
  assumes "\<forall>n\<in>set ns. n \<le> m" and "m < 2 ^ 31" and "sz = knd_min_bytes (of_nat m)"
  shows "read_cells True sz j (num_used ns) (cells True sz i ns @ rest) = used_cells i ns"
  using assms(1)
proof (induction ns arbitrary: i j)
  case (Cons n ns)
  then show ?case using cell_bytes_roundtrip [of n m] assms(2,3) by simp
qed simp

lemma length_all_cells: "length (cells False (knd_min_bytes v) i ns) = length ns * knd_min_bytes v"
  by (induction ns arbitrary: i) simp_all

lemma length_used_cells: "length (cells True (knd_min_bytes v) i ns) = num_used ns * (knd_min_bytes v + 1)"
  by (induction ns arbitrary: i) simp_all

text \<open>A footer is its cells and two or three bytes.\<close>

lemma footer_parts:
  fixes ns :: "nat list"
  defines "keys \<equiv> KND_RADIX_BASE - num_used ns > KND_RADIX_BASE div 2"
    and "sz \<equiv> knd_min_bytes (of_nat (Max (insert 0 (set ns))))"
  shows "footer (num_used ns) ns = cells keys sz 0 ns @
    (if keys then [of_nat (num_used ns)] else []) @ [of_nat sz, if keys then 1 else 0]"
  by (simp add: footer_def keys_def sz_def Let_def)

lemma read_footer_cells:
  fixes ns :: "nat list"
  defines "keys \<equiv> KND_RADIX_BASE - num_used ns > KND_RADIX_BASE div 2"
    and "sz \<equiv> knd_min_bytes (of_nat (Max (insert 0 (set ns))))"
  assumes "length ns = 62" and "\<forall>n\<in>set ns. n < 2 ^ 31"
  shows "read_cells keys sz 0 (if keys then num_used ns else 62) (cells keys sz 0 ns @ rest) =
      (if keys then used_cells 0 ns else all_cells 0 ns) \<and>
    length (cells keys sz 0 ns) = (if keys then num_used ns else 62) * (if keys then sz + 1 else sz)"
proof -
  let ?m = "Max (insert 0 (set ns))"
  have le: "\<forall>n\<in>set ns. n \<le> ?m" by simp
  have "?m \<in> insert 0 (set ns)" by (rule Max_in) simp_all
  then have less: "?m < 2 ^ 31" using assms(4) by auto
  show ?thesis
    using read_used_cells [OF le less sz_def [THEN meta_eq_to_obj_eq], of 0 0 rest]
      read_all_cells [OF le less sz_def [THEN meta_eq_to_obj_eq], of 0 rest] assms(3)
      length_used_cells [of "of_nat ?m" 0 ns] length_all_cells [of "of_nat ?m" 0 ns]
    by (cases keys) (simp_all add: sz_def)
qed

section \<open>The payload\<close>

fun r_calls :: "('o, 'e) unmarshall_cb \<Rightarrow> (byte list \<times> byte list) list \<Rightarrow> 'o read_state \<Rightarrow> ('o read_state, unit) outcome" where
  "r_calls cb [] s = Inr ((), s)"
| "r_calls cb ((elem_id, val) # calls) s = bind_out (r_call cb elem_id val s) (\<lambda>_ s. r_calls cb calls s)"

text \<open>What the callback gets for the entries of a tree.\<close>

definition calls_of :: "('e \<Rightarrow> byte list) \<Rightarrow> byte list \<Rightarrow> (nat list \<times> 'e) list \<Rightarrow> (byte list \<times> byte list) list" where
  "calls_of render idbuf entries = map (\<lambda>(ds, e). (idbuf @ digits_id ds, render e)) entries"

lemma calls_of_simps [simp]:
  "calls_of render idbuf [] = []"
  "calls_of render idbuf ((ds, e) # entries) = (idbuf @ digits_id ds, render e) # calls_of render idbuf entries"
  "calls_of render idbuf (xs @ ys) = calls_of render idbuf xs @ calls_of render idbuf ys"
  by (simp_all add: calls_of_def)

text \<open>Elements whose text is not empty and has no separator.\<close>

definition renders_ok :: "('e \<Rightarrow> byte list) \<Rightarrow> 'e option list \<Rightarrow> bool" where
  "renders_ok render elems \<longleftrightarrow> (\<forall>e. Some e \<in> set elems \<longrightarrow> render e \<noteq> [] \<and> 0 \<notin> set (render e))"

lemma scan_text:
  "0 \<notin> set bs \<Longrightarrow> scan_records cb idbuf c val (bs @ rest) dir s = scan_records cb idbuf c (val @ bs) rest dir s"
  by (induction bs arbitrary: val) auto

lemma bind_out_assoc: "bind_out (bind_out r f) g = bind_out r (\<lambda>x s. bind_out (f x s) g)"
  by (cases r) auto

lemma bind_out_unit: "bind_out r (\<lambda>_ s. Inr (x, s)) = (case r of Inl e \<Rightarrow> Inl e | Inr (_, s) \<Rightarrow> Inr (x, s))"
  by (cases r) auto

lemma scan_keyed:
  assumes "renders_ok render elems" and "0 \<notin> set val"
  shows "scan_records cb idbuf c val (keyed_records render i True elems) dir s =
    bind_out (r_calls cb ((idbuf @ [c], val) # calls_of render idbuf (elem_entries i elems)) s) (\<lambda>_ s.
      Inr (dir\<lparr>dir_num_elems := dir_num_elems dir + 1 + count_some elems\<rparr>, s))"
  using assms
proof (induction elems arbitrary: i c val dir s)
  case Nil
  then show ?case by (simp add: bind_out_assoc count_some_def)
next
  case (Cons elem elems)
  have ok: "renders_ok render elems" using Cons.prems(1) by (auto simp: renders_ok_def)
  show ?case
  proof (cases elem)
    case None
    then show ?thesis using Cons.IH [OF ok Cons.prems(2)] by (simp add: count_some_def)
  next
    case (Some e)
    then have e: "0 \<notin> set (render e)" using Cons.prems(1) by (auto simp: renders_ok_def)
    show ?thesis
      using Some e Cons.IH [OF ok e]
      by (simp add: scan_text [OF e] bind_out_assoc count_some_def digits_id_def)
  qed
qed

lemma scan_payload:
  assumes "renders_ok render elems" and "count_some elems \<noteq> 0" and "length idbuf < 8"
  shows "payload_linear_scan cb idbuf (keyed_records render i False elems) dir s =
    bind_out (r_calls cb (calls_of render idbuf (elem_entries i elems)) s) (\<lambda>_ s.
      Inr (dir\<lparr>dir_num_elems := dir_num_elems dir + count_some elems\<rparr>, s))"
  using assms(1,2)
proof (induction elems arbitrary: i)
  case (Cons elem elems)
  have ok: "renders_ok render elems" using Cons.prems(1) by (auto simp: renders_ok_def)
  show ?case
  proof (cases elem)
    case None
    then show ?thesis using Cons.IH [OF ok] Cons.prems(2) by (simp add: count_some_def)
  next
    case (Some e)
    then have e: "0 \<notin> set (render e)" using Cons.prems(1) by (auto simp: renders_ok_def)
    show ?thesis
      using Some assms(3) scan_text [OF e, of cb idbuf _ "[]"] scan_keyed [OF ok e]
      by (simp add: payload_linear_scan_def digits_id_def count_some_def)
  qed
qed (simp add: count_some_def)

lemma unmarshall_all_cells:
  assumes "length idbuf < 8"
  shows "unmarshall_cells cb idbuf (all_cells i ns) e dir = unmarshall_cells cb idbuf (used_cells i ns) e dir"
proof (induction ns arbitrary: i e dir)
  case (Cons n ns)
  show ?case using assms by (intro ext) (simp add: Cons)
qed simp

lemma unmarshall_used_cells:
  assumes "renders_ok render elems" and "length idbuf < 8" and "i + length elems \<le> 62"
    and "drop i (elem_block_sizes dir) = replicate (length elems) 0" and "i \<le> length (elem_block_sizes dir)"
  shows "unmarshall_cells cb idbuf (used_cells i (elem_sizes render elems)) (payload_text render elems) dir s =
    bind_out (r_calls cb (calls_of render idbuf (elem_entries i elems)) s) (\<lambda>_ s.
      Inr (dir\<lparr>elem_block_sizes := take i (elem_block_sizes dir) @ elem_sizes render elems,
        dir_num_elems := dir_num_elems dir + count_some elems\<rparr>, s))"
  using assms(1,3-)
proof (induction elems arbitrary: i dir s)
  case Nil
  then show ?case by (simp add: elem_sizes_def count_some_def)
next
  case (Cons elem elems)
  have ok: "renders_ok render elems" using Cons.prems(1) by (auto simp: renders_ok_def)
  have i: "Suc i + length elems \<le> 62" "i < length (elem_block_sizes dir)"
    using Cons.prems(2) arg_cong [OF Cons.prems(3), of length] by simp_all
  have nth: "elem_block_sizes dir ! i = 0" and drp: "drop (Suc i) (elem_block_sizes dir) = replicate (length elems) 0"
    using Cons.prems(3) by (simp_all add: nth_drop_0 drop_Suc_tail)
  show ?case
  proof (cases elem)
    case None
    then show ?thesis using Cons.IH [OF ok i(1) drp Suc_leI [OF i(2)]] i(2) nth
      by (simp add: elem_sizes_def payload_text_def count_some_def take_Suc_conv_app_nth)
  next
    case (Some e)
    then have e: "render e \<noteq> []" using Cons.prems(1) by (auto simp: renders_ok_def)
    define dir1 where "dir1 = dir\<lparr>elem_block_sizes := (elem_block_sizes dir)[i := length (render e)],
      dir_num_elems := Suc (dir_num_elems dir)\<rparr>"
    have IH: "unmarshall_cells cb idbuf (used_cells (Suc i) (elem_sizes render elems)) (payload_text render elems) dir1 =
      (\<lambda>s. bind_out (r_calls cb (calls_of render idbuf (elem_entries (Suc i) elems)) s) (\<lambda>_ s.
        Inr (dir\<lparr>elem_block_sizes := take i (elem_block_sizes dir) @ length (render e) # elem_sizes render elems,
          dir_num_elems := dir_num_elems dir + 1 + count_some elems\<rparr>, s)))"
      using Cons.IH [OF ok i(1), of dir1] i(2) drp
      by (intro ext) (simp add: dir1_def drop_update_cancel take_Suc_conv_app_nth take_update_cancel)
    have p: "payload_text render (elem # elems) = render e @ payload_text render elems"
      "elem_sizes render (elem # elems) = length (render e) # elem_sizes render elems"
      using Some by (simp_all add: payload_text_def elem_sizes_def)
    show ?thesis using e assms(2) IH Cons.prems(2) Some unfolding p
      by (simp add: id_pos_obj_id_seq dir1_def [symmetric] digits_id_def count_some_def bind_out_assoc)
  qed
qed

lemma num_used_elem_sizes: "renders_ok render elems \<Longrightarrow> num_used (elem_sizes render elems) = count_some elems"
proof (induction elems)
  case (Cons elem elems)
  then have "renders_ok render elems" by (auto simp: renders_ok_def)
  with Cons show ?case by (cases elem) (auto simp: elem_sizes_def count_some_def renders_ok_def)
qed (simp add: elem_sizes_def count_some_def)

lemma payload_text_empty: "renders_ok render elems \<Longrightarrow> payload_text render elems = [] \<longleftrightarrow> count_some elems = 0"
proof (induction elems)
  case (Cons elem elems)
  then have "renders_ok render elems" by (auto simp: renders_ok_def)
  with Cons show ?case by (cases elem) (auto simp: payload_text_def count_some_def renders_ok_def)
qed (simp add: payload_text_def count_some_def)

lemma sum_elem_sizes: "sum_list (elem_sizes render elems) = length (payload_text render elems)"
proof (induction elems)
  case (Cons e elems)
  then show ?case by (cases e) (simp_all add: elem_sizes_def payload_text_def)
qed (simp add: elem_sizes_def payload_text_def)

lemma unat_byte_of_nat: "n < 256 \<Longrightarrow> unat (of_nat n :: byte) = n"
  by (simp add: unat_of_nat)

definition payload_read :: "('e \<Rightarrow> byte list) \<Rightarrow> 'e option list \<Rightarrow> dir_info \<Rightarrow> dir_info" where
  "payload_read render elems d =
     (if is_linear render elems then d\<lparr>dir_num_elems := dir_num_elems d + count_some elems, elems_linear_scan := True\<rparr>
      else d\<lparr>elem_block_sizes := elem_sizes render elems, dir_num_elems := dir_num_elems d + count_some elems\<rparr>)"

lemma unmarshall_elems_cells:
  fixes z used :: nat and cs :: "byte list"
  defines "tail keys \<equiv> (if keys then [of_nat used] else []) @ [of_nat z, if keys then 1 else 0]"
  assumes "0 < z" "z \<le> 4" and "used \<le> 62"
    and "length cs = (if keys then used else 62) * (if keys then z + 1 else z)"
  shows "unmarshall_elems cb idbuf (txt @ cs @ tail keys) d s =
    unmarshall_cells cb idbuf (read_cells keys z 0 (if keys then used else 62) (cs @ tail keys)) txt d s"
proof -
  have u: "unat (of_nat z :: byte) = z" "unat (of_nat used :: byte) = used"
    using assms(3,4) by (simp_all add: unat_byte_of_nat)
  show ?thesis
    using assms(2-) u by (cases keys) (simp_all add: unmarshall_elems_def Let_def nth_append tail_def)
qed

lemma unmarshall_elems_payload:
  assumes "renders_ok render elems" and "length elems = 62" and "count_some elems \<noteq> 0" and "length idbuf < 8"
    and "length (payload render elems) < 2 ^ 31" and "elem_block_sizes d = replicate 62 0"
  shows "unmarshall_elems cb idbuf (payload render elems) d s =
    bind_out (r_calls cb (calls_of render idbuf (elem_entries 0 elems)) s) (\<lambda>_ s. Inr (payload_read render elems d, s))"
proof (cases "is_linear render elems")
  case True
  have ne: "payload_text render elems \<noteq> []" using assms(1,3) by (simp add: payload_text_empty)
  have p: "payload render elems = keyed_records render 0 False elems @ [0, 1]"
    using True ne by (simp add: payload_def)
  show ?thesis unfolding p
    using scan_payload [OF assms(1,3,4), of cb 0 d s]
    by (simp add: unmarshall_elems_def Let_def nth_append bind_out_assoc payload_read_def True)
next
  case False
  let ?ns = "elem_sizes render elems"
  let ?keys = "KND_RADIX_BASE - num_used ?ns > KND_RADIX_BASE div 2"
  let ?sz = "knd_min_bytes (of_nat (Max (insert 0 (set ?ns))))"
  let ?cells = "cells ?keys ?sz 0 ?ns"
  have ne: "payload_text render elems \<noteq> []" using assms(1,3) by (simp add: payload_text_empty)
  have used: "num_used ?ns = count_some elems" by (rule num_used_elem_sizes [OF assms(1)])
  have len: "length ?ns = 62" using assms(2) by (simp add: elem_sizes_def)
  have p: "payload render elems = payload_text render elems @ ?cells @
      (if ?keys then [of_nat (num_used ?ns)] else []) @ [of_nat ?sz, if ?keys then 1 else 0]"
  proof -
    have "payload render elems = payload_text render elems @ footer (num_used ?ns) ?ns"
      unfolding used using False ne by (simp add: payload_def elem_sizes_def)
    then show ?thesis unfolding footer_parts .
  qed
  have "\<forall>n\<in>set ?ns. n < 2 ^ 31"
    using assms(5) member_le_sum_list [of _ ?ns] by (fastforce simp: sum_elem_sizes p)
  note rd = read_footer_cells [OF len this]
  have nu: "num_used ?ns \<le> 62" using num_used_le [of ?ns] len by simp
  have cells: "unmarshall_cells cb idbuf (used_cells 0 ?ns) (payload_text render elems) d s =
     bind_out (r_calls cb (calls_of render idbuf (elem_entries 0 elems)) s) (\<lambda>_ s. Inr (payload_read render elems d, s))"
    using unmarshall_used_cells [OF assms(1,4), of 0 d cb s] assms(2,6) False by (simp add: payload_read_def)
  have un: "unmarshall_cells cb idbuf (if ?keys then used_cells 0 ?ns else all_cells 0 ?ns) (payload_text render elems) d s =
     bind_out (r_calls cb (calls_of render idbuf (elem_entries 0 elems)) s) (\<lambda>_ s. Inr (payload_read render elems d, s))"
    using cells by (simp add: unmarshall_all_cells [OF assms(4)])
  show ?thesis
    unfolding p
    by (subst unmarshall_elems_cells) (use rd nu un in simp_all)
qed

section \<open>Reading from a file\<close>

text \<open>The \<^verbatim>\<open>read\<close> of a regular file: as many bytes as there are, up to the count.\<close>

definition posix_read :: "byte list \<Rightarrow> read_fun \<Rightarrow> bool" where
  "posix_read file sys_read \<longleftrightarrow> (\<forall>off n. sys_read (int off) n = Some (take n (drop off file)))"

lemma read_at_part:
  assumes "posix_read file sys_read" and "file = pre @ bs @ post" and "length pre = off" and "length bs = n"
    and "length file < 2 ^ 31"
  shows "read_at sys_read off n s = Inr (bs, s)"
  using assms by (simp add: read_at_def posix_read_def)

lemma size_sub_simps: "b \<le> a \<Longrightarrow> size_sub a b = a - b"
  by (simp add: size_sub_def)

lemma size_add_simps: "a + b < 2 ^ 64 \<Longrightarrow> size_add a b = a + b"
  by (simp add: size_add_def)

lemma read_payload_size_spec:
  assumes "posix_read file sys_read" and "file = pre @ blk @ size_spec n @ post" and "length file < 2 ^ 31"
    and "length pre = global_offset d" and "n \<le> length blk" and "payload_block_size d = 0"
  shows "read_payload_size sys_read (length (blk @ size_spec n)) d s =
    Inr (d\<lparr>payload_block_size := n, payload_footer_size := length (size_spec n)\<rparr>, s)"
proof (cases "n = 0")
  case True
  then have "read_at sys_read (length pre + length blk) 1 s = Inr ([0], s)" for s :: "'a read_state"
    using assms(2,3) by (intro read_at_part [OF assms(1), of "pre @ blk" "[0]" post]) (simp_all add: size_spec_def)
  then show ?thesis using True assms
    by (simp add: read_payload_size_def Let_def size_spec_def size_add_simps size_sub_simps)
next
  case False
  define z L where "z = knd_min_bytes (of_nat n)" and "L = length (blk @ size_spec n)"
  have z: "0 < z" "z \<le> 4" by (simp_all add: z_def)
  then have zs: "sint (of_nat z :: byte) = int z" by (auto simp: le_Suc_eq numeral_eq_Suc)
  have spec: "size_spec n = cell_bytes z n @ [of_nat z]" using False by (simp add: size_spec_def z_def)
  have len: "length (size_spec n) = z + 1" "L = length blk + z + 1" unfolding L_def spec by (simp_all add: z_def)
  have "n \<le> length file" using assms(2,5) by simp
  then have small: "n < 2 ^ 31" using assms(3) by simp
  have r1: "read_at sys_read (length pre + length blk + z) 1 s = Inr ([of_nat z], s)" for s :: "'a read_state"
    using assms(3) by (intro read_at_part [OF assms(1), of "pre @ blk @ cell_bytes z n" "[of_nat z]" post])
      (simp_all add: assms(2) spec z_def)
  have r2: "read_at sys_read (length pre + length blk) z s = Inr (cell_bytes z n, s)" for s :: "'a read_state"
    using assms(3) by (intro read_at_part [OF assms(1), of "pre @ blk" "cell_bytes z n" "of_nat z # post"])
      (simp_all add: assms(2) spec z_def)
  have v: "unat (knd_unpack_int (cell_bytes z n) z) = n"
    using cell_bytes_roundtrip [of n n "[]"] small by (simp add: z_def)
  have "length pre + L \<le> length file" using assms(2) by (simp add: L_def)
  then have ad: "size_add (length pre) L = length pre + L"
    using assms(3) by (intro size_add_simps) simp
  have sums: "size_sub (size_add (length pre) L) 1 = length pre + length blk + z"
    "size_sub (size_add (length pre) L) (1 + z) = length pre + length blk"
    "size_sub L (1 + z) = length blk"
    unfolding ad by (simp_all add: len size_sub_simps)
  show ?thesis unfolding read_payload_size_def assms(4) [symmetric] Let_def L_def [symmetric]
    using z zs assms(5,6) by (simp add: sums [simplified] r1 [simplified] r2 v len(1))
qed

lemma read_subdirs_footer_spec:
  assumes "posix_read file sys_read" and "file = pre @ blk @ footer (num_used ns) ns @ post" and "length file < 2 ^ 31"
    and "length pre = offset" and "length ns = 62" and "\<forall>n\<in>set ns. n < 2 ^ 31" and "num_used ns \<noteq> 0"
  shows "\<exists>cs. read_subdirs_footer sys_read offset (length (blk @ footer (num_used ns) ns)) s = Inr (cs, s) \<and>
    cs \<in> {used_cells 0 ns, all_cells 0 ns}"
proof -
  define keys z m L where "keys = (KND_RADIX_BASE - num_used ns > KND_RADIX_BASE div 2)"
    and "z = knd_min_bytes (of_nat (Max (insert 0 (set ns))))"
    and "m = (if keys then num_used ns else 62)" and "L = length (blk @ footer (num_used ns) ns)"
  let ?cells = "cells keys z 0 ns" and ?spec = "(if keys then [of_nat (num_used ns) :: byte] else []) @ [of_nat z, if keys then 1 else 0]"
  have z: "0 < z" "z \<le> 4" by (simp_all add: z_def)
  have used: "num_used ns \<le> 62" using num_used_le [of ns] assms(5) by simp
  have foot: "footer (num_used ns) ns = ?cells @ ?spec" unfolding keys_def z_def by (rule footer_parts)
  note rd = read_footer_cells [OF assms(5,6), folded keys_def z_def, folded m_def]
  define D where "D = m * z + (if keys then m else 0)"
  have D: "length ?cells = D" using rd [of "[]"] by (auto simp: D_def)
  have "D \<le> 62 * (4 + 1)"
  proof -
    have m: "m \<le> 62" using used by (simp add: m_def)
    then have "m * z \<le> 62 * 4" using z by (intro mult_mono) simp_all
    then show ?thesis using m by (auto simp: D_def)
  qed
  then have D_le: "D \<le> 1016" by simp
  have "1 * 1 \<le> m * z" using assms(7) z by (intro mult_mono) (auto simp: m_def)
  then have D1: "1 \<le> D" by (simp add: D_def)
  have L: "L = length blk + D + length ?spec" by (simp add: L_def foot D)
  obtain x pre' where spec3: "blk @ ?cells @ ?spec = pre' @ [x, of_nat z, if keys then 1 else 0]"
    "length pre' + 3 = L" "keys \<longrightarrow> x = of_nat (num_used ns)"
  proof (cases keys)
    case True
    then show ?thesis using L D by (intro that [of "blk @ ?cells" "of_nat (num_used ns)"]) simp_all
  next
    case False
    then have "?cells \<noteq> []" using D D1 by auto
    then show ?thesis using False L D D1
      by (intro that [of "blk @ butlast ?cells" "last ?cells"]) simp_all
  qed
  have "length pre + L \<le> length file" using assms(2) by (simp add: L_def)
  then have ad: "size_add (length pre) L = length pre + L" using assms(3) by (intro size_add_simps) simp
  have r1: "read_at sys_read (length pre + L - 3) 3 s = Inr ([x, of_nat z, if keys then 1 else 0], s)" for s :: 'a
    using assms(3) spec3 foot
    by (intro read_at_part [OF assms(1), of "pre @ pre'" "[x, of_nat z, if keys then 1 else 0]" post]) (auto simp: assms(2))
  have r2: "read_at sys_read (length pre + length blk) D s = Inr (?cells, s)" for s :: 'a
    using assms(3) by (intro read_at_part [OF assms(1), of "pre @ blk" ?cells "?spec @ post"]) (simp_all add: assms(2) foot D)
  have "length pre + length blk \<le> length file" using assms(2) by simp
  then have ad2: "size_add (length pre) (length blk) = length pre + length blk" using assms(3) by (intro size_add_simps) simp
  have sub: "size_sub L (D + (if keys then 3 else 2)) = length blk"
    unfolding L by (cases keys) (simp_all add: size_sub_simps)
  have u: "unat (of_nat z :: byte) = z" "unat (of_nat (num_used ns) :: byte) = num_used ns"
    using z used by (simp_all add: unat_byte_of_nat)
  have "read_subdirs_footer sys_read offset L s = Inr (read_cells keys z 0 m ?cells, s)"
    using D_le z r1 [of s] r2 [of s] u spec3(3) sub ad ad2 L
    unfolding read_subdirs_footer_def assms(4) [symmetric] D_def m_def
    by (cases keys) (simp_all add: size_sub_simps Let_def)
  moreover have "read_cells keys z 0 m ?cells \<in> {used_cells 0 ns, all_cells 0 ns}"
    using rd [of "[]"] by simp
  ultimately show ?thesis unfolding L_def by blast
qed

section \<open>Following the callbacks\<close>

text \<open>The callbacks alone, on their object.\<close>

fun o_calls :: "('o, 'e) unmarshall_cb \<Rightarrow> (byte list \<times> byte list) list \<Rightarrow> 'o \<Rightarrow> ('o, unit) outcome" where
  "o_calls cb [] obj = Inr ((), obj)"
| "o_calls cb ((elem_id, val) # calls) obj = bind_out (cb elem_id val obj) (\<lambda>_ obj. o_calls cb calls obj)"

lemma o_calls_append: "o_calls cb (xs @ ys) obj = bind_out (o_calls cb xs obj) (\<lambda>_ obj. o_calls cb ys obj)"
proof (induction xs arbitrary: obj)
  case (Cons x xs)
  obtain elem_id val where x: "x = (elem_id, val)" by (cases x)
  show ?case by (cases "cb elem_id val obj") (use Cons in \<open>auto simp: x\<close>)
qed simp

lemma r_calls_o_calls:
  "r_calls cb calls s = (case o_calls cb calls (r_obj s) of
     Inl (e, obj) \<Rightarrow> Inl (e, s\<lparr>r_obj := obj\<rparr>) | Inr (u, obj) \<Rightarrow> Inr ((), s\<lparr>r_obj := obj\<rparr>))"
proof (induction cb calls s rule: r_calls.induct)
  case (2 cb elem_id val calls s)
  show ?case
  proof (cases "cb elem_id val (r_obj s)")
    case (Inl e)
    then show ?thesis by (cases e) (simp add: r_call_def)
  next
    case (Inr r)
    then show ?thesis using 2 by (cases r) (auto simp: r_call_def split: sum.splits)
  qed
qed simp

text \<open>
  A step that makes these calls: it fails as the first call that fails does, and otherwise
  returns \<open>d\<close> after \<open>n\<close> allocations.
\<close>

definition reads ::
  "('o, 'e) unmarshall_cb \<Rightarrow> (byte list \<times> byte list) list \<Rightarrow> 'd \<Rightarrow> nat \<Rightarrow> ('o read_state, 'd) outcome \<Rightarrow>
   'o read_state \<Rightarrow> bool" where
  "reads cb calls d n res s \<longleftrightarrow>
     (case o_calls cb calls (r_obj s) of
        Inl (e, obj) \<Rightarrow> (\<exists>s'. res = Inl (e, s') \<and> r_obj s' = obj)
      | Inr (_, obj) \<Rightarrow> (\<exists>s'. res = Inr (d, s') \<and> r_obj s' = obj \<and> sm_mempool (r_mem s') = None \<and>
          sm_callocs (r_mem s') + n = sm_callocs (r_mem s)))"

lemma reads_failed: "o_calls cb calls (r_obj s) = Inl (e, obj) \<Longrightarrow>
  reads cb calls d n res s \<longleftrightarrow> (\<exists>s'. res = Inl (e, s') \<and> r_obj s' = obj)"
  by (simp add: reads_def)

lemma reads_done: "o_calls cb calls (r_obj s) = Inr (u, obj) \<Longrightarrow>
  reads cb calls d n res s \<longleftrightarrow> (\<exists>s'. res = Inr (d, s') \<and> r_obj s' = obj \<and> sm_mempool (r_mem s') = None \<and>
          sm_callocs (r_mem s') + n = sm_callocs (r_mem s))"
  by (simp add: reads_def)

lemma reads_bind:
  assumes "reads cb xs d n res s"
    and "\<And>s'. sm_mempool (r_mem s') = None \<Longrightarrow> sm_callocs (r_mem s') + n = sm_callocs (r_mem s) \<Longrightarrow>
      reads cb ys d' m (f d s') s'"
  shows "reads cb (xs @ ys) d' (n + m) (bind_out res f) s"
proof (cases "o_calls cb xs (r_obj s)")
  case (Inl r)
  obtain e obj where r: "r = (e, obj)" by (cases r)
  then obtain s' where "res = Inl (e, s')" "r_obj s' = obj"
    using assms(1) Inl by (auto simp: reads_failed)
  then show ?thesis using Inl r by (simp add: reads_def o_calls_append)
next
  case (Inr r)
  obtain u obj where r: "r = (u, obj)" by (cases r)
  then obtain s' where s': "res = Inr (d, s')" "r_obj s' = obj" "sm_mempool (r_mem s') = None"
    "sm_callocs (r_mem s') + n = sm_callocs (r_mem s)"
    using assms(1) Inr by (auto simp: reads_done)
  have nxt: "reads cb ys d' m (f d s') s'" by (rule assms(2) [OF s'(3,4)])
  have app: "o_calls cb (xs @ ys) (r_obj s) = o_calls cb ys (r_obj s')" using Inr r s'(2) by (simp add: o_calls_append)
  have res: "bind_out res f = f d s'" using s'(1) by simp
  show ?thesis
  proof (cases "o_calls cb ys (r_obj s')")
    case (Inl q)
    then show ?thesis using nxt by (cases q) (simp add: reads_def app res)
  next
    case (Inr q)
    then show ?thesis using nxt s'(4) by (cases q) (auto simp: reads_def app res)
  qed
qed

lemma reads_bind_none:
  assumes "reads cb [] d n res s"
    and "\<And>s'. sm_mempool (r_mem s') = None \<Longrightarrow> sm_callocs (r_mem s') + n = sm_callocs (r_mem s) \<Longrightarrow>
      reads cb ys d' m (f d s') s'"
  shows "reads cb ys d' (n + m) (bind_out res f) s"
  using reads_bind [where f = f and ys = ys and m = m and d' = d', OF assms(1) assms(2)] by simp

lemma reads_pure: "sm_mempool (r_mem s) = None \<Longrightarrow> reads cb [] d 0 (Inr (d, s)) s"
  by (simp add: reads_def)

lemma reads_finish:
  assumes "reads cb xs d n res s" and "\<And>s'. f d s' = Inr (d', s')"
  shows "reads cb xs d' n (bind_out res f) s"
  using reads_bind [OF assms(1), of "[]" d' 0 f] assms(2) by (simp add: reads_pure)

lemma reads_state: "reads cb xs d n res (s\<lparr>r_blocks := b\<rparr>) = reads cb xs d n res s"
  by (cases "o_calls cb xs (r_obj s)") (auto simp: reads_def)

lemma reads_calloc:
  "sm_mempool (r_mem s) = None \<Longrightarrow> sm_callocs (r_mem s) \<noteq> 0 \<Longrightarrow> reads cb [] () 1 (r_calloc s) s"
  by (simp add: reads_def r_calloc_def calloc_one_def)

lemma reads_dir_new:
  "sm_mempool (r_mem s) = None \<Longrightarrow> sm_callocs (r_mem s) \<noteq> 0 \<Longrightarrow> reads cb [] empty_dir 1 (r_dir_new s) s"
  by (simp add: reads_def r_dir_new_def knd_shared_set_dir_new_def calloc_one_def bind_result_def)

lemma reads_calls:
  "sm_mempool (r_mem s) = None \<Longrightarrow>
   reads cb calls d 0 (bind_out (r_calls cb calls s) (\<lambda>_ s. Inr (d, s))) s"
  by (auto simp: reads_def r_calls_o_calls split: sum.splits)

section \<open>What the reader builds\<close>

definition read_info :: "('e \<Rightarrow> byte list) \<Rightarrow> nat \<Rightarrow> nat \<Rightarrow> 'e option list \<Rightarrow> nat \<Rightarrow> dir_info" where
  "read_info render tot off elems n =
     (let d = (dir_info empty_dir)\<lparr>total_size := tot, global_offset := off,
           payload_block_size := length (payload render elems),
           payload_footer_size := length (size_spec (length (payload render elems)))\<rparr>
      in (if count_some elems = 0 then d else payload_read render elems d)\<lparr>total_elems := n\<rparr>)"

fun dir_of :: "('e \<Rightarrow> byte list) \<Rightarrow> nat \<Rightarrow> nat \<Rightarrow> 'e elem_idx \<Rightarrow> kndSharedSetDir"
  and subs_of :: "('e \<Rightarrow> byte list) \<Rightarrow> nat \<Rightarrow> 'e elem_idx option list \<Rightarrow> kndSharedSetDir option list" where
  "dir_of render tot off (Elem_Idx elems subs) =
     Shared_Set_Dir (read_info render tot off elems (length (idx_entries (Elem_Idx elems subs))))
       (subs_of render (off + length (payload render elems)) subs)"
| "subs_of render off [] = []"
| "subs_of render off (None # subs) = None # subs_of render off subs"
| "subs_of render off (Some sub # subs) =
     Some (dir_of render (length (block_bytes render sub)) off sub) #
     subs_of render (off + length (block_bytes render sub)) subs"

fun read_allocs :: "'e elem_idx \<Rightarrow> nat" and subs_allocs :: "'e elem_idx option list \<Rightarrow> nat" where
  "read_allocs (Elem_Idx elems subs) = (if count_some elems = 0 then 0 else 2) + subs_allocs subs"
| "subs_allocs [] = 0"
| "subs_allocs (None # subs) = subs_allocs subs"
| "subs_allocs (Some sub # subs) = 1 + read_allocs sub + subs_allocs subs"

fun idx_height :: "'e elem_idx \<Rightarrow> nat" and subs_height :: "'e elem_idx option list \<Rightarrow> nat" where
  "idx_height (Elem_Idx elems subs) = Suc (subs_height subs)"
| "subs_height [] = 0"
| "subs_height (None # subs) = subs_height subs"
| "subs_height (Some sub # subs) = max (idx_height sub) (subs_height subs)"

text \<open>Entries whose text is not empty and has no separator.\<close>

definition entries_ok :: "('e \<Rightarrow> byte list) \<Rightarrow> (nat list \<times> 'e) list \<Rightarrow> bool" where
  "entries_ok render entries \<longleftrightarrow> list_all (\<lambda>(ds, e). render e \<noteq> [] \<and> 0 \<notin> set (render e)) entries"

lemma entries_ok_append [simp]: "entries_ok render (xs @ ys) \<longleftrightarrow> entries_ok render xs \<and> entries_ok render ys"
  by (simp add: entries_ok_def)

lemma entries_ok_prefix [simp]: "entries_ok render (map (apfst f) xs) \<longleftrightarrow> entries_ok render xs"
  by (auto simp: entries_ok_def list_all_iff)

lemma entries_ok_elems: "entries_ok render (elem_entries i elems) \<longleftrightarrow> renders_ok render elems"
proof (induction elems arbitrary: i)
  case (Cons elem elems)
  then show ?case by (cases elem) (simp_all add: entries_ok_def renders_ok_def all_conj_distrib)
qed (simp add: entries_ok_def renders_ok_def)

lemma calls_of_prefix:
  "calls_of render idbuf (map (apfst ((#) i)) entries) = calls_of render (idbuf @ [obj_id_seq ! i]) entries"
  by (auto simp: calls_of_def digits_id_def)

lemma payload_empty: "renders_ok render elems \<Longrightarrow> payload render elems = [] \<longleftrightarrow> count_some elems = 0"
  by (simp add: payload_def payload_text_empty footer_def Let_def)

lemma unmarshall_payload_reads:
  assumes "posix_read file sys_read" and "file = pre @ payload render elems @ post" and "length file < 2 ^ 31"
    and "length pre = global_offset d" and "payload_block_size d = length (payload render elems)"
    and "elem_block_sizes d = replicate 62 0" and "renders_ok render elems" and "length elems = 62"
    and "length idbuf < 8" and "sm_mempool (r_mem s) = None"
    and "(if count_some elems = 0 then 0 else 2) \<le> sm_callocs (r_mem s)" and "dir_num_elems d = 0" and "total_elems d = 0"
  shows "reads cb (calls_of render idbuf (elem_entries 0 elems))
    ((if count_some elems = 0 then d else payload_read render elems d)\<lparr>total_elems := count_some elems\<rparr>)
    (if count_some elems = 0 then 0 else 2) (unmarshall_payload sys_read cb idbuf d s) s"
proof (cases "count_some elems = 0")
  case True
  then have "elem_entries 0 elems = []" using length_elem_entries [of 0 elems] by simp
  moreover have "d\<lparr>total_elems := 0\<rparr> = d" using assms(13) by (cases d) simp
  ultimately show ?thesis using True payload_empty [OF assms(7)] assms(5,10)
    by (simp add: unmarshall_payload_def reads_pure)
next
  case False
  let ?p = "payload render elems"
  have small: "length ?p < 2 ^ 31" using assms(2,3) by simp
  have ne: "payload_block_size d \<noteq> 0" using False payload_empty [OF assms(7)] assms(5) by simp
  have rd: "read_at sys_read (global_offset d) (payload_block_size d) t = Inr (?p, t)" for t :: "'b read_state"
    using assms(3-5) by (intro read_at_part [OF assms(1,2)]) simp_all
  have n: "dir_num_elems (payload_read render elems d) = count_some elems" using assms(12) by (simp add: payload_read_def)
  have un: "reads cb (calls_of render idbuf (elem_entries 0 elems))
      ((payload_read render elems d)\<lparr>total_elems := count_some elems\<rparr>) 0
      (bind_out (unmarshall_elems cb idbuf ?p d (t\<lparr>r_blocks := (?p @ [0]) # r_blocks t\<rparr>)) (\<lambda>dir s.
          Inr (dir\<lparr>total_elems := dir_num_elems dir\<rparr>, s))) t" if "sm_mempool (r_mem t) = None" for t
  proof -
    have "reads cb (calls_of render idbuf (elem_entries 0 elems)) (payload_read render elems d) 0
      (unmarshall_elems cb idbuf ?p d (t\<lparr>r_blocks := (?p @ [0]) # r_blocks t\<rparr>)) t"
      unfolding unmarshall_elems_payload [OF assms(7,8) False assms(9) small assms(6)]
      using reads_calls [of "t\<lparr>r_blocks := (?p @ [0]) # r_blocks t\<rparr>" cb] that by (simp add: reads_state)
    then show ?thesis by (rule reads_finish) (simp add: n)
  qed
  have "reads cb (calls_of render idbuf (elem_entries 0 elems))
      ((payload_read render elems d)\<lparr>total_elems := count_some elems\<rparr>) (1 + (1 + 0))
    (bind_out (r_calloc s) (\<lambda>_ s.
        bind_out (r_calloc s) (\<lambda>_ s.
        if payload_block_size d = 2 ^ 64 - 1 then Inl (Stuck, s)
        else
          bind_out (read_at sys_read (global_offset d) (payload_block_size d) s) (\<lambda>b s.
          bind_out (unmarshall_elems cb idbuf b d (s\<lparr>r_blocks := (b @ [0]) # r_blocks s\<rparr>)) (\<lambda>dir s.
          Inr (dir\<lparr>total_elems := dir_num_elems dir\<rparr>, s)))))) s"
    using assms(10,11) False small assms(5)
    by (intro reads_bind_none [OF reads_calloc]) (simp_all add: rd [unfolded assms(5)] un)
  then show ?thesis using False ne by (simp add: unmarshall_payload_def numeral_2_eq_2)
qed

lemma unmarshall_all_subdirs:
  "unmarshall_subdirs sys_read cb offset block_offset (all_cells i ns) idbuf d =
     unmarshall_subdirs sys_read cb offset block_offset (used_cells i ns) idbuf d"
proof (induction ns arbitrary: i block_offset d)
  case (Cons n ns)
  obtain dir subs where "d = (dir, subs)" by (cases d)
  then show ?case by (intro ext) (simp add: Cons del: unmarshall_block.simps cong: if_cong)
qed simp

section \<open>Blocks\<close>

definition start_dir :: "nat \<Rightarrow> nat \<Rightarrow> kndSharedSetDir" where
  "start_dir tot off = Shared_Set_Dir ((dir_info empty_dir)\<lparr>total_size := tot, global_offset := off\<rparr>) (dir_subdirs empty_dir)"

lemma num_used_blocks: "num_used (map length (sub_blocks render subs)) = count_some subs"
proof (induction subs)
  case (Cons sub subs)
  then show ?case by (cases sub) (simp_all add: count_some_def)
qed (simp add: count_some_def)

lemma subs_of_none: "count_some subs = 0 \<Longrightarrow> subs_of render off subs = replicate (length subs) None"
proof (induction subs)
  case (Cons sub subs)
  then show ?case by (cases sub) (simp_all add: count_some_def)
qed simp

lemma sub_entries_none: "count_some subs = 0 \<Longrightarrow> sub_entries i subs = [] \<and> subs_allocs subs = 0"
proof (induction subs arbitrary: i)
  case (Cons sub subs)
  then show ?case by (cases sub) (simp_all add: count_some_def)
qed simp

lemma length_subs_of [simp]: "length (subs_of render off subs) = length subs"
proof (induction subs arbitrary: off)
  case (Cons sub subs)
  then show ?case by (cases sub) simp_all
qed simp

lemma block_reads:
  fixes cb :: "('o, 'r) unmarshall_cb" and s :: "'o read_state"
  shows "idx_ok idx \<Longrightarrow> length idbuf + idx_height idx \<le> 8 \<Longrightarrow> entries_ok render (idx_entries idx) \<Longrightarrow>
     posix_read file sys_read \<Longrightarrow> file = pre @ block_bytes render idx @ post \<Longrightarrow> length file < 2 ^ 31 \<Longrightarrow>
     length pre = off \<Longrightarrow> sm_mempool (r_mem s) = None \<Longrightarrow> read_allocs idx \<le> sm_callocs (r_mem s) \<Longrightarrow>
     reads cb (calls_of render idbuf (idx_entries idx)) (dir_of render tot off idx) (read_allocs idx)
       (unmarshall_block sys_read cb (length (block_bytes render idx)) idbuf (start_dir tot off) s) s"
  "subs_ok subs \<Longrightarrow> Suc (length idbuf + subs_height subs) \<le> 8 \<Longrightarrow> entries_ok render (sub_entries i subs) \<Longrightarrow>
     posix_read file sys_read \<Longrightarrow> file = pre @ concat (sub_blocks render subs) @ post \<Longrightarrow> length file < 2 ^ 31 \<Longrightarrow>
     length pre = offset + block_offset \<Longrightarrow> sm_mempool (r_mem s) = None \<Longrightarrow>
     subs_allocs subs \<le> sm_callocs (r_mem s) \<Longrightarrow>
     drop i ds = replicate (length subs) None \<Longrightarrow> i \<le> length ds \<Longrightarrow> i + length subs \<le> 62 \<Longrightarrow>
     reads cb (calls_of render idbuf (sub_entries i subs))
       (d\<lparr>total_elems := total_elems d + length (sub_entries i subs)\<rparr>,
        take i ds @ subs_of render (offset + block_offset) subs) (subs_allocs subs)
       (unmarshall_subdirs sys_read cb offset block_offset (used_cells i (map length (sub_blocks render subs))) idbuf (d, ds) s) s"
proof (induction idx and subs arbitrary: idbuf pre post off s tot and idbuf i pre post offset block_offset s d ds
    rule: idx_ok_subs_ok.induct)
  case (1 elems subs)
  let ?p = "payload render elems" and ?ns = "map length (sub_blocks render subs)"
  let ?M = "if count_some subs = 0 then [] else concat (sub_blocks render subs) @ footer (num_used ?ns) ?ns"
  let ?n = "if count_some elems = 0 then 0 else 2 :: nat"
  have len: "length elems = 62" "length subs = 62" "subs_ok subs" using "1.prems"(1) by simp_all
  have depth: "length idbuf < 8" "Suc (length idbuf + subs_height subs) \<le> 8" using "1.prems"(2) by simp_all
  have ok: "renders_ok render elems" "entries_ok render (sub_entries 0 subs)"
    using "1.prems"(3) by (simp_all add: entries_ok_elems)
  have blk: "block_bytes render (Elem_Idx elems subs) = ?p @ ?M @ size_spec (length ?p)" by (simp add: num_used_blocks)
  define d1 where "d1 = (dir_info empty_dir)\<lparr>total_size := tot, global_offset := off, payload_block_size := length ?p,
    payload_footer_size := length (size_spec (length ?p))\<rparr>"
  define d2 where "d2 = (if count_some elems = 0 then d1 else payload_read render elems d1)\<lparr>total_elems := count_some elems\<rparr>"
  have d1: "global_offset d1 = off" "payload_block_size d1 = length ?p" "elem_block_sizes d1 = replicate 62 0"
    "dir_num_elems d1 = 0" "total_elems d1 = 0" "payload_footer_size d1 = length (size_spec (length ?p))"
    by (simp_all add: d1_def empty_dir_def)
  have d2: "global_offset d2 = off" "payload_block_size d2 = length ?p" "total_elems d2 = count_some elems"
    "payload_footer_size d2 = length (size_spec (length ?p))"
    using d1 by (simp_all add: d2_def payload_read_def)
  have fin: "off + length ?p + length ?M + length (size_spec (length ?p)) \<le> length file"
    using "1.prems"(5,7) unfolding blk by simp
  have rps: "read_payload_size sys_read (length (block_bytes render (Elem_Idx elems subs))) (dir_info (start_dir tot off)) s =
    Inr (d1, s)"
    using read_payload_size_spec [OF "1.prems"(4), of pre "?p @ ?M" "length ?p" post "dir_info (start_dir tot off)" s] "1.prems"(5-7)
    unfolding blk by (simp add: start_dir_def empty_dir_def d1_def)
  have up: "reads cb (calls_of render idbuf (elem_entries 0 elems)) d2 ?n (unmarshall_payload sys_read cb idbuf d1 s) s"
    unfolding d2_def using "1.prems"(5-9) len depth ok d1 unfolding blk
    by (intro unmarshall_payload_reads [OF "1.prems"(4), of pre _ _ "?M @ size_spec (length ?p) @ post"])
      (simp_all split: if_splits)
  let ?L = "length (block_bytes render (Elem_Idx elems subs))"
  have sizes: "size_sub ?L (size_add (length ?p) (length (size_spec (length ?p)))) = length ?M"
    "size_add off (length ?p) = off + length ?p"
    using fin "1.prems"(6) unfolding blk by (simp_all add: size_add_simps size_sub_simps)
  have rest: "reads cb (calls_of render idbuf (sub_entries 0 subs)) (dir_of render tot off (Elem_Idx elems subs)) (subs_allocs subs)
    (if length ?M = 0 then Inr (Shared_Set_Dir d2 (dir_subdirs empty_dir), t)
     else
       bind_out (read_subdirs_footer sys_read (off + length ?p) (length ?M) t) (\<lambda>cs s.
       bind_out (unmarshall_subdirs sys_read cb (off + length ?p) 0 cs idbuf (d2, dir_subdirs empty_dir) s) (\<lambda>(d, subdirs) s.
       Inr (Shared_Set_Dir d subdirs, s)))) t"
    if t: "sm_mempool (r_mem t) = None" "subs_allocs subs \<le> sm_callocs (r_mem t)" for t
  proof (cases "count_some subs = 0")
    case True
    then show ?thesis
      using sub_entries_none [OF True] t(1) length_elem_entries [of 0 elems] len(2)
      by (simp add: reads_pure d2_def d1_def read_info_def Let_def subs_of_none empty_dir_def)
  next
    case False
    then have M: "?M = concat (sub_blocks render subs) @ footer (num_used ?ns) ?ns" "length ?M \<noteq> 0"
      by (simp_all add: footer_def Let_def)
    have "sum_list ?ns \<le> length file" using fin unfolding M(1) by (simp add: length_concat)
    then have small: "\<forall>n\<in>set ?ns. n < 2 ^ 31" using member_le_sum_list [of _ ?ns] "1.prems"(6) by fastforce
    have file1: "file = (pre @ ?p) @ concat (sub_blocks render subs) @ footer (num_used ?ns) ?ns @ size_spec (length ?p) @ post"
      using "1.prems"(5) M(1) unfolding blk by simp
    obtain cs where cs: "read_subdirs_footer sys_read (off + length ?p) (length ?M) t = Inr (cs, t)"
      "cs \<in> {used_cells 0 ?ns, all_cells 0 ?ns}"
      using read_subdirs_footer_spec [OF "1.prems"(4) file1 "1.prems"(6), of "off + length ?p" t] "1.prems"(7) len small False M(1)
      by (auto simp: num_used_blocks)
    have same: "unmarshall_subdirs sys_read cb (off + length ?p) 0 cs idbuf (d2, dir_subdirs empty_dir) t =
       unmarshall_subdirs sys_read cb (off + length ?p) 0 (used_cells 0 ?ns) idbuf (d2, dir_subdirs empty_dir) t"
      using cs(2) unmarshall_all_subdirs by (metis empty_iff insert_iff)
    have "reads cb (calls_of render idbuf (sub_entries 0 subs))
      (d2\<lparr>total_elems := total_elems d2 + length (sub_entries 0 subs)\<rparr>,
        take 0 (dir_subdirs empty_dir) @ subs_of render (off + length ?p + 0) subs) (subs_allocs subs)
      (unmarshall_subdirs sys_read cb (off + length ?p) 0 (used_cells 0 ?ns) idbuf (d2, dir_subdirs empty_dir) t) t"
      using "1.IH" [OF len(3) depth(2) ok(2) "1.prems"(4) file1 "1.prems"(6), of "off + length ?p" 0 t "dir_subdirs empty_dir" d2]
        "1.prems"(7) t len(2) by (simp add: empty_dir_def)
    then have "reads cb (calls_of render idbuf (sub_entries 0 subs)) (dir_of render tot off (Elem_Idx elems subs)) (subs_allocs subs)
      (bind_out (unmarshall_subdirs sys_read cb (off + length ?p) 0 cs idbuf (d2, dir_subdirs empty_dir) t) (\<lambda>(d, subdirs) s.
       Inr (Shared_Set_Dir d subdirs, s))) t"
      unfolding same
      by (rule reads_finish) (simp add: d2_def d1_def read_info_def Let_def length_elem_entries)
    then show ?thesis using M(2) cs(1) by simp
  qed
  have "reads cb (calls_of render idbuf (elem_entries 0 elems) @ calls_of render idbuf (sub_entries 0 subs))
     (dir_of render tot off (Elem_Idx elems subs)) (?n + subs_allocs subs)
     (bind_out (unmarshall_payload sys_read cb idbuf d1 s) (\<lambda>d s.
       let subdir_block_size = size_sub ?L (size_add (payload_block_size d) (payload_footer_size d));
           offset = size_add (global_offset d) (payload_block_size d)
       in
       if subdir_block_size = 0 then Inr (Shared_Set_Dir d (dir_subdirs (start_dir tot off)), s)
       else
         bind_out (read_subdirs_footer sys_read offset subdir_block_size s) (\<lambda>cs s.
         bind_out (unmarshall_subdirs sys_read cb offset 0 cs idbuf (d, dir_subdirs (start_dir tot off)) s) (\<lambda>(d, subdirs) s.
         Inr (Shared_Set_Dir d subdirs, s))))) s"
  proof (rule reads_bind [OF up])
    fix t :: "'o read_state" assume t: "sm_mempool (r_mem t) = None" "sm_callocs (r_mem t) + ?n = sm_callocs (r_mem s)"
    have "subs_allocs subs \<le> sm_callocs (r_mem t)" using t(2) "1.prems"(9) by (simp split: if_splits)
    from rest [OF t(1) this] show "reads cb (calls_of render idbuf (sub_entries 0 subs))
      (dir_of render tot off (Elem_Idx elems subs)) (subs_allocs subs)
      (let subdir_block_size = size_sub ?L (size_add (payload_block_size d2) (payload_footer_size d2));
           offset = size_add (global_offset d2) (payload_block_size d2)
       in
       if subdir_block_size = 0 then Inr (Shared_Set_Dir d2 (dir_subdirs (start_dir tot off)), t)
       else
         bind_out (read_subdirs_footer sys_read offset subdir_block_size t) (\<lambda>cs s.
         bind_out (unmarshall_subdirs sys_read cb offset 0 cs idbuf (d2, dir_subdirs (start_dir tot off)) s) (\<lambda>(d, subdirs) s.
         Inr (Shared_Set_Dir d subdirs, s)))) t"
      unfolding Let_def d2 sizes by (simp only: start_dir_def kndSharedSetDir.sel)
  qed
  then show ?case
    unfolding unmarshall_block.simps rps bind_out_simps idx_entries.simps calls_of_simps read_allocs.simps .
next
  case 2
  then show ?case by (simp add: reads_pure)
next
  case (3 subs)
  have il: "i < length ds" using arg_cong [OF "3.prems"(10), of length] by simp
  have None: "ds ! i = None" and drp: "drop (Suc i) ds = replicate (length subs) None"
    using "3.prems"(10) by (simp_all add: nth_drop_0 drop_Suc_tail)
  show ?case
    using "3.IH" [of idbuf "Suc i" pre post offset block_offset s ds d] "3.prems" drp il None
    by (simp add: take_Suc_conv_app_nth)
next
  case (4 sub subs)
  let ?c = "obj_id_seq ! i" and ?b = "block_bytes render sub"
  have ok: "idx_ok sub" "subs_ok subs" using "4.prems"(1) by simp_all
  have depth: "length idbuf < 8" "length (idbuf @ [?c]) + idx_height sub \<le> 8" "Suc (length idbuf + subs_height subs) \<le> 8"
    using "4.prems"(2) by simp_all
  have ents: "entries_ok render (idx_entries sub)" "entries_ok render (sub_entries (Suc i) subs)"
    using "4.prems"(3) by simp_all
  have il: "i < length ds" "i < 62" using arg_cong [OF "4.prems"(10), of length] "4.prems"(12) by simp_all
  have file1: "file = pre @ ?b @ concat (sub_blocks render subs) @ post"
    and file2: "file = (pre @ ?b) @ concat (sub_blocks render subs) @ post" using "4.prems"(5) by simp_all
  have "length pre + length ?b \<le> length file" using file1 by simp
  then have sums: "size_add offset block_offset = offset + block_offset"
    "size_add block_offset (length ?b) = block_offset + length ?b"
    using "4.prems"(6,7) by (simp_all add: size_add_simps)
  define sd where "sd = dir_of render (length ?b) (offset + block_offset) sub"
  define d1 ds1 where "d1 = d\<lparr>total_elems := total_elems d + total_elems (dir_info sd)\<rparr>"
    and "ds1 = ds[i := Some sd]"
  have tot: "total_elems (dir_info sd) = length (idx_entries sub)" by (cases sub) (simp add: sd_def read_info_def Let_def)
  have drp: "drop (Suc i) ds1 = replicate (length subs) None" "Suc i \<le> length ds1" "Suc i + length subs \<le> 62"
    using "4.prems"(10,12) il by (simp_all add: ds1_def drop_update_cancel drop_Suc_tail)
  have b1: "reads cb (calls_of render (idbuf @ [?c]) (idx_entries sub)) sd (read_allocs sub)
      (unmarshall_block sys_read cb (length ?b) (idbuf @ [?c]) (start_dir (length ?b) (offset + block_offset)) t) t"
    if "sm_mempool (r_mem t) = None" "read_allocs sub \<le> sm_callocs (r_mem t)" for t
    unfolding sd_def by (rule "4.IH"(1) [OF ok(1) depth(2) ents(1) "4.prems"(4) file1 "4.prems"(6,7) that])
  have b2: "reads cb (calls_of render idbuf (sub_entries (Suc i) subs))
      (d1\<lparr>total_elems := total_elems d1 + length (sub_entries (Suc i) subs)\<rparr>,
        take (Suc i) ds1 @ subs_of render (offset + (block_offset + length ?b)) subs) (subs_allocs subs)
      (unmarshall_subdirs sys_read cb offset (block_offset + length ?b)
         (used_cells (Suc i) (map length (sub_blocks render subs))) idbuf (d1, ds1) t) t"
    if "sm_mempool (r_mem t) = None" "subs_allocs subs \<le> sm_callocs (r_mem t)" for t
    using "4.prems"(7) by (intro "4.IH"(2) [OF ok(2) depth(3) ents(2) "4.prems"(4) file2 "4.prems"(6) _ that drp]) simp
  have "reads cb (calls_of render (idbuf @ [?c]) (idx_entries sub) @ calls_of render idbuf (sub_entries (Suc i) subs))
      (d1\<lparr>total_elems := total_elems d1 + length (sub_entries (Suc i) subs)\<rparr>,
        take (Suc i) ds1 @ subs_of render (offset + (block_offset + length ?b)) subs)
      (1 + (read_allocs sub + subs_allocs subs))
      (bind_out (r_dir_new s) (\<lambda>subdir s.
        bind_out (unmarshall_block sys_read cb (length ?b) (idbuf @ [?c])
             (Shared_Set_Dir ((dir_info subdir)\<lparr>total_size := length ?b, global_offset := size_add offset block_offset\<rparr>)
               (dir_subdirs subdir)) s) (\<lambda>subdir s.
        if id_pos ?c = -1 then Inl (Stuck, s)
        else
          unmarshall_subdirs sys_read cb offset (size_add block_offset (length ?b))
            (used_cells (Suc i) (map length (sub_blocks render subs))) idbuf
            (d\<lparr>total_elems := total_elems d + total_elems (dir_info subdir)\<rparr>,
             ds[nat (id_pos ?c) := Some subdir]) s))) s"
    unfolding sums
    by (intro reads_bind_none [OF reads_dir_new] reads_bind, fold start_dir_def, rule "4.prems"(8), use "4.prems"(9) in simp,
        rule b1)
      (use "4.prems"(9) b2 il in \<open>simp_all add: id_pos_obj_id_seq d1_def ds1_def\<close>)
  moreover have "take (Suc i) ds1 @ subs_of render (offset + (block_offset + length ?b)) subs =
      take i ds @ subs_of render (offset + block_offset) (Some sub # subs)"
    using il by (simp add: ds1_def sd_def take_Suc_conv_app_nth take_update_cancel add.assoc)
  moreover have "d1\<lparr>total_elems := total_elems d1 + length (sub_entries (Suc i) subs)\<rparr> =
      d\<lparr>total_elems := total_elems d + length (sub_entries i (Some sub # subs))\<rparr>"
    by (simp add: d1_def tot)
  ultimately show ?case using depth(1)
    by (simp add: calls_of_prefix)
qed

section \<open>Set files\<close>

lemma calls_of_ids: "calls_of render [] (idx_entries idx) = map (\<lambda>(key, e). (key, render e)) (id_entries idx)"
  by (auto simp: calls_of_def id_entries_def)

lemma unmarshall_file_reads:
  assumes "idx_ok idx" and "idx_height idx \<le> 8" and "entries_ok render (idx_entries idx)"
    and "sys_open filename = Some sys_read" and "length filename \<le> 1024"
    and "posix_read img sys_read" and "img = header @ block_bytes render idx" and "length header = 3" and "length img < 2 ^ 31"
    and "sm_mempool (r_mem t) = None" and "read_allocs idx < sm_callocs (r_mem t)"
  shows "case o_calls cb (map (\<lambda>(key, e). (key, render e)) (id_entries idx)) (r_obj t) of
       Inl (e, obj) \<Rightarrow> \<exists>t'. knd_shared_set_unmarshall_file sys_open cb self filename (length img) t =
         (Some e, self\<lparr>ss_path := filename\<rparr>, t') \<and> r_obj t' = obj
     | Inr (_, obj) \<Rightarrow> \<exists>t'. knd_shared_set_unmarshall_file sys_open cb self filename (length img) t =
         (None, self\<lparr>ss_path := filename, ss_dir := Some (dir_of render (length img) 3 idx),
            ss_num_elems := of_nat (length (id_entries idx))\<rparr>, t') \<and> r_obj t' = obj"
proof -
  let ?calls = "calls_of render [] (idx_entries idx)"
  let ?r = "bind_out (r_dir_new t) (\<lambda>dir s. unmarshall_block sys_read cb (size_sub (length img) 3) []
      (Shared_Set_Dir ((dir_info dir)\<lparr>total_size := length img, global_offset := 3\<rparr>) (dir_subdirs dir)) s)"
  have size: "size_sub (length img) 3 = length (block_bytes render idx)" using assms(7,8) by (simp add: size_sub_simps)
  have "reads cb ?calls (dir_of render (length img) 3 idx) (1 + read_allocs idx) ?r t"
  proof (rule reads_bind_none [OF reads_dir_new])
    show "reads cb ?calls (dir_of render (length img) 3 idx) (read_allocs idx)
      (unmarshall_block sys_read cb (size_sub (length img) 3) []
        (Shared_Set_Dir ((dir_info empty_dir)\<lparr>total_size := length img, global_offset := 3\<rparr>) (dir_subdirs empty_dir)) s') s'"
      if "sm_mempool (r_mem s') = None" "sm_callocs (r_mem s') + 1 = sm_callocs (r_mem t)" for s'
    proof -
      have "img = header @ block_bytes render idx @ []" "length [] + idx_height idx \<le> 8" using assms(2,7) by simp_all
      moreover have "read_allocs idx \<le> sm_callocs (r_mem s')" using that(2) assms(11) by simp
      ultimately show ?thesis
        unfolding size start_dir_def [symmetric] by (intro block_reads(1) [OF assms(1) _ assms(3,6) _ assms(9,8) that(1)])
    qed
  qed (use assms in simp_all)
  moreover have "total_elems (dir_info (dir_of render (length img) 3 idx)) = length (id_entries idx)"
    by (cases idx) (simp add: read_info_def Let_def id_entries_def)
  ultimately show ?thesis
    using assms(4,5)
    by (auto simp: reads_def knd_shared_set_unmarshall_file_def calls_of_ids Let_def split: sum.splits prod.splits)
qed

text \<open>A tree with two elements, the text of an element being itself, and a file that is its bytes.\<close>

definition demo_idx :: "byte list elem_idx" where
  "demo_idx = Elem_Idx ((replicate 62 None)[0 := Some [97, 98]])
     ((replicate 62 None)[1 := Some (Elem_Idx ((replicate 62 None)[61 := Some [99]]) (replicate 62 None))])"

definition demo_out_cb :: "byte list marshall_cb" where
  "demo_out_cb e out =
     (if length e < 100 then case kndOutput_write out e of (err, out) \<Rightarrow> (err, length e, out)
      else (Some (Err knd_LIMIT), 0, out))"

definition demo_append :: "byte list write_fun" where
  "demo_append fs bs = (Written (int (length bs)), fs @ bs)"

definition demo_read :: "byte list \<Rightarrow> read_fun" where
  "demo_read fs off n = Some (take n (drop (nat off) fs))"

definition demo_state :: "byte list gsp_state" where
  "demo_state = \<lparr>g_out = \<lparr>out_mem = replicate 64 0, out_size = 0, out_cap = 64\<rparr>, g_file = bytes_of ''GSP'', g_callocs = 2\<rparr>"

lemma demo_marshall:
  "case knd_shared_set_marshall demo_append demo_out_cb (new_set demo_idx) demo_state of
     Inl _ \<Rightarrow> False | Inr (n, s) \<Rightarrow> length (g_file s) < 100"
  by code_simp

lemma write_success:
  assumes "kndOutput_write out bs = (None, out')" and "out_ok out" and "length bs < 2 ^ 64"
  shows "out_ok out' \<and> out_text out' = out_text out @ bs"
proof -
  have "length bs \<le> out_room out" using output_write [OF assms(2,3)] assms(1) by (metis not_le option.distinct(1) prod.inject)
  then show ?thesis using output_write [OF assms(2,3)] assms(1) by auto
qed

lemma demo_posix: "posix_append demo_append id" "posix_read fs (demo_read fs)" "cb_renders id demo_out_cb"
proof -
  show "cb_renders id demo_out_cb"
    unfolding cb_renders_def
  proof (intro allI impI)
    fix e out n out'
    assume "out_ok out" "demo_out_cb e out = (None, n, out')"
    then show "out_ok out' \<and> out_text out' = out_text out @ id e \<and> n = length (id e)"
      using write_success [of out e out'] by (auto simp: demo_out_cb_def split: prod.splits if_splits)
  qed
qed (auto simp: posix_append_def demo_append_def posix_read_def demo_read_def)

text \<open>C34: a shared set that was written after the three bytes of a header is read back: the file holds the
  block of its tree, the size reported is the block's, and reading the file calls the
  callback for every identifier with the text of its element, in the order of a visit. It ends with the
  first error of the callback, and otherwise the set has a directory and the number of
  elements.\<close>
theorem gsp_roundtrip:
  assumes "ss_idx self = Some idx" and "idx_ok idx" and "idx_height idx \<le> 8" and "entries_ok render (idx_entries idx)"
    and "knd_shared_set_marshall sys_append cb_out self s = Inr (n, s')" and "cb_renders render cb_out"
    and "posix_append sys_append contents" and "out_ok (g_out s)" and "contents (g_file s) = bytes_of ''GSP''"
    and "sys_open filename = Some sys_read" and "length filename \<le> 1024"
    and "posix_read (contents (g_file s')) sys_read" and "length (contents (g_file s')) < 2 ^ 31"
    and "sm_mempool (r_mem t) = None" and "read_allocs idx < sm_callocs (r_mem t)"
  shows "contents (g_file s') = bytes_of ''GSP'' @ block_bytes render idx \<and> n = length (block_bytes render idx) \<and>
    (case o_calls cb (map (\<lambda>(key, e). (key, render e)) (id_entries idx)) (r_obj t) of
       Inl (e, obj) \<Rightarrow> \<exists>t'. knd_shared_set_unmarshall_file sys_open cb copy filename (length (contents (g_file s'))) t =
         (Some e, copy\<lparr>ss_path := filename\<rparr>, t') \<and> r_obj t' = obj
     | Inr (_, obj) \<Rightarrow> \<exists>t'. knd_shared_set_unmarshall_file sys_open cb copy filename (length (contents (g_file s'))) t =
         (None, copy\<lparr>ss_path := filename, ss_dir := Some (dir_of render (length (contents (g_file s'))) 3 idx),
            ss_num_elems := of_nat (length (id_entries idx))\<rparr>, t') \<and> r_obj t' = obj)"
proof -
  from assms(1,5) obtain d where d: "traverse_marshall sys_append cb_out idx 0 s = Inr (d, s')" "n = total_size (dir_info d)"
    by (auto simp: knd_shared_set_marshall_def bind_out_eq_Inr)
  from marshall_files(1) [OF d(1) assms(2,6,7,8)] d(2) assms(9)
  have fil: "contents (g_file s') = bytes_of ''GSP'' @ block_bytes render idx" "n = length (block_bytes render idx)"
    by simp_all
  have "length (bytes_of ''GSP'') = 3" by (simp add: bytes_of_def)
  from unmarshall_file_reads [where sys_open = sys_open and filename = filename and header = "bytes_of ''GSP''" and t = t and img = "contents (g_file s')", OF assms(2-4,10-12) fil(1) this assms(13-15), where cb = cb and self = copy] fil show ?thesis by simp
qed

text \<open>The callback collects the identifiers and texts.\<close>

theorem gsp_roundtrip_witness:
  "\<exists>n s'. knd_shared_set_marshall demo_append demo_out_cb (new_set demo_idx) demo_state = Inr (n, s') \<and>
     (\<exists>t'. knd_shared_set_unmarshall_file (\<lambda>_. Some (demo_read (g_file s'))) (\<lambda>i v obj. Inr ((), obj @ [(i, v)])) (new_set demo_idx)
         [115] (length (g_file s')) \<lparr>r_obj = [], r_mem = \<lparr>sm_mempool = None, sm_callocs = 6\<rparr>, r_blocks = []\<rparr> =
       (None, (new_set demo_idx)\<lparr>ss_path := [115], ss_dir := Some (dir_of id (length (g_file s')) 3 demo_idx),
         ss_num_elems := of_nat (length (id_entries demo_idx))\<rparr>, t') \<and>
       r_obj t' = [([48], [97, 98]), ([49, 122], [99])])"
proof -
  obtain n s' where m: "knd_shared_set_marshall demo_append demo_out_cb (new_set demo_idx) demo_state = Inr (n, s')"
    "length (g_file s') < 100"
    using demo_marshall by (auto split: sum.splits)
  have idx: "idx_ok demo_idx" "idx_height demo_idx \<le> 8" "entries_ok id (idx_entries demo_idx)" "read_allocs demo_idx < 6"
    by code_simp+
  have cb: "o_calls (\<lambda>i v obj. Inr ((), obj @ [(i, v)])) (map (\<lambda>(key, e). (key, id e)) (id_entries demo_idx)) [] =
    Inr ((), [([48], [97, 98]), ([49, 122], [99])])"
    by code_simp
  have st: "out_ok (g_out demo_state)" "id (g_file demo_state) = bytes_of ''GSP''"
    by code_simp+
  show ?thesis
    using gsp_roundtrip [of "new_set demo_idx" demo_idx id demo_append demo_out_cb demo_state n s' id
        "\<lambda>_. Some (demo_read (g_file s'))" "[115]" "demo_read (g_file s')"
        "\<lparr>r_obj = [], r_mem = \<lparr>sm_mempool = None, sm_callocs = 6\<rparr>, r_blocks = []\<rparr>"
        "\<lambda>i v obj. Inr ((), obj @ [(i, v)])" "new_set demo_idx", THEN conjunct2, THEN conjunct2] m idx st demo_posix cb
    by (intro exI [of _ n] exI [of _ s'] conjI m(1)) (simp add: new_set_def)
qed

section \<open>Single elements\<close>

lemma obj_id_seq_sint: "i < 62 \<Longrightarrow> j < 62 \<Longrightarrow> sint (obj_id_seq ! i) > sint (obj_id_seq ! j) \<longleftrightarrow> i > j"
  and obj_id_seq_sint_pos: "i < 62 \<Longrightarrow> sint (obj_id_seq ! i) > 1"
  and obj_id_seq_eq: "i < 62 \<Longrightarrow> j < 62 \<Longrightarrow> obj_id_seq ! i = obj_id_seq ! j \<longleftrightarrow> i = j"
proof -
  have s: "sint (obj_id_seq ! i) = int (if i < 10 then i + 48 else if i < 36 then i + 55 else i + 61)" if "i < 62" for i
  proof -
    have "list_all (\<lambda>i. sint (obj_id_seq ! i) = int (if i < 10 then i + 48 else if i < 36 then i + 55 else i + 61)) [0..<62]"
      by code_simp
    then show ?thesis using that by (auto simp: list_all_iff)
  qed
  show "i < 62 \<Longrightarrow> j < 62 \<Longrightarrow> sint (obj_id_seq ! i) > sint (obj_id_seq ! j) \<longleftrightarrow> i > j"
    by (simp add: s)
  show "i < 62 \<Longrightarrow> sint (obj_id_seq ! i) > 1" by (simp add: s)
  show "i < 62 \<Longrightarrow> j < 62 \<Longrightarrow> obj_id_seq ! i = obj_id_seq ! j \<longleftrightarrow> i = j"
    using id_pos_obj_id_seq by (metis of_nat_eq_iff)
qed

lemma fetch_text:
  "0 \<notin> set bs \<Longrightarrow> fetch_record cb key c val (bs @ rest) s = fetch_record cb key c (val @ bs) rest s"
  by (induction bs arbitrary: val) auto

lemma fetch_keyed:
  assumes "k < 62" and "renders_ok render elems" and "0 \<notin> set val" and "j < i" and "i + length elems \<le> 62"
  shows "fetch_record cb [obj_id_seq ! k] (obj_id_seq ! j) val (keyed_records render i True elems @ [0, 1]) s =
    (if j = k then r_call cb [obj_id_seq ! k] val s
     else if i \<le> k \<and> k < i + length elems then
       (case elems ! (k - i) of None \<Rightarrow> Inl (Err knd_NO_MATCH, s) | Some e \<Rightarrow> r_call cb [obj_id_seq ! k] (render e) s)
     else Inl (Err knd_NO_MATCH, s))"
  using assms(2-5)
proof (induction elems arbitrary: i j val)
  case Nil
  have "sint (obj_id_seq ! k) > 1" "(1 :: byte) \<noteq> obj_id_seq ! k"
    using obj_id_seq_sint_pos [OF assms(1)] by auto
  then show ?case using Nil assms(1) by (simp add: obj_id_seq_eq)
next
  case (Cons elem elems)
  have ok: "renders_ok render elems" using Cons.prems(1) by (auto simp: renders_ok_def)
  show ?case
  proof (cases elem)
    case None
    then show ?thesis using Cons.IH [OF ok Cons.prems(2), of j "Suc i"] Cons.prems(3,4)
      by (auto simp: nth_Cons' Suc_diff_Suc)
  next
    case (Some e)
    then have e: "0 \<notin> set (render e)" using Cons.prems(1) by (auto simp: renders_ok_def)
    have i: "i < 62" "j < 62" using Cons.prems(3,4) by simp_all
    show ?thesis
      using Some Cons.IH [OF ok e, of i "Suc i"] Cons.prems(3,4) i assms(1)
      by (auto simp: obj_id_seq_eq obj_id_seq_sint fetch_text [OF e] nth_Cons' Suc_diff_Suc)
  qed
qed

lemma fetch_payload:
  assumes "k < 62" and "renders_ok render elems" and "count_some elems \<noteq> 0" and "i + length elems \<le> 62"
    and "i \<le> k" and "k < i + length elems"
  shows "fetch_elem_linear_scan cb (keyed_records render i False elems @ [0, 1]) [obj_id_seq ! k] s =
    (case elems ! (k - i) of None \<Rightarrow> Inl (Err knd_NO_MATCH, s) | Some e \<Rightarrow> r_call cb [obj_id_seq ! k] (render e) s)"
proof -
  have "fetch_elem_linear_scan cb (keyed_records render i False elems @ [0, 1]) [obj_id_seq ! k] s =
    (if i \<le> k \<and> k < i + length elems then
       (case elems ! (k - i) of None \<Rightarrow> Inl (Err knd_NO_MATCH, s) | Some e \<Rightarrow> r_call cb [obj_id_seq ! k] (render e) s)
     else Inl (Err knd_NO_MATCH, s))"
    using assms(2-4)
  proof (induction elems arbitrary: i)
    case (Cons elem elems)
    have ok: "renders_ok render elems" using Cons.prems(1) by (auto simp: renders_ok_def)
    show ?case
    proof (cases elem)
      case None
      then show ?thesis using Cons.IH [OF ok, of "Suc i"] Cons.prems(2,3)
        by (auto simp: nth_Cons' Suc_diff_Suc count_some_def)
    next
      case (Some e)
      then have e: "0 \<notin> set (render e)" using Cons.prems(1) by (auto simp: renders_ok_def)
      show ?thesis
        using Some fetch_keyed [OF assms(1) ok e, of i "Suc i" cb s] Cons.prems(3) assms(1)
        by (auto simp: fetch_elem_linear_scan_def fetch_text [OF e, of cb _ _ "[]"] nth_Cons' Suc_diff_Suc)
    qed
  qed (simp add: count_some_def)
  then show ?thesis using assms(5,6) by simp
qed

text \<open>Where the element of an identifier would be stored, and the state after the two allocations of a read.\<close>

fun node_of :: "'e elem_idx \<Rightarrow> nat list \<Rightarrow> 'e elem_idx option" where
  "node_of idx [] = None"
| "node_of idx [d] = Some idx"
| "node_of idx (d # e # rest) = (case idx_idxs idx ! d of None \<Rightarrow> None | Some sub \<Rightarrow> node_of sub (e # rest))"

definition after_allocs :: "'o read_state \<Rightarrow> 'o read_state" where
  "after_allocs s = s\<lparr>r_mem := (r_mem s)\<lparr>sm_callocs := sm_callocs (r_mem s) - 2\<rparr>\<rparr>"

text \<open>
  The outcome of a read of the element of a node: a list of records tells that the element is
  missing, a footer of sizes has the size 0 for it.
\<close>

definition elem_outcome ::
  "('e \<Rightarrow> byte list) \<Rightarrow> ('o, 'r) unmarshall_cb \<Rightarrow> byte list \<Rightarrow> 'e option list \<Rightarrow> 'e option \<Rightarrow> 'o read_state \<Rightarrow>
   ('o read_state, 'r) outcome" where
  "elem_outcome render cb key elems elem s =
     (case elem of
        Some e \<Rightarrow> r_call cb key (render e) s
      | None \<Rightarrow> if count_some elems \<noteq> 0 \<and> is_linear render elems then Inl (Err knd_NO_MATCH, s) else r_call cb key [] s)"

lemma two_callocs:
  "2 \<le> sm_callocs (r_mem s) \<Longrightarrow>
   bind_out (r_calloc s) (\<lambda>_ s. bind_out (r_calloc s) f) = f () (after_allocs s)"
  by (simp add: r_calloc_def calloc_one_def after_allocs_def numeral_2_eq_2)

lemma payload_text_split:
  assumes "k < length elems"
  shows "\<exists>post. payload_text render elems = payload_text render (take k elems) @ case_option [] render (elems ! k) @ post"
    and "length (payload_text render (take k elems)) = sum_list (take k (elem_sizes render elems))"
proof -
  have "elems = take k elems @ elems ! k # drop (Suc k) elems" using assms by (rule id_take_nth_drop)
  then have "payload_text render elems = payload_text render (take k elems) @ case_option [] render (elems ! k) @
      payload_text render (drop (Suc k) elems)"
    unfolding payload_text_def by (metis append.assoc concat.simps(2) concat_append list.simps(9) map_append)
  then show "\<exists>post. payload_text render elems = payload_text render (take k elems) @ case_option [] render (elems ! k) @ post"
    by blast
  have "take k (elem_sizes render elems) = elem_sizes render (take k elems)" by (simp add: elem_sizes_def take_map)
  then show "length (payload_text render (take k elems)) = sum_list (take k (elem_sizes render elems))"
    by (simp add: sum_elem_sizes)
qed

lemma read_last:
  assumes "posix_read img sys_read" and "img = pre @ payload render elems @ post" and "length img < 2 ^ 31" and "length pre = off"
    and "renders_ok render elems" and "length elems = 62" and "k < 62" and "2 \<le> sm_callocs (r_mem s)"
  shows "read_elem sys_read cb (Shared_Set_Dir (read_info render tot off elems n) ds) [obj_id_seq ! k] s =
    elem_outcome render cb [obj_id_seq ! k] elems (elems ! k) (after_allocs s)"
proof -
  let ?d = "read_info render tot off elems n"
  have pos: "nat (id_pos (obj_id_seq ! k)) = k" "id_pos (obj_id_seq ! k) \<noteq> -1" using assms(7) by (simp_all add: id_pos_obj_id_seq)
  have d: "global_offset ?d = off" "payload_block_size ?d = length (payload render elems)"
    by (simp_all add: read_info_def Let_def payload_read_def)
  have off: "off + length (payload render elems) < 2 ^ 31" using assms(2,3,4) by simp
  show ?thesis
  proof (cases "count_some elems \<noteq> 0 \<and> is_linear render elems")
    case True
    then have lin: "elems_linear_scan ?d" by (simp add: read_info_def Let_def payload_read_def)
    have p: "payload render elems = keyed_records render 0 False elems @ [0, 1]"
      using True assms(5) by (simp add: payload_def payload_text_empty)
    have rd: "read_at sys_read (size_add off 0) (length (payload render elems)) t = Inr (payload render elems, t)" for t :: "'b read_state"
      using off assms(3,4) by (simp add: size_add_simps read_at_part [OF assms(1,2)])
    show ?thesis
      using True assms(6,7) fetch_payload [OF assms(7,5), of 0 cb "after_allocs s"]
      by (simp add: lin pos d two_callocs [OF assms(8)] rd elem_outcome_def) (simp add: p split: option.splits)
  next
    case False
    have lin: "\<not> elems_linear_scan ?d" using False by (auto simp: read_info_def Let_def payload_read_def empty_dir_def)
    have sizes: "elem_block_sizes ?d = (if count_some elems = 0 then replicate 62 0 else elem_sizes render elems)"
      using False by (auto simp: read_info_def Let_def payload_read_def empty_dir_def)
    let ?b = "case_option [] render (elems ! k)"
    obtain a post' where sp: "payload render elems = a @ ?b @ post'"
      "length a = sum_list (take k (elem_block_sizes ?d))" "length ?b = elem_block_sizes ?d ! k"
    proof (cases "count_some elems = 0")
      case True
      then have "elems ! k = None" using assms(6,7) by (auto simp: count_some_def filter_empty_conv)
      then show ?thesis using True assms(7) by (intro that [of "[]" "payload render elems"]) (simp_all add: sizes sum_list_replicate)
    next
      case cs: False
      then have "payload render elems = payload_text render elems @
        footer (count_some elems) (map (case_option 0 (\<lambda>e. length (render e))) elems)"
        using False assms(5) by (simp add: payload_def payload_text_empty)
      with payload_text_split [of k elems render] assms(6,7) cs obtain r where
        "payload render elems = payload_text render (take k elems) @ ?b @ r" by auto
      then show ?thesis using cs payload_text_split(2) [of k elems render] assms(6,7)
        by (intro that) (auto simp: sizes elem_sizes_def split: option.splits)
    qed
    have file1: "img = (pre @ a) @ ?b @ post' @ post" using assms(2) sp(1) by simp
    have "length a \<le> length (payload render elems)" unfolding sp(1) by simp
    then have rd: "read_at sys_read (size_add off (sum_list (take k (elem_block_sizes ?d)))) (elem_block_sizes ?d ! k) t = Inr (?b, t)"
      for t :: "'b read_state"
      unfolding sp(2) [symmetric] sp(3) [symmetric] using off assms(3,4)
      by (simp add: size_add_simps read_at_part [OF assms(1) file1])
    show ?thesis using False
      by (simp add: lin pos d two_callocs [OF assms(8)] rd elem_outcome_def) (auto split: option.splits)
  qed
qed

lemma subs_of_nth:
  "k < length subs \<Longrightarrow> subs ! k = Some sub \<Longrightarrow>
     subs_of render off subs ! k =
       Some (dir_of render (length (block_bytes render sub)) (off + length (concat (take k (sub_blocks render subs)))) sub) \<and>
     sub_blocks render subs ! k = block_bytes render sub"
  "k < length subs \<Longrightarrow> subs ! k = None \<Longrightarrow> subs_of render off subs ! k = None"
proof (induction subs arbitrary: k off)
  case (Cons s subs)
  case 1
  then show ?case using Cons(1) by (cases s; cases k) (simp_all add: add.assoc)
next
  case (Cons s subs)
  case 2
  then show ?case using Cons(2) by (cases s; cases k) simp_all
qed simp_all

lemma entries_ok_sub: "Some sub \<in> set subs \<Longrightarrow> entries_ok render (sub_entries i subs) \<Longrightarrow> entries_ok render (idx_entries sub)"
proof (induction subs arbitrary: i)
  case (Cons s subs)
  then show ?case by (cases s) auto
qed simp

lemma read_elem_spec:
  assumes "list_all valid_digit key" and "key \<noteq> []"
    and "idx_ok idx" and "entries_ok render (idx_entries idx)" and "posix_read img sys_read"
    and "img = pre @ block_bytes render idx @ post" and "length img < 2 ^ 31" and "length pre = off" and "2 \<le> sm_callocs (r_mem s)"
  shows "read_elem sys_read cb (dir_of render tot off idx) key s =
    (case node_of idx (id_digits key) of
       None \<Rightarrow> Inl (Err knd_NO_MATCH, s)
     | Some node \<Rightarrow> elem_outcome render cb [last key] (idx_elems node) (lookup idx (id_digits key)) (after_allocs s))"
  using assms
proof (induction key arbitrary: idx tot off pre post)
  case (Cons c key)
  obtain elems subs where idx: "idx = Elem_Idx elems subs" by (cases idx)
  let ?k = "nat (id_pos c)"
  have k: "?k < 62" "id_pos c \<noteq> -1" "obj_id_seq ! ?k = c"
    using Cons.prems(1) id_pos_less obj_id_seq_id_pos by (auto simp: valid_digit_def)
  have len: "length elems = 62" "length subs = 62" "subs_ok subs" using Cons.prems(3) by (simp_all add: idx)
  have ok: "renders_ok render elems" "entries_ok render (sub_entries 0 subs)"
    using Cons.prems(4) by (simp_all add: idx entries_ok_elems)
  obtain M where blk: "block_bytes render idx = payload render elems @ concat (sub_blocks render subs) @ M"
  proof (cases "count_some subs = 0")
    case True
    then have c: "concat (sub_blocks render subs) = []"
      using num_used_blocks [of render subs] by (simp add: num_used_def filter_empty_conv)
    then show ?thesis using True by (intro that [of "size_spec (length (payload render elems))"]) (simp add: idx c)
  next
    case False
    then show ?thesis by (intro that) (simp add: idx)
  qed
  show ?case
  proof (cases key)
    case Nil
    have "img = pre @ payload render elems @ (concat (sub_blocks render subs) @ M @ post)"
      using Cons.prems(6) unfolding blk by simp
    from read_last [OF Cons.prems(5) this Cons.prems(7,8) ok(1) len(1) k(1) Cons.prems(9)]
    show ?thesis using Nil k by (simp add: idx)
  next
    case (Cons d rest)
    show ?thesis
    proof (cases "subs ! ?k")
      case None
      then show ?thesis using Cons k len subs_of_nth(2) [of ?k subs] by (simp add: idx)
    next
      case (Some sub)
      let ?pre = "pre @ payload render elems @ concat (take ?k (sub_blocks render subs))"
      note nth = subs_of_nth(1) [of ?k subs sub render "off + length (payload render elems)"]
      have kb: "?k < length (sub_blocks render subs)" using k len by simp
      have "sub_blocks render subs = take ?k (sub_blocks render subs) @ block_bytes render sub # drop (Suc ?k) (sub_blocks render subs)"
        using id_take_nth_drop [OF kb] nth k len Some by simp
      then have "concat (sub_blocks render subs) = concat (take ?k (sub_blocks render subs)) @ block_bytes render sub @
          concat (drop (Suc ?k) (sub_blocks render subs))"
        by (metis concat.simps(2) concat_append)
      then have img: "img = ?pre @ block_bytes render sub @ (concat (drop (Suc ?k) (sub_blocks render subs)) @ M @ post)"
        using Cons.prems(6) unfolding blk by simp
      have sub: "Some sub \<in> set subs" using Some k len by (metis nth_mem)
      then have "idx_ok sub" "entries_ok render (idx_entries sub)"
        using len(3) ok(2) entries_ok_sub by (auto simp: subs_ok_iff)
      from Cons.IH [OF _ _ this Cons.prems(5) img Cons.prems(7) refl Cons.prems(9), of "length (block_bytes render sub)"]
      show ?thesis using Cons Cons.prems(1,8) nth k len Some by (auto simp: idx add.assoc split: option.splits)
    qed
  qed
qed simp

lemma read_elem_invalid:
  "\<not> list_all valid_digit key \<Longrightarrow> read_elem sys_read cb dir key s \<in> {Inl (Err knd_FORMAT, s), Inl (Err knd_NO_MATCH, s)}"
  by (induction sys_read cb dir key s rule: read_elem.induct) (auto simp: valid_digit_def Let_def split: option.splits)

text \<open>The directory of a set file finds single elements: for a stored identifier the callback gets the
  text that was written, read from the file with two allocations. A missing one is \<open>knd_NO_MATCH\<close>
  when a node on the way is missing or its payload is a list of records; otherwise, and for a
  node without payload, the callback is called with an empty text. An invalid identifier is an
  error without any read.\<close>
theorem gsp_read_elem:
  assumes "idx_ok idx" and "entries_ok render (idx_entries idx)"
    and "sys_open (ss_path self) = Some sys_read" and "posix_read (header @ block_bytes render idx) sys_read"
    and "length header = 3" and "length (header @ block_bytes render idx) < 2 ^ 31"
    and "ss_dir self = Some (dir_of render (length (header @ block_bytes render idx)) 3 idx)"
    and "2 \<le> sm_callocs (r_mem s)" and "key \<noteq> []"
  shows "if valid_id key
    then knd_shared_set_unmarshall_elem sys_open cb self key s =
      (case elem_at idx key of
         Some e \<Rightarrow> r_call cb [last key] (render e) (after_allocs s)
       | None \<Rightarrow>
           (case node_of idx (id_digits key) of
              None \<Rightarrow> Inl (Err knd_NO_MATCH, s)
            | Some node \<Rightarrow>
                if count_some (idx_elems node) \<noteq> 0 \<and> is_linear render (idx_elems node)
                then Inl (Err knd_NO_MATCH, after_allocs s)
                else r_call cb [last key] [] (after_allocs s)))
    else knd_shared_set_unmarshall_elem sys_open cb self key s \<in> {Inl (Err knd_FORMAT, s), Inl (Err knd_NO_MATCH, s)}"
proof (cases "valid_id key")
  case True
  have "node_of idx ds \<noteq> None" if "lookup idx ds \<noteq> None" for idx :: "'a elem_idx" and ds
    using that by (induction idx ds rule: node_of.induct) (auto split: option.splits)
  then have n: "elem_at idx key = Some e \<Longrightarrow> \<exists>node. node_of idx (id_digits key) = Some node" for e
    using True by (fastforce simp: elem_at_def)
  show ?thesis
    using True read_elem_spec [OF _ assms(9,1,2,4) _ assms(6,5,8), of "[]" cb] assms(3,7) n
    by (auto simp: knd_shared_set_unmarshall_elem_def valid_id_def elem_at_def elem_outcome_def split: option.splits)
next
  case False
  then show ?thesis using read_elem_invalid [of key sys_read cb] assms(3,7,9)
    by (auto simp: knd_shared_set_unmarshall_elem_def valid_id_def)
qed

text \<open>The second element of the tree, and an identifier that is not stored.\<close>

definition demo_set :: "byte list kndSharedSet" where
  "demo_set = (new_set demo_idx)\<lparr>ss_dir := Some (dir_of id (length (bytes_of ''GSP'' @ block_bytes id demo_idx)) 3 demo_idx)\<rparr>"

definition demo_reader :: "(byte list \<times> byte list) list read_state" where
  "demo_reader = \<lparr>r_obj = [], r_mem = \<lparr>sm_mempool = None, sm_callocs = 2\<rparr>, r_blocks = []\<rparr>"

theorem gsp_read_elem_witness:
  "knd_shared_set_unmarshall_elem (\<lambda>_. Some (demo_read (bytes_of ''GSP'' @ block_bytes id demo_idx)))
     (\<lambda>i v obj. Inr ((), obj @ [(i, v)])) demo_set [49, 122] demo_reader =
   Inr ((), (after_allocs demo_reader)\<lparr>r_obj := [([122], [99])]\<rparr>)"
proof -
  have "idx_ok demo_idx" "entries_ok id (idx_entries demo_idx)" "length (bytes_of ''GSP'') = 3"
    "length (bytes_of ''GSP'' @ block_bytes id demo_idx) < 100" "2 \<le> sm_callocs (r_mem demo_reader)"
    "valid_id [49, 122]" "elem_at demo_idx [49, 122] = Some [99]"
    by code_simp+
  then show ?thesis
    using gsp_read_elem [of demo_idx id "\<lambda>_. Some (demo_read (bytes_of ''GSP'' @ block_bytes id demo_idx))" demo_set
        "demo_read (bytes_of ''GSP'' @ block_bytes id demo_idx)" "bytes_of ''GSP''" demo_reader "[49, 122]"
        "\<lambda>i v obj. Inr ((), obj @ [(i, v)])"] demo_posix(2)
    by (simp add: demo_set_def r_call_def after_allocs_def demo_reader_def)
qed

end
