(* ===== verification/Set_Idx.thy ===== *)
theory Set_Idx
  imports Ident
begin

text \<open>
  The sets of identifiers without elements, \<^verbatim>\<open>src/knd_set_idx.c\<close>. A folder has one bit for each
  digit that ends an identifier and one for each subfolder, in two masks, and an array of
  subfolders. Memory is the number of \<^verbatim>\<open>calloc\<close>s that still succeed.
\<close>

unbundle bit_operations_syntax

section \<open>Masks\<close>

type_synonym uint64 = "64 word"

definition mask_mark_bit :: "uint64 \<Rightarrow> nat \<Rightarrow> uint64" where
  "mask_mark_bit m b = m OR push_bit b 1"

definition mask_unmark_bit :: "uint64 \<Rightarrow> nat \<Rightarrow> uint64" where
  "mask_unmark_bit m b = m AND NOT (push_bit b 1)"

definition mask_test_bit :: "uint64 \<Rightarrow> nat \<Rightarrow> bool" where
  "mask_test_bit m b \<longleftrightarrow> m AND push_bit b 1 \<noteq> 0"

text \<open>\<^verbatim>\<open>__builtin_ctzll\<close>, the number of zeros below the lowest one.\<close>

definition ctzll :: "uint64 \<Rightarrow> nat" where
  "ctzll m = length (takeWhile (\<lambda>n. \<not> bit m n) [0..<64])"

definition mask_lsbit :: "uint64 \<Rightarrow> nat" where
  "mask_lsbit m = ctzll (m AND (NOT m + 1))"

definition mask_clear_lsbit :: "uint64 \<Rightarrow> uint64" where
  "mask_clear_lsbit m = m AND (m - 1)"

lemma bit_mark: "b < 64 \<Longrightarrow> bit (mask_mark_bit m b) n \<longleftrightarrow> bit m n \<or> n = b"
  by (auto simp: mask_mark_bit_def bit_simps)


lemma test_bit_mask: "b < 64 \<Longrightarrow> mask_test_bit m b \<longleftrightarrow> bit m b"
  by (auto simp: mask_test_bit_def bit_eq_iff [of _ 0] bit_simps)









lemma clear_lsbit_less: "w \<noteq> 0 \<Longrightarrow> unat (mask_clear_lsbit w) < unat w"
proof -
  assume "w \<noteq> 0"
  have "unat (mask_clear_lsbit w) \<le> unat (w - 1)"
    unfolding mask_clear_lsbit_def using word_and_le1 [of w "w - 1"] by (simp only: word_le_nat_alt)
  also have "\<dots> < unat w" using \<open>w \<noteq> 0\<close> unat_gt_0 [of w] by (simp add: unat_minus_one)
  finally show ?thesis .
qed

section \<open>Folders\<close>

datatype kndSetIdxFolder =
  Set_Idx_Folder (elems_mask: uint64) (folders_mask: uint64) (folders: "kndSetIdxFolder option list")

text \<open>An access outside the array of folders gives \<open>None\<close>, which is only used as an operand: see \<open>intersect_loop\<close>.\<close>

definition folder_at :: "kndSetIdxFolder \<Rightarrow> nat \<Rightarrow> kndSetIdxFolder option" where
  "folder_at f b = (if b < length (folders f) then folders f ! b else None)"

definition knd_set_idx_folder_new :: kndSetIdxFolder where
  "knd_set_idx_folder_new = Set_Idx_Folder 0 0 (replicate KND_RADIX_BASE None)"

definition knd_set_idx_new :: "nat \<Rightarrow> (kndSetIdxFolder \<times> nat) result" where
  "knd_set_idx_new callocs = (if callocs = 0 then Inl (Err knd_NOMEM) else Inr (knd_set_idx_folder_new, callocs - 1))"

text \<open>The assertion on the bit of a digit, and on the key, are stuck states.\<close>

fun knd_set_idx_add :: "kndSetIdxFolder \<Rightarrow> byte list \<Rightarrow> nat \<Rightarrow> failure option \<times> kndSetIdxFolder \<times> nat" where
  "knd_set_idx_add folder [] callocs = (Some Stuck, folder, callocs)"
| "knd_set_idx_add folder [c] callocs =
     (if id_pos c = -1 then (Some Stuck, folder, callocs)
      else (None, Set_Idx_Folder (mask_mark_bit (elems_mask folder) (nat (id_pos c))) (folders_mask folder) (folders folder),
        callocs))"
| "knd_set_idx_add folder (c # d # key) callocs =
     (let folder_bit = nat (id_pos c) in
      if id_pos c = -1 then (Some Stuck, folder, callocs)
      else
        (case folder_at folder folder_bit of
           Some next_folder \<Rightarrow>
             (case knd_set_idx_add next_folder (d # key) callocs of (err, next_folder, callocs) \<Rightarrow>
                (err, Set_Idx_Folder (elems_mask folder) (folders_mask folder)
                   ((folders folder)[folder_bit := Some next_folder]), callocs))
         | None \<Rightarrow>
             if callocs = 0 then (Some (Err knd_NOMEM), folder, callocs)
             else
               (case knd_set_idx_add knd_set_idx_folder_new (d # key) (callocs - 1) of (err, next_folder, callocs) \<Rightarrow>
                  (err, Set_Idx_Folder (elems_mask folder) (mask_mark_bit (folders_mask folder) folder_bit)
                     ((folders folder)[folder_bit := Some next_folder]), callocs))))"

fun knd_set_idx_exist :: "kndSetIdxFolder \<Rightarrow> byte list \<Rightarrow> bool result" where
  "knd_set_idx_exist folder [] = Inl Stuck"
| "knd_set_idx_exist folder [c] =
     (if id_pos c = -1 then Inl Stuck else Inr (mask_test_bit (elems_mask folder) (nat (id_pos c))))"
| "knd_set_idx_exist folder (c # d # key) =
     (if id_pos c = -1 then Inl Stuck
      else case folder_at folder (nat (id_pos c)) of
        None \<Rightarrow> Inr False
      | Some folder \<Rightarrow> knd_set_idx_exist folder (d # key))"

section \<open>Intersection\<close>

definition and_masks :: "uint64 list \<Rightarrow> uint64" where
  "and_masks ms = fold (AND) (tl ms) (hd ms)"

lemma folder_at_size: "folder_at f b = Some g \<Longrightarrow> size g < size f"
proof -
  assume "folder_at f b = Some g"
  then have "Some g \<in> set (folders f)" by (auto simp: folder_at_def split: if_splits) (metis nth_mem)
  then show ?thesis by (cases f) (fastforce dest: size_list_estimation' [where y = "size g" and f = "size_option size"])
qed

text \<open>
  The loop over the bits of \<open>m\<close>. No operand and a subfolder that is \<^verbatim>\<open>NULL\<close> though its bit is
  set are stuck.
\<close>

function knd_set_idx_folder_do_intersect ::
  "kndSetIdxFolder list \<Rightarrow> nat \<Rightarrow> failure option \<times> kndSetIdxFolder \<times> nat"
  and intersect_loop ::
  "uint64 \<Rightarrow> kndSetIdxFolder list \<Rightarrow> kndSetIdxFolder \<Rightarrow> nat \<Rightarrow> failure option \<times> kndSetIdxFolder \<times> nat" where
  "knd_set_idx_folder_do_intersect operands callocs =
     (if operands = [] then (Some Stuck, knd_set_idx_folder_new, callocs)
      else
        let elems = and_masks (map elems_mask operands);
            subs = and_masks (map folders_mask operands)
        in intersect_loop subs operands (Set_Idx_Folder elems subs (replicate KND_RADIX_BASE None)) callocs)"
| "intersect_loop m operands result callocs =
     (if m = 0 then (None, result, callocs)
      else
        let folder_bit = mask_lsbit m in
        if folder_bit \<ge> KND_RADIX_BASE then (Some Stuck, result, callocs)
        else if callocs = 0 then (Some (Err knd_NOMEM), result, callocs)
        else if operands = [] \<or> (\<exists>op\<in>set operands. folder_at op folder_bit = None) then (Some Stuck, result, callocs)
        else
          (case knd_set_idx_folder_do_intersect (map (\<lambda>op. the (folder_at op folder_bit)) operands) (callocs - 1) of
             (err, subresult, callocs) \<Rightarrow>
               let subs = (folders result)[folder_bit := Some subresult] in
               if err \<noteq> None then (err, Set_Idx_Folder (elems_mask result) (folders_mask result) subs, callocs)
               else
                 intersect_loop (mask_clear_lsbit m) operands
                   (Set_Idx_Folder (elems_mask result)
                      (if elems_mask subresult = 0 \<and> folders_mask subresult = 0
                       then mask_unmark_bit (folders_mask result) folder_bit else folders_mask result) subs) callocs))"
  by pat_completeness auto

termination
  by (relation "measures [\<lambda>x. case x of Inl (ops, _) \<Rightarrow> size (hd ops) | Inr (_, ops, _) \<Rightarrow> size (hd ops),
      case_sum (\<lambda>_. 1) (\<lambda>_. 0), \<lambda>x. case x of Inl _ \<Rightarrow> 0 | Inr (m, _) \<Rightarrow> unat m]")
    (auto simp: clear_lsbit_less hd_map intro!: folder_at_size)

declare knd_set_idx_folder_do_intersect.simps [simp del] intersect_loop.simps [simp del]

definition knd_set_idx_new_result_of_intersect ::
  "kndSetIdxFolder list \<Rightarrow> nat \<Rightarrow> failure option \<times> kndSetIdxFolder option \<times> nat" where
  "knd_set_idx_new_result_of_intersect idxs callocs =
     (if callocs = 0 then (Some (Err knd_NOMEM), None, callocs)
      else case knd_set_idx_folder_do_intersect idxs (callocs - 1) of
        (err, folder, callocs) \<Rightarrow> (err, Some folder, callocs))"

section \<open>The identifiers of a set\<close>

fun has :: "kndSetIdxFolder \<Rightarrow> nat list \<Rightarrow> bool" where
  "has f [] = False"
| "has f [d] = bit (elems_mask f) d"
| "has f (d # e # ds) = (case folder_at f d of None \<Rightarrow> False | Some g \<Rightarrow> has g (e # ds))"

definition idx_keys :: "kndSetIdxFolder \<Rightarrow> byte list set" where
  "idx_keys f = {key. valid_id key \<and> has f (id_digits key)}"

definition vacant :: "kndSetIdxFolder \<Rightarrow> bool" where
  "vacant f \<longleftrightarrow> elems_mask f = 0 \<and> folders_mask f = 0"

text \<open>
  The bits of a folder agree with its subfolders. A set that was built by adding is \<open>strict\<close>: the
  bit of every subfolder is set. An intersection leaves subfolders without a bit, which have no
  identifiers.
\<close>

definition bits_ok :: "bool \<Rightarrow> kndSetIdxFolder \<Rightarrow> bool" where
  "bits_ok strict f \<longleftrightarrow> length (folders f) = 62 \<and>
     (\<forall>d. bit (elems_mask f) d \<longrightarrow> d < 62) \<and>
     (\<forall>d. bit (folders_mask f) d \<longrightarrow> folder_at f d \<noteq> None) \<and>
     (\<forall>d g. folder_at f d = Some g \<and> \<not> bit (folders_mask f) d \<longrightarrow> \<not> strict \<and> vacant g)"

inductive folder_ok :: "bool \<Rightarrow> kndSetIdxFolder \<Rightarrow> bool" for strict where
  "bits_ok strict f \<Longrightarrow> (\<And>d g. folder_at f d = Some g \<Longrightarrow> folder_ok strict g) \<Longrightarrow> folder_ok strict f"

inductive_cases folder_okE: "folder_ok strict f"

lemma folder_ok_bits: "folder_ok strict f \<Longrightarrow> bits_ok strict f"
  and folder_ok_sub: "folder_ok strict f \<Longrightarrow> folder_at f d = Some g \<Longrightarrow> folder_ok strict g"
  by (auto elim: folder_okE)




lemma vacant_has: "folder_ok strict f \<Longrightarrow> vacant f \<Longrightarrow> \<not> has f ds"
proof (induction f ds rule: has.induct)
  case (3 f d e ds)
  show ?case
  proof (cases "folder_at f d")
    case (Some g)
    then have "vacant g" using folder_ok_bits [OF 3(2)] 3(3) by (auto simp: bits_ok_def vacant_def)
    then show ?thesis using 3(1) Some folder_ok_sub [OF 3(2)] by simp
  qed simp
qed (simp_all add: vacant_def)


section \<open>Adding\<close>

lemma new_folder: "bits_ok strict knd_set_idx_folder_new" "folder_ok strict knd_set_idx_folder_new"
  "\<not> has knd_set_idx_folder_new ds"
proof -
  have none: "folder_at knd_set_idx_folder_new d = None" for d
    by (simp add: folder_at_def knd_set_idx_folder_new_def)
  then show "bits_ok strict knd_set_idx_folder_new" by (simp add: bits_ok_def) (simp add: knd_set_idx_folder_new_def)
  then show "folder_ok strict knd_set_idx_folder_new" by (rule folder_ok.intros) (simp add: none)
  show "\<not> has knd_set_idx_folder_new ds"
    using vacant_has [OF \<open>folder_ok strict knd_set_idx_folder_new\<close>] by (simp add: vacant_def knd_set_idx_folder_new_def)
qed

lemma folder_at_update:
  "d < length fs \<Longrightarrow> folder_at (Set_Idx_Folder em fm (fs[d := Some g])) e =
     (if e = d then Some g else folder_at (Set_Idx_Folder em' fm' fs) e)"
  by (simp add: folder_at_def)

text \<open>A subfolder that is stored with its bit.\<close>

lemma folder_ok_store:
  assumes "folder_ok strict f" and "folder_ok strict g" and "d < 62"
    and "\<And>n. bit fm n \<longleftrightarrow> bit (folders_mask f) n \<or> n = d"
  shows "folder_ok strict (Set_Idx_Folder (elems_mask f) fm ((folders f)[d := Some g]))"
proof (rule folder_ok.intros)
  note b = folder_ok_bits [OF assms(1), unfolded bits_ok_def]
  have at: "folder_at (Set_Idx_Folder (elems_mask f) fm ((folders f)[d := Some g])) e =
      (if e = d then Some g else folder_at f e)" for e
    using b assms(3) by (simp add: folder_at_def)
  show "bits_ok strict (Set_Idx_Folder (elems_mask f) fm ((folders f)[d := Some g]))"
    using b assms(4) unfolding bits_ok_def at by auto
  show "folder_ok strict h" if "folder_at (Set_Idx_Folder (elems_mask f) fm ((folders f)[d := Some g])) e = Some h" for e h
    using that assms(1,2) folder_ok_sub unfolding at by (auto split: if_splits)
qed

lemma has_store:
  assumes "d < length (folders f)"
  shows "has (Set_Idx_Folder (elems_mask f) fm ((folders f)[d := Some g])) ds \<longleftrightarrow>
    (case ds of x # y # rest \<Rightarrow> if x = d then has g (y # rest) else has f ds | _ \<Rightarrow> has f ds)"
proof (cases ds)
  case (Cons x xs)
  then show ?thesis using assms by (cases xs) (auto simp: folder_at_def)
qed simp

lemma folder_ok_elem:
  assumes "folder_ok strict f" and "d < 62"
  shows "folder_ok strict (Set_Idx_Folder (mask_mark_bit (elems_mask f) d) (folders_mask f) (folders f))"
proof (rule folder_ok.intros)
  note b = folder_ok_bits [OF assms(1), unfolded bits_ok_def]
  have at: "folder_at (Set_Idx_Folder em fm (folders f)) e = folder_at f e" for em fm e
    by (simp add: folder_at_def)
  show "bits_ok strict (Set_Idx_Folder (mask_mark_bit (elems_mask f) d) (folders_mask f) (folders f))"
    using b assms(2) by (auto simp: bits_ok_def at bit_mark)
  show "folder_ok strict g"
    if "folder_at (Set_Idx_Folder (mask_mark_bit (elems_mask f) d) (folders_mask f) (folders f)) e = Some g" for e g
    using that assms(1) folder_ok_sub by (simp add: at)
qed

lemma has_elem:
  "d < 64 \<Longrightarrow> has (Set_Idx_Folder (mask_mark_bit (elems_mask f) d) (folders_mask f) (folders f)) ds \<longleftrightarrow> has f ds \<or> ds = [d]"
proof (cases ds)
  case (Cons x xs)
  then show "d < 64 \<Longrightarrow> ?thesis" by (cases xs) (auto simp: folder_at_def bit_mark)
qed simp

lemma set_idx_add_effect:
  assumes "folder_ok True f" and "knd_set_idx_add f key callocs = (err, f', callocs')"
  shows "folder_ok True f' \<and>
    (err = None \<longrightarrow> valid_id key \<and> (\<forall>ds. has f' ds \<longleftrightarrow> has f ds \<or> ds = id_digits key)) \<and>
    (err \<noteq> None \<longrightarrow> (\<forall>ds. has f' ds \<longleftrightarrow> has f ds) \<and> (valid_id key \<longrightarrow> err = Some (Err knd_NOMEM) \<and> callocs < length key - 1))"
  using assms
proof (induction f key callocs arbitrary: err f' callocs' rule: knd_set_idx_add.induct)
  case (2 folder c callocs)
  show ?case
  proof (cases "id_pos c = -1")
    case True
    then show ?thesis using 2 by (auto simp: valid_id_def valid_digit_def)
  next
    case False
    then have c: "nat (id_pos c) < 62" "valid_digit c" using id_pos_less by (simp_all add: valid_digit_def)
    then show ?thesis using 2 False folder_ok_elem [OF 2(1) c(1)] has_elem [of "nat (id_pos c)" folder]
      by (auto simp: valid_id_def)
  qed
next
  case (3 folder c d key callocs)
  let ?b = "nat (id_pos c)"
  show ?case
  proof (cases "id_pos c = -1")
    case True
    then show ?thesis using "3.prems" by (auto simp: valid_id_def valid_digit_def)
  next
    case valid: False
    then have c: "?b < 62" "valid_digit c" using id_pos_less by (simp_all add: valid_digit_def)
    note b = folder_ok_bits [OF "3.prems"(1), unfolded bits_ok_def]
    have len: "?b < length (folders folder)" using b c by simp
    show ?thesis
    proof (cases "folder_at folder ?b")
      case None
      show ?thesis
      proof (cases "callocs = 0")
        case True
        then show ?thesis using "3.prems" valid None by (simp add: Let_def) auto
      next
        case False
        obtain err1 g n where add1: "knd_set_idx_add knd_set_idx_folder_new (d # key) (callocs - 1) = (err1, g, n)"
          by (metis prod_cases3)
        then have add: "knd_set_idx_add knd_set_idx_folder_new (d # key) (callocs - 1) = (err, g, n)"
          and f': "f' = Set_Idx_Folder (elems_mask folder) (mask_mark_bit (folders_mask folder) ?b) ((folders folder)[?b := Some g])"
          using "3.prems"(2) valid None False by (simp_all add: Let_def)
        note IH = "3.IH"(1) [OF refl valid None False new_folder(2) add]
        have "folder_ok True f'" unfolding f' using IH c
          by (intro folder_ok_store [OF "3.prems"(1)]) (auto simp: bit_mark)
        moreover have "has f' ds \<longleftrightarrow> (case ds of x # y # rest \<Rightarrow> if x = ?b then has g (y # rest) else has folder ds | _ \<Rightarrow> has folder ds)" for ds
          unfolding f' using has_store [OF len] by (cases ds) (auto simp: folder_at_def split: list.splits)
        ultimately show ?thesis using IH c None new_folder(3) False
          by (auto simp: valid_id_def split: list.splits)
      qed
    next
      case (Some h)
      obtain err1 g n where add1: "knd_set_idx_add h (d # key) callocs = (err1, g, n)"
        by (metis prod_cases3)
      then have add: "knd_set_idx_add h (d # key) callocs = (err, g, n)"
        and f': "f' = Set_Idx_Folder (elems_mask folder) (folders_mask folder) ((folders folder)[?b := Some g])"
        using "3.prems"(2) valid Some by (simp_all add: Let_def)
      note IH = "3.IH"(2) [OF refl valid Some folder_ok_sub [OF "3.prems"(1) Some] add]
      have "bit (folders_mask folder) ?b" using b Some by (metis (full_types))
      then have "folder_ok True f'" unfolding f' using IH c
        by (intro folder_ok_store [OF "3.prems"(1)]) auto
      moreover have "has f' ds \<longleftrightarrow> (case ds of x # y # rest \<Rightarrow> if x = ?b then has g (y # rest) else has folder ds | _ \<Rightarrow> has folder ds)" for ds
        unfolding f' by (rule has_store [OF len])
      ultimately show ?thesis using IH c Some
        by (auto simp: valid_id_def split: list.splits)
    qed
  qed
qed (auto simp: valid_id_def)

section \<open>Intersecting\<close>


















section \<open>Sets\<close>

lemma exist_has: "list_all valid_digit key \<Longrightarrow> key \<noteq> [] \<Longrightarrow> knd_set_idx_exist f key = Inr (has f (id_digits key))"
proof (induction f key rule: knd_set_idx_exist.induct)
  case (2 folder c)
  then have "nat (id_pos c) < 64" using id_pos_less [of c] by simp
  then show ?case using 2 by (simp add: valid_digit_pos test_bit_mask)
next
  case (3 folder c d key)
  then show ?case by (auto simp: valid_digit_pos split: option.splits)
qed simp

lemma idx_keys_has: "valid_id key \<Longrightarrow> key \<in> idx_keys f \<longleftrightarrow> has f (id_digits key)"
  by (simp add: idx_keys_def)

text \<open>C35: an index built by \<open>add\<close> behaves as a set of identifiers: \<open>exist\<close> tests it, \<open>add\<close> inserts one,
  and for a valid identifier fails only for lack of memory for a subfolder, leaving the set as it was.\<close>
theorem set_idx_refines_set:
  assumes "folder_ok True f"
  shows "(if valid_id key then knd_set_idx_exist f key = Inr (key \<in> idx_keys f) else True) \<and>
    (case knd_set_idx_add f key callocs of
       (None, f', _) \<Rightarrow> valid_id key \<and> folder_ok True f' \<and> idx_keys f' = insert key (idx_keys f)
     | (Some e, f', _) \<Rightarrow> folder_ok True f' \<and> idx_keys f' = idx_keys f \<and>
         (valid_id key \<longrightarrow> e = Err knd_NOMEM \<and> callocs < length key - 1))"
proof -
  obtain err f' n where a: "knd_set_idx_add f key callocs = (err, f', n)" by (metis prod_cases3)
  note e = set_idx_add_effect [OF assms a]
  have ins: "idx_keys f' = insert key (idx_keys f)"
    if "valid_id key" "\<forall>ds. has f' ds \<longleftrightarrow> has f ds \<or> ds = id_digits key"
    using that id_digits_inject by (auto simp: idx_keys_def valid_id_def)
  show ?thesis
  proof (cases err)
    case None
    then show ?thesis using a e ins by (simp add: exist_has idx_keys_has valid_id_def)
  next
    case (Some x)
    then have "idx_keys f' = idx_keys f" using e by (simp add: idx_keys_def)
    then show ?thesis using a e Some by (simp add: exist_has idx_keys_has valid_id_def)
  qed
qed

theorem set_idx_refines_set_witness:
  "knd_set_idx_exist knd_set_idx_folder_new [49, 97] = Inr ([49, 97] \<in> idx_keys knd_set_idx_folder_new)"
proof -
  have "valid_id [49, 97]" by code_simp
  then show ?thesis using set_idx_refines_set [OF new_folder(2), of "[49, 97]" 3] by simp
qed


definition demo_add :: "kndSetIdxFolder \<Rightarrow> byte list \<Rightarrow> kndSetIdxFolder" where
  "demo_add f key = fst (snd (knd_set_idx_add f key 9))"



text \<open>An identifier can get lost after an intersection: the intersection of two sets with
  the identifiers \<open>1a\<close> and \<open>1b\<close> keeps an empty subfolder without its bit; adding \<open>1a\<close> to it does not set the
  bit, so the identifier exists, but is not in the intersection of the set with itself.\<close>
theorem set_idx_lost_key:
  "let a = demo_add knd_set_idx_folder_new [49, 97];
       b = demo_add knd_set_idx_folder_new [49, 98];
       r = demo_add (the (fst (snd (knd_set_idx_new_result_of_intersect [a, b] 9)))) [49, 97];
       rr = the (fst (snd (knd_set_idx_new_result_of_intersect [r, r] 9)))
   in knd_set_idx_exist r [49, 97] = Inr True \<and> knd_set_idx_exist rr [49, 97] = Inr False"
  by code_simp

end
