(* ===== verification/Cache.thy ===== *)
theory Cache
  imports Prelude
begin

text \<open>
  The cache of objects, \<^verbatim>\<open>src/knd_cache.c\<close>, as one thread runs it: a compare-and-swap then
  succeeds the first time. The data of a cell is a pointer; what the callback that frees the
  previous data gets is part of the result of \<open>knd_cache_set\<close>.
\<close>

section \<open>State\<close>

record 'd kndCacheCell =
  num_readers :: int
  cell_state :: size_t
  num_hits :: size_t
  cell_data :: "'d option"

record 'd kndCache =
  cells :: "'d kndCacheCell list"
  max_mem_size :: size_t
  cache_state :: size_t

abbreviation num_cells :: "'d kndCache \<Rightarrow> nat" where
  "num_cells self \<equiv> length (cells self)"

abbreviation INT_MAX :: int where "INT_MAX \<equiv> 2 ^ 31 - 1"

section \<open>Operations\<close>

text \<open>\<open>callocs\<close> is the number of \<^verbatim>\<open>calloc\<close>s that still succeed.\<close>

definition knd_cache_new :: "nat \<Rightarrow> size_t \<Rightarrow> nat \<Rightarrow> 'd kndCache result" where
  "knd_cache_new n mem callocs =
     (if n = 0 then Inl Stuck
      else if callocs < 2 then Inl (Err knd_NOMEM)
      else Inr \<lparr>cells = replicate n \<lparr>num_readers = 0, cell_state = 0, num_hits = 0, cell_data = None\<rparr>,
             max_mem_size = mem, cache_state = 0\<rparr>)"

text \<open>
  The loop over the cells from \<open>i\<close>: the number and the previous data of the cell that was
  taken. A cell that a writer holds, with the count -1, is not skipped.
\<close>

fun cache_scan ::
  "size_t \<Rightarrow> 'd option \<Rightarrow> nat \<Rightarrow> 'd kndCacheCell list \<Rightarrow> (nat \<times> 'd option) option \<times> 'd kndCacheCell list" where
  "cache_scan curr_state data i [] = (None, [])"
| "cache_scan curr_state data i (cell # rest) =
     (if num_readers cell > 0 then
        (case cache_scan curr_state data (Suc i) rest of (res, rest) \<Rightarrow> (res, cell # rest))
      else (Some (i, cell_data cell), cell\<lparr>cell_state := curr_state, cell_data := data, num_readers := 0\<rparr> # rest))"

text \<open>
  \<open>r\<close> is what \<^verbatim>\<open>rand\<close> returns. The first cell is \<open>r\<close> modulo the number of cells minus one, which
  breaks the assertion when it is -1; the cells before it are never tried, since the loop ends
  where it should wrap. The results are the error, the number of the cell if one was stored to,
  the data that is freed, and the cache.
\<close>

definition knd_cache_set ::
  "'d kndCache \<Rightarrow> 'd option \<Rightarrow> nat \<Rightarrow> failure option \<times> nat option \<times> 'd option \<times> 'd kndCache" where
  "knd_cache_set self data r =
     (if num_cells self = 0 \<or> num_cells self > nat INT_MAX \<or> r mod num_cells self = 0 then (Some Stuck, None, None, self)
      else
        let start_cell_num = r mod num_cells self - 1 in
        (case cache_scan (cache_state self) data start_cell_num (drop start_cell_num (cells self)) of
           (res, rest) \<Rightarrow>
             let self = self\<lparr>cells := take start_cell_num (cells self) @ rest\<rparr> in
             (case res of
                None \<Rightarrow> (None, None, None, self)
              | Some (cell_num, prev_data) \<Rightarrow> (None, Some cell_num, prev_data, self))))"

definition knd_cache_get :: "'d kndCache \<Rightarrow> nat \<Rightarrow> ('d kndCache, 'd option) outcome" where
  "knd_cache_get self cell_num =
     (if cell_num \<ge> num_cells self then Inl (Stuck, self)
      else
        let cell = cells self ! cell_num in
        if num_readers cell = -1 then Inl (Err knd_CONFLICT, self)
        else if num_readers cell = INT_MAX then Inl (Stuck, self)
        else
          Inr (cell_data cell,
            self\<lparr>cells := (cells self)[cell_num := cell\<lparr>num_readers := num_readers cell + 1,
                cell_state := cell_state cell + 1, num_hits := num_hits cell + 1\<rparr>],
              cache_state := cache_state self + 1\<rparr>))"

definition knd_cache_release :: "'d kndCache \<Rightarrow> nat \<Rightarrow> 'd option \<Rightarrow> failure option \<times> 'd kndCache" where
  "knd_cache_release self cell_num data =
     (if cell_num \<ge> num_cells self then (Some Stuck, self)
      else
        let cell = cells self ! cell_num in
        if cell_data cell \<noteq> data then (Some (Err knd_CONFLICT), self)
        else if num_readers cell = -1 \<or> num_readers cell = 0 then (Some (Err knd_CONFLICT), self)
        else (None, self\<lparr>cells := (cells self)[cell_num := cell\<lparr>num_readers := num_readers cell - 1\<rparr>]\<rparr>))"

section \<open>Storing\<close>

definition first_free :: "'d kndCache \<Rightarrow> nat \<Rightarrow> nat option" where
  "first_free self start = find (\<lambda>i. num_readers (cells self ! i) \<le> 0) [start..<num_cells self]"

lemma cache_scan_busy:
  "\<forall>c\<in>set cs. num_readers c > 0 \<Longrightarrow> cache_scan st data i cs = (None, cs)"
  by (induction cs arbitrary: i) simp_all

lemma cache_scan_found:
  "\<forall>c\<in>set cs. num_readers c > 0 \<Longrightarrow> num_readers cell \<le> 0 \<Longrightarrow>
   cache_scan st data i (cs @ cell # rest) =
     (Some (i + length cs, cell_data cell), cs @ cell\<lparr>cell_state := st, cell_data := data, num_readers := 0\<rparr> # rest)"
  by (induction cs arbitrary: i) simp_all

lemma cache_scan_first:
  assumes "n < length cs" and "num_readers (cs ! n) \<le> 0" and "\<forall>j<n. num_readers (cs ! j) > 0"
  shows "cache_scan st data i cs = (Some (i + n, cell_data (cs ! n)),
    cs[n := (cs ! n)\<lparr>cell_state := st, cell_data := data, num_readers := 0\<rparr>])"
proof -
  have cs: "cs = take n cs @ cs ! n # drop (Suc n) cs" using assms(1) by (rule id_take_nth_drop)
  have "\<forall>c\<in>set (take n cs). num_readers c > 0" using assms(1,3) by (auto simp: in_set_conv_nth)
  from cache_scan_found [OF this assms(2), of st data i "drop (Suc n) cs"] cs assms(1)
  show ?thesis by (simp add: upd_conv_take_nth_drop min_def)
qed

lemma set_drop_conv: "set (drop n xs) = {xs ! i |i. n \<le> i \<and> i < length xs}"
proof -
  have "set (drop n xs) = {xs ! (n + j) |j. j < length xs - n}" by (auto simp: set_conv_nth)
  also have "\<dots> = {xs ! i |i. n \<le> i \<and> i < length xs}"
    by (auto simp: less_diff_conv) (metis add.commute le_add_diff_inverse)
  finally show ?thesis .
qed

lemma cache_set_effect:
  assumes "0 < num_cells self" and "num_cells self < 2 ^ 31"
  shows "if r mod num_cells self = 0 then knd_cache_set self data r = (Some Stuck, None, None, self)
    else knd_cache_set self data r =
      (case first_free self (r mod num_cells self - 1) of
         None \<Rightarrow> (None, None, None, self)
       | Some i \<Rightarrow> (None, Some i, cell_data (cells self ! i),
           self\<lparr>cells := (cells self)[i := (cells self ! i)\<lparr>cell_state := cache_state self, cell_data := data, num_readers := 0\<rparr>]\<rparr>))"
proof (cases "r mod num_cells self = 0")
  case True
  then show ?thesis by (simp add: knd_cache_set_def)
next
  case False
  let ?s = "r mod num_cells self - 1" and ?cs = "cells self"
  have s: "?s < num_cells self" using assms(1) by (metis diff_le_self le_less_trans mod_less_divisor)
  have ok: "\<not> (num_cells self = 0 \<or> num_cells self > nat INT_MAX \<or> r mod num_cells self = 0)"
    using assms False by simp
  show ?thesis
  proof (cases "first_free self ?s")
    case None
    then have "\<forall>c\<in>set (drop ?s ?cs). num_readers c > 0"
      by (force simp: first_free_def find_None_iff set_drop_conv not_le)
    then show ?thesis using ok None False by (simp add: knd_cache_set_def cache_scan_busy Let_def)
  next
    case (Some i)
    then obtain k where k: "k < num_cells self - ?s" "i = ?s + k" "num_readers (?cs ! i) \<le> 0"
      "\<forall>j<k. \<not> num_readers (?cs ! (?s + j)) \<le> 0"
      by (auto simp: first_free_def find_Some_iff)
    then have i: "?s \<le> i" "i < num_cells self" by simp_all
    have before: "\<forall>j<i - ?s. num_readers (drop ?s ?cs ! j) > 0" using k i by (auto simp: not_le)
    have at: "drop ?s ?cs ! (i - ?s) = ?cs ! i" using i by simp
    have "cache_scan (cache_state self) data ?s (drop ?s ?cs) = (Some (i, cell_data (?cs ! i)),
        (drop ?s ?cs)[i - ?s := (?cs ! i)\<lparr>cell_state := cache_state self, cell_data := data, num_readers := 0\<rparr>])"
      using cache_scan_first [of "i - ?s" "drop ?s ?cs" "cache_state self" data ?s] before k(3) i at by simp
    moreover have "take ?s ?cs @ (drop ?s ?cs)[i - ?s := x] = ?cs[i := x]" for x
      using i s by (metis append_take_drop_id length_take less_or_eq_imp_le list_update_append min.absorb2 not_le)
    ultimately show ?thesis using ok Some False by (simp add: knd_cache_set_def Let_def)
  qed
qed

text \<open>\<open>knd_cache_set\<close> stores the data in the first cell from a start that depends on \<^verbatim>\<open>rand\<close>, to the end of
  the array, that has no readers; it frees the previous data of that cell and changes no other.
  When all these cells have readers it succeeds without storing anything, and when the random
  number is a multiple of the number of cells an assertion breaks.\<close>
theorem cache_set_spec:
  assumes "0 < num_cells self" and "num_cells self < 2 ^ 31"
  shows "if r mod num_cells self = 0 then knd_cache_set self data r = (Some Stuck, None, None, self)
    else knd_cache_set self data r =
      (case first_free self (r mod num_cells self - 1) of
         None \<Rightarrow> (None, None, None, self)
       | Some i \<Rightarrow> (None, Some i, cell_data (cells self ! i),
           self\<lparr>cells := (cells self)[i := (cells self ! i)\<lparr>cell_state := cache_state self, cell_data := data, num_readers := 0\<rparr>]\<rparr>))"
  by (rule cache_set_effect [OF assms])

definition demo_cell :: "int \<Rightarrow> nat \<Rightarrow> nat kndCacheCell" where
  "demo_cell n d = \<lparr>num_readers = n, cell_state = 0, num_hits = 0, cell_data = Some d\<rparr>"

definition demo_cache :: "nat kndCache" where
  "demo_cache = \<lparr>cells = [demo_cell 0 7, demo_cell 2 8, demo_cell 0 9], max_mem_size = 0, cache_state = 5\<rparr>"

theorem cache_set_spec_witness:
  "knd_cache_set demo_cache (Some 1) 5 = (None, Some 2, Some 9,
     demo_cache\<lparr>cells := [demo_cell 0 7, demo_cell 2 8, (demo_cell 0 1)\<lparr>cell_state := 5\<rparr>]\<rparr>)"
  using cache_set_spec [of demo_cache 5 "Some 1"]
  by (simp add: demo_cache_def demo_cell_def first_free_def upt_rec)

section \<open>Reading\<close>

text \<open>A reader of a cell that no writer holds gets its data and is counted; until it releases the cell
  no call of \<open>knd_cache_set\<close> takes the cell or frees its data. Releasing with the data that was
  read restores the count, and a second release than there were reads is refused.\<close>
theorem cache_get_protects:
  assumes "i < num_cells self" and "0 \<le> num_readers (cells self ! i)" and "num_readers (cells self ! i) < INT_MAX"
    and "num_cells self < 2 ^ 31"
  shows "\<exists>self'. knd_cache_get self i = Inr (cell_data (cells self ! i), self') \<and>
    (case knd_cache_set self' data r of
       (_, cell_num, _, self'') \<Rightarrow> cell_num \<noteq> Some i \<and> cells self'' ! i = cells self' ! i) \<and>
    (\<exists>self''. knd_cache_release self' i (cell_data (cells self ! i)) = (None, self'') \<and>
       num_readers (cells self'' ! i) = num_readers (cells self ! i) \<and>
       (num_readers (cells self ! i) = 0 \<longrightarrow>
          knd_cache_release self'' i (cell_data (cells self ! i)) = (Some (Err knd_CONFLICT), self'')))"
proof -
  let ?c = "cells self ! i"
  define self' where "self' = self\<lparr>cells := (cells self)[i := ?c\<lparr>num_readers := num_readers ?c + 1,
      cell_state := cell_state ?c + 1, num_hits := num_hits ?c + 1\<rparr>], cache_state := cache_state self + 1\<rparr>"
  have get: "knd_cache_get self i = Inr (cell_data ?c, self')"
    using assms by (simp add: knd_cache_get_def self'_def Let_def)
  have n: "num_cells self' = num_cells self" "num_readers (cells self' ! i) = num_readers ?c + 1"
    "cell_data (cells self' ! i) = cell_data ?c"
    using assms(1) by (simp_all add: self'_def)
  have "case knd_cache_set self' data r of
       (_, cell_num, _, self'') \<Rightarrow> cell_num \<noteq> Some i \<and> cells self'' ! i = cells self' ! i"
  proof (cases "r mod num_cells self' = 0")
    case True
    then show ?thesis by (simp add: knd_cache_set_def)
  next
    case False
    have "cell_num \<noteq> i" if "first_free self' (r mod num_cells self' - 1) = Some cell_num" for cell_num
      using that n(2) assms(2) by (auto simp: first_free_def find_Some_iff)
    moreover have "0 < num_cells self'" "num_cells self' < 2 ^ 31" using n(1) assms(1,4) by linarith+
    ultimately show ?thesis
      using cache_set_effect [of self' r data] False
      by (cases "first_free self' (r mod num_cells self' - 1)") simp_all
  qed
  moreover have "\<exists>self''. knd_cache_release self' i (cell_data ?c) = (None, self'') \<and>
       num_readers (cells self'' ! i) = num_readers ?c \<and>
       (num_readers ?c = 0 \<longrightarrow> knd_cache_release self'' i (cell_data ?c) = (Some (Err knd_CONFLICT), self''))"
  proof -
    define self2 where "self2 = self'\<lparr>cells := (cells self')[i := (cells self' ! i)\<lparr>num_readers := num_readers ?c\<rparr>]\<rparr>"
    have "num_readers (cells self' ! i) \<noteq> -1" "num_readers (cells self' ! i) \<noteq> 0" "i < num_cells self'"
      using n assms(1,2) by simp_all
    then have r1: "knd_cache_release self' i (cell_data ?c) = (None, self2)"
      unfolding knd_cache_release_def self2_def Let_def n(3) using n(2) by simp
    have r: "num_readers (cells self2 ! i) = num_readers ?c" "cell_data (cells self2 ! i) = cell_data ?c" "i < num_cells self2"
      unfolding self2_def using n assms(1) by simp_all
    have "num_readers ?c = 0 \<longrightarrow> knd_cache_release self2 i (cell_data ?c) = (Some (Err knd_CONFLICT), self2)"
      unfolding knd_cache_release_def Let_def using r by simp
    with r1 r(1) show ?thesis by blast
  qed
  ultimately show ?thesis using get by (metis (no_types, lifting))
qed

theorem cache_get_protects_witness:
  "\<exists>self'. knd_cache_get demo_cache 2 = Inr (Some 9, self') \<and>
     fst (snd (knd_cache_set self' (Some 1) 5)) \<noteq> Some 2"
  using cache_get_protects [of 2 demo_cache "Some 1" 5] by (auto simp: demo_cache_def demo_cell_def)

end
