(* ===== verification/Cache_Threads.thy ===== *)
theory Cache_Threads
  imports Cache
begin

text \<open>
  Threads that read and write one cell of the cache of \<^verbatim>\<open>src/knd_cache.c\<close>: the loads, stores and
  compare-and-swaps of \<^verbatim>\<open>knd_cache_get\<close>, \<^verbatim>\<open>knd_cache_release\<close> and \<^verbatim>\<open>knd_cache_set\<close> are the steps, in any
  order. A compare-and-swap may fail when it need not. The counters of hits and states are left
  out, since no step depends on them. The steps are interleaved as if memory was sequentially consistent,
  although the code uses relaxed accesses, and the number of readers, an \<^verbatim>\<open>atomic_int\<close>, is not bounded: more than
  \<open>2\<^sup>3\<^sup>1\<close> readers at a time are not considered. The data of a write is new: not yet in the cell, and not freed.
\<close>

section \<open>Steps\<close>

datatype 'd cache_pc =
    Outside
  | Reader_Saw int
  | Reader_In
  | Reading "'d option"
  | Release_Loop "'d option"
  | Release_Saw int "'d option"
  | Writer_Saw int 'd
  | Writer_Held 'd
  | Writer_Has "'d option" 'd
  | Writer_Stored "'d option"
  | Writer_Free "'d option"

record 'd cell_run =
  cr_readers :: int
  cr_data :: "'d option"
  cr_freed :: "'d set"
  cr_pc :: "nat \<Rightarrow> 'd cache_pc"

definition at_pc :: "nat \<Rightarrow> 'd cache_pc \<Rightarrow> 'd cell_run \<Rightarrow> 'd cell_run" where
  "at_pc t pc s = s\<lparr>cr_pc := (cr_pc s)(t := pc)\<rparr>"

definition unused :: "'d \<Rightarrow> 'd cell_run \<Rightarrow> bool" where
  "unused d s \<longleftrightarrow> d \<notin> cr_freed s \<and> cr_data s \<noteq> Some d"

text \<open>The threads in \<open>writers\<close> may call \<^verbatim>\<open>knd_cache_set\<close>, all may read.\<close>

inductive cache_step :: "nat set \<Rightarrow> 'd cell_run \<Rightarrow> 'd cell_run \<Rightarrow> bool" for writers where
  get_load: "cr_pc s t = Outside \<Longrightarrow> cr_readers s \<noteq> -1 \<Longrightarrow> cache_step writers s (at_pc t (Reader_Saw (cr_readers s)) s)"
| get_enter: "cr_pc s t = Reader_Saw n \<Longrightarrow> cr_readers s = n \<Longrightarrow>
    cache_step writers s (at_pc t Reader_In (s\<lparr>cr_readers := n + 1\<rparr>))"
| get_retry: "cr_pc s t = Reader_Saw n \<Longrightarrow> cache_step writers s (at_pc t Outside s)"
| get_data: "cr_pc s t = Reader_In \<Longrightarrow> cache_step writers s (at_pc t (Reading (cr_data s)) s)"
| release_check: "cr_pc s t = Reading d \<Longrightarrow> cr_data s = d \<Longrightarrow> cache_step writers s (at_pc t (Release_Loop d) s)"
| release_mismatch: "cr_pc s t = Reading d \<Longrightarrow> cr_data s \<noteq> d \<Longrightarrow> cache_step writers s (at_pc t Outside s)"
| release_load: "cr_pc s t = Release_Loop d \<Longrightarrow> cr_readers s \<noteq> -1 \<Longrightarrow> cr_readers s \<noteq> 0 \<Longrightarrow>
    cache_step writers s (at_pc t (Release_Saw (cr_readers s) d) s)"
| release_refused: "cr_pc s t = Release_Loop d \<Longrightarrow> cr_readers s = -1 \<or> cr_readers s = 0 \<Longrightarrow>
    cache_step writers s (at_pc t Outside s)"
| release_leave: "cr_pc s t = Release_Saw n d \<Longrightarrow> cr_readers s = n \<Longrightarrow>
    cache_step writers s (at_pc t Outside (s\<lparr>cr_readers := n - 1\<rparr>))"
| release_retry: "cr_pc s t = Release_Saw n d \<Longrightarrow> cache_step writers s (at_pc t (Release_Loop d) s)"
| set_load: "cr_pc s t = Outside \<Longrightarrow> t \<in> writers \<Longrightarrow> \<not> cr_readers s > 0 \<Longrightarrow> unused d s \<Longrightarrow>
    cache_step writers s (at_pc t (Writer_Saw (cr_readers s) d) s)"
| set_hold: "cr_pc s t = Writer_Saw n d \<Longrightarrow> cr_readers s = n \<Longrightarrow>
    cache_step writers s (at_pc t (Writer_Held d) (s\<lparr>cr_readers := -1\<rparr>))"
| set_skip: "cr_pc s t = Writer_Saw n d \<Longrightarrow> cache_step writers s (at_pc t Outside s)"
| set_prev: "cr_pc s t = Writer_Held d \<Longrightarrow> cache_step writers s (at_pc t (Writer_Has (cr_data s) d) s)"
| set_store: "cr_pc s t = Writer_Has p d \<Longrightarrow> cr_data s = p \<Longrightarrow>
    cache_step writers s (at_pc t (Writer_Stored p) (s\<lparr>cr_data := Some d\<rparr>))"
| set_lost: "cr_pc s t = Writer_Has p d \<Longrightarrow> cache_step writers s (at_pc t Outside s)"
| set_open: "cr_pc s t = Writer_Stored p \<Longrightarrow> cache_step writers s (at_pc t (Writer_Free p) (s\<lparr>cr_readers := 0\<rparr>))"
| set_free: "cr_pc s t = Writer_Free p \<Longrightarrow>
    cache_step writers s (at_pc t Outside (s\<lparr>cr_freed := cr_freed s \<union> set_option p\<rparr>))"

definition cache_reachable :: "nat set \<Rightarrow> 'd cell_run \<Rightarrow> 'd cell_run \<Rightarrow> bool" where
  "cache_reachable writers = (cache_step writers)\<^sup>*\<^sup>*"

definition fresh_cell :: "'d option \<Rightarrow> 'd cell_run" where
  "fresh_cell d = \<lparr>cr_readers = 0, cr_data = d, cr_freed = {}, cr_pc = (\<lambda>_. Outside)\<rparr>"

lemma at_pc_simps [simp]:
  "cr_readers (at_pc t pc s) = cr_readers s" "cr_data (at_pc t pc s) = cr_data s" "cr_freed (at_pc t pc s) = cr_freed s"
  "cr_pc (at_pc t pc s) = (cr_pc s)(t := pc)"
  by (simp_all add: at_pc_def)

section \<open>One writer\<close>

fun counted :: "'d cache_pc \<Rightarrow> bool" where
  "counted Reader_In = True"
| "counted (Reading d) = True"
| "counted (Release_Loop d) = True"
| "counted (Release_Saw n d) = True"
| "counted _ = False"

fun holds_cell :: "'d cache_pc \<Rightarrow> bool" where
  "holds_cell (Writer_Held d) = True"
| "holds_cell (Writer_Has p d) = True"
| "holds_cell (Writer_Stored p) = True"
| "holds_cell _ = False"

text \<open>What a thread knows: the data it reads or writes, and the count it saw.\<close>

fun pc_ok :: "'d cell_run \<Rightarrow> 'd cache_pc \<Rightarrow> bool" where
  "pc_ok s (Reader_Saw n) \<longleftrightarrow> n \<noteq> -1"
| "pc_ok s (Reading d) \<longleftrightarrow> d = cr_data s"
| "pc_ok s (Release_Loop d) \<longleftrightarrow> d = cr_data s"
| "pc_ok s (Release_Saw n d) \<longleftrightarrow> d = cr_data s"
| "pc_ok s (Writer_Saw n d) \<longleftrightarrow> n \<le> 0 \<and> unused d s"
| "pc_ok s (Writer_Held d) \<longleftrightarrow> unused d s"
| "pc_ok s (Writer_Has p d) \<longleftrightarrow> unused d s"
| "pc_ok s (Writer_Stored p) \<longleftrightarrow> p \<noteq> cr_data s"
| "pc_ok s (Writer_Free p) \<longleftrightarrow> p \<noteq> cr_data s"
| "pc_ok s _ \<longleftrightarrow> True"

fun writing :: "'d cache_pc \<Rightarrow> bool" where
  "writing (Writer_Saw n d) = True"
| "writing (Writer_Free p) = True"
| "writing pc = holds_cell pc"

definition readers_in :: "'d cell_run \<Rightarrow> nat set" where
  "readers_in s = {t. counted (cr_pc s t)}"

definition one_writer_ok :: "nat \<Rightarrow> 'd cell_run \<Rightarrow> bool" where
  "one_writer_ok w s \<longleftrightarrow> finite (readers_in s) \<and>
     (cr_readers s = -1 \<and> readers_in s = {} \<or> \<not> holds_cell (cr_pc s w) \<and> cr_readers s = int (card (readers_in s))) \<and>
     (\<forall>t. pc_ok s (cr_pc s t) \<and> (writing (cr_pc s t) \<longrightarrow> t = w)) \<and>
     (\<forall>d. cr_data s = Some d \<longrightarrow> d \<notin> cr_freed s)"

lemma readers_in_pc:
  "readers_in (at_pc t pc s) = (if counted pc then insert t (readers_in s) else readers_in s - {t})"
  by (auto simp: readers_in_def at_pc_def)

lemma readers_in_other [simp]:
  "readers_in (s\<lparr>cr_readers := n\<rparr>) = readers_in s" "readers_in (s\<lparr>cr_data := d\<rparr>) = readers_in s"
  "readers_in (s\<lparr>cr_freed := f\<rparr>) = readers_in s"
  by (simp_all add: readers_in_def)

lemma in_readers_in: "t \<in> readers_in s \<longleftrightarrow> counted (cr_pc s t)"
  by (simp add: readers_in_def)

lemma pc_ok_same: "cr_data s' = cr_data s \<Longrightarrow> cr_freed s' = cr_freed s \<Longrightarrow> pc_ok s' pc = pc_ok s pc"
  by (cases pc) (simp_all add: unused_def)

lemma pc_ok_quiet: "pc_ok s pc \<Longrightarrow> \<not> counted pc \<Longrightarrow> \<not> writing pc \<Longrightarrow> pc_ok s' pc"
  by (cases pc) simp_all

text \<open>A step of \<open>t\<close> after which the data and what is freed are as before.\<close>

lemma one_writer_keep:
  assumes "one_writer_ok w s" and "pc_ok s pc" and "writing pc \<Longrightarrow> t = w"
    and "n = -1 \<and> readers_in (at_pc t pc s) = {} \<or>
      \<not> holds_cell (cr_pc (at_pc t pc s) w) \<and> n = int (card (readers_in (at_pc t pc s)))"
  shows "one_writer_ok w (at_pc t pc (s\<lparr>cr_readers := n\<rparr>))"
proof -
  have r: "readers_in (at_pc t pc (s\<lparr>cr_readers := n\<rparr>)) = readers_in (at_pc t pc s)" by (simp add: readers_in_pc)
  have same: "pc_ok (at_pc t pc (s\<lparr>cr_readers := n\<rparr>)) q = pc_ok s q" for q by (rule pc_ok_same) simp_all
  have f: "finite (readers_in (at_pc t pc s))" using assms(1) by (simp add: one_writer_ok_def readers_in_pc)
  show ?thesis
    unfolding one_writer_ok_def r same using assms f by (auto simp: one_writer_ok_def)
qed

lemma one_writer_move:
  assumes "one_writer_ok w s" and "pc_ok s pc" and "writing pc \<Longrightarrow> t = w"
    and "counted pc = counted (cr_pc s t)" and "holds_cell pc \<Longrightarrow> holds_cell (cr_pc s t)"
  shows "one_writer_ok w (at_pc t pc s)"
proof -
  have "readers_in (at_pc t pc s) = readers_in s" using assms(4) by (auto simp: readers_in_pc in_readers_in)
  then have "one_writer_ok w (at_pc t pc (s\<lparr>cr_readers := cr_readers s\<rparr>))"
    using assms by (intro one_writer_keep) (auto simp: one_writer_ok_def)
  then show ?thesis by simp
qed

lemma one_writer_counted:
  assumes "one_writer_ok w s" and "counted (cr_pc s t)"
  shows "cr_readers s \<noteq> -1 \<and> cr_readers s \<noteq> 0"
proof -
  have t: "t \<in> readers_in s" using assms(2) by (simp add: in_readers_in)
  then have "cr_readers s = int (card (readers_in s))" "finite (readers_in s)" using assms(1) by (auto simp: one_writer_ok_def)
  then show ?thesis using t card_gt_0_iff [of "readers_in s"] by auto
qed

lemma one_writer_pc: "one_writer_ok w s \<Longrightarrow> cr_pc s t = pc \<Longrightarrow> pc_ok s pc \<and> (writing pc \<longrightarrow> t = w)"
  by (auto simp: one_writer_ok_def)

lemma one_writer_step:
  assumes "cache_step {w} s s'" and "one_writer_ok w s"
  shows "one_writer_ok w s'"
  using assms
proof cases
  case (get_enter t n)
  then have "t \<notin> readers_in s" by (simp add: in_readers_in)
  moreover have "n \<noteq> -1" using assms(2) get_enter(2) unfolding one_writer_ok_def by (metis pc_ok.simps(1))
  ultimately show ?thesis unfolding get_enter(1)
    using get_enter(2,3) assms(2) by (intro one_writer_keep) (auto simp: readers_in_pc one_writer_ok_def)
next
  case (release_leave t n d)
  then have t: "t \<in> readers_in s" by (simp add: in_readers_in)
  then have c: "cr_readers s = int (card (readers_in s))" "\<not> holds_cell (cr_pc s w)" "finite (readers_in s)"
    using assms(2) by (auto simp: one_writer_ok_def)
  then have "int (card (readers_in s - {t})) = n - 1"
    using card_Suc_Diff1 [OF c(3) t] release_leave(3) c(1) by linarith
  then show ?thesis unfolding release_leave(1)
    using release_leave(2) assms(2) c by (intro one_writer_keep) (auto simp: readers_in_pc)
next
  case (set_hold t n d)
  have "pc_ok s (Writer_Saw n d)" "t = w" using assms(2) set_hold(2) unfolding one_writer_ok_def by (metis, metis writing.simps(1))
  then have "n \<le> 0" by simp
  then have "readers_in s = {}" using assms(2) set_hold(3) by (auto simp: one_writer_ok_def)
  then show ?thesis unfolding set_hold(1)
    using \<open>pc_ok s (Writer_Saw n d)\<close> \<open>t = w\<close> assms(2) by (intro one_writer_keep) (auto simp: readers_in_pc)
next
  case (set_open t p)
  have "t = w" "pc_ok s (Writer_Stored p)" using assms(2) set_open(2) unfolding one_writer_ok_def by (metis holds_cell.simps(3) writing.simps, metis)
  then have "readers_in s = {}" using assms(2) set_open(2) by (auto simp: one_writer_ok_def)
  then show ?thesis unfolding set_open(1)
    using \<open>t = w\<close> \<open>pc_ok s (Writer_Stored p)\<close> assms(2) by (intro one_writer_keep) (auto simp: readers_in_pc)
next
  case (set_store t p d)
  have t: "t = w" "unused d s" using assms(2) set_store(2) unfolding one_writer_ok_def
    by (metis holds_cell.simps(2) writing.simps, metis pc_ok.simps(7))
  then have r: "readers_in s = {}" "cr_readers s = -1" using assms(2) set_store(2) by (auto simp: one_writer_ok_def)
  have "pc_ok s' (cr_pc s' u) \<and> (writing (cr_pc s' u) \<longrightarrow> u = w)" for u
  proof (cases "u = w")
    case True
    then show ?thesis using t(1) set_store t(2) by (auto simp: unused_def)
  next
    case False
    then have "\<not> counted (cr_pc s u)" "\<not> writing (cr_pc s u)" "pc_ok s (cr_pc s u)"
      using r(1) assms(2) by (auto simp: one_writer_ok_def readers_in_def)
    then show ?thesis using False t(1) pc_ok_quiet by (auto simp: set_store(1))
  qed
  then show ?thesis using r t(2) assms(2) by (auto simp: one_writer_ok_def set_store(1) readers_in_pc unused_def)
next
  case (set_free t p)
  have t: "t = w" "p \<noteq> cr_data s" using assms(2) set_free(2) unfolding one_writer_ok_def
    by (metis writing.simps(2), metis pc_ok.simps(9))
  have "pc_ok s' (cr_pc s' u) \<and> (writing (cr_pc s' u) \<longrightarrow> u = w)" for u
  proof (cases "u = w")
    case False
    then have "\<not> writing (cr_pc s u)" "pc_ok s (cr_pc s u)"
      using assms(2) by (auto simp: one_writer_ok_def)
    then show ?thesis using False t(1) by (cases "cr_pc s u") (auto simp: set_free(1))
  qed (use t set_free in simp)
  moreover have "readers_in s' = readers_in s" using set_free(2) by (simp add: set_free(1) readers_in_pc in_readers_in)
  moreover have "cr_readers s' = cr_readers s" "\<not> holds_cell (cr_pc s' w)" "cr_data s' = cr_data s"
    "cr_freed s' = cr_freed s \<union> set_option p"
    using t(1) by (simp_all add: set_free(1))
  moreover have "d \<notin> cr_freed s \<union> set_option p" if "cr_data s = Some d" for d
    using that t(2) assms(2) by (auto simp: one_writer_ok_def)
  ultimately show ?thesis using assms(2) unfolding one_writer_ok_def by (simp, blast)
next
  case (release_mismatch t d)
  then show ?thesis using one_writer_pc [OF assms(2), of t] by fastforce
next
  case (release_refused t d)
  then show ?thesis using one_writer_counted [OF assms(2), of t] by simp
next
  case (set_prev t d)
  then show ?thesis using one_writer_pc [OF assms(2) set_prev(2)] assms(2) by (auto intro!: one_writer_move)
next
  case (set_lost t p d)
  then show ?thesis using assms(2) by (auto intro!: one_writer_move)
next
  case (set_skip t n d)
  then show ?thesis using assms(2) by (auto intro!: one_writer_move)
next
  case (set_load t d)
  then show ?thesis using assms(2) by (auto intro!: one_writer_move)
next
  case (release_load t d)
  then show ?thesis using one_writer_pc [OF assms(2) release_load(2)] assms(2) by (auto intro!: one_writer_move)
next
  case (release_retry t n d)
  then show ?thesis using one_writer_pc [OF assms(2) release_retry(2)] assms(2) by (auto intro!: one_writer_move)
qed (use assms(2) in \<open>auto intro!: one_writer_move\<close>)

lemma one_writer_start: "one_writer_ok w (fresh_cell d)"
  by (simp add: one_writer_ok_def fresh_cell_def readers_in_def)

lemma one_writer_reachable:
  assumes "cache_reachable {w} (fresh_cell d) s"
  shows "one_writer_ok w s"
  using assms unfolding cache_reachable_def
  by (induction rule: rtranclp_induct) (auto intro: one_writer_start one_writer_step)

text \<open>C37: while a single thread stores to a cell and any others read it, in every interleaving the data
  that a reader got is the data of the cell and is not freed until the reader releases it, and a
  release is never refused.\<close>
theorem cache_one_writer_safe:
  assumes "cache_reachable {w} (fresh_cell d0) s" and "cr_pc s t = Reading d"
  shows "cr_data s = d \<and> set_option d \<inter> cr_freed s = {} \<and> cr_readers s > 0"
proof -
  note ok = one_writer_reachable [OF assms(1)]
  have "cr_readers s \<noteq> -1 \<and> cr_readers s \<noteq> 0" using one_writer_counted [OF ok, of t] assms(2) by simp
  then show ?thesis using ok one_writer_pc [OF ok assms(2)] by (auto simp: one_writer_ok_def card_gt_0_iff)
qed

section \<open>Two writers\<close>

text \<open>C38: two threads that store to the same cell can free the data of a reader: the second takes the
  cell while the first one holds it, since the count -1 is not above 0, and frees what the
  first one stored after a reader has entered.\<close>
theorem cache_two_writers_unsafe:
  "\<exists>s. cache_reachable {1, 2} (fresh_cell None) s \<and> cr_pc s 0 = Reading (Some (7 :: nat)) \<and> 7 \<in> cr_freed s"
proof -
  let ?s0 = "fresh_cell None :: nat cell_run"
  let ?s1 = "at_pc 1 (Writer_Saw 0 7) (?s0)"
  let ?s2 = "at_pc 1 (Writer_Held 7) (?s1\<lparr>cr_readers := -1\<rparr>)"
  let ?s3 = "at_pc 2 (Writer_Saw (-1) 8) (?s2)"
  let ?s4 = "at_pc 2 (Writer_Held 8) (?s3\<lparr>cr_readers := -1\<rparr>)"
  let ?s5 = "at_pc 1 (Writer_Has None 7) (?s4)"
  let ?s6 = "at_pc 1 (Writer_Stored None) (?s5\<lparr>cr_data := Some 7\<rparr>)"
  let ?s7 = "at_pc 1 (Writer_Free None) (?s6\<lparr>cr_readers := 0\<rparr>)"
  let ?s8 = "at_pc 0 (Reader_Saw 0) (?s7)"
  let ?s9 = "at_pc 0 (Reader_In) (?s8\<lparr>cr_readers := 1\<rparr>)"
  let ?s10 = "at_pc 0 (Reading (Some 7)) (?s9)"
  let ?s11 = "at_pc 2 (Writer_Has (Some 7) 8) (?s10)"
  let ?s12 = "at_pc 2 (Writer_Stored (Some 7)) (?s11\<lparr>cr_data := Some 8\<rparr>)"
  let ?s13 = "at_pc 2 (Writer_Free (Some 7)) (?s12\<lparr>cr_readers := 0\<rparr>)"
  let ?s14 = "at_pc 2 (Outside) (?s13\<lparr>cr_freed := {7}\<rparr>)"
  note go = rtranclp.rtrancl_into_rtrancl [of "cache_step {1, 2}" ?s0]
  have "(cache_step {1, 2})\<^sup>*\<^sup>* ?s0 ?s0" by (rule rtranclp.rtrancl_refl)
  then have "(cache_step {1, 2})\<^sup>*\<^sup>* ?s0 ?s1"
    by (rule go) (use cache_step.set_load [of ?s0 1 "{1, 2}" 7] in \<open>simp add: fresh_cell_def unused_def\<close>)
  then have "(cache_step {1, 2})\<^sup>*\<^sup>* ?s0 ?s2"
    by (rule go) (use cache_step.set_hold [of ?s1 1] in \<open>simp add: fresh_cell_def unused_def\<close>)
  then have "(cache_step {1, 2})\<^sup>*\<^sup>* ?s0 ?s3"
    by (rule go) (use cache_step.set_load [of ?s2 2 "{1, 2}" 8] in \<open>simp add: fresh_cell_def unused_def\<close>)
  then have "(cache_step {1, 2})\<^sup>*\<^sup>* ?s0 ?s4"
    by (rule go) (use cache_step.set_hold [of ?s3 2] in \<open>simp add: fresh_cell_def unused_def\<close>)
  then have "(cache_step {1, 2})\<^sup>*\<^sup>* ?s0 ?s5"
    by (rule go) (use cache_step.set_prev [of ?s4 1] in \<open>simp add: fresh_cell_def unused_def\<close>)
  then have "(cache_step {1, 2})\<^sup>*\<^sup>* ?s0 ?s6"
    by (rule go) (use cache_step.set_store [of ?s5 1] in \<open>simp add: fresh_cell_def unused_def\<close>)
  then have "(cache_step {1, 2})\<^sup>*\<^sup>* ?s0 ?s7"
    by (rule go) (use cache_step.set_open [of ?s6 1] in \<open>simp add: fresh_cell_def unused_def\<close>)
  then have "(cache_step {1, 2})\<^sup>*\<^sup>* ?s0 ?s8"
    by (rule go) (use cache_step.get_load [of ?s7 0] in \<open>simp add: fresh_cell_def unused_def\<close>)
  then have "(cache_step {1, 2})\<^sup>*\<^sup>* ?s0 ?s9"
    by (rule go) (use cache_step.get_enter [of ?s8 0] in \<open>simp add: fresh_cell_def unused_def\<close>)
  then have "(cache_step {1, 2})\<^sup>*\<^sup>* ?s0 ?s10"
    by (rule go) (use cache_step.get_data [of ?s9 0] in \<open>simp add: fresh_cell_def unused_def\<close>)
  then have "(cache_step {1, 2})\<^sup>*\<^sup>* ?s0 ?s11"
    by (rule go) (use cache_step.set_prev [of ?s10 2] in \<open>simp add: fresh_cell_def unused_def\<close>)
  then have "(cache_step {1, 2})\<^sup>*\<^sup>* ?s0 ?s12"
    by (rule go) (use cache_step.set_store [of ?s11 2] in \<open>simp add: fresh_cell_def unused_def\<close>)
  then have "(cache_step {1, 2})\<^sup>*\<^sup>* ?s0 ?s13"
    by (rule go) (use cache_step.set_open [of ?s12 2] in \<open>simp add: fresh_cell_def unused_def\<close>)
  then have "(cache_step {1, 2})\<^sup>*\<^sup>* ?s0 ?s14"
    by (rule go) (use cache_step.set_free [of ?s13 2 "Some 7" "{1, 2}"] in \<open>simp add: fresh_cell_def unused_def\<close>)
  then show ?thesis
    by (intro exI [of _ ?s14]) (simp add: cache_reachable_def fresh_cell_def)
qed

theorem cache_one_writer_safe_witness:
  "cr_data (at_pc 0 (Reading (Some 5)) (at_pc 0 Reader_In (at_pc 0 (Reader_Saw 0) (fresh_cell (Some (5 :: nat)))\<lparr>cr_readers := 1\<rparr>))) = Some 5 \<and>
   set_option (Some (5 :: nat)) \<inter> {} = {}"
proof -
  let ?s0 = "fresh_cell (Some (5 :: nat))"
  let ?s1 = "at_pc 0 (Reader_Saw 0) ?s0"
  let ?s2 = "at_pc 0 Reader_In (?s1\<lparr>cr_readers := 1\<rparr>)"
  let ?s3 = "at_pc 0 (Reading (Some 5)) ?s2"
  note go = rtranclp.rtrancl_into_rtrancl [of "cache_step {1}" ?s0]
  have "(cache_step {1})\<^sup>*\<^sup>* ?s0 ?s0" by (rule rtranclp.rtrancl_refl)
  then have "(cache_step {1})\<^sup>*\<^sup>* ?s0 ?s1" by (rule go) (use cache_step.get_load [of ?s0 0 "{1}"] in \<open>simp add: fresh_cell_def\<close>)
  then have "(cache_step {1})\<^sup>*\<^sup>* ?s0 ?s2" by (rule go) (use cache_step.get_enter [of ?s1 0 0 "{1}"] in \<open>simp add: fresh_cell_def\<close>)
  then have "(cache_step {1})\<^sup>*\<^sup>* ?s0 ?s3" by (rule go) (use cache_step.get_data [of ?s2 0 "{1}"] in \<open>simp add: fresh_cell_def\<close>)
  then have "cache_reachable {1} ?s0 ?s3" by (simp add: cache_reachable_def)
  from cache_one_writer_safe [OF this, of 0 "Some 5"] show ?thesis by simp
qed

end
