(* ===== verification/State_Refs.thy ===== *)
theory State_Refs
  imports Shared_Dict
begin

text \<open>
  The states of objects and the commits of \<^verbatim>\<open>include/knd_state.h\<close> and \<^verbatim>\<open>include/knd_commit.h\<close>, with their
  constructors in \<^verbatim>\<open>src/knd_state.c\<close> and \<^verbatim>\<open>src/knd_commit.c\<close>, and \<^verbatim>\<open>knd_class_commit_state\<close> of
  \<^verbatim>\<open>src/knd_class.c\<close>, which puts a state of a class into a commit. Objects and commits are known
  by their addresses; a linked list is a list.
\<close>

section \<open>Data\<close>

datatype knd_state_phase =
  KND_SELECTED | KND_CREATED | KND_UPDATED | KND_REMOVED | KND_FREED | KND_FROZEN | KND_RESTORED

datatype knd_state_type =
    KND_STATE_CLASS | KND_STATE_CLASS_VAR | KND_STATE_ATTR | KND_STATE_ATTR_VAR | KND_STATE_CLASS_DESCENDANT
  | KND_STATE_CLASS_INST | KND_STATE_CLASS_INST_INNER | KND_STATE_CLASS_INST_ELEM | KND_STATE_PROC | KND_STATE_PROC_INST

datatype kndState =
    State (st_numid: size_t) (st_phase: knd_state_phase) (st_commit: "nat option") (st_children: "kndStateRef list")
and kndStateRef =
    State_Ref (sr_type: knd_state_type) (sr_obj: "nat option") (sr_state: kndState)

datatype knd_commit_confirm =
  KND_INIT_STATE | KND_FAILED_STATE | KND_CONFLICT_STATE | KND_VALID_STATE | KND_PERSISTENT_STATE | KND_REPLICATED_STATE

record kndCommit =
  cm_numid :: size_t
  cm_timestamp :: size_t
  cm_confirm :: knd_commit_confirm
  cm_class_state_refs :: "kndStateRef list"
  cm_num_class_state_refs :: size_t
  cm_proc_state_refs :: "kndStateRef list"
  cm_prev :: "nat option"

text \<open>The entry of a class in a repository; its class and the entry it was cloned from are addresses.\<close>

record kndClassEntry =
  ce_id :: "byte list"
  ce_numid :: size_t
  ce_name :: "byte list"
  ce_repo :: nat
  ce_base :: "nat option"
  ce_class :: "nat option"
  ce_phase :: knd_state_phase
  ce_dict_item :: "(nat, nat) kndSharedDictItem option"

text \<open>
  The entry of a procedure: the references to its ancestors are pairs of a procedure and its entry, the newest
  first. A reference of an index of texts has the entry of the class whose instances have the texts.
\<close>

record text_ref =
  tr_entry :: nat
  tr_attr :: "nat option"
  tr_idx :: "nat option"

record kndProcEntry =
  pe_id :: "byte list"
  pe_numid :: size_t
  pe_name :: "byte list"
  pe_repo :: nat
  pe_orig :: "nat option"
  pe_proc :: "nat option"
  pe_phase :: knd_state_phase
  pe_ancestors :: "(nat \<times> nat) list"
  pe_num_ancestors :: size_t
  pe_descendants :: "nat option"
  pe_text_idxs :: "text_ref list"
  pe_dict_item :: "(nat, nat) kndSharedDictItem option"

definition cleared_proc_entry :: kndProcEntry where
  "cleared_proc_entry =
     \<lparr>pe_id = [], pe_numid = 0, pe_name = [], pe_repo = 0, pe_orig = None, pe_proc = None, pe_phase = KND_SELECTED,
      pe_ancestors = [], pe_num_ancestors = 0, pe_descendants = None, pe_text_idxs = [], pe_dict_item = None\<rparr>"

section \<open>Constructors\<close>

text \<open>A state reference has 32 bytes, a value 40 and a commit 120; the new page is cleared.\<close>

definition knd_state_ref_new :: "kndMemPool \<Rightarrow> (nat \<times> kndMemPool) result" where
  "knd_state_ref_new mempool =
     (if pc_page_size (mp_tiny mempool) < 32 then Inl Stuck else knd_mempool_page mempool KND_MEMPAGE_TINY)"

definition knd_state_val_new :: "kndMemPool \<Rightarrow> (nat \<times> kndMemPool) result" where
  "knd_state_val_new mempool =
     (if pc_page_size (mp_tiny mempool) < 40 then Inl Stuck else knd_mempool_page mempool KND_MEMPAGE_TINY)"

definition empty_commit :: kndCommit where
  "empty_commit = \<lparr>cm_numid = 1, cm_timestamp = 0, cm_confirm = KND_INIT_STATE, cm_class_state_refs = [],
     cm_num_class_state_refs = 0, cm_proc_state_refs = [], cm_prev = None\<rparr>"

definition knd_commit_new :: "kndMemPool \<Rightarrow> ((nat \<times> kndCommit) \<times> kndMemPool) result" where
  "knd_commit_new mempool =
     (if pc_page_size (mp_small mempool) < 120 then Inl Stuck
      else bind_result (knd_mempool_page mempool KND_MEMPAGE_SMALL) (\<lambda>(page, mempool). Inr ((page, empty_commit), mempool)))"

section \<open>Putting a state into a commit\<close>

definition commit_state :: "kndStateRef list \<Rightarrow> knd_state_phase \<Rightarrow> nat \<Rightarrow> kndMemPool \<Rightarrow> (kndState \<times> kndMemPool) result" where
  "commit_state children phase commit mempool =
     bind_result (knd_state_new mempool) (\<lambda>(_, mempool). Inr (State 0 phase (Some commit) children, mempool))"

text \<open>
  \<open>inst_refs\<close> are the references to instances that the task has collected. The pool keeps the page of
  the state when there is none for the reference.
\<close>

definition knd_class_commit_state ::
  "nat \<Rightarrow> knd_state_phase \<Rightarrow> kndStateRef list \<Rightarrow> nat \<Rightarrow> kndCommit \<Rightarrow> kndMemPool \<Rightarrow> failure option \<times> kndCommit \<times> kndMemPool" where
  "knd_class_commit_state self phase inst_refs addr commit mempool =
     (case commit_state [] phase addr mempool of
        Inl e \<Rightarrow> (Some e, commit, mempool)
      | Inr (State n p c children, mempool) \<Rightarrow>
          let state = State n p c (if phase = KND_SELECTED then inst_refs else children) in
          (case knd_state_ref_new mempool of
             Inl e \<Rightarrow> (Some e, commit, mempool)
           | Inr (_, mempool) \<Rightarrow>
               (None, commit\<lparr>cm_class_state_refs := State_Ref KND_STATE_CLASS (Some self) state # cm_class_state_refs commit,
                  cm_num_class_state_refs := cm_num_class_state_refs commit + 1\<rparr>, mempool)))"

end
