(* ===== verification/Commit.thy ===== *)
theory Commit
  imports State_Refs Text_Codec Output File_Paths
begin

text \<open>
  The confirmation of commits: \<^verbatim>\<open>src/knd_commit.c\<close> and \<^verbatim>\<open>src/knd_repo.commit.c\<close>, run by one thread.
  The record \<open>commit_run\<close> is what the functions read and change: the commits, the entries of classes and
  procedures, the indices of their names, the head of the list of confirmed commits, the pools,
  the buffers of the task, the journals and the file system. What belongs to class instances and
  to procedures is the state \<open>'x\<close> of the parameters in \<open>obj_ops\<close>, which stand for \<^verbatim>\<open>knd_class_inst_resolve\<close>,
  \<^verbatim>\<open>knd_proc_resolve\<close>, \<^verbatim>\<open>knd_class_inst_update_indices\<close> and \<^verbatim>\<open>knd_class_inst_export\<close>; the file system is the
  state \<open>'f\<close> of the calls in \<open>file_ops\<close>. The texts that \<^verbatim>\<open>KND_TASK_ERR\<close> writes to the log are left out.
\<close>

section \<open>State\<close>

record ('x, 'f) commit_run =
  cw_commits :: "nat \<Rightarrow> kndCommit"
  cw_classes :: "nat \<Rightarrow> kndClassEntry"
  cw_procs :: "nat \<Rightarrow> kndProcEntry"
  cw_class_name_idx :: "(nat, nat) kndSharedDict"
  cw_proc_name_idx :: "(nat, nat) kndSharedDict"
  cw_user_mempool :: kndMemPool
  cw_task_mempool :: kndMemPool
  cw_head :: "nat option"
  cw_num_commits :: size_t
  cw_num_journals :: size_t
  cw_out :: kndOutput
  cw_file_out :: kndOutput
  cw_objs :: 'x
  cw_fs :: 'f

record 'x obj_ops =
  inst_is_resolved :: "'x \<Rightarrow> nat \<Rightarrow> bool"
  class_inst_resolve :: "nat \<Rightarrow> 'x \<Rightarrow> failure option \<times> 'x"
  proc_is_resolved :: "'x \<Rightarrow> nat \<Rightarrow> bool"
  proc_resolve :: "nat \<Rightarrow> 'x \<Rightarrow> failure option \<times> 'x"
  class_inst_update_indices :: "nat \<Rightarrow> kndStateRef list \<Rightarrow> 'x \<Rightarrow> failure option \<times> 'x"
  class_inst_export :: "'x \<Rightarrow> nat \<Rightarrow> knd_state_phase \<Rightarrow> kndOutput \<Rightarrow> out_step"

record 'f file_ops =
  sys_stat :: "'f stat_fun"
  sys_mkdir :: "'f mkdir_fun"
  sys_size :: "'f \<Rightarrow> byte list \<Rightarrow> nat option"
  sys_write :: "byte list \<Rightarrow> 'f write_fun"
  sys_append :: "byte list \<Rightarrow> 'f write_fun"

text \<open>The constants of a run: the repository, its snapshot, the task and its user.\<close>

datatype knd_role = KND_ARBITER | Other_Role

record commit_conf =
  cf_repo_name :: "byte list"
  cf_user_name :: "byte list option"
  cf_snapshot_path :: "byte list"
  cf_max_journal_size :: nat
  cf_task_id :: nat
  cf_role :: knd_role
  cf_keep_local_WAL :: bool
  cf_time :: size_t

section \<open>Resolving\<close>

fun resolve_class_inst_commit ::
  "'x obj_ops \<Rightarrow> kndStateRef list \<Rightarrow> nat \<Rightarrow> 'x \<Rightarrow> failure option \<times> kndStateRef list \<times> 'x" where
  "resolve_class_inst_commit ops [] commit objs = (None, [], objs)"
| "resolve_class_inst_commit ops (State_Ref t obj (State n phase c children) # refs) commit objs =
     (let ref = State_Ref t obj (State n phase (Some commit) children) in
      case (if phase = KND_CREATED then
              (case obj of
                 None \<Rightarrow> (Some Stuck, objs)
               | Some entry \<Rightarrow>
                   if inst_is_resolved ops objs entry then (None, objs) else class_inst_resolve ops entry objs)
            else (None, objs)) of
        (Some e, objs) \<Rightarrow> (Some e, ref # refs, objs)
      | (None, objs) \<Rightarrow>
          (case resolve_class_inst_commit ops refs commit objs of (err, refs, objs) \<Rightarrow> (err, ref # refs, objs)))"

fun resolve_class_refs ::
  "'x obj_ops \<Rightarrow> kndStateRef list \<Rightarrow> nat \<Rightarrow> 'x \<Rightarrow> failure option \<times> kndStateRef list \<times> 'x" where
  "resolve_class_refs ops [] commit objs = (None, [], objs)"
| "resolve_class_refs ops (State_Ref t obj (State n phase c children) # refs) commit objs =
     (if phase = KND_REMOVED then
        (case resolve_class_refs ops refs commit objs of (err, refs, objs) \<Rightarrow>
           (err, State_Ref t obj (State n phase c children) # refs, objs))
      else
        (case resolve_class_inst_commit ops children commit objs of
           (Some e, children, objs) \<Rightarrow> (Some e, State_Ref t obj (State n phase (Some commit) children) # refs, objs)
         | (None, children, objs) \<Rightarrow>
             (case resolve_class_refs ops refs commit objs of (err, refs, objs) \<Rightarrow>
                (err, State_Ref t obj (State n phase (Some commit) children) # refs, objs))))"

fun resolve_proc_refs :: "'x obj_ops \<Rightarrow> kndStateRef list \<Rightarrow> 'x \<Rightarrow> failure option \<times> 'x" where
  "resolve_proc_refs ops [] objs = (None, objs)"
| "resolve_proc_refs ops (ref # refs) objs =
     (if st_phase (sr_state ref) = KND_REMOVED then resolve_proc_refs ops refs objs
      else
        (case sr_obj ref of
           None \<Rightarrow> (Some Stuck, objs)
         | Some proc_entry \<Rightarrow>
             then_step (if proc_is_resolved ops objs proc_entry then (None, objs) else proc_resolve ops proc_entry objs)
               (resolve_proc_refs ops refs)))"

definition knd_resolve_commit :: "'x obj_ops \<Rightarrow> nat \<Rightarrow> ('x, 'f) commit_run \<Rightarrow> failure option \<times> ('x, 'f) commit_run" where
  "knd_resolve_commit ops addr s =
     (let commit = cw_commits s addr in
      case resolve_class_refs ops (cm_class_state_refs commit) addr (cw_objs s) of
        (err, refs, objs) \<Rightarrow>
          let s = s\<lparr>cw_commits := (cw_commits s)(addr := commit\<lparr>cm_class_state_refs := refs\<rparr>), cw_objs := objs\<rparr> in
          if err \<noteq> None then (err, s)
          else (case resolve_proc_refs ops (cm_proc_state_refs commit) objs of (err, objs) \<Rightarrow> (err, s\<lparr>cw_objs := objs\<rparr>)))"

text \<open>The loop of \<^verbatim>\<open>knd_dedup_commit\<close> has no effect: what it would call is commented out.\<close>

definition knd_dedup_commit :: "nat \<Rightarrow> ('x, 'f) commit_run \<Rightarrow> failure option \<times> ('x, 'f) commit_run" where
  "knd_dedup_commit commit s = (None, s)"

section \<open>Indices\<close>

text \<open>
  A new class or procedure is registered as a pending item with a state of the commit. Of an updated class
  \<^verbatim>\<open>knd_class_update_indices\<close> changes nothing. The class index is that of the repository the user works in.
\<close>

definition update_class_ref ::
  "'x obj_ops \<Rightarrow> nat \<Rightarrow> kndStateRef \<Rightarrow> ('x, 'f) commit_run \<Rightarrow> failure option \<times> ('x, 'f) commit_run" where
  "update_class_ref ops commit ref s =
     (case sr_obj ref of
        None \<Rightarrow> (Some Stuck, s)
      | Some addr \<Rightarrow>
          let entry = cw_classes s addr in
          (case st_phase (sr_state ref) of
             KND_CREATED \<Rightarrow>
               (case knd_shared_dict_set (cw_class_name_idx s) (ce_name entry) (Some addr) (cw_user_mempool s) (Some commit) False of
                  (err, item, idx, mempool) \<Rightarrow>
                    let s = s\<lparr>cw_class_name_idx := idx, cw_user_mempool := mempool\<rparr> in
                    if err \<noteq> None then (err, s)
                    else (None, s\<lparr>cw_classes := (cw_classes s)(addr := entry\<lparr>ce_dict_item := item\<rparr>)\<rparr>))
           | KND_REMOVED \<Rightarrow> (None, s\<lparr>cw_classes := (cw_classes s)(addr := entry\<lparr>ce_phase := KND_REMOVED\<rparr>)\<rparr>)
           | KND_UPDATED \<Rightarrow> (None, s\<lparr>cw_classes := (cw_classes s)(addr := entry\<lparr>ce_phase := KND_UPDATED\<rparr>)\<rparr>)
           | _ \<Rightarrow>
               if st_children (sr_state ref) = [] then (None, s)
               else (case class_inst_update_indices ops addr (st_children (sr_state ref)) (cw_objs s) of
                   (err, objs) \<Rightarrow> (err, s\<lparr>cw_objs := objs\<rparr>))))"

definition update_proc_ref :: "nat \<Rightarrow> kndStateRef \<Rightarrow> ('x, 'f) commit_run \<Rightarrow> failure option \<times> ('x, 'f) commit_run" where
  "update_proc_ref commit ref s =
     (case sr_obj ref of
        None \<Rightarrow> (Some Stuck, s)
      | Some addr \<Rightarrow>
          let entry = cw_procs s addr in
          (case st_phase (sr_state ref) of
             KND_REMOVED \<Rightarrow>
               (let s = s\<lparr>cw_procs := (cw_procs s)(addr := entry\<lparr>pe_phase := KND_REMOVED\<rparr>)\<rparr> in
                case knd_shared_dict_remove (cw_proc_name_idx s) (pe_name entry) of
                  (err, idx) \<Rightarrow> (err, s\<lparr>cw_proc_name_idx := idx\<rparr>))
           | KND_UPDATED \<Rightarrow> (None, s\<lparr>cw_procs := (cw_procs s)(addr := entry\<lparr>pe_phase := KND_UPDATED\<rparr>)\<rparr>)
           | _ \<Rightarrow>
               (case knd_shared_dict_set (cw_proc_name_idx s) (pe_name entry) (Some addr) (cw_task_mempool s) (Some commit) False of
                  (err, item, idx, mempool) \<Rightarrow>
                    let s = s\<lparr>cw_proc_name_idx := idx, cw_task_mempool := mempool\<rparr> in
                    if err \<noteq> None then (err, s)
                    else (None, s\<lparr>cw_procs := (cw_procs s)(addr := entry\<lparr>pe_dict_item := item\<rparr>)\<rparr>))))"

fun run_steps :: "('r \<Rightarrow> 's \<Rightarrow> failure option \<times> 's) \<Rightarrow> 'r list \<Rightarrow> 's \<Rightarrow> failure option \<times> 's" where
  "run_steps step [] s = (None, s)"
| "run_steps step (r # rs) s = then_step (step r s) (run_steps step rs)"

definition update_indices :: "'x obj_ops \<Rightarrow> nat \<Rightarrow> ('x, 'f) commit_run \<Rightarrow> failure option \<times> ('x, 'f) commit_run" where
  "update_indices ops commit s =
     then_step (run_steps (update_class_ref ops commit) (cm_class_state_refs (cw_commits s commit)) s)
       (\<lambda>s. run_steps (update_proc_ref commit) (cm_proc_state_refs (cw_commits s commit)) s)"

section \<open>Conflicts\<close>

definition confirmed :: "kndCommit \<Rightarrow> bool" where
  "confirmed commit \<longleftrightarrow> cm_confirm commit = KND_VALID_STATE \<or> cm_confirm commit = KND_PERSISTENT_STATE"

definition set_confirm :: "nat \<Rightarrow> knd_commit_confirm \<Rightarrow> ('x, 'f) commit_run \<Rightarrow> ('x, 'f) commit_run" where
  "set_confirm addr confirm s =
     s\<lparr>cw_commits := (cw_commits s)(addr := (cw_commits s addr)\<lparr>cm_confirm := confirm\<rparr>)\<rparr>"

text \<open>The states of a class that is created are those of its item in the index of names.\<close>

definition check_class_ref :: "nat \<Rightarrow> kndStateRef \<Rightarrow> ('x, 'f) commit_run \<Rightarrow> failure option \<times> ('x, 'f) commit_run" where
  "check_class_ref new_commit ref s =
     (if st_phase (sr_state ref) \<noteq> KND_CREATED then (None, s)
      else
        (case sr_obj ref of
           None \<Rightarrow> (Some Stuck, s)
         | Some addr \<Rightarrow>
             (case ce_dict_item (cw_classes s addr) of
                None \<Rightarrow> (Some Stuck, s)
              | Some item \<Rightarrow>
                  if list_ex (\<lambda>c. c \<noteq> new_commit \<and> confirmed (cw_commits s c)) (sd_states item)
                  then (Some (Err knd_FAIL), set_confirm new_commit KND_CONFLICT_STATE s)
                  else (None, s))))"

definition check_class_conflicts :: "nat \<Rightarrow> ('x, 'f) commit_run \<Rightarrow> failure option \<times> ('x, 'f) commit_run" where
  "check_class_conflicts new_commit s =
     run_steps (check_class_ref new_commit) (cm_class_state_refs (cw_commits s new_commit)) s"

text \<open>Run alone, the exchange of the head succeeds, at the latest when it is tried again.\<close>

definition check_commit_conflicts :: "nat \<Rightarrow> ('x, 'f) commit_run \<Rightarrow> failure option \<times> ('x, 'f) commit_run" where
  "check_commit_conflicts addr s =
     (let s = (case cw_head s of
          None \<Rightarrow> s
        | Some head \<Rightarrow>
            s\<lparr>cw_commits := (cw_commits s)(addr := (cw_commits s addr)
                \<lparr>cm_prev := Some head, cm_numid := cm_numid (cw_commits s head) + 1\<rparr>)\<rparr>) in
      then_step (check_class_conflicts addr s)
        (\<lambda>s. (None, set_confirm addr KND_VALID_STATE (s\<lparr>cw_head := Some addr, cw_num_commits := cw_num_commits s + 1\<rparr>))))"

section \<open>The text of a commit\<close>

abbreviation writes :: "string \<Rightarrow> kndOutput \<Rightarrow> out_step" where
  "writes text out \<equiv> kndOutput_write out (bytes_of text)"

fun knd_class_inst_export_commit :: "'x obj_ops \<Rightarrow> 'x \<Rightarrow> kndStateRef list \<Rightarrow> kndOutput \<Rightarrow> out_step" where
  "knd_class_inst_export_commit ops objs [] out = (None, out)"
| "knd_class_inst_export_commit ops objs (ref # refs) out =
     (case sr_obj ref of
        None \<Rightarrow> knd_class_inst_export_commit ops objs refs out
      | Some entry \<Rightarrow>
          then_step (writes ''{'' out) (\<lambda>out.
          then_step (if st_phase (sr_state ref) = KND_CREATED then writes ''!'' out else (None, out)) (\<lambda>out.
          then_step (writes ''inst '' out) (\<lambda>out.
          then_step (class_inst_export ops objs entry (st_phase (sr_state ref)) out) (\<lambda>out.
          then_step (writes ''}'' out) (knd_class_inst_export_commit ops objs refs))))))"

definition export_class_ref ::
  "'x obj_ops \<Rightarrow> 'x \<Rightarrow> (nat \<Rightarrow> kndClassEntry) \<Rightarrow> kndStateRef \<Rightarrow> kndOutput \<Rightarrow> out_step" where
  "export_class_ref ops objs classes ref out =
     (case sr_obj ref of
        None \<Rightarrow> (None, out)
      | Some addr \<Rightarrow>
          let phase = st_phase (sr_state ref) in
          then_step (kndOutput_writec out 123) (\<lambda>out.
          then_step (if phase = KND_CREATED then kndOutput_writec out 33 else (None, out)) (\<lambda>out.
          then_step (writes ''class '' out) (\<lambda>out.
          then_step (kndOutput_write out (ce_name (classes addr))) (\<lambda>out.
            if phase = KND_REMOVED then then_step (writes ''_rm'' out) (\<lambda>out. kndOutput_writec out 125)
            else
              then_step
                (if phase = KND_SELECTED then knd_class_inst_export_commit ops objs (st_children (sr_state ref)) out
                 else (None, out)) (\<lambda>out. writes ''}'' out))))))"

text \<open>The last but one brace closes the user, which was opened only for an authenticated one.\<close>

definition export_commit_GSL ::
  "'x obj_ops \<Rightarrow> commit_conf \<Rightarrow> 'x \<Rightarrow> (nat \<Rightarrow> kndClassEntry) \<Rightarrow> kndStateRef list \<Rightarrow> kndOutput \<Rightarrow> out_step" where
  "export_commit_GSL ops conf objs classes refs out =
     then_step (kndOutput_reset out) (\<lambda>out.
     then_step (writes ''{task'' out) (\<lambda>out.
     then_step
       (case cf_user_name conf of
          None \<Rightarrow> (None, out)
        | Some name \<Rightarrow> then_step (writes ''{user '' out) (\<lambda>out. kndOutput_write out name)) (\<lambda>out.
     then_step (writes ''{repo '' out) (\<lambda>out.
     then_step (kndOutput_write out (cf_repo_name conf)) (\<lambda>out.
     then_step (run_steps (export_class_ref ops objs classes) refs out) (\<lambda>out.
     then_step (writes ''}'' out) (\<lambda>out.
     then_step (writes ''}'' out) (\<lambda>out. writes ''}'' out))))))))"

section \<open>Journals\<close>

abbreviation KND_PATH_SIZE :: nat where "KND_PATH_SIZE \<equiv> 1024"

definition build_journal_filename ::
  "'f file_ops \<Rightarrow> commit_conf \<Rightarrow> ('x, 'f) commit_run \<Rightarrow> failure option \<times> byte list \<times> ('x, 'f) commit_run" where
  "build_journal_filename files conf s =
     (case then_step (kndOutput_reset (cw_out s)) (\<lambda>out.
          then_step (kndOutput_write out (cf_snapshot_path conf)) (\<lambda>out.
          kndOutput_writef out (Some (bytes_of ''agent_'' @ dec_print (cf_task_id conf) @ bytes_of ''/'')))) of
        (Some e, out) \<Rightarrow> (Some e, [], s\<lparr>cw_out := out\<rparr>)
      | (None, out) \<Rightarrow>
          (case knd_mkpath (sys_stat files) (sys_mkdir files) (out_text out) False (cw_fs s) of
             (err, fs) \<Rightarrow>
               let s = s\<lparr>cw_out := out, cw_fs := fs\<rparr> in
               if err \<noteq> None then (err, [], s)
               else
                 (case kndOutput_writef out (Some (bytes_of ''journal_'' @ dec_print (unat (cw_num_journals s)) @ bytes_of ''.log'')) of
                    (err, out) \<Rightarrow>
                      let s = s\<lparr>cw_out := out\<rparr> in
                      if err \<noteq> None then (err, [], s)
                      else if unat (out_size out) \<ge> KND_PATH_SIZE then (Some (Err knd_LIMIT), [], s)
                      else (None, out_text out, s))))"

text \<open>\<^verbatim>\<open>stat\<close> sees the buffer of the task, which holds the name of the journal, and so does the planned size.\<close>

definition start_journal ::
  "'f file_ops \<Rightarrow> byte list \<Rightarrow> ('x, 'f) commit_run \<Rightarrow> failure option \<times> ('x, 'f) commit_run" where
  "start_journal files filename s =
     (case knd_write_file (sys_write files (c_string filename)) (bytes_of ''{WAL'' @ [10]) (cw_fs s) of
        (err, fs) \<Rightarrow> (err, s\<lparr>cw_fs := fs\<rparr>))"

definition choose_journal ::
  "'f file_ops \<Rightarrow> commit_conf \<Rightarrow> ('x, 'f) commit_run \<Rightarrow> failure option \<times> byte list \<times> ('x, 'f) commit_run" where
  "choose_journal files conf s =
     (case build_journal_filename files conf s of
        (Some e, filename, s) \<Rightarrow> (Some e, filename, s)
      | (None, filename, s) \<Rightarrow>
          (case sys_size files (cw_fs s) (c_string (out_text (cw_out s))) of
             None \<Rightarrow> (case start_journal files filename s of (err, s) \<Rightarrow> (err, filename, s))
           | Some st_size \<Rightarrow>
               if st_size + unat (out_size (cw_out s)) > cf_max_journal_size conf then
                 (case build_journal_filename files conf (s\<lparr>cw_num_journals := cw_num_journals s + 1\<rparr>) of
                    (Some e, filename, s) \<Rightarrow> (Some e, filename, s)
                  | (None, filename, s) \<Rightarrow>
                      (case start_journal files filename s of (err, s) \<Rightarrow> (err, filename, s)))
               else (None, filename, s)))"

definition build_commit_WAL ::
  "'x obj_ops \<Rightarrow> 'f file_ops \<Rightarrow> commit_conf \<Rightarrow> nat \<Rightarrow> ('x, 'f) commit_run \<Rightarrow> failure option \<times> ('x, 'f) commit_run" where
  "build_commit_WAL ops files conf addr s =
     (let s = s\<lparr>cw_commits := (cw_commits s)(addr := (cw_commits s addr)\<lparr>cm_timestamp := cf_time conf\<rparr>)\<rparr> in
      case choose_journal files conf s of
        (Some e, filename, s) \<Rightarrow> (Some e, s)
      | (None, filename, s) \<Rightarrow>
          let commit = cw_commits s addr in
          (case export_commit_GSL ops conf (cw_objs s) (cw_classes s) (cm_class_state_refs commit) (cw_out s) of
             (Some e, out) \<Rightarrow> (Some e, s\<lparr>cw_out := out\<rparr>)
           | (None, out) \<Rightarrow>
               (case then_step (kndOutput_reset (cw_file_out s)) (\<lambda>file_out.
                    then_step (kndOutput_writef file_out (Some (bytes_of ''{commit '' @ dec_print (unat (cm_numid commit)) @
                        bytes_of ''{_ts '' @ dec_print (unat (cm_timestamp commit)) @
                        bytes_of ''}{_size '' @ dec_print (unat (out_size out)) @ bytes_of ''}''))) (\<lambda>file_out.
                    then_step (kndOutput_write file_out (out_text out)) (\<lambda>file_out.
                    kndOutput_write file_out (bytes_of ''}'' @ [10])))) of
                  (Some e, file_out) \<Rightarrow> (Some e, s\<lparr>cw_out := out, cw_file_out := file_out\<rparr>)
                | (None, file_out) \<Rightarrow>
                    let s = s\<lparr>cw_out := out, cw_file_out := file_out\<rparr> in
                    if cf_keep_local_WAL conf then
                      (case knd_append_file (sys_append files (c_string filename)) (out_text file_out) (cw_fs s) of
                         (Some e, fs) \<Rightarrow> (Some e, s\<lparr>cw_fs := fs\<rparr>)
                       | (None, fs) \<Rightarrow> (None, set_confirm addr KND_PERSISTENT_STATE (s\<lparr>cw_fs := fs\<rparr>)))
                    else (None, s))))"

text \<open>In another role the commit is only written to the buffer, for the arbiter.\<close>

definition knd_confirm_commit ::
  "'x obj_ops \<Rightarrow> 'f file_ops \<Rightarrow> commit_conf \<Rightarrow> nat \<Rightarrow> ('x, 'f) commit_run \<Rightarrow> failure option \<times> ('x, 'f) commit_run" where
  "knd_confirm_commit ops files conf addr s =
     then_step (knd_resolve_commit ops addr s) (\<lambda>s.
     then_step (knd_dedup_commit addr s) (\<lambda>s.
       case cf_role conf of
         KND_ARBITER \<Rightarrow>
           then_step (update_indices ops addr s) (\<lambda>s.
           then_step (check_commit_conflicts addr s) (build_commit_WAL ops files conf addr))
       | Other_Role \<Rightarrow>
           (case export_commit_GSL ops conf (cw_objs s) (cw_classes s) (cm_class_state_refs (cw_commits s addr)) (cw_out s) of
              (err, out) \<Rightarrow> (err, s\<lparr>cw_out := out\<rparr>))))"

section \<open>What a commit writes\<close>

definition appended :: "byte list \<Rightarrow> kndOutput \<Rightarrow> kndOutput \<Rightarrow> bool" where
  "appended bs out out' \<longleftrightarrow> out_ok out' \<and> out_text out' = out_text out @ bs"

lemma appended_trans: "appended a out out1 \<Longrightarrow> appended b out1 out2 \<Longrightarrow> appended (a @ b) out out2"
  by (simp add: appended_def)

lemma appended_refl: "out_ok out \<Longrightarrow> appended [] out out"
  by (simp add: appended_def)

lemma write_appended:
  "kndOutput_write out bs = (None, out') \<Longrightarrow> out_ok out \<Longrightarrow> length bs < 2 ^ 64 \<Longrightarrow> appended bs out out'"
  using output_write [of out bs] by (cases "length bs \<le> out_room out") (auto simp: appended_def)

lemma writec_appended: "kndOutput_writec out c = (None, out') \<Longrightarrow> out_ok out \<Longrightarrow> appended [c] out out'"
  using output_writec [of out c] by (auto simp: appended_def split: if_splits)

lemma writef_appended:
  "kndOutput_writef out (Some bs) = (None, out') \<Longrightarrow> out_ok out \<Longrightarrow> length bs < 2 ^ 64 \<Longrightarrow> appended bs out out'"
  using output_writef [of out bs] by (auto simp: appended_def split: if_splits)

lemma reset_appended: "kndOutput_reset out = (None, out') \<Longrightarrow> out_ok out \<Longrightarrow> out_ok out' \<and> out_text out' = []"
  using output_rtrim [of out] by auto

lemma reset_fine: "out_ok out \<Longrightarrow> \<exists>out'. kndOutput_reset out = (None, out') \<and> out_ok out' \<and> out_text out' = []"
  using output_rtrim [of out] by auto

text \<open>An exporter of instances appends a text to the buffer, when it succeeds.\<close>

definition inst_exports :: "'x obj_ops \<Rightarrow> ('x \<Rightarrow> nat \<Rightarrow> knd_state_phase \<Rightarrow> byte list) \<Rightarrow> bool" where
  "inst_exports ops inst_text \<longleftrightarrow>
     (\<forall>objs entry phase out out'. out_ok out \<longrightarrow> class_inst_export ops objs entry phase out = (None, out') \<longrightarrow>
        appended (inst_text objs entry phase) out out')"

fun insts_text :: "('x \<Rightarrow> nat \<Rightarrow> knd_state_phase \<Rightarrow> byte list) \<Rightarrow> 'x \<Rightarrow> kndStateRef list \<Rightarrow> byte list" where
  "insts_text inst_text objs [] = []"
| "insts_text inst_text objs (ref # refs) =
     (case sr_obj ref of
        None \<Rightarrow> []
      | Some entry \<Rightarrow> bytes_of ''{'' @ (if st_phase (sr_state ref) = KND_CREATED then bytes_of ''!'' else []) @
          bytes_of ''inst '' @ inst_text objs entry (st_phase (sr_state ref)) @ bytes_of ''}'') @
     insts_text inst_text objs refs"

definition class_ref_text ::
  "('x \<Rightarrow> nat \<Rightarrow> knd_state_phase \<Rightarrow> byte list) \<Rightarrow> 'x \<Rightarrow> (nat \<Rightarrow> kndClassEntry) \<Rightarrow> kndStateRef \<Rightarrow> byte list" where
  "class_ref_text inst_text objs classes ref =
     (case sr_obj ref of
        None \<Rightarrow> []
      | Some addr \<Rightarrow> bytes_of ''{'' @ (if st_phase (sr_state ref) = KND_CREATED then bytes_of ''!'' else []) @
          bytes_of ''class '' @ ce_name (classes addr) @
          (if st_phase (sr_state ref) = KND_REMOVED then bytes_of ''_rm''
           else if st_phase (sr_state ref) = KND_SELECTED then insts_text inst_text objs (st_children (sr_state ref))
           else []) @ bytes_of ''}'')"

definition commit_text ::
  "('x \<Rightarrow> nat \<Rightarrow> knd_state_phase \<Rightarrow> byte list) \<Rightarrow> commit_conf \<Rightarrow> 'x \<Rightarrow> (nat \<Rightarrow> kndClassEntry) \<Rightarrow> kndStateRef list \<Rightarrow> byte list" where
  "commit_text inst_text conf objs classes refs =
     bytes_of ''{task'' @ (case cf_user_name conf of None \<Rightarrow> [] | Some name \<Rightarrow> bytes_of ''{user '' @ name) @
     bytes_of ''{repo '' @ cf_repo_name conf @ concat (map (class_ref_text inst_text objs classes) refs) @ bytes_of ''}}}''"

lemma bytes_of_simps [simp]: "bytes_of [] = []" "bytes_of (c # cs) = of_char c # bytes_of cs" "length (bytes_of s) = length s"
  by (simp_all add: bytes_of_def)

lemma bytes_of_append: "bytes_of (a @ b) = bytes_of a @ bytes_of b"
  by (simp add: bytes_of_def)

lemma insts_appended:
  assumes "inst_exports ops inst_text"
  shows "knd_class_inst_export_commit ops objs refs out = (None, out') \<Longrightarrow> out_ok out \<Longrightarrow>
    appended (insts_text inst_text objs refs) out out'"
proof (induction refs arbitrary: out)
  case Nil
  then show ?case by (simp add: appended_refl)
next
  case (Cons ref refs)
  show ?case
  proof (cases "sr_obj ref")
    case None
    then show ?thesis using Cons by simp
  next
    case (Some entry)
    let ?p = "st_phase (sr_state ref)"
    obtain o1 o2 o3 o4 o5 where s: "writes ''{'' out = (None, o1)"
      "(if ?p = KND_CREATED then writes ''!'' o1 else (None, o1)) = (None, o2)" "writes ''inst '' o2 = (None, o3)"
      "class_inst_export ops objs entry ?p o3 = (None, o4)" "writes ''}'' o4 = (None, o5)"
      "knd_class_inst_export_commit ops objs refs o5 = (None, out')"
      using Cons.prems(1) Some by (auto simp: then_step_None)
    have 1: "appended (bytes_of ''{'') out o1" using write_appended [OF s(1) Cons.prems(2)] by simp
    have 2: "appended (if ?p = KND_CREATED then bytes_of ''!'' else []) o1 o2"
      using s(2) 1 by (auto simp: appended_def [of _ out] intro: appended_refl dest: write_appended split: if_splits)
    have 3: "appended (bytes_of ''inst '') o2 o3" using write_appended [OF s(3)] 2 by (simp add: appended_def [of _ o1])
    have 4: "appended (inst_text objs entry ?p) o3 o4"
      using assms s(4) 3 by (auto simp: inst_exports_def appended_def [of _ o2])
    have 5: "appended (bytes_of ''}'') o4 o5" using write_appended [OF s(5)] 4 by (simp add: appended_def [of _ o3])
    have 6: "appended (insts_text inst_text objs refs) o5 out'" using Cons.IH [OF s(6)] 5 by (simp add: appended_def [of _ o4])
    show ?thesis
      using appended_trans [OF 1 appended_trans [OF 2 appended_trans [OF 3 appended_trans [OF 4 appended_trans [OF 5 6]]]]] Some
      by simp
  qed
qed

definition short_names :: "(nat \<Rightarrow> kndClassEntry) \<Rightarrow> bool" where
  "short_names classes \<longleftrightarrow> (\<forall>addr. length (ce_name (classes addr)) < 2 ^ 64)"

lemma class_ref_appended:
  assumes "inst_exports ops inst_text" and "short_names classes"
    and "export_class_ref ops objs classes ref out = (None, out')" and "out_ok out"
  shows "appended (class_ref_text inst_text objs classes ref) out out'"
proof (cases "sr_obj ref")
  case None
  then show ?thesis using assms(3,4) by (simp add: export_class_ref_def class_ref_text_def appended_refl)
next
  case (Some addr)
  let ?p = "st_phase (sr_state ref)" and ?n = "ce_name (classes addr)"
  let ?last = "\<lambda>out. if ?p = KND_REMOVED then then_step (writes ''_rm'' out) (\<lambda>out. kndOutput_writec out 125)
      else then_step (if ?p = KND_SELECTED then knd_class_inst_export_commit ops objs (st_children (sr_state ref)) out
                 else (None, out)) (\<lambda>out. writes ''}'' out)"
  obtain o1 o2 o3 o4 where s: "kndOutput_writec out 123 = (None, o1)"
    "(if ?p = KND_CREATED then kndOutput_writec o1 33 else (None, o1)) = (None, o2)" "writes ''class '' o2 = (None, o3)"
    "kndOutput_write o3 ?n = (None, o4)" "?last o4 = (None, out')"
    using assms(3) Some by (auto simp: export_class_ref_def then_step_None Let_def)
  have 1: "appended [123] out o1" by (rule writec_appended [OF s(1) assms(4)])
  have 2: "appended (if ?p = KND_CREATED then [33] else []) o1 o2"
    using s(2) 1 by (auto simp: appended_def [of _ out] intro: appended_refl dest: writec_appended split: if_splits)
  have 3: "appended (bytes_of ''class '') o2 o3" using write_appended [OF s(3)] 2 by (simp add: appended_def [of _ o1])
  have 4: "appended ?n o3 o4"
    using write_appended [OF s(4)] 3 assms(2) by (simp add: appended_def [of _ o2] short_names_def)
  have ok: "out_ok o4" using 4 by (simp add: appended_def)
  have 5: "appended ((if ?p = KND_REMOVED then bytes_of ''_rm''
      else if ?p = KND_SELECTED then insts_text inst_text objs (st_children (sr_state ref)) else []) @ [125]) o4 out'"
  proof (cases "?p = KND_REMOVED")
    case True
    then obtain o5 where t: "writes ''_rm'' o4 = (None, o5)" "kndOutput_writec o5 125 = (None, out')"
      using s(5) by (auto simp: then_step_None)
    have a: "appended (bytes_of ''_rm'') o4 o5" using write_appended [OF t(1) ok] by simp
    have "appended [125] o5 out'" using writec_appended [OF t(2)] a by (simp add: appended_def [of _ o4])
    with a True show ?thesis using appended_trans by fastforce
  next
    case False
    then obtain o5 where t: "(if ?p = KND_SELECTED then knd_class_inst_export_commit ops objs (st_children (sr_state ref)) o4
        else (None, o4)) = (None, o5)" "writes ''}'' o5 = (None, out')"
      using s(5) by (auto simp: then_step_None)
    have a: "appended (if ?p = KND_SELECTED then insts_text inst_text objs (st_children (sr_state ref)) else []) o4 o5"
      using t(1) insts_appended [OF assms(1) _ ok] appended_refl [OF ok] by (auto split: if_splits)
    have "appended (bytes_of ''}'') o5 out'" using write_appended [OF t(2)] a by (simp add: appended_def [of _ o4])
    with a False show ?thesis using appended_trans by fastforce
  qed
  show ?thesis
    using appended_trans [OF 1 appended_trans [OF 2 appended_trans [OF 3 appended_trans [OF 4 5]]]] Some
    by (cases ?p) (simp_all add: class_ref_text_def)
qed

lemma class_refs_appended:
  assumes "inst_exports ops inst_text" and "short_names classes"
  shows "run_steps (export_class_ref ops objs classes) refs out = (None, out') \<Longrightarrow> out_ok out \<Longrightarrow>
    appended (concat (map (class_ref_text inst_text objs classes) refs)) out out'"
proof (induction refs arbitrary: out)
  case Nil
  then show ?case by (simp add: appended_refl)
next
  case (Cons ref refs)
  then obtain o1 where s: "export_class_ref ops objs classes ref out = (None, o1)"
    "run_steps (export_class_ref ops objs classes) refs o1 = (None, out')" by (auto simp: then_step_None)
  have 1: "appended (class_ref_text inst_text objs classes ref) out o1"
    by (rule class_ref_appended [OF assms s(1) Cons.prems(2)])
  have "appended (concat (map (class_ref_text inst_text objs classes) refs)) o1 out'"
    using Cons.IH [OF s(2)] 1 by (simp add: appended_def [of _ out])
  then show ?case using appended_trans [OF 1] by simp
qed

definition conf_ok :: "commit_conf \<Rightarrow> bool" where
  "conf_ok conf \<longleftrightarrow> length (cf_repo_name conf) < 2 ^ 64 \<and> length (cf_snapshot_path conf) < 2 ^ 64 \<and>
     0 \<notin> set (cf_snapshot_path conf) \<and> cf_task_id conf < 2 ^ 31 \<and>
     (case cf_user_name conf of None \<Rightarrow> True | Some name \<Rightarrow> length name < 2 ^ 64)"

lemma commit_exported:
  assumes "inst_exports ops inst_text" and "short_names classes" and "conf_ok conf"
    and "export_commit_GSL ops conf objs classes refs out = (None, out')" and "out_ok out"
  shows "out_ok out' \<and> out_text out' = commit_text inst_text conf objs classes refs"
proof -
  let ?user = "\<lambda>out. case cf_user_name conf of None \<Rightarrow> (None, out)
      | Some name \<Rightarrow> then_step (writes ''{user '' out) (\<lambda>out. kndOutput_write out name)"
  obtain o0 o1 o2 o3 o4 o5 o6 o7 where s: "kndOutput_reset out = (None, o0)" "writes ''{task'' o0 = (None, o1)"
    "?user o1 = (None, o2)" "writes ''{repo '' o2 = (None, o3)" "kndOutput_write o3 (cf_repo_name conf) = (None, o4)"
    "run_steps (export_class_ref ops objs classes) refs o4 = (None, o5)"
    "writes ''}'' o5 = (None, o6)" "writes ''}'' o6 = (None, o7)" "writes ''}'' o7 = (None, out')"
    using assms(4) by (auto simp: export_commit_GSL_def then_step_None)
  have 0: "out_ok o0 \<and> out_text o0 = []" by (rule reset_appended [OF s(1) assms(5)])
  have 1: "appended (bytes_of ''{task'') o0 o1" using write_appended [OF s(2)] 0 by simp
  have 2: "appended (case cf_user_name conf of None \<Rightarrow> [] | Some name \<Rightarrow> bytes_of ''{user '' @ name) o1 o2"
  proof (cases "cf_user_name conf")
    case None
    then show ?thesis using s(3) 1 by (simp add: appended_def)
  next
    case (Some name)
    then obtain p where t: "writes ''{user '' o1 = (None, p)" "kndOutput_write p name = (None, o2)"
      using s(3) by (auto simp: then_step_None)
    have a: "appended (bytes_of ''{user '') o1 p" using write_appended [OF t(1)] 1 by (simp add: appended_def [of _ o0])
    have "appended name p o2" using write_appended [OF t(2)] a Some assms(3) by (simp add: appended_def [of _ o1] conf_ok_def)
    then show ?thesis using appended_trans [OF a] Some by simp
  qed
  have 3: "appended (bytes_of ''{repo '') o2 o3" using write_appended [OF s(4)] 2 by (simp add: appended_def [of _ o1])
  have 4: "appended (cf_repo_name conf) o3 o4"
    using write_appended [OF s(5)] 3 assms(3) by (simp add: appended_def [of _ o2] conf_ok_def)
  have 5: "appended (concat (map (class_ref_text inst_text objs classes) refs)) o4 o5"
    using class_refs_appended [OF assms(1,2) s(6)] 4 by (simp add: appended_def [of _ o3])
  have 6: "appended (bytes_of ''}'') o5 o6" using write_appended [OF s(7)] 5 by (simp add: appended_def [of _ o4])
  have 7: "appended (bytes_of ''}'') o6 o7" using write_appended [OF s(8)] 6 by (simp add: appended_def [of _ o5])
  have 8: "appended (bytes_of ''}'') o7 out'" using write_appended [OF s(9)] 7 by (simp add: appended_def [of _ o6])
  show ?thesis
    using appended_trans [OF 1 appended_trans [OF 2 appended_trans [OF 3 appended_trans [OF 4
      appended_trans [OF 5 appended_trans [OF 6 appended_trans [OF 7 8]]]]]]] 0
    by (simp add: appended_def commit_text_def)
qed

section \<open>Braces\<close>

definition brace_depth :: "byte list \<Rightarrow> int" where
  "brace_depth bs = sum_list (map (\<lambda>c. if c = 123 then 1 else if c = 125 then -1 else 0) bs)"

lemma brace_depth_simps [simp]:
  "brace_depth [] = 0" "brace_depth (c # bs) = (if c = 123 then 1 else if c = 125 then -1 else 0) + brace_depth bs"
  "brace_depth (as @ bs) = brace_depth as + brace_depth bs"
  by (simp_all add: brace_depth_def)

text \<open>Names without braces, and instances whose texts close what they open.\<close>

definition balanced_parts ::
  "('x \<Rightarrow> nat \<Rightarrow> knd_state_phase \<Rightarrow> byte list) \<Rightarrow> commit_conf \<Rightarrow> (nat \<Rightarrow> kndClassEntry) \<Rightarrow> bool" where
  "balanced_parts inst_text conf classes \<longleftrightarrow>
     (\<forall>objs entry phase. brace_depth (inst_text objs entry phase) = 0) \<and> (\<forall>addr. brace_depth (ce_name (classes addr)) = 0) \<and>
     brace_depth (cf_repo_name conf) = 0 \<and> (case cf_user_name conf of None \<Rightarrow> True | Some name \<Rightarrow> brace_depth name = 0)"

lemma insts_text_depth:
  "balanced_parts inst_text conf classes \<Longrightarrow> brace_depth (insts_text inst_text objs refs) = 0"
  by (induction refs) (auto simp: balanced_parts_def split: option.splits)

lemma class_ref_text_depth:
  "balanced_parts inst_text conf classes \<Longrightarrow> brace_depth (class_ref_text inst_text objs classes ref) = 0"
  using insts_text_depth [of inst_text conf classes objs]
  by (auto simp: class_ref_text_def balanced_parts_def split: option.splits)

lemma class_refs_text_depth:
  "balanced_parts inst_text conf classes \<Longrightarrow>
   brace_depth (concat (map (class_ref_text inst_text objs classes) refs)) = 0"
  by (induction refs) (simp_all add: class_ref_text_depth)

lemma commit_text_depth:
  assumes "balanced_parts inst_text conf classes"
  shows "brace_depth (commit_text inst_text conf objs classes refs) = (if cf_user_name conf = None then -1 else 0)"
  using class_refs_text_depth [OF assms, of objs refs] assms
  by (auto simp: commit_text_def balanced_parts_def split: option.splits)

text \<open>A class that is removed is written as the class whose name ends with \<^verbatim>\<open>_rm\<close>.\<close>

lemma removed_class_text:
  "class_ref_text inst_text objs classes (State_Ref t (Some addr) (State n KND_REMOVED c children)) =
   class_ref_text inst_text objs (classes(addr := (classes addr)\<lparr>ce_name := ce_name (classes addr) @ bytes_of ''_rm''\<rparr>))
     (State_Ref t (Some addr) (State n KND_UPDATED c children))"
  by (simp add: class_ref_text_def)

text \<open>A commit is written as the text of its classes in their order inside the repository and the task;
  its braces match when the user is authenticated, and otherwise one is closed that was not opened.\<close>
theorem export_commit_text:
  assumes "inst_exports ops inst_text" and "short_names classes" and "conf_ok conf" and "out_ok out"
    and "balanced_parts inst_text conf classes"
    and "export_commit_GSL ops conf objs classes refs out = (None, out')"
  shows "out_text out' = commit_text inst_text conf objs classes refs \<and>
    brace_depth (out_text out') = (if cf_user_name conf = None then -1 else 0)"
  using commit_exported [OF assms(1-3,6,4)] commit_text_depth [OF assms(5)] by simp

section \<open>No conflict is found\<close>

lemma stored_item_states:
  assumes "knd_shared_dict_set idx key data mempool (Some c) overwrite = (None, item, idx', mempool')"
  shows "\<exists>i. item = Some i \<and> sd_states i = [c]"
  using assms
  by (auto simp: knd_shared_dict_set_def make_item_def Let_def
      split: sum.splits option.splits if_splits failure.splits prod.splits)

definition own_item :: "nat \<Rightarrow> ('x, 'f) commit_run \<Rightarrow> nat \<Rightarrow> bool" where
  "own_item commit s addr \<longleftrightarrow> (\<exists>i. ce_dict_item (cw_classes s addr) = Some i \<and> sd_states i = [commit])"

lemma update_class_ref_own:
  assumes "update_class_ref ops commit ref s = (None, s')"
  shows "(own_item commit s addr \<longrightarrow> own_item commit s' addr) \<and> cw_commits s' = cw_commits s \<and>
    (st_phase (sr_state ref) = KND_CREATED \<longrightarrow> (\<exists>a. sr_obj ref = Some a \<and> own_item commit s' a))"
proof (cases "sr_obj ref")
  case None
  then show ?thesis using assms by (simp add: update_class_ref_def)
next
  case (Some a)
  show ?thesis
  proof (cases "st_phase (sr_state ref) = KND_CREATED")
    case True
    then obtain item idx mempool where set: "knd_shared_dict_set (cw_class_name_idx s) (ce_name (cw_classes s a)) (Some a)
        (cw_user_mempool s) (Some commit) False = (None, item, idx, mempool)"
      and s': "s' = s\<lparr>cw_class_name_idx := idx, cw_user_mempool := mempool,
        cw_classes := (cw_classes s)(a := (cw_classes s a)\<lparr>ce_dict_item := item\<rparr>)\<rparr>"
      using assms Some by (auto simp: update_class_ref_def Let_def split: prod.splits if_splits)
    show ?thesis using stored_item_states [OF set] True Some by (auto simp: s' own_item_def)
  next
    case False
    then show ?thesis using assms Some
      by (auto simp: update_class_ref_def Let_def own_item_def split: knd_state_phase.splits prod.splits if_splits)
  qed
qed

lemma update_class_refs_own:
  "run_steps (update_class_ref ops commit) refs s = (None, s') \<Longrightarrow>
   (\<forall>a. own_item commit s a \<longrightarrow> own_item commit s' a) \<and> cw_commits s' = cw_commits s \<and>
   (\<forall>ref\<in>set refs. st_phase (sr_state ref) = KND_CREATED \<longrightarrow> (\<exists>a. sr_obj ref = Some a \<and> own_item commit s' a))"
proof (induction refs arbitrary: s)
  case (Cons ref refs)
  then obtain s1 where s: "update_class_ref ops commit ref s = (None, s1)"
    "run_steps (update_class_ref ops commit) refs s1 = (None, s')" by (auto simp: then_step_None)
  note one = update_class_ref_own [OF s(1)] and rest = Cons.IH [OF s(2)]
  show ?case
  proof (intro conjI allI ballI impI)
    show "own_item commit s' a" if "own_item commit s a" for a using that one [of a] rest by simp
    show "cw_commits s' = cw_commits s" using one rest by simp
    show "\<exists>a. sr_obj r = Some a \<and> own_item commit s' a" if "r \<in> set (ref # refs)" "st_phase (sr_state r) = KND_CREATED" for r
    proof (cases "r = ref")
      case True
      then show ?thesis using that one rest by blast
    next
      case False
      then show ?thesis using that rest by auto
    qed
  qed
qed simp

lemma update_proc_refs_classes:
  "run_steps (update_proc_ref commit) refs s = (err, s') \<Longrightarrow> cw_classes s' = cw_classes s \<and> cw_commits s' = cw_commits s"
proof (induction refs arbitrary: s)
  case (Cons ref refs)
  have one: "cw_classes t = cw_classes s \<and> cw_commits t = cw_commits s" if "update_proc_ref commit ref s = (e, t)" for e t
    using that by (auto simp: update_proc_ref_def Let_def split: option.splits knd_state_phase.splits prod.splits if_splits)
  show ?case
  proof (cases "update_proc_ref commit ref s")
    case (Pair e t)
    then show ?thesis using Cons one [OF Pair] by (cases e) auto
  qed
qed simp

lemma update_indices_own:
  assumes "update_indices ops commit s = (None, s')"
  shows "cw_commits s' = cw_commits s \<and>
    (\<forall>ref\<in>set (cm_class_state_refs (cw_commits s' commit)). st_phase (sr_state ref) = KND_CREATED \<longrightarrow>
       (\<exists>a. sr_obj ref = Some a \<and> own_item commit s' a))"
proof -
  obtain s1 where s: "run_steps (update_class_ref ops commit) (cm_class_state_refs (cw_commits s commit)) s = (None, s1)"
    "run_steps (update_proc_ref commit) (cm_proc_state_refs (cw_commits s1 commit)) s1 = (None, s')"
    using assms by (auto simp: update_indices_def then_step_None)
  show ?thesis
    using update_class_refs_own [OF s(1)] update_proc_refs_classes [OF s(2)] by (simp add: own_item_def)
qed

lemma check_class_refs_fine:
  "\<forall>ref\<in>set refs. st_phase (sr_state ref) = KND_CREATED \<longrightarrow> (\<exists>a. sr_obj ref = Some a \<and> own_item commit s a) \<Longrightarrow>
   run_steps (check_class_ref commit) refs s = (None, s)"
  by (induction refs) (auto simp: check_class_ref_def own_item_def)

text \<open>What a commit becomes at the head of the list of commits.\<close>

definition chained :: "nat \<Rightarrow> ('x, 'f) commit_run \<Rightarrow> ('x, 'f) commit_run" where
  "chained addr s =
     (let commit = cw_commits s addr;
          commit = (case cw_head s of None \<Rightarrow> commit
            | Some head \<Rightarrow> commit\<lparr>cm_prev := Some head, cm_numid := cm_numid (cw_commits s head) + 1\<rparr>)
      in s\<lparr>cw_commits := (cw_commits s)(addr := commit\<lparr>cm_confirm := KND_VALID_STATE\<rparr>),
           cw_head := Some addr, cw_num_commits := cw_num_commits s + 1\<rparr>)"

lemma conflicts_vacuous:
  assumes "update_indices ops addr s = (None, s')"
  shows "check_commit_conflicts addr s' = (None, chained addr s')"
proof -
  define t where "t = (case cw_head s' of None \<Rightarrow> s'
      | Some head \<Rightarrow> s'\<lparr>cw_commits := (cw_commits s')(addr := (cw_commits s' addr)
                \<lparr>cm_prev := Some head, cm_numid := cm_numid (cw_commits s' head) + 1\<rparr>)\<rparr>)"
  have same: "cm_class_state_refs (cw_commits t addr) = cm_class_state_refs (cw_commits s' addr)" "own_item addr t = own_item addr s'"
    by (auto simp: t_def own_item_def fun_eq_iff split: option.splits)
  have "check_class_conflicts addr t = (None, t)"
    unfolding check_class_conflicts_def using update_indices_own [OF assms] by (intro check_class_refs_fine) (simp add: same)
  then show ?thesis
    unfolding check_commit_conflicts_def t_def [symmetric] Let_def
    by (auto simp: t_def chained_def set_confirm_def Let_def split: option.splits)
qed

text \<open>C40: once its names are registered, a commit becomes the head of the list of commits and valid,
  whatever other commits are confirmed: the check for conflicts looks only at the states of the
  items that the commit itself has just registered.\<close>
theorem commit_never_conflicts:
  assumes "update_indices ops addr s = (None, s')"
  shows "check_commit_conflicts addr s' = (None, chained addr s')"
  by (rule conflicts_vacuous [OF assms])

section \<open>The journal\<close>

lemma length_dec_print: "n < 10 ^ k \<Longrightarrow> 0 < k \<Longrightarrow> length (dec_print n) \<le> k"
proof (induction k arbitrary: n)
  case (Suc k)
  show ?case
  proof (cases "n < 10")
    case True
    then show ?thesis by (simp add: dec_print.simps)
  next
    case False
    then have "0 < k" using Suc.prems(1) by (cases k) auto
    moreover have "n div 10 < 10 ^ k" using Suc.prems(1) by (simp add: less_mult_imp_div_less mult.commute)
    ultimately show ?thesis using Suc.IH [of "n div 10"] False by (simp add: dec_print.simps [of n])
  qed
qed simp

lemma length_dec_unat: "length (dec_print (unat (w :: size_t))) \<le> 20"
  by (rule length_dec_print) (use unat_size_t_less [of w] in simp_all)

lemma dec_print_no_nul: "0 \<notin> set (dec_print n)"
  using dec_print_digits [of n] by (auto simp: list_all_iff dec_digit_def word_le_nat_alt)

lemma c_string_id: "0 \<notin> set bs \<Longrightarrow> c_string bs = bs"
  by (auto simp: c_string_def takeWhile_eq_all_conv)

text \<open>What is asked of the file system, path by path: a file that is written has the text written, a file
  that is appended to has its former contents followed by the text, and making a directory leaves a file that
  exists and is no directory as it is. Nothing is asked of other paths, which may lead to the same file.\<close>

definition posix_files :: "'f file_ops \<Rightarrow> ('f \<Rightarrow> byte list \<Rightarrow> byte list) \<Rightarrow> bool" where
  "posix_files files contents \<longleftrightarrow>
     (\<forall>p fs bs fs'. sys_write files p fs bs = (Written (int (length bs)), fs') \<longrightarrow> contents fs' p = bs) \<and>
     (\<forall>p fs bs fs'. sys_append files p fs bs = (Written (int (length bs)), fs') \<longrightarrow>
        contents fs' p = contents fs p @ bs) \<and>
     (\<forall>p q fs. sys_stat files fs q = Some Other_File \<longrightarrow>
        (let fs' = snd (sys_mkdir files fs p) in
           sys_stat files fs' q = Some Other_File \<and> sys_size files fs' q = sys_size files fs q \<and>
           contents fs' q = contents fs q))"

lemma knd_mkdir_keeps:
  assumes "I (snd (mk fs p))" and "I fs"
  shows "I (snd (knd_mkdir st mk p fs))"
  using assms by (cases "mk fs p") (auto simp: knd_mkdir_def split: option.splits file_kind.splits mkdir_outcome.splits)

lemma mkpath_loop_keeps:
  assumes "\<And>fs p. I fs \<Longrightarrow> I (snd (mk fs p))"
  shows "I fs \<Longrightarrow> I (snd (mkpath_loop st mk buf path fs))"
proof (induction path arbitrary: buf fs)
  case (Cons p path)
  have dir: "I (snd (knd_mkdir st mk (c_string buf) fs))"
    by (rule knd_mkdir_keeps [where I = I, OF assms]) (rule Cons.prems)+
  show ?case
    using Cons.IH Cons.prems dir
    by (cases "knd_mkdir st mk (c_string buf) fs"; cases "fst (knd_mkdir st mk (c_string buf) fs)") auto
qed simp

lemma mkpath_keeps:
  assumes "\<And>fs p. I fs \<Longrightarrow> I (snd (mk fs p))" and "I fs"
  shows "I (snd (knd_mkpath st mk path has_filename fs))"
proof -
  obtain e fs1 where l: "mkpath_loop st mk [] path fs = (e, fs1)" by fastforce
  then have "I fs1" using mkpath_loop_keeps [where I = I and mk = mk, OF assms, where st = st and buf = "[]" and path = path] by simp
  then have "I (snd (knd_mkdir st mk (c_string path) fs1))" by (intro knd_mkdir_keeps [where I = I] assms(1))
  then show ?thesis using l \<open>I fs1\<close> assms(2) by (simp add: knd_mkpath_def split: option.split)
qed

definition journal_dir :: "commit_conf \<Rightarrow> byte list" where
  "journal_dir conf = cf_snapshot_path conf @ bytes_of ''agent_'' @ dec_print (cf_task_id conf) @ bytes_of ''/''"

definition journal_name :: "commit_conf \<Rightarrow> size_t \<Rightarrow> byte list" where
  "journal_name conf n = journal_dir conf @ bytes_of ''journal_'' @ dec_print (unat n) @ bytes_of ''.log''"

text \<open>The file system once the directories of the journal are made; a file that was there is as before.\<close>

definition journal_dirs :: "'f file_ops \<Rightarrow> commit_conf \<Rightarrow> 'f \<Rightarrow> 'f" where
  "journal_dirs files conf fs = snd (knd_mkpath (sys_stat files) (sys_mkdir files) (journal_dir conf) False fs)"

lemma journal_dirs_keep:
  assumes "posix_files files contents" and "sys_stat files fs q = Some Other_File"
  shows "sys_size files (journal_dirs files conf fs) q = sys_size files fs q"
    and "contents (journal_dirs files conf fs) q = contents fs q"
proof -
  let ?I = "\<lambda>fs'. sys_stat files fs' q = Some Other_File \<and> sys_size files fs' q = sys_size files fs q \<and>
    contents fs' q = contents fs q"
  have "?I (snd (sys_mkdir files fs' p))" if "?I fs'" for fs' p
    using assms(1) that by (simp add: posix_files_def Let_def)
  then have "?I (journal_dirs files conf fs)"
    unfolding journal_dirs_def using assms(2) by (intro mkpath_keeps [where I = ?I]) simp_all
  then show "sys_size files (journal_dirs files conf fs) q = sys_size files fs q"
    "contents (journal_dirs files conf fs) q = contents fs q" by simp_all
qed

lemma journal_name_no_nul: "conf_ok conf \<Longrightarrow> 0 \<notin> set (journal_name conf n)"
  by (simp add: journal_name_def journal_dir_def conf_ok_def dec_print_no_nul)

lemma journal_filename_effect:
  assumes "build_journal_filename files conf s = (None, filename, s')" and "out_ok (cw_out s)"
    and "conf_ok conf"
  shows "\<exists>out. s' = s\<lparr>cw_out := out, cw_fs := journal_dirs files conf (cw_fs s)\<rparr> \<and> out_ok out \<and> out_text out = filename \<and>
    filename = journal_name conf (cw_num_journals s)"
proof -
  let ?dir = "bytes_of ''agent_'' @ dec_print (cf_task_id conf) @ bytes_of ''/''"
    and ?log = "bytes_of ''journal_'' @ dec_print (unat (cw_num_journals s)) @ bytes_of ''.log''"
  obtain o0 o1 o2 fs out where s: "kndOutput_reset (cw_out s) = (None, o0)"
    "kndOutput_write o0 (cf_snapshot_path conf) = (None, o1)" "kndOutput_writef o1 (Some ?dir) = (None, o2)"
    "knd_mkpath (sys_stat files) (sys_mkdir files) (out_text o2) False (cw_fs s) = (None, fs)"
    "kndOutput_writef o2 (Some ?log) = (None, out)"
    "filename = out_text out" "s' = s\<lparr>cw_out := out, cw_fs := fs\<rparr>"
  proof -
    obtain e0 o2 where 1: "then_step (kndOutput_reset (cw_out s)) (\<lambda>out.
        then_step (kndOutput_write out (cf_snapshot_path conf)) (\<lambda>out. kndOutput_writef out (Some ?dir))) = (e0, o2)"
      by fastforce
    then have e0: "e0 = None" using assms(1) by (auto simp: build_journal_filename_def split: option.splits)
    then obtain o0 o1 where 2: "kndOutput_reset (cw_out s) = (None, o0)"
      "kndOutput_write o0 (cf_snapshot_path conf) = (None, o1)" "kndOutput_writef o1 (Some ?dir) = (None, o2)"
      using 1 e0 by (auto simp: then_step_None)
    obtain e fs where 3: "knd_mkpath (sys_stat files) (sys_mkdir files) (out_text o2) False (cw_fs s) = (e, fs)" by fastforce
    obtain e' out where 4: "kndOutput_writef o2 (Some ?log) = (e', out)" by fastforce
    have "e = None \<and> e' = None \<and> filename = out_text out \<and> s' = s\<lparr>cw_out := out, cw_fs := fs\<rparr>"
      using assms(1) 1 e0 3 4 unfolding build_journal_filename_def 1
      by (auto simp: Let_def split: if_splits option.splits)
    with 2 3 4 that show ?thesis by blast
  qed
  have 0: "out_ok o0 \<and> out_text o0 = []" by (rule reset_appended [OF s(1) assms(2)])
  have 1: "appended (cf_snapshot_path conf) o0 o1"
    using write_appended [OF s(2)] 0 assms(3) by (simp add: conf_ok_def)
  have id: "length (dec_print (cf_task_id conf)) \<le> 20"
    by (rule length_dec_print) (use assms(3) in \<open>simp_all add: conf_ok_def\<close>)
  have 2: "appended ?dir o1 o2" using writef_appended [OF s(3)] 1 id by (simp add: appended_def [of _ o0])
  have 3: "appended ?log o2 out"
    using writef_appended [OF s(5)] 2 length_dec_unat [of "cw_num_journals s"] by (simp add: appended_def [of _ o1])
  have dir: "out_text o2 = journal_dir conf" using 0 1 2 by (simp add: appended_def journal_dir_def)
  have name: "filename = journal_name conf (cw_num_journals s)"
    using s(6) 3 dir by (simp add: appended_def journal_name_def)
  have "fs = journal_dirs files conf (cw_fs s)" using s(4) dir by (simp add: journal_dirs_def)
  then show ?thesis using s(6,7) 3 name by (auto simp: appended_def)
qed

text \<open>The journal is full when its size and the length of its name exceed the limit.\<close>

definition journal_full :: "'f file_ops \<Rightarrow> commit_conf \<Rightarrow> ('x, 'f) commit_run \<Rightarrow> bool" where
  "journal_full files conf s \<longleftrightarrow>
     (case sys_size files (journal_dirs files conf (cw_fs s)) (journal_name conf (cw_num_journals s)) of
        None \<Rightarrow> False
      | Some n \<Rightarrow> n + length (journal_name conf (cw_num_journals s)) > cf_max_journal_size conf)"

definition next_journal :: "'f file_ops \<Rightarrow> commit_conf \<Rightarrow> ('x, 'f) commit_run \<Rightarrow> size_t" where
  "next_journal files conf s = cw_num_journals s + (if journal_full files conf s then 1 else 0)"

definition journal_start ::
  "'f file_ops \<Rightarrow> ('f \<Rightarrow> byte list \<Rightarrow> byte list) \<Rightarrow> commit_conf \<Rightarrow> ('x, 'f) commit_run \<Rightarrow> byte list" where
  "journal_start files contents conf s =
     (if journal_full files conf s \<or>
        sys_size files (journal_dirs files conf (cw_fs s)) (journal_name conf (cw_num_journals s)) = None
      then bytes_of ''{WAL'' @ [10]
      else contents (journal_dirs files conf (cw_fs s)) (journal_name conf (cw_num_journals s)))"

lemma write_file_contents:
  assumes "knd_write_file (sys_write files p) bs fs = (None, fs')" and "posix_files files contents"
  shows "contents fs' p = bs"
  using assms by (auto simp: knd_write_file_def posix_files_def split: prod.splits write_outcome.splits if_splits)

lemma append_journal_contents:
  assumes "knd_append_file (sys_append files p) bs fs = (None, fs')" and "posix_files files contents"
  shows "contents fs' p = contents fs p @ bs"
  using assms by (auto simp: knd_append_file_def posix_files_def split: prod.splits write_outcome.splits if_splits)

lemma start_journal_effect:
  assumes "start_journal files filename s = (None, s')" and "posix_files files contents" and "0 \<notin> set filename"
  shows "\<exists>fs. s' = s\<lparr>cw_fs := fs\<rparr> \<and> contents fs filename = bytes_of ''{WAL'' @ [10]"
proof -
  obtain fs where "knd_write_file (sys_write files filename) (bytes_of ''{WAL'' @ [10]) (cw_fs s) = (None, fs)"
    "s' = s\<lparr>cw_fs := fs\<rparr>"
    using assms(1) by (auto simp: start_journal_def c_string_id [OF assms(3)] split: prod.splits)
  then show ?thesis using write_file_contents [OF _ assms(2)] by blast
qed

lemma out_text_size: "out_ok out \<Longrightarrow> unat (out_size out) = length (out_text out)"
  by (simp add: out_ok_def out_text_def)

text \<open>The state after the choice: the number of the journal, and a file that is there.\<close>

definition journal_chosen ::
  "'f file_ops \<Rightarrow> ('f \<Rightarrow> byte list \<Rightarrow> byte list) \<Rightarrow> commit_conf \<Rightarrow> ('x, 'f) commit_run \<Rightarrow> byte list \<Rightarrow> ('x, 'f) commit_run \<Rightarrow> bool" where
  "journal_chosen files contents conf s filename s' \<longleftrightarrow>
     (\<exists>out fs. s' = s\<lparr>cw_out := out, cw_fs := fs, cw_num_journals := next_journal files conf s\<rparr> \<and> out_ok out \<and>
        filename = journal_name conf (next_journal files conf s) \<and>
        contents fs filename = journal_start files contents conf s)"

lemma choose_journal_effect:
  assumes "choose_journal files conf s = (None, filename, s')" and "out_ok (cw_out s)"
    and conf: "conf_ok conf" and files: "posix_files files contents"
  shows "journal_chosen files contents conf s filename s'"
proof -
  obtain file1 s1 where b: "build_journal_filename files conf s = (None, file1, s1)"
    using assms(1) by (auto simp: choose_journal_def split: prod.splits option.splits)
  define fs1 where "fs1 = journal_dirs files conf (cw_fs s)"
  from journal_filename_effect [OF b assms(2) conf] obtain out1 where
    s1: "s1 = s\<lparr>cw_out := out1, cw_fs := fs1\<rparr>" "out_ok out1" "out_text out1 = file1"
      "file1 = journal_name conf (cw_num_journals s)" unfolding fs1_def by blast
  have c1: "c_string file1 = file1" using journal_name_no_nul [OF conf] s1(4) by (simp add: c_string_id)
  have size1: "sys_size files (cw_fs s1) (c_string (out_text (cw_out s1))) = sys_size files fs1 (journal_name conf (cw_num_journals s))"
    "unat (out_size (cw_out s1)) = length (journal_name conf (cw_num_journals s))"
    using s1 c1 out_text_size [OF s1(2)] by simp_all
  show ?thesis
  proof (cases "sys_size files fs1 (journal_name conf (cw_num_journals s))")
    case None
    then have st: "start_journal files file1 s1 = (None, s')" "filename = file1"
      using assms(1) b size1 by (auto simp: choose_journal_def split: prod.splits)
    from start_journal_effect [OF st(1) files] obtain fs where
      "s' = s1\<lparr>cw_fs := fs\<rparr>" "contents fs file1 = bytes_of ''{WAL'' @ [10]"
      using journal_name_no_nul [OF conf] s1(4) by blast
    then show ?thesis using s1 st(2) None
      by (auto simp: journal_chosen_def next_journal_def journal_start_def journal_full_def fs1_def [symmetric])
  next
    case (Some n)
    show ?thesis
    proof (cases "journal_full files conf s")
      case False
      then have "filename = file1" "s' = s1"
        using assms(1) b size1 Some by (auto simp: choose_journal_def journal_full_def fs1_def [symmetric])
      then show ?thesis using s1 False Some
        by (auto simp: journal_chosen_def next_journal_def journal_start_def fs1_def [symmetric])
    next
      case True
      let ?t = "s1\<lparr>cw_num_journals := cw_num_journals s1 + 1\<rparr>"
      obtain s2 where b2: "build_journal_filename files conf ?t = (None, filename, s2)"
        and st: "start_journal files filename s2 = (None, s')"
        using assms(1) b size1 Some True
        by (auto simp: choose_journal_def journal_full_def fs1_def [symmetric] split: prod.splits option.splits)
      from journal_filename_effect [OF b2 _ conf] s1(1,2) obtain out2 fs2 where
        s2: "s2 = ?t\<lparr>cw_out := out2, cw_fs := fs2\<rparr>" "out_ok out2" "filename = journal_name conf (cw_num_journals s + 1)"
        by auto
      from start_journal_effect [OF st files] obtain fs where
        "s' = s2\<lparr>cw_fs := fs\<rparr>" "contents fs filename = bytes_of ''{WAL'' @ [10]"
        using journal_name_no_nul [OF conf] s2(3) by blast
      then show ?thesis using s1(1) s2 True unfolding journal_chosen_def
        by (intro exI [of _ out2] exI [of _ fs]) (simp add: next_journal_def journal_start_def)
    qed
  qed
qed

definition commit_record :: "kndCommit \<Rightarrow> byte list \<Rightarrow> byte list" where
  "commit_record commit body =
     bytes_of ''{commit '' @ dec_print (unat (cm_numid commit)) @ bytes_of ''{_ts '' @ dec_print (unat (cm_timestamp commit)) @
     bytes_of ''}{_size '' @ dec_print (length body) @ bytes_of ''}'' @ body @ bytes_of ''}'' @ [10]"

text \<open>The state after the commit has been written to the journal.\<close>

definition journalled ::
  "'f file_ops \<Rightarrow> ('f \<Rightarrow> byte list \<Rightarrow> byte list) \<Rightarrow> ('x \<Rightarrow> nat \<Rightarrow> knd_state_phase \<Rightarrow> byte list) \<Rightarrow> commit_conf \<Rightarrow> nat \<Rightarrow>
   ('x, 'f) commit_run \<Rightarrow> ('x, 'f) commit_run \<Rightarrow> bool" where
  "journalled files contents inst_text conf addr s s' \<longleftrightarrow>
     (let commit = (cw_commits s addr)\<lparr>cm_timestamp := cf_time conf\<rparr>;
          filename = journal_name conf (next_journal files conf s);
          body = commit_text inst_text conf (cw_objs s) (cw_classes s) (cm_class_state_refs commit)
      in cw_commits s' = (cw_commits s)(addr := commit\<lparr>cm_confirm := KND_PERSISTENT_STATE\<rparr>) \<and>
         cw_head s' = cw_head s \<and> cw_num_commits s' = cw_num_commits s \<and>
         cw_objs s' = cw_objs s \<and> cw_classes s' = cw_classes s \<and>
         cw_num_journals s' = next_journal files conf s \<and>
         contents (cw_fs s') filename = journal_start files contents conf s @ commit_record commit body)"

lemma build_WAL_effect:
  assumes "build_commit_WAL ops files conf addr s = (None, s')" and "cf_keep_local_WAL conf"
    and "out_ok (cw_out s)" and "out_ok (cw_file_out s)" and "conf_ok conf" and "short_names (cw_classes s)"
    and "inst_exports ops inst_text" and "posix_files files contents"
  shows "journalled files contents inst_text conf addr s s'"
proof -
  let ?commit = "(cw_commits s addr)\<lparr>cm_timestamp := cf_time conf\<rparr>"
  let ?s0 = "s\<lparr>cw_commits := (cw_commits s)(addr := ?commit)\<rparr>"
  obtain filename s1 where c: "choose_journal files conf ?s0 = (None, filename, s1)"
    using assms(1) by (auto simp: build_commit_WAL_def Let_def split: prod.splits option.splits)
  have full: "journal_full files conf ?s0 = journal_full files conf s"
    by (simp add: journal_full_def split: option.splits)
  have same: "next_journal files conf ?s0 = next_journal files conf s" "journal_start files contents conf ?s0 = journal_start files contents conf s"
    by (simp_all add: next_journal_def journal_start_def full)
  from choose_journal_effect [OF c _ assms(5,8)] assms(3) obtain out1 fs1 where
    s1: "s1 = ?s0\<lparr>cw_out := out1, cw_fs := fs1, cw_num_journals := next_journal files conf s\<rparr>" "out_ok out1"
      "filename = journal_name conf (next_journal files conf s)"
      "contents fs1 filename = journal_start files contents conf s"
    by (auto simp: journal_chosen_def same)
  let ?refs = "cm_class_state_refs (cw_commits s addr)"
  obtain out2 where e: "export_commit_GSL ops conf (cw_objs s) (cw_classes s) ?refs out1 = (None, out2)"
    using assms(1) c by (auto simp: build_commit_WAL_def Let_def s1(1) split: prod.splits option.splits)
  have out2: "out_ok out2" "out_text out2 = commit_text inst_text conf (cw_objs s) (cw_classes s) ?refs"
    using commit_exported [OF assms(7,6,5) e s1(2)] by auto
  let ?head = "bytes_of ''{commit '' @ dec_print (unat (cm_numid ?commit)) @ bytes_of ''{_ts '' @ dec_print (unat (cm_timestamp ?commit)) @
      bytes_of ''}{_size '' @ dec_print (unat (out_size out2)) @ bytes_of ''}''"
  obtain r f3 where w: "then_step (kndOutput_reset (cw_file_out s)) (\<lambda>file_out.
      then_step (kndOutput_writef file_out (Some ?head)) (\<lambda>file_out.
      then_step (kndOutput_write file_out (out_text out2)) (\<lambda>file_out. kndOutput_write file_out (bytes_of ''}'' @ [10])))) = (r, f3)"
    by fastforce
  have r: "r = None"
    using assms(1) c e w by (auto simp: build_commit_WAL_def Let_def s1(1) split: prod.splits option.splits)
  obtain f0 f1 f2 where f: "kndOutput_reset (cw_file_out s) = (None, f0)" "kndOutput_writef f0 (Some ?head) = (None, f1)"
    "kndOutput_write f1 (out_text out2) = (None, f2)" "kndOutput_write f2 (bytes_of ''}'' @ [10]) = (None, f3)"
    using w r by (auto simp: then_step_None)
  obtain fs where a: "knd_append_file (sys_append files (c_string filename)) (out_text f3) (cw_fs s1) = (None, fs)"
    "s' = set_confirm addr KND_PERSISTENT_STATE (s1\<lparr>cw_out := out2, cw_file_out := f3, cw_fs := fs\<rparr>)"
    using assms(1,2) c e w r by (auto simp: build_commit_WAL_def Let_def s1(1) split: prod.splits option.splits)
  have 0: "out_ok f0 \<and> out_text f0 = []" by (rule reset_appended [OF f(1) assms(4)])
  have 1: "appended ?head f0 f1"
    using writef_appended [OF f(2)] 0 length_dec_unat [of "cm_numid ?commit"] length_dec_unat [of "cm_timestamp ?commit"]
      length_dec_unat [of "out_size out2"] by simp
  have len: "length (out_text out2) < 2 ^ 64"
    using out_text_size [OF out2(1)] unat_size_t_less [of "out_size out2"] by simp
  have 2: "appended (out_text out2) f1 f2" using write_appended [OF f(3) _ len] 1 by (simp add: appended_def [of _ f0])
  have 3: "appended (bytes_of ''}'' @ [10]) f2 f3" using write_appended [OF f(4)] 2 by (simp add: appended_def [of _ f1])
  have rec: "out_text f3 = commit_record ?commit (out_text out2)"
    using appended_trans [OF 1 appended_trans [OF 2 3]] 0 out_text_size [OF out2(1)]
    by (simp add: appended_def commit_record_def)
  have "c_string filename = filename" using journal_name_no_nul [OF assms(5)] s1(3) by (simp add: c_string_id)
  with append_journal_contents [OF _ assms(8), of filename "out_text f3" "cw_fs s1" fs] a(1)
  have "contents fs filename = contents fs1 filename @ out_text f3" by (simp add: s1(1))
  then show ?thesis
    using s1(3,4) rec out2(2) by (simp add: journalled_def Let_def a(2) s1(1) set_confirm_def)
qed

section \<open>Confirming\<close>

definition same_outside :: "('x, 'f) commit_run \<Rightarrow> ('x, 'f) commit_run \<Rightarrow> bool" where
  "same_outside s s' \<longleftrightarrow> cw_out s' = cw_out s \<and> cw_file_out s' = cw_file_out s \<and> cw_fs s' = cw_fs s \<and>
     cw_head s' = cw_head s \<and> cw_num_commits s' = cw_num_commits s \<and> cw_num_journals s' = cw_num_journals s \<and>
     (\<forall>a. ce_name (cw_classes s' a) = ce_name (cw_classes s a))"

lemma same_outside_trans: "same_outside s s1 \<Longrightarrow> same_outside s1 s2 \<Longrightarrow> same_outside s s2"
  by (simp add: same_outside_def)

lemma same_outside_refl: "same_outside s s"
  by (simp add: same_outside_def)

lemma run_steps_outside:
  assumes "\<And>r s e s'. step r s = (e, s') \<Longrightarrow> same_outside s s'"
  shows "run_steps step rs s = (e, s') \<Longrightarrow> same_outside s s'"
proof (induction rs arbitrary: s)
  case Nil
  then show ?case by (simp add: same_outside_refl)
next
  case (Cons r rs)
  show ?case
  proof (cases "step r s")
    case (Pair e1 s1)
    then show ?thesis using assms [OF Pair] Cons same_outside_trans by (cases e1) auto
  qed
qed

lemma update_class_ref_outside: "update_class_ref ops commit ref s = (e, s') \<Longrightarrow> same_outside s s'"
  by (auto simp: update_class_ref_def same_outside_def Let_def
      split: option.splits knd_state_phase.splits prod.splits if_splits)

lemma update_proc_ref_outside: "update_proc_ref commit ref s = (e, s') \<Longrightarrow> same_outside s s'"
  by (auto simp: update_proc_ref_def same_outside_def Let_def
      split: option.splits knd_state_phase.splits prod.splits if_splits)

lemma update_indices_outside:
  assumes "update_indices ops commit s = (None, s')"
  shows "same_outside s s'"
proof -
  obtain s1 where "run_steps (update_class_ref ops commit) (cm_class_state_refs (cw_commits s commit)) s = (None, s1)"
    "run_steps (update_proc_ref commit) (cm_proc_state_refs (cw_commits s1 commit)) s1 = (None, s')"
    using assms by (auto simp: update_indices_def then_step_None)
  from run_steps_outside [OF _ this(1)] run_steps_outside [OF _ this(2)] show ?thesis
    using update_class_ref_outside update_proc_ref_outside by (blast intro: same_outside_trans)
qed

lemma resolve_commit_effect:
  assumes "knd_resolve_commit ops addr s = (None, s')"
  shows "\<exists>refs. cw_commits s' = (cw_commits s)(addr := (cw_commits s addr)\<lparr>cm_class_state_refs := refs\<rparr>) \<and> same_outside s s'"
  using assms by (auto simp: knd_resolve_commit_def Let_def same_outside_def split: prod.splits if_splits)

definition run_ok :: "('x, 'f) commit_run \<Rightarrow> bool" where
  "run_ok s \<longleftrightarrow> out_ok (cw_out s) \<and> out_ok (cw_file_out s) \<and> short_names (cw_classes s)"

lemma run_ok_outside: "run_ok s \<Longrightarrow> same_outside s s' \<Longrightarrow> run_ok s'"
  by (simp add: run_ok_def same_outside_def short_names_def)

lemma journal_cong:
  assumes "cw_fs s' = cw_fs s" and "cw_num_journals s' = cw_num_journals s"
  shows "next_journal files conf s' = next_journal files conf s"
    and "journal_start files contents conf s' = journal_start files contents conf s"
proof -
  have "journal_full files conf s' = journal_full files conf s" by (simp add: journal_full_def assms split: option.splits)
  then show "next_journal files conf s' = next_journal files conf s"
    "journal_start files contents conf s' = journal_start files contents conf s"
    by (simp_all add: next_journal_def journal_start_def assms)
qed

lemma confirm_effect:
  assumes "knd_confirm_commit ops files conf addr s = (None, s')" and "cf_role conf = KND_ARBITER" and "cf_keep_local_WAL conf"
    and "run_ok s" and "conf_ok conf" and "inst_exports ops inst_text" and "posix_files files contents"
  shows "cm_confirm (cw_commits s' addr) = KND_PERSISTENT_STATE \<and>
    cw_head s' = Some addr \<and> cw_num_commits s' = cw_num_commits s + 1 \<and>
    (case cw_head s of None \<Rightarrow> True
     | Some head \<Rightarrow> cm_prev (cw_commits s' addr) = Some head \<and> cm_numid (cw_commits s' addr) = cm_numid (cw_commits s head) + 1) \<and>
    (cw_commits s')(addr := cw_commits s addr) = cw_commits s \<and>
    contents (cw_fs s') (journal_name conf (next_journal files conf s)) =
      journal_start files contents conf s @
      commit_record (cw_commits s' addr)
        (commit_text inst_text conf (cw_objs s') (cw_classes s') (cm_class_state_refs (cw_commits s' addr)))"
proof -
  obtain s1 s2 s3 where s: "knd_resolve_commit ops addr s = (None, s1)" "update_indices ops addr s1 = (None, s2)"
    "check_commit_conflicts addr s2 = (None, s3)" "build_commit_WAL ops files conf addr s3 = (None, s')"
    using assms(1,2) by (auto simp: knd_confirm_commit_def knd_dedup_commit_def then_step_None)
  obtain refs where r: "cw_commits s1 = (cw_commits s)(addr := (cw_commits s addr)\<lparr>cm_class_state_refs := refs\<rparr>)" "same_outside s s1"
    using resolve_commit_effect [OF s(1)] by blast
  have c2: "cw_commits s2 = cw_commits s1" using update_indices_own [OF s(2)] by simp
  have o2: "same_outside s s2" using r(2) update_indices_outside [OF s(2)] same_outside_trans by blast
  have s3: "s3 = chained addr s2" using s(3) conflicts_vacuous [OF s(2)] by simp
  have ok3: "run_ok s3" using run_ok_outside [OF assms(4) o2] by (simp add: s3 chained_def Let_def run_ok_def)
  have j3: "next_journal files conf s3 = next_journal files conf s" "journal_start files contents conf s3 = journal_start files contents conf s"
    by (rule journal_cong; use o2 in \<open>simp add: s3 chained_def Let_def same_outside_def\<close>)+
  have "journalled files contents inst_text conf addr s3 s'"
    using build_WAL_effect [OF s(4) assms(3) _ _ assms(5) _ assms(6,7)] ok3 by (simp add: run_ok_def)
  then have w: "cw_commits s' = (cw_commits s3)(addr := (cw_commits s3 addr)\<lparr>cm_timestamp := cf_time conf, cm_confirm := KND_PERSISTENT_STATE\<rparr>)"
    "cw_head s' = cw_head s3" "cw_num_commits s' = cw_num_commits s3"
    "contents (cw_fs s') (journal_name conf (next_journal files conf s)) =
      journal_start files contents conf s @
      commit_record (cw_commits s' addr)
        (commit_text inst_text conf (cw_objs s') (cw_classes s') (cm_class_state_refs (cw_commits s' addr)))"
    by (simp_all add: journalled_def Let_def j3 commit_record_def)
  have h: "cw_head s2 = cw_head s" "cw_num_commits s2 = cw_num_commits s" using o2 by (simp_all add: same_outside_def)
  show ?thesis
    using w(4) by (auto simp: w(1-3) s3 chained_def Let_def c2 r(1) h split: option.splits)
qed

text \<open>An existing journal with room gets the record at its end; when it is full, a new one is begun.\<close>

lemma journal_start_cases:
  assumes "posix_files files contents" and "sys_stat files (cw_fs s) (journal_name conf (cw_num_journals s)) = Some Other_File"
    and "sys_size files (cw_fs s) (journal_name conf (cw_num_journals s)) = Some n"
  shows "if n + length (journal_name conf (cw_num_journals s)) \<le> cf_max_journal_size conf
    then next_journal files conf s = cw_num_journals s \<and>
      journal_start files contents conf s = contents (cw_fs s) (journal_name conf (cw_num_journals s))
    else next_journal files conf s = cw_num_journals s + 1 \<and>
      journal_start files contents conf s = bytes_of ''{WAL'' @ [10]"
  using journal_dirs_keep [OF assms(1,2), of conf] assms(3)
  by (simp add: next_journal_def journal_start_def journal_full_def)

text \<open>C39: when the arbiter, keeping a local journal, confirms a commit, it is at the head of the list of commits with
  the number after that of the former head, persistent, and no other commit is changed. The journal of the task ends with
  its record, whose size field is the length of its text. A journal that is there with room for its size
  and the length of its name keeps its contents before the record; when it is full, the next one is begun, and a new
  one has its first line before the record. (The indices of names, the entries of classes and procedures,
  the pools and the buffers of the task are changed too, and nothing is said of other files.)\<close>
theorem confirm_commit_journal:
  assumes "knd_confirm_commit ops files conf addr s = (None, s')" and "cf_role conf = KND_ARBITER" and "cf_keep_local_WAL conf"
    and "run_ok s" and "conf_ok conf" and "inst_exports ops inst_text" and "posix_files files contents"
  shows "cm_confirm (cw_commits s' addr) = KND_PERSISTENT_STATE \<and>
    cw_head s' = Some addr \<and> cw_num_commits s' = cw_num_commits s + 1 \<and>
    (case cw_head s of None \<Rightarrow> True
     | Some head \<Rightarrow> cm_prev (cw_commits s' addr) = Some head \<and> cm_numid (cw_commits s' addr) = cm_numid (cw_commits s head) + 1) \<and>
    (cw_commits s')(addr := cw_commits s addr) = cw_commits s \<and>
    contents (cw_fs s') (journal_name conf (next_journal files conf s)) =
      journal_start files contents conf s @
      commit_record (cw_commits s' addr)
        (commit_text inst_text conf (cw_objs s') (cw_classes s') (cm_class_state_refs (cw_commits s' addr))) \<and>
    (\<forall>n. sys_stat files (cw_fs s) (journal_name conf (cw_num_journals s)) = Some Other_File \<and>
        sys_size files (cw_fs s) (journal_name conf (cw_num_journals s)) = Some n \<longrightarrow>
      (if n + length (journal_name conf (cw_num_journals s)) \<le> cf_max_journal_size conf
       then next_journal files conf s = cw_num_journals s \<and>
         journal_start files contents conf s = contents (cw_fs s) (journal_name conf (cw_num_journals s))
       else next_journal files conf s = cw_num_journals s + 1 \<and>
         journal_start files contents conf s = bytes_of ''{WAL'' @ [10]))"
  using confirm_effect [OF assms] journal_start_cases [OF assms(7)] by blast

section \<open>Samples\<close>

text \<open>Two commits that create a class of the same name; the first one is confirmed.\<close>

definition demo_mempool :: kndMemPool where
  "demo_mempool = (knd_mempool_new KND_ALLOC_INCR 0 (\<lambda>_. 0))\<lparr>mp_tiny := empty_class\<lparr>pc_page_size := 64, pc_num_pages := 9\<rparr>\<rparr>"

definition demo_entry :: kndClassEntry where
  "demo_entry = \<lparr>ce_id = [], ce_numid = 0, ce_name = [65], ce_repo = 0, ce_base = None, ce_class = None,
     ce_phase = KND_CREATED, ce_dict_item = None\<rparr>"

definition demo_commit :: "nat \<Rightarrow> kndCommit" where
  "demo_commit entry = empty_commit\<lparr>cm_class_state_refs :=
     [State_Ref KND_STATE_CLASS (Some entry) (State 0 KND_CREATED None [])]\<rparr>"

definition demo_buffer :: kndOutput where
  "demo_buffer = \<lparr>out_mem = replicate 80 0, out_size = 0, out_cap = 80\<rparr>"

definition demo_run :: "(unit, byte list \<Rightarrow> byte list option) commit_run" where
  "demo_run = \<lparr>cw_commits = (\<lambda>addr. if addr = 1 then (demo_commit 1)\<lparr>cm_confirm := KND_VALID_STATE\<rparr> else demo_commit addr),
     cw_classes = (\<lambda>_. demo_entry), cw_procs = (\<lambda>_. cleared_proc_entry\<lparr>pe_phase := KND_CREATED\<rparr>),
     cw_class_name_idx = (knd_shared_dict_new 1)\<lparr>sd_hash_array :=
       [[\<lparr>sd_addr = 9, sd_phase = KND_SHARED_DICT_PENDING, sd_key = [65], sd_data = Some 1, sd_states = [1]\<rparr>]]\<rparr>,
     cw_proc_name_idx = knd_shared_dict_new 1, cw_user_mempool = demo_mempool, cw_task_mempool = demo_mempool,
     cw_head = Some 1, cw_num_commits = 1, cw_num_journals = 0, cw_out = demo_buffer, cw_file_out = demo_buffer,
     cw_objs = (),
     cw_fs = (\<lambda>p. if p = bytes_of ''/agent_0/journal_0.log'' then Some (bytes_of ''{WAL'' @ [10]) else None)\<rparr>"

definition demo_ops :: "unit obj_ops" where
  "demo_ops = \<lparr>inst_is_resolved = (\<lambda>_ _. True), class_inst_resolve = (\<lambda>_ x. (None, x)), proc_is_resolved = (\<lambda>_ _. True),
     proc_resolve = (\<lambda>_ x. (None, x)), class_inst_update_indices = (\<lambda>_ _ x. (None, x)),
     class_inst_export = (\<lambda>_ _ _ out. (None, out))\<rparr>"

definition demo_files :: "(byte list \<Rightarrow> byte list option) file_ops" where
  "demo_files = \<lparr>sys_stat = (\<lambda>fs p. Some (if fs p = None then Directory else Other_File)), sys_mkdir = (\<lambda>fs p. (Made, fs)), sys_size = (\<lambda>fs p. map_option length (fs p)),
     sys_write = (\<lambda>p fs bs. (Written (int (length bs)), fs(p := Some bs))),
     sys_append = (\<lambda>p fs bs. (Written (int (length bs)), fs(p := Some ((case fs p of None \<Rightarrow> [] | Some c \<Rightarrow> c) @ bs))))\<rparr>"

definition demo_contents :: "(byte list \<Rightarrow> byte list option) \<Rightarrow> byte list \<Rightarrow> byte list" where
  "demo_contents fs p = (case fs p of None \<Rightarrow> [] | Some c \<Rightarrow> c)"

definition demo_conf :: commit_conf where
  "demo_conf = \<lparr>cf_repo_name = [82], cf_user_name = None, cf_snapshot_path = [47], cf_max_journal_size = 99, cf_task_id = 0,
     cf_role = KND_ARBITER, cf_keep_local_WAL = True, cf_time = 5\<rparr>"

lemma demo_posix_files: "posix_files demo_files demo_contents"
  by (auto simp: posix_files_def demo_files_def demo_contents_def)

lemma demo_inst_exports: "inst_exports demo_ops (\<lambda>_ _ _. [])"
  by (simp add: inst_exports_def demo_ops_def appended_refl)

lemma demo_run_ok: "run_ok demo_run" "conf_ok demo_conf"
  by (simp_all add: run_ok_def demo_run_def demo_buffer_def out_ok_def short_names_def demo_entry_def conf_ok_def demo_conf_def)

theorem confirm_commit_journal_witness:
  "\<exists>s'. knd_confirm_commit demo_ops demo_files demo_conf 2 demo_run = (None, s') \<and>
    cm_confirm (cw_commits s' 2) = KND_PERSISTENT_STATE \<and> cw_head s' = Some 2 \<and> cm_numid (cw_commits s' 2) = 2 \<and>
    (\<exists>body. demo_contents (cw_fs s') (bytes_of ''/agent_0/journal_0.log'') =
      bytes_of ''{WAL'' @ [10] @ commit_record (cw_commits s' 2) body)"
proof -
  have "fst (knd_confirm_commit demo_ops demo_files demo_conf 2 demo_run) = None" by code_simp
  then obtain s' where s': "knd_confirm_commit demo_ops demo_files demo_conf 2 demo_run = (None, s')"
    by (cases "knd_confirm_commit demo_ops demo_files demo_conf 2 demo_run") auto
  have name: "journal_name demo_conf 0 = bytes_of ''/agent_0/journal_0.log''" by code_simp
  have run: "cw_num_journals demo_run = 0" "sys_stat demo_files (cw_fs demo_run) (journal_name demo_conf 0) = Some Other_File"
    "sys_size demo_files (cw_fs demo_run) (journal_name demo_conf 0) = Some 5"
    "demo_contents (cw_fs demo_run) (journal_name demo_conf 0) = bytes_of ''{WAL'' @ [10]"
    unfolding name by code_simp+
  have room: "5 + length (journal_name demo_conf 0) \<le> cf_max_journal_size demo_conf" unfolding name by code_simp
  note confirmed = confirm_commit_journal [OF s' _ _ demo_run_ok demo_inst_exports demo_posix_files]
  then have "next_journal demo_files demo_conf demo_run = 0 \<and>
      journal_start demo_files demo_contents demo_conf demo_run = bytes_of ''{WAL'' @ [10]"
    using run room by (simp add: demo_conf_def)
  then have "\<exists>body. demo_contents (cw_fs s') (bytes_of ''/agent_0/journal_0.log'') =
      bytes_of ''{WAL'' @ [10] @ commit_record (cw_commits s' 2) body"
    using confirmed unfolding name [symmetric] by (auto simp: demo_conf_def)
  with confirmed show ?thesis
    by (intro exI [of _ s'] conjI s') (auto simp: demo_conf_def demo_run_def demo_commit_def empty_commit_def)
qed

theorem commit_never_conflicts_witness:
  "\<exists>s'. update_indices demo_ops 2 demo_run = (None, s') \<and> check_commit_conflicts 2 s' = (None, chained 2 s') \<and>
    ce_name (cw_classes demo_run 1) = ce_name (cw_classes demo_run 2) \<and> confirmed (cw_commits demo_run 1)"
proof -
  have "fst (update_indices demo_ops 2 demo_run) = None" by code_simp
  then obtain s' where s': "update_indices demo_ops 2 demo_run = (None, s')" by (cases "update_indices demo_ops 2 demo_run") auto
  then show ?thesis using commit_never_conflicts [OF s'] by (auto simp: demo_run_def demo_commit_def confirmed_def)
qed

theorem export_commit_text_witness:
  "\<exists>out. export_commit_GSL demo_ops demo_conf () (cw_classes demo_run) (cm_class_state_refs (demo_commit 2)) demo_buffer = (None, out) \<and>
    out_text out = bytes_of ''{task{repo R{!class A}}}}'' \<and> brace_depth (out_text out) = -1"
proof -
  let ?export = "export_commit_GSL demo_ops demo_conf () (cw_classes demo_run) (cm_class_state_refs (demo_commit 2)) demo_buffer"
  have "fst ?export = None" by code_simp
  then obtain out where out: "?export = (None, out)" by (cases ?export) auto
  have "balanced_parts (\<lambda>_ _ _. []) demo_conf (cw_classes demo_run)"
    by (simp add: balanced_parts_def demo_conf_def demo_run_def demo_entry_def)
  have "out_text out = commit_text (\<lambda>_ _ _. []) demo_conf () (cw_classes demo_run) (cm_class_state_refs (demo_commit 2)) \<and>
      brace_depth (out_text out) = (if cf_user_name demo_conf = None then -1 else 0)"
    by (rule export_commit_text [OF demo_inst_exports _ demo_run_ok(2) _ \<open>balanced_parts _ _ _\<close> out])
      (use demo_run_ok(1) in \<open>simp_all add: run_ok_def demo_run_def\<close>)
  moreover have "commit_text (\<lambda>_ _ _. []) demo_conf () (cw_classes demo_run) (cm_class_state_refs (demo_commit 2)) =
      bytes_of ''{task{repo R{!class A}}}}''"
    by (simp add: commit_text_def class_ref_text_def demo_conf_def demo_run_def demo_entry_def demo_commit_def)
  ultimately show ?thesis using out by (intro exI [of _ out]) (simp add: demo_conf_def)
qed

end
