(* ===== verification/Text_Data.thy ===== *)
theory Text_Data
  imports State_Refs
begin

text \<open>
  Texts: the data of \<^verbatim>\<open>include/knd_text.h\<close>. A text is known by its address; its paragraphs with their sentences,
  clauses and statements are values. Classes, procedures and their instances are addresses.
\<close>

datatype kndSyNode =
  SyNode (sy_name: "byte list") (sy_class: "nat option") (sy_topic: "kndSyNode option") (sy_spec: "kndSyNodeSpec option")
    (sy_linear_pos: size_t) (sy_linear_len: size_t) (sy_is_terminal: bool)
and kndSyNodeSpec = SyNodeSpec (sp_name: "byte list") (sp_synode: kndSyNode)

text \<open>A declaration is the entry of a class or a procedure with the entries of instances. Declarations have addresses.\<close>

record kndClassDeclaration =
  cd_entry :: nat
  cd_insts :: "nat list"

record kndProcDeclaration =
  pd_entry :: nat
  pd_insts :: "nat list"

record kndStatement =
  sm_schema_name :: "byte list"
  sm_class_declars :: "nat list"
  sm_proc_declars :: "nat list"

record kndSentence =
  se_numid :: size_t
  se_seq :: "byte list"
  se_clause_subj :: "kndSyNode option"
  se_stm :: "kndStatement option"

record kndPar =
  pr_numid :: size_t
  pr_sents :: "kndSentence list"

text \<open>The sequence of characters of a text and of its abbreviation; a state has a value or none.\<close>

record kndText =
  tx_locale :: "byte list"
  tx_attr_var :: nat
  tx_seq :: "byte list option"
  tx_abbr :: "byte list option"
  tx_pars :: "kndPar list"
  tx_trs :: "nat list"
  tx_states :: "byte list option list"

text \<open>
  A place of a text that names something: the instance, the paragraph, the sentence and the entry that is declared.
  The index of a class by one kind of instances has the newest places first, and the indices of subclasses,
  which are pairs of the entry of a class and an index.
\<close>

record kndTextLoc =
  tl_type :: knd_state_type
  tl_src :: nat
  tl_par_id :: size_t
  tl_sent_id :: size_t
  tl_obj :: nat

record kndClassIdx =
  cx_entry :: nat
  cx_locs :: "kndTextLoc list"
  cx_num_locs :: size_t
  cx_total_locs :: size_t
  cx_children :: "(nat \<times> nat) list"
  cx_num_children :: size_t

definition new_class_idx :: kndClassIdx where
  "new_class_idx = \<lparr>cx_entry = 0, cx_locs = [], cx_num_locs = 0, cx_total_locs = 0, cx_children = [], cx_num_children = 0\<rparr>"

end
