(* ===== verification/Attr_Data.thy ===== *)
theory Attr_Data
  imports Text_Data Elem_Set
begin

text \<open>
  Attributes, their values and the references that index them: the data of \<^verbatim>\<open>include/knd_attr.h\<close>, the
  arguments of procedures of \<^verbatim>\<open>include/knd_proc_arg.h\<close> that attributes of type \<open>rel\<close> name, and the types of
  tasks. Objects are known by their addresses, a linked list is a list and an empty name is one of size 0.
\<close>

datatype knd_attr_type =
    KND_ATTR_NONE | KND_ATTR_ATOM | KND_ATTR_STR | KND_ATTR_BIN | KND_ATTR_CDATA | KND_ATTR_INNER | KND_ATTR_TEXT
  | KND_ATTR_CG | KND_ATTR_NUM | KND_ATTR_FLOAT | KND_ATTR_TIME | KND_ATTR_DATE | KND_ATTR_BOOL | KND_ATTR_PROB
  | KND_ATTR_REF | KND_ATTR_REL | KND_ATTR_ATTR_REF | KND_ATTR_PROC_REF | KND_ATTR_PROC_ARG_REF | KND_ATTR_FILE

datatype knd_rel_t = KND_REL_DEFAULT | KND_REL_CLASS_INST | KND_REL_SUBCLASS

datatype knd_classvar_t = KND_BASE_CLASS | KND_INSTANCE_BLUEPRINT

datatype knd_task_spec_type =
    KND_GET_STATE | KND_SELECT_STATE | KND_READ_STATE | KND_COMMIT_STATE | KND_INNER_STATE | KND_INNER_COMMIT_STATE
  | KND_LIQUID_STATE | KND_UNFREEZE_STATE | KND_SNAPSHOT_STATE | KND_DELTA_STATE | KND_BULK_LOAD_STATE
  | KND_RESTORE_STATE | KND_STOP_STATE

record kndAttr =
  at_id :: "byte list"
  at_numid :: size_t
  at_type :: knd_attr_type
  at_name :: "byte list"
  at_parent_class :: nat
  at_tr :: "nat list"
  at_is_a_set :: bool
  at_is_required :: bool
  at_is_indexed :: bool
  at_is_implied :: bool
  at_concise_level :: size_t
  at_ref_classname :: "byte list"
  at_ref_class_entry :: "nat option"
  at_rel_type :: knd_rel_t
  at_ref_proc_name :: "byte list"
  at_proc :: "nat option"
  at_arg_name :: "byte list"
  at_arg :: "nat option"
  at_impl_arg_name :: "byte list"
  at_impl_arg :: "nat option"

record kndAttrVar =
  av_name :: "byte list"
  av_val :: "byte list"
  av_numval :: int
  av_attr :: "nat option"
  av_implied_attr :: "nat option"
  av_class_var :: nat
  av_parent :: "nat option"
  av_children :: "nat list"
  av_is_list_item :: bool
  av_list :: "nat list"
  av_num_list_elems :: size_t
  av_class_entry :: "nat option"
  av_class_inst_name :: "byte list"
  av_class_inst_entry :: "nat option"
  av_proc_entry :: "nat option"
  av_ref_attr :: "nat option"
  av_text :: "nat option"

record kndAttrRef =
  ar_name :: "byte list"
  ar_attr :: "nat option"
  ar_attr_var :: "nat option"
  ar_class_entry :: "nat option"
  ar_next :: "nat option"

text \<open>The objects that have a class or an instance as the value of an attribute: a set, by its address.\<close>

record kndAttrHub =
  ah_topic_template :: "nat option"
  ah_attr_id :: "byte list"
  ah_attr :: "nat option"
  ah_topics :: "nat option"

text \<open>The call of an argument is the name of a procedure and the procedure, once it is resolved.\<close>

record kndProcArg =
  pa_id :: "byte list"
  pa_numid :: size_t
  pa_name :: "byte list"
  pa_classname :: "byte list"
  pa_template :: "nat option"
  pa_proc_call :: "(byte list \<times> nat option) option"

text \<open>A reference to an attribute has 48 bytes; the new page is cleared.\<close>

definition new_attr_ref :: kndAttrRef where
  "new_attr_ref = \<lparr>ar_name = [], ar_attr = None, ar_attr_var = None, ar_class_entry = None, ar_next = None\<rparr>"

definition knd_attr_ref_new :: "kndMemPool \<Rightarrow> (nat \<times> kndMemPool) result" where
  "knd_attr_ref_new mempool =
     (if pc_page_size (mp_tiny mempool) < 48 then Inl Stuck else knd_mempool_page mempool KND_MEMPAGE_TINY)"

text \<open>A hub has 64 bytes; the new page is cleared.\<close>

definition new_attr_hub :: kndAttrHub where
  "new_attr_hub = \<lparr>ah_topic_template = None, ah_attr_id = [], ah_attr = None, ah_topics = None\<rparr>"

definition knd_attr_hub_new :: "kndMemPool \<Rightarrow> (nat \<times> kndMemPool) result" where
  "knd_attr_hub_new mempool =
     (if pc_page_size (mp_tiny mempool) < 64 then Inl Stuck else knd_mempool_page mempool KND_MEMPAGE_TINY)"

end
