(* ===== verification/Proc_Data.thy ===== *)
theory Proc_Data
  imports Attr_Data
begin

text \<open>
  Procedures: the data of \<^verbatim>\<open>include/knd_proc.h\<close> and \<^verbatim>\<open>include/knd_proc_arg.h\<close>. Procedures, their entries, base
  variables, arguments, values of arguments and references to arguments are known by their addresses.
\<close>

record kndProcVar =
  pv_name :: "byte list"
  pv_proc :: "nat option"
  pv_args :: "nat list"

record kndProcArgVar =
  gv_name :: "byte list"
  gv_val :: "byte list"
  gv_template :: "nat option"
  gv_inst :: "nat option"

record kndProcArgRef =
  gr_arg :: nat
  gr_var :: "nat option"
  gr_proc :: nat

text \<open>An instance of a procedure, and its entry.\<close>

record kndProcInst =
  pi_name :: "byte list"
  pi_procvar :: "nat option"

record kndProcInstEntry =
  pe_inst_name :: "byte list"
  pe_inst :: "nat option"

text \<open>A set is known by its address.\<close>

record kndProc =
  po_entry :: nat
  po_args :: "nat list"
  po_arg_idx :: "nat option"
  po_bases :: "nat list"
  po_result_classname :: "byte list"
  po_result :: "nat option"
  po_states :: "kndState list"
  po_is_resolved :: bool
  po_resolving_in_progress :: bool
  po_base_resolving_in_progress :: bool
  po_base_is_resolved :: bool

text \<open>The arguments of a repository: the references of each name, the newest first, the set of all and their count.\<close>

record repo_args =
  rp_name_idx :: "(nat list, nat) kndSharedDict"
  rp_arg_idx :: nat
  rp_arg_id_count :: size_t

definition cleared_proc :: kndProc where
  "cleared_proc =
     \<lparr>po_entry = 0, po_args = [], po_arg_idx = None, po_bases = [], po_result_classname = [], po_result = None, po_states = [],
      po_is_resolved = False, po_resolving_in_progress = False, po_base_resolving_in_progress = False,
      po_base_is_resolved = False\<rparr>"

text \<open>An entry has 176 bytes, a reference to a procedure 24, a reference to an argument 40.\<close>

definition knd_proc_entry_new :: "kndMemPool \<Rightarrow> (nat \<times> kndMemPool) result" where
  "knd_proc_entry_new mempool =
     (if pc_page_size (mp_small_x2 mempool) < 176 then Inl Stuck else knd_mempool_page mempool KND_MEMPAGE_SMALL_X2)"

definition knd_proc_ref_new :: "kndMemPool \<Rightarrow> (nat \<times> kndMemPool) result" where
  "knd_proc_ref_new mempool =
     (if pc_page_size (mp_tiny mempool) < 24 then Inl Stuck else knd_mempool_page mempool KND_MEMPAGE_TINY)"

definition knd_proc_arg_ref_new :: "kndMemPool \<Rightarrow> (nat \<times> kndMemPool) result" where
  "knd_proc_arg_ref_new mempool =
     (if pc_page_size (mp_tiny mempool) < 40 then Inl Stuck else knd_mempool_page mempool KND_MEMPAGE_TINY)"

end
