(* ===== verification/Class_Heap.thy ===== *)
theory Class_Heap
  imports Proc_Data Dict Shared_Set
begin

text \<open>
  Classes, their entries and the repositories that name them: the data of \<^verbatim>\<open>include/knd_class.h\<close> that
  inheritance needs, the lookups of \<^verbatim>\<open>src/knd_class.c\<close> and \<^verbatim>\<open>knd_class_acquire\<close> of
  \<^verbatim>\<open>src/knd_class.read.c\<close>. Classes, entries and base class variables live at addresses
  of a heap. Reading the body of a class from a set file runs the external GSL parser and
  is the parameter \<open>fetch\<close>. The trees of sets take their nodes from the pool of the task, \<open>ch_mempool\<close>; the code takes
  them from the pool the set was made with, which is that of the task that made it.
\<close>

section \<open>Data\<close>

record kndClassVar =
  cv_id :: "byte list"
  cv_type :: knd_classvar_t
  cv_entry :: nat
  cv_attrs :: "nat list"
  cv_parent :: nat
  cv_inst :: "nat option"

text \<open>
  The references to ancestors and children are pairs of a class and its entry, the newest first, like the states.
  A set is known by its address. \<open>c_desc_state_val\<close> is the value of the newest state of the descendants.
\<close>

record kndClass =
  c_entry :: nat
  c_baseclass_vars :: "nat list"
  c_tr :: "nat list"
  c_attrs :: "nat list"
  c_attr_idx :: nat
  c_implied_attr :: "nat option"
  c_uniq :: "nat list"
  c_ancestors :: "(nat \<times> nat) list"
  c_num_ancestors :: size_t
  c_state_top :: bool
  c_num_states :: size_t
  c_states :: "kndState list"
  c_desc_states :: "kndState list"
  c_desc_state_val :: "size_t option"
  c_inst_states :: "kndState list"
  c_num_inst_states :: size_t
  c_num_snapshot_insts :: size_t
  c_inst_idx :: "nat kndSharedSet option"
  c_inst_name_idx :: "(nat, nat) kndSharedDict option"
  c_children :: "(nat \<times> nat) list"
  c_num_children :: size_t
  c_num_terminals :: size_t
  c_descendants :: "nat option"
  c_attr_hubs :: "nat list"
  c_text_idxs :: "text_ref list"
  c_resolving_in_progress :: bool
  c_is_resolved :: bool
  c_base_resolving_in_progress :: bool
  c_base_is_resolved :: bool
  c_indexing_in_progress :: bool
  c_is_indexed :: bool

text \<open>An instance of a class and its entry in the indices.\<close>

record kndClassInst =
  ci_name :: "byte list"
  ci_alias :: "byte list"
  ci_tr :: "nat list"
  ci_linear_pos :: size_t
  ci_linear_len :: size_t
  ci_entry :: nat
  ci_class_var :: nat
  ci_states :: "kndState list"
  ci_attr_hubs :: "nat list"
  ci_resolving_in_progress :: bool
  ci_is_resolved :: bool

record kndClassInstEntry =
  ie_id :: "byte list"
  ie_name :: "byte list"
  ie_blueprint :: "nat option"
  ie_inst :: "nat option"
  ie_attr_idxs :: "nat option list"

text \<open>A repository with the chain of its base repositories; the name of an entry gives its address.\<close>

datatype kndRepo =
  Repo (repo_class_name_idx: "(nat, nat) kndSharedDict") (repo_class_idx: "nat kndSharedSet")
    (repo_base: "kndRepo option") (repo_root_class: nat)

text \<open>The attributes of a repository: the newest reference of each name, the set of all and their count.\<close>

record repo_attrs =
  ra_name_idx :: "(nat, nat) kndSharedDict"
  ra_attr_idx :: nat
  ra_attr_id_count :: size_t

text \<open>
  The objects, by their addresses: sets hold the references to attributes and to arguments; a repository has its
  classes, the chain of its base repositories, its attributes, its procedures by name, its arguments and the counter
  of its class identifiers; a class reference in a set has an entry. There are pools of the
  task, of the context of its user and of the user of the shard.
\<close>

record class_heap =
  ch_classes :: "nat \<Rightarrow> kndClass"
  ch_entries :: "nat \<Rightarrow> kndClassEntry"
  ch_vars :: "nat \<Rightarrow> kndClassVar"
  ch_repos :: "nat \<Rightarrow> kndRepo"
  ch_repo_bases :: "nat \<Rightarrow> nat list"
  ch_task_class_name_idx :: "nat kndDict"
  ch_sets :: "nat \<Rightarrow> nat kndSet"
  ch_attrs :: "nat \<Rightarrow> kndAttr"
  ch_attr_vars :: "nat \<Rightarrow> kndAttrVar"
  ch_attr_refs :: "nat \<Rightarrow> kndAttrRef"
  ch_task_attr_name_idx :: "nat kndDict"
  ch_repo_attrs :: "nat \<Rightarrow> repo_attrs"
  ch_repo_class_id_count :: "nat \<Rightarrow> size_t"
  ch_proc_name_idx :: "nat \<Rightarrow> (nat, nat) kndSharedDict"
  ch_proc_entries :: "nat \<Rightarrow> kndProcEntry"
  ch_procs :: "nat \<Rightarrow> kndProc"
  ch_proc_vars :: "nat \<Rightarrow> kndProcVar"
  ch_args :: "nat \<Rightarrow> kndProcArg"
  ch_arg_vars :: "nat \<Rightarrow> kndProcArgVar"
  ch_arg_refs :: "nat \<Rightarrow> kndProcArgRef"
  ch_proc_insts :: "nat \<Rightarrow> kndProcInst"
  ch_proc_inst_entries :: "nat \<Rightarrow> kndProcInstEntry"
  ch_repo_args :: "nat \<Rightarrow> repo_args"
  ch_task_arg_name_idx :: "nat kndDict"
  ch_hubs :: "nat \<Rightarrow> kndAttrHub"
  ch_class_refs :: "nat \<Rightarrow> nat"
  ch_insts :: "nat \<Rightarrow> kndClassInst"
  ch_inst_entries :: "nat \<Rightarrow> kndClassInstEntry"
  ch_texts :: "nat \<Rightarrow> kndText"
  ch_class_declars :: "nat \<Rightarrow> kndClassDeclaration"
  ch_proc_declars :: "nat \<Rightarrow> kndProcDeclaration"
  ch_class_idxs :: "nat \<Rightarrow> kndClassIdx"
  ch_mempool :: kndMemPool
  ch_user_mempool :: kndMemPool
  ch_shard_user_mempool :: kndMemPool

definition class_repo :: "class_heap \<Rightarrow> nat \<Rightarrow> kndRepo" where
  "class_repo h c = ch_repos h (ce_repo (ch_entries h (c_entry (ch_classes h c))))"

definition update_class :: "nat \<Rightarrow> (kndClass \<Rightarrow> kndClass) \<Rightarrow> class_heap \<Rightarrow> class_heap" where
  "update_class c f h = h\<lparr>ch_classes := (ch_classes h)(c := f (ch_classes h c))\<rparr>"

definition update_entry :: "nat \<Rightarrow> (kndClassEntry \<Rightarrow> kndClassEntry) \<Rightarrow> class_heap \<Rightarrow> class_heap" where
  "update_entry e f h = h\<lparr>ch_entries := (ch_entries h)(e := f (ch_entries h e))\<rparr>"

section \<open>Allocation\<close>

text \<open>A reference has 64 bytes, a variable 112 and an entry 96.\<close>

definition knd_class_ref_new :: "kndMemPool \<Rightarrow> (nat \<times> kndMemPool) result" where
  "knd_class_ref_new mempool =
     (if pc_page_size (mp_tiny mempool) < 64 then Inl Stuck else knd_mempool_page mempool KND_MEMPAGE_TINY)"

definition knd_class_var_new :: "kndMemPool \<Rightarrow> (nat \<times> kndMemPool) result" where
  "knd_class_var_new mempool =
     (if pc_page_size (mp_small mempool) < 112 then Inl Stuck else knd_mempool_page mempool KND_MEMPAGE_SMALL)"

definition knd_class_entry_new :: "kndMemPool \<Rightarrow> (nat \<times> kndMemPool) result" where
  "knd_class_entry_new mempool =
     (if pc_page_size (mp_small mempool) < 96 then Inl Stuck else knd_mempool_page mempool KND_MEMPAGE_SMALL)"

text \<open>A new class is cleared but for its set of attributes; it has 328 bytes.\<close>

definition cleared_class :: kndClass where
  "cleared_class =
     \<lparr>c_entry = 0, c_baseclass_vars = [], c_tr = [], c_attrs = [], c_attr_idx = 0, c_implied_attr = None, c_uniq = [],
      c_ancestors = [], c_num_ancestors = 0, c_state_top = False, c_num_states = 0, c_states = [], c_desc_states = [],
      c_desc_state_val = None,
      c_inst_states = [], c_num_inst_states = 0, c_num_snapshot_insts = 0, c_inst_idx = None, c_inst_name_idx = None, c_children = [],
      c_num_children = 0, c_num_terminals = 0, c_descendants = None, c_attr_hubs = [], c_text_idxs = [], c_resolving_in_progress = False,
      c_is_resolved = False, c_base_resolving_in_progress = False, c_base_is_resolved = False,
      c_indexing_in_progress = False, c_is_indexed = False\<rparr>"

text \<open>A new set is known by the page that it is on.\<close>

definition new_set :: "kndMemPool \<Rightarrow> class_heap \<Rightarrow> (failure \<times> kndMemPool) + (nat \<times> class_heap \<times> kndMemPool)" where
  "new_set mempool h =
     (case (knd_mempool_page mempool KND_MEMPAGE_SMALL, knd_set_new mempool) of
        (Inr (p, _), (None, Some attr_set, mempool)) \<Rightarrow> Inr (p, h\<lparr>ch_sets := (ch_sets h)(p := attr_set)\<rparr>, mempool)
      | (_, (Some e, _, mempool)) \<Rightarrow> Inl (e, mempool)
      | (_, (None, _, mempool)) \<Rightarrow> Inl (Stuck, mempool))"

definition knd_class_new :: "kndMemPool \<Rightarrow> class_heap \<Rightarrow> (failure \<times> kndMemPool) + (nat \<times> class_heap \<times> kndMemPool)" where
  "knd_class_new mempool h =
     (if pc_page_size (mp_small_x4 mempool) < 328 then Inl (Stuck, mempool)
      else
        (case knd_mempool_page mempool KND_MEMPAGE_SMALL_X4 of
           Inl e \<Rightarrow> Inl (e, mempool)
         | Inr (page, mempool) \<Rightarrow>
             (case new_set mempool h of
                Inl e \<Rightarrow> Inl e
              | Inr (attr_idx, h, mempool) \<Rightarrow>
                  Inr (page, update_class page (\<lambda>_. cleared_class\<lparr>c_attr_idx := attr_idx\<rparr>) h, mempool))))"

section \<open>Finding a class\<close>

type_synonym class_fetch = "nat \<Rightarrow> class_heap \<Rightarrow> (class_heap, nat) outcome"

definition knd_class_acquire :: "class_fetch \<Rightarrow> nat \<Rightarrow> class_heap \<Rightarrow> (class_heap, nat) outcome" where
  "knd_class_acquire fetch entry h =
     (case ce_class (ch_entries h entry) of
        Some c \<Rightarrow> Inr (c, h)
      | None \<Rightarrow>
          bind_out (fetch entry h) (\<lambda>c h.
            Inr (c, update_entry entry (\<lambda>e. e\<lparr>ce_class := Some c\<rparr>) (update_class c (\<lambda>k. k\<lparr>c_entry := entry\<rparr>) h))))"

text \<open>The newest state tells whether the class was removed.\<close>

definition removed_state :: "kndClass \<Rightarrow> failure option" where
  "removed_state c =
     (if c_num_states c = 0 then None
      else
        (case c_states c of
           [] \<Rightarrow> Some Stuck
         | state # _ \<Rightarrow> if st_phase state = KND_REMOVED then Some (Err knd_NO_MATCH) else None))"

definition check_removed :: "nat \<Rightarrow> class_heap \<Rightarrow> (class_heap, nat) outcome" where
  "check_removed c h = (case removed_state (ch_classes h c) of None \<Rightarrow> Inr (c, h) | Some e \<Rightarrow> Inl (e, h))"

fun knd_get_class :: "class_fetch \<Rightarrow> kndRepo \<Rightarrow> byte list \<Rightarrow> class_heap \<Rightarrow> (class_heap, nat) outcome" where
  "knd_get_class fetch (Repo class_name_idx class_idx base root_class) name h =
     (case knd_shared_dict_get class_name_idx name of
        Inl e \<Rightarrow> Inl (e, h)
      | Inr None \<Rightarrow>
          (case base of Some base \<Rightarrow> knd_get_class fetch base name h | None \<Rightarrow> Inl (Err knd_NO_MATCH, h))
      | Inr (Some entry) \<Rightarrow> bind_out (knd_class_acquire fetch entry h) check_removed)"

fun knd_get_class_entry :: "kndRepo \<Rightarrow> byte list \<Rightarrow> bool \<Rightarrow> nat result" where
  "knd_get_class_entry (Repo class_name_idx class_idx base root_class) name check_ancestors =
     (case knd_shared_dict_get class_name_idx name of
        Inl e \<Rightarrow> Inl e
      | Inr None \<Rightarrow>
          (case base of
             Some base \<Rightarrow> if check_ancestors then knd_get_class_entry base name check_ancestors else Inl (Err knd_NO_MATCH)
           | None \<Rightarrow> Inl (Err knd_NO_MATCH))
      | Inr (Some entry) \<Rightarrow> Inr entry)"

fun knd_get_class_entry_by_id :: "kndRepo \<Rightarrow> byte list \<Rightarrow> nat result" where
  "knd_get_class_entry_by_id (Repo class_name_idx class_idx base root_class) key =
     (case knd_shared_set_get class_idx key of
        Inl e \<Rightarrow>
          (case base of
             Some base \<Rightarrow> if e = Stuck then Inl Stuck else knd_get_class_entry_by_id base key
           | None \<Rightarrow> if e = Stuck then Inl Stuck else Inl (Err knd_NO_MATCH))
      | Inr entry \<Rightarrow> Inr entry)"

fun knd_get_class_by_id :: "class_fetch \<Rightarrow> kndRepo \<Rightarrow> byte list \<Rightarrow> class_heap \<Rightarrow> (class_heap, nat) outcome" where
  "knd_get_class_by_id fetch (Repo class_name_idx class_idx base root_class) key h =
     (case knd_shared_set_get class_idx key of
        Inl e \<Rightarrow>
          (case base of
             Some base \<Rightarrow> if e = Stuck then Inl (Stuck, h) else knd_get_class_by_id fetch base key h
           | None \<Rightarrow> if e = Stuck then Inl (Stuck, h) else Inl (Err knd_NO_MATCH, h))
      | Inr entry \<Rightarrow> bind_out (knd_class_acquire fetch entry h) check_removed)"

section \<open>Inheritance\<close>

text \<open>Whether \<open>self\<close> is among the ancestors of \<open>child\<close>, or the class that \<open>self\<close> was cloned from is.\<close>

fun is_base_in :: "nat \<Rightarrow> nat option \<Rightarrow> (nat \<times> nat) list \<Rightarrow> class_heap \<Rightarrow> failure option" where
  "is_base_in entry base [] h = Some (Err knd_NO_MATCH)"
| "is_base_in entry base ((_, ref_entry) # refs) h =
     (if ref_entry = entry then None
      else
        (case base of
           None \<Rightarrow> is_base_in entry base refs h
         | Some base_entry \<Rightarrow>
             (case ce_class (ch_entries h base_entry) of
                None \<Rightarrow> Some Stuck
              | Some c \<Rightarrow> if c_entry (ch_classes h c) = ref_entry then None else is_base_in entry base refs h)))"

definition knd_is_base :: "nat \<Rightarrow> nat \<Rightarrow> class_heap \<Rightarrow> failure option" where
  "knd_is_base self child h =
     (let entry = c_entry (ch_classes h self) in
      is_base_in entry (ce_base (ch_entries h entry)) (c_ancestors (ch_classes h child)) h)"

section \<open>Samples\<close>

definition sample_index :: "nat kndDict" where
  "sample_index = \<lparr>hash_array = [[]], dict_size = 1, num_keys = 0, num_items = 0\<rparr>"

definition sample_attr :: kndAttr where
  "sample_attr = \<lparr>at_id = [49], at_numid = 1, at_type = KND_ATTR_STR, at_name = [120], at_parent_class = 0, at_tr = [], at_is_a_set = False, at_is_required = False,
     at_is_indexed = False, at_is_implied = False, at_concise_level = 0,
     at_ref_classname = [], at_ref_class_entry = None, at_rel_type = KND_REL_DEFAULT,
     at_ref_proc_name = [], at_proc = None, at_arg_name = [], at_arg = None, at_impl_arg_name = [], at_impl_arg = None\<rparr>"

definition sample_attr_var :: kndAttrVar where
  "sample_attr_var = \<lparr>av_name = [120], av_val = [], av_numval = 0, av_attr = None, av_implied_attr = None, av_class_var = 0,
     av_parent = None, av_children = [], av_is_list_item = False, av_list = [], av_num_list_elems = 0, av_class_entry = None,
     av_class_inst_name = [], av_class_inst_entry = None, av_proc_entry = None, av_ref_attr = None, av_text = None\<rparr>"

definition sample_text :: kndText where
  "sample_text = \<lparr>tx_locale = bytes_of ''en'', tx_attr_var = 0, tx_seq = Some [65], tx_abbr = None, tx_pars = [], tx_trs = [], tx_states = []\<rparr>"

definition sample_arg :: kndProcArg where
  "sample_arg = \<lparr>pa_id = [], pa_numid = 0, pa_name = [], pa_classname = [], pa_template = None, pa_proc_call = None\<rparr>"

definition sample_heap :: class_heap where
  "sample_heap =
     \<lparr>ch_classes = (\<lambda>_. cleared_class),
      ch_entries = (\<lambda>_. \<lparr>ce_id = [], ce_numid = 0, ce_name = [], ce_repo = 0, ce_base = None, ce_class = None,
        ce_phase = KND_CREATED, ce_dict_item = None\<rparr>),
      ch_vars = (\<lambda>_. \<lparr>cv_id = [], cv_type = KND_BASE_CLASS, cv_entry = 0, cv_attrs = [], cv_parent = 0, cv_inst = None\<rparr>),
      ch_repos = (\<lambda>_. Repo sample_shared sample_shared_set None 0), ch_repo_bases = (\<lambda>_. []), ch_task_class_name_idx = sample_index,
      ch_sets = (\<lambda>_. sample_set), ch_attrs = (\<lambda>_. sample_attr), ch_attr_vars = (\<lambda>_. sample_attr_var),
      ch_attr_refs = (\<lambda>_. new_attr_ref), ch_task_attr_name_idx = sample_index,
      ch_repo_attrs = (\<lambda>_. \<lparr>ra_name_idx = sample_shared, ra_attr_idx = 0, ra_attr_id_count = 0\<rparr>),
      ch_repo_class_id_count = (\<lambda>_. 0), ch_proc_name_idx = (\<lambda>_. sample_shared), ch_proc_entries = (\<lambda>_. cleared_proc_entry),
      ch_procs = (\<lambda>_. cleared_proc), ch_proc_vars = (\<lambda>_. \<lparr>pv_name = [], pv_proc = None, pv_args = []\<rparr>),
      ch_args = (\<lambda>_. sample_arg), ch_arg_vars = (\<lambda>_. \<lparr>gv_name = [], gv_val = [], gv_template = None, gv_inst = None\<rparr>),
      ch_arg_refs = (\<lambda>_. \<lparr>gr_arg = 0, gr_var = None, gr_proc = 0\<rparr>),
      ch_proc_insts = (\<lambda>_. \<lparr>pi_name = [], pi_procvar = None\<rparr>),
      ch_proc_inst_entries = (\<lambda>_. \<lparr>pe_inst_name = [], pe_inst = None\<rparr>),
      ch_repo_args = (\<lambda>_. \<lparr>rp_name_idx = knd_shared_dict_new 1, rp_arg_idx = 0, rp_arg_id_count = 0\<rparr>), ch_task_arg_name_idx = sample_index,
      ch_hubs = (\<lambda>_. new_attr_hub), ch_class_refs = (\<lambda>_. 0),
      ch_insts = (\<lambda>_. \<lparr>ci_name = [65], ci_alias = [], ci_tr = [], ci_linear_pos = 0, ci_linear_len = 0, ci_entry = 0, ci_class_var = 0, ci_states = [], ci_attr_hubs = [], ci_resolving_in_progress = False, ci_is_resolved = False\<rparr>),
      ch_inst_entries = (\<lambda>_. \<lparr>ie_id = [], ie_name = [], ie_blueprint = None, ie_inst = None, ie_attr_idxs = []\<rparr>),
      ch_texts = (\<lambda>_. sample_text),
      ch_class_declars = (\<lambda>_. \<lparr>cd_entry = 0, cd_insts = []\<rparr>), ch_proc_declars = (\<lambda>_. \<lparr>pd_entry = 0, pd_insts = []\<rparr>),
      ch_class_idxs = (\<lambda>_. new_class_idx),
      ch_mempool = sample_pool KND_ALLOC_INCR, ch_user_mempool = sample_pool KND_ALLOC_INCR, ch_shard_user_mempool = sample_pool KND_ALLOC_INCR\<rparr>"

end
