(* ===== verification/Class_Base.thy ===== *)
theory Class_Base
  imports Class_Heap
begin

text \<open>
  Resolving the base classes of a class: \<^verbatim>\<open>link_ancestor\<close>, \<^verbatim>\<open>link_baseclass\<close>, \<^verbatim>\<open>resolve_baseclasses\<close>,
  \<^verbatim>\<open>resolve_base\<close> and \<^verbatim>\<open>knd_resolve_class_ref\<close> of \<^verbatim>\<open>src/knd_class.resolve.c\<close>. The two functions that call
  each other take fuel and give \<open>None\<close> when it runs out; \<open>class_base_returns\<close> shows how much is enough.
\<close>

section \<open>Linking\<close>

definition add_ancestor :: "nat \<Rightarrow> nat \<Rightarrow> class_heap \<Rightarrow> failure option \<times> class_heap" where
  "add_ancestor self base h =
     (case knd_class_ref_new (ch_mempool h) of
        Inl e \<Rightarrow> (Some e, h)
      | Inr (_, mempool) \<Rightarrow>
          (None, update_class self (\<lambda>c. c\<lparr>c_ancestors := (base, c_entry (ch_classes h base)) # c_ancestors c,
             c_num_ancestors := c_num_ancestors c + 1\<rparr>) (h\<lparr>ch_mempool := mempool\<rparr>)))"

text \<open>An entry of another repository is replaced by the one of its name in the index of the task, if there is one.\<close>

definition link_ancestor :: "nat \<Rightarrow> nat \<Rightarrow> class_heap \<Rightarrow> failure option \<times> class_heap" where
  "link_ancestor self base_entry h =
     (let base = ce_class (ch_entries h base_entry) in
      if base \<noteq> None \<and> the base \<in> fst ` set (c_ancestors (ch_classes h self)) then (None, h)
      else
        (case (if ce_repo (ch_entries h base_entry) \<noteq> ce_repo (ch_entries h (c_entry (ch_classes h self))) then
                 (case knd_dict_get (ch_task_class_name_idx h) (ce_name (ch_entries h base_entry)) of
                    Inl e \<Rightarrow> Inl e
                  | Inr None \<Rightarrow> Inr base
                  | Inr (Some prev_entry) \<Rightarrow> Inr (ce_class (ch_entries h prev_entry)))
               else Inr base) of
           Inl e \<Rightarrow> (Some e, h)
         | Inr None \<Rightarrow> (case knd_class_ref_new (ch_mempool h) of Inl e \<Rightarrow> (Some e, h) | Inr _ \<Rightarrow> (Some Stuck, h))
         | Inr (Some base) \<Rightarrow> add_ancestor self base h))"

fun link_ancestors :: "nat \<Rightarrow> (nat \<times> nat) list \<Rightarrow> class_heap \<Rightarrow> failure option \<times> class_heap" where
  "link_ancestors self [] h = (None, h)"
| "link_ancestors self ((_, entry) # refs) h =
     (if (case ce_class (ch_entries h entry) of None \<Rightarrow> False | Some c \<Rightarrow> c_state_top (ch_classes h c))
      then link_ancestors self refs h
      else then_step (link_ancestor self entry h) (link_ancestors self refs))"

definition link_baseclass :: "nat \<Rightarrow> nat \<Rightarrow> class_heap \<Rightarrow> failure option \<times> class_heap" where
  "link_baseclass self base h =
     then_step (link_ancestors self (c_ancestors (ch_classes h base)) h) (add_ancestor self base)"

section \<open>Resolving\<close>

text \<open>The class that a variable names, looked up by its id or else by its name.\<close>

definition find_baseclass :: "class_fetch \<Rightarrow> nat \<Rightarrow> nat \<Rightarrow> class_heap \<Rightarrow> (class_heap, nat) outcome" where
  "find_baseclass fetch self v h =
     (let cvar = ch_vars h v; repo = class_repo h self in
      if cv_id cvar \<noteq> [] then
        (case knd_get_class_by_id fetch repo (cv_id cvar) h of
           Inl (e, h) \<Rightarrow> Inl (if e = Stuck then Stuck else Err knd_FAIL, h)
         | Inr (c, h) \<Rightarrow> Inr (c, h\<lparr>ch_vars := (ch_vars h)(v := (ch_vars h v)\<lparr>cv_entry := c_entry (ch_classes h c)\<rparr>)\<rparr>))
      else if ce_name (ch_entries h (cv_entry cvar)) = [] then Inl (Err knd_FAIL, h)
      else knd_get_class fetch repo (ce_name (ch_entries h (cv_entry cvar))) h)"

fun resolve_base :: "class_fetch \<Rightarrow> nat \<Rightarrow> nat \<Rightarrow> class_heap \<Rightarrow> (failure option \<times> class_heap) option"
  and resolve_baseclass_vars ::
    "class_fetch \<Rightarrow> nat \<Rightarrow> nat \<Rightarrow> nat list \<Rightarrow> class_heap \<Rightarrow> (failure option \<times> class_heap) option" where
  "resolve_base fetch 0 self h = None"
| "resolve_base fetch (Suc fuel) self h =
     (if c_base_is_resolved (ch_classes h self) then Some (Some Stuck, h)
      else if c_base_resolving_in_progress (ch_classes h self) then Some (Some (Err knd_FAIL), h)
      else
        resolve_baseclass_vars fetch fuel self (c_baseclass_vars (ch_classes h self))
          (update_class self (\<lambda>c. c\<lparr>c_base_resolving_in_progress := True\<rparr>) h))"
| "resolve_baseclass_vars fetch fuel self [] h =
     Some (None, update_class self (\<lambda>c. c\<lparr>c_base_is_resolved := True\<rparr>) h)"
| "resolve_baseclass_vars fetch fuel self (v # vs) h =
     (if ce_class (ch_entries h (cv_entry (ch_vars h v))) = Some self then resolve_baseclass_vars fetch fuel self vs h
      else
        (case find_baseclass fetch self v h of
           Inl (e, h) \<Rightarrow> Some (Some e, h)
         | Inr (c, h) \<Rightarrow>
             if c = self then Some (Some (Err knd_FAIL), h)
             else
               (case (if c_base_is_resolved (ch_classes h c) then Some (None, h) else resolve_base fetch fuel c h) of
                  None \<Rightarrow> None
                | Some (Some e, h) \<Rightarrow> Some (Some e, h)
                | Some (None, h) \<Rightarrow>
                    (case link_baseclass self c h of
                       (Some e, h) \<Rightarrow> Some (Some e, h)
                     | (None, h) \<Rightarrow>
                         resolve_baseclass_vars fetch fuel self vs
                           (update_entry (cv_entry (ch_vars h v)) (\<lambda>e. e\<lparr>ce_class := Some c\<rparr>) h)))))"

definition resolve_baseclasses :: "class_fetch \<Rightarrow> nat \<Rightarrow> nat \<Rightarrow> class_heap \<Rightarrow> (failure option \<times> class_heap) option" where
  "resolve_baseclasses fetch fuel self h =
     resolve_baseclass_vars fetch fuel self (c_baseclass_vars (ch_classes h self)) h"

definition resolve_if_needed :: "class_fetch \<Rightarrow> nat \<Rightarrow> nat \<Rightarrow> class_heap \<Rightarrow> (failure option \<times> class_heap) option" where
  "resolve_if_needed fetch fuel c h =
     (if c_base_is_resolved (ch_classes h c) then Some (None, h) else resolve_base fetch fuel c h)"

text \<open>
  The class of a name that shall inherit from \<open>base\<close>, if one is given. During the initial load the entry is
  taken from the index of the repository alone and \<open>base\<close> itself is accepted.
\<close>

definition find_class_ref :: "class_fetch \<Rightarrow> bool \<Rightarrow> nat \<Rightarrow> byte list \<Rightarrow> class_heap \<Rightarrow> (class_heap, nat) outcome" where
  "find_class_ref fetch bulk_load self name h =
     (if bulk_load then
        (case knd_shared_dict_get (repo_class_name_idx (class_repo h self)) name of
           Inl e \<Rightarrow> Inl (e, h)
         | Inr None \<Rightarrow> Inl (Err knd_NO_MATCH, h)
         | Inr (Some entry) \<Rightarrow>
             (case ce_class (ch_entries h entry) of None \<Rightarrow> Inl (Err knd_NO_MATCH, h) | Some c \<Rightarrow> Inr (c, h)))
      else knd_get_class fetch (class_repo h self) name h)"

definition knd_resolve_class_ref ::
  "class_fetch \<Rightarrow> nat \<Rightarrow> bool \<Rightarrow> nat \<Rightarrow> byte list \<Rightarrow> nat option \<Rightarrow> class_heap \<Rightarrow> (class_heap, nat) outcome option" where
  "knd_resolve_class_ref fetch fuel bulk_load self name base h =
     (if name = [] then Some (Inl (Stuck, h))
      else
        (case find_class_ref fetch bulk_load self name h of
           Inl e \<Rightarrow> Some (Inl e)
         | Inr (c, h) \<Rightarrow>
             (case resolve_if_needed fetch fuel c h of
                None \<Rightarrow> None
              | Some (Some e, h) \<Rightarrow> Some (Inl (e, h))
              | Some (None, h) \<Rightarrow>
                  (case base of
                     None \<Rightarrow> Some (Inr (c, h))
                   | Some base \<Rightarrow>
                       (case resolve_if_needed fetch fuel base h of
                          None \<Rightarrow> None
                        | Some (Some e, h) \<Rightarrow> Some (Inl (e, h))
                        | Some (None, h) \<Rightarrow>
                            if bulk_load \<and> base = c then Some (Inr (c, h))
                            else (case knd_is_base base c h of Some e \<Rightarrow> Some (Inl (e, h)) | None \<Rightarrow> Some (Inr (c, h))))))))"

end
