(* ===== verification/Class_Loaded.thy ===== *)
theory Class_Loaded
  imports Class_Base
begin

text \<open>
  Resolving base classes among a finite set of loaded classes: the lookups find their class without a change
  of the heap, and \<open>resolve_base\<close> returns, keeping the data that the lookups read. The measure is the number
  of classes that are not marked as being resolved.
\<close>

section \<open>Loaded classes\<close>

text \<open>
  The class that a variable of \<open>c\<close> names. In a heap with all classes loaded every entry that a name finds has its
  class, so that the heap does not change by a lookup, and the entries of the variables
  have no class or the one that their name finds.
\<close>

definition base_target :: "class_heap \<Rightarrow> nat \<Rightarrow> nat \<Rightarrow> nat option" where
  "base_target h c v =
     (case knd_get_class_entry (class_repo h c) (ce_name (ch_entries h (cv_entry (ch_vars h v)))) True of
        Inl _ \<Rightarrow> None
      | Inr e \<Rightarrow> ce_class (ch_entries h e))"

definition var_ok :: "nat set \<Rightarrow> class_heap \<Rightarrow> nat \<Rightarrow> nat \<Rightarrow> bool" where
  "var_ok C h c v \<longleftrightarrow> cv_id (ch_vars h v) = [] \<and> ce_name (ch_entries h (cv_entry (ch_vars h v))) \<noteq> [] \<and>
     (\<exists>t\<in>C. base_target h c v = Some t \<and> ce_class (ch_entries h (cv_entry (ch_vars h v))) \<in> {None, Some t})"

definition class_loaded :: "nat set \<Rightarrow> nat \<Rightarrow> class_heap \<Rightarrow> nat \<Rightarrow> bool" where
  "class_loaded C r h c \<longleftrightarrow> ce_class (ch_entries h (c_entry (ch_classes h c))) = Some c \<and>
     ce_repo (ch_entries h (c_entry (ch_classes h c))) = r \<and> removed_state (ch_classes h c) = None \<and>
     (\<forall>v\<in>set (c_baseclass_vars (ch_classes h c)). var_ok C h c v)"

definition loaded :: "nat set \<Rightarrow> nat \<Rightarrow> class_heap \<Rightarrow> bool" where
  "loaded C r h \<longleftrightarrow> finite C \<and> (\<forall>c\<in>C. class_loaded C r h c)"

lemma loadedD:
  assumes "loaded C r h" and "c \<in> C"
  shows "ce_class (ch_entries h (c_entry (ch_classes h c))) = Some c" "class_repo h c = ch_repos h r"
    "ce_repo (ch_entries h (c_entry (ch_classes h c))) = r"
    "removed_state (ch_classes h c) = None"
    "v \<in> set (c_baseclass_vars (ch_classes h c)) \<Longrightarrow> var_ok C h c v"
  using assms by (simp_all add: loaded_def class_loaded_def class_repo_def)

lemma get_class_found:
  "knd_get_class_entry repo name True = Inr e \<Longrightarrow> ce_class (ch_entries h e) = Some c \<Longrightarrow>
   removed_state (ch_classes h c) = None \<Longrightarrow> knd_get_class fetch repo name h = Inr (c, h)"
proof (induction repo name True rule: knd_get_class_entry.induct)
  case (1 class_name_idx class_idx base root_class name)
  show ?case
  proof (cases "knd_shared_dict_get class_name_idx name")
    case (Inr found)
    then show ?thesis using 1 by (cases found) (auto simp: knd_class_acquire_def check_removed_def split: option.splits)
  qed (use 1 in simp)
qed

lemma find_baseclass_loaded:
  assumes "loaded C r h" and "c \<in> C" and "v \<in> set (c_baseclass_vars (ch_classes h c))"
  obtains t where "t \<in> C" "base_target h c v = Some t" "find_baseclass fetch c v h = Inr (t, h)"
proof -
  have v: "var_ok C h c v" by (rule loadedD(5) [OF assms])
  then obtain t where t: "t \<in> C" "base_target h c v = Some t" by (auto simp: var_ok_def)
  obtain e where e: "knd_get_class_entry (class_repo h c) (ce_name (ch_entries h (cv_entry (ch_vars h v)))) True = Inr e"
    "ce_class (ch_entries h e) = Some t"
    using t(2) by (auto simp: base_target_def split: sum.splits)
  have "find_baseclass fetch c v h = Inr (t, h)"
    using get_class_found [OF e loadedD(4) [OF assms(1) t(1)]] v by (simp add: find_baseclass_def var_ok_def Let_def)
  with t that show ?thesis by blast
qed

section \<open>What resolving keeps\<close>

definition same_class :: "kndClass \<Rightarrow> kndClass \<Rightarrow> bool" where
  "same_class c c' \<longleftrightarrow> c_entry c' = c_entry c \<and> c_baseclass_vars c' = c_baseclass_vars c \<and> c_state_top c' = c_state_top c \<and>
     c_states c' = c_states c \<and> c_num_states c' = c_num_states c \<and> (c_base_resolving_in_progress c \<longrightarrow> c_base_resolving_in_progress c')"

definition same_entry :: "nat set \<Rightarrow> class_heap \<Rightarrow> class_heap \<Rightarrow> nat \<Rightarrow> bool" where
  "same_entry C h h' e \<longleftrightarrow> ce_name (ch_entries h' e) = ce_name (ch_entries h e) \<and>
     ce_repo (ch_entries h' e) = ce_repo (ch_entries h e) \<and> ce_base (ch_entries h' e) = ce_base (ch_entries h e) \<and>
     (ce_class (ch_entries h' e) = ce_class (ch_entries h e) \<or>
      ce_class (ch_entries h e) = None \<and>
        (\<exists>c\<in>C. \<exists>v\<in>set (c_baseclass_vars (ch_classes h c)). cv_entry (ch_vars h v) = e \<and>
           ce_class (ch_entries h' e) = base_target h c v))"

definition keeps :: "nat set \<Rightarrow> class_heap \<Rightarrow> class_heap \<Rightarrow> bool" where
  "keeps C h h' \<longleftrightarrow> ch_repos h' = ch_repos h \<and> ch_vars h' = ch_vars h \<and>
     ch_task_class_name_idx h' = ch_task_class_name_idx h \<and>
     (\<forall>c. same_class (ch_classes h c) (ch_classes h' c)) \<and> (\<forall>e. same_entry C h h' e)"

lemma same_class_refl [simp]: "same_class c c"
  by (simp add: same_class_def)

lemma same_class_trans: "same_class a b \<Longrightarrow> same_class b c \<Longrightarrow> same_class a c"
  by (simp add: same_class_def)

lemma keeps_refl [simp]: "keeps C h h"
  by (simp add: keeps_def same_entry_def)

lemma keeps_class: "keeps C h h' \<Longrightarrow> same_class (ch_classes h c) (ch_classes h' c)"
  by (simp add: keeps_def)

lemma keeps_entry_class: "keeps C h h' \<Longrightarrow> ce_class (ch_entries h e) = Some c \<Longrightarrow> ce_class (ch_entries h' e) = Some c"
  unfolding keeps_def same_entry_def by (metis option.distinct(1))

lemma keeps_repo: "keeps C h h' \<Longrightarrow> class_repo h' c = class_repo h c"
  by (simp add: keeps_def class_repo_def same_class_def same_entry_def)

lemma keeps_target:
  assumes "keeps C h h'" and "base_target h c v = Some t"
  shows "base_target h' c v = Some t"
proof -
  obtain e where e: "knd_get_class_entry (class_repo h c) (ce_name (ch_entries h (cv_entry (ch_vars h v)))) True = Inr e"
    "ce_class (ch_entries h e) = Some t"
    using assms(2) by (auto simp: base_target_def split: sum.splits)
  have "cv_entry (ch_vars h' v) = cv_entry (ch_vars h v)"
    "ce_name (ch_entries h' (cv_entry (ch_vars h v))) = ce_name (ch_entries h (cv_entry (ch_vars h v)))"
    using assms(1) by (simp_all add: keeps_def same_entry_def)
  then show ?thesis
    using e keeps_repo [OF assms(1), of c] keeps_entry_class [OF assms(1) e(2)] by (simp add: base_target_def)
qed

text \<open>Variables with the same entry name the same class.\<close>

lemma same_entry_same_target:
  assumes "loaded C r h" and "c \<in> C" and "c' \<in> C" and "cv_entry (ch_vars h v) = cv_entry (ch_vars h v')"
  shows "base_target h c v = base_target h c' v'"
  using assms loadedD(2) by (simp add: base_target_def)

lemma keeps_loaded:
  assumes "keeps C h h'" and "loaded C r h"
  shows "loaded C r h'"
proof -
  have "class_loaded C r h' c" if "c \<in> C" for c
  proof -
    have k: "same_class (ch_classes h c) (ch_classes h' c)" by (rule keeps_class [OF assms(1)])
    have "var_ok C h' c v" if v: "v \<in> set (c_baseclass_vars (ch_classes h c))" for v
    proof -
      let ?e = "cv_entry (ch_vars h v)"
      from loadedD(5) [OF assms(2) \<open>c \<in> C\<close> v] obtain t where
        t: "t \<in> C" "base_target h c v = Some t" "ce_class (ch_entries h ?e) \<in> {None, Some t}"
          "cv_id (ch_vars h v) = []" "ce_name (ch_entries h ?e) \<noteq> []" by (auto simp: var_ok_def)
      have e: "same_entry C h h' ?e" and vars: "ch_vars h' = ch_vars h" using assms(1) by (auto simp: keeps_def)
      have "ce_class (ch_entries h' ?e) \<in> {None, Some t}"
      proof (cases "ce_class (ch_entries h' ?e) = ce_class (ch_entries h ?e)")
        case True
        then show ?thesis using t(3) by simp
      next
        case False
        with e obtain c2 v2 where "c2 \<in> C" "cv_entry (ch_vars h v2) = ?e" "ce_class (ch_entries h' ?e) = base_target h c2 v2"
          unfolding same_entry_def by blast
        with same_entry_same_target [OF assms(2) \<open>c2 \<in> C\<close> \<open>c \<in> C\<close>, of v2 v] t(2) show ?thesis by simp
      qed
      then show ?thesis using t keeps_target [OF assms(1) t(2)] e vars by (auto simp: var_ok_def same_entry_def)
    qed
    moreover have "same_entry C h h' (c_entry (ch_classes h c))" using assms(1) by (simp add: keeps_def)
    moreover have "removed_state (ch_classes h' c) = removed_state (ch_classes h c)"
      using k by (auto simp: same_class_def removed_state_def)
    ultimately show ?thesis
      using k loadedD(1,3,4) [OF assms(2) \<open>c \<in> C\<close>] keeps_entry_class [OF assms(1) loadedD(1) [OF assms(2) \<open>c \<in> C\<close>]]
      by (simp add: class_loaded_def same_class_def same_entry_def)
  qed
  then show ?thesis using assms(2) by (simp add: loaded_def)
qed

lemma keeps_trans:
  assumes "keeps C h h1" and "keeps C h1 h2" and "loaded C r h"
  shows "keeps C h h2"
proof -
  have "same_entry C h h2 e" for e
  proof -
    have e1: "same_entry C h h1 e" and e2: "same_entry C h1 h2 e" using assms(1,2) by (simp_all add: keeps_def)
    show ?thesis
    proof (cases "ce_class (ch_entries h2 e) = ce_class (ch_entries h1 e)")
      case True
      then show ?thesis using e1 e2 by (simp add: same_entry_def)
    next
      case False
      with e2 obtain c v where v: "c \<in> C" "v \<in> set (c_baseclass_vars (ch_classes h1 c))" "cv_entry (ch_vars h1 v) = e"
        "ce_class (ch_entries h1 e) = None" "ce_class (ch_entries h2 e) = base_target h1 c v"
        by (auto simp: same_entry_def)
      have none: "ce_class (ch_entries h e) = None" using keeps_entry_class [OF assms(1), of e] v(4) by (cases "ce_class (ch_entries h e)") auto
      have vh: "v \<in> set (c_baseclass_vars (ch_classes h c))" "cv_entry (ch_vars h v) = e"
        using v(2,3) keeps_class [OF assms(1), of c] assms(1) by (simp_all add: same_class_def keeps_def)
      obtain t where "base_target h c v = Some t" using loadedD(5) [OF assms(3) v(1) vh(1)] by (auto simp: var_ok_def)
      with keeps_target [OF assms(1) this] v(5) have "ce_class (ch_entries h2 e) = base_target h c v" by simp
      with v(1) vh none e1 e2 show ?thesis by (auto simp: same_entry_def)
    qed
  qed
  then show ?thesis using assms(1,2) same_class_trans by (fastforce simp: keeps_def)
qed

lemma keeps_update_class:
  "(\<And>c. same_class c (f c)) \<Longrightarrow> keeps C h (update_class self f h)"
  by (simp add: keeps_def update_class_def same_entry_def)

lemma keeps_ancestor: "add_ancestor self base h = (e, h') \<Longrightarrow> keeps C h h'"
  by (auto simp: add_ancestor_def keeps_def update_class_def same_entry_def same_class_def split: sum.splits prod.splits if_splits)

lemma keeps_link_ancestor:
  assumes "link_ancestor self entry h = (e, h')"
  shows "keeps C h h'"
  using assms keeps_ancestor
  by (fastforce simp: link_ancestor_def Let_def split: sum.splits option.splits if_splits prod.splits)

lemma keeps_link_ancestors:
  "link_ancestors self refs h = (e, h') \<Longrightarrow> loaded C r h \<Longrightarrow> keeps C h h'"
proof (induction self refs h rule: link_ancestors.induct)
  case (2 self b entry refs h)
  show ?case
  proof (cases "case ce_class (ch_entries h entry) of None \<Rightarrow> False | Some c \<Rightarrow> c_state_top (ch_classes h c)")
    case True
    then show ?thesis using 2 by simp
  next
    case False
    obtain e1 h1 where s: "link_ancestor self entry h = (e1, h1)" by fastforce
    note k1 = keeps_link_ancestor [OF s, of C]
    show ?thesis
    proof (cases e1)
      case None
      then show ?thesis
        using 2(2) [OF False, of h1] 2(3,4) False s keeps_loaded [OF k1 2(4)] keeps_trans [OF k1 _ 2(4)] by simp
    qed (use False s k1 2(3) in simp)
  qed
qed simp

lemma keeps_link_baseclass:
  assumes "link_baseclass self base h = (e, h')" and "loaded C r h"
  shows "keeps C h h'"
proof -
  obtain e1 h1 where s: "link_ancestors self (c_ancestors (ch_classes h base)) h = (e1, h1)" by fastforce
  note k1 = keeps_link_ancestors [OF s assms(2)]
  show ?thesis
    using assms s k1 keeps_ancestor [of self base h1 e h' C] keeps_trans [OF k1 _ assms(2)]
    by (cases e1) (auto simp: link_baseclass_def)
qed

lemma keeps_set_target:
  assumes "c \<in> C" and "v \<in> set (c_baseclass_vars (ch_classes h c))" and "base_target h c v = Some t"
    and "ce_class (ch_entries h (cv_entry (ch_vars h v))) \<in> {None, Some t}"
  shows "keeps C h (update_entry (cv_entry (ch_vars h v)) (\<lambda>e. e\<lparr>ce_class := Some t\<rparr>) h)"
proof -
  have "\<exists>d\<in>C. \<exists>w\<in>set (c_baseclass_vars (ch_classes h d)). cv_entry (ch_vars h w) = cv_entry (ch_vars h v) \<and> Some t = base_target h d w"
    using assms(1-3) by metis
  with assms(4) show ?thesis by (auto simp: keeps_def same_entry_def update_entry_def)
qed

lemma loaded_entry:
  "loaded C r h \<Longrightarrow> c \<in> C \<Longrightarrow> v \<in> set (c_baseclass_vars (ch_classes h c)) \<Longrightarrow> base_target h c v = Some t \<Longrightarrow>
   ce_class (ch_entries h (cv_entry (ch_vars h v))) \<in> {None, Some t}"
  using loadedD(5) [of C r h c v] by (auto simp: var_ok_def)

section \<open>Resolving returns\<close>

definition unmarked :: "nat set \<Rightarrow> class_heap \<Rightarrow> nat" where
  "unmarked C h = card {c\<in>C. \<not> c_base_resolving_in_progress (ch_classes h c)}"

lemma keeps_unmarked:
  assumes "keeps C h h'" and "finite C"
  shows "unmarked C h' \<le> unmarked C h"
  unfolding unmarked_def using assms keeps_class [OF assms(1)]
  by (intro card_mono) (auto simp: same_class_def)

lemma mark_unmarked:
  assumes "c \<in> C" and "finite C" and "\<not> c_base_resolving_in_progress (ch_classes h c)"
  shows "unmarked C (update_class c (\<lambda>k. k\<lparr>c_base_resolving_in_progress := True\<rparr>) h) < unmarked C h"
  unfolding unmarked_def using assms by (intro psubset_card_mono) (auto simp: update_class_def)

text \<open>
  One pass over the variables: what the call does to a loaded heap, whatever its outcome, and that it needs no
  more fuel than there are classes that are not yet marked.
\<close>

lemma resolve_base_keeps:
  "loaded C r h \<Longrightarrow> self \<in> C \<Longrightarrow> unmarked C h < fuel \<Longrightarrow>
   \<exists>e h'. resolve_base fetch fuel self h = Some (e, h') \<and> keeps C h h'"
  and resolve_vars_keeps:
  "loaded C r h \<Longrightarrow> self \<in> C \<Longrightarrow> set vs \<subseteq> set (c_baseclass_vars (ch_classes h self)) \<Longrightarrow> unmarked C h < fuel \<Longrightarrow>
   \<exists>e h'. resolve_baseclass_vars fetch fuel self vs h = Some (e, h') \<and> keeps C h h'"
proof (induction fetch fuel self h and fetch fuel self vs h rule: resolve_base_resolve_baseclass_vars.induct)
  case (1 fetch self h)
  then show ?case by simp
next
  case (2 fetch fuel self h)
  let ?h = "update_class self (\<lambda>c. c\<lparr>c_base_resolving_in_progress := True\<rparr>) h"
  have k: "keeps C h ?h" by (rule keeps_update_class) (simp add: same_class_def)
  show ?case
  proof (cases "c_base_is_resolved (ch_classes h self) \<or> c_base_resolving_in_progress (ch_classes h self)")
    case False
    have "unmarked C ?h < fuel"
      using mark_unmarked [of self C h] 2(2-4) False by (simp add: loaded_def)
    moreover have "set (c_baseclass_vars (ch_classes h self)) \<subseteq> set (c_baseclass_vars (ch_classes ?h self))"
      by (simp add: update_class_def)
    ultimately obtain e h' where "resolve_baseclass_vars fetch fuel self (c_baseclass_vars (ch_classes h self)) ?h = Some (e, h')"
      "keeps C ?h h'"
      using 2(1) [OF _ _ keeps_loaded [OF k 2(2)] 2(3)] False by blast
    then show ?thesis using False keeps_trans [OF k _ 2(2)] by auto
  qed auto
next
  case (3 fetch fuel self h)
  have "keeps C h (update_class self (\<lambda>c. c\<lparr>c_base_is_resolved := True\<rparr>) h)"
    by (rule keeps_update_class) (simp add: same_class_def)
  then show ?case by simp
next
  case (4 fetch fuel self v vs h)
  let ?e = "cv_entry (ch_vars h v)"
  have v: "v \<in> set (c_baseclass_vars (ch_classes h self))" and vs: "set vs \<subseteq> set (c_baseclass_vars (ch_classes h self))"
    using 4(6) by auto
  show ?case
  proof (cases "ce_class (ch_entries h ?e) = Some self")
    case True
    then show ?thesis using 4(1) [OF True 4(4,5) vs 4(7)] by simp
  next
    case False
    obtain t where t: "t \<in> C" "base_target h self v = Some t" "find_baseclass fetch self v h = Inr (t, h)"
      by (rule find_baseclass_loaded [OF 4(4,5) v])
    have entry: "ce_class (ch_entries h ?e) \<in> {None, Some t}"
      by (rule loaded_entry [OF 4(4,5) v t(2)])
    show ?thesis
    proof (cases "t = self")
      case True
      then show ?thesis using False t(3) by simp
    next
      case other: False
      obtain e1 h1 where r: "(if c_base_is_resolved (ch_classes h t) then Some (None, h) else resolve_base fetch fuel t h) = Some (e1, h1)"
        "keeps C h h1"
        using 4(2) [OF False t(3) refl other _ 4(4) t(1) 4(7)] by (cases "c_base_is_resolved (ch_classes h t)") auto
      note l1 = keeps_loaded [OF r(2) 4(4)]
      show ?thesis
      proof (cases e1)
        case (Some e)
        then show ?thesis using False t(3) other r by simp
      next
        case None
        obtain e2 h2 where l: "link_baseclass self t h1 = (e2, h2)" by fastforce
        note k2 = keeps_trans [OF r(2) keeps_link_baseclass [OF l l1] 4(4)]
        note l2 = keeps_loaded [OF k2 4(4)]
        show ?thesis
        proof (cases e2)
          case (Some e)
          then show ?thesis using False t(3) other r None l k2 by simp
        next
          case e2: None
          let ?h3 = "update_entry (cv_entry (ch_vars h2 v)) (\<lambda>e. e\<lparr>ce_class := Some t\<rparr>) h2"
          have vars2: "c_baseclass_vars (ch_classes h2 self) = c_baseclass_vars (ch_classes h self)"
            using keeps_class [OF k2] by (simp add: same_class_def)
          have "ce_class (ch_entries h2 (cv_entry (ch_vars h2 v))) \<in> {None, Some t}"
            by (rule loaded_entry [OF l2 4(5) _ keeps_target [OF k2 t(2)]]) (simp add: v vars2)
          then have k3: "keeps C h2 ?h3"
            by (intro keeps_set_target [OF 4(5) _ keeps_target [OF k2 t(2)]]) (simp_all add: v vars2)
          note k = keeps_trans [OF k2 k3 4(4)]
          have "unmarked C ?h3 < fuel" using keeps_unmarked [OF k] 4(4,7) by (simp add: loaded_def)
          moreover have "set vs \<subseteq> set (c_baseclass_vars (ch_classes ?h3 self))"
            using vs by (simp add: update_entry_def vars2)
          moreover have r': "(if c_base_is_resolved (ch_classes h t) then Some (None, h) else resolve_base fetch fuel t h) = Some (None, h1)"
            and l': "(None, h2) = link_baseclass self t h1"
            using r(1) None l e2 by simp_all
          ultimately obtain e h' where "resolve_baseclass_vars fetch fuel self vs ?h3 = Some (e, h')" "keeps C ?h3 h'"
            using 4(3) [OF False t(3) refl other r' refl refl l' refl keeps_loaded [OF k 4(4)] 4(5)] by blast
          then show ?thesis using False t(3) other r(1) None l e2 keeps_trans [OF k _ 4(4)] by auto
        qed
      qed
    qed
  qed
qed

end
