(* ===== verification/Class_Closure.thy ===== *)
theory Class_Closure
  imports Class_Loaded
begin

text \<open>
  What resolving the base classes computes: \<open>derives\<close> is inheritance as a rule system over the base
  classes, \<open>base_inv\<close> the invariant that the resolved classes have exactly these ancestors and lie on no circle.
\<close>

section \<open>The base classes\<close>

definition bases :: "class_heap \<Rightarrow> nat \<Rightarrow> nat set" where
  "bases h c = {t. t \<noteq> c \<and> (\<exists>v\<in>set (c_baseclass_vars (ch_classes h c)). base_target h c v = Some t)}"

text \<open>
  \<open>a\<close> is an ancestor of \<open>c\<close>: a base class of \<open>c\<close>, or an ancestor of one that is not marked as the top
  of the classes that inform it.
\<close>

inductive derives :: "class_heap \<Rightarrow> nat \<Rightarrow> nat \<Rightarrow> bool" for h where
  direct: "b \<in> bases h c \<Longrightarrow> derives h c b"
| inherited: "b \<in> bases h c \<Longrightarrow> derives h b a \<Longrightarrow> \<not> c_state_top (ch_classes h a) \<Longrightarrow> derives h c a"

definition ancestors :: "class_heap \<Rightarrow> nat \<Rightarrow> nat set" where
  "ancestors h c = fst ` set (c_ancestors (ch_classes h c))"

definition resolved :: "nat set \<Rightarrow> class_heap \<Rightarrow> nat set" where
  "resolved C h = {c\<in>C. c_base_is_resolved (ch_classes h c)}"

text \<open>What a class gets from a base class.\<close>

definition inherits :: "class_heap \<Rightarrow> nat \<Rightarrow> nat set" where
  "inherits h b = insert b {a\<in>ancestors h b. \<not> c_state_top (ch_classes h a)}"

definition base_inv :: "nat set \<Rightarrow> class_heap \<Rightarrow> bool" where
  "base_inv C h \<longleftrightarrow>
     (\<forall>c\<in>resolved C h. bases h c \<subseteq> resolved C h \<and> ancestors h c = {a. derives h c a} \<and> \<not> (\<lambda>c b. b \<in> bases h c)\<^sup>+\<^sup>+ c c) \<and>
     (\<forall>c\<in>C - resolved C h. ancestors h c \<subseteq> (\<Union>b\<in>bases h c \<inter> resolved C h. inherits h b)) \<and>
     (\<forall>c\<in>C. \<forall>(a, e)\<in>set (c_ancestors (ch_classes h c)). a \<in> C \<and> e = c_entry (ch_classes h a))"

lemma bases_in: "loaded C r h \<Longrightarrow> c \<in> C \<Longrightarrow> bases h c \<subseteq> C"
  using loadedD(5) by (fastforce simp: bases_def var_ok_def)

lemma keeps_target_eq:
  assumes "keeps C h h'" and "loaded C r h" and "c \<in> C" and "v \<in> set (c_baseclass_vars (ch_classes h c))"
  shows "base_target h' c v = base_target h c v"
proof -
  obtain t where "base_target h c v = Some t" using loadedD(5) [OF assms(2-4)] by (auto simp: var_ok_def)
  with keeps_target [OF assms(1) this] show ?thesis by simp
qed

lemma keeps_bases:
  assumes "keeps C h h'" and "loaded C r h" and "c \<in> C"
  shows "bases h' c = bases h c"
  using keeps_target_eq [OF assms] keeps_class [OF assms(1), of c] by (auto simp: bases_def same_class_def)

lemma keeps_derives:
  assumes "keeps C h h'" and "loaded C r h"
  shows "c \<in> C \<Longrightarrow> derives h' c a \<longleftrightarrow> derives h c a"
proof
  have top: "c_state_top (ch_classes h' a) = c_state_top (ch_classes h a)" for a
    using keeps_class [OF assms(1), of a] by (simp add: same_class_def)
  show "derives h c a" if "derives h' c a" "c \<in> C"
    using that
  proof induction
    case (direct b c)
    then show ?case using keeps_bases [OF assms] by (auto intro: derives.direct)
  next
    case (inherited b c a)
    then have "b \<in> bases h c" "b \<in> C" using keeps_bases [OF assms] bases_in [OF assms(2)] by auto
    with inherited show ?case by (auto intro: derives.inherited simp: top)
  qed
  show "derives h' c a" if "derives h c a" "c \<in> C"
    using that
  proof induction
    case (direct b c)
    then show ?case using keeps_bases [OF assms] by (auto intro: derives.direct)
  next
    case (inherited b c a)
    then have "b \<in> bases h' c" "b \<in> C" using keeps_bases [OF assms] bases_in [OF assms(2)] by auto
    with inherited show ?case by (auto intro: derives.inherited simp: top)
  qed
qed

text \<open>A path of base classes stays among the loaded classes.\<close>

lemma keeps_loops:
  assumes "keeps C h h'" and "loaded C r h" and "c \<in> C" and "(\<lambda>c b. b \<in> bases h' c)\<^sup>+\<^sup>+ c d"
  shows "(\<lambda>c b. b \<in> bases h c)\<^sup>+\<^sup>+ c d \<and> d \<in> C"
  using assms(4)
proof induction
  case (base d)
  then show ?case using keeps_bases [OF assms(1-3)] bases_in [OF assms(2,3)] by auto
next
  case (step d e)
  then have "e \<in> bases h d" "e \<in> C" using keeps_bases [OF assms(1,2)] bases_in [OF assms(2)] by auto
  with step show ?case by (meson tranclp.trancl_into_trancl)
qed

section \<open>What linking does\<close>

definition linked :: "nat \<Rightarrow> nat set \<Rightarrow> class_heap \<Rightarrow> class_heap \<Rightarrow> bool" where
  "linked self A h h' \<longleftrightarrow> ch_entries h' = ch_entries h \<and>
     (\<exists>as n. ch_classes h' = (ch_classes h)(self := (ch_classes h self)\<lparr>c_ancestors := as, c_num_ancestors := n\<rparr>) \<and>
        fst ` set as = ancestors h self \<union> A \<and>
        (\<forall>(a, e)\<in>set as. (a, e) \<in> set (c_ancestors (ch_classes h self)) \<or> a \<in> A \<and> e = c_entry (ch_classes h a)))"

lemma linked_refl: "A \<subseteq> ancestors h self \<Longrightarrow> linked self A h h"
  unfolding linked_def ancestors_def
  by (intro conjI refl exI [of _ "c_ancestors (ch_classes h self)"] exI [of _ "c_num_ancestors (ch_classes h self)"]) auto

lemma linked_trans:
  assumes "linked self A h h1" and "linked self B h1 h2"
  shows "linked self (A \<union> B) h h2"
proof -
  obtain as n where 1: "ch_classes h1 = (ch_classes h)(self := (ch_classes h self)\<lparr>c_ancestors := as, c_num_ancestors := n\<rparr>)"
    "fst ` set as = ancestors h self \<union> A" "ch_entries h1 = ch_entries h"
    "\<forall>(a, e)\<in>set as. (a, e) \<in> set (c_ancestors (ch_classes h self)) \<or> a \<in> A \<and> e = c_entry (ch_classes h a)"
    using assms(1) by (auto simp: linked_def)
  obtain bs m where 2: "ch_classes h2 = (ch_classes h1)(self := (ch_classes h1 self)\<lparr>c_ancestors := bs, c_num_ancestors := m\<rparr>)"
    "fst ` set bs = ancestors h1 self \<union> B" "ch_entries h2 = ch_entries h1"
    "\<forall>(a, e)\<in>set bs. (a, e) \<in> set (c_ancestors (ch_classes h1 self)) \<or> a \<in> B \<and> e = c_entry (ch_classes h1 a)"
    using assms(2) by (auto simp: linked_def)
  have "(a, e) \<in> set (c_ancestors (ch_classes h self)) \<or> a \<in> A \<union> B \<and> e = c_entry (ch_classes h a)" if "(a, e) \<in> set bs" for a e
    using that 1(4) 2(4) by (auto simp: 1(1))
  then show ?thesis
    using 1(1-3) 2(1-3) unfolding linked_def
    by (intro conjI exI [of _ bs] exI [of _ m]) (auto simp: ancestors_def)
qed

lemma add_ancestor_linked: "add_ancestor self base h = (None, h') \<Longrightarrow> linked self {base} h h'"
  unfolding linked_def
  by (intro conjI exI [of _ "(base, c_entry (ch_classes h base)) # c_ancestors (ch_classes h self)"]
        exI [of _ "c_num_ancestors (ch_classes h self) + 1"])
    (auto simp: add_ancestor_def update_class_def ancestors_def split: sum.splits)

lemma link_ancestor_linked:
  assumes "link_ancestor self (c_entry (ch_classes h a)) h = (None, h')" and "loaded C r h" and "self \<in> C" and "a \<in> C"
  shows "linked self {a} h h'"
proof -
  have a: "ce_class (ch_entries h (c_entry (ch_classes h a))) = Some a"
    "ce_repo (ch_entries h (c_entry (ch_classes h a))) = ce_repo (ch_entries h (c_entry (ch_classes h self)))"
    using loadedD(1,3) [OF assms(2)] assms(3,4) by simp_all
  show ?thesis
  proof (cases "a \<in> ancestors h self")
    case True
    then have "h' = h" using assms(1) a by (simp add: link_ancestor_def ancestors_def)
    then show ?thesis using linked_refl True by simp
  next
    case False
    then have "add_ancestor self a h = (None, h')" using assms(1) a by (simp add: link_ancestor_def ancestors_def)
    then show ?thesis by (rule add_ancestor_linked)
  qed
qed

lemma linked_entry: "linked self A h h' \<Longrightarrow> c_entry (ch_classes h' c) = c_entry (ch_classes h c)"
  and linked_top: "linked self A h h' \<Longrightarrow> c_state_top (ch_classes h' c) = c_state_top (ch_classes h c)"
  and linked_other: "linked self A h h' \<Longrightarrow> c \<noteq> self \<Longrightarrow> ch_classes h' c = ch_classes h c"
  and linked_resolved: "linked self A h h' \<Longrightarrow> c_base_is_resolved (ch_classes h' c) = c_base_is_resolved (ch_classes h c)"
  by (auto simp: linked_def split: if_splits)

lemma linked_ancestors: "linked self A h h' \<Longrightarrow> ancestors h' self = ancestors h self \<union> A"
  unfolding linked_def by (elim conjE exE) (simp add: ancestors_def)

lemma link_ancestors_linked:
  "link_ancestors self refs h = (None, h') \<Longrightarrow> loaded C r h \<Longrightarrow> self \<in> C \<Longrightarrow>
   \<forall>(a, e)\<in>set refs. a \<in> C \<and> e = c_entry (ch_classes h a) \<Longrightarrow>
   linked self {a\<in>fst ` set refs. \<not> c_state_top (ch_classes h a)} h h'"
proof (induction self refs h rule: link_ancestors.induct)
  case (1 self h)
  then show ?case by (simp add: linked_refl)
next
  case (2 self a entry refs h)
  have a: "a \<in> C" "entry = c_entry (ch_classes h a)" using 2(6) by auto
  have e: "ce_class (ch_entries h entry) = Some a" using loadedD(1) [OF 2(4) a(1)] a(2) by simp
  show ?case
  proof (cases "c_state_top (ch_classes h a)")
    case True
    then have "{b\<in>fst ` set ((a, entry) # refs). \<not> c_state_top (ch_classes h b)} = {b\<in>fst ` set refs. \<not> c_state_top (ch_classes h b)}"
      by auto
    then show ?thesis using 2 True e by simp
  next
    case False
    then obtain h1 where s: "link_ancestor self entry h = (None, h1)" "link_ancestors self refs h1 = (None, h')"
      using 2(3) e by (auto simp: then_step_None)
    have l1: "linked self {a} h h1" using link_ancestor_linked [OF s(1) [unfolded a(2)] 2(4,5) a(1)] .
    have "linked self {b\<in>fst ` set refs. \<not> c_state_top (ch_classes h1 b)} h1 h'"
      using 2(2) [OF _ s(2) keeps_loaded [OF keeps_link_ancestor [OF s(1)] 2(4)] 2(5)] 2(6) False e
      by (auto simp: linked_entry [OF l1])
    moreover have "{b\<in>fst ` set ((a, entry) # refs). \<not> c_state_top (ch_classes h b)} =
        {a} \<union> {b\<in>fst ` set refs. \<not> c_state_top (ch_classes h1 b)}"
      using False by (auto simp: linked_top [OF l1])
    ultimately show ?thesis using linked_trans [OF l1] by simp
  qed
qed

lemma link_baseclass_linked:
  assumes "link_baseclass self b h = (None, h')" and "loaded C r h" and "self \<in> C"
    and "\<forall>(a, e)\<in>set (c_ancestors (ch_classes h b)). a \<in> C \<and> e = c_entry (ch_classes h a)"
  shows "linked self (inherits h b) h h'"
proof -
  obtain h1 where s: "link_ancestors self (c_ancestors (ch_classes h b)) h = (None, h1)" "add_ancestor self b h1 = (None, h')"
    using assms(1) by (auto simp: link_baseclass_def then_step_None)
  from linked_trans [OF link_ancestors_linked [OF s(1) assms(2-4)] add_ancestor_linked [OF s(2)]]
  show ?thesis by (simp add: inherits_def ancestors_def)
qed

section \<open>The invariant\<close>

lemma derives_iff:
  "derives h c a \<longleftrightarrow> a \<in> bases h c \<or> (\<exists>b\<in>bases h c. derives h b a \<and> \<not> c_state_top (ch_classes h a))"
  by (subst derives.simps) auto

lemma base_invD:
  assumes "base_inv C h"
  shows "c \<in> resolved C h \<Longrightarrow> bases h c \<subseteq> resolved C h"
    and "c \<in> resolved C h \<Longrightarrow> ancestors h c = {a. derives h c a}"
    and "c \<in> resolved C h \<Longrightarrow> \<not> (\<lambda>c b. b \<in> bases h c)\<^sup>+\<^sup>+ c c"
    and "c \<in> C \<Longrightarrow> c \<notin> resolved C h \<Longrightarrow> ancestors h c \<subseteq> (\<Union>b\<in>bases h c \<inter> resolved C h. inherits h b)"
    and "c \<in> C \<Longrightarrow> \<forall>(a, e)\<in>set (c_ancestors (ch_classes h c)). a \<in> C \<and> e = c_entry (ch_classes h a)"
  using assms by (simp_all add: base_inv_def)

lemma inherits_in: "base_inv C h \<Longrightarrow> b \<in> C \<Longrightarrow> inherits h b \<subseteq> C"
  using base_invD(5) by (fastforce simp: inherits_def ancestors_def)

lemma keeps_top: "keeps C h h' \<Longrightarrow> c_state_top (ch_classes h' c) = c_state_top (ch_classes h c)"
  and keeps_c_entry: "keeps C h h' \<Longrightarrow> c_entry (ch_classes h' c) = c_entry (ch_classes h c)"
  and keeps_marked: "keeps C h h' \<Longrightarrow> c_base_resolving_in_progress (ch_classes h c) \<Longrightarrow> c_base_resolving_in_progress (ch_classes h' c)"
  using keeps_class [of C h h' c] by (simp_all add: same_class_def)

text \<open>A step that keeps the ancestors of the other classes and of the resolved ones, and resolves none.\<close>

lemma base_inv_keep:
  assumes "keeps C h h'" and "loaded C r h" and "base_inv C h"
    and same: "\<And>c. c_base_is_resolved (ch_classes h' c) = c_base_is_resolved (ch_classes h c)"
    and other: "\<And>c. c \<noteq> self \<or> c \<in> resolved C h \<Longrightarrow> c_ancestors (ch_classes h' c) = c_ancestors (ch_classes h c)"
    and self: "self \<in> C \<Longrightarrow> self \<notin> resolved C h \<Longrightarrow> ancestors h' self \<subseteq> (\<Union>b\<in>bases h self \<inter> resolved C h. inherits h b)"
      "self \<in> C \<Longrightarrow> \<forall>(a, e)\<in>set (c_ancestors (ch_classes h' self)). a \<in> C \<and> e = c_entry (ch_classes h a)"
  shows "base_inv C h'"
proof -
  note top = keeps_top [OF assms(1)] and entry = keeps_c_entry [OF assms(1)]
  have res: "resolved C h' = resolved C h" using same by (simp add: resolved_def)
  have inC: "c \<in> C" if "c \<in> resolved C h" for c using that by (simp add: resolved_def)
  have inh: "inherits h' b = inherits h b" if "b \<in> resolved C h" for b
    using other [of b] that by (simp add: inherits_def ancestors_def top)
  have 1: "bases h' c \<subseteq> resolved C h \<and> ancestors h' c = {a. derives h' c a} \<and> \<not> (\<lambda>c b. b \<in> bases h' c)\<^sup>+\<^sup>+ c c"
    if c: "c \<in> resolved C h" for c
    using base_invD(1-3) [OF assms(3) c] keeps_bases [OF assms(1,2) inC [OF c]] keeps_derives [OF assms(1,2) inC [OF c]]
      keeps_loops [OF assms(1,2) inC [OF c], of c] other [of c] c by (auto simp: ancestors_def)
  have 2: "ancestors h' c \<subseteq> (\<Union>b\<in>bases h' c \<inter> resolved C h. inherits h' b)" if c: "c \<in> C" "c \<notin> resolved C h" for c
  proof -
    have "(\<Union>b\<in>bases h' c \<inter> resolved C h. inherits h' b) = (\<Union>b\<in>bases h c \<inter> resolved C h. inherits h b)"
      using keeps_bases [OF assms(1,2) c(1)] inh by simp
    moreover have "ancestors h' c \<subseteq> (\<Union>b\<in>bases h c \<inter> resolved C h. inherits h b)"
      using base_invD(4) [OF assms(3) c] self(1) c other [of c] by (cases "c = self") (auto simp: ancestors_def)
    ultimately show ?thesis by simp
  qed
  have 3: "\<forall>(a, e)\<in>set (c_ancestors (ch_classes h' c)). a \<in> C \<and> e = c_entry (ch_classes h' a)" if c: "c \<in> C" for c
    using base_invD(5) [OF assms(3) c] self(2) c other [of c] by (cases "c = self") (auto simp: entry)
  show ?thesis using 1 2 3 by (simp add: base_inv_def res)
qed

lemma base_inv_same:
  assumes "keeps C h h'" and "loaded C r h" and "base_inv C h"
    and "\<And>c. c_base_is_resolved (ch_classes h' c) = c_base_is_resolved (ch_classes h c)"
    and "\<And>c. c_ancestors (ch_classes h' c) = c_ancestors (ch_classes h c)"
  shows "base_inv C h'"
  using assms(5) base_invD(4,5) [OF assms(3)]
  by (intro base_inv_keep [OF assms(1-4), of undefined]) (simp_all add: ancestors_def)

lemma base_inv_link:
  assumes "keeps C h h'" and "loaded C r h" and "base_inv C h" and "linked self (inherits h t) h h'"
    and "self \<in> C" and "self \<notin> resolved C h" and "t \<in> bases h self" and "t \<in> resolved C h"
  shows "base_inv C h'"
proof (rule base_inv_keep [OF assms(1-3), of self])
  obtain as n where as: "ch_classes h' = (ch_classes h)(self := (ch_classes h self)\<lparr>c_ancestors := as, c_num_ancestors := n\<rparr>)"
    "fst ` set as = ancestors h self \<union> inherits h t"
    "\<forall>(a, e)\<in>set as. (a, e) \<in> set (c_ancestors (ch_classes h self)) \<or> a \<in> inherits h t \<and> e = c_entry (ch_classes h a)"
    using assms(4) by (auto simp: linked_def)
  show "c_base_is_resolved (ch_classes h' c) = c_base_is_resolved (ch_classes h c)" for c
    by (rule linked_resolved [OF assms(4)])
  show "c_ancestors (ch_classes h' c) = c_ancestors (ch_classes h c)" if "c \<noteq> self \<or> c \<in> resolved C h" for c
    using that assms(6) linked_other [OF assms(4), of c] by auto
  show "ancestors h' self \<subseteq> (\<Union>b\<in>bases h self \<inter> resolved C h. inherits h b)"
    using base_invD(4) [OF assms(3,5,6)] assms(7,8) as(2) by (auto simp: ancestors_def as(1))
  show "\<forall>(a, e)\<in>set (c_ancestors (ch_classes h' self)). a \<in> C \<and> e = c_entry (ch_classes h a)"
    using base_invD(5) [OF assms(3,5)] inherits_in [OF assms(3), of t] assms(8) as(3) by (fastforce simp: as(1) resolved_def)
qed

text \<open>What is reached from a resolved class is resolved.\<close>

lemma resolved_closed:
  assumes "base_inv C h" and "(\<lambda>c b. b \<in> bases h c)\<^sup>+\<^sup>+ c d" and "c \<in> resolved C h"
  shows "d \<in> resolved C h"
  using assms(2,3) by induction (use base_invD(1) [OF assms(1)] in auto)

lemma base_inv_resolve:
  assumes "loaded C r h" and "base_inv C h" and "self \<in> C" and "self \<notin> resolved C h"
    and all: "\<And>b. b \<in> bases h self \<Longrightarrow> b \<in> resolved C h \<and> inherits h b \<subseteq> ancestors h self"
  shows "base_inv C (update_class self (\<lambda>c. c\<lparr>c_base_is_resolved := True\<rparr>) h)" (is "base_inv C ?h")
proof -
  have k: "keeps C h ?h" by (rule keeps_update_class) (simp add: same_class_def)
  have res: "resolved C ?h = insert self (resolved C h)" using assms(3) by (auto simp: resolved_def update_class_def)
  have inC: "c \<in> C" if "c \<in> resolved C h" for c using that by (simp add: resolved_def)
  have anc: "ancestors ?h c = ancestors h c" "c_ancestors (ch_classes ?h c) = c_ancestors (ch_classes h c)" for c
    by (simp_all add: ancestors_def update_class_def)
  have inh: "inherits ?h c = inherits h c" for c by (simp add: inherits_def anc keeps_top [OF k])
  have "ancestors h self = {a. derives h self a}"
  proof -
    have "inherits h b = insert b {a. derives h b a \<and> \<not> c_state_top (ch_classes h a)}" if "b \<in> bases h self" for b
      using all [OF that] base_invD(2) [OF assms(2), of b] by (simp add: inherits_def)
    then have "(\<Union>b\<in>bases h self. inherits h b) =
        (\<Union>b\<in>bases h self. insert b {a. derives h b a \<and> \<not> c_state_top (ch_classes h a)})" by simp
    also have "\<dots> = {a. derives h self a}" using derives_iff [of h self] by blast
    finally have "(\<Union>b\<in>bases h self. inherits h b) = {a. derives h self a}" .
    moreover have "(\<Union>b\<in>bases h self. inherits h b) \<subseteq> ancestors h self" using all by (simp add: UN_subset_iff)
    moreover have "(\<Union>b\<in>bases h self \<inter> resolved C h. inherits h b) \<subseteq> (\<Union>b\<in>bases h self. inherits h b)"
      by (rule UN_mono) auto
    ultimately show ?thesis using base_invD(4) [OF assms(2-4)] by simp
  qed
  moreover have "\<not> (\<lambda>c b. b \<in> bases h c)\<^sup>+\<^sup>+ self self"
  proof
    assume "(\<lambda>c b. b \<in> bases h c)\<^sup>+\<^sup>+ self self"
    then obtain b where b: "b \<in> bases h self" "(\<lambda>c b. b \<in> bases h c)\<^sup>*\<^sup>* b self" by (blast dest: tranclpD)
    then have "b \<in> resolved C h" using all by blast
    moreover from this have "b \<noteq> self" using assms(4) by blast
    then have "(\<lambda>c b. b \<in> bases h c)\<^sup>+\<^sup>+ b self" using b(2) by (blast dest: rtranclpD)
    ultimately show False using resolved_closed [OF assms(2)] assms(4) by blast
  qed
  ultimately have 0: "ancestors h self = {a. derives h self a} \<and> bases h self \<subseteq> resolved C h \<and> \<not> (\<lambda>c b. b \<in> bases h c)\<^sup>+\<^sup>+ self self"
    using all by blast
  have 1: "bases ?h c \<subseteq> insert self (resolved C h) \<and> ancestors h c = {a. derives ?h c a} \<and> \<not> (\<lambda>c b. b \<in> bases ?h c)\<^sup>+\<^sup>+ c c"
    if "c \<in> insert self (resolved C h)" for c
  proof -
    have c: "c \<in> C" using that assms(3) inC by auto
    have "bases h c \<subseteq> resolved C h \<and> ancestors h c = {a. derives h c a} \<and> \<not> (\<lambda>c b. b \<in> bases h c)\<^sup>+\<^sup>+ c c"
      using that 0 base_invD(1-3) [OF assms(2), of c] by auto
    then show ?thesis using keeps_bases [OF k assms(1) c] keeps_derives [OF k assms(1) c] keeps_loops [OF k assms(1) c, of c] by auto
  qed
  have 2: "ancestors h c \<subseteq> (\<Union>b\<in>bases ?h c \<inter> insert self (resolved C h). inherits h b)" if c: "c \<in> C" "c \<notin> resolved C h" for c
    using base_invD(4) [OF assms(2) c] keeps_bases [OF k assms(1) c(1)] by auto
  have 3: "\<forall>(a, e)\<in>set (c_ancestors (ch_classes h c)). a \<in> C \<and> e = c_entry (ch_classes ?h a)" if "c \<in> C" for c
    using base_invD(5) [OF assms(2) that] keeps_c_entry [OF k] by auto
  show ?thesis using 1 2 3 by (simp add: base_inv_def res anc inh)
qed

section \<open>What a successful call does\<close>

text \<open>
  The resolved classes grow from \<open>h\<close> to \<open>h'\<close>: the other classes but \<open>self\<close> keep their ancestors, and the
  newly resolved ones were not marked before, but for \<open>self\<close>.
\<close>

definition grows :: "nat set \<Rightarrow> nat \<Rightarrow> class_heap \<Rightarrow> class_heap \<Rightarrow> bool" where
  "grows C self h h' \<longleftrightarrow> resolved C h \<subseteq> resolved C h' \<and>
     (\<forall>d. d \<noteq> self \<and> d \<notin> resolved C h' - resolved C h \<longrightarrow> c_ancestors (ch_classes h' d) = c_ancestors (ch_classes h d)) \<and>
     (\<forall>d\<in>resolved C h' - resolved C h. d = self \<or> \<not> c_base_resolving_in_progress (ch_classes h d))"

lemma growsD:
  assumes "grows C self h h'"
  shows "d \<in> resolved C h \<Longrightarrow> d \<in> resolved C h'"
    and "d \<noteq> self \<Longrightarrow> d \<notin> resolved C h' - resolved C h \<Longrightarrow> c_ancestors (ch_classes h' d) = c_ancestors (ch_classes h d)"
    and "d \<in> resolved C h' \<Longrightarrow> d \<notin> resolved C h \<Longrightarrow> d \<noteq> self \<Longrightarrow> \<not> c_base_resolving_in_progress (ch_classes h d)"
  using assms by (auto simp: grows_def)

lemma grows_trans:
  assumes "grows C self h h1" and "grows C self h1 h2" and "keeps C h h1"
  shows "grows C self h h2"
proof -
  have "c_ancestors (ch_classes h2 d) = c_ancestors (ch_classes h d)" if "d \<noteq> self" "d \<notin> resolved C h2 - resolved C h" for d
  proof -
    have "d \<notin> resolved C h1 - resolved C h" "d \<notin> resolved C h2 - resolved C h1"
      using that growsD(1) [OF assms(1)] growsD(1) [OF assms(2)] by auto
    then show ?thesis using growsD(2) [OF assms(1) that(1)] growsD(2) [OF assms(2) that(1)] by simp
  qed
  moreover have "d = self \<or> \<not> c_base_resolving_in_progress (ch_classes h d)" if "d \<in> resolved C h2" "d \<notin> resolved C h" for d
    using that growsD(3) [OF assms(1)] growsD(3) [OF assms(2)] keeps_marked [OF assms(3), of d] by blast
  ultimately show ?thesis using assms(1,2) by (auto simp: grows_def)
qed

lemma grows_nested:
  assumes "grows C t h h1" and "t \<in> resolved C h1" and "t \<notin> resolved C h" and "\<not> c_base_resolving_in_progress (ch_classes h t)"
  shows "grows C self h h1"
  unfolding grows_def using growsD [OF assms(1)] assms(2-4) by (metis Diff_iff subsetI)

lemma grows_step:
  assumes "\<And>c. c_base_is_resolved (ch_classes h' c) = c_base_is_resolved (ch_classes h c)"
    and "\<And>c. c \<noteq> self \<Longrightarrow> c_ancestors (ch_classes h' c) = c_ancestors (ch_classes h c)"
  shows "grows C self h h'"
  using assms by (simp add: grows_def resolved_def)

lemma grows_ancestors:
  assumes "grows C self h h'" and "b \<in> resolved C h" and "b \<noteq> self" and "keeps C h h'"
  shows "inherits h' b = inherits h b"
  using growsD(2) [OF assms(1,3)] assms(2) keeps_top [OF assms(4)] by (simp add: inherits_def ancestors_def)

text \<open>The base classes whose variables are done.\<close>

definition done_bases :: "nat set \<Rightarrow> class_heap \<Rightarrow> nat \<Rightarrow> nat list \<Rightarrow> bool" where
  "done_bases C h self vs \<longleftrightarrow>
     (\<forall>b\<in>bases h self. (\<exists>v\<in>set vs. base_target h self v = Some b) \<or> b \<in> resolved C h \<and> inherits h b \<subseteq> ancestors h self)"

text \<open>One base class: it is resolved, linked and stored in the entry of the variable.\<close>

lemma resolve_one:
  assumes h: "loaded C r h" "base_inv C h" "self \<in> C" "self \<notin> resolved C h" "c_base_resolving_in_progress (ch_classes h self)"
    and v: "set (v # vs) \<subseteq> set (c_baseclass_vars (ch_classes h self))" "base_target h self v = Some t" "t \<noteq> self"
    and todo: "done_bases C h self (v # vs)"
    and h1: "keeps C h h1" "base_inv C h1" "t \<in> resolved C h1" "self \<notin> resolved C h1" "grows C self h h1"
      "c_ancestors (ch_classes h1 self) = c_ancestors (ch_classes h self)"
    and h2: "link_baseclass self t h1 = (None, h2)"
    and h3: "h3 = update_entry (cv_entry (ch_vars h2 v)) (\<lambda>e. e\<lparr>ce_class := Some t\<rparr>) h2"
  shows "keeps C h h3" "base_inv C h3" "self \<notin> resolved C h3" "done_bases C h3 self vs" "grows C self h h3"
proof -
  note l1 = keeps_loaded [OF h1(1) h(1)]
  have t: "t \<in> bases h self" "t \<in> C" using v h1(3) by (auto simp: bases_def resolved_def)
  note k2 = keeps_link_baseclass [OF h2 l1]
  have l: "linked self (inherits h1 t) h1 h2"
    by (rule link_baseclass_linked [OF h2 l1 h(3) base_invD(5) [OF h1(2) t(2)]])
  have t1: "t \<in> bases h1 self" using t(1) keeps_bases [OF h1(1) h(1,3)] by simp
  have i2: "base_inv C h2" by (rule base_inv_link [OF k2 l1 h1(2) l h(3) h1(4) t1 h1(3)])
  note k12 = keeps_trans [OF h1(1) k2 h(1)]
  note l2 = keeps_loaded [OF k12 h(1)]
  have vars: "v \<in> set (c_baseclass_vars (ch_classes h2 self))" using keeps_class [OF k12, of self] v(1) by (simp add: same_class_def)
  note t2 = keeps_target [OF k12 v(2)]
  have k3: "keeps C h2 h3"
    unfolding h3 by (rule keeps_set_target [OF h(3) vars t2 loaded_entry [OF l2 h(3) vars t2]])
  have same: "ch_classes h3 = ch_classes h2" by (simp add: h3 update_entry_def)
  show k: "keeps C h h3" by (rule keeps_trans [OF k12 k3 h(1)])
  show i3: "base_inv C h3" by (rule base_inv_same [OF k3 l2 i2]) (simp_all add: same)
  have res3: "resolved C h3 = resolved C h1" using linked_resolved [OF l] by (simp add: resolved_def same)
  show "self \<notin> resolved C h3" using h1(4) res3 by simp
  have g13: "grows C self h1 h3"
    by (rule grows_step) (simp_all add: same linked_resolved [OF l] linked_other [OF l])
  show g: "grows C self h h3" by (rule grows_trans [OF h1(5) g13 h1(1)])
  have anc3: "ancestors h3 self = ancestors h self \<union> inherits h1 t"
    using linked_ancestors [OF l] h1(6) by (simp add: ancestors_def same)
  have inh3: "inherits h3 b = inherits h1 b" if "b \<in> resolved C h1" for b
    using grows_ancestors [OF g13 that] keeps_trans [OF k2 k3 l1] that h1(4) by auto
  show "done_bases C h3 self vs"
    unfolding done_bases_def
  proof
    fix b assume "b \<in> bases h3 self"
    then have b: "b \<in> bases h self" using keeps_bases [OF k h(1,3)] by simp
    consider "b = t" | v' where "v' \<in> set vs" "base_target h self v' = Some b" | "b \<in> resolved C h" "inherits h b \<subseteq> ancestors h self"
      using todo b v(2) unfolding done_bases_def by fastforce
    then show "(\<exists>v\<in>set vs. base_target h3 self v = Some b) \<or> b \<in> resolved C h3 \<and> inherits h3 b \<subseteq> ancestors h3 self"
    proof cases
      case 1
      then show ?thesis using h1(3) inh3 anc3 res3 by auto
    next
      case 2
      then show ?thesis using keeps_target [OF k] by blast
    next
      case 3
      have "b \<in> resolved C h1" by (rule growsD(1) [OF h1(5) 3(1)])
      moreover have "inherits h1 b = inherits h b" using grows_ancestors [OF h1(5) 3(1) _ h1(1)] 3(1) h(4) by auto
      ultimately show ?thesis using 3 inh3 [of b] anc3 res3 by auto
    qed
  qed
qed

lemma resolve_last:
  assumes "loaded C r h" "base_inv C h" "self \<in> C" "self \<notin> resolved C h" "done_bases C h self []"
    and "h' = update_class self (\<lambda>c. c\<lparr>c_base_is_resolved := True\<rparr>) h"
  shows "base_inv C h'" "self \<in> resolved C h'" "grows C self h h'"
proof -
  show "base_inv C h'"
    unfolding assms(6) by (rule base_inv_resolve [OF assms(1-4)]) (use assms(5) in \<open>auto simp: done_bases_def\<close>)
  show "self \<in> resolved C h'" using assms(3) by (simp add: assms(6) resolved_def update_class_def)
  show "grows C self h h'" by (auto simp: assms(6) grows_def resolved_def update_class_def)
qed

lemma resolve_base_grows:
  "resolve_base fetch fuel self h = Some (None, h') \<Longrightarrow> loaded C r h \<Longrightarrow> base_inv C h \<Longrightarrow> self \<in> C \<Longrightarrow> unmarked C h < fuel \<Longrightarrow>
   base_inv C h' \<and> self \<in> resolved C h' \<and> self \<notin> resolved C h \<and> grows C self h h' \<and> \<not> c_base_resolving_in_progress (ch_classes h self)"
  and resolve_vars_grows:
  "resolve_baseclass_vars fetch fuel self vs h = Some (None, h') \<Longrightarrow> loaded C r h \<Longrightarrow> base_inv C h \<Longrightarrow> self \<in> C \<Longrightarrow> unmarked C h < fuel \<Longrightarrow>
   self \<notin> resolved C h \<Longrightarrow> c_base_resolving_in_progress (ch_classes h self) \<Longrightarrow>
   set vs \<subseteq> set (c_baseclass_vars (ch_classes h self)) \<Longrightarrow> done_bases C h self vs \<Longrightarrow>
   base_inv C h' \<and> self \<in> resolved C h' \<and> grows C self h h'"
proof (induction fetch fuel self h and fetch fuel self vs h arbitrary: h' and h' rule: resolve_base_resolve_baseclass_vars.induct)
  case (1 fetch self h)
  then show ?case by simp
next
  case (2 fetch fuel self h)
  let ?h = "update_class self (\<lambda>c. c\<lparr>c_base_resolving_in_progress := True\<rparr>) h"
  have not: "\<not> c_base_is_resolved (ch_classes h self)" "\<not> c_base_resolving_in_progress (ch_classes h self)"
    and run: "resolve_baseclass_vars fetch fuel self (c_baseclass_vars (ch_classes h self)) ?h = Some (None, h')"
    using 2(2) by (auto split: if_splits)
  have k: "keeps C h ?h" by (rule keeps_update_class) (simp add: same_class_def)
  have inv: "base_inv C ?h" by (rule base_inv_same [OF k 2(3,4)]) (simp_all add: update_class_def)
  have fuel: "unmarked C ?h < fuel" using mark_unmarked [of self C h] 2(3,5,6) not by (simp add: loaded_def)
  have res: "resolved C ?h = resolved C h" by (auto simp: resolved_def update_class_def)
  have "bases ?h self = bases h self" by (rule keeps_bases [OF k 2(3,5)])
  then have "done_bases C ?h self (c_baseclass_vars (ch_classes h self))"
    using keeps_target [OF k] by (fastforce simp: done_bases_def bases_def)
  then have "base_inv C h' \<and> self \<in> resolved C h' \<and> grows C self ?h h'"
    using 2(1) [OF not run keeps_loaded [OF k 2(3)] inv 2(5) fuel] not by (simp add: resolved_def update_class_def)
  moreover have "grows C self h ?h" by (rule grows_step) (auto simp: update_class_def)
  ultimately show ?case using grows_trans [OF _ _ k] not by (auto simp: resolved_def)
next
  case (3 fetch fuel self h)
  then show ?case using resolve_last [OF 3(2,3,4,6,9)] by simp
next
  case (4 fetch fuel self v vs h)
  let ?e = "cv_entry (ch_vars h v)"
  have v: "v \<in> set (c_baseclass_vars (ch_classes h self))" and vs: "set vs \<subseteq> set (c_baseclass_vars (ch_classes h self))"
    using 4(11) by auto
  obtain t where t: "t \<in> C" "base_target h self v = Some t" "find_baseclass fetch self v h = Inr (t, h)"
    by (rule find_baseclass_loaded [OF 4(5,7) v])
  show ?case
  proof (cases "ce_class (ch_entries h ?e) = Some self")
    case True
    have "t = self" using loaded_entry [OF 4(5,7) v t(2)] True by simp
    then have "done_bases C h self vs" using 4(12) t(2) by (fastforce simp: done_bases_def bases_def)
    then show ?thesis using 4(1) [OF True _ 4(5-10) vs] 4(4) True by simp
  next
    case False
    have other: "t \<noteq> self" using 4(4) False t(3) by (auto split: if_splits)
    obtain h1 where r: "(if c_base_is_resolved (ch_classes h t) then Some (None, h) else resolve_base fetch fuel t h) = Some (None, h1)"
      using 4(4) False t(3) other by (auto split: option.splits if_splits)
    obtain h2 where l: "link_baseclass self t h1 = (None, h2)"
      using 4(4) False t(3) other r by (auto split: option.splits prod.splits)
    define h3 where "h3 = update_entry (cv_entry (ch_vars h2 v)) (\<lambda>e. e\<lparr>ce_class := Some t\<rparr>) h2"
    have run: "resolve_baseclass_vars fetch fuel self vs h3 = Some (None, h')"
      using 4(4) False t(3) other r l by (simp add: h3_def)
    have k1: "keeps C h h1"
      using r resolve_base_keeps [OF 4(5) t(1) 4(8), of fetch] by (auto split: if_splits)
    have 1: "base_inv C h1 \<and> t \<in> resolved C h1 \<and> self \<notin> resolved C h1 \<and> grows C self h h1 \<and>
        c_ancestors (ch_classes h1 self) = c_ancestors (ch_classes h self)"
    proof (cases "c_base_is_resolved (ch_classes h t)")
      case True
      then show ?thesis using r 4(6,9) t(1) by (auto simp: resolved_def grows_def)
    next
      case not: False
      have n: "base_inv C h1" "t \<in> resolved C h1" "t \<notin> resolved C h" "grows C t h h1" "\<not> c_base_resolving_in_progress (ch_classes h t)"
        using 4(2) [OF False t(3) refl other not _ 4(5,6) t(1) 4(8)] r not by simp_all
      have "self \<notin> resolved C h1" using growsD(3) [OF n(4), of self] 4(9,10) other by blast
      then show ?thesis using n grows_nested [OF n(4,2,3,5)] growsD(2) [OF n(4), of self] other by auto
    qed
    have todo: "done_bases C h self (v # vs)" by (rule 4(12))
    note one = resolve_one [OF 4(5,6,7,9,10) 4(11) t(2) other todo k1 _ _ _ _ _ l h3_def]
    have k3: "keeps C h h3" and i3: "base_inv C h3" and n3: "self \<notin> resolved C h3" and d3: "done_bases C h3 self vs"
      and g3: "grows C self h h3"
      using 1 one by simp_all
    have r': "(if c_base_is_resolved (ch_classes h t) then Some (None, h) else resolve_base fetch fuel t h) = Some (None, h1)"
      and l': "(None, h2) = link_baseclass self t h1" using r l by simp_all
    have vs3: "set vs \<subseteq> set (c_baseclass_vars (ch_classes h3 self))"
      using vs keeps_class [OF k3, of self] by (simp add: same_class_def)
    have f3: "unmarked C h3 < fuel" using keeps_unmarked [OF k3] 4(5,8) by (simp add: loaded_def)
    have "base_inv C h' \<and> self \<in> resolved C h' \<and> grows C self h3 h'"
      using 4(3) [OF False t(3) refl other r' refl refl l' refl, folded h3_def, OF run keeps_loaded [OF k3 4(5)] i3 4(7) f3 n3
          keeps_marked [OF k3 4(10)] vs3 d3] .
    then show ?thesis using grows_trans [OF g3 _ k3] by blast
  qed
qed

section \<open>The results\<close>

lemma unmarked_le: "finite C \<Longrightarrow> unmarked C h \<le> card C"
  unfolding unmarked_def by (rule card_mono) auto

lemma loaded_result:
  assumes "loaded C r h" and "c \<in> C" and "card C < fuel"
  shows "\<exists>e h'. resolve_base fetch fuel c h = Some (e, h') \<and> keeps C h h' \<and> loaded C r h'"
proof -
  have "unmarked C h < fuel" using unmarked_le [of C h] assms by (simp add: loaded_def)
  then show ?thesis using resolve_base_keeps [OF assms(1,2)] keeps_loaded [OF _ assms(1)] by blast
qed

lemma loaded_success:
  assumes "loaded C r h" and "base_inv C h" and "c \<in> C" and "card C < fuel" and "resolve_base fetch fuel c h = Some (None, h')"
  shows "base_inv C h'" "c \<in> resolved C h'" "grows C c h h'" "keeps C h h'" "loaded C r h'" "c \<notin> resolved C h"
proof -
  have "unmarked C h < fuel" using unmarked_le [of C h] assms(1,4) by (simp add: loaded_def)
  from resolve_base_grows [OF assms(5,1-3) this] show "base_inv C h'" "c \<in> resolved C h'" "grows C c h h'" "c \<notin> resolved C h" by simp_all
  show "keeps C h h'" "loaded C r h'" using loaded_result [OF assms(1,3,4), of fetch] assms(5) by auto
qed

text \<open>A call that fails leaves its class marked: every later one reports a circle.\<close>

lemma failed_base_stays_marked:
  assumes "loaded C r h" and "c \<in> C" and "card C < fuel" and "resolve_base fetch fuel c h = Some (Some e, h')"
    and "\<not> c_base_is_resolved (ch_classes h c)"
  shows "c_base_resolving_in_progress (ch_classes h' c)"
proof (cases fuel)
  case (Suc n)
  let ?h = "update_class c (\<lambda>k. k\<lparr>c_base_resolving_in_progress := True\<rparr>) h"
  have k: "keeps C h ?h" by (rule keeps_update_class) (simp add: same_class_def)
  have marked: "c_base_resolving_in_progress (ch_classes ?h c)" by (simp add: update_class_def)
  show ?thesis
  proof (cases "c_base_resolving_in_progress (ch_classes h c)")
    case True
    then show ?thesis using assms(4,5) Suc by simp
  next
    case False
    have "unmarked C ?h < n"
      using mark_unmarked [OF assms(2) _ False] unmarked_le [of C h] assms(1,3) Suc by (fastforce simp: loaded_def)
    then have "keeps C ?h h'"
      using resolve_vars_keeps [OF keeps_loaded [OF k assms(1)] assms(2), of "c_baseclass_vars (ch_classes h c)" n fetch]
        assms(4,5) Suc False by (auto simp: update_class_def)
    then show ?thesis using keeps_marked marked by blast
  qed
qed (use assms in simp)

lemma is_base_in_iff: "is_base_in entry None refs h = None \<longleftrightarrow> entry \<in> snd ` set refs"
  by (induction entry "None :: nat option" refs h rule: is_base_in.induct) auto

lemma is_base_derives:
  assumes "loaded C r h" and "base_inv C h" and "c \<in> resolved C h" and "b \<in> C"
    and "ce_base (ch_entries h (c_entry (ch_classes h b))) = None"
  shows "knd_is_base b c h = None \<longleftrightarrow> derives h c b"
proof -
  have c: "c \<in> C" using assms(3) by (simp add: resolved_def)
  have refs: "a \<in> C" "e = c_entry (ch_classes h a)" if "(a, e) \<in> set (c_ancestors (ch_classes h c))" for a e
    using base_invD(5) [OF assms(2) c] that by auto
  have inj: "a = b" if "a \<in> C" "c_entry (ch_classes h a) = c_entry (ch_classes h b)" for a
    using loadedD(1) [OF assms(1) that(1)] loadedD(1) [OF assms(1,4)] that(2) by (metis option.inject)
  have "c_entry (ch_classes h b) \<in> snd ` set (c_ancestors (ch_classes h c)) \<longleftrightarrow> b \<in> ancestors h c"
  proof
    assume "c_entry (ch_classes h b) \<in> snd ` set (c_ancestors (ch_classes h c))"
    then obtain a where a: "(a, c_entry (ch_classes h b)) \<in> set (c_ancestors (ch_classes h c))" by auto
    from inj [OF refs(1) [OF a] refs(2) [OF a, symmetric]] have "a = b" .
    with a show "b \<in> ancestors h c" by (force simp: ancestors_def)
  next
    assume "b \<in> ancestors h c"
    then obtain e where e: "(b, e) \<in> set (c_ancestors (ch_classes h c))" by (auto simp: ancestors_def)
    from refs(2) [OF e] have "e = c_entry (ch_classes h b)" .
    with e show "c_entry (ch_classes h b) \<in> snd ` set (c_ancestors (ch_classes h c))" by force
  qed
  then show ?thesis using base_invD(2) [OF assms(2,3)] assms(5) by (simp add: knd_is_base_def is_base_in_iff Let_def)
qed

text \<open>The paths of base classes of loaded classes are kept.\<close>

lemma keeps_paths:
  assumes "keeps C h h'" and "loaded C r h" and "c \<in> C" and "(\<lambda>c b. b \<in> bases h c)\<^sup>*\<^sup>* c d"
  shows "(\<lambda>c b. b \<in> bases h' c)\<^sup>*\<^sup>* c d \<and> d \<in> C"
  using assms(4)
proof induction
  case base
  then show ?case using assms(3) by simp
next
  case (step d e)
  then have "e \<in> bases h' d" "e \<in> C" using keeps_bases [OF assms(1,2)] bases_in [OF assms(2)] by auto
  with step show ?case by (meson rtranclp.rtrancl_into_rtrancl)
qed

lemma keeps_loop:
  assumes "keeps C h h'" and "loaded C r h" and "d \<in> C" and "(\<lambda>c b. b \<in> bases h c)\<^sup>+\<^sup>+ d d"
  shows "(\<lambda>c b. b \<in> bases h' c)\<^sup>+\<^sup>+ d d"
proof -
  obtain b where b: "b \<in> bases h d" "(\<lambda>c b. b \<in> bases h c)\<^sup>*\<^sup>* b d" using tranclpD [OF assms(4)] by blast
  have "b \<in> C" "b \<in> bases h' d" using b(1) keeps_bases [OF assms(1-3)] bases_in [OF assms(2,3)] by auto
  then show ?thesis using keeps_paths [OF assms(1,2) _ b(2)] by (meson rtranclp_into_tranclp2)
qed

section \<open>A sample\<close>

text \<open>The classes A, B, C, D and E: C is a B and B is an A, while D and E are based on each other.\<close>

definition family_item :: "nat \<Rightarrow> (nat, nat) kndSharedDictItem" where
  "family_item e =
     \<lparr>sd_addr = e + 1, sd_phase = KND_SHARED_DICT_VALID, sd_key = [of_nat (65 + e)], sd_data = Some e, sd_states = []\<rparr>"

definition family_repo :: kndRepo where
  "family_repo = Repo \<lparr>sd_hash_array = [map family_item [0, 1, 2, 3, 4]], sd_size = 1, sd_num_items = 5\<rparr>
     sample_shared_set None 0"

definition family_base :: "nat \<Rightarrow> nat" where
  "family_base c = (if c = 3 then 4 else c - 1)"

definition family_entry :: "nat \<Rightarrow> kndClassEntry" where
  "family_entry e =
     \<lparr>ce_id = [], ce_numid = 0, ce_name = [of_nat (65 + (if e < 5 then e else family_base (e - 10)))], ce_repo = 0,
      ce_base = None, ce_class = (if e < 5 then Some e else None), ce_phase = KND_CREATED, ce_dict_item = None\<rparr>"

definition family_class :: "nat \<Rightarrow> kndClass" where
  "family_class c = cleared_class\<lparr>c_entry := c, c_baseclass_vars := (if c = 0 then [] else [c]), c_attr_idx := c\<rparr>"

definition family_heap :: class_heap where
  "family_heap = sample_heap
     \<lparr>ch_classes := family_class, ch_entries := family_entry,
      ch_vars := (\<lambda>v. \<lparr>cv_id = [], cv_type = KND_BASE_CLASS, cv_entry = 10 + v, cv_attrs = [], cv_parent = v, cv_inst = None\<rparr>),
      ch_repos := (\<lambda>_. family_repo),
      ch_mempool := (knd_mempool_new KND_ALLOC_INCR 0 (\<lambda>_. 0))
        \<lparr>mp_tiny := empty_class\<lparr>pc_page_size := 64, pc_num_pages := 9\<rparr>\<rparr>\<rparr>"

definition no_fetch :: class_fetch where
  "no_fetch e h = Inl (Err knd_NO_MATCH, h)"

lemma family_target: "c \<in> {1, 2, 3, 4} \<Longrightarrow> base_target family_heap c c = Some (family_base c)"
proof -
  assume c: "c \<in> {1, 2, 3, 4}"
  then have get: "knd_get_class_entry family_repo [of_nat (65 + family_base c)] True = Inr (family_base c)"
    by (elim insertE emptyE; hypsubst; code_simp)
  have "family_base c < 5" using c by (auto simp: family_base_def)
  then show "base_target family_heap c c = Some (family_base c)"
    using get by (simp add: base_target_def class_repo_def family_heap_def family_entry_def)
qed

lemma family_loaded: "loaded {0, 1, 2, 3, 4} 0 family_heap"
proof -
  have "var_ok {0, 1, 2, 3, 4} family_heap c c" if c: "c \<in> {1, 2, 3, 4}" for c
  proof -
    have "family_base c \<in> {0, 1, 2, 3, 4}" using c by (auto simp: family_base_def)
    moreover have "cv_id (ch_vars family_heap c) = []" "ce_name (ch_entries family_heap (cv_entry (ch_vars family_heap c))) \<noteq> []"
      "ce_class (ch_entries family_heap (cv_entry (ch_vars family_heap c))) = None"
      by (simp_all add: family_heap_def family_entry_def)
    ultimately show ?thesis using family_target [OF c] unfolding var_ok_def by (intro conjI bexI [of _ "family_base c"]) simp_all
  qed
  then have var: "var_ok {0, 1, 2, 3, 4} family_heap c v"
    if "c \<in> {0, 1, 2, 3, 4}" "v \<in> set (c_baseclass_vars (family_class c))" for c v
    using that by (cases "c = 0") (simp_all add: family_class_def cleared_class_def)
  have heap: "ch_classes family_heap = family_class" "ch_entries family_heap = family_entry" by (simp_all add: family_heap_def)
  have "ce_class (family_entry (c_entry (family_class c))) = Some c" "ce_repo (family_entry (c_entry (family_class c))) = 0"
    "removed_state (family_class c) = None" if "c \<in> {0, 1, 2, 3, 4}" for c
    using that by (auto simp: family_class_def cleared_class_def family_entry_def removed_state_def)
  then have "class_loaded {0, 1, 2, 3, 4} 0 family_heap c" if "c \<in> {0, 1, 2, 3, 4}" for c
    using that var [OF that] by (simp only: class_loaded_def heap simp_thms ball_simps) simp
  then show ?thesis by (simp add: loaded_def)
qed

lemma family_inv: "base_inv {0, 1, 2, 3, 4} family_heap"
  by (simp add: base_inv_def resolved_def ancestors_def family_heap_def family_class_def cleared_class_def)

lemma family_bases: "c \<in> {1, 2, 3, 4} \<Longrightarrow> bases family_heap c = {family_base c}"
  using family_target [of c] by (auto simp: bases_def family_heap_def family_class_def cleared_class_def family_base_def)

lemma family_find:
  assumes "ch_entries h = family_entry" and "ch_vars h = ch_vars family_heap" and "ch_repos h = ch_repos family_heap"
    and "c_entry (ch_classes h 1) = 1" and "removed_state (ch_classes h 0) = None"
  shows "find_baseclass no_fetch 1 1 h = Inr (0, h)"
proof -
  have repo: "class_repo h 1 = family_repo" using assms(3) by (simp add: class_repo_def family_heap_def)
  have get: "knd_shared_dict_get (repo_class_name_idx family_repo) [65] = Inr (Some 0)" by code_simp
  have "knd_get_class no_fetch family_repo [65] h = Inr (0, h)"
    using get assms(1,5) by (simp add: family_repo_def knd_class_acquire_def family_entry_def check_removed_def)
  then show ?thesis
    using repo assms(1,2) by (simp add: find_baseclass_def family_heap_def family_entry_def family_base_def Let_def)
qed

lemma family_resolves: "\<exists>h'. resolve_base no_fetch 6 1 family_heap = Some (None, h')"
proof -
  define h1 where "h1 = update_class 1 (\<lambda>c. c\<lparr>c_base_resolving_in_progress := True\<rparr>) family_heap"
  define h2 where "h2 = update_class 0 (\<lambda>c. c\<lparr>c_base_is_resolved := True\<rparr>)
      (update_class 0 (\<lambda>c. c\<lparr>c_base_resolving_in_progress := True\<rparr>) h1)"
  have find: "find_baseclass no_fetch 1 1 h1 = Inr (0, h1)"
    by (rule family_find) (simp_all add: h1_def update_class_def family_heap_def family_class_def removed_state_def cleared_class_def)
  have h1: "\<not> c_base_is_resolved (ch_classes h1 0)" "\<not> c_base_resolving_in_progress (ch_classes h1 0)" "c_baseclass_vars (ch_classes h1 0) = []"
    "ce_class (ch_entries h1 (cv_entry (ch_vars h1 1))) = None"
    by (simp_all add: h1_def update_class_def family_heap_def family_class_def cleared_class_def family_entry_def)
  then have zero: "resolve_base no_fetch 5 0 h1 = Some (None, h2)" by (simp add: numeral_eq_Suc h2_def)
  have "c_ancestors (ch_classes h2 0) = []" and pool: "ch_mempool h2 = ch_mempool family_heap"
    by (simp_all add: h2_def h1_def update_class_def family_heap_def family_class_def cleared_class_def)
  moreover have "\<exists>p m. knd_class_ref_new (ch_mempool family_heap) = Inr (p, m)"
    by (simp add: family_heap_def knd_class_ref_new_def knd_mempool_page_def incr_page_def knd_mempool_new_def empty_class_def Let_def)
  ultimately obtain h3 where link: "link_baseclass 1 0 h2 = (None, h3)"
    by (auto simp: link_baseclass_def add_ancestor_def)
  have "resolve_base no_fetch 6 1 family_heap = resolve_baseclass_vars no_fetch 5 1 [1] h1"
    by (simp add: eval_nat_numeral h1_def) (simp add: family_heap_def family_class_def cleared_class_def)
  also have "\<dots> = resolve_baseclass_vars no_fetch 5 1 [] (update_entry (cv_entry (ch_vars h3 1)) (\<lambda>e. e\<lparr>ce_class := Some 0\<rparr>) h3)"
    using h1 find zero link by simp
  finally show ?thesis by simp
qed

section \<open>Properties\<close>

text \<open>
  C4: Resolving the base classes of any of a finite set of loaded classes returns, whatever their base classes are,
  with the fuel of one call per class and one more; the classes are still loaded.
\<close>

theorem class_base_returns:
  assumes "loaded C r h" and "c \<in> C" and "card C < fuel"
  shows "\<exists>e h'. resolve_base fetch fuel c h = Some (e, h') \<and> loaded C r h'"
  using loaded_result [OF assms, of fetch] by blast

theorem class_base_returns_witness:
  "\<exists>e h'. resolve_base no_fetch 6 3 family_heap = Some (e, h') \<and> loaded {0, 1, 2, 3, 4} 0 h'"
  by (rule class_base_returns [OF family_loaded]) simp_all

text \<open>
  C3: When resolving succeeds, the ancestors of the class are its base classes and what these are derived from, less
  the inherited ones marked as tops, and the check of inheritance on a class that is no clone says so. It
  keeps the invariant of the resolved classes and their ancestors.
\<close>

theorem class_ancestors_closure:
  assumes "loaded C r h" and "base_inv C h" and "c \<in> C" and "card C < fuel"
    and "resolve_base fetch fuel c h = Some (None, h')"
  shows "base_inv C h' \<and> ancestors h' c = {a. derives h c a} \<and>
    (\<forall>b\<in>C. ce_base (ch_entries h (c_entry (ch_classes h b))) = None \<longrightarrow> (knd_is_base b c h' = None \<longleftrightarrow> derives h c b)) \<and>
    (\<forall>d\<in>resolved C h. c_ancestors (ch_classes h' d) = c_ancestors (ch_classes h d))"
proof -
  note s = loaded_success [OF assms]
  have d: "derives h' c a \<longleftrightarrow> derives h c a" for a by (rule keeps_derives [OF s(4) assms(1,3)])
  have "knd_is_base b c h' = None \<longleftrightarrow> derives h c b"
    if "b \<in> C" "ce_base (ch_entries h (c_entry (ch_classes h b))) = None" for b
  proof -
    have "ce_base (ch_entries h' (c_entry (ch_classes h' b))) = None"
      using s(4) that(2) keeps_c_entry [OF s(4)] by (simp add: keeps_def same_entry_def)
    then show ?thesis using is_base_derives [OF s(5,1,2) that(1)] d by simp
  qed
  moreover have "ancestors h' c = {a. derives h c a}" using base_invD(2) [OF s(1,2)] d by simp
  moreover have "c_ancestors (ch_classes h' d) = c_ancestors (ch_classes h d)" if "d \<in> resolved C h" for d
    by (rule growsD(2) [OF s(3)]) (use that s(6) in auto)
  ultimately show ?thesis using s(1) by blast
qed

theorem class_ancestors_closure_witness:
  "\<exists>h'. resolve_base no_fetch 6 1 family_heap = Some (None, h') \<and> ancestors h' 1 = {0} \<and>
    {a. derives family_heap 1 a} = {0}"
proof -
  obtain h' where h': "resolve_base no_fetch 6 1 family_heap = Some (None, h')" using family_resolves by blast
  have "ancestors h' 1 = {a. derives family_heap 1 a}"
    using class_ancestors_closure [OF family_loaded family_inv _ _ h'] by simp
  moreover have "derives family_heap 1 a \<longleftrightarrow> a \<in> {0}" for a
  proof -
    have bases: "bases family_heap 0 = {}" "bases family_heap 1 = {0}"
      using family_bases [of 1] by (simp_all add: bases_def family_base_def family_heap_def family_class_def cleared_class_def)
    show ?thesis using derives_iff [of family_heap 0 a] derives_iff [of family_heap 1 a] unfolding bases by blast
  qed
  ultimately show ?thesis using h' by auto
qed

text \<open>
  C5: A class that is on a circle of base classes or above which there is one is never resolved: the call
  returns an error, and the class stays marked as being resolved.
\<close>

theorem class_circle_error:
  assumes "loaded C r h" and "base_inv C h" and "c \<in> C" and "card C < fuel"
    and "(\<lambda>c b. b \<in> bases h c)\<^sup>*\<^sup>* c d" and "(\<lambda>c b. b \<in> bases h c)\<^sup>+\<^sup>+ d d"
  shows "\<exists>e h'. resolve_base fetch fuel c h = Some (Some e, h') \<and>
    c_base_resolving_in_progress (ch_classes h' c)"
proof -
  have circle: "c \<notin> resolved C g" if "base_inv C g" "keeps C h g" for g
  proof
    assume "c \<in> resolved C g"
    moreover have "(\<lambda>c b. b \<in> bases g c)\<^sup>*\<^sup>* c d" "(\<lambda>c b. b \<in> bases g c)\<^sup>+\<^sup>+ d d"
      using keeps_paths [OF that(2) assms(1,3) assms(5)] keeps_loop [OF that(2) assms(1) _ assms(6)] by simp_all
    ultimately show False using resolved_closed [OF that(1)] base_invD(3) [OF that(1), of d] by (metis rtranclpD)
  qed
  obtain e h' where h': "resolve_base fetch fuel c h = Some (e, h')" "keeps C h h'"
    using loaded_result [OF assms(1,3,4), of fetch] by blast
  have "e \<noteq> None"
  proof
    assume "e = None"
    with h'(1) have "resolve_base fetch fuel c h = Some (None, h')" by simp
    from loaded_success(1,2) [OF assms(1-4) this] circle [OF _ h'(2)] show False by blast
  qed
  moreover have "\<not> c_base_is_resolved (ch_classes h c)"
    using circle [OF assms(2) keeps_refl] assms(3) by (simp add: resolved_def)
  ultimately show ?thesis
    using h'(1) failed_base_stays_marked [OF assms(1,3,4)] by (cases e) auto
qed

theorem class_circle_error_witness:
  "\<exists>e h'. resolve_base no_fetch 6 3 family_heap = Some (Some e, h') \<and> c_base_resolving_in_progress (ch_classes h' 3)"
proof -
  have bases: "bases family_heap 3 = {4}" "bases family_heap 4 = {3}"
    using family_bases [of 3] family_bases [of 4] by (simp_all add: family_base_def)
  then have "(\<lambda>c b. b \<in> bases family_heap c)\<^sup>+\<^sup>+ 3 3"
    by (intro tranclp.trancl_into_trancl [of _ 3 4 3] tranclp.r_into_trancl) simp_all
  then show ?thesis by (intro class_circle_error [OF family_loaded family_inv _ _ rtranclp.rtrancl_refl]) simp_all
qed

end
