(* ===== verification/Class_Attrs.thy ===== *)
theory Class_Attrs
  imports Class_Base
begin

text \<open>
  The attributes of a class: finding one by its name in \<^verbatim>\<open>src/knd_class.c\<close>, inheriting them in
  \<^verbatim>\<open>src/knd_class.resolve.c\<close>, and checking and registering the attributes that a class declares, in
  \<^verbatim>\<open>src/knd_attr.resolve.c\<close>. The texts that errors leave in the output of the task are not modelled.
\<close>

section \<open>Runs that may need more fuel\<close>

type_synonym class_run = "(failure option \<times> class_heap) option"

definition then_run :: "(failure option \<times> 's) option \<Rightarrow> ('s \<Rightarrow> (failure option \<times> 's) option) \<Rightarrow> (failure option \<times> 's) option" where
  "then_run r k = (case r of None \<Rightarrow> None | Some (Some e, s) \<Rightarrow> Some (Some e, s) | Some (None, s) \<Rightarrow> k s)"

definition bind_run :: "('s, 'a) outcome option \<Rightarrow> ('a \<Rightarrow> 's \<Rightarrow> (failure option \<times> 's) option) \<Rightarrow> (failure option \<times> 's) option" where
  "bind_run r k = (case r of None \<Rightarrow> None | Some (Inl (e, s)) \<Rightarrow> Some (Some e, s) | Some (Inr (x, s)) \<Rightarrow> k x s)"

fun run_each :: "('a \<Rightarrow> 's \<Rightarrow> (failure option \<times> 's) option) \<Rightarrow> 'a list \<Rightarrow> 's \<Rightarrow> (failure option \<times> 's) option" where
  "run_each f [] s = Some (None, s)"
| "run_each f (x # xs) s = then_run (f x s) (run_each f xs)"

text \<open>A pointer that is followed is not \<^verbatim>\<open>NULL\<close>.\<close>

definition deref :: "'a option \<Rightarrow> 's \<Rightarrow> ('a \<Rightarrow> (failure option \<times> 's) option) \<Rightarrow> (failure option \<times> 's) option" where
  "deref p s k = (case p of None \<Rightarrow> Some (Some Stuck, s) | Some x \<Rightarrow> k x)"

definition update_attr :: "nat \<Rightarrow> (kndAttr \<Rightarrow> kndAttr) \<Rightarrow> class_heap \<Rightarrow> class_heap" where
  "update_attr a f h = h\<lparr>ch_attrs := (ch_attrs h)(a := f (ch_attrs h a))\<rparr>"

definition update_var :: "nat \<Rightarrow> (kndAttrVar \<Rightarrow> kndAttrVar) \<Rightarrow> class_heap \<Rightarrow> class_heap" where
  "update_var v f h = h\<lparr>ch_attr_vars := (ch_attr_vars h)(v := f (ch_attr_vars h v))\<rparr>"

definition update_ref :: "nat \<Rightarrow> (kndAttrRef \<Rightarrow> kndAttrRef) \<Rightarrow> class_heap \<Rightarrow> class_heap" where
  "update_ref r f h = h\<lparr>ch_attr_refs := (ch_attr_refs h)(r := f (ch_attr_refs h r))\<rparr>"

section \<open>Finding an attribute\<close>

text \<open>The first reference of the set, in the order of its identifiers, to an attribute of the name.\<close>

definition match_attr :: "class_heap \<Rightarrow> byte list \<Rightarrow> nat option \<Rightarrow> byte list \<Rightarrow> nat \<Rightarrow> nat \<Rightarrow> failure option \<times> nat option" where
  "match_attr h name found elem_id n ref =
     (case ar_attr (ch_attr_refs h ref) of
        None \<Rightarrow> (Some Stuck, found)
      | Some attr \<Rightarrow> if at_name (ch_attrs h attr) = name then (Some (Err knd_EXISTS), Some ref) else (None, found))"

definition knd_class_get_attr :: "class_heap \<Rightarrow> nat \<Rightarrow> byte list \<Rightarrow> nat result" where
  "knd_class_get_attr h self name =
     (case knd_set_map (ch_sets h (c_attr_idx (ch_classes h self))) (match_attr h name) None of
        (Some (Err knd_EXISTS), Some ref) \<Rightarrow> Inr ref
      | (Some Stuck, _) \<Rightarrow> Inl Stuck
      | _ \<Rightarrow> Inl (Err knd_NO_MATCH))"

definition knd_class_get_attr_var :: "class_heap \<Rightarrow> nat \<Rightarrow> byte list \<Rightarrow> nat result" where
  "knd_class_get_attr_var h self name =
     bind_result (knd_class_get_attr h self name) (\<lambda>ref.
       case ar_attr_var (ch_attr_refs h ref) of None \<Rightarrow> Inl (Err knd_NO_MATCH) | Some var \<Rightarrow> Inr var)"

section \<open>Inheriting\<close>

text \<open>Adding a reference to the set at an address.\<close>

definition add_to_set :: "nat \<Rightarrow> byte list \<Rightarrow> nat \<Rightarrow> class_heap \<Rightarrow> failure option \<times> class_heap" where
  "add_to_set set_addr key ref h =
     (case knd_set_add (ch_sets h set_addr) key ref (ch_mempool h) of
        (err, attr_set, mempool) \<Rightarrow> (err, h\<lparr>ch_sets := (ch_sets h)(set_addr := attr_set), ch_mempool := mempool\<rparr>))"

definition take_val :: "nat \<Rightarrow> nat \<Rightarrow> class_heap \<Rightarrow> class_heap" where
  "take_val src_ref ref h =
     update_ref ref (\<lambda>r. r\<lparr>ar_attr_var := ar_attr_var (ch_attr_refs h src_ref),
       ar_class_entry := ar_class_entry (ch_attr_refs h src_ref)\<rparr>) h"

definition inherit_attr :: "nat \<Rightarrow> class_heap \<Rightarrow> byte list \<Rightarrow> nat \<Rightarrow> nat \<Rightarrow> failure option \<times> class_heap" where
  "inherit_attr self h elem_id n src_ref =
     (let attr_idx = c_attr_idx (ch_classes h self); src = ch_attr_refs h src_ref in
      case ar_attr src of
        None \<Rightarrow> (Some Stuck, h)
      | Some attr \<Rightarrow>
          (case knd_set_get (ch_sets h attr_idx) (at_id (ch_attrs h attr)) of
             Inl Stuck \<Rightarrow> (Some Stuck, h)
           | Inr ref \<Rightarrow> (None, if ar_attr_var src \<noteq> None then take_val src_ref ref h else h)
           | Inl (Err _) \<Rightarrow>
               (case knd_attr_ref_new (ch_mempool h) of
                  Inl e \<Rightarrow> (Some e, h)
                | Inr (ref, mempool) \<Rightarrow>
                    then_step
                      (add_to_set attr_idx (at_id (ch_attrs h attr)) ref
                        (update_ref ref (\<lambda>_. new_attr_ref\<lparr>ar_attr := Some attr, ar_attr_var := ar_attr_var src,
                           ar_class_entry := ar_class_entry src\<rparr>) (h\<lparr>ch_mempool := mempool\<rparr>)))
                      (\<lambda>h. (None,
                        if at_is_implied (ch_attrs h attr) \<and> c_implied_attr (ch_classes h self) = None
                        then update_class self (\<lambda>c. c\<lparr>c_implied_attr := Some attr\<rparr>) h else h)))))"

text \<open>\<open>resolve\<close> resolves a class that is not resolved yet.\<close>

definition resolve_class :: "(nat \<Rightarrow> class_heap \<Rightarrow> class_run) \<Rightarrow> nat \<Rightarrow> class_heap \<Rightarrow> class_run" where
  "resolve_class resolve c h = (if c_is_resolved (ch_classes h c) then Some (None, h) else resolve c h)"

definition inherit_attrs :: "(nat \<Rightarrow> class_heap \<Rightarrow> class_run) \<Rightarrow> nat \<Rightarrow> nat \<Rightarrow> class_heap \<Rightarrow> class_run" where
  "inherit_attrs resolve self base h =
     then_run (resolve_class resolve base h) (\<lambda>h.
       Some (knd_set_map (ch_sets h (c_attr_idx (ch_classes h base))) (inherit_attr self) h))"

section \<open>Primary attributes\<close>

text \<open>The references of the attribute's name in the repository, the newest first; the chain is followed with fuel.\<close>

fun conflict_in_chain :: "nat \<Rightarrow> nat \<Rightarrow> nat option \<Rightarrow> class_heap \<Rightarrow> class_run" where
  "conflict_in_chain fuel self None h = Some (None, h)"
| "conflict_in_chain 0 self (Some attr_ref) h = None"
| "conflict_in_chain (Suc fuel) self (Some attr_ref) h =
     deref (ar_attr (ch_attr_refs h attr_ref)) h (\<lambda>attr.
       case knd_set_get (ch_sets h (c_attr_idx (ch_classes h self))) (at_id (ch_attrs h attr)) of
         Inr _ \<Rightarrow> Some (Some (Err knd_CONFLICT), h)
       | Inl Stuck \<Rightarrow> Some (Some Stuck, h)
       | Inl (Err _) \<Rightarrow> conflict_in_chain fuel self (ar_next (ch_attr_refs h attr_ref)) h)"

definition class_repo_addr :: "class_heap \<Rightarrow> nat \<Rightarrow> nat" where
  "class_repo_addr h self = ce_repo (ch_entries h (c_entry (ch_classes h self)))"

definition check_attr_name_conflict :: "nat \<Rightarrow> nat \<Rightarrow> nat \<Rightarrow> class_heap \<Rightarrow> class_run" where
  "check_attr_name_conflict fuel self attr_candidate h =
     (case knd_shared_dict_get (ra_name_idx (ch_repo_attrs h (class_repo_addr h self))) (at_name (ch_attrs h attr_candidate)) of
        Inl e \<Rightarrow> Some (Some e, h)
      | Inr attr_ref \<Rightarrow> conflict_in_chain fuel self attr_ref h)"

text \<open>A new attribute gets the next identifier of the repository.\<close>

definition number_attr :: "nat \<Rightarrow> nat \<Rightarrow> class_heap \<Rightarrow> failure option \<times> class_heap" where
  "number_attr repo attr h =
     (let ra = ch_repo_attrs h repo; numid = ra_attr_id_count ra + 1;
          h = h\<lparr>ch_repo_attrs := (ch_repo_attrs h)(repo := ra\<lparr>ra_attr_id_count := numid\<rparr>)\<rparr> in
      case knd_uid_create numid of
        Inl e \<Rightarrow> (Some e, h)
      | Inr uid \<Rightarrow> (None, update_attr attr (\<lambda>a. a\<lparr>at_numid := numid, at_id := uid\<rparr>) h))"

definition register_globally :: "nat \<Rightarrow> nat \<Rightarrow> nat \<Rightarrow> class_heap \<Rightarrow> failure option \<times> class_heap" where
  "register_globally repo attr attr_ref h =
     (let ra = ch_repo_attrs h repo; name = at_name (ch_attrs h attr) in
      case knd_shared_dict_get (ra_name_idx ra) name of
        Inl e \<Rightarrow> (Some e, h)
      | Inr next_ref \<Rightarrow>
          (let h = update_ref attr_ref (\<lambda>r. r\<lparr>ar_next := next_ref\<rparr>) h in
           case knd_shared_dict_set (ra_name_idx ra) name (Some attr_ref) (ch_mempool h) None True of
             (err, _, name_idx, mempool) \<Rightarrow>
               then_step
                 (err, h\<lparr>ch_repo_attrs := (ch_repo_attrs h)(repo := ra\<lparr>ra_name_idx := name_idx\<rparr>), ch_mempool := mempool\<rparr>)
                 (add_to_set (ra_attr_idx ra) (at_id (ch_attrs h attr)) attr_ref)))"

text \<open>A dictionary of the task takes its items from the pool of the task.\<close>

definition task_dict_set :: "nat \<Rightarrow> nat \<Rightarrow> class_heap \<Rightarrow> failure option \<times> class_heap" where
  "task_dict_set attr attr_ref h =
     (case knd_dict_set (ch_task_attr_name_idx h) (ch_mempool h) (at_name (ch_attrs h attr)) (Some attr_ref) of
        (err, name_idx, mempool) \<Rightarrow> (err, h\<lparr>ch_task_attr_name_idx := name_idx, ch_mempool := mempool\<rparr>))"

definition register_attr :: "knd_task_spec_type \<Rightarrow> nat \<Rightarrow> nat \<Rightarrow> class_heap \<Rightarrow> failure option \<times> class_heap" where
  "register_attr task_type self attr h =
     (case knd_attr_ref_new (ch_mempool h) of
        Inl e \<Rightarrow> (Some e, h)
      | Inr (attr_ref, mempool) \<Rightarrow>
          (let repo = class_repo_addr h self;
               h = update_ref attr_ref (\<lambda>_. new_attr_ref\<lparr>ar_attr := Some attr, ar_class_entry := Some (c_entry (ch_classes h self))\<rparr>)
                 (h\<lparr>ch_mempool := mempool\<rparr>) in
           then_step (number_attr repo attr h) (\<lambda>h.
             if task_type \<in> {KND_RESTORE_STATE, KND_BULK_LOAD_STATE} then
               then_step (register_globally repo attr attr_ref h) (\<lambda>h.
                 add_to_set (c_attr_idx (ch_classes h self)) (at_id (ch_attrs h attr)) attr_ref h)
             else task_dict_set attr attr_ref h)))"

text \<open>The last argument of a name counts.\<close>

fun find_args :: "nat \<Rightarrow> nat list \<Rightarrow> class_heap \<Rightarrow> class_heap" where
  "find_args attr [] h = h"
| "find_args attr (arg # args) h =
     (let name = pa_name (ch_args h arg);
          h = (if name = at_arg_name (ch_attrs h attr) then update_attr attr (\<lambda>a. a\<lparr>at_arg := Some arg\<rparr>) h else h);
          h = (if name = at_impl_arg_name (ch_attrs h attr) then update_attr attr (\<lambda>a. a\<lparr>at_impl_arg := Some arg\<rparr>) h else h)
      in find_args attr args h)"

definition attr_resolve_rel :: "nat \<Rightarrow> nat \<Rightarrow> class_heap \<Rightarrow> class_run" where
  "attr_resolve_rel self attr h =
     (let proc_name = at_ref_proc_name (ch_attrs h attr) in
      if proc_name = [] then Some (Some Stuck, h)
      else
        (case knd_shared_dict_get (ch_proc_name_idx h (class_repo_addr h self)) proc_name of
           Inl e \<Rightarrow> Some (Some e, h)
         | Inr None \<Rightarrow> Some (Some (Err knd_NO_MATCH), h)
         | Inr (Some proc_entry) \<Rightarrow>
             (let h = update_attr attr (\<lambda>a. a\<lparr>at_proc := pe_proc (ch_proc_entries h proc_entry)\<rparr>) h in
              deref (at_proc (ch_attrs h attr)) h (\<lambda>proc.
                let h = find_args attr (po_args (ch_procs h proc)) h in
                if at_arg (ch_attrs h attr) = None \<or> at_impl_arg (ch_attrs h attr) = None
                then Some (Some (Err knd_NO_MATCH), h) else Some (None, h)))))"

definition resolve_attr_type :: "nat \<Rightarrow> nat \<Rightarrow> class_heap \<Rightarrow> class_run" where
  "resolve_attr_type self attr h =
     (let a = ch_attrs h attr; repo = class_repo_addr h self in
      case at_type a of
        KND_ATTR_REL \<Rightarrow> attr_resolve_rel self attr h
      | KND_ATTR_REF \<Rightarrow>
          if at_ref_classname a = [] then Some (Some (Err knd_FAIL), h)
          else
            (case knd_shared_dict_get (repo_class_name_idx (ch_repos h repo)) (at_ref_classname a) of
               Inl e \<Rightarrow> Some (Some e, h)
             | Inr None \<Rightarrow> Some (Some (Err knd_NO_MATCH), h)
             | Inr (Some entry) \<Rightarrow> Some (None, update_attr attr (\<lambda>a. a\<lparr>at_ref_class_entry := Some entry\<rparr>) h))
      | KND_ATTR_PROC_REF \<Rightarrow>
          if at_ref_proc_name a = [] then Some (Some (Err knd_FAIL), h)
          else
            (case knd_shared_dict_get (ch_proc_name_idx h repo) (at_ref_proc_name a) of
               Inl e \<Rightarrow> Some (Some e, h)
             | Inr None \<Rightarrow> Some (Some (Err knd_FAIL), h)
             | Inr (Some _) \<Rightarrow> Some (None, h))
      | _ \<Rightarrow> Some (None, h))"

definition resolve_primary_attr :: "knd_task_spec_type \<Rightarrow> nat \<Rightarrow> nat \<Rightarrow> nat \<Rightarrow> class_heap \<Rightarrow> class_run" where
  "resolve_primary_attr task_type fuel self attr h =
     then_run (check_attr_name_conflict fuel self attr h) (\<lambda>h.
       then_run (resolve_attr_type self attr h) (\<lambda>h.
         let h = (if at_is_implied (ch_attrs h attr)
                  then update_class self (\<lambda>c. c\<lparr>c_implied_attr := Some attr\<rparr>) h else h)
         in Some (register_attr task_type self attr h)))"

definition knd_resolve_primary_attrs :: "knd_task_spec_type \<Rightarrow> nat \<Rightarrow> nat \<Rightarrow> class_heap \<Rightarrow> class_run" where
  "knd_resolve_primary_attrs task_type fuel self h =
     run_each (resolve_primary_attr task_type fuel self) (c_attrs (ch_classes h self)) h"

section \<open>Hubs\<close>

definition knd_attr_hub_resolve :: "class_fetch \<Rightarrow> kndAttrHub \<Rightarrow> class_heap \<Rightarrow> (class_heap, kndAttrHub) outcome" where
  "knd_attr_hub_resolve fetch hub h =
     (case ah_topic_template hub of
        None \<Rightarrow> Inl (Stuck, h)
      | Some entry \<Rightarrow>
          bind_out (knd_class_acquire fetch entry h) (\<lambda>c h.
            case knd_set_get (ch_sets h (c_attr_idx (ch_classes h c))) (ah_attr_id hub) of
              Inl e \<Rightarrow> Inl (e, h)
            | Inr ref \<Rightarrow> Inr (hub\<lparr>ah_attr := ar_attr (ch_attr_refs h ref)\<rparr>, h)))"

end
