(* ===== verification/Class_Pages.thy ===== *)
theory Class_Pages
  imports Attr_Data Elem_Set
begin

text \<open>
  What the operations on classes take from a pool: pages for references, for nodes of sets and for sets themselves,
  and what is left of each kind.
\<close>

section \<open>Sets as maps\<close>

lemma set_at_valid: "set_at self key = Some x \<Longrightarrow> valid_id key"
  by (auto simp: set_at_def elem_at_def split: option.splits if_splits)

lemma set_get_at: "set_ok self \<Longrightarrow> valid_id key \<Longrightarrow>
    knd_set_get self key = (case set_at self key of None \<Rightarrow> Inl (Err knd_NO_MATCH) | Some elem \<Rightarrow> Inr elem)"
  by (auto simp: set_ok_def knd_set_get_def set_at_def elem_at_def get_elem_lookup split: option.splits)

section \<open>Pages for references\<close>

lemma page_class_same: "canon u = canon t \<Longrightarrow> page_class u m = page_class t m"
  by (metis page_class_canon)

lemma page_keeps_other:
  assumes "knd_mempool_page m t = Inr (p, m')"
  shows "canon u \<noteq> canon t \<Longrightarrow> pages_left u m' = pages_left u m"
    and "pc_page_size (page_class u m') = pc_page_size (page_class u m)"
  using assms page_class_same [of u t m]
  by (auto simp: knd_mempool_page_def get_page_def get_shared_page_def incr_page_def Let_def pages_left_def page_class_set_if
      split: knd_mempool_type.splits if_splits)

definition refs_ready :: "kndMemPool \<Rightarrow> bool" where
  "refs_ready m \<longleftrightarrow> nodes_ready m \<and> 48 \<le> pc_page_size (mp_tiny m)"

abbreviation refs_left :: "kndMemPool \<Rightarrow> nat list" where
  "refs_left m \<equiv> pages_left KND_MEMPAGE_TINY m"

lemma elem_idx_new_other:
  assumes "knd_set_elem_idx_new m = Inr (idx, m')"
  shows "canon t \<noteq> KND_MEMPAGE_BASE \<Longrightarrow> pages_left t m' = pages_left t m"
    and "pc_page_size (page_class t m') = pc_page_size (page_class t m)"
proof -
  obtain p where p: "knd_mempool_page m KND_MEMPAGE_BASE = Inr (p, m')"
    using assms by (auto simp: knd_set_elem_idx_new_def bind_result_eq_Inr split: if_splits)
  show "canon t \<noteq> KND_MEMPAGE_BASE \<Longrightarrow> pages_left t m' = pages_left t m"
    and "pc_page_size (page_class t m') = pc_page_size (page_class t m)"
    using page_keeps_other [OF p, of t] by simp_all
qed

lemma save_in_keeps:
  assumes "\<And>m idx m'. new_node m = Inr (idx, m') \<Longrightarrow> f m' = f m"
  shows "save_in new_node bad ow idx elem key m = (err, idx', m') \<Longrightarrow> f m' = f m"
  using assms
  by (induction new_node bad ow idx elem key m arbitrary: err idx' m' rule: save_in.induct)
    (force simp: Let_def split: if_splits option.splits sum.splits prod.splits)+

lemma set_add_other:
  assumes "knd_set_add self key elem m = (err, self', m')" and "set_ok self"
  shows "canon t \<noteq> KND_MEMPAGE_BASE \<Longrightarrow> pages_left t m' = pages_left t m"
    and "pc_page_size (page_class t m') = pc_page_size (page_class t m)"
proof -
  obtain idx err1 idx' where s: "save_elem (set_allow_overwrite self) idx elem key m = (err1, idx', m')"
    by (rule set_add_cases [OF assms(2), of elem key m]) (use assms(1) in auto)
  note s = s [unfolded save_elem_def]
  show "canon t \<noteq> KND_MEMPAGE_BASE \<Longrightarrow> pages_left t m' = pages_left t m"
    by (rule save_in_keeps [where f = "pages_left t", OF _ s]) (rule elem_idx_new_other(1))
  show "pc_page_size (page_class t m') = pc_page_size (page_class t m)"
    by (rule save_in_keeps [where f = "\<lambda>m. pc_page_size (page_class t m)", OF _ s]) (rule elem_idx_new_other(2))
qed

lemma set_add_pool:
  assumes "knd_set_add self key elem m = (err, self', m')" and "set_ok self" and "valid_id key" and "refs_ready m"
  shows "refs_ready m' \<and> refs_left m' = refs_left m \<and> nodes_left m \<le> nodes_left m' + length key \<and>
    (length key \<le> nodes_left m \<longrightarrow> set_at self key = None \<longrightarrow> err = None)"
proof (rule set_add_cases [OF assms(2), of elem key m])
  fix idx err1 idx' m1
  assume s: "save_elem (set_allow_overwrite self) idx elem key m = (err1, idx', m1)"
    and add: "knd_set_add self key elem m = (err1,
       (if err1 = None then self\<lparr>set_idx := Some idx', set_num_elems := set_num_elems self + 1,
          set_num_valid_elems := set_num_valid_elems self + 1\<rparr> else self\<lparr>set_idx := Some idx'\<rparr>), m1)"
  have m1: "m1 = m'" using add assms(1) by simp
  note s = s [unfolded save_elem_def m1]
  have "nodes_ready m' \<and> nodes_left m < nodes_left m' + length key"
    using pool_nodes.save_nodes [OF s assms(3)] assms(4) by (simp add: refs_ready_def)
  moreover have "length key \<le> nodes_left m \<longrightarrow> set_at self key = None \<longrightarrow> err = None"
    using set_add_effect [OF assms(2), of key elem m] assms(1,3,4) by (cases err) (auto simp: refs_ready_def)
  ultimately show ?thesis
    using assms(4) set_add_other [OF assms(1,2), of KND_MEMPAGE_TINY] by (simp add: refs_ready_def)
qed

lemma ref_new_cases:
  assumes "refs_ready m"
  obtains (None) "refs_left m = []" "knd_attr_ref_new m = Inl (Err knd_NOMEM)"
  | (Some) p ps m' where "refs_left m = p # ps" "distinct (p # ps)" "knd_attr_ref_new m = Inr (p, m')" "refs_ready m'"
      "refs_left m' = ps" "nodes_left m' = nodes_left m"
proof (cases "refs_left m")
  case Nil
  moreover have "\<not> pc_page_size (mp_tiny m) < 48" using assms by (simp add: refs_ready_def not_less)
  ultimately show ?thesis using None pages_left_step [of m KND_MEMPAGE_TINY] assms
    by (simp add: knd_attr_ref_new_def refs_ready_def nodes_ready_def)
next
  case (Cons p ps)
  then obtain m' where m': "distinct (p # ps)" "knd_mempool_page m KND_MEMPAGE_TINY = Inr (p, m')" "pool_ready m'" "refs_left m' = ps"
    using pages_left_step [of m KND_MEMPAGE_TINY] assms by (auto simp: refs_ready_def nodes_ready_def)
  have "nodes_left m' = nodes_left m" "pc_page_size (mp_base m') = pc_page_size (mp_base m)"
    "pc_page_size (mp_tiny m') = pc_page_size (mp_tiny m)"
    using page_keeps_other [OF m'(2), of KND_MEMPAGE_BASE] page_keeps_other(2) [OF m'(2), of KND_MEMPAGE_TINY] by simp_all
  moreover have "\<not> pc_page_size (mp_tiny m) < 48" using assms by (simp add: refs_ready_def not_less)
  ultimately show ?thesis using m' Cons Some assms by (simp add: knd_attr_ref_new_def refs_ready_def nodes_ready_def)
qed

section \<open>Pages for sets\<close>

abbreviation sets_left :: "kndMemPool \<Rightarrow> nat list" where
  "sets_left m \<equiv> pages_left KND_MEMPAGE_SMALL m"

definition index_pool :: "kndMemPool \<Rightarrow> bool" where
  "index_pool m \<longleftrightarrow> nodes_ready m \<and> 64 \<le> pc_page_size (mp_tiny m) \<and> 80 \<le> pc_page_size (mp_small m)"

text \<open>An operation takes at most so many pages for references, sets and nodes.\<close>

definition spends :: "nat \<Rightarrow> nat \<Rightarrow> nat \<Rightarrow> kndMemPool \<Rightarrow> kndMemPool \<Rightarrow> bool" where
  "spends r s n m m' \<longleftrightarrow> length (refs_left m) \<le> length (refs_left m') + r \<and> set (sets_left m') \<subseteq> set (sets_left m) \<and>
     length (sets_left m) \<le> length (sets_left m') + s \<and> nodes_left m \<le> nodes_left m' + n"

lemma spends_refl [simp]: "spends r s n m m"
  by (simp add: spends_def)

lemma spends_trans: "spends r s n m m' \<Longrightarrow> spends r' s' n' m' m'' \<Longrightarrow> spends (r + r') (s + s') (n + n') m m''"
  by (auto simp: spends_def)

lemma set_add_spends:
  assumes "set_ok self" and "\<not> set_allow_overwrite self" and "valid_id key" and "index_pool m" and "length key \<le> nodes_left m"
  obtains m' self' where "knd_set_add self key elem m = (if set_at self key = None then None else Some (Err knd_CONFLICT), self', m')"
    "set_ok self'" "set_at self' = (if set_at self key = None then (set_at self)(key \<mapsto> elem) else set_at self)"
    "set_allow_overwrite self' = set_allow_overwrite self" "index_pool m'" "spends 0 0 (length key) m m'"
proof -
  obtain err self' m' where add: "knd_set_add self key elem m = (err, self', m')" by (metis surj_pair)
  have ready: "refs_ready m" using assms(4) by (auto simp: index_pool_def refs_ready_def elim: order_trans [rotated])
  note pool = set_add_pool [OF add assms(1,3) ready]
  note other = set_add_other [OF add assms(1)]
  have size: "pc_page_size (mp_tiny m') = pc_page_size (mp_tiny m)" "pc_page_size (mp_small m') = pc_page_size (mp_small m)"
    using other(2) [of KND_MEMPAGE_TINY] other(2) [of KND_MEMPAGE_SMALL] by simp_all
  have "err = (if set_at self key = None then None else Some (Err knd_CONFLICT))"
    using pool set_add_effect [OF assms(1), of key elem m] assms(2,3,5) add by (cases err) (auto split: if_splits)
  moreover have "set_allow_overwrite self' = set_allow_overwrite self"
    by (rule set_add_cases [OF assms(1), of elem key m]) (use add in \<open>auto split: if_splits\<close>)
  moreover have "index_pool m'" using pool size assms(4) by (simp add: index_pool_def refs_ready_def)
  moreover have "spends 0 0 (length key) m m'" using pool other(1) [of KND_MEMPAGE_SMALL] by (simp add: spends_def)
  ultimately show thesis
    using set_add_effect [OF assms(1), of key elem m] add by (intro that [of self' m']) (auto split: if_splits)
qed

lemma page_cases:
  assumes "index_pool m" and "pages_left t m \<noteq> []"
  obtains p ps m' where "knd_mempool_page m t = Inr (p, m')" "pages_left t m = p # ps" "pages_left t m' = ps" "p \<notin> set ps"
    "index_pool m'" "\<And>u. canon u \<noteq> canon t \<Longrightarrow> pages_left u m' = pages_left u m"
    "\<And>u. pc_page_size (page_class u m') = pc_page_size (page_class u m)"
proof -
  obtain p ps where p: "pages_left t m = p # ps" using assms(2) by (cases "pages_left t m") auto
  then obtain m' where m': "knd_mempool_page m t = Inr (p, m')" "pool_ready m'" "pages_left t m' = ps" "p \<notin> set ps"
    using pages_left_step [of m t] assms(1) by (auto simp: index_pool_def nodes_ready_def)
  note keep = page_keeps_other [OF m'(1)]
  have "pc_page_size (mp_tiny m') = pc_page_size (mp_tiny m)" "pc_page_size (mp_small m') = pc_page_size (mp_small m)"
    "pc_page_size (mp_base m') = pc_page_size (mp_base m)"
    using keep(2) [of KND_MEMPAGE_TINY] keep(2) [of KND_MEMPAGE_SMALL] keep(2) [of KND_MEMPAGE_BASE] by simp_all
  then have "index_pool m'" using m'(2) assms(1) by (simp add: index_pool_def nodes_ready_def)
  then show thesis using m' p keep by (intro that [of p m' ps]) auto
qed

lemma set_new_spends:
  assumes "index_pool m" and "sets_left m \<noteq> []" and "nodes_left m \<noteq> 0"
  obtains p m1 m' and self :: "'e kndSet" where "knd_mempool_page m KND_MEMPAGE_SMALL = Inr (p, m1)" "knd_set_new m = (None, Some self, m')"
    "set_ok self" "set_at self = Map.empty" "\<not> set_allow_overwrite self" "p \<in> set (sets_left m)" "p \<notin> set (sets_left m')"
    "index_pool m'" "spends 0 1 1 m m'"
proof (rule page_cases [OF assms(1,2)])
  fix p ps m1
  assume page: "knd_mempool_page m KND_MEMPAGE_SMALL = Inr (p, m1)" "sets_left m = p # ps" "sets_left m1 = ps" "p \<notin> set ps"
    "index_pool m1" and keep: "\<And>u. canon u \<noteq> canon KND_MEMPAGE_SMALL \<Longrightarrow> pages_left u m1 = pages_left u m"
  have left: "nodes_left m1 = nodes_left m" "refs_left m1 = refs_left m"
    using keep [of KND_MEMPAGE_BASE] keep [of KND_MEMPAGE_TINY] by simp_all
  then obtain m' where m': "knd_set_elem_idx_new m1 = Inr (empty_idx :: 'e elem_idx, m')" "nodes_ready m'" "nodes_left m1 = Suc (nodes_left m')"
    using elem_idx_new_some [of m1] page(5) assms(3) by (auto simp: index_pool_def)
  note other = elem_idx_new_other [OF m'(1)]
  define self :: "'e kndSet" where
    "self = \<lparr>set_idx = Some empty_idx, set_num_elems = 0, set_num_valid_elems = 0, set_allow_overwrite = False\<rparr>"
  have "index_pool m'"
    using m'(2) page(5) other(2) [of KND_MEMPAGE_TINY] other(2) [of KND_MEMPAGE_SMALL] by (simp add: index_pool_def)
  moreover have "sets_left m' = ps" "refs_left m' = refs_left m"
    using other(1) [of KND_MEMPAGE_SMALL] other(1) [of KND_MEMPAGE_TINY] page(3) left by simp_all
  moreover have "knd_set_new m = (None, Some self, m')"
    using page(1) m'(1) assms(1) by (simp add: knd_set_new_def self_def index_pool_def not_less)
  moreover have "set_ok self" "set_at self = Map.empty" "\<not> set_allow_overwrite self"
    by (auto simp: self_def set_ok_def set_at_def elem_at_def lookup_empty idx_ok_empty digits_id_digits valid_id_def fun_eq_iff)
  ultimately show thesis
    using page m' left by (intro that [of p m1 self m']) (auto simp: spends_def)
qed

section \<open>Samples\<close>

definition small_pool :: kndMemPool where
  "small_pool = (knd_mempool_new KND_ALLOC_INCR 0 (\<lambda>_. 0))
     \<lparr>mp_base := empty_class\<lparr>pc_pages := 65536, pc_page_size := 1024, pc_num_pages := 8\<rparr>,
      mp_small_x4 := empty_class\<lparr>pc_pages := 32768, pc_page_size := 512, pc_num_pages := 1\<rparr>,
      mp_small_x2 := empty_class\<lparr>pc_pages := 16384, pc_page_size := 256, pc_num_pages := 1\<rparr>,
      mp_small := empty_class\<lparr>pc_pages := 8192, pc_page_size := 128, pc_num_pages := 4\<rparr>,
      mp_tiny := empty_class\<lparr>pc_pages := 4096, pc_page_size := 64, pc_num_pages := 4\<rparr>\<rparr>"

lemma small_pool_ok:
  "index_pool small_pool" "length (refs_left small_pool) = 4" "length (sets_left small_pool) = 4" "nodes_left small_pool = 8"
proof -
  have "class_ok (page_class t small_pool)" for t
    by (cases t) (simp_all add: small_pool_def knd_mempool_new_def empty_class_def class_ok_def)
  then show "index_pool small_pool"
    by (simp add: index_pool_def nodes_ready_def pool_ready_def) (simp add: small_pool_def knd_mempool_new_def empty_class_def)
  show "length (refs_left small_pool) = 4" "length (sets_left small_pool) = 4" "nodes_left small_pool = 8"
    by (simp_all add: pages_left_def small_pool_def knd_mempool_new_def empty_class_def class_pages_def upt_rec)
qed

lemma sample_empty_set_at: "set_ok sample_empty_set" "set_at sample_empty_set = Map.empty" "\<not> set_allow_overwrite sample_empty_set"
  by (auto simp: sample_empty_set_def set_ok_def set_at_def elem_at_def lookup_empty idx_ok_empty digits_id_digits valid_id_def
      fun_eq_iff sample_set_def)

end
