(* ===== verification/Class_Inherit.thy ===== *)
theory Class_Inherit
  imports Class_Attrs Class_Pages
begin

text \<open>
  Inheriting attributes as an operation on maps: \<open>set_view\<close> reads the set of a class as a map from the identifiers
  of attributes to their values, and \<open>inherit_attrs\<close> merges the map of the base class into it. The references live
  on pages of the pool, so that a new one must not be in use: \<open>inherit_ready\<close>.
\<close>

section \<open>The attributes of a set\<close>

type_synonym attr_view = "byte list \<Rightarrow> (nat \<times> nat option \<times> nat option) option"

text \<open>The attribute, the value and the class of it, of the reference that a set has for an identifier.\<close>

definition ref_view :: "class_heap \<Rightarrow> nat \<Rightarrow> nat \<times> nat option \<times> nat option" where
  "ref_view h ref = (let r = ch_attr_refs h ref in (the (ar_attr r), ar_attr_var r, ar_class_entry r))"

definition set_view :: "class_heap \<Rightarrow> nat \<Rightarrow> attr_view" where
  "set_view h s = map_option (ref_view h) \<circ> set_at (ch_sets h s)"

text \<open>An inherited value takes the place of the one before.\<close>

fun merge_attr :: "(nat \<times> nat option \<times> nat option) option \<Rightarrow> nat \<times> nat option \<times> nat option \<Rightarrow> nat \<times> nat option \<times> nat option" where
  "merge_attr None src = src"
| "merge_attr (Some (attr, old)) (_, None, _) = (attr, old)"
| "merge_attr (Some (attr, old)) (_, Some var, entry) = (attr, Some var, entry)"

definition refs_ok :: "class_heap \<Rightarrow> nat \<Rightarrow> bool" where
  "refs_ok h s \<longleftrightarrow> set_ok (ch_sets h s) \<and>
     (\<forall>key ref. set_at (ch_sets h s) key = Some ref \<longrightarrow> ref \<notin> set (refs_left (ch_mempool h)) \<and>
        (\<exists>attr. ar_attr (ch_attr_refs h ref) = Some attr \<and> at_id (ch_attrs h attr) = key))"

definition inherit_ready :: "class_heap \<Rightarrow> nat \<Rightarrow> nat \<Rightarrow> bool" where
  "inherit_ready h s b \<longleftrightarrow> s \<noteq> b \<and> refs_ok h s \<and> refs_ok h b \<and> refs_ready (ch_mempool h)"

lemma refs_okD:
  assumes "refs_ok h s" and "set_at (ch_sets h s) key = Some ref"
  shows "ref \<notin> set (refs_left (ch_mempool h))"
    and "\<exists>attr. ar_attr (ch_attr_refs h ref) = Some attr \<and> at_id (ch_attrs h attr) = key"
  using assms by (auto simp: refs_ok_def)

text \<open>Writing a reference that a set has for an identifier changes what another set has only for that identifier.\<close>

lemma refs_same_key:
  assumes "refs_ok h s" "refs_ok h b" "set_at (ch_sets h s) key = Some ref" "set_at (ch_sets h b) key' = Some ref"
  shows "key' = key"
  using refs_okD(2) [OF assms(1,3)] refs_okD(2) [OF assms(2,4)] by auto

lemma refs_ok_update:
  assumes "refs_ok h s" and "ar_attr (f (ch_attr_refs h ref)) = ar_attr (ch_attr_refs h ref)"
  shows "refs_ok (update_ref ref f h) s"
  using assms by (auto simp: refs_ok_def update_ref_def)

lemma take_val_view:
  assumes "inherit_ready h s b" and "set_at (ch_sets h b) key = Some src" and "set_at (ch_sets h s) key = Some ref"
    and "ar_attr_var (ch_attr_refs h src) = Some var"
  shows "inherit_ready (take_val src ref h) s b"
    and "set_view (take_val src ref h) s = (set_view h s)(key \<mapsto> merge_attr (set_view h s key) (ref_view h src))"
    and "set_view (take_val src ref h) b = set_view h b"
proof -
  have ok: "refs_ok h s" "refs_ok h b" using assms(1) by (simp_all add: inherit_ready_def)
  show "inherit_ready (take_val src ref h) s b"
    using assms(1) by (simp add: inherit_ready_def take_val_def refs_ok_update) (simp add: update_ref_def)
  have sets: "ch_sets (take_val src ref h) = ch_sets h" by (simp add: take_val_def update_ref_def)
  have other: "ref_view (take_val src ref h) r = ref_view h r" if "r \<noteq> ref" for r
    using that by (simp add: ref_view_def take_val_def update_ref_def Let_def)
  have at_ref: "ref_view (take_val src ref h) ref = merge_attr (Some (ref_view h ref)) (ref_view h src)"
    using assms(4) by (simp add: ref_view_def take_val_def update_ref_def Let_def)
  show "set_view (take_val src ref h) s = (set_view h s)(key \<mapsto> merge_attr (set_view h s key) (ref_view h src))"
  proof
    fix k show "set_view (take_val src ref h) s k = ((set_view h s)(key \<mapsto> merge_attr (set_view h s key) (ref_view h src))) k"
      using refs_same_key [OF ok(1,1) assms(3), of k] at_ref other assms(3)
      by (cases "set_at (ch_sets h s) k") (auto simp: set_view_def sets)
  qed
  show "set_view (take_val src ref h) b = set_view h b"
  proof
    fix k show "set_view (take_val src ref h) b k = set_view h b k"
    proof (cases "set_at (ch_sets h b) k")
      case (Some r)
      have "ref_view (take_val src ref h) r = ref_view h r"
      proof (cases "r = ref")
        case True
        then have "k = key" using refs_same_key [OF ok assms(3)] Some by simp
        then have "src = ref" using Some True assms(2) by simp
        then show ?thesis using at_ref True assms(4) by (simp add: ref_view_def Let_def)
      qed (rule other)
      then show ?thesis using Some by (simp add: set_view_def sets)
    qed (simp add: set_view_def sets)
  qed
qed

lemma set_get_none: "set_ok self \<Longrightarrow> valid_id key \<Longrightarrow> set_at self key = None \<Longrightarrow> knd_set_get self key = Inl (Err knd_NO_MATCH)"
  by (simp add: set_get_at)

text \<open>An attribute that the set does not have gets a new reference with the value of the source.\<close>

definition add_inherited :: "nat \<Rightarrow> nat \<Rightarrow> nat \<Rightarrow> nat \<Rightarrow> kndMemPool \<Rightarrow> class_heap \<Rightarrow> failure option \<times> class_heap" where
  "add_inherited s attr src ref mempool h =
     add_to_set s (at_id (ch_attrs h attr)) ref
       (update_ref ref (\<lambda>_. new_attr_ref\<lparr>ar_attr := Some attr, ar_attr_var := ar_attr_var (ch_attr_refs h src),
          ar_class_entry := ar_class_entry (ch_attr_refs h src)\<rparr>) (h\<lparr>ch_mempool := mempool\<rparr>))"

lemma add_inherited_view:
  assumes ready: "inherit_ready h s b" and src: "set_at (ch_sets h b) key = Some src" and new: "set_at (ch_sets h s) key = None"
    and attr: "ar_attr (ch_attr_refs h src) = Some attr"
    and page: "refs_left (ch_mempool h) = ref # ps" "distinct (ref # ps)" "refs_ready m" "refs_left m = ps"
      "nodes_left m = nodes_left (ch_mempool h)"
    and nodes: "length key \<le> nodes_left (ch_mempool h)"
  shows "\<exists>h'. add_inherited s attr src ref m h = (None, h') \<and> inherit_ready h' s b \<and>
    set_view h' s = (set_view h s)(key \<mapsto> ref_view h src) \<and> set_view h' b = set_view h b \<and>
    ch_sets h' b = ch_sets h b \<and> ch_classes h' = ch_classes h \<and> ch_attrs h' = ch_attrs h \<and>
    refs_left (ch_mempool h') = ps \<and> nodes_left (ch_mempool h) \<le> nodes_left (ch_mempool h') + length key"
proof -
  have ok: "refs_ok h s" "refs_ok h b" and sb: "s \<noteq> b" using ready by (simp_all add: inherit_ready_def)
  have setok: "set_ok (ch_sets h s)" using ok(1) by (simp add: refs_ok_def)
  have key: "at_id (ch_attrs h attr) = key" "valid_id key"
    using refs_okD(2) [OF ok(2) src] attr set_at_valid [OF src] by auto
  obtain err self' m' where add: "knd_set_add (ch_sets h s) key ref m = (err, self', m')" by (metis surj_pair)
  have pool: "refs_ready m' \<and> refs_left m' = ps \<and> nodes_left m \<le> nodes_left m' + length key"
    and err: "err = None"
    using set_add_pool [OF add setok key(2) page(3)] page(4,5) nodes new by simp_all
  have set': "set_ok self'" "set_at self' = (set_at (ch_sets h s))(key \<mapsto> ref)"
    using set_add_effect [OF setok, of key ref m] add err by simp_all
  define r where "r = new_attr_ref\<lparr>ar_attr := Some attr, ar_attr_var := ar_attr_var (ch_attr_refs h src),
          ar_class_entry := ar_class_entry (ch_attr_refs h src)\<rparr>"
  define h' where "h' = h\<lparr>ch_sets := (ch_sets h)(s := self'), ch_attr_refs := (ch_attr_refs h)(ref := r), ch_mempool := m'\<rparr>"
  have run: "add_inherited s attr src ref m h = (None, h')"
    using add err by (simp add: add_inherited_def add_to_set_def update_ref_def key(1) h'_def r_def)
  have old: "x \<noteq> ref \<and> x \<notin> set ps" if "set_at (ch_sets h c) k = Some x" "refs_ok h c" for c k x
    using refs_okD(1) [OF that(2,1)] page(1) by auto
  have rview: "ref_view h' x = (if x = ref then ref_view h src else ref_view h x)" for x
    using attr by (simp add: ref_view_def h'_def r_def Let_def new_attr_ref_def)
  have "refs_ok h' s"
    using set' pool old [OF _ ok(1)] refs_okD(2) [OF ok(1)] page(2) key(1)
    by (auto simp: refs_ok_def h'_def r_def new_attr_ref_def)
  moreover have "refs_ok h' b"
    using ok(2) sb pool old [OF _ ok(2)] by (auto simp: refs_ok_def h'_def)
  ultimately have "inherit_ready h' s b" using sb pool by (simp add: inherit_ready_def) (simp add: h'_def)
  moreover have "set_view h' s k = ((set_view h s)(key \<mapsto> ref_view h src)) k" for k
    using old [OF _ ok(1), of k] set'(2) by (cases "set_at (ch_sets h s) k") (auto simp: set_view_def rview, auto simp: h'_def)
  moreover have "set_view h' b k = set_view h b k" for k
    using old [OF _ ok(2), of k] sb by (cases "set_at (ch_sets h b) k") (auto simp: set_view_def rview, auto simp: h'_def)
  moreover have "ch_sets h' b = ch_sets h b \<and> ch_classes h' = ch_classes h \<and> ch_attrs h' = ch_attrs h \<and> ch_mempool h' = m'"
    using sb by (simp add: h'_def)
  ultimately show ?thesis using run pool page(5) by (intro exI [of _ h']) (simp add: fun_eq_iff)
qed

section \<open>One attribute\<close>

definition same_idx :: "class_heap \<Rightarrow> class_heap \<Rightarrow> bool" where
  "same_idx h h' \<longleftrightarrow> (\<forall>c. c_attr_idx (ch_classes h' c) = c_attr_idx (ch_classes h c))"

lemma inherit_attr_view:
  assumes "inherit_ready h s b" and "s = c_attr_idx (ch_classes h self)" and "set_at (ch_sets h b) key = Some src"
    and "refs_left (ch_mempool h) \<noteq> []" and "length key \<le> nodes_left (ch_mempool h)"
  shows "\<exists>h'. inherit_attr self h e n src = (None, h') \<and> inherit_ready h' s b \<and> same_idx h h' \<and>
    set_view h' s = (set_view h s)(key \<mapsto> merge_attr (set_view h s key) (ref_view h src)) \<and>
    set_view h' b = set_view h b \<and> ch_sets h' b = ch_sets h b \<and>
    length (refs_left (ch_mempool h)) \<le> Suc (length (refs_left (ch_mempool h'))) \<and>
    nodes_left (ch_mempool h) \<le> nodes_left (ch_mempool h') + length key"
proof -
  have ok: "refs_ok h s" "refs_ok h b" and ready: "refs_ready (ch_mempool h)" using assms(1) by (simp_all add: inherit_ready_def)
  have setok: "set_ok (ch_sets h s)" using ok(1) by (simp add: refs_ok_def)
  obtain attr where attr: "ar_attr (ch_attr_refs h src) = Some attr" "at_id (ch_attrs h attr) = key"
    using refs_okD(2) [OF ok(2) assms(3)] by blast
  note get = set_get_at [OF setok set_at_valid [OF assms(3)]]
  show ?thesis
  proof (cases "set_at (ch_sets h s) key")
    case (Some ref)
    show ?thesis
    proof (cases "ar_attr_var (ch_attr_refs h src)")
      case None
      have "inherit_attr self h e n src = (None, h)"
        using Some None attr get by (simp add: inherit_attr_def Let_def flip: assms(2))
      moreover have "merge_attr (set_view h s key) (ref_view h src) = the (set_view h s key)" "set_view h s key \<noteq> None"
        using Some None by (simp_all add: set_view_def ref_view_def Let_def)
      ultimately show ?thesis using assms(1) by (auto simp: same_idx_def fun_upd_idem)
    next
      case var: (Some var)
      have "inherit_attr self h e n src = (None, take_val src ref h)"
        using Some var attr get by (simp add: inherit_attr_def Let_def flip: assms(2))
      then show ?thesis using take_val_view [OF assms(1,3) Some var]
        by (intro exI [of _ "take_val src ref h"]) (simp add: same_idx_def, simp add: take_val_def update_ref_def)
    qed
  next
    case None
    from ready show ?thesis
    proof (cases rule: ref_new_cases)
      case (Some p ps m)
      from add_inherited_view [OF assms(1,3) None attr(1) Some(1,2,4,5,6) assms(5)] obtain h1 where
        h1: "add_inherited s attr src p m h = (None, h1)" "inherit_ready h1 s b"
          "set_view h1 s = (set_view h s)(key \<mapsto> ref_view h src)" "set_view h1 b = set_view h b"
          "ch_sets h1 b = ch_sets h b" "ch_classes h1 = ch_classes h" "ch_attrs h1 = ch_attrs h"
          "refs_left (ch_mempool h1) = ps" "nodes_left (ch_mempool h) \<le> nodes_left (ch_mempool h1) + length key" by blast
      define h' where "h' = (if at_is_implied (ch_attrs h1 attr) \<and> c_implied_attr (ch_classes h1 self) = None
          then update_class self (\<lambda>c. c\<lparr>c_implied_attr := Some attr\<rparr>) h1 else h1)"
      have same: "ch_sets h' = ch_sets h1" "ch_attr_refs h' = ch_attr_refs h1" "ch_attrs h' = ch_attrs h1" "ch_mempool h' = ch_mempool h1"
        "same_idx h h'"
        by (simp_all add: h'_def update_class_def same_idx_def h1(6))
      have run: "inherit_attr self h e n src = (None, h')"
        using None attr get Some(3) h1(1)
        by (simp add: inherit_attr_def Let_def add_inherited_def h'_def flip: assms(2))
      have "ref_view h' = ref_view h1" by (rule ext) (simp add: ref_view_def same(2))
      then have "set_view h' = set_view h1" by (intro ext) (simp add: set_view_def same(1))
      moreover have "inherit_ready h' s b = inherit_ready h1 s b" by (simp add: inherit_ready_def refs_ok_def same)
      moreover have "merge_attr (set_view h s key) (ref_view h src) = ref_view h src" using None by (simp add: set_view_def)
      ultimately show ?thesis using run h1 same Some(1) by (intro exI [of _ h']) simp
    qed (use assms(4) in simp)
  qed
qed

section \<open>All attributes of a base class\<close>

lemma inherit_entries_view:
  assumes "inherit_ready h s b" and "s = c_attr_idx (ch_classes h self)" and "distinct (map fst entries)"
    and "\<And>key src. (key, src) \<in> set entries \<Longrightarrow> set_at (ch_sets h b) key = Some src"
    and "length entries \<le> length (refs_left (ch_mempool h))"
    and "(\<Sum>(key, src)\<leftarrow>entries. length key) \<le> nodes_left (ch_mempool h)"
  shows "\<exists>h' n'. run_entries (inherit_attr self) entries (h, n) = (None, h', n') \<and> inherit_ready h' s b \<and> same_idx h h' \<and>
    set_view h' s = (\<lambda>key. if key \<in> fst ` set entries
       then Some (merge_attr (set_view h s key) (the (set_view h b key))) else set_view h s key) \<and>
    set_view h' b = set_view h b"
  using assms
proof (induction entries arbitrary: h n)
  case Nil
  then show ?case by (simp add: same_idx_def)
next
  case (Cons entry entries)
  obtain key src where entry: "entry = (key, src)" by fastforce
  have src: "set_at (ch_sets h b) key = Some src" using Cons.prems(4) entry by simp
  have left: "refs_left (ch_mempool h) \<noteq> []" "length key \<le> nodes_left (ch_mempool h)" using Cons.prems(5,6) entry by auto
  from inherit_attr_view [OF Cons.prems(1,2) src left, of "[last key]" n] obtain h1 where
    h1: "inherit_attr self h [last key] n src = (None, h1)" "inherit_ready h1 s b" "same_idx h h1"
      "set_view h1 s = (set_view h s)(key \<mapsto> merge_attr (set_view h s key) (ref_view h src))"
      "set_view h1 b = set_view h b" "ch_sets h1 b = ch_sets h b"
      "length (refs_left (ch_mempool h)) \<le> Suc (length (refs_left (ch_mempool h1)))"
      "nodes_left (ch_mempool h) \<le> nodes_left (ch_mempool h1) + length key" by blast
  have s1: "s = c_attr_idx (ch_classes h1 self)" using Cons.prems(2) h1(3) by (simp add: same_idx_def)
  have d: "distinct (map fst entries)" "key \<notin> fst ` set entries" using Cons.prems(3) entry by auto
  have "\<exists>h' n'. run_entries (inherit_attr self) entries (h1, Suc n) = (None, h', n') \<and> inherit_ready h' s b \<and> same_idx h1 h' \<and>
      set_view h' s = (\<lambda>key. if key \<in> fst ` set entries
         then Some (merge_attr (set_view h1 s key) (the (set_view h1 b key))) else set_view h1 s key) \<and>
      set_view h' b = set_view h1 b"
    using Cons.prems(4-6) h1(6-8) entry by (intro Cons.IH [OF h1(2) s1 d(1)]) auto
  then obtain h' n' where h': "run_entries (inherit_attr self) entries (h1, Suc n) = (None, h', n')" "inherit_ready h' s b"
      "same_idx h1 h'"
      "set_view h' s = (\<lambda>key. if key \<in> fst ` set entries
         then Some (merge_attr (set_view h1 s key) (the (set_view h1 b key))) else set_view h1 s key)"
      "set_view h' b = set_view h1 b" by blast
  have "the (set_view h b key) = ref_view h src" using src by (simp add: set_view_def)
  then have "set_view h' s = (\<lambda>k. if k \<in> fst ` set (entry # entries)
       then Some (merge_attr (set_view h s k) (the (set_view h b k))) else set_view h s k)"
    using h1(4,5) h'(4) d(2) entry by (auto simp: fun_eq_iff)
  then show ?case using h1 h' entry by (auto simp: same_idx_def)
qed

lemma sum_list_entries: "distinct (map fst entries) \<Longrightarrow> (\<Sum>(key, x)\<leftarrow>entries. length key) = (\<Sum>key\<in>fst ` set entries. length key)"
  by (induction entries) (auto simp: sum.insert_if)

lemma inherit_attrs_view:
  assumes "inherit_ready h (c_attr_idx (ch_classes h self)) (c_attr_idx (ch_classes h base))" and "c_is_resolved (ch_classes h base)"
    and "card (dom (set_view h (c_attr_idx (ch_classes h base)))) \<le> length (refs_left (ch_mempool h))"
    and "(\<Sum>key\<in>dom (set_view h (c_attr_idx (ch_classes h base))). length key) \<le> nodes_left (ch_mempool h)"
  shows "\<exists>h'. inherit_attrs resolve self base h = Some (None, h') \<and>
    inherit_ready h' (c_attr_idx (ch_classes h' self)) (c_attr_idx (ch_classes h' base)) \<and>
    set_view h' (c_attr_idx (ch_classes h' base)) = set_view h (c_attr_idx (ch_classes h base)) \<and>
    set_view h' (c_attr_idx (ch_classes h' self)) = (\<lambda>key.
      case set_view h (c_attr_idx (ch_classes h base)) key of
        None \<Rightarrow> set_view h (c_attr_idx (ch_classes h self)) key
      | Some src \<Rightarrow> Some (merge_attr (set_view h (c_attr_idx (ch_classes h self)) key) src))"
proof -
  define s b where sb: "s = c_attr_idx (ch_classes h self)" "b = c_attr_idx (ch_classes h base)"
  have ready: "inherit_ready h s b" using assms(1) by (simp add: sb)
  then have "set_ok (ch_sets h b)" by (simp add: inherit_ready_def refs_ok_def)
  from set_map_run [OF this, of "inherit_attr self" h] obtain entries where
    e: "distinct (map fst entries)" "map_of entries = set_at (ch_sets h b)"
      "knd_set_map (ch_sets h b) (inherit_attr self) h = (case run_entries (inherit_attr self) entries (h, 0) of (err, obj, calls) \<Rightarrow> (err, obj))"
    by blast
  have dom: "dom (set_view h b) = fst ` set entries"
    by (simp add: set_view_def dom_map_option_comp e(2) [symmetric] dom_map_of_conv_image_fst)
  have at: "set_at (ch_sets h b) key = Some src" if "(key, src) \<in> set entries" for key src
    using that e(1,2) by (metis map_of_is_SomeI)
  have "card (fst ` set entries) = length entries" using e(1) distinct_card [of "map fst entries"] by simp
  then obtain h' n' where h': "run_entries (inherit_attr self) entries (h, 0) = (None, h', n')" "inherit_ready h' s b" "same_idx h h'"
      "set_view h' s = (\<lambda>key. if key \<in> fst ` set entries
         then Some (merge_attr (set_view h s key) (the (set_view h b key))) else set_view h s key)"
      "set_view h' b = set_view h b"
    using inherit_entries_view [OF ready sb(1) e(1) at, of 0] assms(3,4) sum_list_entries [OF e(1)]
    by (auto simp flip: sb dom)
  have "set_view h' s = (\<lambda>key. case set_view h b key of
        None \<Rightarrow> set_view h s key | Some src \<Rightarrow> Some (merge_attr (set_view h s key) src))"
    unfolding h'(4) dom [symmetric] by (auto simp: fun_eq_iff split: option.splits)
  moreover have "c_attr_idx (ch_classes h' self) = s" "c_attr_idx (ch_classes h' base) = b"
    using h'(3) by (simp_all add: same_idx_def sb)
  moreover have "inherit_attrs resolve self base h = Some (None, h')"
    using assms(2) e(3) h'(1) by (simp add: inherit_attrs_def resolve_class_def then_run_def sb)
  ultimately show ?thesis using h'(2,5) unfolding sb [symmetric] by (intro exI [of _ h']) simp
qed

section \<open>A sample\<close>

text \<open>The classes Top, A and B, where B is an A; both A and B declare an attribute named x.\<close>

definition shop_item :: "nat \<Rightarrow> (nat, nat) kndSharedDictItem" where
  "shop_item e =
     \<lparr>sd_addr = e + 1, sd_phase = KND_SHARED_DICT_VALID, sd_key = [of_nat (64 + e)], sd_data = Some e, sd_states = []\<rparr>"

definition shop_names :: "nat list \<Rightarrow> (nat, nat) kndSharedDict" where
  "shop_names es = \<lparr>sd_hash_array = [map shop_item es], sd_size = 1, sd_num_items = of_nat (length es)\<rparr>"

definition shop_attr :: "nat \<Rightarrow> kndAttr" where
  "shop_attr a = \<lparr>at_id = [of_nat (48 + a)], at_numid = of_nat a, at_type = KND_ATTR_STR, at_name = [120], at_parent_class = 0, at_tr = [], at_is_a_set = False, at_is_required = False,
     at_is_indexed = False, at_is_implied = False, at_concise_level = 0,
     at_ref_classname = [], at_ref_class_entry = None, at_rel_type = KND_REL_DEFAULT,
     at_ref_proc_name = [], at_proc = None, at_arg_name = [], at_arg = None, at_impl_arg_name = [], at_impl_arg = None\<rparr>"

definition shop_class :: "nat \<Rightarrow> kndClass" where
  "shop_class c = cleared_class
     \<lparr>c_entry := c, c_baseclass_vars := (if c = 2 then [2] else []), c_attrs := (if c = 0 then [] else [c]), c_attr_idx := c,
      c_state_top := c = 0, c_is_resolved := c = 1\<rparr>"

definition shop_entry :: "nat \<Rightarrow> kndClassEntry" where
  "shop_entry e =
     \<lparr>ce_id = [], ce_numid = 0, ce_name = [of_nat (64 + (if e < 3 then e else 1))], ce_repo = 0,
      ce_base = None, ce_class = (if e < 3 then Some e else None), ce_phase = KND_CREATED, ce_dict_item = None\<rparr>"

text \<open>A and B are as after registering their attributes, 1 and 2, before B inherits from A.\<close>

definition shop_pages :: "nat \<Rightarrow> size_t \<Rightarrow> page_pool" where
  "shop_pages p n = empty_class\<lparr>pc_pages := p, pc_page_size := n, pc_num_pages := 2\<rparr>"

definition shop_pool :: kndMemPool where
  "shop_pool = (knd_mempool_new KND_ALLOC_INCR 0 (\<lambda>_. 0))
     \<lparr>mp_base := shop_pages 65536 1024, mp_small_x4 := shop_pages 32768 512, mp_small_x2 := shop_pages 16384 256,
      mp_small := shop_pages 8192 128, mp_tiny := shop_pages 4096 64\<rparr>"

definition shop_set :: "nat \<Rightarrow> nat kndSet" where
  "shop_set c = fst (snd (knd_set_add sample_empty_set [of_nat (48 + c)] c (shop_pool)))"

definition shop_heap :: class_heap where
  "shop_heap = sample_heap
     \<lparr>ch_classes := shop_class, ch_entries := shop_entry,
      ch_vars := (\<lambda>v. \<lparr>cv_id = [], cv_type = KND_BASE_CLASS, cv_entry = 10, cv_attrs = [], cv_parent = v, cv_inst = None\<rparr>),
      ch_repos := (\<lambda>_. Repo (shop_names [0, 1, 2]) sample_shared_set None 0),
      ch_sets := shop_set, ch_attrs := shop_attr,
      ch_attr_refs := (\<lambda>r. new_attr_ref\<lparr>ar_attr := Some r, ar_class_entry := Some r\<rparr>),
      ch_repo_attrs := (\<lambda>_. \<lparr>ra_name_idx = shop_names [], ra_attr_idx = 9, ra_attr_id_count = 0\<rparr>),
      ch_mempool := shop_pool\<rparr>"

lemma shop_pool_ok: "refs_ready shop_pool" "refs_left shop_pool = [4096, 4160]" "nodes_left shop_pool = 2"
proof -
  have "class_ok (page_class t shop_pool)" for t
    by (cases t) (simp_all add: shop_pool_def shop_pages_def knd_mempool_new_def empty_class_def class_ok_def)
  then show "refs_ready shop_pool"
    by (simp add: refs_ready_def nodes_ready_def pool_ready_def) (simp add: shop_pool_def shop_pages_def knd_mempool_new_def empty_class_def)
  show "refs_left shop_pool = [4096, 4160]" "nodes_left shop_pool = 2"
    by (simp_all add: pages_left_def shop_pool_def shop_pages_def knd_mempool_new_def empty_class_def class_pages_def upt_rec)
qed

lemma shop_set_at:
  assumes "c \<in> {1, 2}"
  shows "set_ok (shop_set c)" "set_at (shop_set c) = [[of_nat (48 + c)] \<mapsto> c]"
proof -
  have valid: "valid_id [of_nat (48 + c)]" using assms by (elim insertE emptyE; hypsubst; code_simp)
  obtain err s m where s: "knd_set_add sample_empty_set [of_nat (48 + c)] c shop_pool = (err, s, m)" by (metis surj_pair)
  note effect = set_add_effect [OF sample_empty_set_at(1), of "[of_nat (48 + c)]" c shop_pool]
  have "err = None"
    using effect s valid shop_pool_ok by (cases err) (auto simp: sample_empty_set_at(2) refs_ready_def)
  then show "set_ok (shop_set c)" "set_at (shop_set c) = [[of_nat (48 + c)] \<mapsto> c]"
    using effect s by (simp_all add: shop_set_def sample_empty_set_at(2))
qed

lemma shop_view:
  assumes "c \<in> {1, 2}"
  shows "set_view shop_heap c = [[of_nat (48 + c)] \<mapsto> (c, None, Some c)]"
proof -
  have "ref_view shop_heap c = (c, None, Some c)" by (simp add: ref_view_def shop_heap_def new_attr_ref_def)
  then show ?thesis using shop_set_at(2) [OF assms] by (auto simp: set_view_def fun_eq_iff shop_heap_def)
qed

lemma shop_ready: "inherit_ready shop_heap 2 1"
proof -
  have "refs_ok shop_heap c" if "c \<in> {1, 2}" for c
    using shop_set_at [OF that] that
    by (auto simp: refs_ok_def shop_heap_def new_attr_ref_def shop_attr_def shop_pool_ok(2) split: if_splits)
  then show ?thesis using shop_pool_ok(1) by (simp add: inherit_ready_def) (simp add: shop_heap_def)
qed

section \<open>Properties\<close>

text \<open>
  C6: Inheriting the attributes of a resolved base class succeeds while pages are left, and the class then has
  those that it had and those of the base class, by their identifiers; a value of the base class takes the
  place of the value before. Names are not looked at. The base class is unchanged.
\<close>

theorem inherit_attrs_merge:
  assumes "inherit_ready h (c_attr_idx (ch_classes h self)) (c_attr_idx (ch_classes h base))" and "c_is_resolved (ch_classes h base)"
    and "card (dom (set_view h (c_attr_idx (ch_classes h base)))) \<le> length (refs_left (ch_mempool h))"
    and "(\<Sum>key\<in>dom (set_view h (c_attr_idx (ch_classes h base))). length key) \<le> nodes_left (ch_mempool h)"
  shows "\<exists>h'. inherit_attrs resolve self base h = Some (None, h') \<and>
    set_view h' (c_attr_idx (ch_classes h' base)) = set_view h (c_attr_idx (ch_classes h base)) \<and>
    set_view h' (c_attr_idx (ch_classes h' self)) = (\<lambda>key.
      case set_view h (c_attr_idx (ch_classes h base)) key of
        None \<Rightarrow> set_view h (c_attr_idx (ch_classes h self)) key
      | Some src \<Rightarrow> Some (merge_attr (set_view h (c_attr_idx (ch_classes h self)) key) src))"
  using inherit_attrs_view [OF assms, of resolve] by blast

theorem inherit_attrs_merge_witness:
  "\<exists>h'. inherit_attrs (\<lambda>c h. None) 2 1 shop_heap = Some (None, h') \<and>
    set_view h' (c_attr_idx (ch_classes h' 2)) = [[50] \<mapsto> (2, None, Some 2), [49] \<mapsto> (1, None, Some 1)] \<and>
    at_name (ch_attrs shop_heap 1) = at_name (ch_attrs shop_heap 2)"
proof -
  have idx: "c_attr_idx (ch_classes shop_heap c) = c" "c_is_resolved (ch_classes shop_heap 1)"
    "ch_mempool shop_heap = shop_pool" "at_name (ch_attrs shop_heap c) = [120]" for c
    by (simp_all add: shop_heap_def shop_class_def cleared_class_def shop_attr_def)
  have view: "set_view shop_heap 1 = [[49] \<mapsto> (1, None, Some 1)]" "set_view shop_heap 2 = [[50] \<mapsto> (2, None, Some 2)]"
    using shop_view [of 1] shop_view [of 2] by simp_all
  obtain h' where h': "inherit_attrs (\<lambda>c h. None) 2 1 shop_heap = Some (None, h')"
    "set_view h' (c_attr_idx (ch_classes h' 2)) = (\<lambda>key.
      case [[49 :: byte] \<mapsto> (1, None, Some 1)] key of None \<Rightarrow> [[50] \<mapsto> (2, None, Some 2)] key
      | Some src \<Rightarrow> Some (merge_attr ([[50] \<mapsto> (2, None, Some 2)] key) src))"
    using inherit_attrs_merge [of shop_heap 2 1 "\<lambda>c h. None", unfolded idx(1,3) view] shop_ready shop_pool_ok(2,3) idx(2) by auto
  moreover have "(\<lambda>key. case [[49 :: byte] \<mapsto> (1, None, Some 1)] key of None \<Rightarrow> [[50] \<mapsto> (2, None, Some 2)] key
      | Some src \<Rightarrow> Some (merge_attr ([[50] \<mapsto> (2, None, Some 2)] key) src)) =
      [[50] \<mapsto> (2, None, Some 2), [49] \<mapsto> (1 :: nat, None :: nat option, Some (1 :: nat))]"
    by (rule ext) simp
  ultimately show ?thesis by (simp only: idx simp_thms) metis
qed

end
