(* ===== verification/Class_Resolve.thy ===== *)
theory Class_Resolve
  imports Class_Attrs Text_Codec
begin

text \<open>
  Resolving a class as a whole: the values of attributes in \<^verbatim>\<open>src/knd_attr_var.resolve.c\<close> and
  \<^verbatim>\<open>knd_class_resolve\<close> of \<^verbatim>\<open>src/knd_class.resolve.c\<close>, which call each other. \<open>knd_class_resolve\<close> takes fuel
  and is passed to the functions that call it; \<open>None\<close> is that the fuel ran out. The resolution of texts,
  references to procedures and class instances are parameters.
\<close>

record resolve_ops =
  op_task_type :: knd_task_spec_type
  op_fetch :: class_fetch
  op_text_resolve :: "nat \<Rightarrow> class_heap \<Rightarrow> failure option \<times> class_heap"
  op_resolve_proc_ref :: "nat \<Rightarrow> byte list \<Rightarrow> nat option \<Rightarrow> class_heap \<Rightarrow> (class_heap, nat) outcome"
  op_get_class_inst :: "nat \<Rightarrow> byte list \<Rightarrow> class_heap \<Rightarrow> (class_heap, nat) outcome"

type_synonym class_resolver = "nat \<Rightarrow> class_heap \<Rightarrow> class_run"

section \<open>Values of a single attribute\<close>

text \<open>The value is copied to a buffer of \<^verbatim>\<open>KND_NAME_SIZE\<close> bytes and read up to the first zero.\<close>

definition parse_numval :: "nat \<Rightarrow> class_heap \<Rightarrow> class_run" where
  "parse_numval var h =
     (let val = av_val (ch_attr_vars h var) in
      if length val \<ge> KND_NAME_SIZE then Some (Some Stuck, h)
      else
        (case knd_parse_num (takeWhile (\<lambda>c. c \<noteq> 0) val) of
           Inl e \<Rightarrow> Some (Some e, h)
         | Inr numval \<Rightarrow> Some (None, update_var var (\<lambda>v. v\<lparr>av_numval := numval\<rparr>) h)))"

definition resolve_class_ref ::
  "resolve_ops \<Rightarrow> nat \<Rightarrow> nat \<Rightarrow> byte list \<Rightarrow> nat option \<Rightarrow> class_heap \<Rightarrow> (class_heap, nat) outcome option" where
  "resolve_class_ref ops fuel = knd_resolve_class_ref (op_fetch ops) fuel (op_task_type ops = KND_BULK_LOAD_STATE)"

text \<open>The type of the relation decides whether an instance is looked up too.\<close>

definition resolve_inst :: "resolve_ops \<Rightarrow> nat \<Rightarrow> nat \<Rightarrow> class_heap \<Rightarrow> class_run" where
  "resolve_inst ops ref_c var h =
     (let v = ch_attr_vars h var in
      deref (av_attr v) h (\<lambda>attr.
        if at_rel_type (ch_attrs h attr) = KND_REL_CLASS_INST then
          (if av_class_inst_name v = [] then Some (Some (Err knd_FORMAT), h)
           else if cv_type (ch_vars h (av_class_var v)) = KND_INSTANCE_BLUEPRINT then
             bind_run (Some (op_get_class_inst ops ref_c (av_class_inst_name v) h)) (\<lambda>inst_entry h.
               Some (None, update_var var (\<lambda>v. v\<lparr>av_class_inst_entry := Some inst_entry\<rparr>) h))
           else Some (None, h))
        else Some (None, h)))"

definition resolve_ref :: "resolve_ops \<Rightarrow> nat \<Rightarrow> class_resolver \<Rightarrow> nat \<Rightarrow> nat \<Rightarrow> class_heap \<Rightarrow> class_run" where
  "resolve_ref ops fuel resolve self var h =
     (if av_val (ch_attr_vars h var) = [] then Some (Some Stuck, h)
      else
        deref (av_attr (ch_attr_vars h var)) h (\<lambda>attr.
          deref (at_ref_class_entry (ch_attrs h attr)) h (\<lambda>entry.
            deref (ce_class (ch_entries h entry)) h (\<lambda>c.
              then_run (resolve_class resolve c h) (\<lambda>h.
                bind_run (resolve_class_ref ops fuel self (av_val (ch_attr_vars h var)) (Some c) h) (\<lambda>ref_c h.
                  resolve_inst ops ref_c var
                    (update_var var (\<lambda>v. v\<lparr>av_class_entry := Some (c_entry (ch_classes h ref_c))\<rparr>) h)))))))"

text \<open>The class that the argument on the other side shall have.\<close>

definition arg_template :: "nat \<Rightarrow> nat \<Rightarrow> class_heap \<Rightarrow> (class_heap, nat) outcome" where
  "arg_template self arg h =
     (case pa_template (ch_args h arg) of
        Some entry \<Rightarrow> Inr (entry, h)
      | None \<Rightarrow>
          (case knd_shared_dict_get (repo_class_name_idx (class_repo h self)) (pa_classname (ch_args h arg)) of
             Inl e \<Rightarrow> Inl (e, h)
           | Inr None \<Rightarrow> Inl (Err knd_NO_MATCH, h)
           | Inr (Some entry) \<Rightarrow>
               Inr (entry, h\<lparr>ch_args := (ch_args h)(arg := (ch_args h arg)\<lparr>pa_template := Some entry\<rparr>)\<rparr>)))"

definition var_resolve_rel :: "resolve_ops \<Rightarrow> class_resolver \<Rightarrow> nat \<Rightarrow> nat \<Rightarrow> class_heap \<Rightarrow> class_run" where
  "var_resolve_rel ops resolve self var h =
     deref (av_attr (ch_attr_vars h var)) h (\<lambda>attr.
       if at_proc (ch_attrs h attr) = None \<or> av_val (ch_attr_vars h var) = [] then Some (Some Stuck, h)
       else
         (case knd_shared_dict_get (repo_class_name_idx (class_repo h self)) (av_val (ch_attr_vars h var)) of
            Inl e \<Rightarrow> Some (Some e, h)
          | Inr None \<Rightarrow> Some (Some (Err knd_NO_MATCH), h)
          | Inr (Some entry) \<Rightarrow>
              bind_run (Some (knd_class_acquire (op_fetch ops) entry h)) (\<lambda>c h.
                then_run (resolve_class resolve c h) (\<lambda>h.
                  deref (at_impl_arg (ch_attrs h attr)) h (\<lambda>arg.
                    bind_run (Some (arg_template self arg h)) (\<lambda>template h.
                      bind_run (Some (knd_class_acquire (op_fetch ops) template h)) (\<lambda>template_c h.
                        Some (knd_is_base template_c c h, h))))))))"

definition resolve_implied_attr_var ::
  "resolve_ops \<Rightarrow> nat \<Rightarrow> class_resolver \<Rightarrow> nat \<Rightarrow> nat \<Rightarrow> nat \<Rightarrow> class_heap \<Rightarrow> class_run" where
  "resolve_implied_attr_var ops fuel resolve self attr var h =
     (let h = update_var var (\<lambda>v. v\<lparr>av_implied_attr := Some attr, av_attr := Some attr\<rparr>) h;
          v = ch_attr_vars h var; a = ch_attrs h attr;
          classname = (if av_is_list_item v then av_name v else av_val v);
          with_name = (\<lambda>k. if classname \<noteq> [] then k (update_var var (\<lambda>v. v\<lparr>av_val := classname\<rparr>) h)
            else if at_is_required a then Some (Some (Err knd_FORMAT), h) else Some (None, h)) in
      case at_type a of
        KND_ATTR_NUM \<Rightarrow> if av_val v \<noteq> [] then parse_numval var h else Some (None, h)
      | KND_ATTR_REF \<Rightarrow> with_name (resolve_ref ops fuel resolve self var)
      | KND_ATTR_REL \<Rightarrow> with_name (var_resolve_rel ops resolve self var)
      | KND_ATTR_STR \<Rightarrow> Some (None, update_var var (\<lambda>v. v\<lparr>av_val := av_name v\<rparr>) h)
      | _ \<Rightarrow> Some (None, h))"

definition var_resolve_proc_ref :: "resolve_ops \<Rightarrow> nat \<Rightarrow> nat \<Rightarrow> nat \<Rightarrow> class_heap \<Rightarrow> class_run" where
  "var_resolve_proc_ref ops self attr var h =
     bind_run (Some (op_resolve_proc_ref ops self (av_val (ch_attr_vars h var)) (at_proc (ch_attrs h attr)) h)) (\<lambda>proc_entry h.
       Some (None, update_var var (\<lambda>v. v\<lparr>av_proc_entry := Some proc_entry\<rparr>) h))"

section \<open>References to attributes\<close>

text \<open>
  The last child whose name starts with \<open>c\<close> gives the class, the last one that starts with \<open>val\<close> the value. The
  comparison reads the bytes after a shorter name, which are separators of the text.
\<close>

fun ref_classnames :: "class_heap \<Rightarrow> nat list \<Rightarrow> byte list \<times> byte list \<Rightarrow> byte list \<times> byte list" where
  "ref_classnames h [] names = names"
| "ref_classnames h (var # vars) (classname, val_classname) =
     (let v = ch_attr_vars h var in
      ref_classnames h vars
        (if take 1 (av_name v) = bytes_of ''c'' then av_val v else classname,
         if take 3 (av_name v) = bytes_of ''val'' then av_val v else val_classname))"

definition resolve_attr_ref :: "nat \<Rightarrow> nat \<Rightarrow> class_heap \<Rightarrow> class_run" where
  "resolve_attr_ref self var h =
     (let class_name_idx = repo_class_name_idx (class_repo h self); v = ch_attr_vars h var in
      case ref_classnames h (av_children v) ([], []) of (classname, val_classname) \<Rightarrow>
        if classname = [] then Some (Some (Err knd_FAIL), h)
        else
          (case knd_shared_dict_get class_name_idx classname of
             Inl e \<Rightarrow> Some (Some e, h)
           | Inr None \<Rightarrow> Some (Some (Err knd_NO_MATCH), h)
           | Inr (Some entry) \<Rightarrow>
               if av_val v = [] then Some (Some (Err knd_FAIL), h)
               else
                 deref (ce_class (ch_entries h entry)) h (\<lambda>c.
                   case knd_class_get_attr h c (av_val v) of
                     Inl e \<Rightarrow> Some (Some e, h)
                   | Inr attr_ref \<Rightarrow>
                       (let h = update_var var (\<lambda>v. v\<lparr>av_class_entry := Some entry,
                            av_ref_attr := ar_attr (ch_attr_refs h attr_ref)\<rparr>) h in
                        if val_classname = [] then Some (None, h)
                        else
                          (case knd_shared_dict_get class_name_idx val_classname of
                             Inl e \<Rightarrow> Some (Some e, h)
                           | Inr None \<Rightarrow> Some (Some (Err knd_NO_MATCH), h)
                           | Inr (Some entry) \<Rightarrow> Some (None, update_var var (\<lambda>v. v\<lparr>av_class_entry := Some entry\<rparr>) h))))))"

section \<open>Inner values and lists\<close>

text \<open>The class of an attribute, looked up by its name once.\<close>

definition lookup_template :: "resolve_ops \<Rightarrow> nat \<Rightarrow> nat \<Rightarrow> nat \<Rightarrow> class_heap \<Rightarrow> (class_heap, nat) outcome option" where
  "lookup_template ops fuel self attr h =
     (if at_ref_classname (ch_attrs h attr) = [] then Some (Inl (Stuck, h))
      else
        (case resolve_class_ref ops fuel self (at_ref_classname (ch_attrs h attr)) None h of
           None \<Rightarrow> None
         | Some (Inl e) \<Rightarrow> Some (Inl e)
         | Some (Inr (c, h)) \<Rightarrow>
             Some (Inr (c, update_attr attr (\<lambda>a. a\<lparr>at_ref_class_entry := Some (c_entry (ch_classes h c))\<rparr>) h))))"

definition inner_class :: "resolve_ops \<Rightarrow> nat \<Rightarrow> nat \<Rightarrow> nat \<Rightarrow> class_heap \<Rightarrow> (class_heap, nat) outcome option" where
  "inner_class ops fuel self attr h =
     (case at_ref_class_entry (ch_attrs h attr) of
        Some entry \<Rightarrow> Some (knd_class_acquire (op_fetch ops) entry h)
      | None \<Rightarrow> lookup_template ops fuel self attr h)"

text \<open>The items of a list, whose inner values \<open>inner\<close> resolves; a clone of the class in the own repository is only looked up.\<close>

definition resolve_list_item ::
  "resolve_ops \<Rightarrow> nat \<Rightarrow> class_resolver \<Rightarrow> class_resolver \<Rightarrow> nat \<Rightarrow> nat \<Rightarrow> nat \<Rightarrow> class_heap \<Rightarrow> class_run" where
  "resolve_list_item ops fuel resolve inner self attr item h =
     (let h = update_var item (\<lambda>v. v\<lparr>av_attr := Some attr, av_val := av_name v\<rparr>) h in
      case at_type (ch_attrs h attr) of
        KND_ATTR_INNER \<Rightarrow> inner item h
      | KND_ATTR_REF \<Rightarrow> resolve_ref ops fuel resolve self item h
      | KND_ATTR_REL \<Rightarrow> var_resolve_rel ops resolve self item h
      | _ \<Rightarrow> Some (None, h))"

definition list_template :: "resolve_ops \<Rightarrow> nat \<Rightarrow> nat \<Rightarrow> nat \<Rightarrow> class_heap \<Rightarrow> (class_heap, nat) outcome option" where
  "list_template ops fuel self attr h =
     (case at_ref_class_entry (ch_attrs h attr) of
        Some entry \<Rightarrow> Some (Inr (entry, h))
      | None \<Rightarrow>
          (case lookup_template ops fuel self attr h of
             None \<Rightarrow> None
           | Some (Inl e) \<Rightarrow> Some (Inl e)
           | Some (Inr (c, h)) \<Rightarrow> Some (Inr (c_entry (ch_classes h c), h))))"

definition resolve_attr_var_list ::
  "resolve_ops \<Rightarrow> nat \<Rightarrow> class_resolver \<Rightarrow> class_resolver \<Rightarrow> nat \<Rightarrow> nat \<Rightarrow> class_heap \<Rightarrow> class_run" where
  "resolve_attr_var_list ops fuel resolve inner self var h =
     deref (av_attr (ch_attr_vars h var)) h (\<lambda>attr.
       if av_list (ch_attr_vars h var) = [] then Some (Some Stuck, h)
       else if at_type (ch_attrs h attr) = KND_ATTR_STR then Some (None, h)
       else
         bind_run (list_template ops fuel self attr h) (\<lambda>entry h.
           bind_run (Some (knd_class_acquire (op_fetch ops) entry h)) (\<lambda>c h.
             then_run (resolve_class resolve c h) (\<lambda>h.
               let looked_up = (if class_repo_addr h self \<noteq> class_repo_addr h c
                     then (case knd_get_class (op_fetch ops) (class_repo h self) (ce_name (ch_entries h entry)) h of
                         Inl (Stuck, h) \<Rightarrow> (Some Stuck, h) | Inl (_, h) \<Rightarrow> (None, h) | Inr (_, h) \<Rightarrow> (None, h))
                     else (None, h))
               in then_run (Some looked_up) (\<lambda>h.
                 run_each (resolve_list_item ops fuel resolve inner self attr) (av_list (ch_attr_vars h var)) h)))))"

definition resolve_inner_item ::
  "resolve_ops \<Rightarrow> nat \<Rightarrow> class_resolver \<Rightarrow> class_resolver \<Rightarrow> nat \<Rightarrow> nat \<Rightarrow> nat \<Rightarrow> class_heap \<Rightarrow> class_run" where
  "resolve_inner_item ops fuel resolve inner self c item h =
     (case knd_class_get_attr h c (av_name (ch_attr_vars h item)) of
        Inl e \<Rightarrow> Some (Some e, h)
      | Inr attr_ref \<Rightarrow>
          deref (ar_attr (ch_attr_refs h attr_ref)) h (\<lambda>attr.
            let h = update_var item (\<lambda>v. v\<lparr>av_attr := Some attr\<rparr>) h in
            if at_is_a_set (ch_attrs h attr) then resolve_attr_var_list ops fuel resolve inner self item h
            else
              (case at_type (ch_attrs h attr) of
                 KND_ATTR_NUM \<Rightarrow> parse_numval item h
               | KND_ATTR_INNER \<Rightarrow> inner item h
               | KND_ATTR_REF \<Rightarrow> resolve_ref ops fuel resolve self item h
               | KND_ATTR_REL \<Rightarrow> var_resolve_rel ops resolve self item h
               | KND_ATTR_TEXT \<Rightarrow> Some (op_text_resolve ops item h)
               | KND_ATTR_PROC_REF \<Rightarrow> var_resolve_proc_ref ops self attr item h
               | _ \<Rightarrow> Some (None, h))))"

text \<open>An inner value in a list takes the attribute of its parent.\<close>

definition inner_attr :: "class_heap \<Rightarrow> nat \<Rightarrow> nat option" where
  "inner_attr h var =
     (let v = ch_attr_vars h var in
      if av_is_list_item v
      then (case av_parent v of None \<Rightarrow> None | Some parent \<Rightarrow> av_attr (ch_attr_vars h parent))
      else av_attr v)"

fun resolve_inner_var :: "resolve_ops \<Rightarrow> nat \<Rightarrow> nat \<Rightarrow> class_resolver \<Rightarrow> nat \<Rightarrow> nat \<Rightarrow> class_heap \<Rightarrow> class_run" where
  "resolve_inner_var ops fuel 0 resolve self var h = None"
| "resolve_inner_var ops fuel (Suc depth) resolve self var h =
     deref (inner_attr h var) h (\<lambda>attr.
       if at_ref_classname (ch_attrs h attr) = [] then Some (Some Stuck, h)
       else
         bind_run (inner_class ops fuel self attr h) (\<lambda>c h.
             then_run (resolve_class resolve c h) (\<lambda>h.
               let inner = resolve_inner_var ops fuel depth resolve self in
               if av_list (ch_attr_vars h var) \<noteq> [] then resolve_attr_var_list ops fuel resolve inner self var h
               else
                 then_run
                   (case c_implied_attr (ch_classes h c) of
                      None \<Rightarrow> Some (None, h)
                    | Some attr \<Rightarrow> resolve_implied_attr_var ops fuel resolve self attr var h)
                   (\<lambda>h. run_each (resolve_inner_item ops fuel resolve inner self c) (av_children (ch_attr_vars h var)) h))))"

section \<open>Values of a base class variable\<close>

definition resolve_attr_var :: "resolve_ops \<Rightarrow> nat \<Rightarrow> class_resolver \<Rightarrow> nat \<Rightarrow> nat \<Rightarrow> class_heap \<Rightarrow> class_run" where
  "resolve_attr_var ops fuel resolve self var h =
     (case knd_class_get_attr h self (av_name (ch_attr_vars h var)) of
        Inl e \<Rightarrow> Some (Some e, h)
      | Inr attr_ref \<Rightarrow>
          deref (ar_attr (ch_attr_refs h attr_ref)) h (\<lambda>attr.
            let h = update_var var (\<lambda>v. v\<lparr>av_attr := Some attr\<rparr>)
                  (update_ref attr_ref (\<lambda>r. r\<lparr>ar_attr_var := Some var\<rparr>) h);
                inner = resolve_inner_var ops fuel fuel resolve self in
            if at_is_a_set (ch_attrs h attr) then
              then_run (resolve_attr_var_list ops fuel resolve inner self var h) (\<lambda>h.
                Some (None,
                  if av_val (ch_attr_vars h var) \<noteq> []
                  then update_var var (\<lambda>v. v\<lparr>av_num_list_elems := av_num_list_elems v + 1\<rparr>) h else h))
            else
              (case at_type (ch_attrs h attr) of
                 KND_ATTR_INNER \<Rightarrow> inner var h
               | KND_ATTR_REF \<Rightarrow> resolve_ref ops fuel resolve self var h
               | KND_ATTR_REL \<Rightarrow> var_resolve_rel ops resolve self var h
               | KND_ATTR_TEXT \<Rightarrow> Some (op_text_resolve ops var h)
               | KND_ATTR_NUM \<Rightarrow> parse_numval var h
               | KND_ATTR_ATTR_REF \<Rightarrow> resolve_attr_ref self var h
               | KND_ATTR_PROC_REF \<Rightarrow> var_resolve_proc_ref ops self attr var h
               | _ \<Rightarrow> Some (None, h))))"

definition knd_resolve_attr_vars :: "resolve_ops \<Rightarrow> nat \<Rightarrow> class_resolver \<Rightarrow> nat \<Rightarrow> nat \<Rightarrow> class_heap \<Rightarrow> class_run" where
  "knd_resolve_attr_vars ops fuel resolve self cvar h =
     run_each (resolve_attr_var ops fuel resolve self) (cv_attrs (ch_vars h cvar)) h"

section \<open>Resolving a class\<close>

definition inherit_from :: "resolve_ops \<Rightarrow> nat \<Rightarrow> class_resolver \<Rightarrow> nat \<Rightarrow> nat \<Rightarrow> class_heap \<Rightarrow> class_run" where
  "inherit_from ops fuel resolve self cvar h =
     deref (ce_class (ch_entries h (cv_entry (ch_vars h cvar)))) h (\<lambda>base.
       then_run (inherit_attrs resolve self base h) (knd_resolve_attr_vars ops fuel resolve self cvar))"

definition resolve_bases :: "resolve_ops \<Rightarrow> nat \<Rightarrow> class_resolver \<Rightarrow> nat \<Rightarrow> class_heap \<Rightarrow> class_run" where
  "resolve_bases ops fuel resolve self h =
     (if c_baseclass_vars (ch_classes h self) = []
      then Some (link_baseclass self (repo_root_class (class_repo h self)) h)
      else
        then_run
          (if c_base_is_resolved (ch_classes h self) then Some (None, h)
           else resolve_baseclasses (op_fetch ops) fuel self h)
          (\<lambda>h. run_each (inherit_from ops fuel resolve self) (c_baseclass_vars (ch_classes h self)) h))"

definition resolve_uniq :: "nat \<Rightarrow> nat \<Rightarrow> class_heap \<Rightarrow> class_run" where
  "resolve_uniq self ref h =
     (case knd_class_get_attr h self (ar_name (ch_attr_refs h ref)) of
        Inl e \<Rightarrow> Some (Some e, h)
      | Inr attr_ref \<Rightarrow> Some (None, update_ref ref (\<lambda>r. r\<lparr>ar_attr := ar_attr (ch_attr_refs h attr_ref)\<rparr>) h))"

definition number_class :: "nat \<Rightarrow> class_heap \<Rightarrow> failure option \<times> class_heap" where
  "number_class self h =
     (let entry = c_entry (ch_classes h self); repo = ce_repo (ch_entries h entry);
          numid = ch_repo_class_id_count h repo + 1;
          h = h\<lparr>ch_repo_class_id_count := (ch_repo_class_id_count h)(repo := numid)\<rparr> in
      case knd_uid_create numid of
        Inl e \<Rightarrow> (Some e, h)
      | Inr uid \<Rightarrow> (None, update_entry entry (\<lambda>e. e\<lparr>ce_numid := numid, ce_id := uid\<rparr>) h))"

fun knd_class_resolve :: "resolve_ops \<Rightarrow> nat \<Rightarrow> nat \<Rightarrow> class_heap \<Rightarrow> class_run" where
  "knd_class_resolve ops 0 self h = None"
| "knd_class_resolve ops (Suc fuel) self h =
     (if c_is_resolved (ch_classes h self) then Some (Some Stuck, h)
      else if c_resolving_in_progress (ch_classes h self) then Some (Some (Err knd_FAIL), h)
      else
        then_run
          (let h = update_class self (\<lambda>c. c\<lparr>c_resolving_in_progress := True\<rparr>) h in
           if c_attrs (ch_classes h self) \<noteq> [] then knd_resolve_primary_attrs (op_task_type ops) fuel self h
           else Some (None, h))
          (\<lambda>h. then_run (resolve_bases ops fuel (knd_class_resolve ops fuel) self h)
          (\<lambda>h. then_run (run_each (resolve_uniq self) (c_uniq (ch_classes h self)) h)
          (\<lambda>h. Some (number_class self (update_class self (\<lambda>c. c\<lparr>c_is_resolved := True\<rparr>) h))))))"

end
