(* ===== verification/Class_Index.thy ===== *)
theory Class_Index
  imports Class_Attrs
begin

text \<open>
  Indexing a class: \<^verbatim>\<open>src/knd_class.index.c\<close> registers it as a child of its base classes and a descendant of
  its ancestors, and \<^verbatim>\<open>src/knd_attr_var.index.c\<close> registers it with the classes that its attributes refer to,
  in the hubs of these classes. The class indices live on the pool of the task, the hubs on that of its user.
\<close>

section \<open>Descendants\<close>

text \<open>The set of descendants of a class, made when it is first needed.\<close>

definition desc_idx :: "nat \<Rightarrow> class_heap \<Rightarrow> (class_heap, nat) outcome" where
  "desc_idx base h =
     (case c_descendants (ch_classes h base) of
        Some d \<Rightarrow> Inr (d, h)
      | None \<Rightarrow>
          (case new_set (ch_mempool h) h of
             Inl (e, mempool) \<Rightarrow> Inl (e, h\<lparr>ch_mempool := mempool\<rparr>)
           | Inr (d, h, mempool) \<Rightarrow>
               Inr (d, update_class base (\<lambda>c. c\<lparr>c_descendants := Some d\<rparr>) (h\<lparr>ch_mempool := mempool\<rparr>))))"

definition count_terminal :: "nat \<Rightarrow> class_heap \<Rightarrow> class_heap" where
  "count_terminal base h = update_class base (\<lambda>c. c\<lparr>c_num_terminals := c_num_terminals c + 1\<rparr>) h"

definition entry_id :: "class_heap \<Rightarrow> nat \<Rightarrow> byte list" where
  "entry_id h self = ce_id (ch_entries h (c_entry (ch_classes h self)))"

definition index_with :: "nat \<Rightarrow> nat \<Rightarrow> class_heap \<Rightarrow> failure option \<times> class_heap" where
  "index_with self base h =
     (case desc_idx base h of
        Inl (e, h) \<Rightarrow> (Some e, h)
      | Inr (d, h) \<Rightarrow>
          (case knd_set_get (ch_sets h d) (entry_id h self) of
             Inr _ \<Rightarrow> (None, h)
           | Inl Stuck \<Rightarrow> (Some Stuck, h)
           | Inl (Err _) \<Rightarrow> add_to_set d (entry_id h self) (c_entry (ch_classes h self)) (count_terminal base h)))"

text \<open>An entry of another repository is replaced by the one of its name in the index of the task, if there is one.\<close>

definition index_ancestor :: "nat \<Rightarrow> nat \<Rightarrow> class_heap \<Rightarrow> failure option \<times> class_heap" where
  "index_ancestor self base_entry h =
     (case (if ce_repo (ch_entries h base_entry) \<noteq> class_repo_addr h self then
              (case knd_dict_get (ch_task_class_name_idx h) (ce_name (ch_entries h base_entry)) of
                 Inl e \<Rightarrow> Inl e
               | Inr None \<Rightarrow> Inr (ce_class (ch_entries h base_entry))
               | Inr (Some prev_entry) \<Rightarrow> Inr (ce_class (ch_entries h prev_entry)))
            else Inr (ce_class (ch_entries h base_entry))) of
        Inl e \<Rightarrow> (Some e, h)
      | Inr None \<Rightarrow> (Some Stuck, h)
      | Inr (Some base) \<Rightarrow> index_with self base h)"

fun index_ancestors :: "nat \<Rightarrow> (nat \<times> nat) list \<Rightarrow> class_heap \<Rightarrow> failure option \<times> class_heap" where
  "index_ancestors self [] h = (None, h)"
| "index_ancestors self ((_, entry) # refs) h =
     (if (case ce_class (ch_entries h entry) of None \<Rightarrow> False | Some c \<Rightarrow> c_state_top (ch_classes h c))
      then index_ancestors self refs h
      else then_step (index_ancestor self entry h) (index_ancestors self refs))"

section \<open>Children\<close>

text \<open>The child is registered with the class of the entry of \<open>base\<close>; its number is counted twice in the initial load.\<close>

definition register_child :: "knd_task_spec_type \<Rightarrow> nat \<Rightarrow> nat \<Rightarrow> class_heap \<Rightarrow> failure option \<times> class_heap" where
  "register_child task_type self base h =
     (case knd_class_ref_new (ch_mempool h) of
        Inl e \<Rightarrow> (Some e, h)
      | Inr (_, mempool) \<Rightarrow>
          (let h = h\<lparr>ch_mempool := mempool\<rparr> in
           case ce_class (ch_entries h (c_entry (ch_classes h base))) of
             None \<Rightarrow> (Some Stuck, h)
           | Some c \<Rightarrow>
               (let h = update_class c (\<lambda>k. k\<lparr>c_children := (self, c_entry (ch_classes h self)) # c_children k,
                      c_num_children := c_num_children k + 1\<rparr>) h in
                (None,
                 if task_type = KND_BULK_LOAD_STATE
                 then update_class base (\<lambda>k. k\<lparr>c_num_children := c_num_children k + 1\<rparr>) h else h))))"

text \<open>The base class itself gets the descendant without a check whether it has it already.\<close>

definition register_descendant :: "nat \<Rightarrow> nat \<Rightarrow> class_heap \<Rightarrow> failure option \<times> class_heap" where
  "register_descendant self base h =
     (case desc_idx base (count_terminal base h) of
        Inl (e, h) \<Rightarrow> (Some e, h)
      | Inr (d, h) \<Rightarrow> add_to_set d (entry_id h self) (c_entry (ch_classes h self)) h)"

definition index_baseclass :: "knd_task_spec_type \<Rightarrow> nat \<Rightarrow> nat \<Rightarrow> class_heap \<Rightarrow> failure option \<times> class_heap" where
  "index_baseclass task_type self base h =
     then_step (register_child task_type self base h) (\<lambda>h.
       then_step (index_ancestors self (c_ancestors (ch_classes h base)) h) (register_descendant self base))"

fun index_baseclass_vars :: "knd_task_spec_type \<Rightarrow> nat \<Rightarrow> nat list \<Rightarrow> class_heap \<Rightarrow> failure option \<times> class_heap" where
  "index_baseclass_vars task_type self [] h = (None, h)"
| "index_baseclass_vars task_type self (v # vs) h =
     (case ce_class (ch_entries h (cv_entry (ch_vars h v))) of
        None \<Rightarrow> (Some Stuck, h)
      | Some base \<Rightarrow> then_step (index_baseclass task_type self base h) (index_baseclass_vars task_type self vs))"

definition index_baseclasses :: "knd_task_spec_type \<Rightarrow> nat \<Rightarrow> class_heap \<Rightarrow> failure option \<times> class_heap" where
  "index_baseclasses task_type self h = index_baseclass_vars task_type self (c_baseclass_vars (ch_classes h self)) h"

section \<open>Hubs\<close>

text \<open>The hub for an attribute in a list of hubs; a new one goes to the front.\<close>

fun find_hub :: "class_heap \<Rightarrow> nat \<Rightarrow> nat list \<Rightarrow> nat option" where
  "find_hub h attr [] = None"
| "find_hub h attr (hub # hubs) = (if ah_attr (ch_hubs h hub) = Some attr then Some hub else find_hub h attr hubs)"

definition update_hub :: "nat \<Rightarrow> (kndAttrHub \<Rightarrow> kndAttrHub) \<Rightarrow> class_heap \<Rightarrow> class_heap" where
  "update_hub p f h = h\<lparr>ch_hubs := (ch_hubs h)(p := f (ch_hubs h p))\<rparr>"

definition new_hub :: "nat \<Rightarrow> class_heap \<Rightarrow> (class_heap, nat) outcome" where
  "new_hub attr h =
     (case knd_attr_hub_new (ch_user_mempool h) of
        Inl e \<Rightarrow> Inl (e, h)
      | Inr (hub, mempool) \<Rightarrow>
          Inr (hub, update_hub hub (\<lambda>_. new_attr_hub\<lparr>ah_attr := Some attr\<rparr>) (h\<lparr>ch_user_mempool := mempool\<rparr>)))"

definition attr_hub_fetch :: "nat \<Rightarrow> nat \<Rightarrow> class_heap \<Rightarrow> (class_heap, nat) outcome" where
  "attr_hub_fetch owner attr h =
     (case find_hub h attr (c_attr_hubs (ch_classes h owner)) of
        Some hub \<Rightarrow> Inr (hub, h)
      | None \<Rightarrow>
          bind_out (new_hub attr h) (\<lambda>hub h. Inr (hub, update_class owner (\<lambda>c. c\<lparr>c_attr_hubs := hub # c_attr_hubs c\<rparr>) h)))"

definition hub_topics :: "nat \<Rightarrow> class_heap \<Rightarrow> (class_heap, nat) outcome" where
  "hub_topics hub h =
     (case ah_topics (ch_hubs h hub) of
        Some d \<Rightarrow> Inr (d, h)
      | None \<Rightarrow>
          (case new_set (ch_user_mempool h) h of
             Inl (e, mempool) \<Rightarrow> Inl (e, h\<lparr>ch_user_mempool := mempool\<rparr>)
           | Inr (d, h, mempool) \<Rightarrow>
               Inr (d, update_hub hub (\<lambda>a. a\<lparr>ah_topics := Some d\<rparr>) (h\<lparr>ch_user_mempool := mempool\<rparr>))))"

definition add_topic :: "nat \<Rightarrow> byte list \<Rightarrow> nat \<Rightarrow> class_heap \<Rightarrow> failure option \<times> class_heap" where
  "add_topic set_addr key topic h =
     (case knd_set_add (ch_sets h set_addr) key topic (ch_user_mempool h) of
        (err, topics, mempool) \<Rightarrow> (err, h\<lparr>ch_sets := (ch_sets h)(set_addr := topics), ch_user_mempool := mempool\<rparr>))"

text \<open>The elements of the set of a class hub are references to the entries.\<close>

definition attr_hub_add_classref :: "nat \<Rightarrow> nat \<Rightarrow> class_heap \<Rightarrow> failure option \<times> class_heap" where
  "attr_hub_add_classref hub topic h =
     (case hub_topics hub h of
        Inl (e, h) \<Rightarrow> (Some e, h)
      | Inr (d, h) \<Rightarrow>
          (case knd_set_get (ch_sets h d) (ce_id (ch_entries h topic)) of
             Inr _ \<Rightarrow> (None, h)
           | Inl Stuck \<Rightarrow> (Some Stuck, h)
           | Inl (Err _) \<Rightarrow>
               (case knd_class_ref_new (ch_user_mempool h) of
                  Inl e \<Rightarrow> (Some e, h)
                | Inr (ref, mempool) \<Rightarrow>
                    add_topic d (ce_id (ch_entries h topic)) ref
                      (h\<lparr>ch_class_refs := (ch_class_refs h)(ref := topic), ch_user_mempool := mempool\<rparr>))))"

section \<open>Indexing the values of attributes\<close>

text \<open>The topic becomes a value of the hub of the class that is referred to.\<close>

definition index_class_ref :: "class_fetch \<Rightarrow> nat \<Rightarrow> nat \<Rightarrow> nat \<Rightarrow> class_heap \<Rightarrow> failure option \<times> class_heap" where
  "index_class_ref fetch topic attr entry h =
     (case bind_out (knd_class_acquire fetch entry h) (\<lambda>spec h. attr_hub_fetch spec attr h) of
        Inl (e, h) \<Rightarrow> (Some e, h)
      | Inr (hub, h) \<Rightarrow> attr_hub_add_classref hub topic h)"

definition index_ref :: "class_fetch \<Rightarrow> nat \<Rightarrow> nat \<Rightarrow> nat \<Rightarrow> class_heap \<Rightarrow> failure option \<times> class_heap" where
  "index_ref fetch topic attr var h =
     (case av_class_entry (ch_attr_vars h var) of
        None \<Rightarrow> (Some Stuck, h)
      | Some entry \<Rightarrow> index_class_ref fetch topic attr entry h)"

definition index_if_ref :: "class_fetch \<Rightarrow> nat \<Rightarrow> nat \<Rightarrow> nat \<Rightarrow> class_heap \<Rightarrow> failure option \<times> class_heap" where
  "index_if_ref fetch topic attr var h =
     (case av_class_entry (ch_attr_vars h var) of
        None \<Rightarrow> (None, h)
      | Some entry \<Rightarrow> index_class_ref fetch topic attr entry h)"

fun index_inner_items :: "class_fetch \<Rightarrow> nat \<Rightarrow> nat \<Rightarrow> nat list \<Rightarrow> class_heap \<Rightarrow> failure option \<times> class_heap" where
  "index_inner_items fetch topic attr [] h = (None, h)"
| "index_inner_items fetch topic attr (item # items) h =
     (case av_attr (ch_attr_vars h item) of
        None \<Rightarrow> (Some Stuck, h)
      | Some a \<Rightarrow>
          then_step
            (if at_is_indexed (ch_attrs h a) \<and> at_type (ch_attrs h a) = KND_ATTR_REF
             then index_if_ref fetch topic attr item h else (None, h))
            (index_inner_items fetch topic attr items))"

definition index_inner_attr_var :: "class_fetch \<Rightarrow> nat \<Rightarrow> nat \<Rightarrow> nat \<Rightarrow> class_heap \<Rightarrow> failure option \<times> class_heap" where
  "index_inner_attr_var fetch topic attr var h =
     then_step
       (case av_implied_attr (ch_attr_vars h var) of
          None \<Rightarrow> (None, h)
        | Some a \<Rightarrow> if at_type (ch_attrs h a) = KND_ATTR_REF then index_if_ref fetch topic attr var h else (None, h))
       (\<lambda>h. index_inner_items fetch topic attr (av_children (ch_attr_vars h var)) h)"

definition knd_index_attr_var :: "class_fetch \<Rightarrow> nat \<Rightarrow> nat \<Rightarrow> nat \<Rightarrow> class_heap \<Rightarrow> failure option \<times> class_heap" where
  "knd_index_attr_var fetch topic attr var h =
     (case at_type (ch_attrs h attr) of
        KND_ATTR_REF \<Rightarrow> index_ref fetch topic attr var h
      | KND_ATTR_INNER \<Rightarrow> index_inner_attr_var fetch topic attr var h
      | _ \<Rightarrow> (None, h))"

fun index_list_items :: "class_fetch \<Rightarrow> nat \<Rightarrow> nat \<Rightarrow> nat list \<Rightarrow> class_heap \<Rightarrow> failure option \<times> class_heap" where
  "index_list_items fetch topic attr [] h = (None, h)"
| "index_list_items fetch topic attr (item # items) h =
     then_step
       (if at_type (ch_attrs h attr) = KND_ATTR_REF then index_ref fetch topic attr item h else (None, h))
       (index_list_items fetch topic attr items)"

definition knd_index_attr_var_list :: "class_fetch \<Rightarrow> nat \<Rightarrow> nat \<Rightarrow> nat \<Rightarrow> class_heap \<Rightarrow> failure option \<times> class_heap" where
  "knd_index_attr_var_list fetch topic attr var h = index_list_items fetch topic attr (av_list (ch_attr_vars h var)) h"

section \<open>Indexing a class\<close>

text \<open>Only the values that the class itself sets are indexed.\<close>

definition index_attr :: "class_fetch \<Rightarrow> nat \<Rightarrow> class_heap \<Rightarrow> byte list \<Rightarrow> nat \<Rightarrow> nat \<Rightarrow> failure option \<times> class_heap" where
  "index_attr fetch self h elem_id n src_ref =
     (case (ar_attr (ch_attr_refs h src_ref), ar_attr_var (ch_attr_refs h src_ref)) of
        (_, None) \<Rightarrow> (None, h)
      | (None, Some var) \<Rightarrow> (Some Stuck, h)
      | (Some attr, Some var) \<Rightarrow>
          if \<not> at_is_indexed (ch_attrs h attr) \<or> cv_parent (ch_vars h (av_class_var (ch_attr_vars h var))) \<noteq> self
          then (None, h)
          else if at_is_a_set (ch_attrs h attr)
          then knd_index_attr_var_list fetch (c_entry (ch_classes h self)) attr var h
          else knd_index_attr_var fetch (c_entry (ch_classes h self)) attr var h)"

definition knd_class_index :: "class_fetch \<Rightarrow> knd_task_spec_type \<Rightarrow> nat \<Rightarrow> class_heap \<Rightarrow> failure option \<times> class_heap" where
  "knd_class_index fetch task_type self h =
     (if c_is_indexed (ch_classes h self) then (None, h)
      else if c_indexing_in_progress (ch_classes h self) then (Some (Err knd_FAIL), h)
      else
        (let h = update_class self (\<lambda>c. c\<lparr>c_indexing_in_progress := True\<rparr>) h in
         then_step
           (if c_baseclass_vars (ch_classes h self) = []
            then index_baseclass task_type self (repo_root_class (class_repo h self)) h
            else index_baseclasses task_type self h)
           (\<lambda>h. then_step (knd_set_map (ch_sets h (c_attr_idx (ch_classes h self))) (index_attr fetch self) h)
             (\<lambda>h. (None, update_class self (\<lambda>c. c\<lparr>c_is_indexed := True\<rparr>) h)))))"

end
