(* ===== verification/Class_Descendants.thy ===== *)
theory Class_Descendants
  imports Class_Index Class_Pages
begin

text \<open>
  The descendants of a class as a set of identifiers, what indexing a class adds to these sets, and when it fails with
  a conflict. \<open>desc_ok\<close>: no two classes share a set of descendants, and no set is on a free page of the pool.
\<close>

section \<open>The sets of descendants\<close>

definition desc_ok :: "class_heap \<Rightarrow> bool" where
  "desc_ok h \<longleftrightarrow>
     (\<forall>c d. c_descendants (ch_classes h c) = Some d \<longrightarrow> set_ok (ch_sets h d) \<and> \<not> set_allow_overwrite (ch_sets h d) \<and>
        d \<notin> set (sets_left (ch_mempool h)) \<and> (\<forall>c'. c_descendants (ch_classes h c') = Some d \<longrightarrow> c' = c))"

definition descs :: "class_heap \<Rightarrow> nat \<Rightarrow> byte list set" where
  "descs h c = (case c_descendants (ch_classes h c) of None \<Rightarrow> {} | Some d \<Rightarrow> dom (set_at (ch_sets h d)))"

text \<open>What indexing leaves alone.\<close>

definition same_links :: "class_heap \<Rightarrow> class_heap \<Rightarrow> bool" where
  "same_links h h' \<longleftrightarrow> ch_entries h' = ch_entries h \<and> ch_vars h' = ch_vars h \<and> ch_repos h' = ch_repos h \<and>
     ch_task_class_name_idx h' = ch_task_class_name_idx h \<and>
     (\<forall>c. c_entry (ch_classes h' c) = c_entry (ch_classes h c) \<and> c_ancestors (ch_classes h' c) = c_ancestors (ch_classes h c) \<and>
        c_state_top (ch_classes h' c) = c_state_top (ch_classes h c) \<and>
        c_baseclass_vars (ch_classes h' c) = c_baseclass_vars (ch_classes h c))"

lemma same_links_refl [simp]: "same_links h h"
  by (simp add: same_links_def)

lemma same_links_trans: "same_links h h' \<Longrightarrow> same_links h' h'' \<Longrightarrow> same_links h h''"
  by (simp add: same_links_def)

text \<open>One step: what it costs, and the descendants after it.\<close>

definition indexes :: "nat \<Rightarrow> nat \<Rightarrow> nat \<Rightarrow> class_heap \<Rightarrow> class_heap \<Rightarrow> bool" where
  "indexes r s n h h' \<longleftrightarrow> desc_ok h' \<and> same_links h h' \<and> index_pool (ch_mempool h') \<and> spends r s n (ch_mempool h) (ch_mempool h')"

lemma indexes_trans: "indexes r s n h h' \<Longrightarrow> indexes r' s' n' h' h'' \<Longrightarrow> indexes (r + r') (s + s') (n + n') h h''"
  by (auto simp: indexes_def intro: same_links_trans spends_trans)

lemma descs_update:
  assumes "\<And>c. c_descendants (f c) = c_descendants c"
  shows "descs (update_class b f h) = descs h"
  using assms by (simp add: descs_def update_class_def fun_eq_iff split: option.splits)

lemma indexes_update:
  assumes "desc_ok h" and "index_pool (ch_mempool h)" and "\<And>c. c_descendants (f c) = c_descendants c"
    and "\<And>c. c_entry (f c) = c_entry c \<and> c_ancestors (f c) = c_ancestors c \<and> c_state_top (f c) = c_state_top c \<and>
      c_baseclass_vars (f c) = c_baseclass_vars c"
  shows "indexes 0 0 0 h (update_class b f h)"
proof -
  have "c_descendants (ch_classes (update_class b f h) c) = c_descendants (ch_classes h c)" for c
    using assms(3) by (simp add: update_class_def)
  moreover have "ch_sets (update_class b f h) = ch_sets h" "ch_mempool (update_class b f h) = ch_mempool h"
    by (simp_all add: update_class_def)
  ultimately have "desc_ok (update_class b f h)" using assms(1) by (simp add: desc_ok_def)
  then show ?thesis using assms(2,4) by (simp add: indexes_def same_links_def update_class_def)
qed

lemma desc_idx_step:
  assumes ok: "desc_ok h" and pool: "index_pool (ch_mempool h)" and left: "sets_left (ch_mempool h) \<noteq> []" "nodes_left (ch_mempool h) \<noteq> 0"
  obtains d h' where "desc_idx b h = Inr (d, h')" "indexes 0 1 1 h h'" "descs h' = descs h" "c_descendants (ch_classes h' b) = Some d"
proof (cases "c_descendants (ch_classes h b)")
  case (Some d)
  then show thesis using ok pool by (intro that [of d h]) (simp_all add: desc_idx_def indexes_def)
next
  case None
  obtain p m1 m' and self :: "nat kndSet" where s: "knd_mempool_page (ch_mempool h) KND_MEMPAGE_SMALL = Inr (p, m1)"
    "knd_set_new (ch_mempool h) = (None, Some self, m')" "set_ok self" "set_at self = Map.empty" "\<not> set_allow_overwrite self"
    "p \<in> set (sets_left (ch_mempool h))" "p \<notin> set (sets_left m')" "index_pool m'" "spends 0 1 1 (ch_mempool h) m'"
    by (rule set_new_spends [OF pool left])
  define h' where "h' = update_class b (\<lambda>c. c\<lparr>c_descendants := Some p\<rparr>) (h\<lparr>ch_sets := (ch_sets h)(p := self), ch_mempool := m'\<rparr>)"
  have fresh: "c_descendants (ch_classes h c) \<noteq> Some p" for c using ok s(6) by (auto simp: desc_ok_def)
  have "desc_idx b h = Inr (p, h')" using s(1,2) None by (simp add: desc_idx_def new_set_def h'_def)
  moreover have "desc_ok h'"
    using ok s(3,5,7,9) fresh by (auto simp: desc_ok_def h'_def update_class_def spends_def split: if_splits)
  moreover have "descs h' = descs h"
    using fresh None s(4) by (auto simp: descs_def h'_def update_class_def fun_eq_iff split: option.splits)
  moreover have "same_links h h'" by (simp add: same_links_def h'_def update_class_def)
  ultimately show thesis using s(8,9) by (intro that [of p h']) (simp_all add: indexes_def h'_def update_class_def)
qed

lemma add_desc_step:
  assumes ok: "desc_ok h" and pool: "index_pool (ch_mempool h)" and "c_descendants (ch_classes h b) = Some d"
    and "valid_id key" and "length key \<le> nodes_left (ch_mempool h)"
  obtains h' where "add_to_set d key e h = (if key \<in> descs h b then Some (Err knd_CONFLICT) else None, h')"
    "indexes 0 0 (length key) h h'" "descs h' = (descs h)(b := insert key (descs h b))"
proof -
  have d: "set_ok (ch_sets h d)" "\<not> set_allow_overwrite (ch_sets h d)" "\<And>c'. c_descendants (ch_classes h c') = Some d \<Longrightarrow> c' = b"
    using assms(1,3) unfolding desc_ok_def by metis+
  have mem: "key \<in> descs h b \<longleftrightarrow> set_at (ch_sets h d) key \<noteq> None" using assms(3) by (auto simp: descs_def)
  obtain m' self' where s: "knd_set_add (ch_sets h d) key e (ch_mempool h) =
      (if set_at (ch_sets h d) key = None then None else Some (Err knd_CONFLICT), self', m')"
    "set_ok self'" "set_at self' = (if set_at (ch_sets h d) key = None then (set_at (ch_sets h d))(key \<mapsto> e) else set_at (ch_sets h d))"
    "set_allow_overwrite self' = set_allow_overwrite (ch_sets h d)" "index_pool m'" "spends 0 0 (length key) (ch_mempool h) m'"
    by (rule set_add_spends [OF d(1,2) assms(4) pool assms(5)])
  define h' where "h' = h\<lparr>ch_sets := (ch_sets h)(d := self'), ch_mempool := m'\<rparr>"
  have "add_to_set d key e h = (if key \<in> descs h b then Some (Err knd_CONFLICT) else None, h')"
    using s(1) mem by (simp add: add_to_set_def h'_def)
  moreover have "desc_ok h'"
  proof -
    have sub: "set (sets_left m') \<subseteq> set (sets_left (ch_mempool h))" using s(6) by (simp add: spends_def)
    show ?thesis unfolding desc_ok_def
    proof (intro allI impI)
      fix c k assume "c_descendants (ch_classes h' c) = Some k"
      then have c: "c_descendants (ch_classes h c) = Some k" by (simp add: h'_def)
      then have "set_ok (ch_sets h k) \<and> \<not> set_allow_overwrite (ch_sets h k) \<and> k \<notin> set (sets_left (ch_mempool h)) \<and>
          (\<forall>c'. c_descendants (ch_classes h c') = Some k \<longrightarrow> c' = c)"
        using ok unfolding desc_ok_def by blast
      then show "set_ok (ch_sets h' k) \<and> \<not> set_allow_overwrite (ch_sets h' k) \<and> k \<notin> set (sets_left (ch_mempool h')) \<and>
          (\<forall>c'. c_descendants (ch_classes h' c') = Some k \<longrightarrow> c' = c)"
        using s(2,4) d(2) sub by (cases "k = d") (auto simp: h'_def)
    qed
  qed
  moreover have "descs h' c = ((descs h)(b := insert key (descs h b))) c" for c
  proof (cases "c = b")
    case True
    then show ?thesis using s(3) assms(3) by (auto simp: descs_def h'_def)
  next
    case False
    then have "c_descendants (ch_classes h c) \<noteq> Some d" using d(3) by blast
    then show ?thesis using False by (simp add: descs_def h'_def split: option.splits)
  qed
  moreover have "same_links h h'" by (simp add: same_links_def h'_def)
  ultimately show thesis using s(5,6) by (intro that [of h']) (simp_all add: indexes_def h'_def fun_eq_iff)
qed

section \<open>Indexing under a class and its ancestors\<close>

definition can_index :: "nat \<Rightarrow> byte list \<Rightarrow> class_heap \<Rightarrow> bool" where
  "can_index self key h \<longleftrightarrow> desc_ok h \<and> index_pool (ch_mempool h) \<and> entry_id h self = key \<and> valid_id key"

lemma same_links_id: "same_links h h' \<Longrightarrow> entry_id h' self = entry_id h self"
  by (simp add: same_links_def entry_id_def)

lemma can_index_step: "can_index self key h \<Longrightarrow> indexes r s n h h' \<Longrightarrow> can_index self key h'"
  by (auto simp: can_index_def indexes_def dest: same_links_id [of _ _ self])

lemma count_terminal_indexes:
  "desc_ok h \<Longrightarrow> index_pool (ch_mempool h) \<Longrightarrow> indexes 0 0 0 h (count_terminal b h) \<and> descs (count_terminal b h) = descs h \<and>
   (ch_mempool (count_terminal b h) = ch_mempool h) \<and>
   c_descendants (ch_classes (count_terminal b h) b) = c_descendants (ch_classes h b)"
  unfolding count_terminal_def by (intro conjI indexes_update descs_update) (simp_all add: update_class_def)

lemma index_with_step:
  assumes "can_index self key h" and "sets_left (ch_mempool h) \<noteq> []" "length key < nodes_left (ch_mempool h)"
  obtains h' where "index_with self b h = (None, h')" "indexes 0 1 (Suc (length key)) h h'"
    "descs h' = (descs h)(b := insert key (descs h b))"
proof -
  have ok: "desc_ok h" "index_pool (ch_mempool h)" and key: "entry_id h self = key" "valid_id key"
    using assms(1) by (auto simp: can_index_def)
  have nodes: "nodes_left (ch_mempool h) \<noteq> 0" using assms(3) by linarith
  obtain d h1 where d: "desc_idx b h = Inr (d, h1)" and h1: "indexes 0 1 1 h h1" and descs1: "descs h1 = descs h"
    and at: "c_descendants (ch_classes h1 b) = Some d"
    by (rule desc_idx_step [OF ok assms(2) nodes])
  have ok1: "desc_ok h1" "index_pool (ch_mempool h1)" and id1: "entry_id h1 self = key"
    using h1 key same_links_id by (auto simp: indexes_def)
  have set_d: "set_ok (ch_sets h1 d)" using ok1(1) at by (auto simp: desc_ok_def)
  have mem: "key \<in> descs h1 b \<longleftrightarrow> set_at (ch_sets h1 d) key \<noteq> None" using at by (auto simp: descs_def)
  note get = set_get_at [OF set_d key(2)]
  show thesis
  proof (cases "key \<in> descs h1 b")
    case True
    then have "index_with self b h = (None, h1)" using d get id1 mem by (auto simp: index_with_def)
    moreover have "descs h1 = (descs h)(b := insert key (descs h b))" using True descs1 by (simp add: fun_eq_iff insert_absorb)
    moreover have "indexes 0 1 (Suc (length key)) h h1" using h1 by (auto simp: indexes_def spends_def)
    ultimately show thesis by (intro that)
  next
    case False
    define h2 where "h2 = count_terminal b h1"
    have h2: "indexes 0 0 0 h1 h2" "descs h2 = descs h1" "ch_mempool h2 = ch_mempool h1" "c_descendants (ch_classes h2 b) = Some d"
      using count_terminal_indexes [OF ok1] at by (auto simp: h2_def)
    have nodes2: "length key \<le> nodes_left (ch_mempool h2)" using h1 h2(3) assms(3) by (auto simp: indexes_def spends_def)
    have ok2: "desc_ok h2" "index_pool (ch_mempool h2)" using h2(1) by (auto simp: indexes_def)
    obtain h' where h': "add_to_set d key (c_entry (ch_classes h1 self)) h2 =
        (if key \<in> descs h2 b then Some (Err knd_CONFLICT) else None, h')"
      "indexes 0 0 (length key) h2 h'" "descs h' = (descs h2)(b := insert key (descs h2 b))"
      by (rule add_desc_step [OF ok2 h2(4) key(2) nodes2])
    have "index_with self b h = (None, h')"
      using d get id1 mem False h'(1) h2(2) by (simp add: index_with_def h2_def split: option.splits)
    moreover have "indexes 0 1 (Suc (length key)) h h'" using indexes_trans [OF indexes_trans [OF h1 h2(1)] h'(2)] by simp
    ultimately show thesis using h'(3) h2(2) descs1 by (intro that) simp_all
  qed
qed

text \<open>The class that an ancestor stands for.\<close>

definition ancestor_class :: "class_heap \<Rightarrow> nat \<Rightarrow> nat \<Rightarrow> nat option" where
  "ancestor_class h self e =
     (if ce_repo (ch_entries h e) \<noteq> class_repo_addr h self then
        (case knd_dict_get (ch_task_class_name_idx h) (ce_name (ch_entries h e)) of
           Inl _ \<Rightarrow> None
         | Inr None \<Rightarrow> ce_class (ch_entries h e)
         | Inr (Some prev_entry) \<Rightarrow> ce_class (ch_entries h prev_entry))
      else ce_class (ch_entries h e))"

lemma same_links_ancestor: "same_links h h' \<Longrightarrow> ancestor_class h' self e = ancestor_class h self e"
  by (auto simp: same_links_def ancestor_class_def class_repo_addr_def split: sum.splits option.splits)

lemma index_ancestor_class: "ancestor_class h self e = Some b \<Longrightarrow> index_ancestor self e h = index_with self b h"
  by (auto simp: index_ancestor_def ancestor_class_def split: if_splits sum.splits option.splits)

definition top_entry :: "class_heap \<Rightarrow> nat \<Rightarrow> bool" where
  "top_entry h e \<longleftrightarrow> (case ce_class (ch_entries h e) of None \<Rightarrow> False | Some c \<Rightarrow> c_state_top (ch_classes h c))"

definition counted :: "class_heap \<Rightarrow> (nat \<times> nat) list \<Rightarrow> nat list" where
  "counted h refs = filter (\<lambda>e. \<not> top_entry h e) (map snd refs)"

definition ancestor_classes :: "class_heap \<Rightarrow> nat \<Rightarrow> (nat \<times> nat) list \<Rightarrow> nat set" where
  "ancestor_classes h self refs = {b. \<exists>e\<in>set (counted h refs). ancestor_class h self e = Some b}"

lemma same_links_counted:
  assumes "same_links h h'"
  shows "counted h' refs = counted h refs" and "ancestor_classes h' self refs = ancestor_classes h self refs"
proof -
  have "top_entry h' e = top_entry h e" for e using assms by (simp add: same_links_def top_entry_def cong: option.case_cong)
  then show counted: "counted h' refs = counted h refs" by (simp add: counted_def)
  show "ancestor_classes h' self refs = ancestor_classes h self refs"
    using same_links_ancestor [OF assms] by (simp add: ancestor_classes_def counted)
qed

definition add_descs :: "byte list \<Rightarrow> nat set \<Rightarrow> (nat \<Rightarrow> byte list set) \<Rightarrow> nat \<Rightarrow> byte list set" where
  "add_descs key B D = (\<lambda>b. if b \<in> B then insert key (D b) else D b)"

lemma index_ancestors_step:
  assumes "can_index self key h" and "length (counted h refs) \<le> length (sets_left (ch_mempool h))"
    and "length (counted h refs) * Suc (length key) \<le> nodes_left (ch_mempool h)"
    and "\<And>e. e \<in> set (counted h refs) \<Longrightarrow> ancestor_class h self e \<noteq> None"
  shows "\<exists>h'. index_ancestors self refs h = (None, h') \<and>
    indexes 0 (length (counted h refs)) (length (counted h refs) * Suc (length key)) h h' \<and>
    descs h' = add_descs key (ancestor_classes h self refs) (descs h)"
  using assms
proof (induction refs arbitrary: h)
  case Nil
  then show ?case by (auto simp: counted_def ancestor_classes_def add_descs_def indexes_def can_index_def)
next
  case (Cons r refs)
  obtain c e where r: "r = (c, e)" by (cases r)
  show ?case
  proof (cases "top_entry h e")
    case True
    then have "counted h (r # refs) = counted h refs" by (simp add: r counted_def)
    moreover from this have "ancestor_classes h self (r # refs) = ancestor_classes h self refs" by (simp add: ancestor_classes_def)
    ultimately show ?thesis using Cons True by (simp add: r top_entry_def [symmetric])
  next
    case False
    then have counted: "counted h (r # refs) = e # counted h refs" by (simp add: r counted_def)
    then obtain b where b: "ancestor_class h self e = Some b" using Cons.prems(4) [of e] by auto
    have room: "sets_left (ch_mempool h) \<noteq> []" "length key < nodes_left (ch_mempool h)" using Cons.prems(2,3) counted by auto
    obtain h1 where h1: "index_with self b h = (None, h1)" "indexes 0 1 (Suc (length key)) h h1"
      "descs h1 = (descs h)(b := insert key (descs h b))"
      by (rule index_with_step [OF Cons.prems(1) room])
    have links: "same_links h h1" using h1(2) by (simp add: indexes_def)
    note same = same_links_counted [OF links]
    have "can_index self key h1" by (rule can_index_step [OF Cons.prems(1) h1(2)])
    moreover have "length (counted h1 refs) \<le> length (sets_left (ch_mempool h1))"
      "length (counted h1 refs) * Suc (length key) \<le> nodes_left (ch_mempool h1)"
      using Cons.prems(2,3) counted h1(2) by (auto simp: same indexes_def spends_def)
    moreover have "\<And>e. e \<in> set (counted h1 refs) \<Longrightarrow> ancestor_class h1 self e \<noteq> None"
      using Cons.prems(4) same_links_ancestor [OF links] counted by (simp add: same)
    ultimately obtain h' where h': "index_ancestors self refs h1 = (None, h')"
      "indexes 0 (length (counted h refs)) (length (counted h refs) * Suc (length key)) h1 h'"
      "descs h' = add_descs key (ancestor_classes h self refs) (descs h1)"
      using Cons.IH [of h1] by (auto simp: same)
    have "index_ancestors self (r # refs) h = (None, h')"
      using False h1(1) h'(1) index_ancestor_class [OF b] by (simp add: r top_entry_def [symmetric])
    moreover have "indexes 0 (length (counted h (r # refs))) (length (counted h (r # refs)) * Suc (length key)) h h'"
      using indexes_trans [OF h1(2) h'(2)] by (simp add: counted algebra_simps)
    moreover have "ancestor_classes h self (r # refs) = insert b (ancestor_classes h self refs)"
      using b by (auto simp: ancestor_classes_def counted)
    ultimately show ?thesis using h'(3) h1(3) by (auto simp: add_descs_def fun_eq_iff)
  qed
qed

lemma register_child_step:
  assumes "can_index self key h" and "refs_left (ch_mempool h) \<noteq> []"
    and "ce_class (ch_entries h (c_entry (ch_classes h b))) \<noteq> None"
  obtains h' where "register_child t self b h = (None, h')" "indexes 1 0 0 h h'" "descs h' = descs h"
proof -
  have ok: "desc_ok h" "index_pool (ch_mempool h)" using assms(1) by (auto simp: can_index_def)
  obtain c where c: "ce_class (ch_entries h (c_entry (ch_classes h b))) = Some c" using assms(3) by auto
  obtain p ps m' where p: "knd_mempool_page (ch_mempool h) KND_MEMPAGE_TINY = Inr (p, m')" "refs_left (ch_mempool h) = p # ps"
    "refs_left m' = ps" "index_pool m'"
    and keep: "\<And>u. canon u \<noteq> canon KND_MEMPAGE_TINY \<Longrightarrow> pages_left u m' = pages_left u (ch_mempool h)"
    by (rule page_cases [OF ok(2) assms(2)]) blast
  define h1 where "h1 = h\<lparr>ch_mempool := m'\<rparr>"
  define h2 where "h2 = update_class c (\<lambda>k. k\<lparr>c_children := (self, c_entry (ch_classes h self)) # c_children k,
      c_num_children := c_num_children k + 1\<rparr>) h1"
  define h3 where "h3 = (if t = KND_BULK_LOAD_STATE then update_class b (\<lambda>k. k\<lparr>c_num_children := c_num_children k + 1\<rparr>) h2 else h2)"
  have left: "sets_left m' = sets_left (ch_mempool h)" "nodes_left m' = nodes_left (ch_mempool h)"
    using keep [of KND_MEMPAGE_SMALL] keep [of KND_MEMPAGE_BASE] by simp_all
  have "desc_ok h1" using ok(1) left by (simp add: desc_ok_def h1_def)
  then have h1: "indexes 1 0 0 h h1" "descs h1 = descs h"
    using p left by (simp_all add: indexes_def same_links_def spends_def descs_def fun_eq_iff h1_def cong: option.case_cong)
  have h2: "indexes 0 0 0 h1 h2" "descs h2 = descs h1"
    using h1(1) unfolding h2_def by (auto simp: indexes_def [of _ _ _ h] intro!: indexes_update descs_update)
  have h3: "indexes 0 0 0 h2 h3" "descs h3 = descs h2"
    using h2(1) unfolding h3_def by (auto simp: indexes_def [of 0 0 0 h1] intro!: indexes_update descs_update)
      (simp add: indexes_def)
  have "\<not> pc_page_size (mp_tiny (ch_mempool h)) < 64" using ok(2) by (simp add: index_pool_def not_less)
  then have "register_child t self b h = (None, h3)"
    using p(1) c by (simp add: register_child_def knd_class_ref_new_def h3_def h2_def h1_def Let_def update_class_def)
  moreover have "indexes 1 0 0 h h3" using indexes_trans [OF indexes_trans [OF h1(1) h2(1)] h3(1)] by simp
  ultimately show thesis using h1(2) h2(2) h3(2) by (intro that [of h3]) simp_all
qed

lemma register_descendant_step:
  assumes "can_index self key h" and "sets_left (ch_mempool h) \<noteq> []" "length key < nodes_left (ch_mempool h)"
  obtains h' where "register_descendant self b h = (if key \<in> descs h b then Some (Err knd_CONFLICT) else None, h')"
    "indexes 0 1 (Suc (length key)) h h'" "descs h' = (descs h)(b := insert key (descs h b))"
proof -
  have ok: "desc_ok h" "index_pool (ch_mempool h)" using assms(1) by (auto simp: can_index_def)
  define h0 where "h0 = count_terminal b h"
  have h0: "indexes 0 0 0 h h0" "descs h0 = descs h" "ch_mempool h0 = ch_mempool h"
    using count_terminal_indexes [OF ok] by (auto simp: h0_def)
  have can0: "can_index self key h0" by (rule can_index_step [OF assms(1) h0(1)])
  have ok0: "desc_ok h0" "index_pool (ch_mempool h0)" using can0 by (auto simp: can_index_def)
  have left: "sets_left (ch_mempool h0) \<noteq> []" "nodes_left (ch_mempool h0) \<noteq> 0" using assms(2,3) h0(3) by auto
  obtain d h1 where d: "desc_idx b h0 = Inr (d, h1)" and h1: "indexes 0 1 1 h0 h1" and descs1: "descs h1 = descs h0"
    and at: "c_descendants (ch_classes h1 b) = Some d"
    by (rule desc_idx_step [OF ok0 left])
  have can1: "can_index self key h1" by (rule can_index_step [OF can0 h1])
  then have ok1: "desc_ok h1" "index_pool (ch_mempool h1)" "valid_id key" by (auto simp: can_index_def)
  have nodes1: "length key \<le> nodes_left (ch_mempool h1)" using h1 h0(3) assms(3) by (auto simp: indexes_def spends_def)
  obtain h' where h': "add_to_set d key (c_entry (ch_classes h1 self)) h1 =
      (if key \<in> descs h1 b then Some (Err knd_CONFLICT) else None, h')"
    "indexes 0 0 (length key) h1 h'" "descs h' = (descs h1)(b := insert key (descs h1 b))"
    by (rule add_desc_step [OF ok1(1,2) at ok1(3) nodes1])
  have "register_descendant self b h = (if key \<in> descs h b then Some (Err knd_CONFLICT) else None, h')"
    using d h'(1) can1 h0(2) descs1 by (simp add: register_descendant_def h0_def [symmetric] can_index_def)
  moreover have "indexes 0 1 (Suc (length key)) h h'" using indexes_trans [OF indexes_trans [OF h0(1) h1] h'(2)] by simp
  ultimately show thesis using h'(3) descs1 h0(2) by (intro that) simp_all
qed

section \<open>Indexing under the base classes\<close>

abbreviation ancestors_of :: "class_heap \<Rightarrow> nat \<Rightarrow> nat \<Rightarrow> nat set" where
  "ancestors_of h self b \<equiv> ancestor_classes h self (c_ancestors (ch_classes h b))"

definition index_cost :: "class_heap \<Rightarrow> nat \<Rightarrow> nat" where
  "index_cost h b = Suc (length (counted h (c_ancestors (ch_classes h b))))"

text \<open>The base class is known as the class of its entry, and so are its ancestors.\<close>

definition base_known :: "class_heap \<Rightarrow> nat \<Rightarrow> nat \<Rightarrow> bool" where
  "base_known h self b \<longleftrightarrow> ce_class (ch_entries h (c_entry (ch_classes h b))) \<noteq> None \<and>
     (\<forall>e\<in>set (counted h (c_ancestors (ch_classes h b))). ancestor_class h self e \<noteq> None)"

lemma same_links_base:
  assumes "same_links h h'"
  shows "c_ancestors (ch_classes h' b) = c_ancestors (ch_classes h b)" and "index_cost h' b = index_cost h b"
    and "base_known h' self b = base_known h self b"
proof -
  show anc: "c_ancestors (ch_classes h' b) = c_ancestors (ch_classes h b)" using assms by (simp add: same_links_def)
  show "index_cost h' b = index_cost h b" by (simp add: index_cost_def anc same_links_counted(1) [OF assms])
  have "ce_class (ch_entries h' (c_entry (ch_classes h' b))) = ce_class (ch_entries h (c_entry (ch_classes h b)))"
    using assms by (simp add: same_links_def)
  then show "base_known h' self b = base_known h self b"
    by (simp add: base_known_def anc same_links_counted(1) [OF assms] same_links_ancestor [OF assms])
qed

lemma index_baseclass_step:
  assumes "can_index self key h" and "base_known h self b" and "refs_left (ch_mempool h) \<noteq> []"
    and "index_cost h b \<le> length (sets_left (ch_mempool h))" and "index_cost h b * Suc (length key) \<le> nodes_left (ch_mempool h)"
  obtains h' where "index_baseclass t self b h =
      (if b \<in> ancestors_of h self b \<or> key \<in> descs h b then Some (Err knd_CONFLICT) else None, h')"
    "indexes 1 (index_cost h b) (index_cost h b * Suc (length key)) h h'"
    "descs h' = add_descs key (insert b (ancestors_of h self b)) (descs h)"
proof -
  let ?refs = "c_ancestors (ch_classes h b)"
  have class_b: "ce_class (ch_entries h (c_entry (ch_classes h b))) \<noteq> None" using assms(2) by (simp add: base_known_def)
  obtain h1 where h1: "register_child t self b h = (None, h1)" "indexes 1 0 0 h h1" "descs h1 = descs h"
    by (rule register_child_step [OF assms(1,3) class_b])
  have links1: "same_links h h1" using h1(2) by (simp add: indexes_def)
  note same1 = same_links_counted [OF links1]
  have can1: "can_index self key h1" by (rule can_index_step [OF assms(1) h1(2)])
  have "length (counted h1 ?refs) \<le> length (sets_left (ch_mempool h1))"
    "length (counted h1 ?refs) * Suc (length key) \<le> nodes_left (ch_mempool h1)"
    using assms(4,5) h1(2) by (auto simp: same1 index_cost_def indexes_def spends_def)
  moreover have "\<And>e. e \<in> set (counted h1 ?refs) \<Longrightarrow> ancestor_class h1 self e \<noteq> None"
    using assms(2) same_links_ancestor [OF links1] by (simp add: same1 base_known_def)
  ultimately obtain h2 where h2: "index_ancestors self ?refs h1 = (None, h2)"
    "indexes 0 (length (counted h ?refs)) (length (counted h ?refs) * Suc (length key)) h1 h2"
    "descs h2 = add_descs key (ancestors_of h self b) (descs h1)"
    using index_ancestors_step [OF can1, of ?refs] by (auto simp: same1)
  have can2: "can_index self key h2" by (rule can_index_step [OF can1 h2(2)])
  have room2: "sets_left (ch_mempool h2) \<noteq> []" "length key < nodes_left (ch_mempool h2)"
    using assms(4,5) h1(2) h2(2) by (auto simp: index_cost_def indexes_def spends_def)
  obtain h3 where h3: "register_descendant self b h2 = (if key \<in> descs h2 b then Some (Err knd_CONFLICT) else None, h3)"
    "indexes 0 1 (Suc (length key)) h2 h3" "descs h3 = (descs h2)(b := insert key (descs h2 b))"
    by (rule register_descendant_step [OF can2 room2])
  have "index_baseclass t self b h = (if b \<in> ancestors_of h self b \<or> key \<in> descs h b then Some (Err knd_CONFLICT) else None, h3)"
    using h1(1) h2(1) h3(1) h2(3) h1(3) same_links_base(1) [OF links1, of b] by (auto simp: index_baseclass_def add_descs_def)
  moreover have "indexes 1 (index_cost h b) (index_cost h b * Suc (length key)) h h3"
    using indexes_trans [OF indexes_trans [OF h1(2) h2(2)] h3(2)] by (simp add: index_cost_def algebra_simps)
  moreover have "descs h3 = add_descs key (insert b (ancestors_of h self b)) (descs h)"
    using h3(3) h2(3) h1(3) by (auto simp: add_descs_def fun_eq_iff)
  ultimately show thesis by (rule that)
qed

text \<open>A base class must not have the class as a descendant when its turn comes.\<close>

fun in_order :: "class_heap \<Rightarrow> nat \<Rightarrow> nat set \<Rightarrow> nat list \<Rightarrow> bool" where
  "in_order h self seen [] \<longleftrightarrow> True"
| "in_order h self seen (b # bs) \<longleftrightarrow>
     b \<notin> seen \<and> b \<notin> ancestors_of h self b \<and> in_order h self (seen \<union> insert b (ancestors_of h self b)) bs"

definition base_list :: "class_heap \<Rightarrow> nat list \<Rightarrow> nat list \<Rightarrow> bool" where
  "base_list h vs bs \<longleftrightarrow> map (\<lambda>v. ce_class (ch_entries h (cv_entry (ch_vars h v)))) vs = map Some bs"

definition bases_and_ancestors :: "class_heap \<Rightarrow> nat \<Rightarrow> nat list \<Rightarrow> nat set" where
  "bases_and_ancestors h self bs = (\<Union>b\<in>set bs. insert b (ancestors_of h self b))"

lemma same_links_order:
  assumes "same_links h h'"
  shows "in_order h' self seen bs = in_order h self seen bs" and "bases_and_ancestors h' self bs = bases_and_ancestors h self bs"
  by (induction bs arbitrary: seen)
    (simp_all add: bases_and_ancestors_def same_links_base(1) [OF assms] same_links_counted(2) [OF assms])

lemma index_vars_step:
  assumes "can_index self key h" and "base_list h vs bs" and "\<And>b. b \<in> set bs \<Longrightarrow> base_known h self b"
    and "length bs \<le> length (refs_left (ch_mempool h))" and "sum_list (map (index_cost h) bs) \<le> length (sets_left (ch_mempool h))"
    and "sum_list (map (index_cost h) bs) * Suc (length key) \<le> nodes_left (ch_mempool h)"
  shows "\<exists>h'. index_baseclass_vars t self vs h =
      (if in_order h self {b. key \<in> descs h b} bs then None else Some (Err knd_CONFLICT), h') \<and>
    (in_order h self {b. key \<in> descs h b} bs \<longrightarrow> descs h' = add_descs key (bases_and_ancestors h self bs) (descs h)) \<and>
    desc_ok h' \<and> same_links h h'"
  using assms
proof (induction vs arbitrary: h bs)
  case Nil
  then show ?case by (simp add: base_list_def bases_and_ancestors_def add_descs_def can_index_def)
next
  case (Cons v vs)
  obtain b bs' where bs: "bs = b # bs'" "ce_class (ch_entries h (cv_entry (ch_vars h v))) = Some b" "base_list h vs bs'"
    using Cons.prems(2) by (cases bs) (auto simp: base_list_def)
  have known: "base_known h self b" using Cons.prems(3) bs(1) by simp
  have room: "refs_left (ch_mempool h) \<noteq> []" "index_cost h b \<le> length (sets_left (ch_mempool h))"
    "index_cost h b * Suc (length key) \<le> nodes_left (ch_mempool h)"
    using Cons.prems(4-6) bs(1) by (auto simp: algebra_simps)
  obtain h1 where h1: "index_baseclass t self b h =
      (if b \<in> ancestors_of h self b \<or> key \<in> descs h b then Some (Err knd_CONFLICT) else None, h1)"
    "indexes 1 (index_cost h b) (index_cost h b * Suc (length key)) h h1"
    "descs h1 = add_descs key (insert b (ancestors_of h self b)) (descs h)"
    by (rule index_baseclass_step [OF Cons.prems(1) known room])
  have links: "same_links h h1" using h1(2) by (simp add: indexes_def)
  show ?case
  proof (cases "b \<in> ancestors_of h self b \<or> key \<in> descs h b")
    case True
    then show ?thesis using h1 bs by (auto simp: indexes_def)
  next
    case False
    have can1: "can_index self key h1" by (rule can_index_step [OF Cons.prems(1) h1(2)])
    have cost: "map (index_cost h1) bs' = map (index_cost h) bs'" using same_links_base(2) [OF links] by simp
    have list1: "base_list h1 vs bs'" using bs(3) links by (simp add: base_list_def same_links_def)
    have "\<And>b. b \<in> set bs' \<Longrightarrow> base_known h1 self b" using Cons.prems(3) bs(1) same_links_base(3) [OF links] by simp
    moreover have "length bs' \<le> length (refs_left (ch_mempool h1))"
      "sum_list (map (index_cost h1) bs') \<le> length (sets_left (ch_mempool h1))"
      "sum_list (map (index_cost h1) bs') * Suc (length key) \<le> nodes_left (ch_mempool h1)"
      using Cons.prems(4-6) bs(1) h1(2) by (auto simp: cost indexes_def spends_def algebra_simps)
    ultimately obtain h' where h': "index_baseclass_vars t self vs h1 =
        (if in_order h1 self {b. key \<in> descs h1 b} bs' then None else Some (Err knd_CONFLICT), h')"
      "in_order h1 self {b. key \<in> descs h1 b} bs' \<longrightarrow> descs h' = add_descs key (bases_and_ancestors h1 self bs') (descs h1)"
      "desc_ok h'" "same_links h1 h'"
      using Cons.IH [OF can1 list1] by blast
    have seen: "{c. key \<in> descs h1 c} = {c. key \<in> descs h c} \<union> insert b (ancestors_of h self b)"
      using h1(3) by (auto simp: add_descs_def)
    have order: "in_order h self {c. key \<in> descs h c} bs = in_order h1 self {c. key \<in> descs h1 c} bs'"
      using False same_links_order(1) [OF links] by (simp add: bs(1) seen)
    have "index_baseclass_vars t self (v # vs) h = index_baseclass_vars t self vs h1" using bs(2) h1(1) False by simp
    moreover have "add_descs key (bases_and_ancestors h1 self bs') (descs h1) = add_descs key (bases_and_ancestors h self bs) (descs h)"
      using h1(3) by (auto simp: add_descs_def fun_eq_iff same_links_order(2) [OF links]) (auto simp: bases_and_ancestors_def bs(1))
    ultimately show ?thesis using h' order same_links_trans [OF links] by auto
  qed
qed

section \<open>Samples\<close>

text \<open>The class 3 has the bases \<open>vs\<close>, the class 2 is based on 1.\<close>

definition order_heap :: "nat list \<Rightarrow> class_heap" where
  "order_heap vs = sample_heap
     \<lparr>ch_classes := (\<lambda>c. cleared_class\<lparr>c_entry := c, c_baseclass_vars := (if c = 3 then vs else []),
        c_ancestors := (if c = 2 then [(1, 1)] else [])\<rparr>),
      ch_entries := (\<lambda>e. \<lparr>ce_id = [of_nat (48 + e)], ce_numid = of_nat e, ce_name = [of_nat (64 + e)], ce_repo = 0, ce_base = None,
        ce_class = Some e, ce_phase = KND_CREATED, ce_dict_item = None\<rparr>),
      ch_vars := (\<lambda>v. \<lparr>cv_id = [], cv_type = KND_BASE_CLASS, cv_entry = v, cv_attrs = [], cv_parent = 3, cv_inst = None\<rparr>),
      ch_mempool := small_pool\<rparr>"

lemma order_heap_pool [simp]: "ch_mempool (order_heap vs) = small_pool"
  by (simp add: order_heap_def)

lemma order_heap_classes:
  "c_entry (ch_classes (order_heap vs) c) = c" "c_descendants (ch_classes (order_heap vs) c) = None"
  "c_ancestors (ch_classes (order_heap vs) c) = (if c = 2 then [(1, 1)] else [])"
  "c_state_top (ch_classes (order_heap vs) c) = False" "c_baseclass_vars (ch_classes (order_heap vs) 3) = vs"
  "ce_class (ch_entries (order_heap vs) e) = Some e" "ce_repo (ch_entries (order_heap vs) e) = 0"
  "ce_id (ch_entries (order_heap vs) e) = [of_nat (48 + e)]" "cv_entry (ch_vars (order_heap vs) v) = v"
  by (simp_all add: order_heap_def cleared_class_def)

lemma order_heap_index:
  "desc_ok (order_heap vs)" "descs (order_heap vs) c = {}" "base_list (order_heap vs) vs vs"
  "base_known (order_heap vs) 3 b" "index_cost (order_heap vs) b = (if b = 2 then 2 else 1)"
  "ancestors_of (order_heap vs) 3 b = (if b = 2 then {1} else {})"
  "entry_id (order_heap vs) 3 = [51]"
  by (simp_all add: desc_ok_def descs_def base_list_def base_known_def index_cost_def counted_def ancestor_classes_def ancestor_class_def
      class_repo_addr_def top_entry_def entry_id_def order_heap_classes)

section \<open>Properties\<close>

text \<open>C7: indexing a class under its base classes makes it a descendant of each of them and of all the ancestors of
  theirs that are not at the top, and of no other class. It succeeds exactly when each base class does not have the
  class among its descendants as its turn comes: a base class that is an ancestor of another base class is a
  conflict when it follows that class, and is not when it precedes it.\<close>
theorem class_index_descendants:
  assumes "desc_ok h" and "index_pool (ch_mempool h)" and "valid_id (entry_id h self)"
    and "base_list h (c_baseclass_vars (ch_classes h self)) bs" and "\<And>b. b \<in> set bs \<Longrightarrow> base_known h self b"
    and "length bs \<le> length (refs_left (ch_mempool h))" and "sum_list (map (index_cost h) bs) \<le> length (sets_left (ch_mempool h))"
    and "sum_list (map (index_cost h) bs) * Suc (length (entry_id h self)) \<le> nodes_left (ch_mempool h)"
  shows "case index_baseclasses task_type self h of
      (None, h') \<Rightarrow> in_order h self {b. entry_id h self \<in> descs h b} bs \<and> desc_ok h' \<and> same_links h h' \<and>
        descs h' = (\<lambda>c. if c \<in> bases_and_ancestors h self bs then insert (entry_id h self) (descs h c) else descs h c)
    | (Some e, h') \<Rightarrow> \<not> in_order h self {b. entry_id h self \<in> descs h b} bs \<and> e = Err knd_CONFLICT"
proof -
  have "can_index self (entry_id h self) h" using assms(1-3) by (simp add: can_index_def)
  from index_vars_step [OF this assms(4-8), of task_type] obtain h' where
    "index_baseclasses task_type self h =
      (if in_order h self {b. entry_id h self \<in> descs h b} bs then None else Some (Err knd_CONFLICT), h')"
    "in_order h self {b. entry_id h self \<in> descs h b} bs \<longrightarrow>
      descs h' = add_descs (entry_id h self) (bases_and_ancestors h self bs) (descs h)" "desc_ok h'" "same_links h h'"
    by (auto simp: index_baseclasses_def)
  then show ?thesis by (simp add: add_descs_def)
qed

theorem class_index_descendants_witness:
  "fst (index_baseclasses KND_COMMIT_STATE 3 (order_heap [1, 2])) = None \<and>
   descs (snd (index_baseclasses KND_COMMIT_STATE 3 (order_heap [1, 2]))) 1 = {[51]} \<and>
   descs (snd (index_baseclasses KND_COMMIT_STATE 3 (order_heap [1, 2]))) 2 = {[51]} \<and>
   descs (snd (index_baseclasses KND_COMMIT_STATE 3 (order_heap [1, 2]))) 4 = {} \<and>
   fst (index_baseclasses KND_COMMIT_STATE 3 (order_heap [2, 1])) = Some (Err knd_CONFLICT)"
proof -
  have valid: "valid_id [51]" by code_simp
  have result: "case index_baseclasses KND_COMMIT_STATE 3 (order_heap vs) of
      (None, h') \<Rightarrow> in_order (order_heap vs) 3 {} vs \<and> desc_ok h' \<and> same_links (order_heap vs) h' \<and>
        descs h' = (\<lambda>c. if c \<in> bases_and_ancestors (order_heap vs) 3 vs then {[51]} else {})
    | (Some e, h') \<Rightarrow> \<not> in_order (order_heap vs) 3 {} vs \<and> e = Err knd_CONFLICT" if "vs \<in> {[1, 2], [2, 1]}" for vs
  proof -
    have "vs = [1, 2] \<or> vs = [2, 1]" using that by simp
    then show ?thesis
      using class_index_descendants [of "order_heap vs" 3 vs KND_COMMIT_STATE, 
        unfolded order_heap_index order_heap_classes(5) empty_iff empty_def [symmetric]] valid
      by (elim disjE; hypsubst; simp add: small_pool_ok order_heap_index)
  qed
  have "in_order (order_heap [1, 2]) 3 {} [1, 2]" "\<not> in_order (order_heap [2, 1]) 3 {} [2, 1]"
    "bases_and_ancestors (order_heap [1, 2]) 3 [1, 2] = {1, 2}"
    by (auto simp: order_heap_index bases_and_ancestors_def)
  then show ?thesis using result [of "[1, 2]"] result [of "[2, 1]"] by (auto split: prod.splits option.splits)
qed

end
