(* ===== verification/Class_Inst.thy ===== *)
theory Class_Inst
  imports Class_Index Class_Resolve
begin

text \<open>
  The instances of classes: acquiring, finding, resolving and indexing them, and the commit of their states. The
  sources are \<^verbatim>\<open>src/knd_class_inst.c\<close>, \<^verbatim>\<open>knd_class_inst.resolve.c\<close>, \<^verbatim>\<open>knd_class_inst.index.c\<close> and functions of
  \<^verbatim>\<open>knd_class.c\<close>, \<^verbatim>\<open>knd_class_inst.read.c\<close> and \<^verbatim>\<open>knd_attr_var.index.c\<close>. Reading an instance or the index of a class
  from a file is a parameter.
\<close>

definition update_inst :: "nat \<Rightarrow> (kndClassInst \<Rightarrow> kndClassInst) \<Rightarrow> class_heap \<Rightarrow> class_heap" where
  "update_inst i f h = h\<lparr>ch_insts := (ch_insts h)(i := f (ch_insts h i))\<rparr>"

definition update_inst_entry :: "nat \<Rightarrow> (kndClassInstEntry \<Rightarrow> kndClassInstEntry) \<Rightarrow> class_heap \<Rightarrow> class_heap" where
  "update_inst_entry e f h = h\<lparr>ch_inst_entries := (ch_inst_entries h)(e := f (ch_inst_entries h e))\<rparr>"

section \<open>Acquiring\<close>

type_synonym inst_fetch = "nat \<Rightarrow> class_heap \<Rightarrow> (class_heap, nat) outcome"

definition knd_class_inst_acquire :: "inst_fetch \<Rightarrow> nat \<Rightarrow> class_heap \<Rightarrow> (class_heap, nat) outcome" where
  "knd_class_inst_acquire fetch entry h =
     (case ie_blueprint (ch_inst_entries h entry) of
        None \<Rightarrow> Inl (Stuck, h)
      | Some blueprint \<Rightarrow>
          (case (ce_class (ch_entries h blueprint), ie_inst (ch_inst_entries h entry)) of
             (None, _) \<Rightarrow> Inl (Stuck, h)
           | (Some _, Some inst) \<Rightarrow> Inr (inst, h)
           | (Some _, None) \<Rightarrow>
               bind_out (fetch entry h) (\<lambda>inst h.
                 Inr (inst, update_inst_entry entry (\<lambda>e. e\<lparr>ie_inst := Some inst\<rparr>)
                   (update_inst inst (\<lambda>i. i\<lparr>ci_entry := entry\<rparr>) h)))))"

text \<open>The index of a class that has instances in a snapshot is read when it is first needed.\<close>

definition inst_name_idx ::
  "(nat \<Rightarrow> class_heap \<Rightarrow> (class_heap, (nat, nat) kndSharedDict) outcome) \<Rightarrow> nat \<Rightarrow> class_heap \<Rightarrow>
   (class_heap, (nat, nat) kndSharedDict) outcome" where
  "inst_name_idx idx_fetch self h =
     (case c_inst_name_idx (ch_classes h self) of
        Some idx \<Rightarrow> Inr (idx, h)
      | None \<Rightarrow> if c_num_snapshot_insts (ch_classes h self) = 0 then Inl (Err knd_NO_MATCH, h) else idx_fetch self h)"

definition knd_get_class_inst ::
  "(nat \<Rightarrow> class_heap \<Rightarrow> (class_heap, (nat, nat) kndSharedDict) outcome) \<Rightarrow> inst_fetch \<Rightarrow> nat \<Rightarrow> byte list \<Rightarrow> class_heap \<Rightarrow>
   (class_heap, nat) outcome" where
  "knd_get_class_inst idx_fetch fetch self name h =
     bind_out (inst_name_idx idx_fetch self h) (\<lambda>idx h.
       case knd_shared_dict_get idx name of
         Inl e \<Rightarrow> Inl (e, h)
       | Inr None \<Rightarrow> Inl (Err knd_NO_MATCH, h)
       | Inr (Some entry) \<Rightarrow>
           bind_out (knd_class_inst_acquire fetch entry h) (\<lambda>inst h.
             case ci_states (ch_insts h inst) of
               state # _ \<Rightarrow> if st_phase state = KND_REMOVED then Inl (Err knd_NO_MATCH, h) else Inr (inst, h)
             | [] \<Rightarrow> Inr (inst, h)))"

section \<open>Resolving\<close>

definition knd_class_inst_resolve :: "resolve_ops \<Rightarrow> nat \<Rightarrow> class_resolver \<Rightarrow> nat \<Rightarrow> class_heap \<Rightarrow> class_run" where
  "knd_class_inst_resolve ops fuel resolve self h =
     deref (ie_blueprint (ch_inst_entries h (ci_entry (ch_insts h self)))) h (\<lambda>blueprint.
       let h = update_inst self (\<lambda>i. i\<lparr>ci_resolving_in_progress := True\<rparr>) h in
       bind_run (Some (knd_class_acquire (op_fetch ops) blueprint h)) (\<lambda>c h.
         then_run
           (let cvar = ci_class_var (ch_insts h self) in
            if cv_attrs (ch_vars h cvar) \<noteq> [] then knd_resolve_attr_vars ops fuel resolve c cvar h else Some (None, h))
           (\<lambda>h. Some (None, update_inst self (\<lambda>i. i\<lparr>ci_is_resolved := True\<rparr>) h))))"

section \<open>Indexing the values of an instance\<close>

definition inst_attr_hub_fetch :: "nat \<Rightarrow> nat \<Rightarrow> class_heap \<Rightarrow> (class_heap, nat) outcome" where
  "inst_attr_hub_fetch owner attr h =
     (case find_hub h attr (ci_attr_hubs (ch_insts h owner)) of
        Some hub \<Rightarrow> Inr (hub, h)
      | None \<Rightarrow>
          bind_out (new_hub attr h) (\<lambda>hub h. Inr (hub, update_inst owner (\<lambda>i. i\<lparr>ci_attr_hubs := hub # ci_attr_hubs i\<rparr>) h)))"

definition inst_attr_hub_add_inst :: "nat \<Rightarrow> nat \<Rightarrow> class_heap \<Rightarrow> failure option \<times> class_heap" where
  "inst_attr_hub_add_inst hub topic h =
     (case hub_topics hub h of
        Inl (e, h) \<Rightarrow> (Some e, h)
      | Inr (d, h) \<Rightarrow>
          (case knd_set_get (ch_sets h d) (ie_id (ch_inst_entries h topic)) of
             Inr _ \<Rightarrow> (None, h)
           | Inl Stuck \<Rightarrow> (Some Stuck, h)
           | Inl (Err _) \<Rightarrow> add_topic d (ie_id (ch_inst_entries h topic)) topic h))"

text \<open>A hub that is fetched for a class is not used.\<close>

definition index_inst_ref ::
  "class_fetch \<Rightarrow> inst_fetch \<Rightarrow> nat \<Rightarrow> nat \<Rightarrow> nat \<Rightarrow> class_heap \<Rightarrow> failure option \<times> class_heap" where
  "index_inst_ref fetch fetch_inst topic_inst attr var h =
     (case av_attr (ch_attr_vars h var) of
        None \<Rightarrow> (Some Stuck, h)
      | Some a \<Rightarrow>
          (case at_rel_type (ch_attrs h a) of
             KND_REL_SUBCLASS \<Rightarrow>
               (case av_class_entry (ch_attr_vars h var) of
                  None \<Rightarrow> (Some Stuck, h)
                | Some entry \<Rightarrow>
                    (case bind_out (knd_class_acquire fetch entry h) (\<lambda>spec h. attr_hub_fetch spec attr h) of
                       Inl (e, h) \<Rightarrow> (Some e, h)
                     | Inr (hub, h) \<Rightarrow> (None, h)))
           | KND_REL_CLASS_INST \<Rightarrow>
               (case av_class_inst_entry (ch_attr_vars h var) of
                  None \<Rightarrow> (Some Stuck, h)
                | Some entry \<Rightarrow>
                    (case bind_out (knd_class_inst_acquire fetch_inst entry h) (\<lambda>spec h. inst_attr_hub_fetch spec attr h) of
                       Inl (e, h) \<Rightarrow> (Some e, h)
                     | Inr (hub, h) \<Rightarrow> inst_attr_hub_add_inst hub topic_inst h))
           | _ \<Rightarrow> (None, h)))"

definition knd_index_inst_attr_var ::
  "class_fetch \<Rightarrow> inst_fetch \<Rightarrow> nat \<Rightarrow> nat \<Rightarrow> nat \<Rightarrow> class_heap \<Rightarrow> failure option \<times> class_heap" where
  "knd_index_inst_attr_var fetch fetch_inst topic_inst attr var h =
     (case at_type (ch_attrs h attr) of
        KND_ATTR_REF \<Rightarrow> index_inst_ref fetch fetch_inst topic_inst attr var h
      | _ \<Rightarrow> (None, h))"

fun index_inst_vars :: "class_fetch \<Rightarrow> inst_fetch \<Rightarrow> nat \<Rightarrow> nat list \<Rightarrow> class_heap \<Rightarrow> failure option \<times> class_heap" where
  "index_inst_vars fetch fetch_inst topic_inst [] h = (None, h)"
| "index_inst_vars fetch fetch_inst topic_inst (var # vars) h =
     (case av_attr (ch_attr_vars h var) of
        None \<Rightarrow> (Some Stuck, h)
      | Some attr \<Rightarrow>
          if \<not> at_is_indexed (ch_attrs h attr) then index_inst_vars fetch fetch_inst topic_inst vars h
          else then_step (knd_index_inst_attr_var fetch fetch_inst topic_inst attr var h)
            (index_inst_vars fetch fetch_inst topic_inst vars))"

definition knd_class_inst_index :: "class_fetch \<Rightarrow> inst_fetch \<Rightarrow> nat \<Rightarrow> class_heap \<Rightarrow> failure option \<times> class_heap" where
  "knd_class_inst_index fetch fetch_inst self h =
     (case ie_blueprint (ch_inst_entries h (ci_entry (ch_insts h self))) of
        None \<Rightarrow> (Some Stuck, h)
      | Some blueprint \<Rightarrow>
          (case knd_class_acquire fetch blueprint h of
             Inl (e, h) \<Rightarrow> (Some e, h)
           | Inr (c, h) \<Rightarrow>
               index_inst_vars fetch fetch_inst (ci_entry (ch_insts h self))
                 (cv_attrs (ch_vars h (ci_class_var (ch_insts h self)))) h))"

section \<open>States of instances\<close>

text \<open>A class has the state before it is in the commit; the first number is 0.\<close>

definition knd_class_inst_commit_state ::
  "nat \<Rightarrow> kndStateRef list \<Rightarrow> kndCommit \<Rightarrow> class_heap \<Rightarrow> failure option \<times> kndCommit \<times> class_heap" where
  "knd_class_inst_commit_state self children commit h =
     (case knd_state_new (ch_mempool h) of
        Inl e \<Rightarrow> (Some e, commit, h)
      | Inr (_, mempool) \<Rightarrow>
          let numid = (case c_inst_states (ch_classes h self) of [] \<Rightarrow> 0 | head # _ \<Rightarrow> st_numid head + 1);
              state = State numid KND_SELECTED None children;
              h = update_class self (\<lambda>c. c\<lparr>c_inst_states := state # c_inst_states c\<rparr>) (h\<lparr>ch_mempool := mempool\<rparr>) in
          (case knd_state_ref_new (ch_mempool h) of
             Inl e \<Rightarrow> (Some e, commit, h)
           | Inr (_, mempool) \<Rightarrow>
               (None, commit\<lparr>cm_class_state_refs :=
                    State_Ref KND_STATE_CLASS (Some (c_entry (ch_classes h self))) state # cm_class_state_refs commit,
                  cm_num_class_state_refs := cm_num_class_state_refs commit + 1\<rparr>, h\<lparr>ch_mempool := mempool\<rparr>)))"

section \<open>Copy on write\<close>

text \<open>The copy has the set of attributes of the class itself, and its ancestors in the opposite order.\<close>

fun copy_ancestors :: "nat \<Rightarrow> (nat \<times> nat) list \<Rightarrow> class_heap \<Rightarrow> failure option \<times> class_heap" where
  "copy_ancestors c [] h = (None, h)"
| "copy_ancestors c (ref # refs) h =
     (case knd_class_ref_new (ch_user_mempool h) of
        Inl e \<Rightarrow> (Some e, h)
      | Inr (_, mempool) \<Rightarrow>
          copy_ancestors c refs
            (update_class c (\<lambda>k. k\<lparr>c_ancestors := ref # c_ancestors k, c_num_ancestors := c_num_ancestors k + 1\<rparr>)
              (h\<lparr>ch_user_mempool := mempool\<rparr>)))"

definition knd_class_copy :: "nat \<Rightarrow> nat \<Rightarrow> class_heap \<Rightarrow> failure option \<times> class_heap" where
  "knd_class_copy self c h =
     copy_ancestors c (c_ancestors (ch_classes h self))
       (update_class c (\<lambda>k. k\<lparr>c_attr_idx := c_attr_idx (ch_classes h self)\<rparr>) h)"

definition cleared_entry :: kndClassEntry where
  "cleared_entry =
     \<lparr>ce_id = [], ce_numid = 0, ce_name = [], ce_repo = 0, ce_base = None, ce_class = None, ce_phase = KND_SELECTED, ce_dict_item = None\<rparr>"

definition clone_class :: "nat option \<Rightarrow> nat \<Rightarrow> class_heap \<Rightarrow> failure option \<times> class_heap" where
  "clone_class class entry h =
     (case class of
        None \<Rightarrow> (None, h)
      | Some self \<Rightarrow>
          (case knd_class_new (ch_user_mempool h) h of
             Inl (e, mempool) \<Rightarrow> (Some e, h\<lparr>ch_user_mempool := mempool\<rparr>)
           | Inr (c, h, mempool) \<Rightarrow>
               then_step (knd_class_copy self c (h\<lparr>ch_user_mempool := mempool\<rparr>)) (\<lambda>h.
                 (None, update_entry entry (\<lambda>e. e\<lparr>ce_class := Some c\<rparr>) (update_class c (\<lambda>k. k\<lparr>c_entry := entry\<rparr>) h)))))"

definition register_clone :: "nat \<Rightarrow> nat \<Rightarrow> nat \<Rightarrow> class_heap \<Rightarrow> failure option \<times> class_heap" where
  "register_clone repo entry commit h =
     (case ch_repos h repo of
        Repo class_name_idx class_idx base root_class \<Rightarrow>
          (case knd_shared_dict_set class_name_idx (ce_name (ch_entries h entry)) (Some entry) (ch_user_mempool h) (Some commit) False of
             (err, item, class_name_idx, mempool) \<Rightarrow>
               then_step
                 (err, h\<lparr>ch_repos := (ch_repos h)(repo := Repo class_name_idx class_idx base root_class), ch_user_mempool := mempool\<rparr>)
                 (\<lambda>h. (None, update_entry entry (\<lambda>e. e\<lparr>ce_dict_item := item\<rparr>) h))))"

definition knd_class_entry_clone :: "nat \<Rightarrow> nat \<Rightarrow> nat \<Rightarrow> class_heap \<Rightarrow> (class_heap, nat) outcome" where
  "knd_class_entry_clone self repo commit h =
     (case knd_class_entry_new (ch_user_mempool h) of
        Inl e \<Rightarrow> Inl (e, h)
      | Inr (entry, mempool) \<Rightarrow>
          (case then_step
             (clone_class (ce_class (ch_entries h self)) entry
               (update_entry entry (\<lambda>_. cleared_entry\<lparr>ce_repo := repo, ce_base := Some self\<rparr>) (h\<lparr>ch_user_mempool := mempool\<rparr>)))
             (\<lambda>h. register_clone repo entry commit
               (update_entry entry (\<lambda>e. e\<lparr>ce_name := ce_name (ch_entries h self)\<rparr>) h)) of
             (Some e, h) \<Rightarrow> Inl (e, h)
           | (None, h) \<Rightarrow> Inr (entry, h)))"

section \<open>Registering the instances of a commit\<close>

text \<open>The indices of a class are made when it gets its first instance; the nodes of the set are allocated one by one.\<close>

type_synonym inst_run = "class_heap \<times> set_mem"

definition prepare_inst_idx :: "nat \<Rightarrow> inst_run \<Rightarrow> failure option \<times> inst_run" where
  "prepare_inst_idx c = (\<lambda>(h, m).
     (let h = (if c_inst_name_idx (ch_classes h c) = None
               then update_class c (\<lambda>k. k\<lparr>c_inst_name_idx := Some (knd_shared_dict_new 1000)\<rparr>) h else h) in
      if c_inst_idx (ch_classes h c) \<noteq> None then (None, h, m)
      else
        (case knd_shared_set_new m of
           (Some e, _, m) \<Rightarrow> (Some e, h, m)
         | (None, idx, m) \<Rightarrow> (None, update_class c (\<lambda>k. k\<lparr>c_inst_idx := idx\<rparr>) h, m))))"

definition name_inst :: "nat \<Rightarrow> nat \<Rightarrow> nat \<Rightarrow> class_heap \<Rightarrow> failure option \<times> class_heap" where
  "name_inst c commit entry h =
     (case c_inst_name_idx (ch_classes h c) of
        None \<Rightarrow> (Some Stuck, h)
      | Some idx \<Rightarrow>
          if ie_name (ch_inst_entries h entry) = [] then (None, h)
          else
            (case knd_shared_dict_set idx (ie_name (ch_inst_entries h entry)) (Some entry) (ch_user_mempool h) (Some commit) False of
               (err, item, idx, mempool) \<Rightarrow>
                 (err, update_class c (\<lambda>k. k\<lparr>c_inst_name_idx := Some (if err = None then validate_item item idx else idx)\<rparr>)
                    (h\<lparr>ch_user_mempool := mempool\<rparr>))))"

definition add_inst :: "nat \<Rightarrow> nat \<Rightarrow> inst_run \<Rightarrow> failure option \<times> inst_run" where
  "add_inst c entry = (\<lambda>(h, m).
     (case c_inst_idx (ch_classes h c) of
        None \<Rightarrow> (Some Stuck, h, m)
      | Some idx \<Rightarrow>
          (case knd_shared_set_add idx (ie_id (ch_inst_entries h entry)) entry m of
             (err, idx, m) \<Rightarrow> (err, update_class c (\<lambda>k. k\<lparr>c_inst_idx := Some idx\<rparr>) h, m))))"

text \<open>Texts have their own index, a parameter.\<close>

fun update_attr_var_indices ::
  "(nat \<Rightarrow> class_heap \<Rightarrow> failure option \<times> class_heap) \<Rightarrow> nat list \<Rightarrow> class_heap \<Rightarrow> failure option \<times> class_heap" where
  "update_attr_var_indices text_index [] h = (None, h)"
| "update_attr_var_indices text_index (var # vars) h =
     (case av_attr (ch_attr_vars h var) of
        None \<Rightarrow> (Some Stuck, h)
      | Some attr \<Rightarrow>
          then_step (if at_type (ch_attrs h attr) = KND_ATTR_TEXT then text_index var h else (None, h))
            (update_attr_var_indices text_index vars))"

definition index_inst_texts ::
  "(nat \<Rightarrow> class_heap \<Rightarrow> failure option \<times> class_heap) \<Rightarrow> nat \<Rightarrow> class_heap \<Rightarrow> failure option \<times> class_heap" where
  "index_inst_texts text_index entry h =
     (case ie_inst (ch_inst_entries h entry) of
        None \<Rightarrow> (Some Stuck, h)
      | Some inst \<Rightarrow> update_attr_var_indices text_index (cv_attrs (ch_vars h (ci_class_var (ch_insts h inst)))) h)"

definition lift_heap :: "(class_heap \<Rightarrow> failure option \<times> class_heap) \<Rightarrow> inst_run \<Rightarrow> failure option \<times> inst_run" where
  "lift_heap f = (\<lambda>(h, m). case f h of (err, h) \<Rightarrow> (err, h, m))"

fun update_inst_refs ::
  "(nat \<Rightarrow> class_heap \<Rightarrow> failure option \<times> class_heap) \<Rightarrow> nat \<Rightarrow> nat \<Rightarrow> kndStateRef list \<Rightarrow> inst_run \<Rightarrow> failure option \<times> inst_run" where
  "update_inst_refs text_index c commit [] s = (None, s)"
| "update_inst_refs text_index c commit (ref # refs) s =
     then_step
       (if st_phase (sr_state ref) \<noteq> KND_CREATED then (None, s)
        else
          (case sr_obj ref of
             None \<Rightarrow> (Some Stuck, s)
           | Some entry \<Rightarrow>
               then_step (lift_heap (name_inst c commit entry) s) (\<lambda>s.
                 then_step (add_inst c entry s) (lift_heap (index_inst_texts text_index entry)))))
       (update_inst_refs text_index c commit refs)"

text \<open>The entry that is looked up or cloned for the repository only has to be there; a clone belongs to the commit of the task.\<close>

definition inst_class_entry :: "nat \<Rightarrow> nat \<Rightarrow> nat \<Rightarrow> class_heap \<Rightarrow> failure option \<times> class_heap" where
  "inst_class_entry repo blueprint commit h =
     (case knd_shared_dict_get (repo_class_name_idx (ch_repos h repo)) (ce_name (ch_entries h blueprint)) of
        Inl e \<Rightarrow> (Some e, h)
      | Inr (Some _) \<Rightarrow> (None, h)
      | Inr None \<Rightarrow>
          if ce_repo (ch_entries h blueprint) = repo then (Some (Err knd_FAIL), h)
          else (case knd_class_entry_clone blueprint repo commit h of Inl (e, h) \<Rightarrow> (Some e, h) | Inr (_, h) \<Rightarrow> (None, h)))"

definition knd_class_inst_update_indices ::
  "(nat \<Rightarrow> class_heap \<Rightarrow> failure option \<times> class_heap) \<Rightarrow> nat \<Rightarrow> nat \<Rightarrow> nat \<Rightarrow> kndStateRef list \<Rightarrow> inst_run \<Rightarrow>
   failure option \<times> inst_run" where
  "knd_class_inst_update_indices text_index repo blueprint ctx_commit state_refs s =
     (case (ce_class (ch_entries (fst s) blueprint), map (st_commit \<circ> sr_state) state_refs) of
        (Some c, Some commit # _) \<Rightarrow>
          then_step (lift_heap (inst_class_entry repo blueprint ctx_commit) s) (\<lambda>s.
            then_step (prepare_inst_idx c s) (update_inst_refs text_index c commit state_refs))
      | _ \<Rightarrow> (Some Stuck, s))"

section \<open>Values of an instance and of its class\<close>

text \<open>A value of these types needs no more than its attribute.\<close>

definition plain_attr :: "kndAttr \<Rightarrow> bool" where
  "plain_attr a \<longleftrightarrow> \<not> at_is_a_set a \<and> at_type a \<notin>
     {KND_ATTR_INNER, KND_ATTR_REF, KND_ATTR_REL, KND_ATTR_TEXT, KND_ATTR_NUM, KND_ATTR_ATTR_REF, KND_ATTR_PROC_REF}"

definition plain_var :: "class_heap \<Rightarrow> nat \<Rightarrow> nat \<Rightarrow> bool" where
  "plain_var h c v \<longleftrightarrow> (\<exists>ref attr. knd_class_get_attr h c (av_name (ch_attr_vars h v)) = Inr ref \<and>
     ar_attr (ch_attr_refs h ref) = Some attr \<and> plain_attr (ch_attrs h attr))"

abbreviation ref_of :: "class_heap \<Rightarrow> nat \<Rightarrow> nat \<Rightarrow> nat result" where
  "ref_of h c v \<equiv> knd_class_get_attr h c (av_name (ch_attr_vars h v))"

definition same_attrs :: "class_heap \<Rightarrow> class_heap \<Rightarrow> bool" where
  "same_attrs h h' \<longleftrightarrow> ch_sets h' = ch_sets h \<and> ch_classes h' = ch_classes h \<and> ch_attrs h' = ch_attrs h \<and>
     (\<forall>r. ar_attr (ch_attr_refs h' r) = ar_attr (ch_attr_refs h r)) \<and> (\<forall>v. av_name (ch_attr_vars h' v) = av_name (ch_attr_vars h v))"

lemma same_attrs_get: "same_attrs h h' \<Longrightarrow> knd_class_get_attr h' c name = knd_class_get_attr h c name"
proof -
  assume "same_attrs h h'"
  then have "match_attr h' name = match_attr h name" by (auto simp: same_attrs_def match_attr_def intro!: ext split: option.splits)
  with \<open>same_attrs h h'\<close> show ?thesis by (simp add: knd_class_get_attr_def same_attrs_def)
qed

lemma same_attrs_plain: "same_attrs h h' \<Longrightarrow> plain_var h' c v = plain_var h c v"
  using same_attrs_get [of h h'] by (simp add: plain_var_def same_attrs_def)

lemma same_attrs_trans: "same_attrs h h' \<Longrightarrow> same_attrs h' h'' \<Longrightarrow> same_attrs h h''"
  by (simp add: same_attrs_def)

lemma resolve_plain_var:
  assumes "plain_var h c v"
  obtains ref h' where "resolve_attr_var ops fuel resolve c v h = Some (None, h')" "ref_of h c v = Inr ref" "same_attrs h h'"
    "ar_attr_var (ch_attr_refs h' ref) = Some v" "\<And>r. r \<noteq> ref \<Longrightarrow> ch_attr_refs h' r = ch_attr_refs h r"
proof -
  obtain ref attr where r: "ref_of h c v = Inr ref" "ar_attr (ch_attr_refs h ref) = Some attr" "plain_attr (ch_attrs h attr)"
    using assms by (auto simp: plain_var_def)
  define h' where "h' = update_var v (\<lambda>v. v\<lparr>av_attr := Some attr\<rparr>) (update_ref ref (\<lambda>r. r\<lparr>ar_attr_var := Some v\<rparr>) h)"
  have "ch_attrs h' = ch_attrs h" by (simp add: h'_def update_var_def update_ref_def)
  then have "resolve_attr_var ops fuel resolve c v h = Some (None, h')"
    using r by (simp add: resolve_attr_var_def deref_def Let_def plain_attr_def flip: h'_def split: knd_attr_type.splits)
  moreover have "same_attrs h h'" "ar_attr_var (ch_attr_refs h' ref) = Some v" "\<And>r. r \<noteq> ref \<Longrightarrow> ch_attr_refs h' r = ch_attr_refs h r"
    by (simp_all add: h'_def same_attrs_def update_var_def update_ref_def)
  ultimately show thesis using r(1) that by blast
qed

lemma resolve_plain_vars:
  assumes "\<And>v. v \<in> set vs \<Longrightarrow> plain_var h c v" and "distinct (map (ref_of h c) vs)"
  shows "\<exists>h'. run_each (resolve_attr_var ops fuel resolve c) vs h = Some (None, h') \<and> same_attrs h h' \<and>
    (\<forall>v\<in>set vs. \<forall>ref. ref_of h c v = Inr ref \<longrightarrow> ar_attr_var (ch_attr_refs h' ref) = Some v) \<and>
    (\<forall>ref. Inr ref \<notin> ref_of h c ` set vs \<longrightarrow> ch_attr_refs h' ref = ch_attr_refs h ref)"
  using assms
proof (induction vs arbitrary: h)
  case Nil
  then show ?case by (simp add: same_attrs_def)
next
  case (Cons v vs)
  have plain: "plain_var h c v" using Cons.prems(1) by simp
  obtain ref h1 where h1: "resolve_attr_var ops fuel resolve c v h = Some (None, h1)" "ref_of h c v = Inr ref" "same_attrs h h1"
    "ar_attr_var (ch_attr_refs h1 ref) = Some v" "\<And>r. r \<noteq> ref \<Longrightarrow> ch_attr_refs h1 r = ch_attr_refs h r"
    by (rule resolve_plain_var [OF plain, of ops fuel resolve]) blast
  have same: "ref_of h1 c w = ref_of h c w" for w using same_attrs_get [OF h1(3)] h1(3) by (simp add: same_attrs_def)
  have plain1: "\<And>v. v \<in> set vs \<Longrightarrow> plain_var h1 c v" using Cons.prems(1) same_attrs_plain [OF h1(3)] by simp
  have "distinct (map (ref_of h1 c) vs)" using Cons.prems(2) by (simp add: same)
  from Cons.IH [OF plain1 this] obtain h' where h': "run_each (resolve_attr_var ops fuel resolve c) vs h1 = Some (None, h')"
    "same_attrs h1 h'" "\<forall>v\<in>set vs. \<forall>ref. ref_of h c v = Inr ref \<longrightarrow> ar_attr_var (ch_attr_refs h' ref) = Some v"
    "\<forall>ref. Inr ref \<notin> ref_of h c ` set vs \<longrightarrow> ch_attr_refs h' ref = ch_attr_refs h1 ref"
    by (auto simp: same)
  have fresh: "Inr ref \<notin> ref_of h c ` set vs" using Cons.prems(2) h1(2) by (auto simp: image_iff)
  have "run_each (resolve_attr_var ops fuel resolve c) (v # vs) h = Some (None, h')" using h1(1) h'(1) by (simp add: then_run_def)
  moreover have "\<forall>w\<in>set (v # vs). \<forall>r. ref_of h c w = Inr r \<longrightarrow> ar_attr_var (ch_attr_refs h' r) = Some w"
    using h'(3,4) h1(2,4) fresh by auto
  moreover have "\<forall>r. Inr r \<notin> ref_of h c ` set (v # vs) \<longrightarrow> ch_attr_refs h' r = ch_attr_refs h r"
  proof (intro allI impI)
    fix r assume "Inr r \<notin> ref_of h c ` set (v # vs)"
    then have "r \<noteq> ref" "Inr r \<notin> ref_of h c ` set vs" using h1(2) by auto
    then show "ch_attr_refs h' r = ch_attr_refs h r" using h'(4) h1(5) by simp
  qed
  ultimately show ?case using same_attrs_trans [OF h1(3) h'(2)] by blast
qed

section \<open>Properties\<close>

text \<open>C8: resolving an instance whose values are all of attributes of its class, and of types without further references,
  returns without an error, and the values of the instance become those of the class itself: a lookup of the
  attribute in the class finds the value of the instance, while the attributes that the instance does not set keep
  their values.\<close>
theorem inst_resolve_overwrites:
  assumes "ie_blueprint (ch_inst_entries h (ci_entry (ch_insts h self))) = Some blueprint" and "ce_class (ch_entries h blueprint) = Some c"
    and "vs = cv_attrs (ch_vars h (ci_class_var (ch_insts h self)))" and "\<And>v. v \<in> set vs \<Longrightarrow> plain_var h c v"
    and "distinct (map (ref_of h c) vs)"
  shows "\<exists>h'. knd_class_inst_resolve ops fuel resolve self h = Some (None, h') \<and> ci_is_resolved (ch_insts h' self) \<and>
    (\<forall>v\<in>set vs. knd_class_get_attr_var h' c (av_name (ch_attr_vars h v)) = Inr v) \<and>
    (\<forall>name. knd_class_get_attr h c name \<notin> ref_of h c ` set vs \<longrightarrow> knd_class_get_attr_var h' c name = knd_class_get_attr_var h c name)"
proof -
  define h1 where "h1 = update_inst self (\<lambda>i. i\<lparr>ci_resolving_in_progress := True\<rparr>) h"
  have same1: "same_attrs h h1" by (simp add: same_attrs_def h1_def update_inst_def)
  have refs1: "ref_of h1 c = ref_of h c" "ch_attr_refs h1 = ch_attr_refs h"
    using same_attrs_get [OF same1] by (simp_all add: h1_def update_inst_def)
  have vs1: "cv_attrs (ch_vars h1 (ci_class_var (ch_insts h1 self))) = vs" using assms(3) by (simp add: h1_def update_inst_def)
  have "\<And>v. v \<in> set vs \<Longrightarrow> plain_var h1 c v"
    using assms(4) same_attrs_plain [OF same1] by simp
  moreover have "distinct (map (ref_of h1 c) vs)" using assms(5) refs1(1) by simp
  ultimately obtain h2 where h2: "run_each (resolve_attr_var ops fuel resolve c) vs h1 = Some (None, h2)" "same_attrs h1 h2"
    "\<forall>v\<in>set vs. \<forall>ref. ref_of h1 c v = Inr ref \<longrightarrow> ar_attr_var (ch_attr_refs h2 ref) = Some v"
    "\<forall>ref. Inr ref \<notin> ref_of h1 c ` set vs \<longrightarrow> ch_attr_refs h2 ref = ch_attr_refs h1 ref"
    using resolve_plain_vars [of vs h1 c] by blast
  define h' where "h' = update_inst self (\<lambda>i. i\<lparr>ci_is_resolved := True\<rparr>) h2"
  have "knd_class_acquire (op_fetch ops) blueprint h1 = Inr (c, h1)"
    using assms(2) by (simp add: knd_class_acquire_def h1_def update_inst_def)
  then have run: "knd_class_inst_resolve ops fuel resolve self h = Some (None, h')"
    using assms(1) h2(1) vs1
    by (cases "vs = []") (simp_all add: knd_class_inst_resolve_def deref_def bind_run_def then_run_def knd_resolve_attr_vars_def Let_def
        h'_def flip: h1_def)
  have get: "knd_class_get_attr h' c name = knd_class_get_attr h c name" for name
  proof -
    have "same_attrs h2 h'" by (simp add: same_attrs_def h'_def update_inst_def)
    then show ?thesis using same_attrs_get same_attrs_trans [OF same_attrs_trans [OF same1 h2(2)]] by blast
  qed
  moreover have "ch_attr_refs h' = ch_attr_refs h2" by (simp add: h'_def update_inst_def)
  moreover have resolved: "ci_is_resolved (ch_insts h' self)" by (simp add: h'_def update_inst_def)
  ultimately have look: "knd_class_get_attr_var h' c name = bind_result (knd_class_get_attr h c name) (\<lambda>ref.
      case ar_attr_var (ch_attr_refs h2 ref) of None \<Rightarrow> Inl (Err knd_NO_MATCH) | Some var \<Rightarrow> Inr var)" for name
    by (simp add: knd_class_get_attr_var_def)
  have "knd_class_get_attr_var h' c (av_name (ch_attr_vars h v)) = Inr v" if v: "v \<in> set vs" for v
  proof -
    obtain ref where "ref_of h c v = Inr ref" using assms(4) [OF v] by (auto simp: plain_var_def)
    moreover from this have "ar_attr_var (ch_attr_refs h2 ref) = Some v" using h2(3) v refs1(1) by metis
    ultimately show ?thesis using look by (simp add: bind_result_def)
  qed
  moreover have "knd_class_get_attr_var h' c name = knd_class_get_attr_var h c name"
    if "knd_class_get_attr h c name \<notin> ref_of h c ` set vs" for name
  proof (cases "knd_class_get_attr h c name")
    case (Inr ref)
    then have "ch_attr_refs h2 ref = ch_attr_refs h ref" using that h2(4) [unfolded refs1] by simp
    then show ?thesis using Inr look by (simp add: knd_class_get_attr_var_def bind_result_def)
  qed (simp add: get knd_class_get_attr_var_def bind_result_def)
  ultimately show ?thesis using run resolved by blast
qed

definition inst_heap :: class_heap where
  "inst_heap = sample_heap
     \<lparr>ch_entries := (\<lambda>e. cleared_entry\<lparr>ce_class := Some 0\<rparr>),
      ch_vars := (\<lambda>v. \<lparr>cv_id = [], cv_type = KND_INSTANCE_BLUEPRINT, cv_entry = 0, cv_attrs = [5], cv_parent = 0, cv_inst = Some 0\<rparr>),
      ch_attr_refs := (\<lambda>r. new_attr_ref\<lparr>ar_attr := Some 1, ar_attr_var := Some 4\<rparr>),
      ch_inst_entries := (\<lambda>_. \<lparr>ie_id = [49], ie_name = [65], ie_blueprint = Some 0, ie_inst = Some 0, ie_attr_idxs = []\<rparr>)\<rparr>"

definition no_ops :: resolve_ops where
  "no_ops = \<lparr>op_task_type = KND_COMMIT_STATE, op_fetch = (\<lambda>_ h. Inl (Err knd_NO_MATCH, h)), op_text_resolve = (\<lambda>_ h. (None, h)),
     op_resolve_proc_ref = (\<lambda>_ _ _ h. Inl (Err knd_NO_MATCH, h)), op_get_class_inst = (\<lambda>_ _ h. Inl (Err knd_NO_MATCH, h))\<rparr>"

theorem inst_resolve_overwrites_witness:
  "knd_class_get_attr_var inst_heap 0 [120] = Inr 4 \<and>
   (\<exists>h'. knd_class_inst_resolve no_ops 0 (\<lambda>_ _. None) 0 inst_heap = Some (None, h') \<and> knd_class_get_attr_var h' 0 [120] = Inr 5)"
proof -
  have "match_attr inst_heap [120] = (\<lambda>found elem_id n ref. (Some (Err knd_EXISTS), Some ref))"
    by (simp add: fun_eq_iff match_attr_def inst_heap_def sample_heap_def sample_attr_def new_attr_ref_def)
  moreover have "ch_sets inst_heap a = sample_set" for a by (simp add: inst_heap_def sample_heap_def)
  moreover have "knd_set_map sample_set (\<lambda>found elem_id n ref. (Some (Err knd_EXISTS), Some ref)) None = (Some (Err knd_EXISTS), Some 7)"
    by code_simp
  ultimately have attr: "knd_class_get_attr inst_heap 0 [120] = Inr 7" by (simp add: knd_class_get_attr_def)
  have heap: "cv_attrs (ch_vars inst_heap (ci_class_var (ch_insts inst_heap 0))) = [5]" "av_name (ch_attr_vars inst_heap 5) = [120]"
    "ie_blueprint (ch_inst_entries inst_heap (ci_entry (ch_insts inst_heap 0))) = Some 0" "ce_class (ch_entries inst_heap 0) = Some 0"
    "ch_attr_refs inst_heap 7 = new_attr_ref\<lparr>ar_attr := Some 1, ar_attr_var := Some 4\<rparr>" "ch_attrs inst_heap = (\<lambda>_. sample_attr)"
    by (simp_all add: inst_heap_def sample_heap_def sample_attr_var_def)
  have "plain_var inst_heap 0 5" using attr by (simp add: plain_var_def heap plain_attr_def sample_attr_def)
  then have "\<exists>h'. knd_class_inst_resolve no_ops 0 (\<lambda>_ _. None) 0 inst_heap = Some (None, h') \<and> ci_is_resolved (ch_insts h' 0) \<and>
    (\<forall>v\<in>set [5]. knd_class_get_attr_var h' 0 (av_name (ch_attr_vars inst_heap v)) = Inr v) \<and>
    (\<forall>name. knd_class_get_attr inst_heap 0 name \<notin> ref_of inst_heap 0 ` set [5] \<longrightarrow>
      knd_class_get_attr_var h' 0 name = knd_class_get_attr_var inst_heap 0 name)"
    by (intro inst_resolve_overwrites [OF heap(3,4)]) (simp_all add: heap)
  then show ?thesis using attr by (auto simp: heap knd_class_get_attr_var_def bind_result_def)
qed

end
