(* ===== verification/Class_States.thy ===== *)
theory Class_States
  imports Class_Inst Class_Pages
begin

text \<open>
  The updates of a class: which instances or classes the states between two numbers name,
  \<^verbatim>\<open>src/knd_class.states.c\<close>. They are collected in a set with a pool of its own.
\<close>

section \<open>Collecting\<close>

type_synonym update_set = "nat kndSet \<times> kndMemPool"

definition add_update :: "byte list \<Rightarrow> nat \<Rightarrow> update_set \<Rightarrow> failure option \<times> update_set" where
  "add_update key entry = (\<lambda>(set, mempool). knd_set_add set key entry mempool)"

text \<open>The children of a state come before the object of the reference to it.\<close>

fun retrieve_inst_updates :: "class_heap \<Rightarrow> kndStateRef \<Rightarrow> update_set \<Rightarrow> failure option \<times> update_set"
  and retrieve_all_inst_updates :: "class_heap \<Rightarrow> kndStateRef list \<Rightarrow> update_set \<Rightarrow> failure option \<times> update_set" where
  "retrieve_inst_updates h (State_Ref type obj (State numid phase commit children)) s =
     then_step (retrieve_all_inst_updates h children s) (\<lambda>s.
       if type = KND_STATE_CLASS_INST then
         (case obj of None \<Rightarrow> (Some Stuck, s) | Some entry \<Rightarrow> add_update (ie_id (ch_inst_entries h entry)) entry s)
       else (None, s))"
| "retrieve_all_inst_updates h [] s = (None, s)"
| "retrieve_all_inst_updates h (ref # refs) s =
     then_step (retrieve_inst_updates h ref s) (retrieve_all_inst_updates h refs)"

fun knd_retrieve_class_updates :: "class_heap \<Rightarrow> kndStateRef \<Rightarrow> update_set \<Rightarrow> failure option \<times> update_set"
  and retrieve_all_class_updates :: "class_heap \<Rightarrow> kndStateRef list \<Rightarrow> update_set \<Rightarrow> failure option \<times> update_set" where
  "knd_retrieve_class_updates h (State_Ref type obj (State numid phase commit children)) s =
     then_step (retrieve_all_class_updates h children s) (\<lambda>s.
       if type = KND_STATE_CLASS then
         (case obj of None \<Rightarrow> (None, s) | Some entry \<Rightarrow> add_update (ce_id (ch_entries h entry)) entry s)
       else (None, s))"
| "retrieve_all_class_updates h [] s = (None, s)"
| "retrieve_all_class_updates h (ref # refs) s =
     then_step (knd_retrieve_class_updates h ref s) (retrieve_all_class_updates h refs)"

text \<open>The states strictly between the bounds.\<close>

fun scan_states ::
  "(kndStateRef list \<Rightarrow> update_set \<Rightarrow> failure option \<times> update_set) \<Rightarrow> size_t \<Rightarrow> size_t \<Rightarrow> kndState list \<Rightarrow> update_set \<Rightarrow>
   failure option \<times> update_set" where
  "scan_states retrieve gt lt [] s = (None, s)"
| "scan_states retrieve gt lt (state # states) s =
     (if lt \<le> st_numid state \<or> st_numid state \<le> gt then scan_states retrieve gt lt states s
      else then_step (retrieve (st_children state) s) (scan_states retrieve gt lt states))"

definition knd_class_get_inst_updates :: "class_heap \<Rightarrow> nat \<Rightarrow> size_t \<Rightarrow> size_t \<Rightarrow> update_set \<Rightarrow> failure option \<times> update_set" where
  "knd_class_get_inst_updates h self gt lt s =
     scan_states (retrieve_all_inst_updates h) gt (if lt = 0 then c_num_inst_states (ch_classes h self) + 1 else lt)
       (c_inst_states (ch_classes h self)) s"

text \<open>Without an upper bound the newest state is followed even if there is none.\<close>

definition class_updates :: "class_heap \<Rightarrow> kndState list \<Rightarrow> size_t \<Rightarrow> size_t \<Rightarrow> update_set \<Rightarrow> failure option \<times> update_set" where
  "class_updates h states gt lt s =
     (if lt = 0 then
        (case states of
           [] \<Rightarrow> (Some Stuck, s)
         | newest # _ \<Rightarrow> scan_states (retrieve_all_class_updates h) gt (st_numid newest + 1) states s)
      else scan_states (retrieve_all_class_updates h) gt lt states s)"

definition knd_class_get_updates :: "class_heap \<Rightarrow> nat \<Rightarrow> size_t \<Rightarrow> size_t \<Rightarrow> update_set \<Rightarrow> failure option \<times> update_set" where
  "knd_class_get_updates h self = class_updates h (c_states (ch_classes h self))"

definition knd_class_get_desc_updates :: "class_heap \<Rightarrow> nat \<Rightarrow> size_t \<Rightarrow> size_t \<Rightarrow> update_set \<Rightarrow> failure option \<times> update_set" where
  "knd_class_get_desc_updates h self = class_updates h (c_desc_states (ch_classes h self))"

section \<open>The entries that are collected\<close>

fun add_updates :: "(nat \<Rightarrow> byte list) \<Rightarrow> nat list \<Rightarrow> update_set \<Rightarrow> failure option \<times> update_set" where
  "add_updates key [] s = (None, s)"
| "add_updates key (entry # entries) s = then_step (add_update (key entry) entry s) (add_updates key entries)"

lemma then_step_assoc: "then_step (then_step r f) g = then_step r (\<lambda>s. then_step (f s) g)"
  by (cases r; cases "fst r") auto

lemma then_step_end [simp]: "then_step r (\<lambda>s. (None, s)) = r"
  by (cases r; cases "fst r") auto

lemma then_step_cong: "r = r' \<Longrightarrow> (\<And>s. f s = g s) \<Longrightarrow> then_step r f = then_step r' g"
  by (cases r'; cases "fst r'") auto

lemma add_updates_append: "add_updates key (xs @ ys) s = then_step (add_updates key xs s) (add_updates key ys)"
  by (induction xs arbitrary: s) (auto simp: then_step_assoc intro: then_step_cong)

lemma add_updates_one [simp]:
  "then_step r (add_updates key []) = r" "add_updates key [entry] s = add_update (key entry) entry s"
  by (cases r; cases "fst r"; simp) (cases "add_update (key entry) entry s"; cases "fst (add_update (key entry) entry s)"; simp)

text \<open>The objects of one type that a reference leads to.\<close>

fun ref_objs :: "knd_state_type \<Rightarrow> kndStateRef \<Rightarrow> nat option list" and refs_objs :: "knd_state_type \<Rightarrow> kndStateRef list \<Rightarrow> nat option list" where
  "ref_objs t (State_Ref type obj (State numid phase commit children)) =
     refs_objs t children @ (if type = t then [obj] else [])"
| "refs_objs t [] = []"
| "refs_objs t (ref # refs) = ref_objs t ref @ refs_objs t refs"

definition objs :: "nat option list \<Rightarrow> nat list" where
  "objs xs = map the (filter (\<lambda>x. x \<noteq> None) xs)"

lemma objs_simps [simp]:
  "objs [] = []" "objs (None # xs) = objs xs" "objs (Some x # xs) = x # objs xs" "objs (xs @ ys) = objs xs @ objs ys"
  by (simp_all add: objs_def)

abbreviation class_key :: "class_heap \<Rightarrow> nat \<Rightarrow> byte list" where
  "class_key h \<equiv> \<lambda>e. ce_id (ch_entries h e)"

abbreviation inst_key :: "class_heap \<Rightarrow> nat \<Rightarrow> byte list" where
  "inst_key h \<equiv> \<lambda>e. ie_id (ch_inst_entries h e)"

lemma class_updates_flat:
  "knd_retrieve_class_updates h ref s = add_updates (class_key h) (objs (ref_objs KND_STATE_CLASS ref)) s"
  "retrieve_all_class_updates h refs s = add_updates (class_key h) (objs (refs_objs KND_STATE_CLASS refs)) s"
  by (induction h ref s and h refs s rule: knd_retrieve_class_updates_retrieve_all_class_updates.induct)
    (auto simp: add_updates_append split: option.splits intro!: then_step_cong)

lemma inst_updates_flat:
  "None \<notin> set (ref_objs KND_STATE_CLASS_INST ref) \<Longrightarrow>
     retrieve_inst_updates h ref s = add_updates (inst_key h) (objs (ref_objs KND_STATE_CLASS_INST ref)) s"
  "None \<notin> set (refs_objs KND_STATE_CLASS_INST refs) \<Longrightarrow>
     retrieve_all_inst_updates h refs s = add_updates (inst_key h) (objs (refs_objs KND_STATE_CLASS_INST refs)) s"
  by (induction h ref s and h refs s rule: retrieve_inst_updates_retrieve_all_inst_updates.induct)
    (auto simp: add_updates_append split: option.splits if_splits intro!: then_step_cong)

definition updated :: "knd_state_type \<Rightarrow> size_t \<Rightarrow> size_t \<Rightarrow> kndState list \<Rightarrow> nat option list" where
  "updated t gt lt states =
     concat (map (\<lambda>state. refs_objs t (st_children state)) (filter (\<lambda>state. gt < st_numid state \<and> st_numid state < lt) states))"

lemma scan_states_flat:
  assumes "\<And>refs s. refs \<in> st_children ` set states \<Longrightarrow> retrieve refs s = add_updates key (objs (refs_objs t refs)) s"
  shows "scan_states retrieve gt lt states s = add_updates key (objs (updated t gt lt states)) s"
  using assms
  by (induction states arbitrary: s)
    (auto simp: updated_def add_updates_append not_le not_less intro!: then_step_cong)

lemma add_updates_map:
  assumes "index_pool m" and "set_ok self" and "\<not> set_allow_overwrite self" and "\<And>e. e \<in> set es \<Longrightarrow> valid_id (key e)"
    and "sum_list (map (length \<circ> key) es) \<le> nodes_left m"
  shows "case add_updates key es (self, m) of
      (None, self', m') \<Rightarrow> distinct (map key es) \<and> key ` set es \<inter> dom (set_at self) = {} \<and>
        set_at self' = (\<lambda>k. case find (\<lambda>e. key e = k) es of None \<Rightarrow> set_at self k | Some e \<Rightarrow> Some e)
    | (Some e, s') \<Rightarrow> e = Err knd_CONFLICT \<and> \<not> (distinct (map key es) \<and> key ` set es \<inter> dom (set_at self) = {})"
  using assms
proof (induction es arbitrary: self m)
  case Nil
  then show ?case by simp
next
  case (Cons e es)
  have valid: "valid_id (key e)" and nodes: "length (key e) \<le> nodes_left m" using Cons.prems(4,5) by auto
  obtain m1 self1 where s: "knd_set_add self (key e) e m = (if set_at self (key e) = None then None else Some (Err knd_CONFLICT), self1, m1)"
    "set_ok self1" "set_at self1 = (if set_at self (key e) = None then (set_at self)(key e \<mapsto> e) else set_at self)"
    "set_allow_overwrite self1 = set_allow_overwrite self" "index_pool m1" "spends 0 0 (length (key e)) m m1"
    by (rule set_add_spends [OF Cons.prems(2,3) valid Cons.prems(1) nodes])
  show ?case
  proof (cases "set_at self (key e)")
    case (Some x)
    then show ?thesis using s(1) by (auto simp: add_update_def)
  next
    case None
    have room: "sum_list (map (length \<circ> key) es) \<le> nodes_left m1" using Cons.prems(5) s(6) by (simp add: spends_def comp_def)
    have "case add_updates key es (self1, m1) of
        (None, self', m') \<Rightarrow> distinct (map key es) \<and> key ` set es \<inter> dom (set_at self1) = {} \<and>
          set_at self' = (\<lambda>k. case find (\<lambda>e. key e = k) es of None \<Rightarrow> set_at self1 k | Some e \<Rightarrow> Some e)
      | (Some e, s') \<Rightarrow> e = Err knd_CONFLICT \<and> \<not> (distinct (map key es) \<and> key ` set es \<inter> dom (set_at self1) = {})"
      by (rule Cons.IH) (use s Cons.prems(3,4) room in \<open>auto simp: comp_def\<close>)
    moreover have "add_updates key (e # es) (self, m) = add_updates key es (self1, m1)" using s(1) None by (simp add: add_update_def)
    moreover have "key ` set es \<inter> dom (set_at self1) = {} \<longleftrightarrow> key e \<notin> key ` set es \<and> key ` set es \<inter> dom (set_at self) = {}"
      using s(3) None by auto
    moreover have "(case find (\<lambda>e. key e = k) es of None \<Rightarrow> set_at self1 k | Some e \<Rightarrow> Some e) =
        (case find (\<lambda>e. key e = k) (e # es) of None \<Rightarrow> set_at self k | Some e \<Rightarrow> Some e)" if "key e \<notin> key ` set es" for k
    proof -
      have "find (\<lambda>e'. key e' = key e) es = None" using that by (auto simp: find_None_iff image_iff)
      then show ?thesis using s(3) None by (cases "key e = k") (auto split: option.splits)
    qed
    ultimately show ?thesis using None by (auto simp: dom_def split: prod.splits option.splits)
  qed
qed

section \<open>Properties\<close>

definition upper_bound :: "kndState list \<Rightarrow> size_t \<Rightarrow> size_t" where
  "upper_bound states lt = (if lt = 0 then st_numid (hd states) + 1 else lt)"

definition state_heap :: class_heap where
  "state_heap = sample_heap
     \<lparr>ch_classes := (\<lambda>_. cleared_class\<lparr>c_states := map (\<lambda>n. State n KND_UPDATED None
        [State_Ref KND_STATE_CLASS (Some (unat n mod 2)) (State 0 KND_UPDATED None [])]) [3, 2, 1]\<rparr>),
      ch_entries := (\<lambda>e. cleared_entry\<lparr>ce_id := [of_nat (48 + e)]\<rparr>)\<rparr>"

text \<open>The updates of a class between two states are the classes that the states in between name, whatever the
  nesting of the references: collecting them into a new set succeeds exactly if no class is named twice, and then
  the set has each of them by its identifier; a class with two updates is a conflict.\<close>
theorem class_updates_collect:
  assumes "index_pool m" and "set_ok upd" and "\<not> set_allow_overwrite upd" and "set_at upd = Map.empty"
    and "lt \<noteq> 0 \<or> c_states (ch_classes h self) \<noteq> []"
    and "es = objs (updated KND_STATE_CLASS gt (upper_bound (c_states (ch_classes h self)) lt) (c_states (ch_classes h self)))"
    and "\<And>e. e \<in> set es \<Longrightarrow> valid_id (class_key h e)" and "sum_list (map (length \<circ> class_key h) es) \<le> nodes_left m"
  shows "case knd_class_get_updates h self gt lt (upd, m) of
      (None, upd', m') \<Rightarrow> distinct (map (class_key h) es) \<and> set_at upd' = (\<lambda>k. find (\<lambda>e. class_key h e = k) es)
    | (Some e, s') \<Rightarrow> e = Err knd_CONFLICT \<and> \<not> distinct (map (class_key h) es)"
proof -
  have "knd_class_get_updates h self gt lt (upd, m) = add_updates (class_key h) es (upd, m)"
    using assms(5) scan_states_flat [where retrieve = "retrieve_all_class_updates h", OF class_updates_flat(2)]
    by (auto simp: knd_class_get_updates_def class_updates_def upper_bound_def assms(6) simp del: scan_states.simps split: list.splits)
  moreover have "find (\<lambda>e. class_key h e = k) es = (case find (\<lambda>e. class_key h e = k) es of None \<Rightarrow> None | Some e \<Rightarrow> Some e)" for k
    by (simp split: option.splits)
  ultimately show ?thesis
    using add_updates_map [OF assms(1-3,7,8)] assms(4) by (auto split: prod.splits option.splits)
qed

theorem class_updates_collect_witness:
  "fst (knd_class_get_updates state_heap 0 1 0 (sample_empty_set, small_pool)) = None \<and>
   set_at (fst (snd (knd_class_get_updates state_heap 0 1 0 (sample_empty_set, small_pool)))) [48] = Some 0 \<and>
   fst (knd_class_get_updates state_heap 0 0 0 (sample_empty_set, small_pool)) = Some (Err knd_CONFLICT)"
proof -
  have states: "c_states (ch_classes state_heap 0) = map (\<lambda>n. State n KND_UPDATED None
      [State_Ref KND_STATE_CLASS (Some (unat n mod 2)) (State 0 KND_UPDATED None [])]) [3, 2, 1]"
    by (simp add: state_heap_def)
  have key: "class_key state_heap e = [of_nat (48 + e)]" for e by (simp add: state_heap_def)
  have valid: "valid_id [48]" "valid_id [49]" by code_simp+
  have objs: "objs (updated KND_STATE_CLASS 1 (upper_bound (c_states (ch_classes state_heap 0)) 0) (c_states (ch_classes state_heap 0))) = [1, 0]"
    "objs (updated KND_STATE_CLASS 0 (upper_bound (c_states (ch_classes state_heap 0)) 0) (c_states (ch_classes state_heap 0))) = [1, 0, 1]"
    unfolding states by code_simp+
  have one: "case knd_class_get_updates state_heap 0 1 0 (sample_empty_set, small_pool) of
      (None, upd', m') \<Rightarrow> distinct (map (class_key state_heap) [1, 0]) \<and>
        set_at upd' = (\<lambda>k. find (\<lambda>e. class_key state_heap e = k) [1, 0])
    | (Some e, s') \<Rightarrow> e = Err knd_CONFLICT \<and> \<not> distinct (map (class_key state_heap) [1, 0])"
    by (rule class_updates_collect [OF small_pool_ok(1) sample_empty_set_at(1,3,2)])
      (use objs(1) states valid in \<open>auto simp: key small_pool_ok\<close>)
  have two: "case knd_class_get_updates state_heap 0 0 0 (sample_empty_set, small_pool) of
      (None, upd', m') \<Rightarrow> distinct (map (class_key state_heap) [1, 0, 1]) \<and>
        set_at upd' = (\<lambda>k. find (\<lambda>e. class_key state_heap e = k) [1, 0, 1])
    | (Some e, s') \<Rightarrow> e = Err knd_CONFLICT \<and> \<not> distinct (map (class_key state_heap) [1, 0, 1])"
    by (rule class_updates_collect [OF small_pool_ok(1) sample_empty_set_at(1,3,2)])
      (use objs(2) states valid in \<open>auto simp: key small_pool_ok\<close>)
  show ?thesis using one two by (auto simp: key split: prod.splits option.splits)
qed

text \<open>C9: the updates of the instances of a class are not found without an upper bound, as the count that would bound
  them stays zero when a commit puts a state into the class; the first such state has the number zero and is
  not found with any bounds.\<close>
theorem inst_updates_not_found:
  assumes "c_num_inst_states (ch_classes h self) = 0"
    and "knd_class_inst_commit_state self children commit h = (None, commit', h')"
  shows "st_children (hd (c_inst_states (ch_classes h' self))) = children \<and>
    length (c_inst_states (ch_classes h' self)) = Suc (length (c_inst_states (ch_classes h self))) \<and>
    knd_class_get_inst_updates h' self gt 0 s = (None, s) \<and>
    (c_inst_states (ch_classes h self) = [] \<longrightarrow> knd_class_get_inst_updates h' self gt lt s = (None, s))"
proof -
  have skip: "scan_states retrieve gt 1 states s = (None, s)" for retrieve gt states s
    by (induction states) (auto simp: not_le word_gt_0 unsigned_word_eqI word_less_1 split: if_splits)
  have "c_num_inst_states (ch_classes h' self) = 0 \<and>
      (\<exists>n. c_inst_states (ch_classes h' self) = State n KND_SELECTED None children # c_inst_states (ch_classes h self) \<and>
        (c_inst_states (ch_classes h self) = [] \<longrightarrow> n = 0))"
    using assms by (auto simp: knd_class_inst_commit_state_def update_class_def Let_def split: sum.splits list.splits)
  then show ?thesis using skip by (auto simp: knd_class_get_inst_updates_def)
qed

theorem inst_updates_not_found_witness:
  "\<exists>commit h. knd_class_inst_commit_state 0 [State_Ref KND_STATE_CLASS_INST (Some 0) (State 0 KND_CREATED (Some 0) [])]
       empty_commit (sample_heap\<lparr>ch_mempool := small_pool\<rparr>) = (None, commit, h) \<and>
     knd_class_get_inst_updates h 0 0 5 (sample_empty_set, small_pool) = (None, sample_empty_set, small_pool)"
proof -
  let ?h = "sample_heap\<lparr>ch_mempool := small_pool\<rparr>"
  let ?refs = "[State_Ref KND_STATE_CLASS_INST (Some 0) (State 0 KND_CREATED (Some 0) [])]"
  have "refs_left small_pool \<noteq> []" using small_pool_ok(2) by auto
  then obtain p1 ps1 m1 where m1: "knd_mempool_page small_pool KND_MEMPAGE_TINY = Inr (p1, m1)" "refs_left m1 = ps1" "index_pool m1"
    "refs_left small_pool = p1 # ps1"
    by (rule page_cases [OF small_pool_ok(1)]) blast
  then have "refs_left m1 \<noteq> []" using small_pool_ok(2) by (cases ps1) auto
  then obtain p2 m2 where m2: "knd_mempool_page m1 KND_MEMPAGE_TINY = Inr (p2, m2)" by (rule page_cases [OF m1(3)]) blast
  have size: "\<not> pc_page_size (mp_tiny small_pool) < 64" "\<not> pc_page_size (mp_tiny m1) < 64"
    using small_pool_ok(1) m1(3) by (auto simp: index_pool_def not_less)
  moreover from this have "\<not> pc_page_size (mp_tiny m1) < 32" by (auto simp: not_less elim: order_trans [rotated])
  ultimately obtain commit h where run: "knd_class_inst_commit_state 0 ?refs empty_commit ?h = (None, commit, h)"
    using m1(1) m2 by (simp add: knd_class_inst_commit_state_def knd_state_new_def knd_state_ref_new_def Let_def update_class_def)
  moreover have "c_num_inst_states (ch_classes ?h 0) = 0" "c_inst_states (ch_classes ?h 0) = []"
    by (simp_all add: sample_heap_def cleared_class_def)
  ultimately show ?thesis using inst_updates_not_found [of ?h 0 ?refs empty_commit commit h 0 _ 5] by blast
qed

end
