(* ===== verification/Charseq.thy ===== *)
theory Charseq
  imports Gsp_Roundtrip Shared_Dict Class_Pages
begin

text \<open>
  The strings of a repository: \<^verbatim>\<open>src/knd_text.c\<close> registers every string once, by its text and by the identifier of
  its number, \<^verbatim>\<open>src/knd_repo.gsp.c\<close> writes the strings to a set file with the callbacks of \<^verbatim>\<open>src/knd_text.gsp.c\<close>, and
  \<^verbatim>\<open>src/knd_repo.open.c\<close> reads them back. A character sequence does not change once it is registered, so that
  the indices have its value.
\<close>

section \<open>Registering\<close>

record kndCharSeq =
  cs_val :: "byte list"
  cs_numid :: size_t

text \<open>The strings of a repository, the pool of the user, and the memory of the index of identifiers.\<close>

record str_repo =
  sr_dict :: "(kndCharSeq, nat) kndSharedDict"
  sr_idx :: "kndCharSeq kndSharedSet"
  sr_num_strs :: size_t
  sr_mempool :: kndMemPool
  sr_mem :: set_mem

text \<open>A character sequence has 40 bytes.\<close>

definition knd_charseq_new :: "kndMemPool \<Rightarrow> (nat \<times> kndMemPool) result" where
  "knd_charseq_new mempool =
     (if pc_page_size (mp_tiny mempool) < 40 then Inl Stuck else knd_mempool_page mempool KND_MEMPAGE_TINY)"

definition knd_charseq_decode :: "byte list \<Rightarrow> str_repo \<Rightarrow> kndCharSeq result" where
  "knd_charseq_decode val r = (if length val > KND_ID_SIZE then Inl Stuck else knd_shared_set_get (sr_idx r) val)"

definition register_by_val :: "kndCharSeq \<Rightarrow> str_repo \<Rightarrow> failure option \<times> str_repo" where
  "register_by_val seq r =
     (case knd_shared_dict_set (sr_dict r) (cs_val seq) (Some seq) (sr_mempool r) None False of
        (err, _, dict, mempool) \<Rightarrow> (err, r\<lparr>sr_dict := dict, sr_mempool := mempool\<rparr>))"

definition register_by_id :: "byte list \<Rightarrow> kndCharSeq \<Rightarrow> str_repo \<Rightarrow> failure option \<times> str_repo" where
  "register_by_id key seq r =
     (case knd_shared_set_add (sr_idx r) key seq (sr_mem r) of
        (err, idx, mem) \<Rightarrow> (err, r\<lparr>sr_idx := idx, sr_mem := mem\<rparr>))"

text \<open>The identifier is written to an array of 8 bytes.\<close>

definition knd_charseq_fetch :: "byte list \<Rightarrow> str_repo \<Rightarrow> (str_repo, kndCharSeq) outcome" where
  "knd_charseq_fetch val r =
     (case knd_shared_dict_get (sr_dict r) val of
        Inl e \<Rightarrow> Inl (e, r)
      | Inr (Some seq) \<Rightarrow> Inr (seq, r)
      | Inr None \<Rightarrow>
          (case knd_charseq_new (sr_mempool r) of
             Inl e \<Rightarrow> Inl (e, r)
           | Inr (_, mempool) \<Rightarrow>
               (let seq = \<lparr>cs_val = val, cs_numid = sr_num_strs r\<rparr>;
                    r = r\<lparr>sr_num_strs := sr_num_strs r + 1, sr_mempool := mempool\<rparr> in
                case then_step (register_by_val seq r) (\<lambda>r.
                    case knd_uid_create (cs_numid seq) of
                      Inl e \<Rightarrow> (Some e, r)
                    | Inr idbuf \<Rightarrow>
                        if length idbuf > KND_ID_SIZE then (Some Stuck, r) else register_by_id idbuf seq r) of
                  (Some e, r) \<Rightarrow> Inl (e, r)
                | (None, r) \<Rightarrow> Inr (seq, r))))"

text \<open>What the writers of set files put in the place of a string: the identifier of its number.\<close>

definition encode_charseq :: "byte list \<Rightarrow> str_repo \<Rightarrow> (str_repo, byte list) outcome" where
  "encode_charseq val r =
     bind_out (knd_charseq_fetch val r) (\<lambda>seq r.
       case knd_uid_create (cs_numid seq) of
         Inl e \<Rightarrow> Inl (e, r)
       | Inr idbuf \<Rightarrow> if length idbuf > KND_ID_SIZE then Inl (Stuck, r) else Inr (idbuf, r))"

section \<open>Files\<close>

definition knd_charseq_marshall :: "kndCharSeq marshall_cb" where
  "knd_charseq_marshall seq out =
     (case kndOutput_write out (cs_val seq) of
        (Some e, out') \<Rightarrow> (Some e, 0, out')
      | (None, out') \<Rightarrow> (None, unat (out_size out' - out_size out), out'))"

text \<open>The number of a sequence that is read stays 0.\<close>

definition knd_charseq_unmarshall :: "(str_repo, kndCharSeq) unmarshall_cb" where
  "knd_charseq_unmarshall elem_id val r =
     (case knd_charseq_new (sr_mempool r) of
        Inl e \<Rightarrow> Inl (e, r)
      | Inr (_, mempool) \<Rightarrow>
          (let seq = \<lparr>cs_val = val, cs_numid = 0\<rparr> in
           case then_step (register_by_id elem_id seq (r\<lparr>sr_mempool := mempool\<rparr>)) (register_by_val seq) of
             (Some e, r) \<Rightarrow> Inl (e, r)
           | (None, r) \<Rightarrow> Inr (seq, r)))"

text \<open>
  \<open>sys_write\<close> and \<open>sys_append\<close> write to the file of a name, from the start and at its end.
  \<^verbatim>\<open>KND_PATH_SIZE\<close> is 1024.
\<close>

definition marshall_idx ::
  "(byte list \<Rightarrow> 'f write_fun) \<Rightarrow> (byte list \<Rightarrow> 'f write_fun) \<Rightarrow> 'e kndSharedSet \<Rightarrow> byte list \<Rightarrow> byte list \<Rightarrow>
   'e marshall_cb \<Rightarrow> 'f gsp_state \<Rightarrow> ('f gsp_state, nat) outcome" where
  "marshall_idx sys_write sys_append idx path filename cb s =
     bind_out (g_put kndOutput_reset s) (\<lambda>_ s.
     bind_out (g_put (\<lambda>out. kndOutput_write out path) s) (\<lambda>_ s.
     bind_out (g_put (\<lambda>out. kndOutput_write out filename) s) (\<lambda>_ s.
     if out_size (g_out s) \<ge> 1024 then Inl (Err knd_LIMIT, s)
     else
       let buf = out_text (g_out s) in
       bind_out (g_put kndOutput_reset s) (\<lambda>_ s.
       bind_out (g_put (\<lambda>out. kndOutput_write out (bytes_of ''GSP'')) s) (\<lambda>_ s.
       case knd_write_file (sys_write buf) (out_text (g_out s)) (g_file s) of
         (Some e, fs) \<Rightarrow> Inl (e, s\<lparr>g_file := fs\<rparr>)
       | (None, fs) \<Rightarrow> knd_shared_set_marshall (sys_append buf) cb idx (s\<lparr>g_file := fs\<rparr>))))))"

text \<open>
  The file is read into the index that the callback fills: the reader sets its path, its directory and its number of
  elements, which the callback does not read. \<open>sys_stat\<close> gives the size of a file.
\<close>

definition fetch_str_idx ::
  "(byte list \<Rightarrow> nat option) \<Rightarrow> (byte list \<Rightarrow> read_fun option) \<Rightarrow> set_mem \<Rightarrow> kndOutput \<Rightarrow> byte list \<Rightarrow> str_repo \<Rightarrow>
   failure option \<times> str_repo" where
  "fetch_str_idx sys_stat sys_open mem file_out path r =
     (case then_step (kndOutput_reset file_out) (\<lambda>out.
          then_step (kndOutput_write out path) (\<lambda>out. kndOutput_write out (bytes_of ''strings.gsp''))) of
        (Some e, _) \<Rightarrow> (Some e, r)
      | (None, out) \<Rightarrow>
          (case sys_stat (out_text out) of
             None \<Rightarrow> (Some (Err knd_NO_MATCH), r)
           | Some st_size \<Rightarrow>
               (case knd_shared_set_unmarshall_file sys_open knd_charseq_unmarshall (sr_idx r) (out_text out) st_size
                   \<lparr>r_obj = r, r_mem = mem, r_blocks = []\<rparr> of
                  (Some e, self, t) \<Rightarrow> (Some e, r_obj t\<lparr>sr_idx := (sr_idx (r_obj t))\<lparr>ss_path := ss_path self\<rparr>\<rparr>)
                | (None, self, t) \<Rightarrow>
                    (None, r_obj t\<lparr>sr_idx := (sr_idx (r_obj t))\<lparr>ss_path := ss_path self, ss_dir := ss_dir self,
                         ss_num_elems := ss_num_elems self\<rparr>, sr_num_strs := ss_num_elems self\<rparr>))))"

section \<open>Heights\<close>

lemma subs_height_le: "subs_height subs \<le> n \<longleftrightarrow> (\<forall>sub. Some sub \<in> set subs \<longrightarrow> idx_height sub \<le> n)"
proof (induction subs)
  case (Cons s subs)
  then show ?case by (cases s) auto
qed simp

lemma subs_height_update: "idx_height sub \<le> n \<Longrightarrow> subs_height subs \<le> n \<Longrightarrow> subs_height (subs[i := Some sub]) \<le> n"
  using set_update_subset_insert [of subs i "Some sub"] by (auto simp: subs_height_le)

lemma subs_height_nth: "i < length subs \<Longrightarrow> subs ! i = Some sub \<Longrightarrow> idx_height sub \<le> subs_height subs"
  using subs_height_le [of subs "subs_height subs"] nth_mem [of i subs] by auto

lemma subs_height_replicate [simp]: "subs_height (replicate n None) = 0"
  by (induction n) simp_all

lemma height_empty [simp]: "idx_height empty_idx = 1"
  by (simp add: empty_idx_def)

lemma save_height:
  assumes "\<And>m idx m'. new_node m = Inr (idx, m') \<Longrightarrow> idx = empty_idx"
    and "save_in new_node bad ow idx elem key m = (err, idx', m')"
    and "idx_ok idx" and "idx_height idx \<le> n" and "length key \<le> n"
  shows "idx_height idx' \<le> n"
  using assms
proof (induction new_node bad ow idx elem key m arbitrary: err idx' m' n rule: save_in.induct)
  case (2 new_node bad ow idx elem c m)
  then show ?case by (cases idx) (auto simp: Let_def split: if_splits)
next
  case (3 new_node bad ow idx elem c d rest m)
  let ?i = "nat (id_pos c)"
  obtain es ss where idx: "idx = Elem_Idx es ss" by (cases idx)
  have ok: "length es = 62" "length ss = 62" "\<And>sub. Some sub \<in> set ss \<Longrightarrow> idx_ok sub"
    using 3(5) by (auto simp: idx subs_ok_iff)
  obtain k where n: "n = Suc k" and k: "subs_height ss \<le> k" "length (d # rest) \<le> k" "1 \<le> k"
    using 3(6,7) by (cases n) (auto simp: idx)
  show ?case
  proof (cases "id_pos c = -1")
    case False
    then have i: "?i < 62" using id_pos_range [of c] by (simp add: valid_digit_def nat_less_iff)
    show ?thesis
    proof (cases "ss ! ?i")
      case None
      show ?thesis
      proof (cases "new_node m")
        case (Inr r)
        obtain sub m1 where r: "r = (sub, m1)" by (cases r)
        obtain err1 sub' m2 where sv: "save_in new_node bad ow sub elem (d # rest) m1 = (err1, sub', m2)" by (metis surj_pair)
        have "sub = empty_idx" using 3(3) Inr r by simp
        then have "idx_height sub' \<le> k"
          using 3(1) [OF refl False _ _ _ 3(3) sv] None Inr r k by (simp add: idx idx_ok_empty)
        then show ?thesis using 3(4) False None Inr r sv k(1) by (auto simp: idx n intro: subs_height_update)
      qed (use 3(4,6) None False in \<open>simp add: idx n\<close>)
    next
      case (Some sub)
      obtain err1 sub' m2 where sv: "save_in new_node bad ow sub elem (d # rest) m = (err1, sub', m2)" by (metis surj_pair)
      have "idx_ok sub" "idx_height sub \<le> k"
        using ok(3) [of sub] subs_height_nth [of ?i ss sub] Some ok(2) i k(1) nth_mem [of ?i ss] by auto
      then have "idx_height sub' \<le> k" using 3(2) [OF refl False _ 3(3) sv] Some k(2) by (simp add: idx)
      then show ?thesis using 3(4) False Some sv k(1) by (auto simp: idx n intro: subs_height_update)
    qed
  qed (use 3(4,6) in \<open>simp add: idx n\<close>)
qed auto

section \<open>Identifiers of numbers\<close>

definition uid :: "nat \<Rightarrow> byte list" where
  "uid n = digits_id (if n = 0 then [0] else radix_digits n)"

lemma uid_digits: "digits (if n = 0 then [0] else radix_digits n)"
  using radix_digits_less [of _ n] by (auto simp: digits_def list_all_iff)

lemma uid_create_uid:
  assumes "n < 2 ^ 63"
  shows "knd_uid_create (of_nat n) = Inr (uid n)"
proof (cases "n = 0")
  case False
  have n: "unat (of_nat n :: size_t) = n" using assms by (simp add: unat_of_nat_size_t)
  then have "(of_nat n :: size_t) \<noteq> 0" using False by (metis unat_0)
  then show ?thesis using uid_create_nonzero [of "of_nat n"] n assms False by (simp add: uid_def digits_id_def)
qed (simp add: uid_create_0 uid_def digits_id_def)

lemma valid_uid: "valid_id (uid n)"
  using valid_digits_id [OF uid_digits [of n]] by (simp add: valid_id_def uid_def digits_id_def)

lemma uid_inject: "uid m = uid n \<longleftrightarrow> m = n"
proof
  assume "uid m = uid n"
  then have "(if m = 0 then [0] else radix_digits m) = (if n = 0 then [0] else radix_digits n)"
    using id_digits_id [OF uid_digits] unfolding uid_def by metis
  then have "radix_value (if m = 0 then [0] else radix_digits m) = radix_value (if n = 0 then [0] else radix_digits n)"
    by (rule arg_cong)
  then show "m = n" by (simp split: if_splits)
qed simp

lemma length_uid: "n < 62 ^ 8 \<Longrightarrow> length (uid n) \<le> 8"
  by (simp add: uid_def digits_id_def length_radix_digits)

section \<open>The strings as a list\<close>

text \<open>The string of a text, and the string of an identifier: the \<open>n\<close>-th string has the identifier of \<open>n\<close>.\<close>

definition val_map :: "kndCharSeq list \<Rightarrow> byte list \<Rightarrow> kndCharSeq option" where
  "val_map strs = map_of (map (\<lambda>s. (cs_val s, s)) strs)"

definition id_map :: "kndCharSeq list \<Rightarrow> byte list \<Rightarrow> kndCharSeq option" where
  "id_map strs = map_of (zip (map uid [0..<length strs]) strs)"

definition vals_rel :: "str_repo \<Rightarrow> (byte list \<Rightarrow> kndCharSeq option) \<Rightarrow> bool" where
  "vals_rel r m \<longleftrightarrow> shared_index_ok (sr_dict r, sr_mempool r) \<and> shared_lookup (sr_dict r, sr_mempool r) = m"

definition idx_low :: "'e kndSharedSet \<Rightarrow> bool" where
  "idx_low self \<longleftrightarrow> (case ss_idx self of None \<Rightarrow> False | Some idx \<Rightarrow> idx_height idx \<le> KND_ID_SIZE)"

definition ids_rel :: "str_repo \<Rightarrow> (byte list \<Rightarrow> kndCharSeq option) \<Rightarrow> bool" where
  "ids_rel r m \<longleftrightarrow> shared_set_index_ok (sr_idx r, sr_mem r) \<and> idx_low (sr_idx r) \<and> shared_set_at (sr_idx r) = m"

definition strs_rel :: "str_repo \<Rightarrow> kndCharSeq list \<Rightarrow> bool" where
  "strs_rel r strs \<longleftrightarrow> vals_rel r (val_map strs) \<and> ids_rel r (id_map strs) \<and> distinct (map cs_val strs) \<and>
     sr_num_strs r = of_nat (length strs)"

lemma vals_rel_pool [simp]: "vals_rel (r\<lparr>sr_num_strs := n, sr_mempool := m\<rparr>) f \<longleftrightarrow> vals_rel r f"
  by (auto simp: vals_rel_def shared_index_ok_def shared_lookup_def fun_eq_iff)

lemma vals_rel_cong: "sr_dict r' = sr_dict r \<Longrightarrow> vals_rel r' f \<longleftrightarrow> vals_rel r f"
  by (auto simp: vals_rel_def shared_index_ok_def shared_lookup_def fun_eq_iff)

lemma ids_rel_cong: "ss_idx (sr_idx r') = ss_idx (sr_idx r) \<Longrightarrow> ss_allow_overwrite (sr_idx r') = ss_allow_overwrite (sr_idx r) \<Longrightarrow>
    ids_rel r' f \<longleftrightarrow> ids_rel r f"
  by (auto simp: ids_rel_def shared_set_index_ok_def shared_set_ok_def idx_low_def shared_set_at_def fun_eq_iff)

lemma val_map_snoc: "val_map strs (cs_val s) = None \<Longrightarrow> val_map (strs @ [s]) = (val_map strs)(cs_val s \<mapsto> s)"
  by (auto simp: val_map_def map_add_def fun_eq_iff split: option.splits)

lemma val_map_None: "val_map strs val = None \<longleftrightarrow> val \<notin> cs_val ` set strs"
  by (force simp: val_map_def map_of_eq_None_iff)

lemma val_map_nth: "distinct (map cs_val strs) \<Longrightarrow> n < length strs \<Longrightarrow> val_map strs (cs_val (strs ! n)) = Some (strs ! n)"
  unfolding val_map_def by (rule map_of_is_SomeI) (auto simp: comp_def)

lemma val_map_Some: "val_map strs val = Some s \<Longrightarrow> s \<in> set strs \<and> cs_val s = val"
  by (auto simp: val_map_def dest: map_of_SomeD)

lemma id_map_Some: "id_map strs key = Some s \<longleftrightarrow> (\<exists>n<length strs. key = uid n \<and> s = strs ! n)"
proof -
  have "distinct (map fst (zip (map uid [0..<length strs]) strs))"
    by (simp add: distinct_map inj_on_def uid_inject)
  then have "id_map strs key = Some s \<longleftrightarrow> (key, s) \<in> set (zip (map uid [0..<length strs]) strs)"
    by (simp add: id_map_def)
  also have "\<dots> \<longleftrightarrow> (\<exists>n<length strs. key = uid n \<and> s = strs ! n)"
    by (auto simp: set_zip) (rule_tac x = n in exI, simp)
  finally show ?thesis .
qed

lemma id_map_nth: "n < length strs \<Longrightarrow> id_map strs (uid n) = Some (strs ! n)"
  by (auto simp: id_map_Some)

lemma id_map_snoc: "id_map (strs @ [s]) = (id_map strs)(uid (length strs) \<mapsto> s)"
proof
  fix key
  have "id_map (strs @ [s]) key = Some x \<longleftrightarrow> ((id_map strs)(uid (length strs) \<mapsto> s)) key = Some x" for x
    by (auto simp: id_map_Some uid_inject nth_append less_Suc_eq)
  then show "id_map (strs @ [s]) key = ((id_map strs)(uid (length strs) \<mapsto> s)) key"
    by (metis not_None_eq)
qed

section \<open>Adding a string\<close>

lemma register_by_val_cases:
  assumes "register_by_val seq r = (err, r')"
  obtains d p where "r' = r\<lparr>sr_dict := d, sr_mempool := p\<rparr>"
    "shared_insert (sr_dict r, sr_mempool r) (cs_val seq) seq = (err, d, p)"
  using assms by (auto simp: register_by_val_def shared_insert_def split: prod.splits)

lemma register_by_id_cases:
  assumes "register_by_id key seq r = (err, r')"
  obtains d m where "r' = r\<lparr>sr_idx := d, sr_mem := m\<rparr>"
    "shared_set_insert (sr_idx r, sr_mem r) key seq = (err, d, m)"
  using assms by (auto simp: register_by_id_def shared_set_insert_def split: prod.splits)

lemma register_by_val_added:
  assumes "register_by_val seq r = (None, r')" and "vals_rel r m"
  shows "m (cs_val seq) = None \<and> vals_rel r' (m(cs_val seq \<mapsto> seq)) \<and> sr_idx r' = sr_idx r \<and> sr_mem r' = sr_mem r \<and>
    sr_num_strs r' = sr_num_strs r"
proof (rule register_by_val_cases [OF assms(1)])
  fix d p
  assume r': "r' = r\<lparr>sr_dict := d, sr_mempool := p\<rparr>"
    and ins: "shared_insert (sr_dict r, sr_mempool r) (cs_val seq) seq = (None, d, p)"
  have ok: "shared_index_ok (sr_dict r, sr_mempool r)" "shared_lookup (sr_dict r, sr_mempool r) = m"
    using assms(2) by (simp_all add: vals_rel_def)
  have "m (cs_val seq) = None" using shared_index.insert_taken [OF ok(1), of "cs_val seq" seq] ok(2) ins by fastforce
  then show ?thesis using shared_index.insert_added [OF ok(1) ins] ok(2) r' by (simp add: vals_rel_def)
qed

lemma set_add_low:
  assumes "knd_shared_set_add self key elem m = (err, self', m')" and "shared_set_ok self" and "idx_low self"
    and "length key \<le> KND_ID_SIZE"
  shows "idx_low self'"
proof (rule shared_add_cases [OF assms(2), of elem key m])
  fix idx err1 idx' m1
  assume idx: "ss_idx self = Some idx" "idx_ok idx"
    and sv: "shared_save_elem (ss_allow_overwrite self) idx elem key m = (err1, idx', m1)"
    and add: "knd_shared_set_add self key elem m = (err1,
       (if err1 = None then self\<lparr>ss_idx := Some idx', ss_num_elems := ss_num_elems self + 1,
          ss_num_valid_elems := ss_num_valid_elems self + 1\<rparr> else self\<lparr>ss_idx := Some idx'\<rparr>), m1)"
  have "idx_height idx' \<le> KND_ID_SIZE"
    using save_height [OF mem_nodes.new_empty sv [unfolded shared_save_elem_def] idx(2)] assms(3,4) idx(1)
    by (simp add: idx_low_def)
  then show ?thesis using add assms(1) by (auto simp: idx_low_def)
qed

lemma register_by_id_added:
  assumes "register_by_id key seq r = (None, r')" and "ids_rel r m" and "length key \<le> KND_ID_SIZE"
  shows "m key = None \<and> ids_rel r' (m(key \<mapsto> seq)) \<and> sr_dict r' = sr_dict r \<and> sr_mempool r' = sr_mempool r \<and>
    sr_num_strs r' = sr_num_strs r"
proof (rule register_by_id_cases [OF assms(1)])
  fix d p
  assume r': "r' = r\<lparr>sr_idx := d, sr_mem := p\<rparr>"
    and ins: "shared_set_insert (sr_idx r, sr_mem r) key seq = (None, d, p)"
  have ok: "shared_set_index_ok (sr_idx r, sr_mem r)" "(shared_set_at \<circ> fst) (sr_idx r, sr_mem r) = m" "idx_low (sr_idx r)"
    using assms(2) by (simp_all add: ids_rel_def)
  have "m key = None" using shared_set_index.insert_taken [OF ok(1), of key seq] ok(2) ins by fastforce
  moreover have "idx_low d"
    using set_add_low [of "sr_idx r" key seq "sr_mem r"] ins ok assms(3) by (simp add: shared_set_insert_def shared_set_index_ok_def)
  ultimately show ?thesis using shared_set_index.insert_added [OF ok(1) ins] ok(2) r' by (simp add: ids_rel_def)
qed

text \<open>Enough pages and nodes for one more string.\<close>

definition str_room :: "str_repo \<Rightarrow> bool" where
  "str_room r \<longleftrightarrow> pool_ready (sr_mempool r) \<and> 48 \<le> pc_page_size (mp_tiny (sr_mempool r)) \<and>
     2 \<le> length (pages_left KND_MEMPAGE_TINY (sr_mempool r)) \<and> mem_ready (sr_mem r) \<and> KND_ID_SIZE \<le> Suc (mem_left (sr_mem r))"

lemma page_48: "48 \<le> (n :: size_t) \<Longrightarrow> \<not> n < 48 \<and> \<not> n < 40"
  by (simp add: word_le_nat_alt word_less_nat_alt)

lemma pool_draw:
  assumes "pool_ready m" and "Suc n \<le> length (pages_left KND_MEMPAGE_TINY m)"
  obtains p m' where "knd_mempool_page m KND_MEMPAGE_TINY = Inr (p, m')" "pool_ready m'"
    "n \<le> length (pages_left KND_MEMPAGE_TINY m')" "pc_page_size (mp_tiny m') = pc_page_size (mp_tiny m)"
proof -
  obtain p ps where ps: "pages_left KND_MEMPAGE_TINY m = p # ps" using assms(2) by (cases "pages_left KND_MEMPAGE_TINY m") auto
  then obtain m' where m': "knd_mempool_page m KND_MEMPAGE_TINY = Inr (p, m')" "pool_ready m'" "pages_left KND_MEMPAGE_TINY m' = ps"
    using pages_left_step [OF assms(1), of KND_MEMPAGE_TINY] by auto
  have "pc_page_size (mp_tiny m') = pc_page_size (mp_tiny m)"
    using page_keeps_other(2) [OF m'(1), of KND_MEMPAGE_TINY] by simp
  then show ?thesis using that m' assms(2) ps by simp
qed

lemma page_no_conflict: "knd_mempool_page m t = Inl e \<Longrightarrow> e \<noteq> Err knd_CONFLICT"
  by (auto simp: knd_mempool_page_def get_page_def get_shared_page_def incr_page_def Let_def
      split: if_splits knd_mempool_type.splits)

lemma register_by_val_failed:
  assumes "register_by_val seq r = (Some e, r')" and "vals_rel r m" and "m (cs_val seq) = None"
  shows "e \<noteq> Err knd_CONFLICT \<and>
    \<not> (pool_ready (sr_mempool r) \<and> 48 \<le> pc_page_size (mp_tiny (sr_mempool r)) \<and>
       1 \<le> length (pages_left KND_MEMPAGE_TINY (sr_mempool r)))"
proof (rule register_by_val_cases [OF assms(1)])
  fix d p
  assume ins: "shared_insert (sr_dict r, sr_mempool r) (cs_val seq) seq = (Some e, d, p)"
  have ok: "shared_index_ok (sr_dict r, sr_mempool r)" and free: "shared_lookup (sr_dict r, sr_mempool r) (cs_val seq) = None"
    using assms(2,3) by (simp_all add: vals_rel_def)
  have dict: "shared_ok (sr_dict r)" using ok by (simp add: shared_index_ok_def)
  have "make_item (sr_mempool r) (cs_val seq) (Some seq) (None :: nat option) = (Inl e, p)"
  proof (rule shared_set_cases [OF dict, of "cs_val seq" False "Some seq" "sr_mempool r" None], goal_cases)
    case (1 item)
    then show ?thesis using free shared_lookup_None [OF ok, of "cs_val seq"] by simp
  next
    case (2 e' p')
    then show ?thesis using ins by (simp add: shared_insert_def)
  next
    case (3 item p' d')
    then show ?thesis using ins by (simp add: shared_insert_def)
  qed
  moreover have "\<exists>item p. make_item (sr_mempool r) (cs_val seq) (Some seq) (None :: nat option) = (Inr item, p)"
    if room: "pool_ready (sr_mempool r)" "48 \<le> pc_page_size (mp_tiny (sr_mempool r))"
      "1 \<le> length (pages_left KND_MEMPAGE_TINY (sr_mempool r))"
  proof -
    obtain p m' where "knd_mempool_page (sr_mempool r) KND_MEMPAGE_TINY = Inr (p, m')"
      by (rule pool_draw [OF room(1), of 0]) (use room(3) in simp)
    then show ?thesis using page_48 [OF room(2)] by (simp add: make_item_def shared_item_new_def)
  qed
  ultimately show ?thesis using shared_index.insert_failed [OF ok free ins] by fastforce
qed

lemma register_by_id_failed:
  assumes "register_by_id key seq r = (Some e, r')" and "ids_rel r m" and "m key = None" and "valid_id key"
  shows "e \<noteq> Err knd_CONFLICT \<and> \<not> (mem_ready (sr_mem r) \<and> length key \<le> Suc (mem_left (sr_mem r)))"
proof (rule register_by_id_cases [OF assms(1)])
  fix d p
  assume ins: "shared_set_insert (sr_idx r, sr_mem r) key seq = (Some e, d, p)"
  have ok: "shared_set_index_ok (sr_idx r, sr_mem r)" and at: "shared_set_at (sr_idx r) = m"
    using assms(2) by (simp_all add: ids_rel_def)
  have free: "(shared_set_at \<circ> fst) (sr_idx r, sr_mem r) key = None" using at assms(3) by simp
  have "shared_set_ok (sr_idx r)" using ok by (simp add: shared_set_index_ok_def)
  from shared_set_add_effect [OF this, of key seq "sr_mem r"]
  show ?thesis using shared_set_index.insert_failed [OF ok free ins] ins assms(4) by (simp add: shared_set_insert_def)
qed

lemma dict_get_lookup:
  assumes "shared_index_ok (self, mempool)" and "key \<noteq> []"
  shows "knd_shared_dict_get self key = Inr (shared_lookup (self, mempool) key)"
proof -
  have "shared_ok self" using assms(1) by (simp add: shared_index_ok_def)
  then show ?thesis using assms(2) shared_slot_ok [of self key]
    by (simp add: knd_shared_dict_get_def shared_lookup_def shared_map_def live_shared_def shared_found_def split: option.split)
qed

lemma shared_get_at:
  "shared_set_ok self \<Longrightarrow> valid_id key \<Longrightarrow>
   knd_shared_set_get self key = (case shared_set_at self key of None \<Rightarrow> Inl (Err knd_NO_MATCH) | Some elem \<Rightarrow> Inr elem)"
  by (auto simp: shared_set_ok_def knd_shared_set_get_def shared_set_at_def elem_at_def shared_get_lookup valid_id_def
      split: option.splits)

lemma strs_decode:
  assumes "strs_rel r strs" and "n < length strs" and "length strs \<le> 62 ^ 8"
  shows "knd_charseq_decode (uid n) r = Inr (strs ! n)"
proof -
  have ok: "shared_set_ok (sr_idx r)" "shared_set_at (sr_idx r) = id_map strs"
    using assms(1) by (simp_all add: strs_rel_def ids_rel_def shared_set_index_ok_def)
  have "length (uid n) \<le> 8" using length_uid [of n] assms(2,3) by simp
  then show ?thesis using shared_get_at [OF ok(1) valid_uid, of n] ok(2) id_map_nth [OF assms(2)]
    by (simp add: knd_charseq_decode_def)
qed

lemma charseq_new_room:
  assumes "str_room r"
  shows "\<exists>p m. knd_charseq_new (sr_mempool r) = Inr (p, m) \<and> pool_ready m \<and> 48 \<le> pc_page_size (mp_tiny m) \<and>
    1 \<le> length (pages_left KND_MEMPAGE_TINY m)"
proof -
  have room: "pool_ready (sr_mempool r)" "48 \<le> pc_page_size (mp_tiny (sr_mempool r))"
    "Suc 1 \<le> length (pages_left KND_MEMPAGE_TINY (sr_mempool r))"
    using assms by (simp_all add: str_room_def)
  obtain p m where m: "knd_mempool_page (sr_mempool r) KND_MEMPAGE_TINY = Inr (p, m)" "pool_ready m"
    "1 \<le> length (pages_left KND_MEMPAGE_TINY m)" "pc_page_size (mp_tiny m) = pc_page_size (mp_tiny (sr_mempool r))"
    by (rule pool_draw [OF room(1,3)])
  then show ?thesis using page_48 [OF room(2)] room(2) by (simp add: knd_charseq_new_def)
qed

lemma fetch_known:
  assumes "strs_rel r strs" and "val_map strs val = Some s" and "val \<noteq> []"
  shows "knd_charseq_fetch val r = Inr (s, r)"
  using assms dict_get_lookup [of "sr_dict r" "sr_mempool r" val]
  by (simp add: strs_rel_def vals_rel_def knd_charseq_fetch_def)

lemma fetch_new:
  assumes "strs_rel r strs" and "val_map strs val = None" and "val \<noteq> []" and "length strs < 62 ^ 8"
  shows "case knd_charseq_fetch val r of
      Inr (seq, r') \<Rightarrow> seq = \<lparr>cs_val = val, cs_numid = of_nat (length strs)\<rparr> \<and> strs_rel r' (strs @ [seq])
    | Inl (e, r') \<Rightarrow> e \<noteq> Err knd_CONFLICT \<and> \<not> str_room r"
proof -
  let ?n = "length strs"
  define seq where "seq = \<lparr>cs_val = val, cs_numid = of_nat ?n :: size_t\<rparr>"
  have rel: "vals_rel r (val_map strs)" "ids_rel r (id_map strs)" "distinct (map cs_val strs)" "sr_num_strs r = of_nat ?n"
    using assms(1) by (simp_all add: strs_rel_def)
  have get: "knd_shared_dict_get (sr_dict r) val = Inr None"
    using dict_get_lookup [of "sr_dict r" "sr_mempool r" val] rel(1) assms(2,3) by (simp add: vals_rel_def)
  have uid: "knd_uid_create (of_nat ?n) = Inr (uid ?n)" "length (uid ?n) \<le> 8"
    using assms(4) by (simp_all add: uid_create_uid length_uid)
  show ?thesis
  proof (cases "knd_charseq_new (sr_mempool r)")
    case (Inl e)
    then have "e \<noteq> Err knd_CONFLICT"
      using page_no_conflict [of "sr_mempool r" KND_MEMPAGE_TINY e] by (auto simp: knd_charseq_new_def split: if_splits)
    then show ?thesis using get Inl charseq_new_room [of r] by (auto simp: knd_charseq_fetch_def)
  next
    case (Inr pm)
    obtain p m1 where pm: "pm = (p, m1)" by (cases pm)
    define r1 where "r1 = r\<lparr>sr_num_strs := sr_num_strs r + 1, sr_mempool := m1\<rparr>"
    have room1: "pool_ready m1 \<and> 48 \<le> pc_page_size (mp_tiny m1) \<and> 1 \<le> length (pages_left KND_MEMPAGE_TINY m1)" if "str_room r"
      using charseq_new_room [OF that] Inr pm by auto
    have rel1: "vals_rel r1 (val_map strs)" using rel(1) by (simp add: r1_def)
    have fetch: "knd_charseq_fetch val r = (case then_step (register_by_val seq r1) (register_by_id (uid ?n) seq) of
        (Some e, r) \<Rightarrow> Inl (e, r) | (None, r) \<Rightarrow> Inr (seq, r))"
      using get Inr pm uid rel(4) unfolding seq_def r1_def by (simp add: knd_charseq_fetch_def Let_def)
    obtain err2 r2 where s2: "register_by_val seq r1 = (err2, r2)" by fastforce
    show ?thesis
    proof (cases err2)
      case (Some e)
      then show ?thesis using register_by_val_failed [OF s2 [unfolded Some] rel1] assms(2) fetch s2 room1
        by (auto simp: seq_def r1_def)
    next
      case None
      note s2 = s2 [unfolded None]
      note added = register_by_val_added [OF s2 rel1]
      have rel2: "ids_rel r2 (id_map strs)" "sr_mem r2 = sr_mem r"
        using rel(2) added by (simp_all add: ids_rel_def r1_def)
      obtain err3 r3 where s3: "register_by_id (uid ?n) seq r2 = (err3, r3)" by fastforce
      have free: "id_map strs (uid ?n) = None"
        using id_map_Some [of strs "uid ?n"] by (metis not_None_eq uid_inject less_irrefl)
      show ?thesis
      proof (cases err3)
        case (Some e)
        then show ?thesis using register_by_id_failed [OF s3 [unfolded Some] rel2(1) free valid_uid] fetch s2 s3 uid(2) rel2(2)
          by (auto simp: str_room_def)
      next
        case None
        note s3 = s3 [unfolded None]
        have "strs_rel r3 (strs @ [seq])"
          using register_by_id_added [OF s3 rel2(1) uid(2)] added assms(2) rel(3,4) val_map_None [of strs val] val_map_snoc [of strs seq]
          by (simp add: strs_rel_def vals_rel_def id_map_snoc seq_def r1_def) 
        then show ?thesis using fetch s2 s3 by (simp add: seq_def)
      qed
    qed
  qed
qed

section \<open>Reading the strings of a file\<close>

definition unnumbered :: "kndCharSeq \<Rightarrow> kndCharSeq" where
  "unnumbered s = s\<lparr>cs_numid := 0\<rparr>"

lemma unnumbered_simps [simp]: "cs_val (unnumbered s) = cs_val s" "cs_numid (unnumbered s) = 0"
  by (simp_all add: unnumbered_def)

lemma unmarshall_added:
  assumes "knd_charseq_unmarshall key val r = Inr (s, r')" and "vals_rel r vm" and "ids_rel r im" and "length key \<le> KND_ID_SIZE"
  shows "s = \<lparr>cs_val = val, cs_numid = 0\<rparr> \<and> vals_rel r' (vm(val \<mapsto> s)) \<and> ids_rel r' (im(key \<mapsto> s)) \<and>
    sr_num_strs r' = sr_num_strs r"
proof -
  obtain p m where new: "knd_charseq_new (sr_mempool r) = Inr (p, m)"
    using assms(1) by (auto simp: knd_charseq_unmarshall_def split: sum.splits)
  let ?s = "\<lparr>cs_val = val, cs_numid = 0\<rparr> :: kndCharSeq" let ?r = "r\<lparr>sr_mempool := m\<rparr>"
  obtain err r2 where both: "then_step (register_by_id key ?s ?r) (register_by_val ?s) = (err, r2)" by fastforce
  then have "err = None" and s: "s = ?s" and "r2 = r'"
    using assms(1) new by (auto simp: knd_charseq_unmarshall_def Let_def split: option.splits)
  then obtain r1 where r1: "register_by_id key ?s ?r = (None, r1)" and r': "register_by_val ?s r1 = (None, r')"
    using both by (auto simp: then_step_None)
  have "ids_rel ?r im" using assms(3) by (simp add: ids_rel_def shared_set_index_ok_def)
  from register_by_id_added [OF r1 this assms(4)]
  have id: "ids_rel r1 (im(key \<mapsto> ?s))" "sr_dict r1 = sr_dict r" "sr_num_strs r1 = sr_num_strs r" by simp_all
  then have "vals_rel r1 vm" using assms(2) vals_rel_cong by blast
  from register_by_val_added [OF r' this] id s ids_rel_cong [of r' r1] show ?thesis by simp
qed

lemma calls_added:
  assumes "o_calls knd_charseq_unmarshall calls r = Inr ((), r')" and "vals_rel r vm" and "ids_rel r im"
    and "\<forall>(k, v)\<in>set calls. length k \<le> KND_ID_SIZE" and "distinct (map fst calls)" and "distinct (map snd calls)"
  shows "vals_rel r' (vm ++ map_of (map (\<lambda>(k, v). (v, \<lparr>cs_val = v, cs_numid = 0\<rparr>)) calls)) \<and>
    ids_rel r' (im ++ map_of (map (\<lambda>(k, v). (k, \<lparr>cs_val = v, cs_numid = 0\<rparr>)) calls)) \<and> sr_num_strs r' = sr_num_strs r"
  using assms
proof (induction calls arbitrary: r vm im)
  case (Cons call calls)
  obtain k v where call: "call = (k, v)" by (cases call)
  obtain s r1 where r1: "knd_charseq_unmarshall k v r = Inr (s, r1)"
    and rest: "o_calls knd_charseq_unmarshall calls r1 = Inr ((), r')"
    using Cons.prems(1) call by (auto simp: bind_out_eq_Inr)
  have "length k \<le> KND_ID_SIZE" using Cons.prems(4) call by simp
  note step = unmarshall_added [OF r1 Cons.prems(2,3) this]
  then have s: "s = \<lparr>cs_val = v, cs_numid = 0\<rparr>" and rel: "vals_rel r1 (vm(v \<mapsto> s))" "ids_rel r1 (im(k \<mapsto> s))"
    and num: "sr_num_strs r1 = sr_num_strs r" by blast+
  have fresh: "map_of (map (\<lambda>(k, v). (v, \<lparr>cs_val = v, cs_numid = 0 :: size_t\<rparr>)) calls) v = None"
    "map_of (map (\<lambda>(k, v). (k, \<lparr>cs_val = v, cs_numid = 0 :: size_t\<rparr>)) calls) k = None"
    using Cons.prems(5,6) call by (force simp: map_of_eq_None_iff)+
  have late: "m(x \<mapsto> y) ++ f = m ++ f(x \<mapsto> y)" if "f x = None" for m f :: "byte list \<Rightarrow> kndCharSeq option" and x y
    using that by (auto simp: map_add_def fun_eq_iff split: option.split)
  note late = late [where f = "map_of (map (\<lambda>(k :: byte list, v). (v, \<lparr>cs_val = v, cs_numid = 0\<rparr>)) calls)" and x = v]
    late [where f = "map_of (map (\<lambda>(k, v). (k, \<lparr>cs_val = v, cs_numid = 0\<rparr>)) calls)" and x = k]
  show ?case
    using Cons.IH [OF rest rel] Cons.prems(4-6) call num
    by (simp add: s late(1) [OF fresh(1)] late(2) [OF fresh(2)] del: fun_upd_apply)
qed simp

lemma entries_strs:
  assumes "idx_ok idx" and "elem_at idx = id_map strs" and "distinct (map cs_val strs)"
  shows "set (map snd (id_entries idx)) = set strs" and "distinct (map (cs_val \<circ> snd) (id_entries idx))"
    and "length (id_entries idx) = length strs"
proof -
  note d = id_entries_map(1) [OF assms(1)]
  have mem: "(k, e) \<in> set (id_entries idx) \<longleftrightarrow> (\<exists>n<length strs. k = uid n \<and> e = strs ! n)" for k e
    using id_entries_map [OF assms(1)] assms(2) map_of_eq_Some_iff [of "id_entries idx" k e] id_map_Some [of strs k e] by simp
  have "s \<in> snd ` set (id_entries idx) \<longleftrightarrow> (\<exists>k. (k, s) \<in> set (id_entries idx))" for s by force
  then show "set (map snd (id_entries idx)) = set strs" using mem by (auto simp: in_set_conv_nth)
  have "inj_on (cs_val \<circ> snd) (set (id_entries idx))"
  proof (rule inj_onI)
    fix x y assume "x \<in> set (id_entries idx)" "y \<in> set (id_entries idx)" "(cs_val \<circ> snd) x = (cs_val \<circ> snd) y"
    moreover obtain k a l b where xy: "x = (k, a)" "y = (l, b)" by (metis surj_pair)
    ultimately obtain i j where i: "i < length strs" "k = uid i" "a = strs ! i" and j: "j < length strs" "l = uid j" "b = strs ! j"
      and "cs_val a = cs_val b" using mem [of k a] mem [of l b] by auto
    then have "map cs_val strs ! i = map cs_val strs ! j" by simp
    then have "i = j" using nth_eq_iff_index_eq [OF assms(3), of i j] i(1) j(1) by simp
    then show "x = y" using i j xy by simp
  qed
  then show "distinct (map (cs_val \<circ> snd) (id_entries idx))" using d by (simp add: distinct_map)
  have "k \<in> fst ` set (id_entries idx) \<longleftrightarrow> (\<exists>s. (k, s) \<in> set (id_entries idx))" for k by force
  then have "fst ` set (id_entries idx) = uid ` {..<length strs}" using mem by auto
  then have "card (set (map fst (id_entries idx))) = length strs"
    by (simp add: card_image inj_on_def uid_inject)
  then show "length (id_entries idx) = length strs" using distinct_card [OF d] by simp
qed

text \<open>Writing a set uses the callback for its elements only.\<close>

lemma bind_out_cong [fundef_cong]:
  "r = r' \<Longrightarrow> (\<And>x s. r' = Inr (x, s) \<Longrightarrow> f x s = g x s) \<Longrightarrow> bind_out r f = bind_out r' g"
  by (auto simp: bind_out_def split: sum.splits prod.splits)

lemma marshall_elems_cong:
  "\<forall>e idx. (Some e, idx) \<in> set slots \<longrightarrow> cb e = cb' e \<Longrightarrow>
   marshall_elems cb use_keys i slots dir = marshall_elems cb' use_keys i slots dir"
proof (induction slots arbitrary: i dir)
  case (Cons slot slots)
  obtain elem idx where slot: "slot = (elem, idx)" by (cases slot)
  have cb: "g_cb cb e = g_cb cb' e" if "elem = Some e" for e
    using Cons.prems that slot by (auto simp: g_cb_def)
  have "\<forall>e idx. (Some e, idx) \<in> set slots \<longrightarrow> cb e = cb' e" using Cons.prems by auto
  note IH = Cons.IH [OF this]
  show ?case by (cases elem) (simp_all add: fun_eq_iff slot Let_def IH cb)
qed auto

lemma elem_entries_elems: "snd ` set (elem_entries i elems) = {e. Some e \<in> set elems}"
  by (induction i elems rule: elem_entries.induct) auto

lemma traverse_marshall_cong:
  fixes cb cb' :: "'e marshall_cb"
  shows "\<forall>x\<in>set (idx_entries idx). cb (snd x) = cb' (snd x) \<Longrightarrow>
      traverse_marshall sys_append cb idx depth s = traverse_marshall sys_append cb' idx depth s"
    and "\<forall>x\<in>set (sub_entries j subs). cb (snd x) = cb' (snd x) \<Longrightarrow>
      marshall_subdirs sys_append cb subs i depth d s = marshall_subdirs sys_append cb' subs i depth d s"
proof (induction sys_append cb idx depth s and sys_append cb subs i depth d s arbitrary: and j rule: traverse_marshall_marshall_subdirs.induct)
  case (1 sys_append cb elems subs depth s)
  have el: "cb e = cb' e" if "(Some e, idx) \<in> set (zip elems subs)" for e idx
  proof -
    have "e \<in> snd ` set (elem_entries 0 elems)" using set_zip_leftD [OF that] by (simp add: elem_entries_elems)
    then show ?thesis using 1(2) by auto
  qed
  have "\<forall>x\<in>set (sub_entries 0 subs). cb (snd x) = cb' (snd x)" using 1(2) by simp
  note sub = 1(1) [OF _ _ this]
  have me: "marshall_elems cb b 0 (zip elems subs) d = marshall_elems cb' b 0 (zip elems subs) d" for b d
    by (rule marshall_elems_cong) (use el in blast)
  have mp: "marshall_payload sys_append cb (zip elems subs) d = marshall_payload sys_append cb' (zip elems subs) d" for d
    by (rule ext) (simp add: marshall_payload_def me Let_def)
  show ?case
    by (cases "g_callocs s = 0") (auto simp: me mp sub intro!: bind_out_cong)
next
  case (4 sys_append cb idx subs i depth dir subdirs s)
  show ?case
  proof (cases "depth \<ge> KND_ID_SIZE")
    case False
    have "\<forall>x\<in>set (idx_entries idx). cb (snd x) = cb' (snd x)" using 4(3) by force
    then have "traverse_marshall sys_append cb idx (Suc depth) s = traverse_marshall sys_append cb' idx (Suc depth) s"
      by (intro 4(1) [OF False])
    moreover have sub: "\<forall>x\<in>set (sub_entries (Suc j) subs). cb (snd x) = cb' (snd x)" using 4(3) by simp
    ultimately show ?thesis using False 4(2) [OF False sub] by (auto intro!: bind_out_cong)
  qed simp

qed auto

lemma charseq_renders:
  "cb_renders cs_val (\<lambda>seq out. if length (cs_val seq) < 2 ^ 64 then knd_charseq_marshall seq out else (Some Stuck, 0, out))"
proof (unfold cb_renders_def, intro allI impI)
  fix seq out n out'
  assume out: "out_ok out"
    and w: "(if length (cs_val seq) < 2 ^ 64 then knd_charseq_marshall seq out else (Some Stuck, 0, out)) = (None, n, out')"
  then have w: "kndOutput_write out (cs_val seq) = (None, out')" and n: "n = unat (out_size out' - out_size out)"
    and len: "length (cs_val seq) < 2 ^ 64"
    by (auto simp: knd_charseq_marshall_def split: prod.splits option.splits if_splits)
  note wrote = write_success [OF w out len]
  have "unat (out_size out') = unat (out_size out) + length (cs_val seq)"
    using arg_cong [where f = length, OF conjunct2 [OF wrote]] length_out_text [OF out] length_out_text [of out'] wrote by simp
  then show "out_ok out' \<and> out_text out' = out_text out @ cs_val seq \<and> n = length (cs_val seq)"
    using wrote n by (simp add: unat_sub word_le_nat_alt)
qed

section \<open>Properties\<close>

text \<open>C10: the strings of a repository are a list of different texts, and registering refines looking a text up or
  adding it at the end: the \<open>n\<close>-th string is decoded from the identifier of \<open>n\<close>; a text that is registered is
  found and nothing changes; a new one gets the next number. It fails only for lack of memory.\<close>
theorem charseq_fetch_refines:
  assumes "strs_rel r strs" and "val \<noteq> []" and "length strs < 62 ^ 8"
  shows "(\<forall>n<length strs. knd_charseq_decode (uid n) r = Inr (strs ! n)) \<and>
    (case knd_charseq_fetch val r of
       Inr (seq, r') \<Rightarrow>
         (case val_map strs val of
            Some s \<Rightarrow> seq = s \<and> r' = r
          | None \<Rightarrow> seq = \<lparr>cs_val = val, cs_numid = of_nat (length strs)\<rparr> \<and> strs_rel r' (strs @ [seq]))
     | Inl (e, r') \<Rightarrow> val_map strs val = None \<and> e \<noteq> Err knd_CONFLICT \<and> \<not> str_room r)"
proof
  show "\<forall>n<length strs. knd_charseq_decode (uid n) r = Inr (strs ! n)"
    using strs_decode [OF assms(1)] assms(3) by simp
  show "case knd_charseq_fetch val r of
       Inr (seq, r') \<Rightarrow>
         (case val_map strs val of
            Some s \<Rightarrow> seq = s \<and> r' = r
          | None \<Rightarrow> seq = \<lparr>cs_val = val, cs_numid = of_nat (length strs)\<rparr> \<and> strs_rel r' (strs @ [seq]))
     | Inl (e, r') \<Rightarrow> val_map strs val = None \<and> e \<noteq> Err knd_CONFLICT \<and> \<not> str_room r"
  proof (cases "val_map strs val")
    case None
    then show ?thesis using fetch_new [OF assms(1) None assms(2,3)] by (auto split: sum.splits prod.splits)
  qed (simp add: fetch_known [OF assms(1) _ assms(2)])
qed

text \<open>C12: as long as every string has its number, a text that is encoded for a set file is decoded to itself.\<close>
theorem string_code_roundtrip:
  assumes "strs_rel r strs" and "val \<noteq> []" and "length strs < 62 ^ 8"
    and "\<forall>n<length strs. cs_numid (strs ! n) = of_nat n" and "encode_charseq val r = Inr (key, r')"
  shows "\<exists>seq. knd_charseq_decode key r' = Inr seq \<and> cs_val seq = val"
proof -
  obtain seq r1 where r1: "knd_charseq_fetch val r = Inr (seq, r1)"
    and "(case knd_uid_create (cs_numid seq) of Inl e \<Rightarrow> Inl (e, r1)
       | Inr idbuf \<Rightarrow> if length idbuf > KND_ID_SIZE then Inl (Stuck, r1) else Inr (idbuf, r1)) = Inr (key, r')"
    using assms(5) unfolding encode_charseq_def bind_out_eq_Inr by blast
  then have seq: "knd_charseq_fetch val r = Inr (seq, r')" and key: "knd_uid_create (cs_numid seq) = Inr key"
    by (auto split: sum.splits if_splits)
  have code: "key = uid n" if "cs_numid seq = of_nat n" "n < 62 ^ 8" for n
    using uid_create_uid [of n] that key by simp
  show ?thesis
  proof (cases "val_map strs val")
    case None
    have "seq = \<lparr>cs_val = val, cs_numid = of_nat (length strs)\<rparr> \<and> strs_rel r' (strs @ [seq])"
      using fetch_new [OF assms(1) None assms(2,3), unfolded seq sum.case prod.case] .
    then have "strs_rel r' (strs @ [seq])" "cs_val seq = val" "cs_numid seq = of_nat (length strs)" by (blast, simp, simp)
    then show ?thesis using strs_decode [of r' "strs @ [seq]" "length strs"] code [of "length strs"] assms(3) by simp
  next
    case (Some s)
    then obtain n where n: "n < length strs" "s = strs ! n" "cs_val s = val"
      using val_map_Some by (metis in_set_conv_nth)
    then have "seq = s" "r' = r" using fetch_known [OF assms(1) Some assms(2)] seq by simp_all
    then show ?thesis using strs_decode [OF assms(1) n(1)] code [of n] n assms(3,4) by auto
  qed
qed

lemma marshall_idx_steps:
  assumes "marshall_idx sys_write sys_append idx path filename cb s = Inr (n, s')" and "out_ok (g_out s)"
    and "length path < 2 ^ 64" and "length filename < 2 ^ 64"
  obtains s1 where "out_ok (g_out s1)" "knd_write_file (sys_write (path @ filename)) (bytes_of ''GSP'') (g_file s) = (None, g_file s1)"
    "knd_shared_set_marshall (sys_append (path @ filename)) cb idx s1 = Inr (n, s')" "length (path @ filename) < 1024"
proof -
  obtain s1 s2 s3 s4 s5 where s: "g_put kndOutput_reset s = Inr ((), s1)" "g_put (\<lambda>out. kndOutput_write out path) s1 = Inr ((), s2)"
    "g_put (\<lambda>out. kndOutput_write out filename) s2 = Inr ((), s3)" "\<not> out_size (g_out s3) \<ge> 1024"
    "g_put kndOutput_reset s3 = Inr ((), s4)" "g_put (\<lambda>out. kndOutput_write out (bytes_of ''GSP'')) s4 = Inr ((), s5)"
    and m: "(case knd_write_file (sys_write (out_text (g_out s3))) (out_text (g_out s5)) (g_file s5) of
         (Some e, fs) \<Rightarrow> Inl (e, s5\<lparr>g_file := fs\<rparr>)
       | (None, fs) \<Rightarrow> knd_shared_set_marshall (sys_append (out_text (g_out s3))) cb idx (s5\<lparr>g_file := fs\<rparr>)) = Inr (n, s')"
    using assms(1) by (auto simp: marshall_idx_def bind_out_eq_Inr Let_def split: if_splits)
  note r1 = reset_empties [OF s(1) assms(2)]
  then have w2: "grew path s1 s2" using write_grows [OF s(2)] assms(3) by simp
  then have w3: "grew filename s2 s3" using write_grows [OF s(3)] assms(4) by (simp add: grew_def)
  have t3: "out_text (g_out s3) = path @ filename" "out_ok (g_out s3)" "g_file s3 = g_file s"
    using r1 w2 w3 by (simp_all add: grew_def)
  note r4 = reset_empties [OF s(5) t3(2)]
  have "length (bytes_of ''GSP'') < 2 ^ 64" by (simp add: bytes_of_def)
  then have w5: "grew (bytes_of ''GSP'') s4 s5" using write_grows [OF s(6)] r4 by simp
  then have t5: "out_text (g_out s5) = bytes_of ''GSP''" "out_ok (g_out s5)" "g_file s5 = g_file s"
    using r4 t3(3) by (simp_all add: grew_def)
  obtain fs where fs: "knd_write_file (sys_write (path @ filename)) (bytes_of ''GSP'') (g_file s) = (None, fs)"
    "knd_shared_set_marshall (sys_append (path @ filename)) cb idx (s5\<lparr>g_file := fs\<rparr>) = Inr (n, s')"
    using m t3(1) t5(1,3) by (auto split: prod.splits option.splits)
  have "unat (out_size (g_out s3)) < 1024" using s(4) by (simp add: word_le_nat_alt)
  then have "length (path @ filename) < 1024" using length_out_text [OF t3(2)] t3(1) by simp
  then show ?thesis using that [of "s5\<lparr>g_file := fs\<rparr>"] fs t5(2) by simp
qed

lemma fetch_idx_steps:
  assumes "fetch_str_idx sys_stat sys_open mem file_out path r = (None, r')" and "out_ok file_out" and "length path < 2 ^ 64"
  obtains st_size self t where "sys_stat (path @ bytes_of ''strings.gsp'') = Some st_size"
    "knd_shared_set_unmarshall_file sys_open knd_charseq_unmarshall (sr_idx r) (path @ bytes_of ''strings.gsp'') st_size
       \<lparr>r_obj = r, r_mem = mem, r_blocks = []\<rparr> = (None, self, t)"
    "r' = r_obj t\<lparr>sr_idx := (sr_idx (r_obj t))\<lparr>ss_path := ss_path self, ss_dir := ss_dir self,
       ss_num_elems := ss_num_elems self\<rparr>, sr_num_strs := ss_num_elems self\<rparr>"
proof -
  obtain o1 o2 out where o: "kndOutput_reset file_out = (None, o1)" "kndOutput_write o1 path = (None, o2)"
    "kndOutput_write o2 (bytes_of ''strings.gsp'') = (None, out)"
    using assms(1) by (auto simp: fetch_str_idx_def split: prod.splits option.splits dest!: then_step_None [THEN iffD1])
  have "length (bytes_of ''strings.gsp'') < 2 ^ 64" by (simp add: bytes_of_def)
  moreover have "out_ok o1 \<and> out_text o1 = []" using output_rtrim [OF assms(2)] o(1) by simp
  ultimately have "out_text out = path @ bytes_of ''strings.gsp''"
    using write_success [OF o(2)] write_success [OF o(3)] assms(3) by simp
  then show ?thesis using assms(1) o that
    by (auto simp: fetch_str_idx_def split: option.splits prod.splits)
qed

text \<open>The file system of a name: a write from the start leaves the bytes that were written.\<close>

definition posix_write :: "'f write_fun \<Rightarrow> ('f \<Rightarrow> byte list) \<Rightarrow> bool" where
  "posix_write sys_write contents \<longleftrightarrow>
     (\<forall>fs bs fs'. sys_write fs bs = (Written (int (length bs)), fs') \<longrightarrow> contents fs' = bs)"

lemma posix_write_file:
  "posix_write sys_write contents \<Longrightarrow> knd_write_file sys_write bs fs = (None, fs') \<Longrightarrow> contents fs' = bs"
  by (auto simp: knd_write_file_def posix_write_def split: prod.splits write_outcome.splits if_splits)

text \<open>The calls of the callback and what they make of an empty repository.\<close>

lemma read_strings:
  assumes "strs_rel r strs" and "ss_idx (sr_idx r) = Some idx" and "strs_rel r0 []" and "length strs < 62 ^ 8"
    and "o_calls knd_charseq_unmarshall (map (\<lambda>(key, e). (key, cs_val e)) (id_entries idx)) r0 = Inr ((), r1)"
  shows "vals_rel r1 (val_map (map unnumbered strs)) \<and> ids_rel r1 (id_map (map unnumbered strs))"
proof -
  let ?calls = "map (\<lambda>(key, e). (key, cs_val e)) (id_entries idx)"
  have ids: "ids_rel r (id_map strs)" and d: "distinct (map cs_val strs)" using assms(1) by (simp_all add: strs_rel_def)
  have idx: "idx_ok idx" "elem_at idx = id_map strs"
    using ids assms(2)
    by (auto simp: ids_rel_def shared_set_index_ok_def shared_set_ok_def shared_set_at_def fun_eq_iff)
  note E = entries_strs [OF idx d] and M = id_entries_map [OF idx(1)]
  have keys: "map fst ?calls = map fst (id_entries idx)" and vals: "map snd ?calls = map (cs_val \<circ> snd) (id_entries idx)"
    by (simp_all add: comp_def case_prod_beta)
  have "length k \<le> KND_ID_SIZE" if k: "(k, v) \<in> set ?calls" for k v
  proof -
    obtain e where "map_of (id_entries idx) k = Some e" using k M(1) by auto
    then obtain n where "n < length strs" "k = uid n" using M(2) idx(2) id_map_Some by metis
    then show ?thesis using length_uid [of n] assms(4) by simp
  qed
  then have short: "\<forall>(k, v)\<in>set ?calls. length k \<le> KND_ID_SIZE" by blast
  have empty: "vals_rel r0 Map.empty" "ids_rel r0 Map.empty"
    using assms(3) by (simp_all add: strs_rel_def val_map_def id_map_def)
  have distinct: "distinct (map fst ?calls)" "distinct (map snd ?calls)" unfolding keys vals by (rule M(1), rule E(2))
  note added = calls_added [OF assms(5) empty short distinct]
  have fst_map: "map (\<lambda>(k, v). (k, \<lparr>cs_val = v, cs_numid = 0\<rparr>)) ?calls = map (\<lambda>(k, e). (k, unnumbered e)) (id_entries idx)"
    by (auto simp: unnumbered_def)
  have idm: "map_of (map (\<lambda>(k, e). (k, unnumbered e)) (id_entries idx)) = id_map (map unnumbered strs)"
  proof
    fix key
    have "map_of (map (\<lambda>(k, e). (k, unnumbered e)) (id_entries idx)) key = map_option unnumbered (id_map strs key)"
      using M(2) idx(2) by (simp add: map_of_map)
    also have "\<dots> = id_map (map unnumbered strs) key"
      by (simp add: id_map_def zip_map2 map_of_map)
    finally show "map_of (map (\<lambda>(k, e). (k, unnumbered e)) (id_entries idx)) key = id_map (map unnumbered strs) key" .
  qed
  have valm: "map_of (map (\<lambda>(k, v). (v, \<lparr>cs_val = v, cs_numid = 0\<rparr>)) ?calls) = val_map (map unnumbered strs)"
  proof -
    let ?f = "\<lambda>s. (cs_val s, unnumbered s)"
    have calls: "map (\<lambda>(k, v). (v, \<lparr>cs_val = v, cs_numid = 0\<rparr>)) ?calls = map ?f (map snd (id_entries idx))"
      by (auto simp: unnumbered_def)
    have same: "map_of (map (\<lambda>s. (cs_val s, unnumbered s)) xs) = map_of (map (\<lambda>s. (cs_val s, unnumbered s)) ys)"
      if "set xs = set ys" "distinct (map cs_val xs)" "distinct (map cs_val ys)" for xs ys :: "kndCharSeq list"
      using that by (subst map_of_inject_set) (simp_all add: comp_def)
    have "distinct (map cs_val (map snd (id_entries idx)))" using E(2) by simp
    then have "map_of (map ?f (map snd (id_entries idx))) = map_of (map ?f strs)" by (rule same [OF E(1) _ d])
    moreover have "val_map (map unnumbered strs) = map_of (map ?f strs)" by (simp add: val_map_def comp_def)
    ultimately show ?thesis using calls by (simp only:)
  qed
  from added show ?thesis by (simp only: fst_map idm valm empty_map_add)
qed

text \<open>C11: the strings that are written to a file are those of the repository that reads it into its empty indices: each
  has its identifier and is found by its text. Only their numbers are lost, and are 0.\<close>
theorem strings_snapshot_roundtrip:
  assumes "strs_rel r strs" and "length strs < 62 ^ 8" and "\<forall>s\<in>set strs. cs_val s \<noteq> [] \<and> 0 \<notin> set (cs_val s) \<and> length (cs_val s) < 2 ^ 64"
    and "marshall_idx sys_write sys_append (sr_idx r) path (bytes_of ''strings.gsp'') knd_charseq_marshall s = Inr (n, s')"
    and "out_ok (g_out s)" and "length path < 2 ^ 64"
    and "posix_write (sys_write (path @ bytes_of ''strings.gsp'')) contents"
    and "posix_append (sys_append (path @ bytes_of ''strings.gsp'')) contents"
    and "fetch_str_idx sys_stat sys_open mem file_out path r0 = (None, r')" and "strs_rel r0 []" and "out_ok file_out"
    and "sys_stat (path @ bytes_of ''strings.gsp'') = Some (length (contents (g_file s')))"
    and "sys_open (path @ bytes_of ''strings.gsp'') = Some sys_read"
    and "posix_read (contents (g_file s')) sys_read" and "length (contents (g_file s')) < 2 ^ 31"
    and "sm_mempool mem = None" and "\<forall>idx. ss_idx (sr_idx r) = Some idx \<longrightarrow> read_allocs idx < sm_callocs mem"
  shows "strs_rel r' (map unnumbered strs)"
proof -
  let ?name = "path @ bytes_of ''strings.gsp''"
  have ids: "ids_rel r (id_map strs)" and d: "distinct (map cs_val strs)" using assms(1) by (simp_all add: strs_rel_def)
  obtain idx where idx: "ss_idx (sr_idx r) = Some idx" "idx_ok idx" "elem_at idx = id_map strs" "idx_height idx \<le> 8"
    using ids by (auto simp: ids_rel_def shared_set_index_ok_def shared_set_ok_def shared_set_at_def idx_low_def fun_eq_iff split: option.splits)
  note E = entries_strs [OF idx(2,3) d]
  have ent: "cs_val (snd x) \<noteq> [] \<and> 0 \<notin> set (cs_val (snd x)) \<and> length (cs_val (snd x)) < 2 ^ 64" if "x \<in> set (idx_entries idx)" for x
  proof -
    have "snd x \<in> set (map snd (id_entries idx))" using that by (auto simp: id_entries_def image_iff intro!: bexI [of _ x])
    then show ?thesis using assms(3) E(1) by auto
  qed
  then have ok: "entries_ok cs_val (idx_entries idx)" by (auto simp: entries_ok_def list_all_iff)
  have "length (bytes_of ''strings.gsp'') < 2 ^ 64" by (simp add: bytes_of_def)
  then obtain s1 where s1: "out_ok (g_out s1)" "knd_write_file (sys_write ?name) (bytes_of ''GSP'') (g_file s) = (None, g_file s1)"
    "knd_shared_set_marshall (sys_append ?name) knd_charseq_marshall (sr_idx r) s1 = Inr (n, s')" "length ?name < 1024"
    by (rule marshall_idx_steps [OF assms(4-6)])
  let ?cb = "\<lambda>seq out. if length (cs_val seq) < 2 ^ 64 then knd_charseq_marshall seq out else (Some Stuck, 0, out)"
  have "traverse_marshall (sys_append ?name) knd_charseq_marshall idx 0 s1 = traverse_marshall (sys_append ?name) ?cb idx 0 s1"
    by (rule traverse_marshall_cong(1)) (use ent in auto)
  then obtain dir where "traverse_marshall (sys_append ?name) ?cb idx 0 s1 = Inr (dir, s')"
    using s1(3) idx(1) by (auto simp: knd_shared_set_marshall_def bind_out_eq_Inr)
  from marshall_files(1) [OF this idx(2) charseq_renders assms(8) s1(1)] posix_write_file [OF assms(7) s1(2)]
  have img: "contents (g_file s') = bytes_of ''GSP'' @ block_bytes cs_val idx" by simp
  obtain self t where t: "knd_shared_set_unmarshall_file sys_open knd_charseq_unmarshall (sr_idx r0) ?name
       (length (contents (g_file s'))) \<lparr>r_obj = r0, r_mem = mem, r_blocks = []\<rparr> = (None, self, t)"
    and r': "r' = r_obj t\<lparr>sr_idx := (sr_idx (r_obj t))\<lparr>ss_path := ss_path self, ss_dir := ss_dir self,
       ss_num_elems := ss_num_elems self\<rparr>, sr_num_strs := ss_num_elems self\<rparr>"
    by (rule fetch_idx_steps [OF assms(9,11,6)]) (use assms(12) in auto)
  have len: "length (bytes_of ''GSP'') = 3" "length ?name \<le> 1024" using s1(4) by (simp_all add: bytes_of_def)
  have mem: "sm_mempool (r_mem \<lparr>r_obj = r0, r_mem = mem, r_blocks = []\<rparr>) = None"
    "read_allocs idx < sm_callocs (r_mem \<lparr>r_obj = r0, r_mem = mem, r_blocks = []\<rparr>)"
    using assms(16,17) idx(1) by simp_all
  note reads = unmarshall_file_reads [where sys_open = sys_open and filename = ?name and header = "bytes_of ''GSP''" and img = "contents (g_file s')" and t = "\<lparr>r_obj = r0, r_mem = mem, r_blocks = []\<rparr>",
      OF idx(2,4) ok assms(13) len(2) assms(14) img len(1) assms(15) mem, where cb = knd_charseq_unmarshall and self = "sr_idx r0"]
  then have calls: "o_calls knd_charseq_unmarshall (map (\<lambda>(key, e). (key, cs_val e)) (id_entries idx)) r0 = Inr ((), r_obj t)"
    and num: "ss_num_elems self = of_nat (length (id_entries idx))"
    using t by (auto split: sum.splits)
  have "sr_num_strs r' = of_nat (length strs)" using r' num E(3) by simp
  then show ?thesis
    using read_strings [OF assms(1) idx(1) assms(10,2) calls] d r' vals_rel_cong [of r' "r_obj t"] ids_rel_cong [of r' "r_obj t"]
    by (simp add: strs_rel_def comp_def)
qed

text \<open>C13: after the strings were read from a file every text is encoded as the first string: what the next snapshot
  writes in its place is decoded to another text.\<close>
theorem string_code_lost:
  assumes "strs_rel r (map unnumbered strs)" and "n < length strs" and "length strs \<le> 62 ^ 8" and "cs_val (strs ! n) \<noteq> []"
  shows "encode_charseq (cs_val (strs ! n)) r = Inr (uid 0, r) \<and>
    knd_charseq_decode (uid 0) r = Inr (unnumbered (strs ! 0)) \<and>
    (n = 0 \<or> cs_val (unnumbered (strs ! 0)) \<noteq> cs_val (strs ! n))"
proof (intro conjI)
  have d: "distinct (map cs_val strs)" using assms(1) by (simp add: strs_rel_def comp_def)
  then have "distinct (map cs_val (map unnumbered strs))" by (simp add: comp_def)
  from val_map_nth [OF this] have "val_map (map unnumbered strs) (cs_val (strs ! n)) = Some (unnumbered (strs ! n))"
    using assms(2) by force
  from fetch_known [OF assms(1) this assms(4)]
  show "encode_charseq (cs_val (strs ! n)) r = Inr (uid 0, r)"
    using uid_create_uid [of 0] length_uid [of 0] by (simp add: encode_charseq_def)
  have "strs \<noteq> []" using assms(2) by auto
  then show "knd_charseq_decode (uid 0) r = Inr (unnumbered (strs ! 0))" using strs_decode [OF assms(1), of 0] assms(3) by simp
  show "n = 0 \<or> cs_val (unnumbered (strs ! 0)) \<noteq> cs_val (strs ! n)"
    using nth_eq_iff_index_eq [OF d, of 0 n] assms(2) \<open>strs \<noteq> []\<close> by auto
qed

section \<open>Samples\<close>

text \<open>A repository with the strings \<open>a\<close> and \<open>b\<close>, the second with a number, and an empty one.\<close>

definition sample_seqs :: "size_t \<Rightarrow> kndCharSeq list" where
  "sample_seqs n = [\<lparr>cs_val = [97], cs_numid = 0\<rparr>, \<lparr>cs_val = [98], cs_numid = n\<rparr>]"

definition seq_item :: "kndCharSeq \<Rightarrow> (kndCharSeq, nat) kndSharedDictItem" where
  "seq_item s = \<lparr>sd_addr = 0, sd_phase = KND_SHARED_DICT_VALID, sd_key = cs_val s, sd_data = Some s, sd_states = []\<rparr>"

definition strs_repo :: "(kndCharSeq, nat) kndSharedDictItem list \<Rightarrow> kndCharSeq elem_idx \<Rightarrow> size_t \<Rightarrow> str_repo" where
  "strs_repo items idx n = \<lparr>sr_dict = (knd_shared_dict_new 1)\<lparr>sd_hash_array := [items], sd_num_items := n\<rparr>,
     sr_idx = (new_set idx)\<lparr>ss_num_elems := n, ss_num_valid_elems := n\<rparr>, sr_num_strs = n, sr_mempool = small_pool,
     sr_mem = \<lparr>sm_mempool = None, sm_callocs = 8\<rparr>\<rparr>"

definition sample_strs_idx :: "size_t \<Rightarrow> kndCharSeq elem_idx" where
  "sample_strs_idx n = Elem_Idx ((replicate 62 None)[0 := Some (sample_seqs n ! 0), 1 := Some (sample_seqs n ! 1)]) (replicate 62 None)"

definition sample_strs :: "size_t \<Rightarrow> str_repo" where
  "sample_strs n = strs_repo (map seq_item (sample_seqs n)) (sample_strs_idx n) 2"

definition empty_strs :: str_repo where
  "empty_strs = strs_repo [] empty_idx 0"

lemma strs_repo_rel:
  assumes "idx_ok idx" and "idx_height idx \<le> 8" and "elem_at idx = id_map strs" and "distinct (map cs_val strs)"
    and "n = of_nat (length strs)"
  shows "strs_rel (strs_repo (map seq_item strs) idx n) strs"
proof -
  have slot: "shared_index (sr_dict (strs_repo (map seq_item strs) idx n)) k = 0" for k
    by (simp add: shared_index_def strs_repo_def knd_shared_dict_new_def)
  have find: "find_shared k (map seq_item strs) = map_option seq_item (val_map strs k)" for k
    by (induction strs) (auto simp: val_map_def seq_item_def)
  have found: "shared_found (sr_dict (strs_repo (map seq_item strs) idx n)) k = map_option seq_item (val_map strs k)" for k
    using slot [of k] find [of k] by (simp add: shared_found_def strs_repo_def)
  have "vals_rel (strs_repo (map seq_item strs) idx n) (val_map strs)"
    unfolding vals_rel_def shared_index_ok_def
  proof (intro conjI allI impI ext)
    show "shared_ok (fst (sr_dict (strs_repo (map seq_item strs) idx n), sr_mempool (strs_repo (map seq_item strs) idx n)))"
      by (simp add: shared_ok_def strs_repo_def knd_shared_dict_new_def)
    show "shared_lookup (sr_dict (strs_repo (map seq_item strs) idx n), sr_mempool (strs_repo (map seq_item strs) idx n)) k =
        val_map strs k" for k
      by (cases "val_map strs k") (simp_all add: shared_lookup_def shared_map_def live_shared_def found, simp_all add: seq_item_def)
  qed (auto simp: found, auto simp: seq_item_def)
  moreover have "ids_rel (strs_repo (map seq_item strs) idx n) (id_map strs)"
    using assms(1-3)
    by (simp add: ids_rel_def shared_set_index_ok_def shared_set_ok_def shared_set_at_def idx_low_def strs_repo_def new_set_def fun_eq_iff)
  ultimately show ?thesis using assms(4,5) by (simp add: strs_rel_def strs_repo_def)
qed

lemma empty_strs_rel: "strs_rel empty_strs []"
proof -
  have "elem_at empty_idx = (id_map [] :: byte list \<Rightarrow> kndCharSeq option)"
    by (auto simp: id_map_def elem_at_def fun_eq_iff valid_id_def intro!: lookup_empty digits_id_digits)
  then show ?thesis using strs_repo_rel [of empty_idx "[]" 0] idx_ok_empty by (simp add: empty_strs_def)
qed

lemma sample_strs_rel: "strs_rel (sample_strs n) (sample_seqs n)"
  unfolding sample_strs_def
proof (rule strs_repo_rel)
  show ok: "idx_ok (sample_strs_idx n)" by (simp add: sample_strs_idx_def subs_ok_iff)
  show "idx_height (sample_strs_idx n) \<le> 8" by (simp add: sample_strs_idx_def subs_height_replicate)
  have "id_entries (sample_strs_idx n) = zip (map uid [0..<2]) (sample_seqs n)"
    by code_simp
  moreover have "length (sample_seqs n) = 2" by (simp add: sample_seqs_def)
  ultimately show "elem_at (sample_strs_idx n) = id_map (sample_seqs n)"
    using id_entries_map(2) [OF ok] by (simp only: id_map_def)
qed (simp_all add: sample_seqs_def)

definition pool_space :: "nat \<Rightarrow> kndMemPool \<Rightarrow> bool" where
  "pool_space k m \<longleftrightarrow> pool_ready m \<and> 48 \<le> pc_page_size (mp_tiny m) \<and> k \<le> length (pages_left KND_MEMPAGE_TINY m)"

lemma space_draw:
  assumes "pool_space (Suc k) m"
  obtains p m' where "knd_mempool_page m KND_MEMPAGE_TINY = Inr (p, m')" "pool_space k m'"
    "\<not> pc_page_size (mp_tiny m) < 48" "\<not> pc_page_size (mp_tiny m) < 40"
proof -
  have space: "pool_ready m" "Suc k \<le> length (pages_left KND_MEMPAGE_TINY m)" "48 \<le> pc_page_size (mp_tiny m)"
    using assms by (simp_all add: pool_space_def)
  show ?thesis by (rule pool_draw [OF space(1,2)]) (use that page_48 [OF space(3)] space(3) in \<open>simp add: pool_space_def\<close>)
qed

lemma register_by_val_space:
  assumes "vals_rel r m" and "m (cs_val seq) = None" and "pool_space (Suc k) (sr_mempool r)"
  obtains r' where "register_by_val seq r = (None, r')" "pool_space k (sr_mempool r')"
proof -
  obtain p m' where page: "knd_mempool_page (sr_mempool r) KND_MEMPAGE_TINY = Inr (p, m')" "pool_space k m'"
    "\<not> pc_page_size (mp_tiny (sr_mempool r)) < 48" by (rule space_draw [OF assms(3)])
  then have item: "\<exists>item. make_item (sr_mempool r) (cs_val seq) (Some seq) (None :: nat option) = (Inr item, m')"
    by (simp add: make_item_def shared_item_new_def)
  have ok: "shared_index_ok (sr_dict r, sr_mempool r)" and free: "shared_lookup (sr_dict r, sr_mempool r) (cs_val seq) = None"
    using assms(1,2) by (simp_all add: vals_rel_def)
  have dict: "shared_ok (sr_dict r)" using ok by (simp add: shared_index_ok_def)
  show ?thesis
  proof (rule shared_set_cases [OF dict, of "cs_val seq" False "Some seq" "sr_mempool r" None], goal_cases)
    case (1 item)
    then show ?thesis using free shared_lookup_None [OF ok, of "cs_val seq"] by simp
  next
    case (2 e' p')
    then show ?thesis using item by simp
  next
    case (3 item p' d')
    then show ?thesis using that item page(2) by (simp add: register_by_val_def)
  qed
qed

text \<open>A string with an identifier of one digit takes two pages and no node.\<close>

lemma unmarshall_space:
  assumes "vals_rel r vm" and "ids_rel r im" and "vm val = None" and "im [c] = None" and "valid_digit c"
    and "pool_space (Suc (Suc k)) (sr_mempool r)"
  obtains s r' where "knd_charseq_unmarshall [c] val r = Inr (s, r')" "pool_space k (sr_mempool r')"
proof -
  obtain p m where m: "knd_charseq_new (sr_mempool r) = Inr (p, m)" "pool_space (Suc k) m"
    by (rule space_draw [OF assms(6)]) (simp add: knd_charseq_new_def)
  let ?s = "\<lparr>cs_val = val, cs_numid = 0\<rparr> :: kndCharSeq" let ?r = "r\<lparr>sr_mempool := m\<rparr>"
  have ok: "shared_set_ok (sr_idx r)" "\<not> ss_allow_overwrite (sr_idx r)" "shared_set_at (sr_idx r) = im"
    using assms(2) by (simp_all add: ids_rel_def shared_set_index_ok_def)
  obtain root where root: "ss_idx (sr_idx r) = Some root" "idx_ok root"
    using ok(1) by (auto simp: shared_set_ok_def split: option.splits)
  obtain es ss where "root = Elem_Idx es ss" by (cases root)
  with root have idx: "ss_idx (sr_idx r) = Some (Elem_Idx es ss)" "idx_ok (Elem_Idx es ss)" by simp_all
  have "im [c] = lookup (Elem_Idx es ss) (id_digits [c])"
    using idx assms(5) unfolding ok(3) [symmetric] by (simp add: shared_set_at_def elem_at_def valid_id_def)
  then have "es ! nat (id_pos c) = None" using assms(4) by (simp add: id_digits_def)
  then obtain r1 where r1: "register_by_id [c] ?s ?r = (None, r1)" "sr_mempool r1 = m"
    using idx(1) ok(2) assms(5) by (simp add: register_by_id_def knd_shared_set_add_def shared_save_elem_def valid_digit_def)
  have "ids_rel ?r im" using assms(2) by (simp add: ids_rel_def shared_set_index_ok_def)
  from register_by_id_added [OF r1(1) this] have "vals_rel r1 vm" using assms(1) vals_rel_cong [of r1 r] by simp
  then obtain r2 where "register_by_val ?s r1 = (None, r2)" "pool_space k (sr_mempool r2)"
    by (rule register_by_val_space [where seq = ?s]) (use assms(3) m(2) r1(2) in simp_all)
  then show ?thesis using m(1) r1(1) that by (simp add: knd_charseq_unmarshall_def Let_def)
qed

lemma small_pool_space: "pool_space 4 small_pool"
proof -
  have "pool_ready small_pool" using small_pool_ok(1) by (simp add: index_pool_def nodes_ready_def)
  moreover have "48 \<le> pc_page_size (mp_tiny small_pool)" by (simp add: small_pool_def)
  ultimately show ?thesis using small_pool_ok(2) by (simp add: pool_space_def)
qed

lemma sample_room: "str_room (sample_strs n)"
  using small_pool_space by (simp add: str_room_def pool_space_def sample_strs_def strs_repo_def mem_ready_def mem_left_def)

definition demo_write :: "byte list write_fun" where
  "demo_write fs bs = (Written (int (length bs)), bs)"

definition demo_file :: "byte list" where
  "demo_file = [71, 83, 80, 48, 97, 0, 49, 98, 0, 1, 7, 1]"

definition sample_strs_set :: "kndCharSeq kndSharedSet" where
  "sample_strs_set = (new_set (sample_strs_idx 1))\<lparr>ss_num_elems := 2, ss_num_valid_elems := 2\<rparr>"

lemma sample_set: "sr_idx (sample_strs 1) = sample_strs_set"
  by (simp add: sample_strs_def strs_repo_def sample_strs_set_def)

lemma demo_strs_marshall:
  "\<exists>n s. marshall_idx (\<lambda>_. demo_write) (\<lambda>_. demo_append) (sr_idx (sample_strs 1)) [] (bytes_of ''strings.gsp'')
     knd_charseq_marshall demo_state = Inr (n, s) \<and> g_file s = demo_file"
proof -
  have "case marshall_idx (\<lambda>_. demo_write) (\<lambda>_. demo_append) sample_strs_set [] (bytes_of ''strings.gsp'')
     knd_charseq_marshall demo_state of Inl _ \<Rightarrow> False | Inr (n, s) \<Rightarrow> g_file s = demo_file"
    by code_simp
  then show ?thesis unfolding sample_set by (auto split: sum.splits)
qed

lemma demo_strs_calls:
  "\<exists>r. o_calls knd_charseq_unmarshall (map (\<lambda>(key, e). (key, cs_val e)) (id_entries (sample_strs_idx 1))) empty_strs = Inr ((), r)"
proof -
  have calls: "map (\<lambda>(key, e). (key, cs_val e)) (id_entries (sample_strs_idx 1)) = [([48], [97]), ([49], [98])]"
    by code_simp
  have digits: "valid_digit 48" "valid_digit 49" by code_simp+
  have rel: "vals_rel empty_strs Map.empty" "ids_rel empty_strs Map.empty"
    using empty_strs_rel by (simp_all add: strs_rel_def val_map_def id_map_def)
  have space: "pool_space (Suc (Suc 2)) (sr_mempool empty_strs)" using small_pool_space by (simp add: empty_strs_def strs_repo_def numeral_eq_Suc)
  obtain s1 r1 where r1: "knd_charseq_unmarshall [48] [97] empty_strs = Inr (s1, r1)" "pool_space 2 (sr_mempool r1)"
    by (rule unmarshall_space [OF rel _ _ digits(1) space, of "[97]"]) simp_all
  have short: "length [48::byte] \<le> KND_ID_SIZE" by simp
  have rel1: "vals_rel r1 [[97] \<mapsto> s1]" "ids_rel r1 [[48] \<mapsto> s1]" using unmarshall_added [OF r1(1) rel short] by blast+
  have space1: "pool_space (Suc (Suc 0)) (sr_mempool r1)" using r1(2) by (simp add: numeral_eq_Suc)
  obtain s2 r2 where "knd_charseq_unmarshall [49] [98] r1 = Inr (s2, r2)"
    by (rule unmarshall_space [OF rel1 _ _ digits(2) space1, of "[98]"]) simp_all
  then show ?thesis unfolding calls using r1 by simp
qed

lemma demo_strs_fetch:
  "\<exists>r'. fetch_str_idx (\<lambda>_. Some 12) (\<lambda>_. Some (demo_read demo_file)) \<lparr>sm_mempool = None, sm_callocs = 6\<rparr> (g_out demo_state) []
     empty_strs = (None, r')"
proof -
  have name: "case then_step (kndOutput_reset (g_out demo_state)) (\<lambda>out.
       then_step (kndOutput_write out []) (\<lambda>out. kndOutput_write out (bytes_of ''strings.gsp''))) of
     (None, out) \<Rightarrow> out_text out = bytes_of ''strings.gsp'' | (Some _, _) \<Rightarrow> False" by code_simp
  have img: "demo_file = bytes_of ''GSP'' @ block_bytes cs_val (sample_strs_idx 1)" "length demo_file = 12"
    "idx_ok (sample_strs_idx 1)" "idx_height (sample_strs_idx 1) \<le> 8" "entries_ok cs_val (idx_entries (sample_strs_idx 1))"
    "read_allocs (sample_strs_idx 1) < 6" "length (bytes_of ''strings.gsp'') \<le> 1024" "length (bytes_of ''GSP'') = 3"
    by code_simp+
  obtain r where r: "o_calls knd_charseq_unmarshall (map (\<lambda>(key, e). (key, cs_val e)) (id_entries (sample_strs_idx 1))) empty_strs =
      Inr ((), r)" using demo_strs_calls by blast
  let ?t = "\<lparr>r_obj = empty_strs, r_mem = \<lparr>sm_mempool = None, sm_callocs = 6\<rparr>, r_blocks = []\<rparr>"
  have "\<exists>self t. knd_shared_set_unmarshall_file (\<lambda>_. Some (demo_read demo_file)) knd_charseq_unmarshall (sr_idx empty_strs)
      (bytes_of ''strings.gsp'') 12 ?t = (None, self, t)"
    using unmarshall_file_reads [where sys_open = "\<lambda>_. Some (demo_read demo_file)" and filename = "bytes_of ''strings.gsp''" and
        sys_read = "demo_read demo_file" and header = "bytes_of ''GSP''" and img = demo_file and t = ?t and cb = knd_charseq_unmarshall and self = "sr_idx empty_strs",
        OF img(3-5) refl img(7) demo_posix(2) img(1,8)] img(2,6) r by auto
  then show ?thesis using name by (auto simp: fetch_str_idx_def split: option.splits prod.splits)
qed

theorem charseq_fetch_refines_witness:
  "\<exists>seq r'. knd_charseq_fetch [99] (sample_strs 1) = Inr (seq, r') \<and> cs_numid seq = 2 \<and> strs_rel r' (sample_seqs 1 @ [seq])"
proof -
  have len: "length (sample_seqs 1) = 2" "val_map (sample_seqs 1) [99] = None" by (simp_all add: sample_seqs_def val_map_def)
  then show ?thesis using charseq_fetch_refines [OF sample_strs_rel [of 1], of "[99]"] sample_room
    by (auto split: sum.splits prod.splits)
qed

theorem string_code_roundtrip_witness:
  "\<exists>key seq. encode_charseq [98] (sample_strs 1) = Inr (key, sample_strs 1) \<and> knd_charseq_decode key (sample_strs 1) = Inr seq \<and>
     cs_val seq = [98]"
proof -
  have known: "knd_charseq_fetch [98] (sample_strs 1) = Inr (\<lparr>cs_val = [98], cs_numid = 1\<rparr>, sample_strs 1)"
    by (rule fetch_known [OF sample_strs_rel]) (simp_all add: sample_seqs_def val_map_def)
  have "encode_charseq [98] (sample_strs 1) = Inr (uid 1, sample_strs 1)"
    using known uid_create_uid [of 1] length_uid [of 1] by (simp add: encode_charseq_def)
  moreover have "cs_numid (sample_seqs 1 ! n) = of_nat n" if "n < length (sample_seqs 1)" for n
    using that by (cases n) (simp_all add: sample_seqs_def)
  ultimately show ?thesis using string_code_roundtrip [OF sample_strs_rel [of 1], of "[98]" "uid 1" "sample_strs 1"]
    by (auto simp: sample_seqs_def)
qed

theorem string_code_lost_witness:
  "encode_charseq [98] (sample_strs 0) = Inr (uid 0, sample_strs 0) \<and>
   (\<exists>seq. knd_charseq_decode (uid 0) (sample_strs 0) = Inr seq \<and> cs_val seq \<noteq> [98])"
proof -
  have "strs_rel (sample_strs 0) (map unnumbered (sample_seqs 1))"
    using sample_strs_rel [of 0] by (simp add: sample_seqs_def unnumbered_def)
  from string_code_lost [OF this, of 1] show ?thesis by (simp add: sample_seqs_def)
qed

theorem strings_snapshot_roundtrip_witness:
  "\<exists>n s r'. marshall_idx (\<lambda>_. demo_write) (\<lambda>_. demo_append) (sr_idx (sample_strs 1)) [] (bytes_of ''strings.gsp'')
     knd_charseq_marshall demo_state = Inr (n, s) \<and>
   fetch_str_idx (\<lambda>_. Some 12) (\<lambda>_. Some (demo_read (g_file s))) \<lparr>sm_mempool = None, sm_callocs = 6\<rparr> (g_out demo_state) []
     empty_strs = (None, r') \<and> strs_rel r' (map unnumbered (sample_seqs 1))"
proof -
  obtain n s where m: "marshall_idx (\<lambda>_. demo_write) (\<lambda>_. demo_append) (sr_idx (sample_strs 1)) [] (bytes_of ''strings.gsp'')
     knd_charseq_marshall demo_state = Inr (n, s)" "g_file s = demo_file" using demo_strs_marshall by blast
  obtain r' where r': "fetch_str_idx (\<lambda>_. Some 12) (\<lambda>_. Some (demo_read (g_file s))) \<lparr>sm_mempool = None, sm_callocs = 6\<rparr>
     (g_out demo_state) [] empty_strs = (None, r')" using demo_strs_fetch m(2) by auto
  have facts: "out_ok (g_out demo_state)" "length (id demo_file) = 12" "read_allocs (sample_strs_idx 1) < 6" by code_simp+
  have idx: "ss_idx (sr_idx (sample_strs 1)) = Some (sample_strs_idx 1)" by (simp add: sample_strs_def strs_repo_def new_set_def)
  have wr: "posix_write demo_write id" by (simp add: posix_write_def demo_write_def)
  have "strs_rel r' (map unnumbered (sample_seqs 1))"
    by (rule strings_snapshot_roundtrip [OF sample_strs_rel _ _ m(1) facts(1) _ _ _ r' empty_strs_rel facts(1), where contents = id])
      (use m(2) facts idx wr demo_posix in \<open>auto simp: sample_seqs_def\<close>)
  then show ?thesis using m(1) r' by blast
qed

end
