(* ===== verification/Proc_Heap.thy ===== *)
theory Proc_Heap
  imports Class_Heap
begin

text \<open>
  Finding procedures and their arguments, inheritance between procedures, cloning an entry for another repository
  and the commit of a state: \<^verbatim>\<open>src/knd_proc.c\<close>.
\<close>

definition update_proc :: "nat \<Rightarrow> (kndProc \<Rightarrow> kndProc) \<Rightarrow> class_heap \<Rightarrow> class_heap" where
  "update_proc p f h = h\<lparr>ch_procs := (ch_procs h)(p := f (ch_procs h p))\<rparr>"

definition update_proc_entry :: "nat \<Rightarrow> (kndProcEntry \<Rightarrow> kndProcEntry) \<Rightarrow> class_heap \<Rightarrow> class_heap" where
  "update_proc_entry e f h = h\<lparr>ch_proc_entries := (ch_proc_entries h)(e := f (ch_proc_entries h e))\<rparr>"

section \<open>Finding a procedure\<close>

text \<open>The repository and then its base repositories, the nearest first.\<close>

fun get_proc_in :: "nat list \<Rightarrow> byte list \<Rightarrow> class_heap \<Rightarrow> (class_heap, nat) outcome" where
  "get_proc_in [] name h = Inl (Err knd_NO_MATCH, h)"
| "get_proc_in (repo # bases) name h =
     (case knd_shared_dict_get (ch_proc_name_idx h repo) name of
        Inl e \<Rightarrow> Inl (e, h)
      | Inr None \<Rightarrow> get_proc_in bases name h
      | Inr (Some entry) \<Rightarrow>
          if pe_phase (ch_proc_entries h entry) = KND_REMOVED then Inl (Err knd_NO_MATCH, h)
          else
            (case pe_proc (ch_proc_entries h entry) of
               Some proc \<Rightarrow> Inr (proc, update_proc_entry entry (\<lambda>e. e\<lparr>pe_phase := KND_SELECTED\<rparr>) h)
             | None \<Rightarrow> Inl (Err knd_FAIL, h)))"

definition knd_get_proc :: "nat \<Rightarrow> byte list \<Rightarrow> class_heap \<Rightarrow> (class_heap, nat) outcome" where
  "knd_get_proc repo name h = get_proc_in (repo # ch_repo_bases h repo) name h"

fun get_proc_entry_in :: "nat list \<Rightarrow> byte list \<Rightarrow> class_heap \<Rightarrow> nat result" where
  "get_proc_entry_in [] name h = Inl (Err knd_NO_MATCH)"
| "get_proc_entry_in (repo # bases) name h =
     (case knd_shared_dict_get (ch_proc_name_idx h repo) name of
        Inl e \<Rightarrow> Inl e
      | Inr None \<Rightarrow> get_proc_entry_in bases name h
      | Inr (Some entry) \<Rightarrow> Inr entry)"

definition knd_get_proc_entry :: "nat \<Rightarrow> byte list \<Rightarrow> class_heap \<Rightarrow> nat result" where
  "knd_get_proc_entry repo name h = get_proc_entry_in (repo # ch_repo_bases h repo) name h"

section \<open>Inheritance\<close>

text \<open>Whether \<open>self\<close> is among the ancestors of \<open>child\<close>, or the procedure that \<open>self\<close> was cloned from is.\<close>

fun proc_base_in :: "nat \<Rightarrow> nat option \<Rightarrow> (nat \<times> nat) list \<Rightarrow> class_heap \<Rightarrow> failure option" where
  "proc_base_in self orig [] h = Some (Err knd_FAIL)"
| "proc_base_in self orig ((proc, _) # refs) h =
     (if proc = self then None
      else
        (case orig of
           None \<Rightarrow> proc_base_in self orig refs h
         | Some entry \<Rightarrow> if pe_proc (ch_proc_entries h entry) = Some proc then None else proc_base_in self orig refs h))"

definition knd_proc_is_base :: "nat \<Rightarrow> nat \<Rightarrow> class_heap \<Rightarrow> failure option" where
  "knd_proc_is_base self child h =
     proc_base_in self (pe_orig (ch_proc_entries h (po_entry (ch_procs h self))))
       (pe_ancestors (ch_proc_entries h (po_entry (ch_procs h child)))) h"

section \<open>Arguments\<close>

text \<open>The references of a name in the repository, or else in its base repository.\<close>

definition arg_refs_of :: "nat \<Rightarrow> byte list \<Rightarrow> class_heap \<Rightarrow> nat list option result" where
  "arg_refs_of repo name h =
     bind_result (knd_shared_dict_get (rp_name_idx (ch_repo_args h repo)) name) (\<lambda>refs.
       case (refs, ch_repo_bases h repo) of
         (None, base # _) \<Rightarrow> knd_shared_dict_get (rp_name_idx (ch_repo_args h base)) name
       | _ \<Rightarrow> Inr refs)"

text \<open>If no reference is of \<open>self\<close> or of an ancestor, the last one counts.\<close>

fun select_arg :: "nat \<Rightarrow> nat list \<Rightarrow> nat option \<Rightarrow> class_heap \<Rightarrow> nat option" where
  "select_arg self [] arg h = arg"
| "select_arg self (ref # refs) arg h =
     (let r = ch_arg_refs h ref in
      if gr_proc r = self \<or> knd_proc_is_base (gr_proc r) self h = None then Some (gr_arg r)
      else select_arg self refs (Some (gr_arg r)) h)"

definition knd_proc_get_arg :: "nat \<Rightarrow> byte list \<Rightarrow> class_heap \<Rightarrow> nat result" where
  "knd_proc_get_arg self name h =
     bind_result (arg_refs_of (pe_repo (ch_proc_entries h (po_entry (ch_procs h self)))) name h) (\<lambda>refs.
       case refs of
         None \<Rightarrow> Inl (Err knd_NO_MATCH)
       | Some refs \<Rightarrow>
           (case select_arg self refs None h of
              None \<Rightarrow> Inl (Err knd_NO_MATCH)
            | Some arg \<Rightarrow>
                (case po_arg_idx (ch_procs h self) of
                   None \<Rightarrow> Inl Stuck
                 | Some arg_idx \<Rightarrow>
                     (case knd_set_get (ch_sets h arg_idx) (pa_id (ch_args h arg)) of
                        Inl e \<Rightarrow> Inl (if e = Stuck then Stuck else Err knd_NO_MATCH)
                      | Inr ref \<Rightarrow> Inr ref))))"

section \<open>Cloning\<close>

text \<open>The clone has the procedure itself and its ancestors. \<open>user\<close> tells whether the task has a user.\<close>

definition proc_clone_pool :: "bool \<Rightarrow> class_heap \<Rightarrow> kndMemPool" where
  "proc_clone_pool user h = (if user then ch_shard_user_mempool h else ch_mempool h)"

definition set_proc_clone_pool :: "bool \<Rightarrow> kndMemPool \<Rightarrow> class_heap \<Rightarrow> class_heap" where
  "set_proc_clone_pool user mempool h = (if user then h\<lparr>ch_shard_user_mempool := mempool\<rparr> else h\<lparr>ch_mempool := mempool\<rparr>)"

definition cloned_proc_entry :: "kndProcEntry \<Rightarrow> nat \<Rightarrow> nat \<Rightarrow> kndProcEntry" where
  "cloned_proc_entry e self repo =
     cleared_proc_entry\<lparr>pe_repo := repo, pe_orig := Some self, pe_proc := pe_proc e, pe_name := pe_name e,
       pe_ancestors := pe_ancestors e, pe_num_ancestors := pe_num_ancestors e, pe_descendants := pe_descendants e\<rparr>"

definition knd_proc_entry_clone :: "bool \<Rightarrow> nat \<Rightarrow> nat \<Rightarrow> nat \<Rightarrow> class_heap \<Rightarrow> (class_heap, nat) outcome" where
  "knd_proc_entry_clone user self repo commit h =
     (case knd_proc_entry_new (proc_clone_pool user h) of
        Inl e \<Rightarrow> Inl (e, h)
      | Inr (entry, mempool) \<Rightarrow>
          (let h = update_proc_entry entry (\<lambda>_. cloned_proc_entry (ch_proc_entries h self) self repo)
                 (set_proc_clone_pool user mempool h) in
           case knd_shared_dict_set (ch_proc_name_idx h repo) (pe_name (ch_proc_entries h entry)) (Some entry)
               (proc_clone_pool user h) (Some commit) False of
             (err, item, name_idx, mempool) \<Rightarrow>
               (let h = set_proc_clone_pool user mempool (h\<lparr>ch_proc_name_idx := (ch_proc_name_idx h)(repo := name_idx)\<rparr>) in
                case err of
                  Some e \<Rightarrow> Inl (e, h)
                | None \<Rightarrow> Inr (entry, update_proc_entry entry (\<lambda>e. e\<lparr>pe_dict_item := item\<rparr>) h))))"

section \<open>States\<close>

definition proc_commit_state :: "nat \<Rightarrow> knd_state_phase \<Rightarrow> nat \<Rightarrow> class_heap \<Rightarrow> (class_heap, kndState) outcome" where
  "proc_commit_state self phase commit h =
     (case commit_state [] phase commit (ch_mempool h) of
        Inl e \<Rightarrow> Inl (e, h)
      | Inr (state, mempool) \<Rightarrow>
          Inr (state, update_proc self (\<lambda>p. p\<lparr>po_states := state # po_states p\<rparr>) (h\<lparr>ch_mempool := mempool\<rparr>)))"

definition knd_proc_commit_state ::
  "nat \<Rightarrow> knd_state_phase \<Rightarrow> nat \<Rightarrow> kndCommit \<Rightarrow> class_heap \<Rightarrow> failure option \<times> kndCommit \<times> class_heap" where
  "knd_proc_commit_state self phase addr commit h =
     (case proc_commit_state self phase addr h of
        Inl (e, h) \<Rightarrow> (Some e, commit, h)
      | Inr (state, h) \<Rightarrow>
          (case knd_state_ref_new (ch_mempool h) of
             Inl e \<Rightarrow> (Some e, commit, h)
           | Inr (_, mempool) \<Rightarrow>
               (None, commit\<lparr>cm_proc_state_refs :=
                    State_Ref KND_STATE_PROC (Some (po_entry (ch_procs h self))) state # cm_proc_state_refs commit\<rparr>,
                h\<lparr>ch_mempool := mempool\<rparr>)))"

end
