(* ===== verification/Text_Index.thy ===== *)
theory Text_Index
  imports Class_Inst Proc_Heap Class_Pages
begin

text \<open>
  The index of texts, \<^verbatim>\<open>src/knd_text.index.c\<close>: a class knows the texts that declare it and, for its subclasses,
  how many do, one index for every class whose instances have texts. One thread runs it, so that a
  compare-and-swap succeeds.
\<close>

section \<open>Allocation\<close>

text \<open>Pages come from the pool of the user, if the task has one. An index has 64 bytes, a place 64 and an index of an attribute 48.\<close>

definition take_page :: "(kndMemPool \<Rightarrow> (nat \<times> kndMemPool) result) \<Rightarrow> bool \<Rightarrow> class_heap \<Rightarrow> (class_heap, nat) outcome" where
  "take_page new user h =
     (if user then
        (case new (ch_user_mempool h) of
           Inl e \<Rightarrow> Inl (e, h)
         | Inr (page, mempool) \<Rightarrow> Inr (page, h\<lparr>ch_user_mempool := mempool\<rparr>))
      else
        (case new (ch_mempool h) of
           Inl e \<Rightarrow> Inl (e, h)
         | Inr (page, mempool) \<Rightarrow> Inr (page, h\<lparr>ch_mempool := mempool\<rparr>)))"

definition knd_class_idx_new :: "kndMemPool \<Rightarrow> (nat \<times> kndMemPool) result" where
  "knd_class_idx_new mempool =
     (if pc_page_size (mp_tiny mempool) < 64 then Inl Stuck else knd_mempool_page mempool KND_MEMPAGE_TINY)"

definition knd_text_loc_new :: "kndMemPool \<Rightarrow> (nat \<times> kndMemPool) result" where
  "knd_text_loc_new mempool =
     (if pc_page_size (mp_tiny mempool) < 64 then Inl Stuck else knd_mempool_page mempool KND_MEMPAGE_TINY)"

definition knd_attr_idx_new :: "kndMemPool \<Rightarrow> (nat \<times> kndMemPool) result" where
  "knd_attr_idx_new mempool =
     (if pc_page_size (mp_tiny mempool) < 48 then Inl Stuck else knd_mempool_page mempool KND_MEMPAGE_TINY)"

definition update_idx :: "nat \<Rightarrow> (kndClassIdx \<Rightarrow> kndClassIdx) \<Rightarrow> class_heap \<Rightarrow> class_heap" where
  "update_idx i f h = h\<lparr>ch_class_idxs := (ch_class_idxs h)(i := f (ch_class_idxs h i))\<rparr>"

section \<open>The index of a class\<close>

text \<open>The texts of instances of a class, the blueprint, have an index of their own. An instance has a blueprint.\<close>

definition blueprint_of :: "class_heap \<Rightarrow> nat \<Rightarrow> nat option" where
  "blueprint_of h inst = ie_blueprint (ch_inst_entries h (ci_entry (ch_insts h inst)))"

text \<open>The page of the index is used without a check: there must be one.\<close>

definition new_text_ref :: "bool \<Rightarrow> nat \<Rightarrow> nat \<Rightarrow> nat option \<Rightarrow> class_heap \<Rightarrow> (class_heap, text_ref) outcome" where
  "new_text_ref user c blueprint attr h =
     bind_out (take_page knd_class_ref_new user h) (\<lambda>_ h.
       case take_page knd_class_idx_new user h of
         Inl (e, h) \<Rightarrow> Inl (Stuck, h)
       | Inr (idx, h) \<Rightarrow>
           Inr (\<lparr>tr_entry = blueprint, tr_attr = attr, tr_idx = Some idx\<rparr>,
             update_idx idx (\<lambda>_. new_class_idx\<lparr>cx_entry := c_entry (ch_classes h c)\<rparr>) h))"

definition find_text_ref :: "nat \<Rightarrow> text_ref list \<Rightarrow> text_ref option" where
  "find_text_ref blueprint = List.find (\<lambda>ref. tr_entry ref = blueprint)"

definition text_ref_of :: "bool \<Rightarrow> nat \<Rightarrow> nat \<Rightarrow> nat option \<Rightarrow> class_heap \<Rightarrow> (class_heap, text_ref) outcome" where
  "text_ref_of user c blueprint attr h =
     (case find_text_ref blueprint (c_text_idxs (ch_classes h c)) of
        Some ref \<Rightarrow> Inr (ref, h)
      | None \<Rightarrow>
          bind_out (new_text_ref user c blueprint attr h) (\<lambda>ref h.
            Inr (ref, update_class c (\<lambda>c. c\<lparr>c_text_idxs := ref # c_text_idxs c\<rparr>) h)))"

text \<open>An index has at most \<^verbatim>\<open>KND_MAX_TEXT_LOCS\<close> places, 64; a place more is dropped.\<close>

definition add_text_loc :: "nat \<Rightarrow> kndTextLoc \<Rightarrow> class_heap \<Rightarrow> class_heap" where
  "add_text_loc idx loc h =
     (if cx_num_locs (ch_class_idxs h idx) < 64
      then update_idx idx (\<lambda>i. i\<lparr>cx_locs := loc # cx_locs i, cx_num_locs := cx_num_locs i + 1\<rparr>) h else h)"

definition declar_loc :: "nat \<Rightarrow> kndPar \<Rightarrow> kndSentence \<Rightarrow> nat \<Rightarrow> class_heap \<Rightarrow> kndTextLoc" where
  "declar_loc inst par sent decl h =
     \<lparr>tl_type = KND_STATE_CLASS_INST, tl_src = inst, tl_par_id = pr_numid par, tl_sent_id = se_numid sent,
      tl_obj = cd_entry (ch_class_declars h decl)\<rparr>"

definition index_class_inst ::
  "bool \<Rightarrow> nat \<Rightarrow> nat \<Rightarrow> kndSentence \<Rightarrow> kndPar \<Rightarrow> nat \<Rightarrow> nat \<Rightarrow> class_heap \<Rightarrow> (class_heap, nat) outcome" where
  "index_class_inst user c decl sent par var inst h =
     (case blueprint_of h inst of
        None \<Rightarrow> Inl (Stuck, h)
      | Some blueprint \<Rightarrow>
          bind_out (text_ref_of user c blueprint (av_attr (ch_attr_vars h var)) h) (\<lambda>ref h.
          bind_out (take_page knd_text_loc_new user h) (\<lambda>_ h.
            case tr_idx ref of
              None \<Rightarrow> Inl (Stuck, h)
            | Some idx \<Rightarrow>
                Inr (idx, add_text_loc idx (declar_loc inst par sent decl h) h))))"

definition append_child_idx :: "bool \<Rightarrow> nat \<Rightarrow> nat \<Rightarrow> class_heap \<Rightarrow> failure option \<times> class_heap" where
  "append_child_idx user idx child_idx h =
     (let entry = cx_entry (ch_class_idxs h child_idx) in
      if entry \<in> fst ` set (cx_children (ch_class_idxs h idx)) then (None, h)
      else
        (case take_page knd_class_ref_new user h of
           Inl (e, h) \<Rightarrow> (Some e, h)
         | Inr (_, h) \<Rightarrow>
             (None, update_idx idx (\<lambda>i. i\<lparr>cx_children := (entry, child_idx) # cx_children i,
                cx_num_children := cx_num_children i + 1\<rparr>) h)))"

text \<open>The reference that is found becomes the head of the list, whatever was before it.\<close>

definition get_class_idx :: "bool \<Rightarrow> nat \<Rightarrow> nat \<Rightarrow> nat \<Rightarrow> class_heap \<Rightarrow> (class_heap, nat) outcome" where
  "get_class_idx user c var src h =
     (case blueprint_of h src of
        None \<Rightarrow> Inl (Stuck, h)
      | Some blueprint \<Rightarrow>
          bind_out
            (case dropWhile (\<lambda>ref. tr_entry ref \<noteq> blueprint) (c_text_idxs (ch_classes h c)) of
               ref # refs \<Rightarrow> Inr (ref, update_class c (\<lambda>c. c\<lparr>c_text_idxs := ref # refs\<rparr>) h)
             | [] \<Rightarrow>
                 bind_out (new_text_ref user c blueprint (av_attr (ch_attr_vars h var)) h) (\<lambda>ref h.
                   Inr (ref, update_class c (\<lambda>c. c\<lparr>c_text_idxs := ref # c_text_idxs c\<rparr>) h)))
            (\<lambda>ref h. case tr_idx ref of None \<Rightarrow> Inl (Stuck, h) | Some idx \<Rightarrow> Inr (idx, h)))"

section \<open>The indices of the ancestors\<close>

text \<open>The first child that is the declared class gets the index of this class, a child that is a base of it an index of its own.\<close>

fun update_children ::
  "bool \<Rightarrow> nat \<Rightarrow> nat \<Rightarrow> nat \<Rightarrow> nat \<Rightarrow> nat \<Rightarrow> (nat \<times> nat) list \<Rightarrow> class_heap \<Rightarrow> failure option \<times> class_heap" where
  "update_children user idx term_idx entry var src [] h = (None, h)"
| "update_children user idx term_idx entry var src ((child, child_entry) # refs) h =
     (case ce_class (ch_entries h entry) of
        None \<Rightarrow> (Some Stuck, h)
      | Some class \<Rightarrow>
          if child = class then append_child_idx user idx term_idx h
          else
            (case knd_is_base child class h of
               Some Stuck \<Rightarrow> (Some Stuck, h)
             | Some (Err _) \<Rightarrow> update_children user idx term_idx entry var src refs h
             | None \<Rightarrow>
                 (case ce_class (ch_entries h child_entry) of
                    None \<Rightarrow> (Some Stuck, h)
                  | Some c \<Rightarrow>
                      (case get_class_idx user c var src h of
                         Inl (e, h) \<Rightarrow> (Some e, h)
                       | Inr (child_idx, h) \<Rightarrow>
                           then_step (append_child_idx user idx child_idx h)
                             (update_children user idx term_idx entry var src refs)))))"

definition update_ancestor_idx ::
  "bool \<Rightarrow> nat \<Rightarrow> nat \<Rightarrow> nat \<Rightarrow> nat \<Rightarrow> nat \<Rightarrow> class_heap \<Rightarrow> failure option \<times> class_heap" where
  "update_ancestor_idx user base decl var src term_idx h =
     (case get_class_idx user base var src h of
        Inl (e, h) \<Rightarrow> (Some e, h)
      | Inr (idx, h) \<Rightarrow>
          then_step
            (update_children user idx term_idx (cd_entry (ch_class_declars h decl)) var src (c_children (ch_classes h base)) h)
            (\<lambda>h. (None, update_idx idx (\<lambda>i. i\<lparr>cx_total_locs := cx_total_locs i + 1\<rparr>) h)))"

section \<open>Declarations of classes\<close>

text \<open>The entry of the class in the repository itself, a clone if there is none. Cloning needs a user.\<close>

definition local_class_entry :: "bool \<Rightarrow> nat \<Rightarrow> nat \<Rightarrow> nat \<Rightarrow> class_heap \<Rightarrow> (class_heap, nat) outcome" where
  "local_class_entry user repo commit entry h =
     (if ce_repo (ch_entries h entry) = repo then Inr (entry, h)
      else
        (case knd_get_class_entry (ch_repos h repo) (ce_name (ch_entries h entry)) False of
           Inr e \<Rightarrow> Inr (e, h)
         | Inl Stuck \<Rightarrow> Inl (Stuck, h)
         | Inl (Err _) \<Rightarrow> if user then knd_class_entry_clone entry repo commit h else Inl (Stuck, h)))"

fun index_decl_ancestors ::
  "bool \<Rightarrow> nat \<Rightarrow> nat \<Rightarrow> nat \<Rightarrow> nat \<Rightarrow> nat \<Rightarrow> nat \<Rightarrow> nat \<Rightarrow> nat \<Rightarrow> (nat \<times> nat) list \<Rightarrow> class_heap \<Rightarrow> failure option \<times> class_heap" where
  "index_decl_ancestors user repo commit decl var inst idx class i [] h = (None, h)"
| "index_decl_ancestors user repo commit decl var inst idx class i ((base, base_entry) # refs) h =
     (case local_class_entry user repo commit base_entry h of
        Inl (e, h) \<Rightarrow> (Some e, h)
      | Inr (entry, h) \<Rightarrow>
          (let h = update_class class (\<lambda>c. c\<lparr>c_ancestors := (c_ancestors c)[i := (base, entry)]\<rparr>) h in
           case ce_class (ch_entries h entry) of
             None \<Rightarrow> (Some Stuck, h)
           | Some c \<Rightarrow>
               then_step (update_ancestor_idx user c decl var inst idx h)
                 (index_decl_ancestors user repo commit decl var inst idx class (Suc i) refs)))"

definition index_class_declar ::
  "bool \<Rightarrow> nat \<Rightarrow> kndSentence \<Rightarrow> kndPar \<Rightarrow> nat \<Rightarrow> nat \<Rightarrow> nat \<Rightarrow> nat \<Rightarrow> class_heap \<Rightarrow> failure option \<times> class_heap" where
  "index_class_declar user decl sent par var inst repo commit h =
     (case local_class_entry user repo commit (cd_entry (ch_class_declars h decl)) h of
        Inl (e, h) \<Rightarrow> (Some e, h)
      | Inr (entry, h) \<Rightarrow>
          (let h = h\<lparr>ch_class_declars := (ch_class_declars h)(decl := (ch_class_declars h decl)\<lparr>cd_entry := entry\<rparr>)\<rparr> in
           case ce_class (ch_entries h entry) of
             None \<Rightarrow> (Some Stuck, h)
           | Some c \<Rightarrow>
               (case index_class_inst user c decl sent par var inst h of
                  Inl (e, h) \<Rightarrow> (Some e, h)
                | Inr (idx, h) \<Rightarrow>
                    index_decl_ancestors user repo commit decl var inst idx c 0 (c_ancestors (ch_classes h c)) h)))"

section \<open>Declarations of procedures\<close>

text \<open>The page of the place is taken, but no list has it.\<close>

definition index_proc_inst :: "bool \<Rightarrow> nat \<Rightarrow> nat \<Rightarrow> nat \<Rightarrow> class_heap \<Rightarrow> failure option \<times> class_heap" where
  "index_proc_inst user entry var inst h =
     (case blueprint_of h inst of
        None \<Rightarrow> (Some Stuck, h)
      | Some blueprint \<Rightarrow>
          then_step
            (case find_text_ref blueprint (pe_text_idxs (ch_proc_entries h entry)) of
               Some _ \<Rightarrow> (None, h)
             | None \<Rightarrow>
                 (case take_page knd_class_ref_new user h of
                    Inl (e, h) \<Rightarrow> (Some e, h)
                  | Inr (_, h) \<Rightarrow>
                      (None, update_proc_entry entry (\<lambda>e. e\<lparr>pe_text_idxs :=
                         \<lparr>tr_entry = blueprint, tr_attr = av_attr (ch_attr_vars h var), tr_idx = None\<rparr> # pe_text_idxs e\<rparr>) h)))
            (\<lambda>h. case take_page knd_text_loc_new user h of Inl (e, h) \<Rightarrow> (Some e, h) | Inr (_, h) \<Rightarrow> (None, h)))"

fun clone_proc_ancestors :: "bool \<Rightarrow> nat \<Rightarrow> nat \<Rightarrow> (nat \<times> nat) list \<Rightarrow> class_heap \<Rightarrow> failure option \<times> class_heap" where
  "clone_proc_ancestors user repo commit [] h = (None, h)"
| "clone_proc_ancestors user repo commit ((_, ref_entry) # refs) h =
     (case knd_get_proc_entry repo (pe_name (ch_proc_entries h ref_entry)) h of
        Inl e \<Rightarrow> (Some e, h)
      | Inr entry \<Rightarrow>
          if pe_repo (ch_proc_entries h entry) = repo then clone_proc_ancestors user repo commit refs h
          else
            (case knd_proc_entry_clone user ref_entry repo commit h of
               Inl (e, h) \<Rightarrow> (Some e, h)
             | Inr (_, h) \<Rightarrow> clone_proc_ancestors user repo commit refs h))"

definition index_proc_declar ::
  "bool \<Rightarrow> nat \<Rightarrow> nat \<Rightarrow> nat \<Rightarrow> nat \<Rightarrow> nat \<Rightarrow> class_heap \<Rightarrow> failure option \<times> class_heap" where
  "index_proc_declar user decl var inst repo commit h =
     (let entry = pd_entry (ch_proc_declars h decl) in
      case (if pe_repo (ch_proc_entries h entry) = repo then Inr (entry, h)
            else knd_proc_entry_clone user entry repo commit h) of
        Inl (e, h) \<Rightarrow> (Some e, h)
      | Inr (entry, h) \<Rightarrow>
          (let h = h\<lparr>ch_proc_declars := (ch_proc_declars h)(decl := (ch_proc_declars h decl)\<lparr>pd_entry := entry\<rparr>)\<rparr> in
           then_step (index_proc_inst user entry var inst h) (\<lambda>h.
             clone_proc_ancestors user repo commit (pe_ancestors (ch_proc_entries h entry)) h)))"

section \<open>Texts\<close>

definition index_statement ::
  "bool \<Rightarrow> nat \<Rightarrow> nat \<Rightarrow> nat \<Rightarrow> nat \<Rightarrow> kndPar \<Rightarrow> kndSentence \<Rightarrow> class_heap \<Rightarrow> failure option \<times> class_heap" where
  "index_statement user var inst repo commit par sent h =
     (case se_stm sent of
        None \<Rightarrow> (None, h)
      | Some stm \<Rightarrow>
          then_step
            (each_step (\<lambda>decl. index_class_declar user decl sent par var inst repo commit) (sm_class_declars stm) h)
            (each_step (\<lambda>decl. index_proc_declar user decl var inst repo commit) (sm_proc_declars stm)))"

definition add_attr_idx :: "bool \<Rightarrow> nat \<Rightarrow> nat \<Rightarrow> class_heap \<Rightarrow> failure option \<times> class_heap" where
  "add_attr_idx user var inst h =
     (case take_page knd_attr_idx_new user h of
        Inl (e, h) \<Rightarrow> (Some e, h)
      | Inr (_, h) \<Rightarrow>
          (None, update_inst_entry (ci_entry (ch_insts h inst))
             (\<lambda>e. e\<lparr>ie_attr_idxs := av_attr (ch_attr_vars h var) # ie_attr_idxs e\<rparr>) h))"

text \<open>A text without paragraphs needs no instance.\<close>

definition knd_text_index :: "bool \<Rightarrow> nat \<Rightarrow> nat \<Rightarrow> nat \<Rightarrow> class_heap \<Rightarrow> failure option \<times> class_heap" where
  "knd_text_index user self repo commit h =
     (let text = ch_texts h self; var = tx_attr_var text in
      if tx_pars text = [] then (None, h)
      else
        (case cv_inst (ch_vars h (av_class_var (ch_attr_vars h var))) of
           None \<Rightarrow> (case take_page knd_attr_idx_new user h of Inl (e, h) \<Rightarrow> (Some e, h) | Inr (_, h) \<Rightarrow> (Some Stuck, h))
         | Some inst \<Rightarrow>
             then_step (add_attr_idx user var inst h)
               (each_step (\<lambda>par. each_step (index_statement user var inst repo commit par) (pr_sents par)) (tx_pars text))))"

section \<open>What indexing leaves as it was\<close>

definition text_pool :: "bool \<Rightarrow> class_heap \<Rightarrow> kndMemPool" where
  "text_pool user h = (if user then ch_user_mempool h else ch_mempool h)"

abbreviation pages :: "bool \<Rightarrow> class_heap \<Rightarrow> nat list" where
  "pages user h \<equiv> refs_left (text_pool user h)"

definition texts_only :: "class_heap \<Rightarrow> class_heap \<Rightarrow> bool" where
  "texts_only h h' \<longleftrightarrow> ch_entries h' = ch_entries h \<and> ch_repos h' = ch_repos h \<and> ch_insts h' = ch_insts h \<and>
     ch_inst_entries h' = ch_inst_entries h \<and> ch_attr_vars h' = ch_attr_vars h \<and> ch_class_declars h' = ch_class_declars h \<and>
     (\<forall>c. (ch_classes h' c)\<lparr>c_text_idxs := []\<rparr> = (ch_classes h c)\<lparr>c_text_idxs := []\<rparr>)"

lemma texts_only_refl [simp]: "texts_only h h"
  by (simp add: texts_only_def)

lemma texts_only_class:
  assumes "texts_only h h'"
  shows "c_entry (ch_classes h' c) = c_entry (ch_classes h c)" "c_ancestors (ch_classes h' c) = c_ancestors (ch_classes h c)"
    "c_children (ch_classes h' c) = c_children (ch_classes h c)" "c_attr_idx (ch_classes h' c) = c_attr_idx (ch_classes h c)"
proof -
  have c: "(ch_classes h' c)\<lparr>c_text_idxs := []\<rparr> = (ch_classes h c)\<lparr>c_text_idxs := []\<rparr>" using assms by (simp add: texts_only_def)
  show "c_entry (ch_classes h' c) = c_entry (ch_classes h c)" "c_ancestors (ch_classes h' c) = c_ancestors (ch_classes h c)"
    "c_children (ch_classes h' c) = c_children (ch_classes h c)" "c_attr_idx (ch_classes h' c) = c_attr_idx (ch_classes h c)"
    using arg_cong [OF c, of c_entry] arg_cong [OF c, of c_ancestors] arg_cong [OF c, of c_children] arg_cong [OF c, of c_attr_idx]
    by simp_all
qed

lemma texts_only_trans: "texts_only h h' \<Longrightarrow> texts_only h' h'' \<Longrightarrow> texts_only h h''"
  by (simp add: texts_only_def)

lemma texts_only_is_base:
  assumes "texts_only h h'"
  shows "knd_is_base self child h' = knd_is_base self child h"
proof -
  have same: "ch_entries h' = ch_entries h" using assms by (simp add: texts_only_def)
  have "is_base_in entry base refs h' = is_base_in entry base refs h" for entry base and refs :: "(nat \<times> nat) list"
    by (induction refs) (auto simp: same texts_only_class [OF assms] split: option.splits)
  then show ?thesis by (simp add: knd_is_base_def Let_def same texts_only_class [OF assms])
qed

lemma texts_only_blueprint: "texts_only h h' \<Longrightarrow> blueprint_of h' inst = blueprint_of h inst"
  by (simp add: texts_only_def blueprint_of_def)

section \<open>The counts of one kind of texts\<close>

definition idx_at :: "class_heap \<Rightarrow> nat \<Rightarrow> nat \<Rightarrow> nat option" where
  "idx_at h b c = Option.bind (find_text_ref b (c_text_idxs (ch_classes h c))) tr_idx"

definition text_total :: "class_heap \<Rightarrow> nat \<Rightarrow> nat \<Rightarrow> size_t" where
  "text_total h b c = (case idx_at h b c of None \<Rightarrow> 0 | Some i \<Rightarrow> cx_total_locs (ch_class_idxs h i))"

definition text_locs :: "class_heap \<Rightarrow> nat \<Rightarrow> nat \<Rightarrow> kndTextLoc list" where
  "text_locs h b c = (case idx_at h b c of None \<Rightarrow> [] | Some i \<Rightarrow> cx_locs (ch_class_idxs h i))"

text \<open>The references of the kind have indices of their own, on pages that are not free.\<close>

definition text_ready :: "bool \<Rightarrow> nat \<Rightarrow> class_heap \<Rightarrow> bool" where
  "text_ready user b h \<longleftrightarrow> index_pool (text_pool user h) \<and>
     (\<forall>c ref. find_text_ref b (c_text_idxs (ch_classes h c)) = Some ref \<longrightarrow> tr_idx ref \<noteq> None) \<and>
     (\<forall>c c' i. idx_at h b c = Some i \<longrightarrow> idx_at h b c' = Some i \<longrightarrow> c = c') \<and>
     (\<forall>c i. idx_at h b c = Some i \<longrightarrow> i \<notin> set (pages user h) \<and>
        cx_num_locs (ch_class_idxs h i) = of_nat (length (cx_locs (ch_class_idxs h i))) \<and> length (cx_locs (ch_class_idxs h i)) \<le> 64)"

text \<open>A step that takes at most \<open>n\<close> pages. Where the kind had an index, the references are the same or those before it are gone.\<close>

abbreviation from_kind :: "nat \<Rightarrow> text_ref list \<Rightarrow> text_ref list" where
  "from_kind b \<equiv> dropWhile (\<lambda>ref. tr_entry ref \<noteq> b)"

definition text_step :: "bool \<Rightarrow> nat \<Rightarrow> nat \<Rightarrow> class_heap \<Rightarrow> class_heap \<Rightarrow> bool" where
  "text_step user b n h h' \<longleftrightarrow> texts_only h h' \<and> text_ready user b h' \<and> length (pages user h) \<le> length (pages user h') + n \<and>
     (\<forall>c i. idx_at h b c = Some i \<longrightarrow> idx_at h' b c = Some i \<and>
        c_text_idxs (ch_classes h' c) \<in> {c_text_idxs (ch_classes h c), from_kind b (c_text_idxs (ch_classes h c))})"

definition same_counts :: "nat \<Rightarrow> class_heap \<Rightarrow> class_heap \<Rightarrow> bool" where
  "same_counts b h h' \<longleftrightarrow> text_total h' b = text_total h b \<and> text_locs h' b = text_locs h b"

lemma text_step_refl: "text_ready user b h \<Longrightarrow> text_step user b n h h"
  by (simp add: text_step_def)

lemma from_kind_idem: "from_kind b (from_kind b refs) = from_kind b refs"
  by (induction refs) auto

lemma text_step_trans:
  assumes "text_step user b m h h'" and "text_step user b n h' h''"
  shows "text_step user b (m + n) h h''"
proof -
  have "idx_at h'' b c = Some i \<and>
      c_text_idxs (ch_classes h'' c) \<in> {c_text_idxs (ch_classes h c), from_kind b (c_text_idxs (ch_classes h c))}"
    if "idx_at h b c = Some i" for c i
  proof -
    have 1: "idx_at h' b c = Some i" "c_text_idxs (ch_classes h' c) \<in> {c_text_idxs (ch_classes h c), from_kind b (c_text_idxs (ch_classes h c))}"
      using assms(1) that by (simp_all add: text_step_def)
    then have "idx_at h'' b c = Some i" "c_text_idxs (ch_classes h'' c) \<in> {c_text_idxs (ch_classes h' c), from_kind b (c_text_idxs (ch_classes h' c))}"
      using assms(2) by (simp_all add: text_step_def)
    then show ?thesis using 1(2) by (auto simp: from_kind_idem)
  qed
  then show ?thesis using assms texts_only_trans by (auto simp: text_step_def)
qed

lemma text_step_mono: "text_step user b m h h' \<Longrightarrow> m \<le> n \<Longrightarrow> text_step user b n h h'"
  by (auto simp: text_step_def)

lemma same_counts_refl [simp]: "same_counts b h h"
  by (simp add: same_counts_def)

lemma same_counts_trans: "same_counts b h h' \<Longrightarrow> same_counts b h' h'' \<Longrightarrow> same_counts b h h''"
  by (simp add: same_counts_def)

lemma page_news: "knd_class_idx_new = knd_class_ref_new" "knd_text_loc_new = knd_class_ref_new"
  by (simp_all add: fun_eq_iff knd_class_idx_new_def knd_text_loc_new_def knd_class_ref_new_def)

text \<open>A page that is taken: nothing else changes.\<close>

lemma take_page_ok:
  assumes "index_pool (text_pool user h)" and "pages user h \<noteq> []"
  obtains p h' where "take_page knd_class_ref_new user h = Inr (p, h')" "pages user h = p # pages user h'" "p \<notin> set (pages user h')"
    "index_pool (text_pool user h')" "texts_only h h'" "ch_classes h' = ch_classes h" "ch_class_idxs h' = ch_class_idxs h"
proof (rule page_cases [OF assms])
  fix p ps m
  assume page: "knd_mempool_page (text_pool user h) KND_MEMPAGE_TINY = Inr (p, m)" "pages user h = p # ps" "refs_left m = ps"
    "p \<notin> set ps" "index_pool m"
  define h' where "h' = (if user then h\<lparr>ch_user_mempool := m\<rparr> else h\<lparr>ch_mempool := m\<rparr>)"
  have "\<not> pc_page_size (mp_tiny (text_pool user h)) < 64" using assms(1) by (simp add: index_pool_def not_less)
  then have "take_page knd_class_ref_new user h = Inr (p, h')"
    using page(1) by (cases user) (simp_all add: take_page_def knd_class_ref_new_def text_pool_def h'_def)
  moreover have "text_pool user h' = m" "texts_only h h'" "ch_classes h' = ch_classes h" "ch_class_idxs h' = ch_class_idxs h"
    by (simp_all add: text_pool_def h'_def texts_only_def)
  ultimately show thesis using page that by simp
qed

lemma taken_step:
  assumes "text_ready user b h" and "pages user h = p # pages user h'" and "p \<notin> set (pages user h')"
    and "index_pool (text_pool user h')" and "texts_only h h'" and "ch_classes h' = ch_classes h" and "ch_class_idxs h' = ch_class_idxs h"
  shows "text_step user b 1 h h'" and "same_counts b h h'" and "idx_at h' b = idx_at h b"
proof -
  show idx: "idx_at h' b = idx_at h b" by (simp add: fun_eq_iff idx_at_def assms(6))
  show "same_counts b h h'" unfolding same_counts_def text_total_def text_locs_def idx assms(7) by simp
  show "text_step user b 1 h h'"
    using assms by (auto simp: text_step_def text_ready_def idx)
qed

lemma find_dropWhile: "find_text_ref b (dropWhile (\<lambda>ref. tr_entry ref \<noteq> b) refs) = find_text_ref b refs"
  unfolding find_text_ref_def by (induction refs) auto

lemma dropWhile_find:
  "dropWhile (\<lambda>ref. tr_entry ref \<noteq> b) refs = ref # rest \<Longrightarrow> find_text_ref b refs = Some ref \<and> tr_entry ref = b"
  unfolding find_text_ref_def by (induction refs) (auto split: if_splits)

lemma find_text_ref_None: "find_text_ref b refs = None \<longleftrightarrow> b \<notin> tr_entry ` set refs"
  by (auto simp: find_text_ref_def find_None_iff)

lemma dropWhile_none: "dropWhile (\<lambda>ref. tr_entry ref \<noteq> b) refs = [] \<longleftrightarrow> find_text_ref b refs = None"
  unfolding find_text_ref_def by (induction refs) auto

lemma set_texts_step:
  assumes "text_ready user b h" and "refs = from_kind b (c_text_idxs (ch_classes h c))"
  defines "h' \<equiv> update_class c (\<lambda>c. c\<lparr>c_text_idxs := refs\<rparr>) h"
  shows "text_step user b 0 h h'" and "same_counts b h h'" and "idx_at h' b = idx_at h b"
proof -
  have refs: "find_text_ref b (c_text_idxs (ch_classes h' d)) = find_text_ref b (c_text_idxs (ch_classes h d))" for d
    using assms(2) find_dropWhile by (simp add: h'_def update_class_def)
  show idx: "idx_at h' b = idx_at h b" by (simp add: fun_eq_iff idx_at_def refs)
  have idxs: "ch_class_idxs h' = ch_class_idxs h" by (simp add: h'_def update_class_def)
  show "same_counts b h h'" unfolding same_counts_def text_total_def text_locs_def idx idxs by simp
  have "text_pool user h' = text_pool user h" "texts_only h h'"
    by (simp_all add: h'_def update_class_def text_pool_def texts_only_def)
  moreover have "c_text_idxs (ch_classes h' d) \<in> {c_text_idxs (ch_classes h d), from_kind b (c_text_idxs (ch_classes h d))}" for d
    using assms(2) by (simp add: h'_def update_class_def)
  ultimately show "text_step user b 0 h h'" using assms(1) unfolding text_step_def text_ready_def idx idxs refs by simp
qed

lemma idx_at_none: "text_ready user b h \<Longrightarrow> find_text_ref b (c_text_idxs (ch_classes h c)) = None \<longleftrightarrow> idx_at h b c = None"
  by (cases "find_text_ref b (c_text_idxs (ch_classes h c))") (auto simp: text_ready_def idx_at_def)

lemma text_ready_ref:
  "text_ready user b h \<Longrightarrow> find_text_ref b (c_text_idxs (ch_classes h c)) = Some ref \<Longrightarrow> \<exists>i. tr_idx ref = Some i"
  by (auto simp: text_ready_def)

lemma new_ref_step:
  assumes "text_ready user b h" and "idx_at h b c = None" and "2 \<le> length (pages user h)"
  obtains i ref h' where "bind_out (new_text_ref user c b attr h) (\<lambda>ref h.
        Inr (ref, update_class c (\<lambda>c. c\<lparr>c_text_idxs := ref # c_text_idxs c\<rparr>) h)) = Inr (ref, h')" "tr_idx ref = Some i"
    "text_step user b 2 h h'" "same_counts b h h'" "idx_at h' b = (idx_at h b)(c \<mapsto> i)"
proof -
  obtain p h1 where h1: "take_page knd_class_ref_new user h = Inr (p, h1)" "pages user h = p # pages user h1"
    "p \<notin> set (pages user h1)" "index_pool (text_pool user h1)" "texts_only h h1" "ch_classes h1 = ch_classes h"
    "ch_class_idxs h1 = ch_class_idxs h"
    by (rule take_page_ok [of user h]) (use assms(1,3) in \<open>auto simp: text_ready_def\<close>)
  note t1 = taken_step [OF assms(1) h1(2-7)]
  have ready1: "text_ready user b h1" using t1(1) by (simp add: text_step_def)
  obtain i h2 where h2: "take_page knd_class_ref_new user h1 = Inr (i, h2)" "pages user h1 = i # pages user h2"
    "i \<notin> set (pages user h2)" "index_pool (text_pool user h2)" "texts_only h1 h2" "ch_classes h2 = ch_classes h1"
    "ch_class_idxs h2 = ch_class_idxs h1"
    by (rule take_page_ok [of user h1]) (use h1(2,4) assms(3) in auto)
  note t2 = taken_step [OF ready1 h2(2-7)]
  have ready2: "text_ready user b h2" using t2(1) by (simp add: text_step_def)
  define ref where "ref = \<lparr>tr_entry = b, tr_attr = attr, tr_idx = Some i\<rparr>"
  define h' where "h' = update_class c (\<lambda>c. c\<lparr>c_text_idxs := ref # c_text_idxs c\<rparr>)
    (update_idx i (\<lambda>_. new_class_idx\<lparr>cx_entry := c_entry (ch_classes h2 c)\<rparr>) h2)"
  have run: "bind_out (new_text_ref user c b attr h) (\<lambda>ref h.
        Inr (ref, update_class c (\<lambda>c. c\<lparr>c_text_idxs := ref # c_text_idxs c\<rparr>) h)) = Inr (ref, h')"
    using h1(1) h2(1) by (simp add: new_text_ref_def page_news ref_def h'_def)
  have idx2: "idx_at h2 b = idx_at h b" using t1(3) t2(3) by simp
  have old: "i \<noteq> j" if "idx_at h b d = Some j" for d j
    using ready1 that h2(2) t1(3) by (auto simp: text_ready_def)
  have classes: "ch_classes h' = (ch_classes h2)(c := (ch_classes h2 c)\<lparr>c_text_idxs := ref # c_text_idxs (ch_classes h2 c)\<rparr>)"
    and idxs: "ch_class_idxs h' = (ch_class_idxs h2)(i := new_class_idx\<lparr>cx_entry := c_entry (ch_classes h2 c)\<rparr>)"
    and pool: "text_pool user h' = text_pool user h2" and only: "texts_only h2 h'"
    by (simp_all add: h'_def update_class_def update_idx_def text_pool_def texts_only_def)
  have refs: "find_text_ref b (c_text_idxs (ch_classes h' d)) = (if d = c then Some ref else find_text_ref b (c_text_idxs (ch_classes h2 d)))" for d
    by (simp add: classes find_text_ref_def ref_def)
  have idx: "idx_at h' b = (idx_at h b)(c \<mapsto> i)"
    using idx2 by (auto simp: fun_eq_iff idx_at_def refs) (simp add: ref_def)
  have counts: "same_counts b h2 h'"
    unfolding same_counts_def text_total_def text_locs_def idx idx2 idxs
    using assms(2) old by (auto simp: fun_eq_iff new_class_idx_def split: option.splits)
  have "text_ready user b h'"
    unfolding text_ready_def idx pool
  proof (intro conjI allI impI)
    show "index_pool (text_pool user h2)" by (rule h2(4))
    show "tr_idx r \<noteq> None" if "find_text_ref b (c_text_idxs (ch_classes h' d)) = Some r" for d r
      using that ready2 by (auto simp: refs ref_def text_ready_def split: if_splits)
    show "d = d'" if "((idx_at h b)(c \<mapsto> i)) d = Some j" "((idx_at h b)(c \<mapsto> i)) d' = Some j" for d d' j
      using that old assms(1) by (auto simp: text_ready_def split: if_splits)
    fix d j assume d: "((idx_at h b)(c \<mapsto> i)) d = Some j"
    then show "j \<notin> set (pages user h2)" using h2(3) ready2 idx2 by (auto simp: text_ready_def split: if_splits)
    show "cx_num_locs (ch_class_idxs h' j) = of_nat (length (cx_locs (ch_class_idxs h' j)))" "length (cx_locs (ch_class_idxs h' j)) \<le> 64"
      using d ready2 idx2 by (auto simp: idxs new_class_idx_def text_ready_def split: if_splits)
  qed
  then have step: "text_step user b 0 h2 h'"
    using only pool assms(2) idx idx2 by (auto simp: text_step_def classes)
  have "text_step user b (1 + 1 + 0) h h'" by (rule text_step_trans [OF text_step_trans [OF t1(1) t2(1)] step])
  moreover have "same_counts b h h'" by (rule same_counts_trans [OF same_counts_trans [OF t1(2) t2(2)] counts])
  ultimately show thesis using that [OF run] idx by (simp add: ref_def numeral_2_eq_2)
qed

lemma get_class_idx_step:
  assumes "text_ready user b h" and "blueprint_of h src = Some b" and "2 \<le> length (pages user h)"
  obtains i h' where "get_class_idx user c var src h = Inr (i, h')" "text_step user b 2 h h'" "same_counts b h h'" "idx_at h' b c = Some i"
    "idx_at h b c \<noteq> None \<Longrightarrow> c_text_idxs (ch_classes h' c) = from_kind b (c_text_idxs (ch_classes h c))"
proof (cases "dropWhile (\<lambda>ref. tr_entry ref \<noteq> b) (c_text_idxs (ch_classes h c))")
  case Nil
  then have none: "idx_at h b c = None" using dropWhile_none idx_at_none [OF assms(1)] by metis
  then obtain i ref h' where new: "bind_out (new_text_ref user c b (av_attr (ch_attr_vars h var)) h) (\<lambda>ref h.
        Inr (ref, update_class c (\<lambda>c. c\<lparr>c_text_idxs := ref # c_text_idxs c\<rparr>) h)) = Inr (ref, h')" "tr_idx ref = Some i"
    "text_step user b 2 h h'" "same_counts b h h'" "idx_at h' b = (idx_at h b)(c \<mapsto> i)"
    by (rule new_ref_step [OF assms(1) _ assms(3)])
  then have "get_class_idx user c var src h = Inr (i, h')" by (simp add: get_class_idx_def assms(2) Nil)
  then show ?thesis using new(3-5) that none by simp
next
  case (Cons ref refs)
  let ?h = "update_class c (\<lambda>c. c\<lparr>c_text_idxs := ref # refs\<rparr>) h"
  have ref: "find_text_ref b (c_text_idxs (ch_classes h c)) = Some ref" "tr_entry ref = b" using dropWhile_find [OF Cons] by simp_all
  then obtain i where i: "tr_idx ref = Some i" using text_ready_ref [OF assms(1)] by blast
  note s = set_texts_step [OF assms(1) Cons [symmetric]]
  have "get_class_idx user c var src h = Inr (i, ?h)" by (simp add: get_class_idx_def assms(2) Cons i)
  moreover have "idx_at ?h b c = Some i" using s(3) ref(1) i by (simp add: idx_at_def)
  moreover have "c_text_idxs (ch_classes ?h c) = from_kind b (c_text_idxs (ch_classes h c))" by (simp add: update_class_def Cons)
  ultimately show ?thesis using s that text_step_mono [OF s(1), of 2] by simp
qed

lemma text_ref_of_step:
  assumes "text_ready user b h" and "2 \<le> length (pages user h)"
  obtains i ref h' where "text_ref_of user c b attr h = Inr (ref, h')" "tr_idx ref = Some i" "text_step user b 2 h h'"
    "same_counts b h h'" "idx_at h' b c = Some i"
proof (cases "find_text_ref b (c_text_idxs (ch_classes h c))")
  case None
  then have "idx_at h b c = None" using idx_at_none [OF assms(1)] by metis
  then obtain i ref h' where new: "bind_out (new_text_ref user c b attr h) (\<lambda>ref h.
        Inr (ref, update_class c (\<lambda>c. c\<lparr>c_text_idxs := ref # c_text_idxs c\<rparr>) h)) = Inr (ref, h')" "tr_idx ref = Some i"
    "text_step user b 2 h h'" "same_counts b h h'" "idx_at h' b = (idx_at h b)(c \<mapsto> i)"
    by (rule new_ref_step [OF assms(1) _ assms(2)])
  then show ?thesis using that by (simp add: text_ref_of_def None)
next
  case (Some ref)
  then obtain i where i: "tr_idx ref = Some i" using text_ready_ref [OF assms(1)] by blast
  then show ?thesis
    using that [of ref h i] Some text_step_mono [OF text_step_refl [OF assms(1)], of 2] by (simp add: text_ref_of_def idx_at_def)
qed

lemma update_idx_step:
  assumes "text_ready user b h" and "\<And>x. cx_locs (f x) = cx_locs x" and "\<And>x. cx_num_locs (f x) = cx_num_locs x"
  shows "text_step user b 0 h (update_idx i f h)" and "idx_at (update_idx i f h) b = idx_at h b"
    and "text_locs (update_idx i f h) b = text_locs h b"
proof -
  let ?h = "update_idx i f h"
  show idx: "idx_at ?h b = idx_at h b" by (simp add: fun_eq_iff idx_at_def update_idx_def)
  show "text_locs ?h b = text_locs h b"
    unfolding text_locs_def idx by (auto simp: fun_eq_iff update_idx_def assms(2) split: option.splits)
  have "text_pool user ?h = text_pool user h" "texts_only h ?h" "ch_classes ?h = ch_classes h"
    by (simp_all add: update_idx_def text_pool_def texts_only_def)
  then show "text_step user b 0 h ?h"
    using assms unfolding text_step_def text_ready_def idx by (auto simp: update_idx_def)
qed

lemma append_child_step:
  assumes "text_ready user b h" and "1 \<le> length (pages user h)"
  obtains h' where "append_child_idx user idx child h = (None, h')" "text_step user b 1 h h'" "same_counts b h h'" "idx_at h' b = idx_at h b"
proof (cases "cx_entry (ch_class_idxs h child) \<in> fst ` set (cx_children (ch_class_idxs h idx))")
  case True
  then show ?thesis using that [of h] text_step_mono [OF text_step_refl [OF assms(1)], of 1] by (simp add: append_child_idx_def)
next
  case False
  obtain p h1 where h1: "take_page knd_class_ref_new user h = Inr (p, h1)" "pages user h = p # pages user h1"
    "p \<notin> set (pages user h1)" "index_pool (text_pool user h1)" "texts_only h h1" "ch_classes h1 = ch_classes h"
    "ch_class_idxs h1 = ch_class_idxs h"
    by (rule take_page_ok [of user h]) (use assms in \<open>auto simp: text_ready_def\<close>)
  note t1 = taken_step [OF assms(1) h1(2-7)]
  have ready1: "text_ready user b h1" using t1(1) by (simp add: text_step_def)
  let ?f = "\<lambda>i. i\<lparr>cx_children := (cx_entry (ch_class_idxs h child), child) # cx_children i, cx_num_children := cx_num_children i + 1\<rparr>"
  note u = update_idx_step [OF ready1, of ?f idx, simplified]
  have "text_total (update_idx idx ?f h1) b = text_total h1 b"
    unfolding text_total_def u(2) by (auto simp: fun_eq_iff update_idx_def split: option.splits)
  then have "same_counts b h1 (update_idx idx ?f h1)" using u(3) by (simp add: same_counts_def)
  moreover have "append_child_idx user idx child h = (None, update_idx idx ?f h1)"
    using False h1(1) by (simp add: append_child_idx_def Let_def)
  ultimately show ?thesis
    using that [of "update_idx idx ?f h1"] text_step_trans [OF t1(1) u(1)] same_counts_trans [OF t1(2)] u(2) t1(3) by simp
qed

lemma idx_at_same: "text_ready user b h \<Longrightarrow> idx_at h b c = Some i \<Longrightarrow> idx_at h b d = Some j \<Longrightarrow> j = i \<longleftrightarrow> d = c"
  unfolding text_ready_def by (metis option.inject)

lemma count_step:
  assumes "text_ready user b h" and "idx_at h b c = Some i"
  defines "h' \<equiv> update_idx i (\<lambda>x. x\<lparr>cx_total_locs := cx_total_locs x + 1\<rparr>) h"
  shows "text_step user b 0 h h'" and "text_locs h' b = text_locs h b"
    and "text_total h' b = (text_total h b)(c := text_total h b c + 1)"
proof -
  note u = update_idx_step [OF assms(1), of "\<lambda>x. x\<lparr>cx_total_locs := cx_total_locs x + 1\<rparr>" i, simplified]
  show "text_step user b 0 h h'" "text_locs h' b = text_locs h b" using u(1,3) by (simp_all add: h'_def)
  have "text_total h' b d = ((text_total h b)(c := text_total h b c + 1)) d" for d
    using idx_at_same [OF assms(1,2), of d] assms(2) u(2)
    by (cases "idx_at h b d") (auto simp: text_total_def h'_def update_idx_def)
  then show "text_total h' b = (text_total h b)(c := text_total h b c + 1)" by (simp add: fun_eq_iff)
qed

lemma loc_step:
  assumes "text_ready user b h" and "idx_at h b c = Some i"
  shows "text_step user b 0 h (add_text_loc i loc h)" and "text_total (add_text_loc i loc h) b = text_total h b"
    and "text_locs (add_text_loc i loc h) b =
      (if length (text_locs h b c) < 64 then (text_locs h b)(c := loc # text_locs h b c) else text_locs h b)"
proof -
  let ?x = "ch_class_idxs h i"
  let ?y = "?x\<lparr>cx_locs := loc # cx_locs ?x, cx_num_locs := cx_num_locs ?x + 1\<rparr>"
  have num: "cx_num_locs ?x = of_nat (length (cx_locs ?x))" "length (cx_locs ?x) \<le> 64"
    using assms by (simp_all add: text_ready_def)
  have locs: "text_locs h b c = cx_locs ?x" using assms(2) by (simp add: text_locs_def)
  have "unat (of_nat (length (cx_locs ?x)) :: size_t) = length (cx_locs ?x)" using num(2) by (simp add: unat_of_nat_size_t)
  then have less: "cx_num_locs ?x < 64 \<longleftrightarrow> length (text_locs h b c) < 64"
    by (simp add: locs num(1) word_less_nat_alt)
  have run: "add_text_loc i loc h = (if length (text_locs h b c) < 64 then h\<lparr>ch_class_idxs := (ch_class_idxs h)(i := ?y)\<rparr> else h)"
    using less by (simp add: add_text_loc_def update_idx_def)
  show "text_total (add_text_loc i loc h) b = text_total h b"
    and "text_locs (add_text_loc i loc h) b =
      (if length (text_locs h b c) < 64 then (text_locs h b)(c := loc # text_locs h b c) else text_locs h b)"
    and "text_step user b 0 h (add_text_loc i loc h)"
  proof -
    let ?h = "h\<lparr>ch_class_idxs := (ch_class_idxs h)(i := ?y)\<rparr>"
    have idx: "idx_at ?h b = idx_at h b" by (simp add: fun_eq_iff idx_at_def)
    have "text_total ?h b d = text_total h b d" for d
      using idx_at_same [OF assms, of d] assms(2) idx by (cases "idx_at h b d") (auto simp: text_total_def)
    then show "text_total (add_text_loc i loc h) b = text_total h b" by (simp add: run fun_eq_iff)
    have "text_locs ?h b d = ((text_locs h b)(c := loc # text_locs h b c)) d" for d
      using idx_at_same [OF assms, of d] assms(2) idx by (cases "idx_at h b d") (auto simp: text_locs_def)
    then show "text_locs (add_text_loc i loc h) b =
      (if length (text_locs h b c) < 64 then (text_locs h b)(c := loc # text_locs h b c) else text_locs h b)"
      by (simp add: run fun_eq_iff)
    have old: "cx_num_locs (ch_class_idxs h j) = of_nat (length (cx_locs (ch_class_idxs h j)))" "length (cx_locs (ch_class_idxs h j)) \<le> 64"
      if "idx_at h b d = Some j" for d j using assms(1) that by (simp_all add: text_ready_def)
    have "text_ready user b ?h" if "length (text_locs h b c) < 64"
      unfolding text_ready_def idx
    proof (intro conjI allI impI)
      fix d j assume d: "idx_at h b d = Some j"
      show "cx_num_locs (ch_class_idxs ?h j) = of_nat (length (cx_locs (ch_class_idxs ?h j)))"
        "length (cx_locs (ch_class_idxs ?h j)) \<le> 64"
        using that old [OF d] num(1) by (simp_all add: locs)
    qed (use assms(1) in \<open>auto simp: text_ready_def text_pool_def\<close>)
    then show "text_step user b 0 h (add_text_loc i loc h)"
      using assms(1) idx by (simp add: run text_step_def texts_only_def text_pool_def)
  qed
qed

section \<open>Counting along the ancestors\<close>

text \<open>The children of a class that are bases of the declared one are loaded.\<close>

definition children_ok :: "class_heap \<Rightarrow> nat \<Rightarrow> (nat \<times> nat) list \<Rightarrow> bool" where
  "children_ok h c refs \<longleftrightarrow> (\<forall>(child, entry)\<in>set refs. child \<noteq> c \<longrightarrow>
     knd_is_base child c h \<noteq> Some Stuck \<and> (knd_is_base child c h = None \<longrightarrow> ce_class (ch_entries h entry) \<noteq> None))"

lemma texts_only_children: "texts_only h h' \<Longrightarrow> children_ok h' c refs = children_ok h c refs"
  by (simp add: children_ok_def texts_only_is_base) (simp add: texts_only_def)

lemma text_stepD:
  assumes "text_step user b n h h'"
  shows "texts_only h h'" "text_ready user b h'" "length (pages user h) \<le> length (pages user h') + n"
    "idx_at h b c = Some i \<Longrightarrow> idx_at h' b c = Some i"
    "idx_at h b c = Some i \<Longrightarrow>
      c_text_idxs (ch_classes h' c) \<in> {c_text_idxs (ch_classes h c), from_kind b (c_text_idxs (ch_classes h c))}"
  using assms by (simp_all add: text_step_def)

lemma update_children_step:
  assumes "text_ready user b h" and "blueprint_of h src = Some b" and "ce_class (ch_entries h entry) = Some c"
    and "children_ok h c refs" and "3 * length refs \<le> length (pages user h)"
  shows "\<exists>h'. update_children user idx term_idx entry var src refs h = (None, h') \<and> text_step user b (3 * length refs) h h' \<and>
    same_counts b h h'"
  using assms
proof (induction refs arbitrary: h)
  case Nil
  then show ?case using text_step_refl by simp
next
  case (Cons ref refs)
  obtain child child_entry where ref: "ref = (child, child_entry)" by (cases ref)
  have rest: "children_ok h c refs" using Cons.prems(4) by (simp add: children_ok_def)
  show ?case
  proof (cases "child = c")
    case True
    obtain h' where "append_child_idx user idx term_idx h = (None, h')" "text_step user b 1 h h'" "same_counts b h h'"
      by (rule append_child_step [OF Cons.prems(1), of idx term_idx]) (use Cons.prems(5) in simp_all)
    then show ?thesis using True Cons.prems(3) ref text_step_mono [of user b 1 h h' "3 * length (ref # refs)"] by simp
  next
    case False
    then have child: "knd_is_base child c h \<noteq> Some Stuck" "knd_is_base child c h = None \<Longrightarrow> ce_class (ch_entries h child_entry) \<noteq> None"
      using Cons.prems(4) ref by (auto simp: children_ok_def)
    show ?thesis
    proof (cases "knd_is_base child c h")
      case (Some e)
      then obtain err where e: "e = Err err" using child(1) by (cases e) auto
      have "3 * length refs \<le> length (pages user h)" using Cons.prems(5) by simp
      from Cons.IH [OF Cons.prems(1-3) rest this] obtain h' where
        "update_children user idx term_idx entry var src refs h = (None, h')" "text_step user b (3 * length refs) h h'"
        "same_counts b h h'" by blast
      then show ?thesis
        using False Some e Cons.prems(3) ref text_step_mono [of user b "3 * length refs" h h' "3 * length (ref # refs)"] by simp
    next
      case None
      then obtain k where k: "ce_class (ch_entries h child_entry) = Some k" using child(2) by blast
      obtain j h1 where h1: "get_class_idx user k var src h = Inr (j, h1)" "text_step user b 2 h h1" "same_counts b h h1"
        by (rule get_class_idx_step [OF Cons.prems(1,2), of k var]) (use Cons.prems(5) in auto)
      note s1 = text_stepD [OF h1(2)]
      obtain h2 where h2: "append_child_idx user idx j h1 = (None, h2)" "text_step user b 1 h1 h2" "same_counts b h1 h2"
        by (rule append_child_step [OF s1(2), of idx j]) (use Cons.prems(5) s1(3) in simp_all)
      note t2 = text_step_trans [OF h1(2) h2(2)]
      note s2 = text_stepD [OF t2]
      have "blueprint_of h2 src = Some b" "ce_class (ch_entries h2 entry) = Some c" "children_ok h2 c refs"
        using Cons.prems(2,3) rest texts_only_blueprint [OF s2(1)] texts_only_children [OF s2(1)] s2(1)
        by (simp_all add: texts_only_def)
      moreover have "3 * length refs \<le> length (pages user h2)" using Cons.prems(5) s2(3) by simp
      ultimately obtain h' where h': "update_children user idx term_idx entry var src refs h2 = (None, h')"
        "text_step user b (3 * length refs) h2 h'" "same_counts b h2 h'" using Cons.IH [OF s2(2)] by blast
      have "update_children user idx term_idx entry var src (ref # refs) h = (None, h')"
        using False None k h1(1) h2(1) h'(1) Cons.prems(3) ref by simp
      moreover have "text_step user b (3 * length (ref # refs)) h h'"
        by (rule text_step_mono [OF text_step_trans [OF t2 h'(2)]]) simp
      moreover have "same_counts b h h'" by (rule same_counts_trans [OF same_counts_trans [OF h1(3) h2(3)] h'(3)])
      ultimately show ?thesis by blast
    qed
  qed
qed

definition ancestor_pages :: "class_heap \<Rightarrow> nat \<Rightarrow> nat" where
  "ancestor_pages h base = 2 + 3 * length (c_children (ch_classes h base))"

lemma update_ancestor_step:
  assumes "text_ready user b h" and "blueprint_of h src = Some b" and "ce_class (ch_entries h (cd_entry (ch_class_declars h decl))) = Some c"
    and "children_ok h c (c_children (ch_classes h base))" and "ancestor_pages h base \<le> length (pages user h)"
  obtains h' where "update_ancestor_idx user base decl var src term_idx h = (None, h')" "text_step user b (ancestor_pages h base) h h'"
    "text_locs h' b = text_locs h b" "text_total h' b = (text_total h b)(base := text_total h b base + 1)"
    "idx_at h b base \<noteq> None \<Longrightarrow> c_text_idxs (ch_classes h' base) = from_kind b (c_text_idxs (ch_classes h base))"
proof -
  let ?refs = "c_children (ch_classes h base)"
  obtain i h1 where h1: "get_class_idx user base var src h = Inr (i, h1)" "text_step user b 2 h h1" "same_counts b h h1"
    "idx_at h1 b base = Some i"
    "idx_at h b base \<noteq> None \<Longrightarrow> c_text_idxs (ch_classes h1 base) = from_kind b (c_text_idxs (ch_classes h base))"
    by (rule get_class_idx_step [OF assms(1,2), of base var]) (use assms(5) in \<open>auto simp: ancestor_pages_def\<close>)
  note s1 = text_stepD [OF h1(2)]
  have same: "c_children (ch_classes h1 base) = ?refs" "cd_entry (ch_class_declars h1 decl) = cd_entry (ch_class_declars h decl)"
    using texts_only_class(3) [OF s1(1)] s1(1) by (simp_all add: texts_only_def)
  have "blueprint_of h1 src = Some b" "ce_class (ch_entries h1 (cd_entry (ch_class_declars h1 decl))) = Some c" "children_ok h1 c ?refs"
    using assms(2-4) texts_only_blueprint [OF s1(1)] texts_only_children [OF s1(1)] s1(1) same by (simp_all add: texts_only_def)
  moreover have "3 * length ?refs \<le> length (pages user h1)" using assms(5) s1(3) by (simp add: ancestor_pages_def)
  ultimately obtain h2 where h2: "update_children user i term_idx (cd_entry (ch_class_declars h1 decl)) var src ?refs h1 = (None, h2)"
    "text_step user b (3 * length ?refs) h1 h2" "same_counts b h1 h2" using update_children_step [OF s1(2)] by blast
  note s2 = text_stepD [OF h2(2)]
  note count = count_step [OF s2(2) s2(4) [OF h1(4)]]
  define h' where "h' = update_idx i (\<lambda>x. x\<lparr>cx_total_locs := cx_total_locs x + 1\<rparr>) h2"
  have "update_ancestor_idx user base decl var src term_idx h = (None, h')"
    using h1(1) h2(1) by (simp add: update_ancestor_idx_def same(1) h'_def)
  moreover have "text_step user b (ancestor_pages h base) h h'"
    using text_step_trans [OF text_step_trans [OF h1(2) h2(2)] count(1)] by (simp add: ancestor_pages_def h'_def)
  moreover have "text_locs h' b = text_locs h b" "text_total h' b = (text_total h b)(base := text_total h b base + 1)"
    using count(2,3) h1(3) h2(3) by (simp_all add: same_counts_def h'_def)
  moreover have "c_text_idxs (ch_classes h' base) = from_kind b (c_text_idxs (ch_classes h base))" if "idx_at h b base \<noteq> None"
    using h1(5) [OF that] s2(5) [OF h1(4)] by (simp add: h'_def update_idx_def from_kind_idem)
  ultimately show thesis by (rule that)
qed

text \<open>The ancestors of a class are in the repository, with the classes of their entries.\<close>

definition local_ref :: "class_heap \<Rightarrow> nat \<Rightarrow> nat \<Rightarrow> nat \<times> nat \<Rightarrow> bool" where
  "local_ref h repo c ref \<longleftrightarrow> ce_repo (ch_entries h (snd ref)) = repo \<and>
     (\<exists>base. ce_class (ch_entries h (snd ref)) = Some base \<and> children_ok h c (c_children (ch_classes h base)))"

definition ref_class :: "class_heap \<Rightarrow> nat \<times> nat \<Rightarrow> nat" where
  "ref_class h ref = the (ce_class (ch_entries h (snd ref)))"

definition refs_pages :: "class_heap \<Rightarrow> (nat \<times> nat) list \<Rightarrow> nat" where
  "refs_pages h refs = sum_list (map (ancestor_pages h \<circ> ref_class h) refs)"

lemma texts_only_refs:
  assumes "texts_only h h'"
  shows "local_ref h' repo c ref = local_ref h repo c ref" "ref_class h' = ref_class h" "refs_pages h' refs = refs_pages h refs"
proof -
  have e: "ch_entries h' = ch_entries h" using assms by (simp add: texts_only_def)
  show "local_ref h' repo c ref = local_ref h repo c ref" "ref_class h' = ref_class h"
    by (simp_all add: local_ref_def e texts_only_children [OF assms] texts_only_class [OF assms] ref_class_def fun_eq_iff)
  have "ancestor_pages h' = ancestor_pages h" by (simp add: ancestor_pages_def texts_only_class [OF assms] fun_eq_iff)
  then show "refs_pages h' refs = refs_pages h refs" using \<open>ref_class h' = ref_class h\<close> by (simp add: refs_pages_def)
qed

lemma same_ancestor:
  "c_ancestors (ch_classes h c) = prev @ ref # refs \<Longrightarrow>
   update_class c (\<lambda>c. c\<lparr>c_ancestors := (c_ancestors c)[length prev := ref]\<rparr>) h = h"
  by (simp add: update_class_def fun_upd_idem)

lemma index_decl_ancestors_step:
  assumes "text_ready user b h" and "blueprint_of h inst = Some b" and "ce_class (ch_entries h (cd_entry (ch_class_declars h decl))) = Some c"
    and "\<forall>ref\<in>set refs. local_ref h repo c ref" and "refs_pages h refs \<le> length (pages user h)"
    and "c_ancestors (ch_classes h c) = prev @ refs"
  shows "\<exists>h'. index_decl_ancestors user repo commit decl var inst idx c (length prev) refs h = (None, h') \<and>
    text_step user b (refs_pages h refs) h h' \<and> text_locs h' b = text_locs h b \<and>
    (\<forall>x. text_total h' b x = text_total h b x + of_nat (count_list (map (ref_class h) refs) x)) \<and>
    (\<forall>x\<in>ref_class h ` set refs. idx_at h b x \<noteq> None \<longrightarrow> c_text_idxs (ch_classes h' x) = from_kind b (c_text_idxs (ch_classes h x)))"
  using assms
proof (induction refs arbitrary: h prev)
  case Nil
  then show ?case using text_step_refl by (simp add: refs_pages_def)
next
  case (Cons ref refs)
  obtain base0 entry where ref: "ref = (base0, entry)" by (cases ref)
  have loc: "ce_repo (ch_entries h entry) = repo" and "local_ref h repo c ref" using Cons.prems(4) ref by (simp_all add: local_ref_def)
  then obtain base where base: "ce_class (ch_entries h entry) = Some base" "children_ok h c (c_children (ch_classes h base))"
    "ref_class h ref = base" by (auto simp: local_ref_def ref ref_class_def)
  have pages: "refs_pages h (ref # refs) = ancestor_pages h base + refs_pages h refs" by (simp add: refs_pages_def base(3))
  obtain h1 where h1: "update_ancestor_idx user base decl var inst idx h = (None, h1)" "text_step user b (ancestor_pages h base) h h1"
    "text_locs h1 b = text_locs h b" "text_total h1 b = (text_total h b)(base := text_total h b base + 1)"
    "idx_at h b base \<noteq> None \<Longrightarrow> c_text_idxs (ch_classes h1 base) = from_kind b (c_text_idxs (ch_classes h base))"
    by (rule update_ancestor_step [OF Cons.prems(1-3) base(2), where var = var and term_idx = idx]) (use Cons.prems(5) pages in auto)
  note s1 = text_stepD [OF h1(2)]
  have same: "ch_entries h1 = ch_entries h" "ch_class_declars h1 = ch_class_declars h" using s1(1) by (simp_all add: texts_only_def)
  have "blueprint_of h1 inst = Some b" "ce_class (ch_entries h1 (cd_entry (ch_class_declars h1 decl))) = Some c"
    "\<forall>ref\<in>set refs. local_ref h1 repo c ref"
    using Cons.prems(2,3,4) same texts_only_blueprint [OF s1(1)] texts_only_refs(1) [OF s1(1)] by simp_all
  moreover have "refs_pages h1 refs \<le> length (pages user h1)"
    using Cons.prems(5) pages s1(3) texts_only_refs(3) [OF s1(1)] by simp
  moreover have "c_ancestors (ch_classes h1 c) = (prev @ [ref]) @ refs" using Cons.prems(6) texts_only_class(2) [OF s1(1)] by simp
  ultimately obtain h' where h': "index_decl_ancestors user repo commit decl var inst idx c (length (prev @ [ref])) refs h1 = (None, h')"
    "text_step user b (refs_pages h1 refs) h1 h'" "text_locs h' b = text_locs h1 b"
    "\<And>x. text_total h' b x = text_total h1 b x + of_nat (count_list (map (ref_class h1) refs) x)"
    "\<And>x. x \<in> ref_class h1 ` set refs \<Longrightarrow> idx_at h1 b x \<noteq> None \<Longrightarrow> c_text_idxs (ch_classes h' x) = from_kind b (c_text_idxs (ch_classes h1 x))"
    using Cons.IH [OF s1(2)] by blast
  have "update_class c (\<lambda>c. c\<lparr>c_ancestors := (c_ancestors c)[length prev := (base0, entry)]\<rparr>) h = h"
    using same_ancestor Cons.prems(6) by (simp add: ref)
  then have "index_decl_ancestors user repo commit decl var inst idx c (length prev) (ref # refs) h = (None, h')"
    using base(1) h1(1) h'(1) loc by (simp add: ref local_class_entry_def)
  moreover have "text_step user b (refs_pages h (ref # refs)) h h'"
    using text_step_trans [OF h1(2) h'(2)] texts_only_refs(3) [OF s1(1)] by (simp add: pages)
  moreover have "text_locs h' b = text_locs h b" using h'(3) h1(3) by simp
  moreover have "text_total h' b x = text_total h b x + of_nat (count_list (map (ref_class h) (ref # refs)) x)" for x
    using h'(4) [of x] h1(4) texts_only_refs(2) [OF s1(1)] base(3) by simp
  moreover have "c_text_idxs (ch_classes h' x) = from_kind b (c_text_idxs (ch_classes h x))"
    if x: "x \<in> ref_class h ` set (ref # refs)" and i: "idx_at h b x = Some i" for x i
  proof -
    note k1 = s1(4,5) [OF i] note k2 = text_stepD(5) [OF h'(2) k1(1)]
    show ?thesis
    proof (cases "x = base")
      case True
      then show ?thesis using h1(5) i k2 by (auto simp: from_kind_idem)
    next
      case False
      then have "x \<in> ref_class h1 ` set refs" using x base(3) texts_only_refs(2) [OF s1(1)] by auto
      from h'(5) [OF this] show ?thesis using k1 by (auto simp: from_kind_idem)
    qed
  qed
  ultimately show ?case by blast
qed

lemma index_class_inst_step:
  assumes "text_ready user b h" and "blueprint_of h inst = Some b" and "3 \<le> length (pages user h)"
  obtains idx h' where "index_class_inst user c decl sent par var inst h = Inr (idx, h')" "text_step user b 3 h h'"
    "text_total h' b = text_total h b"
    "text_locs h' b = (if length (text_locs h b c) < 64 then (text_locs h b)(c := declar_loc inst par sent decl h # text_locs h b c) else text_locs h b)"
proof -
  obtain i ref h1 where h1: "text_ref_of user c b (av_attr (ch_attr_vars h var)) h = Inr (ref, h1)" "tr_idx ref = Some i"
    "text_step user b 2 h h1" "same_counts b h h1" "idx_at h1 b c = Some i"
    by (rule text_ref_of_step [OF assms(1), of c "av_attr (ch_attr_vars h var)"]) (use assms(3) in auto)
  note s1 = text_stepD [OF h1(3)]
  obtain p h2 where h2: "take_page knd_class_ref_new user h1 = Inr (p, h2)" "pages user h1 = p # pages user h2"
    "p \<notin> set (pages user h2)" "index_pool (text_pool user h2)" "texts_only h1 h2" "ch_classes h2 = ch_classes h1"
    "ch_class_idxs h2 = ch_class_idxs h1"
    by (rule take_page_ok [of user h1]) (use s1(2,3) assms(3) in \<open>auto simp: text_ready_def\<close>)
  note t2 = taken_step [OF s1(2) h2(2-7)]
  note t = text_step_trans [OF h1(3) t2(1)]
  have counts: "same_counts b h h2" by (rule same_counts_trans [OF h1(4) t2(2)])
  have "idx_at h2 b c = Some i" using h1(5) t2(3) by simp
  note l = loc_step [OF text_stepD(2) [OF t] this]
  have declar: "declar_loc inst par sent decl h2 = declar_loc inst par sent decl h"
    using text_stepD(1) [OF t] by (simp add: declar_loc_def texts_only_def)
  have "index_class_inst user c decl sent par var inst h = Inr (i, add_text_loc i (declar_loc inst par sent decl h) h2)"
    using h1(1,2) h2(1) by (simp add: index_class_inst_def assms(2) page_news declar)
  moreover have "text_step user b 3 h (add_text_loc i (declar_loc inst par sent decl h) h2)" by (rule text_step_mono [OF text_step_trans [OF t l(1)]]) simp
  ultimately show thesis using l(2,3) counts that by (simp add: same_counts_def)
qed

lemma declar_runs:
  assumes "text_ready user b h" and "blueprint_of h inst = Some b" and "ce_repo (ch_entries h (cd_entry (ch_class_declars h decl))) = repo"
    and "ce_class (ch_entries h (cd_entry (ch_class_declars h decl))) = Some c"
    and "\<forall>ref\<in>set (c_ancestors (ch_classes h c)). local_ref h repo c ref"
    and "3 + refs_pages h (c_ancestors (ch_classes h c)) \<le> length (pages user h)"
  obtains h' where "index_class_declar user decl sent par var inst repo commit h = (None, h')"
    "text_step user b (3 + refs_pages h (c_ancestors (ch_classes h c))) h h'"
    "\<And>x. text_total h' b x = text_total h b x + of_nat (count_list (map (ref_class h) (c_ancestors (ch_classes h c))) x)"
    "text_locs h' b = (if length (text_locs h b c) < 64 then (text_locs h b)(c := declar_loc inst par sent decl h # text_locs h b c) else text_locs h b)"
    "\<And>x. x \<in> ref_class h ` set (c_ancestors (ch_classes h c)) \<Longrightarrow> idx_at h b x \<noteq> None \<Longrightarrow>
      c_text_idxs (ch_classes h' x) = from_kind b (c_text_idxs (ch_classes h x))"
proof -
  let ?refs = "c_ancestors (ch_classes h c)"
  obtain idx h1 where h1: "index_class_inst user c decl sent par var inst h = Inr (idx, h1)" "text_step user b 3 h h1"
    "text_total h1 b = text_total h b"
    "text_locs h1 b = (if length (text_locs h b c) < 64 then (text_locs h b)(c := declar_loc inst par sent decl h # text_locs h b c) else text_locs h b)"
    by (rule index_class_inst_step [OF assms(1,2), of c decl sent par var]) (use assms(6) in auto)
  note s1 = text_stepD [OF h1(2)]
  have same: "ch_entries h1 = ch_entries h" "ch_class_declars h1 = ch_class_declars h" using s1(1) by (simp_all add: texts_only_def)
  have f: "blueprint_of h1 inst = Some b" "ce_class (ch_entries h1 (cd_entry (ch_class_declars h1 decl))) = Some c"
    "\<forall>ref\<in>set ?refs. local_ref h1 repo c ref" "refs_pages h1 ?refs \<le> length (pages user h1)"
    "c_ancestors (ch_classes h1 c) = [] @ ?refs"
    using assms(2,4,5,6) same texts_only_blueprint [OF s1(1)] texts_only_refs [OF s1(1)] texts_only_class(2) [OF s1(1)] s1(3)
    by simp_all
  obtain h' where h': "index_decl_ancestors user repo commit decl var inst idx c (length ([] :: (nat \<times> nat) list)) ?refs h1 = (None, h')"
    "text_step user b (refs_pages h1 ?refs) h1 h'" "text_locs h' b = text_locs h1 b"
    "\<And>x. text_total h' b x = text_total h1 b x + of_nat (count_list (map (ref_class h1) ?refs) x)"
    "\<And>x. x \<in> ref_class h1 ` set ?refs \<Longrightarrow> idx_at h1 b x \<noteq> None \<Longrightarrow> c_text_idxs (ch_classes h' x) = from_kind b (c_text_idxs (ch_classes h1 x))"
    using index_decl_ancestors_step [OF s1(2) f, of commit var idx] by blast
  have "h\<lparr>ch_class_declars := (ch_class_declars h)(decl := (ch_class_declars h decl)\<lparr>cd_entry := cd_entry (ch_class_declars h decl)\<rparr>)\<rparr> = h"
    by (simp add: fun_upd_idem)
  then have "index_class_declar user decl sent par var inst repo commit h = (None, h')"
    using assms(3,4) h1(1) h'(1) texts_only_class(2) [OF s1(1)]
    by (simp add: index_class_declar_def local_class_entry_def Let_def)
  moreover have "text_step user b (3 + refs_pages h ?refs) h h'"
    using text_step_trans [OF h1(2) h'(2)] texts_only_refs(3) [OF s1(1)] by simp
  moreover have "c_text_idxs (ch_classes h' x) = from_kind b (c_text_idxs (ch_classes h x))"
    if "x \<in> ref_class h ` set ?refs" "idx_at h b x \<noteq> None" for x
    using h'(5) [of x] that texts_only_refs(2) [OF s1(1)] s1(4,5) [of x] by (auto simp: from_kind_idem)
  ultimately show thesis
    using that h1(3,4) h'(3,4) texts_only_refs(2) [OF s1(1)] by simp
qed

section \<open>Properties\<close>

lemma count_list_distinct: "distinct xs \<Longrightarrow> count_list xs x = (if x \<in> set xs then 1 else 0)"
  by (induction xs) auto

text \<open>C14: indexing the declaration of a class in a text succeeds when the class and all its ancestors are in the repository
  of the text and pages are left. Of the indices for the blueprint of the instance, the one of the class gets the
  place of the declaration in front, as long as it has less than 64 places, and no other class gets a place; the one of
  each class counts one text more for each time the class is among the ancestors, so exactly one more for each ancestor
  when no ancestor is listed twice. Of entries, instances and classes nothing but the lists of indices of texts changes.
  (Of the indices for other blueprints nothing is said.)\<close>
theorem text_declar_counts:
  assumes "text_ready user b h" and "blueprint_of h inst = Some b" and "ce_repo (ch_entries h (cd_entry (ch_class_declars h decl))) = repo"
    and "ce_class (ch_entries h (cd_entry (ch_class_declars h decl))) = Some c"
    and "\<forall>ref\<in>set (c_ancestors (ch_classes h c)). local_ref h repo c ref"
    and "3 + refs_pages h (c_ancestors (ch_classes h c)) \<le> length (pages user h)"
  shows "\<exists>h'. index_class_declar user decl sent par var inst repo commit h = (None, h') \<and> text_ready user b h' \<and> texts_only h h' \<and>
    (\<forall>x. text_total h' b x = text_total h b x + of_nat (count_list (map (ref_class h) (c_ancestors (ch_classes h c))) x)) \<and>
    (distinct (map (ref_class h) (c_ancestors (ch_classes h c))) \<longrightarrow>
      (\<forall>x. text_total h' b x = text_total h b x + (if x \<in> ref_class h ` set (c_ancestors (ch_classes h c)) then 1 else 0))) \<and>
    text_locs h' b =
      (if length (text_locs h b c) < 64
       then (text_locs h b)(c := (declar_loc inst par sent decl h) # text_locs h b c)
       else text_locs h b)"
proof -
  obtain h' where "index_class_declar user decl sent par var inst repo commit h = (None, h')"
    "text_step user b (3 + refs_pages h (c_ancestors (ch_classes h c))) h h'"
    "\<And>x. text_total h' b x = text_total h b x + of_nat (count_list (map (ref_class h) (c_ancestors (ch_classes h c))) x)"
    "text_locs h' b = (if length (text_locs h b c) < 64
       then (text_locs h b)(c := (declar_loc inst par sent decl h) # text_locs h b c)
       else text_locs h b)"
    by (rule declar_runs [OF assms, of sent par var commit]) blast
  moreover from this(3) have "\<forall>x. text_total h' b x = text_total h b x + (if x \<in> ref_class h ` set (c_ancestors (ch_classes h c)) then 1 else 0)"
    if "distinct (map (ref_class h) (c_ancestors (ch_classes h c)))"
    using count_list_distinct [OF that] by simp
  ultimately show ?thesis using text_stepD(1,2) by blast
qed

text \<open>C15: an ancestor that has indices of several kinds of texts loses those of the kinds that are newer than the one
  that is indexed: its texts of these kinds are not found any more.\<close>
theorem text_kinds_lost:
  assumes "text_ready user b h" and "blueprint_of h inst = Some b" and "ce_repo (ch_entries h (cd_entry (ch_class_declars h decl))) = repo"
    and "ce_class (ch_entries h (cd_entry (ch_class_declars h decl))) = Some c"
    and "\<forall>ref\<in>set (c_ancestors (ch_classes h c)). local_ref h repo c ref"
    and "3 + refs_pages h (c_ancestors (ch_classes h c)) \<le> length (pages user h)"
    and "base \<in> ref_class h ` set (c_ancestors (ch_classes h c))"
    and "c_text_idxs (ch_classes h base) = newer @ ref # older" and "tr_entry ref = b" and "b \<notin> tr_entry ` set newer"
    and "k \<in> tr_entry ` set newer" and "k \<notin> tr_entry ` set older"
  shows "find_text_ref k (c_text_idxs (ch_classes h base)) \<noteq> None \<and>
    (\<exists>h'. index_class_declar user decl sent par var inst repo commit h = (None, h') \<and>
      find_text_ref k (c_text_idxs (ch_classes h' base)) = None)"
proof -
  have drop: "from_kind b (newer @ ref # older) = ref # older"
    using assms(9,10) by (induction newer) auto
  have "find_text_ref b (c_text_idxs (ch_classes h base)) \<noteq> None" using assms(8,9) by (simp add: find_text_ref_None)
  then have "idx_at h b base \<noteq> None" using idx_at_none [OF assms(1), of base] by metis
  moreover obtain h' where h': "index_class_declar user decl sent par var inst repo commit h = (None, h')"
    "\<And>x. x \<in> ref_class h ` set (c_ancestors (ch_classes h c)) \<Longrightarrow> idx_at h b x \<noteq> None \<Longrightarrow>
      c_text_idxs (ch_classes h' x) = from_kind b (c_text_idxs (ch_classes h x))"
    by (rule declar_runs [OF assms(1-6), of sent par var commit]) blast
  ultimately have "c_text_idxs (ch_classes h' base) = ref # older" using assms(7,8) drop by simp
  moreover have "k \<noteq> b" using assms(10,11) by auto
  ultimately show ?thesis
    using h'(1) assms(8,9,11,12) by (simp add: find_text_ref_None image_Un)
qed

section \<open>Samples\<close>

text \<open>
  The class of entry 1 derives from that of entry 0, which has indices of the texts of the classes 8 and 7. The
  instance is of class 7.
\<close>

definition text_pages :: kndMemPool where
  "text_pages = small_pool\<lparr>mp_tiny := empty_class\<lparr>pc_pages := 4096, pc_page_size := 64, pc_num_pages := 8\<rparr>\<rparr>"

definition text_class :: "nat \<Rightarrow> kndClass" where
  "text_class c = cleared_class\<lparr>c_entry := c, c_ancestors := if c = 1 then [(0, 0)] else [], c_children := if c = 0 then [(1, 1)] else [],
     c_text_idxs := if c = 0 then [\<lparr>tr_entry = 8, tr_attr = None, tr_idx = Some 20\<rparr>, \<lparr>tr_entry = 7, tr_attr = None, tr_idx = Some 21\<rparr>] else []\<rparr>"

definition text_heap :: class_heap where
  "text_heap = sample_heap
     \<lparr>ch_classes := text_class, ch_class_declars := (\<lambda>_. \<lparr>cd_entry = 1, cd_insts = []\<rparr>), ch_mempool := text_pages,
      ch_entries := (\<lambda>e. \<lparr>ce_id = [], ce_numid = 0, ce_name = [], ce_repo = 0, ce_base = None, ce_class = Some e,
        ce_phase = KND_CREATED, ce_dict_item = None\<rparr>),
      ch_inst_entries := (\<lambda>_. \<lparr>ie_id = [], ie_name = [], ie_blueprint = Some 7, ie_inst = None, ie_attr_idxs = []\<rparr>)\<rparr>"

definition text_par :: kndPar where
  "text_par = \<lparr>pr_numid = 1, pr_sents = []\<rparr>"

definition text_sent :: kndSentence where
  "text_sent = \<lparr>se_numid = 2, se_seq = [], se_clause_subj = None, se_stm = None\<rparr>"

lemma text_pages_ok: "index_pool text_pages" "refs_left text_pages = map (\<lambda>i. 4096 + 64 * i) [0..<8]"
proof -
  have "class_ok (page_class t text_pages)" for t
    by (cases t) (simp_all add: text_pages_def small_pool_def knd_mempool_new_def empty_class_def class_ok_def)
  then show "index_pool text_pages"
    by (simp add: index_pool_def nodes_ready_def pool_ready_def)
      (simp add: text_pages_def small_pool_def knd_mempool_new_def empty_class_def)
  show "refs_left text_pages = map (\<lambda>i. 4096 + 64 * i) [0..<8]"
    by (simp add: pages_left_def text_pages_def small_pool_def knd_mempool_new_def empty_class_def class_pages_def upt_rec)
qed

lemma text_heap_simps:
  "ch_classes text_heap = text_class" "text_pool False text_heap = text_pages" "cd_entry (ch_class_declars text_heap d) = 1"
  "ce_repo (ch_entries text_heap e) = 0" "ce_class (ch_entries text_heap e) = Some e" "blueprint_of text_heap i = Some 7"
  "ch_class_idxs text_heap = (\<lambda>_. new_class_idx)"
  by (simp_all add: text_heap_def text_pool_def blueprint_of_def sample_heap_def)

lemma text_heap_idx: "idx_at text_heap 7 c = (if c = 0 then Some 21 else None)"
  by (simp add: idx_at_def text_heap_simps text_class_def cleared_class_def find_text_ref_def)

lemma text_heap_ready: "text_ready False 7 text_heap"
  unfolding text_ready_def text_heap_idx text_heap_simps text_pages_ok(2)
  using text_pages_ok(1) by (auto simp: text_class_def cleared_class_def find_text_ref_def new_class_idx_def)

lemma text_heap_refs:
  "c_ancestors (ch_classes text_heap 1) = [(0, 0)]" "\<forall>ref\<in>set [(0, 0)]. local_ref text_heap 0 1 ref"
  "ref_class text_heap (0, 0) = 0" "refs_pages text_heap [(0, 0)] = 5"
  by (simp_all add: local_ref_def ref_class_def refs_pages_def ancestor_pages_def children_ok_def text_heap_simps)
    (simp_all add: text_class_def)

theorem text_declar_counts_witness:
  "\<exists>h'. index_class_declar False 3 text_sent text_par 4 5 0 6 text_heap = (None, h') \<and> text_total h' 7 0 = 1 \<and>
     map tl_par_id (text_locs h' 7 1) = [1]"
proof -
  have "text_total text_heap 7 0 = 0" "text_locs text_heap 7 1 = []"
    by (simp_all add: text_total_def text_locs_def text_heap_idx) (simp add: text_heap_simps new_class_idx_def)
  then show ?thesis
    using text_declar_counts [OF text_heap_ready, of 5 3 0 1 text_sent text_par 4 6] text_heap_refs text_pages_ok(2)
    by (auto simp: text_heap_simps declar_loc_def text_par_def)
qed

theorem text_kinds_lost_witness:
  "find_text_ref 8 (c_text_idxs (text_class 0)) \<noteq> None \<and>
   (\<exists>h'. index_class_declar False 3 text_sent text_par 4 5 0 6 text_heap = (None, h') \<and>
      find_text_ref 8 (c_text_idxs (ch_classes h' 0)) = None)"
proof -
  have "c_text_idxs (ch_classes text_heap 0) =
      [\<lparr>tr_entry = 8, tr_attr = None, tr_idx = Some 20\<rparr>] @ \<lparr>tr_entry = 7, tr_attr = None, tr_idx = Some 21\<rparr> # []"
    by (simp add: text_heap_simps text_class_def)
  from text_kinds_lost [OF text_heap_ready _ _ _ _ _ _ this, of 5 3 0 1 8 text_sent text_par 4 6]
  show ?thesis using text_heap_refs text_pages_ok(2) by (simp add: text_heap_simps)
qed

end
