(* ===== verification/Proc_Resolve.thy ===== *)
theory Proc_Resolve
  imports Proc_Heap Class_Attrs
begin

text \<open>
  Resolving a procedure: its arguments, its base procedures, and the arguments that it inherits.
  \<^verbatim>\<open>src/knd_proc.resolve.c\<close>, with the functions on arguments of \<^verbatim>\<open>src/knd_proc_arg.c\<close> and \<^verbatim>\<open>src/knd_repo.c\<close>. A procedure
  resolves its bases first, so the function has fuel; \<open>proc_resolve_returns\<close> shows how much is enough.
\<close>

section \<open>Arguments\<close>

definition update_arg :: "nat \<Rightarrow> (kndProcArg \<Rightarrow> kndProcArg) \<Rightarrow> class_heap \<Rightarrow> class_heap" where
  "update_arg a f h = h\<lparr>ch_args := (ch_args h)(a := f (ch_args h a))\<rparr>"

definition update_arg_var :: "nat \<Rightarrow> (kndProcArgVar \<Rightarrow> kndProcArgVar) \<Rightarrow> class_heap \<Rightarrow> class_heap" where
  "update_arg_var v f h = h\<lparr>ch_arg_vars := (ch_arg_vars h)(v := f (ch_arg_vars h v))\<rparr>"

definition update_arg_ref :: "nat \<Rightarrow> (kndProcArgRef \<Rightarrow> kndProcArgRef) \<Rightarrow> class_heap \<Rightarrow> class_heap" where
  "update_arg_ref r f h = h\<lparr>ch_arg_refs := (ch_arg_refs h)(r := f (ch_arg_refs h r))\<rparr>"

definition proc_repo :: "class_heap \<Rightarrow> nat \<Rightarrow> nat" where
  "proc_repo h p = pe_repo (ch_proc_entries h (po_entry (ch_procs h p)))"

text \<open>The class of an argument and the procedure that it calls are found in the repository itself.\<close>

definition resolve_arg_class :: "nat \<Rightarrow> nat \<Rightarrow> class_heap \<Rightarrow> failure option \<times> class_heap" where
  "resolve_arg_class repo self h =
     (if pa_classname (ch_args h self) = [] then (None, h)
      else
        (case knd_shared_dict_get (repo_class_name_idx (ch_repos h repo)) (pa_classname (ch_args h self)) of
           Inl e \<Rightarrow> (Some e, h)
         | Inr None \<Rightarrow> (Some (Err knd_NO_MATCH), h)
         | Inr (Some entry) \<Rightarrow> (None, update_arg self (\<lambda>a. a\<lparr>pa_template := Some entry\<rparr>) h)))"

definition knd_proc_arg_resolve :: "nat \<Rightarrow> nat \<Rightarrow> class_heap \<Rightarrow> failure option \<times> class_heap" where
  "knd_proc_arg_resolve repo self h =
     then_step (resolve_arg_class repo self h) (\<lambda>h.
       case pa_proc_call (ch_args h self) of
         None \<Rightarrow> (None, h)
       | Some (name, _) \<Rightarrow>
           (case knd_shared_dict_get (ch_proc_name_idx h repo) name of
              Inl e \<Rightarrow> (Some e, h)
            | Inr None \<Rightarrow> (Some (Err knd_FAIL), h)
            | Inr (Some proc_entry) \<Rightarrow>
                (None, update_arg self (\<lambda>a. a\<lparr>pa_proc_call := Some (name, pe_proc (ch_proc_entries h proc_entry))\<rparr>) h)))"

definition number_arg :: "nat \<Rightarrow> nat \<Rightarrow> class_heap \<Rightarrow> failure option \<times> class_heap" where
  "number_arg repo arg h =
     (let ra = ch_repo_args h repo; numid = rp_arg_id_count ra + 1;
          h = h\<lparr>ch_repo_args := (ch_repo_args h)(repo := ra\<lparr>rp_arg_id_count := numid\<rparr>)\<rparr> in
      case knd_uid_create numid of
        Inl e \<Rightarrow> (Some e, h)
      | Inr uid \<Rightarrow> (None, update_arg arg (\<lambda>a. a\<lparr>pa_numid := numid, pa_id := uid\<rparr>) h))"

text \<open>In the initial load and in the restoration an argument is registered with the repository, by name and number.\<close>

definition register_arg :: "nat \<Rightarrow> nat \<Rightarrow> nat \<Rightarrow> nat \<Rightarrow> class_heap \<Rightarrow> failure option \<times> class_heap" where
  "register_arg repo proc arg arg_ref h =
     (let ra = ch_repo_args h repo; name = pa_name (ch_args h arg) in
      if knd_proc_get_arg proc name h = Inl Stuck then (Some Stuck, h)
      else
        (case knd_shared_dict_get (rp_name_idx ra) name of
           Inl e \<Rightarrow> (Some e, h)
         | Inr next_refs \<Rightarrow>
             (case knd_shared_dict_set (rp_name_idx ra) name (Some (arg_ref # (case next_refs of None \<Rightarrow> [] | Some refs \<Rightarrow> refs)))
                 (ch_mempool h) None True of
                (err, _, name_idx, mempool) \<Rightarrow>
                  then_step
                    (err, h\<lparr>ch_repo_args := (ch_repo_args h)(repo := ra\<lparr>rp_name_idx := name_idx\<rparr>), ch_mempool := mempool\<rparr>)
                    (add_to_set (rp_arg_idx ra) (pa_id (ch_args h arg)) arg_ref))))"

definition task_arg_set :: "nat \<Rightarrow> nat \<Rightarrow> class_heap \<Rightarrow> failure option \<times> class_heap" where
  "task_arg_set arg arg_ref h =
     (case knd_dict_set (ch_task_arg_name_idx h) (ch_mempool h) (pa_name (ch_args h arg)) (Some arg_ref) of
        (err, name_idx, mempool) \<Rightarrow> (err, h\<lparr>ch_task_arg_name_idx := name_idx, ch_mempool := mempool\<rparr>))"

definition knd_repo_index_proc_arg :: "knd_task_spec_type \<Rightarrow> nat \<Rightarrow> nat \<Rightarrow> nat \<Rightarrow> class_heap \<Rightarrow> failure option \<times> class_heap" where
  "knd_repo_index_proc_arg task_type repo proc arg h =
     then_step (number_arg repo arg h) (\<lambda>h.
       case knd_proc_arg_ref_new (ch_mempool h) of
         Inl e \<Rightarrow> (Some e, h)
       | Inr (arg_ref, mempool) \<Rightarrow>
           (let h = update_arg_ref arg_ref (\<lambda>_. \<lparr>gr_arg = arg, gr_var = None, gr_proc = proc\<rparr>) (h\<lparr>ch_mempool := mempool\<rparr>) in
            if task_type \<in> {KND_RESTORE_STATE, KND_BULK_LOAD_STATE} then register_arg repo proc arg arg_ref h
            else task_arg_set arg arg_ref h))"

text \<open>The class that a value names has to derive from the class of the value that is inherited.\<close>

definition resolve_arg_val :: "nat \<Rightarrow> nat \<Rightarrow> nat option \<Rightarrow> class_heap \<Rightarrow> failure option \<times> class_heap" where
  "resolve_arg_val repo var c h =
     (if gv_val (ch_arg_vars h var) = [] then (None, h)
      else
        (case knd_shared_dict_get (repo_class_name_idx (ch_repos h repo)) (gv_val (ch_arg_vars h var)) of
           Inl e \<Rightarrow> (Some e, h)
         | Inr None \<Rightarrow> (Some (Err knd_NO_MATCH), h)
         | Inr (Some entry) \<Rightarrow>
             (let h = update_arg_var var (\<lambda>v. v\<lparr>gv_template := Some entry\<rparr>) h in
              case c of
                None \<Rightarrow> (None, h)
              | Some c \<Rightarrow>
                  (case ce_class (ch_entries h entry) of
                     None \<Rightarrow> (Some Stuck, h)
                   | Some child \<Rightarrow> if c = child then (Some (Err knd_FORMAT), h) else (knd_is_base c child h, h)))))"

definition knd_resolve_proc_arg_var :: "nat \<Rightarrow> nat \<Rightarrow> class_heap \<Rightarrow> failure option \<times> class_heap" where
  "knd_resolve_proc_arg_var proc var h =
     (case knd_proc_get_arg proc (gv_name (ch_arg_vars h var)) h of
        Inl e \<Rightarrow> (Some e, h)
      | Inr ref \<Rightarrow>
          (let template = Option.bind (gr_var (ch_arg_refs h ref)) (\<lambda>v. gv_template (ch_arg_vars h v));
               c = Option.bind template (\<lambda>entry. ce_class (ch_entries h entry)) in
           then_step (resolve_arg_val (proc_repo h proc) var c h)
             (\<lambda>h. (None, update_arg_ref ref (\<lambda>r. r\<lparr>gr_var := Some var\<rparr>) h))))"

section \<open>Inheriting arguments\<close>

text \<open>The callback of the set of the base: a value of the base replaces the one that \<open>self\<close> has.\<close>

definition inherit_arg :: "nat \<Rightarrow> class_heap \<Rightarrow> byte list \<Rightarrow> nat \<Rightarrow> nat \<Rightarrow> failure option \<times> class_heap" where
  "inherit_arg self h elem_id n src_ref =
     (let src = ch_arg_refs h src_ref; key = pa_id (ch_args h (gr_arg src)) in
      case po_arg_idx (ch_procs h self) of
        None \<Rightarrow> (Some Stuck, h)
      | Some arg_idx \<Rightarrow>
          (case knd_set_get (ch_sets h arg_idx) key of
             Inl Stuck \<Rightarrow> (Some Stuck, h)
           | Inr ref \<Rightarrow> (None, if gr_var src \<noteq> None then update_arg_ref ref (\<lambda>r. r\<lparr>gr_var := gr_var src\<rparr>) h else h)
           | Inl (Err _) \<Rightarrow>
               (case knd_proc_arg_ref_new (ch_mempool h) of
                  Inl e \<Rightarrow> (Some e, h)
                | Inr (ref, mempool) \<Rightarrow>
                    add_to_set arg_idx key ref (update_arg_ref ref (\<lambda>_. src) (h\<lparr>ch_mempool := mempool\<rparr>)))))"

type_synonym proc_resolver = "nat \<Rightarrow> class_heap \<Rightarrow> class_run"

definition resolve_unless_resolved :: "proc_resolver \<Rightarrow> nat \<Rightarrow> class_heap \<Rightarrow> class_run" where
  "resolve_unless_resolved resolve p h = (if po_is_resolved (ch_procs h p) then Some (None, h) else resolve p h)"

definition inherit_args :: "proc_resolver \<Rightarrow> nat \<Rightarrow> nat \<Rightarrow> class_heap \<Rightarrow> class_run" where
  "inherit_args resolve self base h =
     then_run (resolve_unless_resolved resolve base h) (\<lambda>h.
       deref (po_arg_idx (ch_procs h base)) h (\<lambda>arg_idx. Some (knd_set_map (ch_sets h arg_idx) (inherit_arg self) h)))"

section \<open>Base procedures\<close>

definition knd_resolve_proc_ref :: "nat \<Rightarrow> byte list \<Rightarrow> class_heap \<Rightarrow> nat result" where
  "knd_resolve_proc_ref self name h =
     bind_result (knd_shared_dict_get (ch_proc_name_idx h (class_repo_addr h self)) name) (\<lambda>entry.
       case entry of None \<Rightarrow> Inl (Err knd_NO_MATCH) | Some entry \<Rightarrow> Inr entry)"

definition add_proc_ancestor :: "nat \<Rightarrow> nat option \<Rightarrow> class_heap \<Rightarrow> failure option \<times> class_heap" where
  "add_proc_ancestor self base h =
     (case knd_proc_ref_new (ch_mempool h) of
        Inl e \<Rightarrow> (Some e, h)
      | Inr (_, mempool) \<Rightarrow>
          (case base of
             None \<Rightarrow> (Some Stuck, h)
           | Some base \<Rightarrow>
               (None, update_proc_entry (po_entry (ch_procs h self)) (\<lambda>e. e\<lparr>pe_ancestors := (base, po_entry (ch_procs h base)) # pe_ancestors e,
                  pe_num_ancestors := pe_num_ancestors e + 1\<rparr>) (h\<lparr>ch_mempool := mempool\<rparr>))))"

definition link_proc_ancestor :: "nat \<Rightarrow> nat \<Rightarrow> class_heap \<Rightarrow> failure option \<times> class_heap" where
  "link_proc_ancestor self base_entry h =
     (let base = pe_proc (ch_proc_entries h base_entry) in
      if base \<in> Some ` fst ` set (pe_ancestors (ch_proc_entries h (po_entry (ch_procs h self)))) then (None, h)
      else add_proc_ancestor self base h)"

fun link_proc_ancestors :: "nat \<Rightarrow> (nat \<times> nat) list \<Rightarrow> class_heap \<Rightarrow> failure option \<times> class_heap" where
  "link_proc_ancestors self [] h = (None, h)"
| "link_proc_ancestors self ((_, entry) # refs) h =
     then_step (link_proc_ancestor self entry h) (link_proc_ancestors self refs)"

definition link_base :: "nat \<Rightarrow> nat \<Rightarrow> class_heap \<Rightarrow> failure option \<times> class_heap" where
  "link_base self base h =
     then_step (link_proc_ancestors self (pe_ancestors (ch_proc_entries h (po_entry (ch_procs h base)))) h)
       (add_proc_ancestor self (Some base))"

definition find_base_proc :: "nat \<Rightarrow> nat \<Rightarrow> class_heap \<Rightarrow> (class_heap, nat) outcome" where
  "find_base_proc self v h =
     (case pv_proc (ch_proc_vars h v) of
        Some base \<Rightarrow> Inr (base, h)
      | None \<Rightarrow>
          bind_out (knd_get_proc (proc_repo h self) (pv_name (ch_proc_vars h v)) h) (\<lambda>base h.
            Inr (base, h\<lparr>ch_proc_vars := (ch_proc_vars h)(v := (ch_proc_vars h v)\<lparr>pv_proc := Some base\<rparr>)\<rparr>)))"

definition resolve_proc_base :: "proc_resolver \<Rightarrow> nat \<Rightarrow> nat \<Rightarrow> class_heap \<Rightarrow> class_run" where
  "resolve_proc_base resolve self v h =
     bind_run (Some (find_base_proc self v h)) (\<lambda>base h.
       then_run (resolve_unless_resolved resolve base h) (\<lambda>h. Some (link_base self base h)))"

definition resolve_proc_bases :: "proc_resolver \<Rightarrow> nat \<Rightarrow> class_heap \<Rightarrow> class_run" where
  "resolve_proc_bases resolve self h =
     (if po_base_is_resolved (ch_procs h self) then Some (Some Stuck, h)
      else if po_base_resolving_in_progress (ch_procs h self) then Some (Some (Err knd_FAIL), h)
      else
        then_run
          (run_each (resolve_proc_base resolve self) (po_bases (ch_procs h self))
            (update_proc self (\<lambda>p. p\<lparr>po_base_resolving_in_progress := True\<rparr>) h))
          (\<lambda>h. Some (None, update_proc self (\<lambda>p. p\<lparr>po_base_is_resolved := True\<rparr>) h)))"

section \<open>Resolving\<close>

definition prepare_arg_idx :: "nat \<Rightarrow> class_heap \<Rightarrow> failure option \<times> class_heap" where
  "prepare_arg_idx self h =
     (if po_arg_idx (ch_procs h self) \<noteq> None then (None, h)
      else
        (case new_set (ch_mempool h) h of
           Inl (e, mempool) \<Rightarrow> (Some e, h\<lparr>ch_mempool := mempool\<rparr>)
         | Inr (arg_idx, h, mempool) \<Rightarrow>
             (None, update_proc self (\<lambda>p. p\<lparr>po_arg_idx := Some arg_idx\<rparr>) (h\<lparr>ch_mempool := mempool\<rparr>))))"

definition resolve_own_arg :: "knd_task_spec_type \<Rightarrow> nat \<Rightarrow> nat \<Rightarrow> class_heap \<Rightarrow> failure option \<times> class_heap" where
  "resolve_own_arg task_type self arg h =
     then_step (knd_proc_arg_resolve (proc_repo h self) arg h) (\<lambda>h.
     then_step (knd_repo_index_proc_arg task_type (proc_repo h self) self arg h) (\<lambda>h.
       case knd_proc_arg_ref_new (ch_mempool h) of
         Inl e \<Rightarrow> (Some e, h)
       | Inr (arg_ref, mempool) \<Rightarrow>
           (case po_arg_idx (ch_procs h self) of
              None \<Rightarrow> (Some Stuck, h)
            | Some arg_idx \<Rightarrow>
                add_to_set arg_idx (pa_id (ch_args h arg)) arg_ref
                  (update_arg_ref arg_ref (\<lambda>_. \<lparr>gr_arg = arg, gr_var = None, gr_proc = self\<rparr>) (h\<lparr>ch_mempool := mempool\<rparr>)))))"

definition inherit_from_base :: "proc_resolver \<Rightarrow> nat \<Rightarrow> nat \<Rightarrow> class_heap \<Rightarrow> class_run" where
  "inherit_from_base resolve self v h =
     deref (pv_proc (ch_proc_vars h v)) h (\<lambda>base.
       then_run (inherit_args resolve self base h)
         (run_each (\<lambda>var h. Some (knd_resolve_proc_arg_var self var h)) (pv_args (ch_proc_vars h v))))"

definition resolve_result :: "nat \<Rightarrow> class_heap \<Rightarrow> failure option \<times> class_heap" where
  "resolve_result self h =
     (if po_result_classname (ch_procs h self) = [] then (None, h)
      else
        (case knd_get_class_entry (ch_repos h (proc_repo h self)) (po_result_classname (ch_procs h self)) True of
           Inl e \<Rightarrow> (Some e, h)
         | Inr entry \<Rightarrow> (None, update_proc self (\<lambda>p. p\<lparr>po_result := Some entry\<rparr>) h)))"

definition proc_resolve_with :: "knd_task_spec_type \<Rightarrow> proc_resolver \<Rightarrow> proc_resolver" where
  "proc_resolve_with task_type resolve self h =
     (if po_resolving_in_progress (ch_procs h self) then Some (Some (Err knd_FAIL), h)
      else
        then_run (Some (prepare_arg_idx self (update_proc self (\<lambda>p. p\<lparr>po_resolving_in_progress := True\<rparr>) h))) (\<lambda>h.
        then_run (run_each (\<lambda>arg h. Some (resolve_own_arg task_type self arg h)) (po_args (ch_procs h self)) h) (\<lambda>h.
        then_run (if po_base_is_resolved (ch_procs h self) then Some (None, h) else resolve_proc_bases resolve self h) (\<lambda>h.
        then_run (run_each (inherit_from_base resolve self) (po_bases (ch_procs h self)) h) (\<lambda>h.
        then_run (Some (resolve_result self h)) (\<lambda>h.
          Some (None, update_proc self (\<lambda>p. p\<lparr>po_is_resolved := True\<rparr>) h)))))))"

fun knd_proc_resolve :: "knd_task_spec_type \<Rightarrow> nat \<Rightarrow> proc_resolver" where
  "knd_proc_resolve task_type 0 self h = None"
| "knd_proc_resolve task_type (Suc fuel) self h = proc_resolve_with task_type (knd_proc_resolve task_type fuel) self h"

section \<open>What resolving leaves as it was\<close>

fun named_in :: "nat list \<Rightarrow> byte list \<Rightarrow> class_heap \<Rightarrow> nat option" where
  "named_in [] name h = None"
| "named_in (repo # bases) name h =
     (case knd_shared_dict_get (ch_proc_name_idx h repo) name of
        Inl e \<Rightarrow> None
      | Inr None \<Rightarrow> named_in bases name h
      | Inr (Some entry) \<Rightarrow>
          if pe_phase (ch_proc_entries h entry) = KND_REMOVED then None else pe_proc (ch_proc_entries h entry))"

text \<open>The procedure that a name stands for in the repository of a procedure.\<close>

definition named_proc :: "class_heap \<Rightarrow> nat \<Rightarrow> byte list \<Rightarrow> nat option" where
  "named_proc h p name = named_in (proc_repo h p # ch_repo_bases h (proc_repo h p)) name h"

definition same_procs :: "class_heap \<Rightarrow> class_heap \<Rightarrow> bool" where
  "same_procs h h' \<longleftrightarrow> ch_proc_name_idx h' = ch_proc_name_idx h \<and> ch_repo_bases h' = ch_repo_bases h \<and>
     ch_proc_entries h' = ch_proc_entries h \<and> ch_procs h' = ch_procs h \<and> ch_proc_vars h' = ch_proc_vars h"

definition proc_keeps :: "class_heap \<Rightarrow> class_heap \<Rightarrow> bool" where
  "proc_keeps h h' \<longleftrightarrow> ch_proc_name_idx h' = ch_proc_name_idx h \<and> ch_repo_bases h' = ch_repo_bases h \<and>
     (\<forall>e. pe_proc (ch_proc_entries h' e) = pe_proc (ch_proc_entries h e) \<and> pe_repo (ch_proc_entries h' e) = pe_repo (ch_proc_entries h e) \<and>
        (pe_phase (ch_proc_entries h' e) = KND_REMOVED \<longleftrightarrow> pe_phase (ch_proc_entries h e) = KND_REMOVED)) \<and>
     (\<forall>p. po_entry (ch_procs h' p) = po_entry (ch_procs h p) \<and> po_bases (ch_procs h' p) = po_bases (ch_procs h p) \<and>
        (po_resolving_in_progress (ch_procs h p) \<longrightarrow> po_resolving_in_progress (ch_procs h' p))) \<and>
     (\<forall>v. pv_name (ch_proc_vars h' v) = pv_name (ch_proc_vars h v) \<and>
        (pv_proc (ch_proc_vars h' v) = pv_proc (ch_proc_vars h v) \<or>
         pv_proc (ch_proc_vars h v) = None \<and> (\<exists>q b. v \<in> set (po_bases (ch_procs h q)) \<and> pv_proc (ch_proc_vars h' v) = Some b \<and>
           named_proc h q (pv_name (ch_proc_vars h v)) = Some b)))"

lemma same_procs_refl [simp]: "same_procs h h"
  by (simp add: same_procs_def)

lemma same_procs_trans: "same_procs h h' \<Longrightarrow> same_procs h' h'' \<Longrightarrow> same_procs h h''"
  by (simp add: same_procs_def)

lemma same_procs_keeps: "same_procs h h' \<Longrightarrow> proc_keeps h h'"
  by (simp add: same_procs_def proc_keeps_def)

lemma proc_keeps_refl [simp]: "proc_keeps h h"
  by (simp add: proc_keeps_def)

lemma keeps_named:
  assumes "proc_keeps h h'"
  shows "named_proc h' p name = named_proc h p name"
proof -
  have e: "ch_proc_name_idx h' = ch_proc_name_idx h" "ch_repo_bases h' = ch_repo_bases h"
    "\<And>e. pe_proc (ch_proc_entries h' e) = pe_proc (ch_proc_entries h e)" "\<And>e. pe_repo (ch_proc_entries h' e) = pe_repo (ch_proc_entries h e)"
    "\<And>e. pe_phase (ch_proc_entries h' e) = KND_REMOVED \<longleftrightarrow> pe_phase (ch_proc_entries h e) = KND_REMOVED"
    "\<And>p. po_entry (ch_procs h' p) = po_entry (ch_procs h p)"
    using assms by (simp_all add: proc_keeps_def)
  have "named_in repos name h' = named_in repos name h" for repos
    by (induction repos) (simp_all add: e(1,3,5) split: sum.splits option.splits)
  then show ?thesis by (simp add: named_proc_def proc_repo_def e(2,4,6))
qed

lemma proc_keeps_trans:
  assumes "proc_keeps h h'" and "proc_keeps h' h''"
  shows "proc_keeps h h''"
proof -
  have "pv_proc (ch_proc_vars h'' v) = pv_proc (ch_proc_vars h v) \<or>
      pv_proc (ch_proc_vars h v) = None \<and> (\<exists>q b. v \<in> set (po_bases (ch_procs h q)) \<and> pv_proc (ch_proc_vars h'' v) = Some b \<and>
        named_proc h q (pv_name (ch_proc_vars h v)) = Some b)" for v
  proof -
    have 1: "pv_proc (ch_proc_vars h' v) = pv_proc (ch_proc_vars h v) \<or>
      pv_proc (ch_proc_vars h v) = None \<and> (\<exists>q b. v \<in> set (po_bases (ch_procs h q)) \<and> pv_proc (ch_proc_vars h' v) = Some b \<and>
        named_proc h q (pv_name (ch_proc_vars h v)) = Some b)"
      and 2: "pv_proc (ch_proc_vars h'' v) = pv_proc (ch_proc_vars h' v) \<or>
      pv_proc (ch_proc_vars h' v) = None \<and> (\<exists>q b. v \<in> set (po_bases (ch_procs h' q)) \<and> pv_proc (ch_proc_vars h'' v) = Some b \<and>
        named_proc h' q (pv_name (ch_proc_vars h' v)) = Some b)"
      using assms unfolding proc_keeps_def by blast+
    have same: "po_bases (ch_procs h' q) = po_bases (ch_procs h q)" "pv_name (ch_proc_vars h' v) = pv_name (ch_proc_vars h v)" for q
      using assms(1) by (simp_all add: proc_keeps_def)
    show ?thesis using 1 2 unfolding keeps_named [OF assms(1)] same by (cases "pv_proc (ch_proc_vars h' v)") auto
  qed
  then show ?thesis using assms by (simp add: proc_keeps_def)
qed

lemma add_to_set_procs: "add_to_set s key ref h = (e, h') \<Longrightarrow> same_procs h h'"
  by (auto simp: add_to_set_def same_procs_def split: prod.splits)

lemma then_step_procs:
  assumes "then_step r k = (e, h')" and "\<And>e1 h1. r = (e1, h1) \<Longrightarrow> same_procs h h1"
    and "\<And>h1 e h'. same_procs h h1 \<Longrightarrow> k h1 = (e, h') \<Longrightarrow> same_procs h1 h'"
  shows "same_procs h h'"
proof (cases r)
  case (Pair e1 h1)
  then show ?thesis using assms same_procs_trans by (cases e1) auto
qed

lemma proc_arg_resolve_procs: "knd_proc_arg_resolve repo self h = (e, h') \<Longrightarrow> same_procs h h'"
  unfolding knd_proc_arg_resolve_def
  by (erule then_step_procs)
    (auto simp: resolve_arg_class_def update_arg_def same_procs_def split: if_splits sum.splits option.splits)

lemma index_proc_arg_procs: "knd_repo_index_proc_arg task_type repo proc arg h = (e, h') \<Longrightarrow> same_procs h h'"
proof -
  have num: "number_arg repo arg h = (e, h') \<Longrightarrow> same_procs h h'" for h h' e
    by (auto simp: number_arg_def update_arg_def same_procs_def Let_def split: sum.splits)
  have task: "task_arg_set arg ref h = (e, h') \<Longrightarrow> same_procs h h'" for ref h h' e
    by (auto simp: task_arg_set_def same_procs_def split: prod.splits)
  have reg: "register_arg repo proc arg ref h = (e, h') \<Longrightarrow> same_procs h h'" for ref h h' e
    unfolding register_arg_def Let_def
    by (auto split: if_splits sum.splits prod.splits elim!: then_step_procs dest!: add_to_set_procs) (simp_all add: same_procs_def)
  show "knd_repo_index_proc_arg task_type repo proc arg h = (e, h') \<Longrightarrow> same_procs h h'"
    unfolding knd_repo_index_proc_arg_def
  proof (erule then_step_procs, erule num)
    fix h1 e h'
    assume run: "(case knd_proc_arg_ref_new (ch_mempool h1) of
        Inl e \<Rightarrow> (Some e, h1)
      | Inr (arg_ref, mempool) \<Rightarrow>
          (let h = update_arg_ref arg_ref (\<lambda>_. \<lparr>gr_arg = arg, gr_var = None, gr_proc = proc\<rparr>) (h1\<lparr>ch_mempool := mempool\<rparr>) in
           if task_type \<in> {KND_RESTORE_STATE, KND_BULK_LOAD_STATE} then register_arg repo proc arg arg_ref h
           else task_arg_set arg arg_ref h)) = (e, h')"
    show "same_procs h1 h'"
    proof (cases "knd_proc_arg_ref_new (ch_mempool h1)")
      case (Inr pm)
      obtain p m where pm: "pm = (p, m)" by (cases pm)
      define h2 where "h2 = update_arg_ref p (\<lambda>_. \<lparr>gr_arg = arg, gr_var = None, gr_proc = proc\<rparr>) (h1\<lparr>ch_mempool := m\<rparr>)"
      have "same_procs h1 h2" by (simp add: h2_def update_arg_ref_def same_procs_def)
      moreover have "same_procs h2 h'"
        using run Inr pm task [of p h2] reg [of p h2] by (auto simp: Let_def h2_def split: if_splits)
      ultimately show ?thesis by (rule same_procs_trans)
    qed (use run in simp)
  qed
qed

lemma resolve_arg_var_procs: "knd_resolve_proc_arg_var proc var h = (e, h') \<Longrightarrow> same_procs h h'"
proof -
  have val: "resolve_arg_val repo var c h = (e, h') \<Longrightarrow> same_procs h h'" for repo c h h' e
    by (auto simp: resolve_arg_val_def update_arg_var_def same_procs_def Let_def split: if_splits sum.splits option.splits)
  show "knd_resolve_proc_arg_var proc var h = (e, h') \<Longrightarrow> same_procs h h'"
    unfolding knd_resolve_proc_arg_var_def Let_def
    by (auto simp: update_arg_ref_def split: sum.splits elim!: then_step_procs dest!: val) (simp_all add: same_procs_def)
qed

lemma inherit_arg_procs: "inherit_arg self h key n ref = (e, h') \<Longrightarrow> same_procs h h'"
  by (auto simp: inherit_arg_def update_arg_ref_def Let_def split: sum.splits option.splits failure.splits if_splits dest!: add_to_set_procs)
    (simp_all add: same_procs_def)

lemma run_entries_procs:
  assumes "\<And>h key n ref e h'. cb h key n ref = (e, h') \<Longrightarrow> same_procs h h'"
  shows "run_entries cb entries (h, n) = (e, h', n') \<Longrightarrow> same_procs h h'"
proof (induction entries arbitrary: h n)
  case (Cons entry entries)
  obtain key ref e1 h1 where "entry = (key, ref)" "cb h [last key] n ref = (e1, h1)" by (metis surj_pair)
  with Cons assms [of h "[last key]" n ref e1 h1] show ?case using same_procs_trans by (auto split: option.splits)
qed simp

lemma set_map_procs:
  assumes "\<And>h key n ref e h'. cb h key n ref = (e, h') \<Longrightarrow> same_procs h h'" and "knd_set_map s cb h = (e, h')"
  shows "same_procs h h'"
proof (cases "set_idx s")
  case (Some idx)
  then have run: "knd_set_map s cb h = (case run_entries cb (map (apfst digits_id) (idx_entries idx)) (h, 0) of (err, obj, calls) \<Rightarrow> (err, obj))"
    by (simp add: knd_set_map_def traverse_idx_run(1))
  obtain e1 h1 n1 where "run_entries cb (map (apfst digits_id) (idx_entries idx)) (h, 0) = (e1, h1, n1)" by (metis surj_pair)
  then show ?thesis using run_entries_procs [OF assms(1)] run assms(2) by simp
qed (use assms(2) in \<open>simp add: knd_set_map_def\<close>)

text \<open>A step that resolves no procedure.\<close>

definition proc_quiet :: "class_heap \<Rightarrow> class_heap \<Rightarrow> bool" where
  "proc_quiet h h' \<longleftrightarrow> proc_keeps h h' \<and> (\<forall>p. po_is_resolved (ch_procs h' p) = po_is_resolved (ch_procs h p))"

lemma quiet_refl [simp]: "proc_quiet h h"
  by (simp add: proc_quiet_def)

lemma quiet_trans: "proc_quiet h h' \<Longrightarrow> proc_quiet h' h'' \<Longrightarrow> proc_quiet h h''"
  using proc_keeps_trans [of h h' h''] by (simp add: proc_quiet_def)

lemma quiet_same: "same_procs h h' \<Longrightarrow> proc_quiet h h'"
  using same_procs_keeps by (simp add: proc_quiet_def) (simp add: same_procs_def)

lemma quiet_update:
  assumes "\<And>p. po_entry (f p) = po_entry p" and "\<And>p. po_bases (f p) = po_bases p" and "\<And>p. po_is_resolved (f p) = po_is_resolved p"
    and "\<And>p. po_resolving_in_progress p \<Longrightarrow> po_resolving_in_progress (f p)"
  shows "proc_quiet h (update_proc self f h)"
  using assms by (simp add: proc_quiet_def proc_keeps_def update_proc_def)

lemma quiet_prepare: "prepare_arg_idx self h = (e, h') \<Longrightarrow> proc_quiet h h'"
proof -
  assume run: "prepare_arg_idx self h = (e, h')"
  show ?thesis
  proof (cases "po_arg_idx (ch_procs h self) \<noteq> None")
    case False
    show ?thesis
    proof (cases "new_set (ch_mempool h) h")
      case (Inl x)
      then show ?thesis using run False by (cases x) (auto simp: prepare_arg_idx_def same_procs_def intro: quiet_same)
    next
      case (Inr x)
      obtain p h1 m where x: "x = (p, h1, m)" by (cases x)
      have "same_procs h (h1\<lparr>ch_mempool := m\<rparr>)"
        using Inr x by (auto simp: new_set_def same_procs_def split: sum.splits prod.splits option.splits)
      then have "proc_quiet h (h1\<lparr>ch_mempool := m\<rparr>)" by (rule quiet_same)
      moreover have "h' = update_proc self (\<lambda>q. q\<lparr>po_arg_idx := Some p\<rparr>) (h1\<lparr>ch_mempool := m\<rparr>)"
        using run False Inr x by (simp add: prepare_arg_idx_def)
      ultimately show ?thesis using quiet_trans quiet_update [of "\<lambda>q. q\<lparr>po_arg_idx := Some p\<rparr>"] by simp
    qed
  qed (use run in \<open>simp add: prepare_arg_idx_def\<close>)
qed

lemma own_arg_procs: "resolve_own_arg task_type self arg h = (e, h') \<Longrightarrow> same_procs h h'"
  unfolding resolve_own_arg_def
proof (erule then_step_procs, erule proc_arg_resolve_procs, erule then_step_procs, erule index_proc_arg_procs)
  fix h1 e h'
  assume "(case knd_proc_arg_ref_new (ch_mempool h1) of
      Inl e \<Rightarrow> (Some e, h1)
    | Inr (arg_ref, mempool) \<Rightarrow>
        (case po_arg_idx (ch_procs h1 self) of
           None \<Rightarrow> (Some Stuck, h1)
         | Some arg_idx \<Rightarrow>
             add_to_set arg_idx (pa_id (ch_args h1 arg)) arg_ref
               (update_arg_ref arg_ref (\<lambda>_. \<lparr>gr_arg = arg, gr_var = None, gr_proc = self\<rparr>) (h1\<lparr>ch_mempool := mempool\<rparr>)))) = (e, h')"
  then show "same_procs h1 h'"
    by (auto simp: update_arg_ref_def split: sum.splits option.splits dest!: add_to_set_procs) (simp_all add: same_procs_def)
qed

lemma quiet_add_ancestor: "add_proc_ancestor self base h = (e, h') \<Longrightarrow> proc_quiet h h'"
  by (auto simp: add_proc_ancestor_def update_proc_entry_def proc_quiet_def proc_keeps_def split: sum.splits option.splits if_splits)

lemma quiet_link_ancestors: "link_proc_ancestors self refs h = (e, h') \<Longrightarrow> proc_quiet h h'"
proof (induction refs arbitrary: h)
  case (Cons ref refs)
  obtain b entry where ref: "ref = (b, entry)" by (cases ref)
  obtain e1 h1 where step: "link_proc_ancestor self entry h = (e1, h1)" by (metis surj_pair)
  then have "proc_quiet h h1" using quiet_add_ancestor by (auto simp: link_proc_ancestor_def Let_def split: if_splits)
  then show ?case using Cons step ref quiet_trans by (cases e1) auto
qed simp

lemma quiet_link_base: "link_base self base h = (e, h') \<Longrightarrow> proc_quiet h h'"
proof -
  assume run: "link_base self base h = (e, h')"
  obtain e1 h1 where step: "link_proc_ancestors self (pe_ancestors (ch_proc_entries h (po_entry (ch_procs h base)))) h = (e1, h1)"
    by (metis surj_pair)
  then show ?thesis
    using run quiet_link_ancestors [OF step] quiet_add_ancestor quiet_trans by (cases e1) (auto simp: link_base_def)
qed

lemma quiet_result: "resolve_result self h = (e, h') \<Longrightarrow> proc_quiet h h'"
  by (auto simp: resolve_result_def split: if_splits sum.splits intro!: quiet_update)

lemma get_proc_named: "get_proc_in repos name h = Inr (b, h') \<Longrightarrow> named_in repos name h = Some b"
  by (induction repos) (auto split: sum.splits option.splits if_splits)

lemma get_proc_quiet: "get_proc_in repos name h = Inl (e, h') \<Longrightarrow> h' = h"
  "get_proc_in repos name h = Inr (b, h') \<Longrightarrow> proc_quiet h h' \<and> ch_proc_vars h' = ch_proc_vars h \<and> ch_procs h' = ch_procs h"
  by (induction repos)
    (auto simp: update_proc_entry_def proc_quiet_def proc_keeps_def split: sum.splits option.splits if_splits)

lemma find_base_cases:
  assumes "v \<in> set (po_bases (ch_procs h self))"
  obtains (Err) e where "find_base_proc self v h = Inl (e, h)"
    "pv_proc (ch_proc_vars h v) = None"
  | (Found) b h' where "find_base_proc self v h = Inr (b, h')" "proc_quiet h h'" "pv_proc (ch_proc_vars h' v) = Some b"
      "pv_proc (ch_proc_vars h v) = Some b \<or> pv_proc (ch_proc_vars h v) = None \<and> named_proc h self (pv_name (ch_proc_vars h v)) = Some b"
proof (cases "pv_proc (ch_proc_vars h v)")
  case None
  show ?thesis
  proof (cases "knd_get_proc (proc_repo h self) (pv_name (ch_proc_vars h v)) h")
    case (Inl x)
    obtain e h1 where x: "x = (e, h1)" by (cases x)
    have "h1 = h" by (rule get_proc_quiet(1) [of "proc_repo h self # ch_repo_bases h (proc_repo h self)"])
      (use Inl x in \<open>simp only: knd_get_proc_def\<close>)
    then show ?thesis using Err [of e] None Inl x by (simp add: find_base_proc_def)
  next
    case (Inr x)
    obtain b h1 where x: "x = (b, h1)" by (cases x)
    have found: "get_proc_in (proc_repo h self # ch_repo_bases h (proc_repo h self)) (pv_name (ch_proc_vars h v)) h = Inr (b, h1)"
      using Inr x by (simp only: knd_get_proc_def)
    have named: "named_proc h self (pv_name (ch_proc_vars h v)) = Some b"
      unfolding named_proc_def by (rule get_proc_named [OF found])
    have q: "proc_quiet h h1" "ch_proc_vars h1 = ch_proc_vars h" "ch_procs h1 = ch_procs h"
      using get_proc_quiet(2) [OF found] by simp_all
    define h' where "h' = h1\<lparr>ch_proc_vars := (ch_proc_vars h1)(v := (ch_proc_vars h1 v)\<lparr>pv_proc := Some b\<rparr>)\<rparr>"
    have k1: "proc_keeps h h1" using q(1) by (simp add: proc_quiet_def)
    have "proc_keeps h1 h'"
      using None named assms q keeps_named [OF k1]
      by (auto simp: proc_keeps_def h'_def intro!: exI [of _ self])
    then have "proc_quiet h1 h'" by (simp add: proc_quiet_def h'_def)
    then have "proc_quiet h h'" using quiet_trans q(1) by blast
    moreover have "find_base_proc self v h = Inr (b, h')" using None Inr x by (simp add: find_base_proc_def h'_def)
    ultimately show ?thesis using Found [of b h'] named None by (simp add: h'_def)
  qed
next
  case (Some b)
  then show ?thesis using Found [of b h] by (simp add: find_base_proc_def)
qed

section \<open>Runs return\<close>

text \<open>The procedures that entries and variables have are among finitely many.\<close>

definition procs_in :: "nat set \<Rightarrow> class_heap \<Rightarrow> bool" where
  "procs_in P h \<longleftrightarrow> finite P \<and> (\<forall>e b. pe_proc (ch_proc_entries h e) = Some b \<longrightarrow> b \<in> P) \<and>
     (\<forall>v b. pv_proc (ch_proc_vars h v) = Some b \<longrightarrow> b \<in> P)"

definition waiting :: "nat set \<Rightarrow> class_heap \<Rightarrow> nat" where
  "waiting P h = card {p \<in> P. \<not> po_resolving_in_progress (ch_procs h p)}"

lemma named_in_proc: "named_in repos name h = Some b \<Longrightarrow> \<exists>e. pe_proc (ch_proc_entries h e) = Some b"
  by (induction repos) (auto split: sum.splits option.splits if_splits)

lemma keeps_procs_in:
  assumes "procs_in P h" and "proc_keeps h h'"
  shows "procs_in P h'"
proof -
  have "b \<in> P" if b: "pv_proc (ch_proc_vars h' v) = Some b" for v b
  proof (cases "pv_proc (ch_proc_vars h' v) = pv_proc (ch_proc_vars h v)")
    case False
    then obtain q where "named_proc h q (pv_name (ch_proc_vars h v)) = Some b" using assms(2) b unfolding proc_keeps_def by (metis option.inject)
    then obtain e where "pe_proc (ch_proc_entries h e) = Some b" unfolding named_proc_def using named_in_proc by blast
    then show ?thesis using assms(1) by (simp add: procs_in_def)
  qed (use b assms(1) in \<open>simp add: procs_in_def\<close>)
  then show ?thesis using assms by (simp add: procs_in_def proc_keeps_def)
qed

lemma keeps_waiting: "procs_in P h \<Longrightarrow> proc_keeps h h' \<Longrightarrow> waiting P h' \<le> waiting P h"
  unfolding waiting_def by (rule card_mono) (auto simp: procs_in_def proc_keeps_def)

text \<open>A step from \<open>h\<close> to \<open>h'\<close> that resolves no procedure of \<open>S\<close>; and a run that makes one, or also fails.\<close>

definition keeps_open :: "nat set \<Rightarrow> class_heap \<Rightarrow> class_heap \<Rightarrow> bool" where
  "keeps_open S h h' \<longleftrightarrow> proc_keeps h h' \<and> (\<forall>p\<in>S. po_is_resolved (ch_procs h' p) \<longrightarrow> po_is_resolved (ch_procs h p))"

definition returns :: "nat set \<Rightarrow> bool \<Rightarrow> class_heap \<Rightarrow> class_run \<Rightarrow> bool" where
  "returns S fails h r \<longleftrightarrow> (\<exists>e h'. r = Some (e, h') \<and> keeps_open S h h' \<and> (fails \<longrightarrow> e \<noteq> None))"

text \<open>The procedures that a base variable can stand for.\<close>

definition leads_to :: "class_heap \<Rightarrow> nat \<Rightarrow> nat \<Rightarrow> bool" where
  "leads_to h v b \<longleftrightarrow> pv_proc (ch_proc_vars h v) = Some b \<or>
     pv_proc (ch_proc_vars h v) = None \<and> (\<exists>q. v \<in> set (po_bases (ch_procs h q)) \<and> named_proc h q (pv_name (ch_proc_vars h v)) = Some b)"

text \<open>Each procedure of a circle is unresolved and has a base in the circle.\<close>

definition proc_circle :: "nat set \<Rightarrow> class_heap \<Rightarrow> bool" where
  "proc_circle S h \<longleftrightarrow> (\<forall>p\<in>S. \<not> po_is_resolved (ch_procs h p) \<and> (\<exists>v\<in>set (po_bases (ch_procs h p)). \<forall>b. leads_to h v b \<longrightarrow> b \<in> S))"

lemma keeps_open_refl [simp]: "keeps_open S h h"
  by (simp add: keeps_open_def)

lemma keeps_open_trans: "keeps_open S h h' \<Longrightarrow> keeps_open S h' h'' \<Longrightarrow> keeps_open S h h''"
  using proc_keeps_trans [of h h' h''] by (simp add: keeps_open_def)

lemma keeps_open_quiet: "keeps_open S h h1 \<Longrightarrow> proc_quiet h1 h' \<Longrightarrow> keeps_open S h h'"
  by (erule keeps_open_trans) (simp add: keeps_open_def proc_quiet_def)

lemma keeps_open_keeps: "keeps_open S h h' \<Longrightarrow> proc_keeps h h'"
  by (simp add: keeps_open_def)

lemma keeps_leads:
  assumes "proc_keeps h h'" and "leads_to h' v b"
  shows "leads_to h v b"
proof -
  have same: "po_bases (ch_procs h' q) = po_bases (ch_procs h q)" "pv_name (ch_proc_vars h' v) = pv_name (ch_proc_vars h v)" for q
    using assms(1) by (simp_all add: proc_keeps_def)
  have "pv_proc (ch_proc_vars h' v) = pv_proc (ch_proc_vars h v) \<or>
      pv_proc (ch_proc_vars h v) = None \<and> (\<exists>q b. v \<in> set (po_bases (ch_procs h q)) \<and> pv_proc (ch_proc_vars h' v) = Some b \<and>
        named_proc h q (pv_name (ch_proc_vars h v)) = Some b)"
    using assms(1) by (simp add: proc_keeps_def)
  then show ?thesis
    using assms(2) unfolding leads_to_def same keeps_named [OF assms(1)] by (elim disjE) auto
qed

lemma keeps_circle:
  assumes "proc_circle S h" and k: "keeps_open S h h'"
  shows "proc_circle S h'"
proof -
  have "po_bases (ch_procs h' p) = po_bases (ch_procs h p)" for p using keeps_open_keeps [OF k] by (simp add: proc_keeps_def)
  then show ?thesis
    using assms keeps_leads [OF keeps_open_keeps [OF k]] unfolding proc_circle_def keeps_open_def by metis
qed

lemma returns_then:
  assumes "returns S False h r" and "\<And>h1. keeps_open S h h1 \<Longrightarrow> returns S fails h (k h1)"
  shows "returns S fails h (then_run r k)"
proof -
  obtain e h1 where "r = Some (e, h1)" "keeps_open S h h1" using assms(1) by (auto simp: returns_def)
  then show ?thesis using assms(2) by (cases e) (auto simp: then_run_def returns_def)
qed

lemma returns_fail: "returns S True h r \<Longrightarrow> returns S fails h (then_run r k)"
  by (auto simp: then_run_def returns_def)

lemma returns_any: "returns S fails h r \<Longrightarrow> returns S False h r"
  by (auto simp: returns_def)

lemma returns_each:
  assumes "\<And>x h1. x \<in> set xs \<Longrightarrow> keeps_open S h h1 \<Longrightarrow> returns S (bad x) h (f x h1)"
  shows "keeps_open S h h1 \<Longrightarrow> returns S (\<exists>x\<in>set xs. bad x) h (run_each f xs h1)"
  using assms
proof (induction xs arbitrary: h1)
  case Nil
  then show ?case by (simp add: returns_def)
next
  case (Cons x xs)
  have first: "returns S (bad x) h (f x h1)" using Cons.prems by simp
  show ?case
  proof (cases "bad x")
    case True
    then show ?thesis using first returns_fail [of S h "f x h1"] by simp
  next
    case False
    then have "returns S (\<exists>y\<in>set xs. bad y) h (then_run (f x h1) (run_each f xs))"
      using first Cons by (intro returns_then) auto
    then show ?thesis using False by simp
  qed
qed

lemma returns_some:
  assumes "keeps_open S h h1" and "\<And>e h'. r = (e, h') \<Longrightarrow> proc_quiet h1 h'"
  shows "returns S False h (Some r)"
  using assms keeps_open_quiet by (cases r) (auto simp: returns_def)

lemma returns_trans: "keeps_open S h h1 \<Longrightarrow> returns S fails h1 r \<Longrightarrow> returns S fails h r"
  using keeps_open_trans by (auto simp: returns_def)

lemma keeps_mark:
  "keeps_open S h h1 \<Longrightarrow> keeps_open S h (update_proc self (\<lambda>p. p\<lparr>po_base_resolving_in_progress := True\<rparr>) h1)"
  "keeps_open S h h1 \<Longrightarrow> keeps_open S h (update_proc self (\<lambda>p. p\<lparr>po_base_is_resolved := True\<rparr>) h1)"
  "keeps_open S h h1 \<Longrightarrow> keeps_open S h (update_proc self (\<lambda>p. p\<lparr>po_resolving_in_progress := True\<rparr>) h1)"
  by (erule keeps_open_quiet, rule quiet_update, simp_all)+

lemma keeps_resolved:
  "self \<notin> S \<Longrightarrow> keeps_open S h h1 \<Longrightarrow> keeps_open S h (update_proc self (\<lambda>p. p\<lparr>po_is_resolved := True\<rparr>) h1)"
  by (erule keeps_open_trans) (simp add: keeps_open_def proc_keeps_def update_proc_def)

lemma inherit_map_quiet: "knd_set_map s (inherit_arg self) h = (e, h') \<Longrightarrow> proc_quiet h h'"
  by (rule quiet_same, rule set_map_procs [OF inherit_arg_procs])

text \<open>The state in which a procedure is resolved: what the recursive calls do, and the bases that keep \<open>self\<close> in a circle.\<close>

lemma base_returns:
  assumes "keeps_open S h h1" and "b \<in> S \<longrightarrow> \<not> po_is_resolved (ch_procs h1 b)"
    and "returns S (b \<in> S) h1 (resolve b h1)"
  shows "returns S (b \<in> S) h (resolve_unless_resolved resolve b h1)"
  using returns_trans [OF assms(1,3)] assms(1,2) by (auto simp: resolve_unless_resolved_def returns_def)

lemma inherit_args_returns:
  assumes "keeps_open S h h1" and "returns S (b \<in> S) h (resolve_unless_resolved resolve b h1)"
  shows "returns S (b \<in> S) h (inherit_args resolve self b h1)"
proof (cases "b \<in> S")
  case True
  then show ?thesis unfolding inherit_args_def using assms(2) returns_fail by simp
next
  case False
  have "returns S False h (inherit_args resolve self b h1)"
    unfolding inherit_args_def
  proof (rule returns_then [OF returns_any [OF assms(2)]])
    fix h2 assume k2: "keeps_open S h h2"
    show "returns S False h (deref (po_arg_idx (ch_procs h2 b)) h2 (\<lambda>arg_idx. Some (knd_set_map (ch_sets h2 arg_idx) (inherit_arg self) h2)))"
      using k2 returns_some [OF k2 inherit_map_quiet]
      by (cases "po_arg_idx (ch_procs h2 b)") (simp_all add: deref_def returns_def)
  qed
  then show ?thesis using False by simp
qed

lemma inherit_from_returns:
  assumes k1: "keeps_open S h h1"
    and bad: "bad \<Longrightarrow> \<forall>b. leads_to h1 v b \<longrightarrow> b \<in> S"
    and base: "\<And>b. leads_to h1 v b \<Longrightarrow> returns S (b \<in> S) h (resolve_unless_resolved resolve b h1)"
  shows "returns S bad h (inherit_from_base resolve self v h1)"
proof (cases "pv_proc (ch_proc_vars h1 v)")
  case None
  then show ?thesis using k1 by (simp add: inherit_from_base_def deref_def returns_def)
next
  case (Some b)
  then have leads: "leads_to h1 v b" by (simp add: leads_to_def)
  have args: "returns S (b \<in> S) h (inherit_args resolve self b h1)"
    by (rule inherit_args_returns [OF k1 base [OF leads]])
  have var: "returns S False h (Some (knd_resolve_proc_arg_var self x h2))" if "keeps_open S h h2" for x h2
    by (rule returns_some [OF that]) (rule quiet_same, rule resolve_arg_var_procs)
  have rest: "returns S False h (run_each (\<lambda>var h. Some (knd_resolve_proc_arg_var self var h)) (pv_args (ch_proc_vars h1 v)) h2)"
    if "keeps_open S h h2" for h2
    using returns_each [of "pv_args (ch_proc_vars h1 v)" S h "\<lambda>_. False"] var that by simp
  show ?thesis
  proof (cases bad)
    case True
    then have "b \<in> S" using bad leads by blast
    then show ?thesis using args Some returns_fail by (simp add: inherit_from_base_def deref_def)
  next
    case False
    then show ?thesis
      using returns_then [OF returns_any [OF args] rest] Some by (simp add: inherit_from_base_def deref_def)
  qed
qed

lemma leads_in: "procs_in P h \<Longrightarrow> leads_to h v b \<Longrightarrow> b \<in> P"
  unfolding leads_to_def named_proc_def procs_in_def using named_in_proc by blast

lemma base_step_returns:
  assumes k1: "keeps_open S h h1" and v: "v \<in> set (po_bases (ch_procs h1 self))"
    and bad: "bad \<Longrightarrow> \<forall>b. leads_to h1 v b \<longrightarrow> b \<in> S"
    and base: "\<And>b h2. leads_to h1 v b \<Longrightarrow> keeps_open S h h2 \<Longrightarrow> returns S (b \<in> S) h (resolve_unless_resolved resolve b h2)"
  shows "returns S bad h (resolve_proc_base resolve self v h1)"
  using v
proof (cases rule: find_base_cases)
  case (Found b h2)
  have k2: "keeps_open S h h2" using Found(2) k1 keeps_open_quiet by blast
  have leads: "leads_to h1 v b" using Found(4) v by (auto simp: leads_to_def)
  have run: "returns S (b \<in> S) h (resolve_unless_resolved resolve b h2)" by (rule base [OF leads k2])
  have "returns S bad h (then_run (resolve_unless_resolved resolve b h2) (\<lambda>h. Some (link_base self b h)))"
  proof (cases bad)
    case True
    then have "b \<in> S" using bad leads by blast
    then show ?thesis using run returns_fail by simp
  next
    case False
    have "returns S False h (Some (link_base self b h3))" if "keeps_open S h h3" for h3
      by (rule returns_some [OF that quiet_link_base])
    then show ?thesis using False returns_then [OF returns_any [OF run]] by simp
  qed
  then show ?thesis using Found(1) by (simp add: resolve_proc_base_def bind_run_def)
qed (use k1 in \<open>simp add: resolve_proc_base_def bind_run_def returns_def\<close>)

lemma resolve_with_returns:
  assumes self: "self \<in> P" and inP: "procs_in P h" and circle: "proc_circle S h" and fuel: "waiting P h \<le> fuel"
    and rec: "\<And>p h1. p \<in> P \<Longrightarrow> procs_in P h1 \<Longrightarrow> proc_circle S h1 \<Longrightarrow> waiting P h1 < fuel \<Longrightarrow> returns S (p \<in> S) h1 (resolve p h1)"
  shows "returns S (self \<in> S) h (proc_resolve_with task_type resolve self h)"
proof (cases "po_resolving_in_progress (ch_procs h self)")
  case False
  define h0 where "h0 = update_proc self (\<lambda>p. p\<lparr>po_resolving_in_progress := True\<rparr>) h"
  have k0: "keeps_open S h h0" using keeps_mark(3) [OF keeps_open_refl] by (simp add: h0_def)
  have "{p \<in> P. \<not> po_resolving_in_progress (ch_procs h0 p)} \<subset> {p \<in> P. \<not> po_resolving_in_progress (ch_procs h p)}"
    using self False by (auto simp: h0_def update_proc_def)
  then have "waiting P h0 < waiting P h" unfolding waiting_def by (intro psubset_card_mono) (use inP in \<open>auto simp: procs_in_def\<close>)
  then have w0: "waiting P h0 < fuel" using fuel by simp
  have in0: "procs_in P h0" by (rule keeps_procs_in [OF inP keeps_open_keeps [OF k0]])
  have c0: "proc_circle S h0" by (rule keeps_circle [OF circle k0])
  have later: "procs_in P h1" "waiting P h1 < fuel" "proc_circle S h1" if "keeps_open S h0 h1" for h1
    using keeps_procs_in [OF in0 keeps_open_keeps [OF that]] keeps_waiting [OF in0 keeps_open_keeps [OF that]] w0
      keeps_circle [OF c0 that] by simp_all
  have base: "returns S (b \<in> S) h0 (resolve_unless_resolved resolve b h1)" if "keeps_open S h0 h1" "b \<in> P" for b h1
    using later(3) [OF that(1)] rec [OF that(2) later(1,3,2) [OF that(1)]]
    by (intro base_returns [OF that(1)]) (simp_all add: proc_circle_def)
  define bad where "bad v = (self \<in> S \<and> (\<forall>b. leads_to h0 v b \<longrightarrow> b \<in> S))" for v
  have bads: "(\<exists>v\<in>set (po_bases (ch_procs h0 self)). bad v) = (self \<in> S)"
    using c0 by (auto simp: bad_def proc_circle_def)
  have leads: "leads_to h1 v b \<Longrightarrow> b \<in> P" "bad v \<Longrightarrow> \<forall>b. leads_to h1 v b \<longrightarrow> b \<in> S" if "keeps_open S h0 h1" for h1 v b
    using leads_in [OF later(1) [OF that]] keeps_leads [OF keeps_open_keeps [OF that]] by (auto simp: bad_def)
  have same: "po_bases (ch_procs h1 self) = po_bases (ch_procs h0 self)" if "keeps_open S h0 h1" for h1
    using keeps_open_keeps [OF that] by (simp add: proc_keeps_def)
  have bases: "returns S (self \<in> S) h0 (resolve_proc_bases resolve self h1)"
    if k1: "keeps_open S h0 h1" and un: "\<not> po_base_is_resolved (ch_procs h1 self)" for h1
  proof -
    have one: "returns S (bad v) h0 (resolve_proc_base resolve self v h2)"
      if v: "v \<in> set (po_bases (ch_procs h0 self))" and k2: "keeps_open S h0 h2" for v h2
      using v base leads [OF k2] same [OF k2] by (intro base_step_returns [OF k2]) auto
    have each: "returns S (self \<in> S) h0 (run_each (resolve_proc_base resolve self) (po_bases (ch_procs h0 self)) h2)"
      if "keeps_open S h0 h2" for h2
      using returns_each [of "po_bases (ch_procs h0 self)" S h0 bad "resolve_proc_base resolve self", OF one that] bads by simp
    have "returns S (self \<in> S) h0 (then_run (run_each (resolve_proc_base resolve self) (po_bases (ch_procs h0 self))
        (update_proc self (\<lambda>p. p\<lparr>po_base_resolving_in_progress := True\<rparr>) h1))
        (\<lambda>h. Some (None, update_proc self (\<lambda>p. p\<lparr>po_base_is_resolved := True\<rparr>) h)))" (is "returns S _ h0 (then_run ?r ?k)")
    proof (cases "self \<in> S")
      case True
      then show ?thesis using returns_fail each [OF keeps_mark(1) [OF k1]] by simp
    next
      case False
      then show ?thesis using returns_then [OF returns_any [OF each [OF keeps_mark(1) [OF k1]]], of False ?k] keeps_mark(2)
        by (simp add: returns_def)
    qed
    then show ?thesis using k1 un by (simp add: resolve_proc_bases_def same [OF k1]) (simp add: returns_def)
  qed
  have inherit: "returns S (bad v) h0 (inherit_from_base resolve self v h1)" if k1: "keeps_open S h0 h1" for v h1
    by (rule inherit_from_returns [OF k1 leads(2) [OF k1] base [OF k1 leads(1) [OF k1]]])
  have all: "returns S (self \<in> S) h0 (run_each (inherit_from_base resolve self) (po_bases (ch_procs h1 self)) h1)"
    if k1: "keeps_open S h0 h1" for h1
    using returns_each [of "po_bases (ch_procs h0 self)" S h0 bad "inherit_from_base resolve self", OF inherit k1] bads
    by (simp add: same [OF k1])
  have own: "returns S False h0 (run_each (\<lambda>arg h. Some (resolve_own_arg task_type self arg h)) args h1)"
    if "keeps_open S h0 h1" for args h1
  proof -
    have "returns S False h0 (Some (resolve_own_arg task_type self x h2))" if "keeps_open S h0 h2" for x h2
      by (rule returns_some [OF that]) (rule quiet_same, rule own_arg_procs)
    then show ?thesis using returns_each [of args S h0 "\<lambda>_. False" "\<lambda>arg h. Some (resolve_own_arg task_type self arg h)"] that by simp
  qed
  have "returns S (self \<in> S) h0 (proc_resolve_with task_type resolve self h)"
    unfolding proc_resolve_with_def h0_def [symmetric] if_not_P [OF False]
  proof (rule returns_then)
    show "returns S False h0 (Some (prepare_arg_idx self h0))" by (rule returns_some [OF keeps_open_refl quiet_prepare])
    fix h1 assume k1: "keeps_open S h0 h1"
    show "returns S (self \<in> S) h0
      (then_run (run_each (\<lambda>arg h. Some (resolve_own_arg task_type self arg h)) (po_args (ch_procs h1 self)) h1) (\<lambda>h.
        then_run (if po_base_is_resolved (ch_procs h self) then Some (None, h) else resolve_proc_bases resolve self h) (\<lambda>h.
        then_run (run_each (inherit_from_base resolve self) (po_bases (ch_procs h self)) h) (\<lambda>h.
        then_run (Some (resolve_result self h)) (\<lambda>h. Some (None, update_proc self (\<lambda>p. p\<lparr>po_is_resolved := True\<rparr>) h))))))"
    proof (rule returns_then [OF own [OF k1]])
      fix h2 assume k2: "keeps_open S h0 h2"
      show "returns S (self \<in> S) h0
        (then_run (if po_base_is_resolved (ch_procs h2 self) then Some (None, h2) else resolve_proc_bases resolve self h2) (\<lambda>h.
          then_run (run_each (inherit_from_base resolve self) (po_bases (ch_procs h self)) h) (\<lambda>h.
          then_run (Some (resolve_result self h)) (\<lambda>h. Some (None, update_proc self (\<lambda>p. p\<lparr>po_is_resolved := True\<rparr>) h)))))"
      proof (rule returns_then)
        show "returns S False h0 (if po_base_is_resolved (ch_procs h2 self) then Some (None, h2) else resolve_proc_bases resolve self h2)"
          using k2 returns_any [OF bases [OF k2]] by (simp add: returns_def)
        fix h3 assume k3: "keeps_open S h0 h3"
        show "returns S (self \<in> S) h0 (then_run (run_each (inherit_from_base resolve self) (po_bases (ch_procs h3 self)) h3) (\<lambda>h.
          then_run (Some (resolve_result self h)) (\<lambda>h. Some (None, update_proc self (\<lambda>p. p\<lparr>po_is_resolved := True\<rparr>) h))))"
        proof (cases "self \<in> S")
          case True
          then show ?thesis using returns_fail all [OF k3] by simp
        next
          case out: False
          show ?thesis
          proof (intro returns_then)
            show "returns S False h0 (run_each (inherit_from_base resolve self) (po_bases (ch_procs h3 self)) h3)"
              by (rule returns_any [OF all [OF k3]])
            fix h4 assume k4: "keeps_open S h0 h4"
            show "returns S False h0 (Some (resolve_result self h4))" by (rule returns_some [OF k4 quiet_result])
            show "returns S (self \<in> S) h0 (Some (None, update_proc self (\<lambda>p. p\<lparr>po_is_resolved := True\<rparr>) h4))"
              using keeps_resolved [OF out k4] out by (simp add: returns_def)
          qed
        qed
      qed
    qed
  qed
  then show ?thesis by (rule returns_trans [OF k0])
qed (simp add: proc_resolve_with_def returns_def)

lemma proc_resolve_keeps:
  "self \<in> P \<Longrightarrow> procs_in P h \<Longrightarrow> proc_circle S h \<Longrightarrow> waiting P h < fuel \<Longrightarrow>
    returns S (self \<in> S) h (knd_proc_resolve task_type fuel self h)"
proof (induction fuel arbitrary: self h)
  case (Suc fuel)
  then show ?case using resolve_with_returns [of self P h S fuel "knd_proc_resolve task_type fuel"] by simp
qed simp

text \<open>
  C16: Resolving a procedure comes back. If the procedures that entries and base variables lead to are among the
  finitely many of \<open>P\<close>, then \<open>knd_proc_resolve\<close> on a procedure of \<open>P\<close> ends with more fuel than \<open>P\<close> has members, also when
  procedures derive from each other in a circle. It leaves the bases of every procedure as they were, and a base
  variable that was found before keeps its procedure.
\<close>

theorem proc_resolve_returns:
  assumes "self \<in> P" and "procs_in P h" and "card P < fuel"
  shows "\<exists>e h'. knd_proc_resolve task_type fuel self h = Some (e, h') \<and> procs_in P h' \<and>
    (\<forall>p. po_bases (ch_procs h' p) = po_bases (ch_procs h p)) \<and>
    (\<forall>v b. pv_proc (ch_proc_vars h v) = Some b \<longrightarrow> pv_proc (ch_proc_vars h' v) = Some b)"
proof -
  have "waiting P h \<le> card P" unfolding waiting_def by (rule card_mono) (use assms(2) in \<open>auto simp: procs_in_def\<close>)
  then have "returns {} False h (knd_proc_resolve task_type fuel self h)"
    using proc_resolve_keeps [of self P h "{}" fuel task_type] assms by (simp add: proc_circle_def)
  then obtain e h' where run: "knd_proc_resolve task_type fuel self h = Some (e, h')" "proc_keeps h h'"
    by (auto simp: returns_def keeps_open_def)
  have "pv_proc (ch_proc_vars h' v) = Some b" if "pv_proc (ch_proc_vars h v) = Some b" for v b
    using run(2) that unfolding proc_keeps_def by (metis option.distinct(1))
  moreover have "\<forall>p. po_bases (ch_procs h' p) = po_bases (ch_procs h p)" using run(2) by (simp add: proc_keeps_def)
  ultimately show ?thesis using run(1) keeps_procs_in [OF assms(2) run(2)] by blast
qed

text \<open>
  C17: A circle of procedures is refused. Let every procedure of \<open>S\<close> be unresolved and have a base that can only be a
  procedure of \<open>S\<close>, whether the base is known already or is still to be found by its name. Then no procedure of \<open>S\<close> can be
  resolved: the run ends with an error, and every procedure of \<open>S\<close> is still unresolved.
\<close>

theorem proc_circle_error:
  assumes "self \<in> S" and "self \<in> P" and "procs_in P h" and "card P < fuel"
    and "\<And>p. p \<in> S \<Longrightarrow> \<not> po_is_resolved (ch_procs h p)"
    and "\<And>p. p \<in> S \<Longrightarrow> \<exists>v\<in>set (po_bases (ch_procs h p)). \<forall>b. leads_to h v b \<longrightarrow> b \<in> S"
  shows "\<exists>e h'. knd_proc_resolve task_type fuel self h = Some (Some e, h') \<and> (\<forall>p\<in>S. \<not> po_is_resolved (ch_procs h' p))"
proof -
  have circle: "proc_circle S h" using assms(5,6) by (simp add: proc_circle_def)
  have "waiting P h \<le> card P" unfolding waiting_def by (rule card_mono) (use assms(3) in \<open>auto simp: procs_in_def\<close>)
  then have "returns S True h (knd_proc_resolve task_type fuel self h)"
    using proc_resolve_keeps [OF assms(2,3) circle, of fuel task_type] assms(1,4) by simp
  then show ?thesis using assms(5) by (auto simp: returns_def keeps_open_def)
qed

text \<open>
  Arguments of a commit are not found again. Outside the initial load and the restoration \<open>knd_repo_index_proc_arg\<close>
  registers an argument with the task only, and \<open>knd_proc_get_arg\<close> asks the repository and its base: if the name was
  not registered there before, then the argument that has just been indexed is not found, for any procedure.
\<close>

theorem proc_args_lost:
  assumes "task_type \<notin> {KND_RESTORE_STATE, KND_BULK_LOAD_STATE}"
    and "knd_repo_index_proc_arg task_type repo proc arg h = (None, h')"
    and "arg_refs_of (proc_repo h p) (pa_name (ch_args h arg)) h = Inr None"
  shows "pa_name (ch_args h' arg) = pa_name (ch_args h arg) \<and>
    knd_proc_get_arg p (pa_name (ch_args h arg)) h' = Inl (Err knd_NO_MATCH)"
proof -
  obtain h1 where num: "number_arg repo arg h = (None, h1)"
    using assms(2) unfolding knd_repo_index_proc_arg_def by (cases "number_arg repo arg h"; cases "fst (number_arg repo arg h)") auto
  have one: "ch_repo_bases h1 = ch_repo_bases h" "rp_name_idx (ch_repo_args h1 r) = rp_name_idx (ch_repo_args h r)"
    "pa_name (ch_args h1 arg) = pa_name (ch_args h arg)" for r
    using num by (auto simp: number_arg_def update_arg_def Let_def split: sum.splits)
  obtain ref mempool where new: "knd_proc_arg_ref_new (ch_mempool h1) = Inr (ref, mempool)"
    using assms(2) num by (cases "knd_proc_arg_ref_new (ch_mempool h1)") (auto simp: knd_repo_index_proc_arg_def)
  have "task_arg_set arg ref (update_arg_ref ref (\<lambda>_. \<lparr>gr_arg = arg, gr_var = None, gr_proc = proc\<rparr>) (h1\<lparr>ch_mempool := mempool\<rparr>)) = (None, h')"
    using assms(1,2) num new by (simp add: knd_repo_index_proc_arg_def Let_def)
  then have two: "ch_repo_bases h' = ch_repo_bases h1" "ch_repo_args h' = ch_repo_args h1" "ch_args h' = ch_args h1"
    by (auto simp: task_arg_set_def update_arg_ref_def split: prod.splits)
  have same: "same_procs h h'" by (rule index_proc_arg_procs [OF assms(2)])
  have "arg_refs_of r name h' = arg_refs_of r name h" for r name
    unfolding arg_refs_of_def two one by simp
  then show ?thesis
    using assms(3) one(3) two(3) same by (simp add: knd_proc_get_arg_def proc_repo_def same_procs_def bind_result_def)
qed

text \<open>Procedure 1 derives from 2, and 2 from the one named \<^verbatim>\<open>B\<close>, which is 1.\<close>

definition circle_heap :: class_heap where
  "circle_heap = sample_heap\<lparr>ch_proc_entries := (\<lambda>e. if e = 7 then cleared_proc_entry\<lparr>pe_proc := Some 1\<rparr> else cleared_proc_entry),
     ch_procs := (\<lambda>p. cleared_proc\<lparr>po_bases := [p]\<rparr>),
     ch_proc_vars := (\<lambda>v. \<lparr>pv_name = [66], pv_proc = if v = 1 then Some 2 else None, pv_args = []\<rparr>)\<rparr>"

lemma circle_heap_in: "procs_in {1, 2} circle_heap"
  by (simp add: procs_in_def circle_heap_def cleared_proc_entry_def)

lemma circle_heap_leads:
  "\<not> po_is_resolved (ch_procs circle_heap p)" "\<exists>v\<in>set (po_bases (ch_procs circle_heap p)). \<forall>b. leads_to circle_heap v b \<longrightarrow> b \<in> {1, 2}"
  using leads_in [OF circle_heap_in] by (auto simp: circle_heap_def cleared_proc_def)

theorem proc_resolve_returns_witness:
  "\<exists>e h'. knd_proc_resolve KND_RESTORE_STATE 3 1 circle_heap = Some (e, h') \<and> procs_in {1, 2} h' \<and>
    pv_proc (ch_proc_vars h' 1) = Some 2"
  using proc_resolve_returns [of 1 "{1, 2}" circle_heap 3 KND_RESTORE_STATE] circle_heap_in
  by (auto simp: circle_heap_def)

theorem proc_circle_error_witness:
  "\<exists>e h'. knd_proc_resolve KND_RESTORE_STATE 3 1 circle_heap = Some (Some e, h') \<and> (\<forall>p\<in>{1, 2}. \<not> po_is_resolved (ch_procs h' p))"
  by (rule proc_circle_error [OF _ _ circle_heap_in _ circle_heap_leads]) simp_all

definition arg_heap :: class_heap where
  "arg_heap = sample_heap\<lparr>ch_args := (\<lambda>_. sample_arg\<lparr>pa_name := [65]\<rparr>),
     ch_mempool := (knd_mempool_new KND_ALLOC_INCR 0 (\<lambda>_. 0))\<lparr>mp_tiny := empty_class\<lparr>pc_pages := 4096, pc_page_size := 64, pc_num_pages := 4\<rparr>\<rparr>\<rparr>"

lemma arg_heap_indexed: "fst (knd_repo_index_proc_arg KND_COMMIT_STATE 0 1 2 arg_heap) = None"
proof -
  have uid: "knd_uid_create 1 = Inr [49]" by code_simp
  show ?thesis
    by (simp add: knd_repo_index_proc_arg_def number_arg_def arg_heap_def sample_heap_def uid Let_def update_arg_def
        knd_proc_arg_ref_new_def knd_mempool_new_def empty_class_def knd_mempool_page_def incr_page_def update_arg_ref_def
        task_arg_set_def knd_dict_set_def dict_slot_def sample_index_def dict_item_new_def sample_arg_def)
qed

theorem proc_args_lost_witness:
  "\<exists>h'. knd_repo_index_proc_arg KND_COMMIT_STATE 0 1 2 arg_heap = (None, h') \<and> knd_proc_get_arg 1 [65] h' = Inl (Err knd_NO_MATCH)"
proof -
  obtain h' where "knd_repo_index_proc_arg KND_COMMIT_STATE 0 1 2 arg_heap = (None, h')"
    using arg_heap_indexed by (cases "knd_repo_index_proc_arg KND_COMMIT_STATE 0 1 2 arg_heap") simp
  moreover have "arg_refs_of (proc_repo arg_heap 1) (pa_name (ch_args arg_heap 2)) arg_heap = Inr None"
    by (simp add: arg_heap_def sample_heap_def arg_refs_of_def bind_result_def knd_shared_dict_get_def shared_slot_def knd_shared_dict_new_def
        sample_arg_def)
  moreover have "pa_name (ch_args arg_heap 2) = [65]" by (simp add: arg_heap_def)
  ultimately show ?thesis using proc_args_lost [of KND_COMMIT_STATE 0 1 2 arg_heap h' 1] by simp
qed

end
