(* ===== verification/Text_Resolve.thy ===== *)
theory Text_Resolve
  imports Proc_Resolve
begin

text \<open>
  Resolving a statement of a text: the values of the arguments of the instances of procedures name instances of
  classes that the statement declares. \<^verbatim>\<open>src/knd_text.resolve.c\<close>.
\<close>

section \<open>The operations\<close>

text \<open>An instance of a class is left as it is.\<close>

definition resolve_class_inst :: "nat \<Rightarrow> class_heap \<Rightarrow> failure option \<times> class_heap" where
  "resolve_class_inst entry h = (None, h)"

definition template_mismatch :: "class_heap \<Rightarrow> nat \<Rightarrow> nat option \<Rightarrow> failure option" where
  "template_mismatch h template blueprint =
     (case (ce_class (ch_entries h template), Option.bind blueprint (\<lambda>b. ce_class (ch_entries h b))) of
        (Some t, Some b) \<Rightarrow> knd_is_base t b h
      | _ \<Rightarrow> Some Stuck)"

definition match_inst :: "nat \<Rightarrow> nat \<Rightarrow> nat \<Rightarrow> class_heap \<Rightarrow> failure option \<times> class_heap" where
  "match_inst var template entry h =
     (if length (gv_val (ch_arg_vars h var)) \<noteq> length (ie_name (ch_inst_entries h entry)) then (None, h)
      else if ie_name (ch_inst_entries h entry) \<noteq> gv_val (ch_arg_vars h var) then (None, h)
      else
        (let h = update_arg_var var (\<lambda>v. v\<lparr>gv_inst := ie_inst (ch_inst_entries h entry)\<rparr>) h in
         (template_mismatch h template (ie_blueprint (ch_inst_entries h entry)), h)))"

definition resolve_inst_arg :: "kndStatement \<Rightarrow> nat \<Rightarrow> class_heap \<Rightarrow> failure option \<times> class_heap" where
  "resolve_inst_arg stm var h =
     (case gv_template (ch_arg_vars h var) of
        None \<Rightarrow> (None, h)
      | Some template \<Rightarrow>
          then_step
            (each_step (\<lambda>cd h. each_step (match_inst var template) (cd_insts (ch_class_declars h cd)) h) (sm_class_declars stm) h)
            (\<lambda>h. (if gv_inst (ch_arg_vars h var) = None then Some (Err knd_NO_MATCH) else None, h)))"

definition resolve_proc_inst :: "kndStatement \<Rightarrow> nat \<Rightarrow> class_heap \<Rightarrow> failure option \<times> class_heap" where
  "resolve_proc_inst stm procvar h = each_step (resolve_inst_arg stm) (pv_args (ch_proc_vars h procvar)) h"

definition resolve_class_declar :: "nat \<Rightarrow> class_heap \<Rightarrow> failure option \<times> class_heap" where
  "resolve_class_declar cd h =
     each_step (\<lambda>ci h.
       case ie_inst (ch_inst_entries h ci) of
         None \<Rightarrow> (None, h)
       | Some inst \<Rightarrow> resolve_class_inst ci h) (cd_insts (ch_class_declars h cd)) h"

definition resolve_proc_declar :: "kndStatement \<Rightarrow> nat \<Rightarrow> class_heap \<Rightarrow> failure option \<times> class_heap" where
  "resolve_proc_declar stm pd h =
     each_step (\<lambda>pi h.
       case pe_inst (ch_proc_inst_entries h pi) of
         None \<Rightarrow> (None, h)
       | Some inst \<Rightarrow>
           (case pi_procvar (ch_proc_insts h inst) of
              None \<Rightarrow> (None, h)
            | Some procvar \<Rightarrow> resolve_proc_inst stm procvar h)) (pd_insts (ch_proc_declars h pd)) h"

definition knd_statement_resolve :: "kndStatement \<Rightarrow> class_heap \<Rightarrow> failure option \<times> class_heap" where
  "knd_statement_resolve stm h =
     then_step (each_step resolve_class_declar (sm_class_declars stm) h)
       (each_step (resolve_proc_declar stm) (sm_proc_declars stm))"

section \<open>What a statement resolves to\<close>

text \<open>The values that a statement has to resolve, and the instances that a value names.\<close>

definition stm_vars :: "kndStatement \<Rightarrow> class_heap \<Rightarrow> nat list" where
  "stm_vars stm h =
     concat (map (\<lambda>pd. concat (map (\<lambda>pi.
       case Option.bind (pe_inst (ch_proc_inst_entries h pi)) (\<lambda>i. pi_procvar (ch_proc_insts h i)) of
         None \<Rightarrow> [] | Some v \<Rightarrow> pv_args (ch_proc_vars h v)) (pd_insts (ch_proc_declars h pd)))) (sm_proc_declars stm))"

definition named_insts :: "kndStatement \<Rightarrow> class_heap \<Rightarrow> nat \<Rightarrow> nat list" where
  "named_insts stm h var =
     filter (\<lambda>entry. ie_name (ch_inst_entries h entry) = gv_val (ch_arg_vars h var))
       (concat (map (\<lambda>cd. cd_insts (ch_class_declars h cd)) (sm_class_declars stm)))"

text \<open>The last instance of that name counts; without one the value keeps what it has.\<close>

definition target_inst :: "kndStatement \<Rightarrow> class_heap \<Rightarrow> nat \<Rightarrow> nat option" where
  "target_inst stm h var =
     (if named_insts stm h var = [] then gv_inst (ch_arg_vars h var)
      else ie_inst (ch_inst_entries h (last (named_insts stm h var))))"

definition resolvable :: "kndStatement \<Rightarrow> class_heap \<Rightarrow> nat \<Rightarrow> bool" where
  "resolvable stm h var \<longleftrightarrow>
     (case gv_template (ch_arg_vars h var) of
        None \<Rightarrow> True
      | Some t \<Rightarrow> target_inst stm h var \<noteq> None \<and>
          (\<forall>entry\<in>set (named_insts stm h var). template_mismatch h t (ie_blueprint (ch_inst_entries h entry)) = None))"

definition resolved_var :: "kndStatement \<Rightarrow> class_heap \<Rightarrow> nat \<Rightarrow> kndProcArgVar" where
  "resolved_var stm h var =
     (if gv_template (ch_arg_vars h var) = None then ch_arg_vars h var
      else (ch_arg_vars h var)\<lparr>gv_inst := target_inst stm h var\<rparr>)"

text \<open>The state \<open>h\<close> with other instances in the values, and the ones after the values of \<open>vs\<close> have been resolved.\<close>

definition with_insts :: "class_heap \<Rightarrow> (nat \<Rightarrow> nat option) \<Rightarrow> class_heap" where
  "with_insts h f = h\<lparr>ch_arg_vars := (\<lambda>v. (ch_arg_vars h v)\<lparr>gv_inst := f v\<rparr>)\<rparr>"

definition insts_after :: "kndStatement \<Rightarrow> class_heap \<Rightarrow> nat set \<Rightarrow> (nat \<Rightarrow> nat option) \<Rightarrow> nat \<Rightarrow> nat option" where
  "insts_after stm h vs f v = (if v \<in> vs \<and> gv_template (ch_arg_vars h v) \<noteq> None then target_inst stm h v else f v)"

text \<open>A step that resolves the values of \<open>vs\<close>, from any state that this statement reaches.\<close>

definition resolves :: "kndStatement \<Rightarrow> class_heap \<Rightarrow> nat list \<Rightarrow> (class_heap \<Rightarrow> failure option \<times> class_heap) \<Rightarrow> bool" where
  "resolves stm h vs k \<longleftrightarrow>
     (\<forall>f. (\<forall>v. f v = gv_inst (ch_arg_vars h v) \<or> f v = target_inst stm h v) \<longrightarrow>
       (if \<forall>v\<in>set vs. resolvable stm h v then k (with_insts h f) = (None, with_insts h (insts_after stm h (set vs) f))
        else \<exists>e f'. k (with_insts h f) = (Some e, with_insts h f')))"

lemma with_insts_simps [simp]:
  "ch_arg_vars (with_insts h f) v = (ch_arg_vars h v)\<lparr>gv_inst := f v\<rparr>"
  "ch_inst_entries (with_insts h f) = ch_inst_entries h" "ch_class_declars (with_insts h f) = ch_class_declars h"
  "ch_proc_declars (with_insts h f) = ch_proc_declars h" "ch_proc_inst_entries (with_insts h f) = ch_proc_inst_entries h"
  "ch_proc_insts (with_insts h f) = ch_proc_insts h" "ch_proc_vars (with_insts h f) = ch_proc_vars h"
  "ch_entries (with_insts h f) = ch_entries h" "ch_classes (with_insts h f) = ch_classes h"
  by (simp_all add: with_insts_def)

lemma mismatch_with_insts [simp]: "template_mismatch (with_insts h f) t b = template_mismatch h t b"
proof -
  have "is_base_in entry base refs (with_insts h f) = is_base_in entry base refs h" for entry base refs
    by (induction refs) (auto split: option.splits)
  then show ?thesis by (simp add: template_mismatch_def knd_is_base_def Let_def split: option.split)
qed

lemma match_with_insts:
  "match_inst var t entry (with_insts h f) =
     (if ie_name (ch_inst_entries h entry) = gv_val (ch_arg_vars h var)
      then (template_mismatch h t (ie_blueprint (ch_inst_entries h entry)), with_insts h (f(var := ie_inst (ch_inst_entries h entry))))
      else (None, with_insts h f))"
proof -
  have "update_arg_var var (\<lambda>v. v\<lparr>gv_inst := i\<rparr>) (with_insts h f) = with_insts h (f(var := i))" for i
    by (simp add: update_arg_var_def with_insts_def fun_eq_iff)
  then show ?thesis by (auto simp: match_inst_def Let_def)
qed

lemma match_all:
  fixes h :: class_heap
  defines "named L var \<equiv> filter (\<lambda>entry. ie_name (ch_inst_entries h entry) = gv_val (ch_arg_vars h var)) L"
  shows "if \<forall>entry\<in>set (named L var). template_mismatch h t (ie_blueprint (ch_inst_entries h entry)) = None
    then each_step (match_inst var t) L (with_insts h f) =
      (None, with_insts h (if named L var = [] then f else f(var := ie_inst (ch_inst_entries h (last (named L var))))))
    else \<exists>e f'. each_step (match_inst var t) L (with_insts h f) = (Some e, with_insts h f')"
proof (induction L arbitrary: f)
  case (Cons entry L)
  show ?case
  proof (cases "ie_name (ch_inst_entries h entry) = gv_val (ch_arg_vars h var)")
    case True
    show ?thesis
    proof (cases "template_mismatch h t (ie_blueprint (ch_inst_entries h entry))")
      case None
      define g where "g = f(var := ie_inst (ch_inst_entries h entry))"
      have step: "each_step (match_inst var t) (entry # L) (with_insts h f) = each_step (match_inst var t) L (with_insts h g)"
        using True None by (simp add: match_with_insts g_def)
      have "named (entry # L) var = entry # named L var" using True by (simp add: named_def)
      moreover have "(if named (entry # L) var = [] then f
          else f(var := ie_inst (ch_inst_entries h (last (named (entry # L) var))))) =
        (if named L var = [] then g else g(var := ie_inst (ch_inst_entries h (last (named L var)))))"
        by (simp add: calculation g_def)
      ultimately show ?thesis using Cons.IH [of g] None unfolding step by simp
    qed (use True in \<open>auto simp: match_with_insts named_def\<close>)
  next
    case False
    then show ?thesis using Cons.IH [of f] by (simp add: match_with_insts named_def)
  qed
qed (simp add: named_def)

lemma each_concat: "each_step f (concat (map g xs)) s = each_step (\<lambda>x. each_step f (g x)) xs s"
proof -
  have app: "each_step f (as @ bs) s = then_step (each_step f as s) (each_step f bs)" for as bs s
  proof (induction as arbitrary: s)
    case (Cons a as)
    obtain e1 s1 where "f a s = (e1, s1)" by (metis surj_pair)
    then show ?case using Cons by (cases e1) simp_all
  qed simp
  show ?thesis
  proof (induction xs arbitrary: s)
    case (Cons x xs)
    obtain e1 s1 where "each_step f (g x) s = (e1, s1)" by (metis surj_pair)
    then show ?case using Cons by (cases e1) (simp_all add: app)
  qed simp
qed

lemma resolves_nil: "(\<And>f. k (with_insts h f) = (None, with_insts h f)) \<Longrightarrow> resolves stm h [] k"
proof -
  have "insts_after stm h {} f = f" for f by (simp add: insts_after_def fun_eq_iff)
  then show "(\<And>f. k (with_insts h f) = (None, with_insts h f)) \<Longrightarrow> resolves stm h [] k" by (simp add: resolves_def)
qed

lemma resolves_then:
  assumes "resolves stm h vs k" and "resolves stm h ws l"
  shows "resolves stm h (vs @ ws) (\<lambda>h. then_step (k h) l)"
  unfolding resolves_def
proof (intro allI impI)
  fix f assume f: "\<forall>v. f v = gv_inst (ch_arg_vars h v) \<or> f v = target_inst stm h v"
  define g where "g = insts_after stm h (set vs) f"
  have g: "\<forall>v. g v = gv_inst (ch_arg_vars h v) \<or> g v = target_inst stm h v" using f by (simp add: g_def insts_after_def)
  have after: "insts_after stm h (set ws) g = insts_after stm h (set (vs @ ws)) f"
    by (auto simp: g_def insts_after_def fun_eq_iff)
  have k: "if \<forall>v\<in>set vs. resolvable stm h v then k (with_insts h f) = (None, with_insts h g)
      else \<exists>e f'. k (with_insts h f) = (Some e, with_insts h f')"
    using assms(1) f unfolding resolves_def g_def by blast
  have l: "if \<forall>v\<in>set ws. resolvable stm h v then l (with_insts h g) = (None, with_insts h (insts_after stm h (set (vs @ ws)) f))
      else \<exists>e f'. l (with_insts h g) = (Some e, with_insts h f')"
    using assms(2) g unfolding resolves_def after [symmetric] by blast
  show "if \<forall>v\<in>set (vs @ ws). resolvable stm h v
      then then_step (k (with_insts h f)) l = (None, with_insts h (insts_after stm h (set (vs @ ws)) f))
      else \<exists>e f'. then_step (k (with_insts h f)) l = (Some e, with_insts h f')"
  proof (cases "\<forall>v\<in>set vs. resolvable stm h v")
    case True
    then have run: "then_step (k (with_insts h f)) l = l (with_insts h g)" using k by simp
    show ?thesis unfolding run using l True by (simp add: ball_Un)
  next
    case False
    then obtain e f' where "k (with_insts h f) = (Some e, with_insts h f')" using k unfolding if_not_P [OF False] by blast
    moreover have "\<not> (\<forall>v\<in>set (vs @ ws). resolvable stm h v)" using False by auto
    ultimately show ?thesis by auto
  qed
qed

lemma resolves_cong: "resolves stm h vs k \<Longrightarrow> (\<And>f. k' (with_insts h f) = k (with_insts h f)) \<Longrightarrow> resolves stm h vs k'"
  by (simp add: resolves_def)

lemma resolves_each: "(\<And>x. resolves stm h (g x) (k x)) \<Longrightarrow> resolves stm h (concat (map g xs)) (each_step k xs)"
proof (induction xs)
  case Nil
  then show ?case by (simp add: resolves_nil)
next
  case (Cons x xs)
  have "each_step k (x # xs) = (\<lambda>h. then_step (k x h) (each_step k xs))" by (simp add: fun_eq_iff)
  then show ?case using resolves_then Cons by simp
qed

lemma match_declars:
  "each_step (\<lambda>cd h. each_step (match_inst var t) (cd_insts (ch_class_declars h cd)) h) cds (with_insts h f) =
     each_step (match_inst var t) (concat (map (\<lambda>cd. cd_insts (ch_class_declars h cd)) cds)) (with_insts h f)"
  unfolding each_concat
proof (induction cds arbitrary: f)
  case (Cons cd cds)
  obtain e1 f1 where "each_step (match_inst var t) (cd_insts (ch_class_declars h cd)) (with_insts h f) = (e1, with_insts h f1)"
    using match_all [where h = h and L = "cd_insts (ch_class_declars h cd)" and var = var and t = t and f = f] by (auto split: if_splits)
  then show ?case using Cons by (cases e1) simp_all
qed simp

lemma resolves_var: "resolves stm h [var] (resolve_inst_arg stm var)"
proof (cases "gv_template (ch_arg_vars h var)")
  case None
  then have "insts_after stm h {var} f = f" for f by (simp add: insts_after_def fun_eq_iff)
  then show ?thesis using None by (simp add: resolves_def resolvable_def resolve_inst_arg_def)
next
  case (Some t)
  let ?L = "concat (map (\<lambda>cd. cd_insts (ch_class_declars h cd)) (sm_class_declars stm))"
  show ?thesis
    unfolding resolves_def
  proof (intro allI impI)
    fix f assume f: "\<forall>v. f v = gv_inst (ch_arg_vars h v) \<or> f v = target_inst stm h v"
    have run: "resolve_inst_arg stm var (with_insts h f) =
        then_step (each_step (match_inst var t) ?L (with_insts h f))
          (\<lambda>h. (if gv_inst (ch_arg_vars h var) = None then Some (Err knd_NO_MATCH) else None, h))"
      using Some by (simp add: resolve_inst_arg_def match_declars)
    have after: "insts_after stm h {var} f = f(var := target_inst stm h var)" using Some by (auto simp: insts_after_def fun_eq_iff)
    have same: "(if named_insts stm h var = [] then f else f(var := ie_inst (ch_inst_entries h (last (named_insts stm h var))))) =
        f(var := target_inst stm h var)"
      using f by (auto simp: target_inst_def fun_eq_iff)
    show "if \<forall>v\<in>set [var]. resolvable stm h v
        then resolve_inst_arg stm var (with_insts h f) = (None, with_insts h (insts_after stm h (set [var]) f))
        else \<exists>e f'. resolve_inst_arg stm var (with_insts h f) = (Some e, with_insts h f')"
      using match_all [where h = h and L = ?L and var = var and t = t and f = f] Some
      unfolding run named_insts_def [symmetric] same by (auto simp: resolvable_def after split: if_splits)
  qed
qed

text \<open>
  C18: What \<open>knd_statement_resolve\<close> does. It succeeds exactly when every value with a template, of every instance of
  a procedure, names an instance that the statement declares (or has one already), and every declared instance of that
  name is of a class that derives from the template. Then each such value has the last declared instance of its name,
  and nothing else has changed; a failing run changes nothing but instances of values.
\<close>

theorem statement_resolve_spec:
  "if \<forall>v\<in>set (stm_vars stm h). resolvable stm h v
   then knd_statement_resolve stm h =
     (None, h\<lparr>ch_arg_vars := (\<lambda>v. if v \<in> set (stm_vars stm h) \<and> gv_template (ch_arg_vars h v) \<noteq> None
        then (ch_arg_vars h v)\<lparr>gv_inst := target_inst stm h v\<rparr> else ch_arg_vars h v)\<rparr>)
   else \<exists>e f. knd_statement_resolve stm h = (Some e, with_insts h f)"
proof -
  let ?f = "\<lambda>v. gv_inst (ch_arg_vars h v)"
  have start: "with_insts h ?f = h" by (simp add: with_insts_def)
  have classes: "each_step resolve_class_declar cds h = (None, h)" for cds
  proof -
    have "each_step (\<lambda>ci h. case ie_inst (ch_inst_entries h ci) of None \<Rightarrow> (None, h) | Some inst \<Rightarrow> resolve_class_inst ci h) cis h = (None, h)" for cis
      by (induction cis) (auto simp: resolve_class_inst_def split: option.split)
    then show ?thesis by (induction cds) (simp_all add: resolve_class_declar_def)
  qed
  let ?args = "\<lambda>pi. case Option.bind (pe_inst (ch_proc_inst_entries h pi)) (\<lambda>i. pi_procvar (ch_proc_insts h i)) of
      None \<Rightarrow> [] | Some v \<Rightarrow> pv_args (ch_proc_vars h v)"
  have inst: "resolves stm h (?args pi)
      (\<lambda>h. case pe_inst (ch_proc_inst_entries h pi) of
         None \<Rightarrow> (None, h)
       | Some inst \<Rightarrow> (case pi_procvar (ch_proc_insts h inst) of None \<Rightarrow> (None, h) | Some procvar \<Rightarrow> resolve_proc_inst stm procvar h))" for pi
  proof (cases "Option.bind (pe_inst (ch_proc_inst_entries h pi)) (\<lambda>i. pi_procvar (ch_proc_insts h i))")
    case None
    then show ?thesis by (auto intro: resolves_nil split: option.split bind_split_asm)
  next
    case (Some v)
    have "resolves stm h (pv_args (ch_proc_vars h v)) (each_step (resolve_inst_arg stm) (pv_args (ch_proc_vars h v)))"
      using resolves_each [of stm h "\<lambda>x. [x]" "resolve_inst_arg stm" "pv_args (ch_proc_vars h v)"] resolves_var by simp
    moreover obtain i where i: "pe_inst (ch_proc_inst_entries h pi) = Some i" "pi_procvar (ch_proc_insts h i) = Some v"
      using Some by (auto split: bind_split_asm)
    ultimately show ?thesis using Some by (simp, elim resolves_cong) (simp add: resolve_proc_inst_def i)
  qed
  have declar: "resolves stm h (concat (map ?args (pd_insts (ch_proc_declars h pd)))) (resolve_proc_declar stm pd)" for pd
    by (rule resolves_cong [OF resolves_each [OF inst]]) (simp add: resolve_proc_declar_def)
  have "resolves stm h (stm_vars stm h) (each_step (resolve_proc_declar stm) (sm_proc_declars stm))"
    unfolding stm_vars_def by (rule resolves_each [OF declar])
  then have "if \<forall>v\<in>set (stm_vars stm h). resolvable stm h v
      then each_step (resolve_proc_declar stm) (sm_proc_declars stm) h = (None, with_insts h (insts_after stm h (set (stm_vars stm h)) ?f))
      else \<exists>e f'. each_step (resolve_proc_declar stm) (sm_proc_declars stm) h = (Some e, with_insts h f')"
    unfolding resolves_def using start by (metis (no_types, lifting))
  moreover have "with_insts h (insts_after stm h (set (stm_vars stm h)) ?f) =
      h\<lparr>ch_arg_vars := (\<lambda>v. if v \<in> set (stm_vars stm h) \<and> gv_template (ch_arg_vars h v) \<noteq> None
        then (ch_arg_vars h v)\<lparr>gv_inst := target_inst stm h v\<rparr> else ch_arg_vars h v)\<rparr>"
    unfolding with_insts_def by (rule arg_cong [where f = "\<lambda>f. h\<lparr>ch_arg_vars := f\<rparr>"]) (auto simp: insts_after_def fun_eq_iff)
  ultimately show ?thesis by (simp add: knd_statement_resolve_def classes)
qed

text \<open>
  A statement declares the instance 9, named \<^verbatim>\<open>A\<close>, of the class 10; value 5 has that name. Its template is class 6,
  from which 10 derives; with the template 10 itself the statement is refused.
\<close>

definition stm_heap :: "nat \<Rightarrow> class_heap" where
  "stm_heap t = sample_heap\<lparr>ch_proc_declars := (\<lambda>_. \<lparr>pd_entry = 0, pd_insts = [2]\<rparr>),
     ch_proc_inst_entries := (\<lambda>_. \<lparr>pe_inst_name = [], pe_inst = Some 3\<rparr>), ch_proc_insts := (\<lambda>_. \<lparr>pi_name = [], pi_procvar = Some 4\<rparr>),
     ch_proc_vars := (\<lambda>_. \<lparr>pv_name = [], pv_proc = None, pv_args = [5]\<rparr>),
     ch_arg_vars := (\<lambda>_. \<lparr>gv_name = [], gv_val = [65], gv_template = Some t, gv_inst = None\<rparr>),
     ch_class_declars := (\<lambda>_. \<lparr>cd_entry = 10, cd_insts = [8]\<rparr>),
     ch_inst_entries := (\<lambda>_. \<lparr>ie_id = [], ie_name = [65], ie_blueprint = Some 10, ie_inst = Some 9, ie_attr_idxs = []\<rparr>),
     ch_entries := (\<lambda>e. (ch_entries sample_heap e)\<lparr>ce_class := Some e\<rparr>),
     ch_classes := (\<lambda>c. cleared_class\<lparr>c_entry := c, c_ancestors := if c = 10 then [(6, 6)] else []\<rparr>)\<rparr>"

definition demo_stm :: kndStatement where
  "demo_stm = \<lparr>sm_schema_name = [], sm_class_declars = [7], sm_proc_declars = [1]\<rparr>"

lemma demo_stm_facts:
  "stm_vars demo_stm (stm_heap t) = [5]" "target_inst demo_stm (stm_heap t) 5 = Some 9"
  "resolvable demo_stm (stm_heap t) 5 \<longleftrightarrow> t = 6" "gv_template (ch_arg_vars (stm_heap t) 5) = Some t"
  by (simp_all add: stm_vars_def demo_stm_def stm_heap_def target_inst_def named_insts_def resolvable_def template_mismatch_def
      knd_is_base_def sample_heap_def)

theorem statement_resolve_spec_witness:
  "(\<exists>h'. knd_statement_resolve demo_stm (stm_heap 6) = (None, h') \<and> gv_inst (ch_arg_vars h' 5) = Some 9) \<and>
   (\<exists>e h'. knd_statement_resolve demo_stm (stm_heap 10) = (Some e, h'))"
  using statement_resolve_spec [of demo_stm "stm_heap 6"] statement_resolve_spec [of demo_stm "stm_heap 10"] demo_stm_facts
  by auto

end
