(* ===== verification/Spec2Isabelle.thy ===== *)
theory Spec2Isabelle
  imports
    Packing
    Text_Codec
    File_Paths
    Output
    Mempool_Shared
    Dict
    Shared_Dict_Threads
    Elem_Set
    Gsp_Roundtrip
    Set_Idx
    Cache_Threads
    Commit
    Class_Closure
    Class_Inherit
    Class_Resolve
    Class_Descendants
    Class_States
    Charseq
    Text_Index
    Text_Resolve
begin

text \<open>
  The core of the Knowdy graph database, \<^verbatim>\<open>src/src\<close> and \<^verbatim>\<open>src/include\<close>: identifiers, memory, containers, set
  files, the cache, the confirmation of commits, and the classes with their inheritance, indices, instances and
  updates.

  \<^bold>\<open>The program.\<close> A repository names classes, whose concepts derive from base classes and have attributes with
  values; instances of classes have values of their own. All of them are known by a number that is written as an
  identifier of base 62 (\<^verbatim>\<open>knd_utils.c\<close>). Objects, nodes of trees and references are pages of memory pools
  (\<^verbatim>\<open>knd_mempool.c\<close>). Names are found by hash tables, those of a task (\<^verbatim>\<open>knd_dict.c\<close>) before those that
  threads share (\<^verbatim>\<open>knd_shared_dict.c\<close>). Identifiers lead to objects by trees over their digits
  (\<^verbatim>\<open>knd_set.c\<close>, \<^verbatim>\<open>knd_shared_set.c\<close>), which are written to set files and read back, whole or one element
  (\<^verbatim>\<open>knd_shared_set.c\<close>, \<^verbatim>\<open>knd_shared_set.gsp.c\<close>). A task changes classes and instances by states, which it puts
  into a commit; the arbiter confirms a commit by linking it to the one before and writing it to a journal
  (\<^verbatim>\<open>knd_commit.c\<close>, \<^verbatim>\<open>knd_repo.commit.c\<close>). Classes are resolved, which links their ancestors and inherits
  attributes (\<^verbatim>\<open>knd_class.resolve.c\<close>, \<^verbatim>\<open>knd_attr.resolve.c\<close>, \<^verbatim>\<open>knd_attr_var.resolve.c\<close>), and indexed,
  which registers them with what they derive from and refer to (\<^verbatim>\<open>knd_class.index.c\<close>, \<^verbatim>\<open>knd_attr_var.index.c\<close>).

  \<^bold>\<open>Conventions.\<close> Integers have the width of the code and wrap. An error is a value: the code \<open>Err\<close> of
  \<^verbatim>\<open>knd_err.h\<close>, or \<open>Stuck\<close> where the code has no defined behaviour, such as a failed assertion, a pointer that
  is NULL, or an index out of its array. Objects that are shared are addresses into a heap
  (\<open>class_heap\<close>); a chain that is only read from its head is a list. Calls that are not under
  \<^verbatim>\<open>src\<close>, and the parts named below, are parameters. Threads are interleaved step by step, as if memory was
  sequentially consistent; the weaker orderings that some accesses of the code ask for are not modelled. Where C leaves
  the shift of a byte into the sign open, the model does what compilers do. Nodes of the sets of classes come
  from the pool of the task.

  \<^bold>\<open>Theories.\<close>
  \<^item> \<open>Prelude\<close>: machine types, error codes, limits of \<^verbatim>\<open>knd_config.h\<close>, lists as arrays, words.
  \<^item> \<open>Ident\<close>, \<open>Packing\<close>, \<open>Text_Codec\<close>, \<open>File_Paths\<close>: \<^verbatim>\<open>knd_utils.c\<close>. Round trips of identifiers,
    packed sizes, UTF-8 and base64; what creating the directories of a path leaves.
  \<^item> \<open>Output\<close>: \<^verbatim>\<open>knd_output.c\<close>, a bounded buffer; its contract is the locale \<open>byte_sink\<close>.
  \<^item> \<open>Mempool\<close>, \<open>Mempool_Shared\<close>: \<^verbatim>\<open>knd_mempool.c\<close>, run by one thread (contract \<open>page_source\<close>) and with
    the loads and compare-and-swaps of threads interleaved. No page is handed out twice.
  \<^item> \<open>Name_Index\<close>: the locale of everything that finds objects by names or identifiers. It is interpreted by
    \<open>Dict\<close> (\<^verbatim>\<open>knd_dict.c\<close>), \<open>Shared_Dict\<close> (\<^verbatim>\<open>knd_shared_dict.c\<close>), \<open>Elem_Set\<close> (\<^verbatim>\<open>knd_set.c\<close>) and
    \<open>Shared_Set\<close> (\<^verbatim>\<open>knd_shared_set.c\<close>), each shown to be a map. \<open>Shared_Dict_Threads\<close> interleaves threads that set names, make them
    valid after a commit (\<^verbatim>\<open>knd_class_inst.index.c\<close>) and remove them.
  \<^item> \<open>Elem_Idx\<close>: the trees of both kinds of sets over a source of nodes, the locale \<open>node_source\<close>, which pools
    and the shared memory interpret; storing, visiting, intersecting.
  \<^item> \<open>Gsp_Format\<close>, \<open>Gsp_Marshall\<close>, \<open>Gsp_Unmarshall\<close>, \<open>Gsp_Roundtrip\<close>: the bytes of a set file, its writer
    and its reader, and that the reader gives back what was written.
  \<^item> \<open>Set_Idx\<close>: \<^verbatim>\<open>knd_set_idx.c\<close>, sets as trees of bit masks. \<open>Cache\<close>, \<open>Cache_Threads\<close>: \<^verbatim>\<open>knd_cache.c\<close>.
  \<^item> \<open>State_Refs\<close>, \<open>Commit\<close>: states, commits and their confirmation, \<^verbatim>\<open>knd_state.c\<close>, \<^verbatim>\<open>knd_commit.c\<close>,
    \<^verbatim>\<open>knd_repo.commit.c\<close>. What a commit writes to its journal, and which conflicts are not found.
  \<^item> \<open>Text_Data\<close>, \<open>Attr_Data\<close>, \<open>Class_Heap\<close>: the data of texts, attributes and classes, and finding a class.
  \<^item> \<open>Class_Base\<close>, \<open>Class_Loaded\<close>, \<open>Class_Closure\<close>: resolving base classes, that it returns, and that the
    ancestors it links are the transitive base classes (\<open>derives\<close>) or a circle is reported.
  \<^item> \<open>Class_Pages\<close>, \<open>Class_Attrs\<close>, \<open>Class_Inherit\<close>: the pages that operations take; attributes, and that
    inheriting them merges maps. \<open>Class_Resolve\<close>: values of attributes, and resolving a class as a whole.
  \<^item> \<open>Class_Index\<close>, \<open>Class_Descendants\<close>: indexing a class, and which sets of descendants it enters.
  \<^item> \<open>Class_Inst\<close>, \<open>Class_States\<close>: instances, copy on write, and the updates of a class between two states.
  \<^item> \<open>Charseq\<close>: the strings of a repository, \<^verbatim>\<open>knd_text.c\<close>, \<^verbatim>\<open>knd_text.gsp.c\<close>, \<^verbatim>\<open>knd_repo.gsp.c\<close>,
    \<^verbatim>\<open>knd_repo.open.c\<close>: their registration, their snapshot and its reading, which loses their numbers.
  \<^item> \<open>Proc_Data\<close>, \<open>Proc_Heap\<close>, \<open>Proc_Resolve\<close>: procedures and their arguments, \<^verbatim>\<open>knd_proc.c\<close>, \<^verbatim>\<open>knd_proc_arg.c\<close>,
    \<^verbatim>\<open>knd_proc.resolve.c\<close>. Resolving returns, and refuses circles of base procedures.
  \<^item> \<open>Text_Index\<close>, \<open>Text_Resolve\<close>: entering what texts declare into the indices of classes, \<^verbatim>\<open>knd_text.index.c\<close>, and
    resolving statements, \<^verbatim>\<open>knd_text.resolve.c\<close>. What is counted, what is lost, and which values are resolved.

  \<^bold>\<open>Fuel.\<close> Resolving a base class follows pointers that the data may close to a circle, so \<open>resolve_base\<close> has
  fuel and gives None without enough; \<open>class_base_returns\<close> shows that more fuel than there are loaded classes is
  enough; \<open>proc_resolve_returns\<close> shows the same for procedures. \<open>Class_Resolve\<close> has fuel in the same way for the values that refer to other classes. Loops of the
  threads are steps of a relation instead, and every other operation is total.

  \<^bold>\<open>Not modelled.\<close>
  \<^item> The parser of GSL is a git submodule whose files are not in the repository. What is driven by it, namely
    importing, reading and selecting classes, attributes, texts, procedures and users, requests to tasks, the
    settings of pools, shards and schemas, and restoring commits from a journal, is left out; where other code
    calls it, it is a parameter: reading the body of a class (\<open>fetch\<close> in \<open>Class_Heap\<close>) and of an instance
    (\<open>Class_Inst\<close>).
  \<^item> Texts and procedures are modelled by theories of their own; \<open>Class_Resolve\<close>, \<open>Class_Inst\<close> and \<open>Commit\<close>
    take what they call of them as parameters. Procedures have no computation.
  \<^item> The printers of classes and instances to GSL, JSON and the set format write the fields of the data one after
    the other to an output buffer, whose operations are modelled.
  \<^item> \<^verbatim>\<open>knd_queue.c\<close>, \<^verbatim>\<open>knd_storage.c\<close>, \<^verbatim>\<open>knd_shared_idx.c\<close> and \<^verbatim>\<open>knd_class.compute.c\<close> are not part of the build, and
    \<^verbatim>\<open>knd_unregister_class_inst\<close> is never called.
  \<^item> The texts of log messages and errors, which \<^verbatim>\<open>KND_TASK_ERR\<close> also writes to the buffer of the task, and the counter of readers of an entry, which is never read. The
    network service and the shell have no logic of the database.
\<close>

end
